(* ===== verification/Prelude.thy ===== *)
theory Prelude
  imports Main "HOL-Library.Word"
begin

text \<open>
  What the component theories share: the machine integer types of the Rust sources, byte buffers
  and the slice operations on them (\<open>copy_from_slice\<close>, \<open>to_le_bytes\<close>, \<open>from_le_bytes\<close>), the error
  values of \<open>src/src/error.rs\<close>, and the generic facts on words and lists that carry the component
  proofs. Arithmetic on \<open>u64\<close> is arithmetic on \<open>64 word\<close>: it wraps, as the release build of the
  sources does. A \<open>usize\<close> that counts bytes of a buffer in memory is a \<open>nat\<close>.
\<close>

unbundle bit_operations_syntax

section \<open>Types\<close>

type_synonym u8 = "8 word"
type_synonym u16 = "16 word"
type_synonym u32 = "32 word"
type_synonym u64 = "64 word"
type_synonym bytes = "u8 list"

text \<open>
  \<open>std::io::Error\<close>: an operating system error number, or the error kind the sources construct
  themselves.
\<close>

datatype io_error = OsError int | WriteZero

datatype HeapError =
    Io io_error
  | Corrupt string u64
  | NotFound u64
  | InvalidArg string

text \<open>
  A function that returns \<open>Result<T, HeapError>\<close> returns \<open>T\<close> or an error, or it panics
  (\<open>expect\<close>, an index out of range); both leave the caller at once.
\<close>

datatype failure = Err HeapError | Panic string

type_synonym 'a res = "failure + 'a"

text \<open>
  The \<open>?\<close> operator on an operation that updates a state: an error or a panic leaves at once, with the
  state as it is then.
\<close>

definition and_then :: "'a res \<times> 's \<Rightarrow> ('a \<Rightarrow> 's \<Rightarrow> 'b res \<times> 's) \<Rightarrow> 'b res \<times> 's" where
  "and_then x f = (case x of (Inl e, s) \<Rightarrow> (Inl e, s) | (Inr a, s) \<Rightarrow> f a s)"

lemma and_then_simps [simp]:
  "and_then (Inl e, s) f = (Inl e, s)" "and_then (Inr a, s) f = f a s"
  by (simp_all add: and_then_def)

lemma and_then_Inr:
  assumes "and_then x f = (Inr b, t)"
  obtains a s where "x = (Inr a, s)" "f a s = (Inr b, t)"
  using assms by (auto simp: and_then_def split: prod.splits sum.splits)

section \<open>Lemma collections\<close>

named_theorems put_slice_simps \<open>slices of a buffer after writes into it\<close>
named_theorems unat_simps \<open>word arithmetic that does not wrap, read as natural numbers\<close>

section \<open>Words that do not wrap\<close>

lemma unat_add_nowrap [unat_simps]:
  fixes a b :: "'a::len word"
  assumes "unat a + unat b < 2 ^ LENGTH('a)"
  shows "unat (a + b) = unat a + unat b"
  using assms by (simp add: unat_word_ariths)

lemma unat_sub_nowrap [unat_simps]:
  fixes a b :: "'a::len word"
  assumes "unat b \<le> unat a"
  shows "unat (a - b) = unat a - unat b"
  using assms by (simp add: unat_sub word_le_nat_alt)

lemma unat_of_nat_nowrap [unat_simps]:
  assumes "n < 2 ^ LENGTH('a)"
  shows "unat (of_nat n :: 'a::len word) = n"
  using assms by (simp add: unat_of_nat take_bit_nat_eq_self)

lemma unat_mul_nowrap [unat_simps]:
  fixes a b :: "'a::len word"
  assumes "unat a * unat b < 2 ^ LENGTH('a)"
  shows "unat (a * b) = unat a * unat b"
  using assms by (simp add: unat_word_ariths)

lemma unat_max [simp]: "unat (max a b) = max (unat a) (unat b)"
  by (simp add: max_def word_le_nat_alt)

lemma unat_min [simp]: "unat (min a b) = min (unat a) (unat b)"
  by (simp add: min_def word_le_nat_alt)

lemma unat_u64_less [simp]: "unat (w :: u64) < 18446744073709551616"
  using unsigned_less [of w] by simp

lemma word_add_self_of_nat: "(a :: 'a::len word) + of_nat m + of_nat n = a + of_nat (m + n)"
  by simp

section \<open>Byte buffers\<close>

text \<open>
  \<open>buf[i .. i + src.len()].copy_from_slice(src)\<close>: the buffer with the bytes from index \<open>i\<close>
  replaced. The sources only write inside the buffer; the facts below assume it where it matters.
\<close>

definition put_slice :: "nat \<Rightarrow> 'a list \<Rightarrow> 'a list \<Rightarrow> 'a list" where
  "put_slice i src buf = take i buf @ src @ drop (i + length src) buf"

lemma length_put_slice [simp]: "i + length src \<le> length buf \<Longrightarrow> length (put_slice i src buf) = length buf"
  by (simp add: put_slice_def)

lemma put_slice_Nil [simp]: "put_slice i [] buf = buf"
  by (simp add: put_slice_def)

lemma put_slice_put_slice [put_slice_simps]:
  assumes "j = i + length s" and "i + length s + length t \<le> length buf"
  shows "put_slice j t (put_slice i s buf) = put_slice i (s @ t) buf"
  using assms by (cases s) (auto simp: put_slice_def min_def ac_simps)

lemma take_put_slice_0 [put_slice_simps]: "n = length s \<Longrightarrow> take n (put_slice 0 s buf) = s"
  by (simp add: put_slice_def)

lemma put_slice_0_all [put_slice_simps]: "length s = length buf \<Longrightarrow> put_slice 0 s buf = s"
  by (simp add: put_slice_def)

lemma nth_put_slice:
  assumes "i + length s \<le> length buf" and "k < length buf"
  shows "put_slice i s buf ! k = (if i \<le> k \<and> k < i + length s then s ! (k - i) else buf ! k)"
  using assms by (auto simp: put_slice_def nth_append min_def)

text \<open>The slice \<open>buf[i .. i + n]\<close>.\<close>

abbreviation slice_of :: "nat \<Rightarrow> nat \<Rightarrow> 'a list \<Rightarrow> 'a list" where
  "slice_of i n buf \<equiv> take n (drop i buf)"

lemma slice_of_append [put_slice_simps]:
  "i = length a \<Longrightarrow> n = length b \<Longrightarrow> slice_of i n (a @ b @ c) = b"
  "i = length a \<Longrightarrow> n = length b \<Longrightarrow> slice_of i n (a @ b) = b"
  by simp_all

section \<open>Searching a list\<close>

text \<open>\<open>iter().position(P)\<close>.\<close>

fun position :: "('a \<Rightarrow> bool) \<Rightarrow> 'a list \<Rightarrow> nat option" where
  "position P [] = None"
| "position P (x # xs) = (if P x then Some 0 else map_option Suc (position P xs))"

lemma position_Some: "position P xs = Some i \<Longrightarrow> i < length xs \<and> P (xs ! i)"
  by (induction xs arbitrary: i) (auto split: if_splits)

lemma list_ex_enumerate:
  "list_ex (\<lambda>(j, x). P j x) (enumerate 0 xs) \<longleftrightarrow> (\<exists>j < length xs. P j (xs ! j))"
  by (auto simp: list_ex_iff in_set_enumerate_eq)

section \<open>Little-endian integers\<close>

text \<open>\<open>to_le_bytes\<close> of an integer of \<open>n\<close> bytes and \<open>from_le_bytes\<close>.\<close>

definition to_le_bytes :: "nat \<Rightarrow> 'a::len word \<Rightarrow> bytes" where
  "to_le_bytes n w = map (\<lambda>i. ucast (drop_bit (8 * i) w)) [0..<n]"

fun from_le_bytes :: "bytes \<Rightarrow> 'a::len word" where
  "from_le_bytes [] = 0"
| "from_le_bytes (b # bs) = ucast b OR push_bit 8 (from_le_bytes bs)"

lemma length_to_le_bytes [simp]: "length (to_le_bytes n w) = n"
  by (simp add: to_le_bytes_def)

lemma nth_to_le_bytes: "i < n \<Longrightarrow> to_le_bytes n w ! i = ucast (drop_bit (8 * i) w)"
  by (simp add: to_le_bytes_def)

lemma to_le_bytes_Suc:
  "to_le_bytes (Suc n) w = ucast w # to_le_bytes n (drop_bit 8 w)"
  by (rule nth_equalityI)
    (auto simp: nth_to_le_bytes nth_Cons' drop_bit_drop_bit algebra_simps)

lemma bit_from_le_bytes:
  "bit (from_le_bytes bs :: 'a::len word) k \<longleftrightarrow>
     k < LENGTH('a) \<and> k < 8 * length bs \<and> bit (bs ! (k div 8)) (k mod 8)"
proof (induction bs arbitrary: k)
  case Nil
  then show ?case by simp
next
  case (Cons b bs)
  show ?case
  proof (cases "k < 8")
    case True
    then show ?thesis by (auto simp: bit_simps)
  next
    case False
    then have k: "k div 8 = Suc ((k - 8) div 8)" "k mod 8 = (k - 8) mod 8"
      by (simp_all add: div_if mod_if)
    have "\<not> bit b k"
      using False bit_imp_le_length [of b k] by auto
    with False show ?thesis
      by (auto simp: bit_simps Cons.IH k)
  qed
qed

lemma from_to_le_bytes [simp]:
  assumes "LENGTH('a) \<le> 8 * n"
  shows "from_le_bytes (to_le_bytes n w) = (w :: 'a::len word)"
proof (rule bit_word_eqI)
  fix k
  assume k: "k < LENGTH('a)"
  with assms have "k div 8 < n" by (simp add: div_less_iff_less_mult mult.commute)
  with k assms show "bit (from_le_bytes (to_le_bytes n w) :: 'a word) k = bit w k"
    by (simp add: bit_from_le_bytes nth_to_le_bytes bit_simps)
qed

lemma to_from_le_bytes:
  assumes "length bs = n" and "8 * n \<le> LENGTH('a)"
  shows "to_le_bytes n (from_le_bytes bs :: 'a::len word) = bs"
proof (rule nth_equalityI)
  fix i
  assume "i < length (to_le_bytes n (from_le_bytes bs :: 'a word))"
  then have i: "i < n" by simp
  show "to_le_bytes n (from_le_bytes bs :: 'a word) ! i = bs ! i"
  proof (rule bit_word_eqI)
    fix k
    assume "k < LENGTH(8)"
    then have k: "k < 8" by simp
    have "(8 * i + k) div 8 = i" "(8 * i + k) mod 8 = k"
      using k by simp_all
    moreover have "8 * i + k < 8 * n" using i k by simp
    ultimately show "bit (to_le_bytes n (from_le_bytes bs :: 'a word) ! i) k = bit (bs ! i) k"
      using i k assms by (simp add: nth_to_le_bytes bit_simps bit_from_le_bytes)
  qed
qed (simp add: assms)

lemma from_le_bytes_inject:
  assumes "length bs = length cs" and "8 * length bs \<le> LENGTH('a)"
    and "(from_le_bytes bs :: 'a::len word) = from_le_bytes cs"
  shows "bs = cs"
  using to_from_le_bytes [of bs "length bs", where 'a = 'a] to_from_le_bytes [of cs "length cs", where 'a = 'a]
    assms by metis

lemma to_le_bytes_inject:
  assumes "to_le_bytes n v = to_le_bytes n (w :: 'a::len word)" and "LENGTH('a) \<le> 8 * n"
  shows "v = w"
  using assms from_to_le_bytes by metis

end
