(* ===== verification/Crc32.thy ===== *)
theory Crc32
  imports Prelude
begin

text \<open>
  The checksum of \<open>src/src/crc32.rs\<close>: the construction of the eight lookup tables and the routine
  that consumes eight bytes per step. The routine is shown equal to the bit-by-bit CRC-32C, and the
  checksum to change whenever up to four neighbouring bytes of the input change.
\<close>

section \<open>Tables\<close>

definition CRC32C_POLYNOMIAL :: u32 where
  "CRC32C_POLYNOMIAL = 0x82F63B78"

text \<open>One round of the innermost loop of \<open>build_tables\<close>.\<close>

definition crc_bit :: "u32 \<Rightarrow> u32" where
  "crc_bit crc = (if crc AND 1 \<noteq> 0 then drop_bit 1 crc XOR CRC32C_POLYNOMIAL else drop_bit 1 crc)"

text \<open>The eight rounds for one byte value.\<close>

definition crc_byte :: "u32 \<Rightarrow> u32" where
  "crc_byte crc = (crc_bit ^^ 8) crc"

definition first_table :: "u32 list" where
  "first_table = map (\<lambda>byte_value. crc_byte (of_nat byte_value)) [0..<256]"

definition next_table :: "u32 list \<Rightarrow> u32 list" where
  "next_table previous =
     map (\<lambda>prev. drop_bit 8 prev XOR first_table ! unat (prev AND 0xFF)) previous"

definition build_tables :: "u32 list list" where
  "build_tables = map (\<lambda>table_index. (next_table ^^ table_index) first_table) [0..<8]"

definition TABLES :: "u32 list list" where
  "TABLES = build_tables"

section \<open>The checksum\<close>

fun crc_chunk :: "u32 \<Rightarrow> bytes \<Rightarrow> u32" where
  "crc_chunk crc chunk =
     (let lower = from_le_bytes (take 4 chunk) XOR crc;
          upper = from_le_bytes (take 4 (drop 4 chunk)) :: u32
      in TABLES ! 7 ! unat (lower AND 0xFF)
         XOR TABLES ! 6 ! unat (drop_bit 8 lower AND 0xFF)
         XOR TABLES ! 5 ! unat (drop_bit 16 lower AND 0xFF)
         XOR TABLES ! 4 ! unat (drop_bit 24 lower)
         XOR TABLES ! 3 ! unat (upper AND 0xFF)
         XOR TABLES ! 2 ! unat (drop_bit 8 upper AND 0xFF)
         XOR TABLES ! 1 ! unat (drop_bit 16 upper AND 0xFF)
         XOR TABLES ! 0 ! unat (drop_bit 24 upper))"

text \<open>\<open>for chunk in data.chunks_exact(8)\<close>: the checksum so far and the remainder of the data.\<close>

function crc_chunks :: "u32 \<Rightarrow> bytes \<Rightarrow> u32 \<times> bytes" where
  "crc_chunks crc data =
     (if 8 \<le> length data then crc_chunks (crc_chunk crc (take 8 data)) (drop 8 data)
      else (crc, data))"
  by pat_completeness auto
termination
  by (relation "measure (\<lambda>(crc, data). length data)") auto

declare crc_chunks.simps [simp del]
declare crc_chunk.simps [simp del]

fun crc_remainder :: "u32 \<Rightarrow> bytes \<Rightarrow> u32" where
  "crc_remainder crc [] = crc"
| "crc_remainder crc (byte # rest) =
     crc_remainder (drop_bit 8 crc XOR TABLES ! 0 ! unat ((crc XOR ucast byte) AND 0xFF)) rest"

definition crc32c :: "bytes \<Rightarrow> u32" where
  "crc32c data = (let (crc, rest) = crc_chunks (NOT 0) data in NOT (crc_remainder crc rest))"

section \<open>The bit-by-bit checksum\<close>

text \<open>The reference: one byte enters the register, eight rounds follow.\<close>

definition crc_step :: "u32 \<Rightarrow> u8 \<Rightarrow> u32" where
  "crc_step crc byte = crc_byte (crc XOR ucast byte)"

definition crc32c_reference :: "bytes \<Rightarrow> u32" where
  "crc32c_reference data = NOT (foldl crc_step (NOT 0) data)"

section \<open>The rounds are linear and injective\<close>

lemma crc_bit_odd: "crc_bit x = (drop_bit 1 x XOR (if odd x then CRC32C_POLYNOMIAL else 0))"
  by (simp add: crc_bit_def and_one_eq mod_2_eq_odd)

lemma odd_xor_word: "odd (x XOR y) = (odd x \<noteq> odd (y :: 'a::len word))"
  by (simp add: even_xor_iff)

lemma crc_bit_xor: "crc_bit (x XOR y) = crc_bit x XOR crc_bit y"
  by (simp add: crc_bit_odd odd_xor_word ac_simps xor.left_commute)

lemma funpow_crc_bit_xor: "(crc_bit ^^ n) (x XOR y) = (crc_bit ^^ n) x XOR (crc_bit ^^ n) y"
  by (induction n arbitrary: x y) (simp_all add: funpow_swap1 crc_bit_xor)

lemma crc_byte_xor: "crc_byte (x XOR y) = crc_byte x XOR crc_byte y"
  by (simp add: crc_byte_def funpow_crc_bit_xor)

lemma bit_crc_bit_31: "bit (crc_bit x) 31 \<longleftrightarrow> odd x"
proof -
  have "\<not> bit x 32" using bit_imp_le_length [of x 32] by auto
  moreover have "bit CRC32C_POLYNOMIAL 31" by (simp add: CRC32C_POLYNOMIAL_def)
  ultimately show ?thesis by (auto simp: crc_bit_odd bit_simps)
qed

lemma crc_bit_eq_0: "crc_bit x = 0 \<Longrightarrow> x = 0"
proof -
  assume 0: "crc_bit x = 0"
  then have e: "even x" using bit_crc_bit_31 [of x] by auto
  with 0 have "drop_bit 1 x = 0" by (simp add: crc_bit_odd)
  show "x = 0"
  proof (rule bit_word_eqI)
    fix k
    show "bit x k = bit 0 k"
    proof (cases k)
      case 0
      with e show ?thesis by (simp add: bit_0)
    next
      case (Suc m)
      then have "bit x k = bit (drop_bit 1 x) m" by (simp add: bit_simps)
      with \<open>drop_bit 1 x = 0\<close> show ?thesis by simp
    qed
  qed
qed

lemma xor_eq_0_iff_eq: "(x :: 'a::len word) XOR y = 0 \<longleftrightarrow> x = y"
  by (auto simp: bit_eq_iff bit_simps)

lemma xor_cancel_left: "(x :: 'a::len word) XOR y = x XOR z \<longleftrightarrow> y = z"
  by (auto simp: bit_eq_iff bit_simps)

lemma xor_cancel_right: "(y :: 'a::len word) XOR x = z XOR x \<longleftrightarrow> y = z"
  by (auto simp: bit_eq_iff bit_simps)

lemma crc_bit_inject: "crc_bit x = crc_bit y \<longleftrightarrow> x = y"
  using crc_bit_eq_0 [of "x XOR y"] by (auto simp: crc_bit_xor xor_eq_0_iff_eq)

lemma funpow_crc_bit_inject: "(crc_bit ^^ n) x = (crc_bit ^^ n) y \<longleftrightarrow> x = y"
  by (induction n) (simp_all add: crc_bit_inject)

lemma crc_byte_inject: "crc_byte x = crc_byte y \<longleftrightarrow> x = y"
  by (simp add: crc_byte_def funpow_crc_bit_inject)

text \<open>Rounds shift out low zero bits without touching the rest.\<close>

lemma funpow_crc_bit_shift:
  assumes "take_bit n x = 0"
  shows "(crc_bit ^^ n) x = drop_bit n x"
  using assms
proof (induction n arbitrary: x)
  case 0
  then show ?case by simp
next
  case (Suc n)
  then have e: "even x"
    by (metis even_take_bit_eq even_zero take_bit_eq_0_iff zero_less_Suc bit_0 Zero_not_Suc)
  then have "crc_bit x = drop_bit 1 x" by (simp add: crc_bit_odd)
  moreover have "take_bit n (drop_bit 1 x) = 0"
    using Suc.prems by (metis drop_bit_take_bit drop_bit_of_0 Suc_eq_plus1 diff_add_inverse2)
  ultimately show ?case
    using Suc.IH [of "drop_bit 1 x"] by (simp add: funpow_swap1)
qed

section \<open>Table entries\<close>

lemma unat_and_255_less: "unat ((x :: u32) AND 0xFF) < 256"
proof -
  have "unat (x AND 0xFF) \<le> unat (0xFF :: u32)"
    by (rule word_and_le1 [THEN word_le_nat_alt [THEN iffD1]])
  then show ?thesis by simp
qed

lemma and_255_take_bit: "(x :: u32) AND 0xFF = take_bit 8 x"
  by (simp add: take_bit_eq_mask mask_eq_exp_minus_1)

lemma crc_byte_shift: "take_bit 8 x = 0 \<Longrightarrow> crc_byte x = drop_bit 8 x"
  unfolding crc_byte_def by (rule funpow_crc_bit_shift)

lemma crc_byte_split: "crc_byte x = drop_bit 8 x XOR crc_byte (x AND 0xFF)"
proof -
  let ?h = "x AND NOT (mask 8)"
  have x: "x = ?h XOR take_bit 8 x"
    by (rule bit_word_eqI) (auto simp: bit_simps)
  have "crc_byte ?h = drop_bit 8 ?h"
    by (rule crc_byte_shift, rule bit_word_eqI) (auto simp: bit_simps)
  also have "drop_bit 8 ?h = drop_bit 8 x"
    by (rule bit_word_eqI) (auto simp: bit_simps dest: bit_imp_le_length)
  finally have "crc_byte (?h XOR take_bit 8 x) = drop_bit 8 x XOR crc_byte (take_bit 8 x)"
    by (simp only: crc_byte_xor)
  then show ?thesis
    by (simp only: x [symmetric] and_255_take_bit)
qed

lemma nth_first_table: "v < 256 \<Longrightarrow> first_table ! v = crc_byte (of_nat v)"
  by (simp add: first_table_def)

lemma first_table_and: "first_table ! unat (x AND 0xFF) = crc_byte (x AND 0xFF)"
  using nth_first_table [OF unat_and_255_less] by simp

lemma next_table_crc_byte: "next_table previous = map crc_byte previous"
  by (simp add: next_table_def first_table_and crc_byte_split [symmetric])

lemma funpow_next_table: "(next_table ^^ k) ts = map (crc_byte ^^ k) ts"
  by (induction k arbitrary: ts) (simp_all add: next_table_crc_byte)

lemma nth_TABLES:
  assumes "k < 8" and "v < 256"
  shows "TABLES ! k ! v = (crc_byte ^^ Suc k) (of_nat v)"
  using assms
  by (simp add: TABLES_def build_tables_def funpow_next_table first_table_def funpow_swap1)

lemma TABLES_and: "k < 8 \<Longrightarrow> TABLES ! k ! unat (x AND 0xFF) = (crc_byte ^^ Suc k) (x AND 0xFF)"
  by (simp add: nth_TABLES unat_and_255_less del: funpow.simps)

lemma crc_remainder_foldl: "crc_remainder crc data = foldl crc_step crc data"
proof (induction crc data rule: crc_remainder.induct)
  case (2 crc byte rest)
  have "drop_bit 8 (crc XOR ucast byte) = drop_bit 8 crc"
  proof (rule bit_word_eqI)
    fix n
    have "\<not> bit byte (8 + n)" using bit_imp_le_length [of byte "8 + n"] by auto
    then show "bit (drop_bit 8 (crc XOR ucast byte)) n = bit (drop_bit 8 crc) n"
      by (simp add: bit_simps)
  qed
  then have "drop_bit 8 crc XOR TABLES ! 0 ! unat ((crc XOR ucast byte) AND 0xFF) = crc_step crc byte"
    using crc_byte_split [of "crc XOR ucast byte"] by (simp add: TABLES_and crc_step_def)
  with "2.IH" show ?case by simp
qed simp

section \<open>Four bytes at a time\<close>

lemma funpow_crc_byte: "crc_byte ^^ k = crc_bit ^^ (8 * k)"
  by (induction k) (simp_all add: crc_byte_def [abs_def] funpow_add fun_eq_iff)

lemma funpow_crc_byte_xor: "(crc_byte ^^ k) (x XOR y) = (crc_byte ^^ k) x XOR (crc_byte ^^ k) y"
  by (simp add: funpow_crc_byte funpow_crc_bit_xor)

lemma crc_byte_push: "x = take_bit 24 x \<Longrightarrow> crc_byte (push_bit 8 x) = x"
proof -
  assume x: "x = take_bit 24 x"
  have "crc_byte (push_bit 8 x) = drop_bit 8 (push_bit 8 x)"
    by (rule crc_byte_shift) (simp add: take_bit_push_bit)
  also have "\<dots> = take_bit 24 x"
    by (rule bit_word_eqI) (auto simp: bit_simps)
  finally show ?thesis using x by simp
qed

text \<open>
  Entering four bytes one after the other is entering them at once as a little-endian word and
  running the four bytes' rounds.
\<close>

lemma foldl_crc_step_le:
  assumes "length bs \<le> 4"
  shows "foldl crc_step crc bs = (crc_byte ^^ length bs) (crc XOR from_le_bytes bs)"
  using assms
proof (induction bs arbitrary: crc)
  case Nil
  then show ?case by simp
next
  case (Cons b bs)
  let ?w = "from_le_bytes bs :: u32"
  have short: "?w = take_bit 24 ?w"
    using Cons.prems by (intro bit_word_eqI) (auto simp: bit_simps bit_from_le_bytes)
  have disj: "ucast b OR push_bit 8 ?w = ucast b XOR push_bit 8 ?w"
  proof (rule bit_word_eqI)
    fix n
    have "8 \<le> n \<Longrightarrow> \<not> bit b n" using bit_imp_le_length [of b n] by auto
    then show "bit (ucast b OR push_bit 8 ?w) n = bit (ucast b XOR push_bit 8 ?w) n"
      by (auto simp: bit_simps)
  qed
  have "foldl crc_step crc (b # bs) = (crc_byte ^^ length bs) (crc_step crc b XOR ?w)"
    using Cons by simp
  also have "crc_step crc b XOR ?w = crc_byte (crc XOR from_le_bytes (b # bs))"
    using crc_byte_push [OF short]
    by (simp add: crc_step_def disj crc_byte_xor xor.assoc)
  finally show ?case by (simp add: funpow_swap1)
qed

section \<open>Eight bytes at a time\<close>

lemma ucast_ucast_byte: "ucast (ucast w :: u8) = (w :: u32) AND 0xFF"
  by (rule bit_word_eqI) (auto simp: bit_simps and_255_take_bit)

lemma drop_24_and: "drop_bit 24 (w :: u32) AND 0xFF = drop_bit 24 w"
  by (rule bit_word_eqI) (auto simp: bit_simps and_255_take_bit dest: bit_imp_le_length)

lemma funpow_funpow: "(f ^^ m) ((f ^^ n) x) = (f ^^ (m + n)) x"
  by (simp add: funpow_add)

lemma funpow_numerals:
  "(f ^^ 2) x = f (f x)" "(f ^^ 3) x = f (f (f x))" "(f ^^ 4) x = f (f (f (f x)))"
  by (simp_all add: eval_nat_numeral)

lemma funpow_crc_byte_word:
  "(crc_byte ^^ 4) w =
     (crc_byte ^^ 4) (w AND 0xFF) XOR (crc_byte ^^ 3) (drop_bit 8 w AND 0xFF) XOR
     (crc_byte ^^ 2) (drop_bit 16 w AND 0xFF) XOR crc_byte (drop_bit 24 w)"
proof -
  have le: "to_le_bytes 4 w = [ucast w, ucast (drop_bit 8 w), ucast (drop_bit 16 w), ucast (drop_bit 24 w)]"
    by (simp add: to_le_bytes_def upt_rec)
  have "(crc_byte ^^ 4) w = foldl crc_step 0 (to_le_bytes 4 w)"
    by (simp add: foldl_crc_step_le)
  then show ?thesis
    by (simp add: le crc_step_def crc_byte_xor ucast_ucast_byte drop_24_and xor.assoc funpow_numerals)
qed

lemma TABLES_and_numeral:
  "TABLES ! 0 ! unat (x AND 0xFF) = crc_byte (x AND 0xFF)"
  "TABLES ! 1 ! unat (x AND 0xFF) = (crc_byte ^^ 2) (x AND 0xFF)"
  "TABLES ! 2 ! unat (x AND 0xFF) = (crc_byte ^^ 3) (x AND 0xFF)"
  "TABLES ! 3 ! unat (x AND 0xFF) = (crc_byte ^^ 4) (x AND 0xFF)"
  "TABLES ! 4 ! unat (x AND 0xFF) = (crc_byte ^^ 5) (x AND 0xFF)"
  "TABLES ! 5 ! unat (x AND 0xFF) = (crc_byte ^^ 6) (x AND 0xFF)"
  "TABLES ! 6 ! unat (x AND 0xFF) = (crc_byte ^^ 7) (x AND 0xFF)"
  "TABLES ! 7 ! unat (x AND 0xFF) = (crc_byte ^^ 8) (x AND 0xFF)"
  using TABLES_and [of 0 x] TABLES_and [of 1 x] TABLES_and [of 2 x] TABLES_and [of 3 x]
    TABLES_and [of 4 x] TABLES_and [of 5 x] TABLES_and [of 6 x] TABLES_and [of 7 x]
  by (simp_all add: funpow_numerals(1))

lemmas TABLES_drop_24 = TABLES_and_numeral [of "drop_bit 24 x", unfolded drop_24_and] for x

lemma funpow_crc_byte_shifts:
  "(crc_byte ^^ 4) ((crc_byte ^^ 4) x) = (crc_byte ^^ 8) x"
  "(crc_byte ^^ 4) ((crc_byte ^^ 3) x) = (crc_byte ^^ 7) x"
  "(crc_byte ^^ 4) ((crc_byte ^^ 2) x) = (crc_byte ^^ 6) x"
  "(crc_byte ^^ 4) (crc_byte x) = (crc_byte ^^ 5) x"
  using funpow_funpow [of 4 crc_byte 1 x] by (simp_all add: funpow_funpow)

lemma funpow_word_TABLES:
  "(crc_byte ^^ 4) w = TABLES ! 3 ! unat (w AND 0xFF) XOR TABLES ! 2 ! unat (drop_bit 8 w AND 0xFF) XOR
     TABLES ! 1 ! unat (drop_bit 16 w AND 0xFF) XOR TABLES ! 0 ! unat (drop_bit 24 w)"
  "(crc_byte ^^ 4) ((crc_byte ^^ 4) w) =
     TABLES ! 7 ! unat (w AND 0xFF) XOR TABLES ! 6 ! unat (drop_bit 8 w AND 0xFF) XOR
     TABLES ! 5 ! unat (drop_bit 16 w AND 0xFF) XOR TABLES ! 4 ! unat (drop_bit 24 w)"
  by (simp_all only: TABLES_drop_24 TABLES_and_numeral funpow_crc_byte_word [of w]
      funpow_crc_byte_xor funpow_crc_byte_shifts)

lemma crc_chunk_foldl:
  assumes "length chunk = 8"
  shows "crc_chunk crc chunk = foldl crc_step crc chunk"
proof -
  let ?lower = "from_le_bytes (take 4 chunk) XOR crc :: u32"
  let ?upper = "from_le_bytes (take 4 (drop 4 chunk)) :: u32"
  have "chunk = take 4 chunk @ take 4 (drop 4 chunk)"
    using assms by simp
  then have "foldl crc_step crc chunk = foldl crc_step (foldl crc_step crc (take 4 chunk)) (take 4 (drop 4 chunk))"
    by (metis foldl_append)
  also have "\<dots> = (crc_byte ^^ 4) ((crc_byte ^^ 4) ?lower XOR ?upper)"
    using assms by (simp add: foldl_crc_step_le xor.commute)
  also have "\<dots> = (crc_byte ^^ 4) ((crc_byte ^^ 4) ?lower) XOR (crc_byte ^^ 4) ?upper"
    by (rule funpow_crc_byte_xor)
  also have "\<dots> = crc_chunk crc chunk"
    by (simp only: funpow_word_TABLES(2) [of ?lower] funpow_word_TABLES(1) [of ?upper] crc_chunk.simps
        Let_def xor.assoc)
  finally show ?thesis by simp
qed

lemma crc_chunks_foldl:
  "crc_chunks crc data = (c, rest) \<Longrightarrow> foldl crc_step c rest = foldl crc_step crc data"
proof (induction crc data rule: crc_chunks.induct)
  case (1 crc data)
  show ?case
  proof (cases "8 \<le> length data")
    case True
    then have "crc_chunks (crc_chunk crc (take 8 data)) (drop 8 data) = (c, rest)"
      using "1.prems" by (simp add: crc_chunks.simps [of crc data])
    with True "1.IH" have "foldl crc_step c rest = foldl crc_step (crc_chunk crc (take 8 data)) (drop 8 data)"
      by simp
    also have "\<dots> = foldl crc_step crc (take 8 data @ drop 8 data)"
      using True by (simp only: foldl_append) (simp add: crc_chunk_foldl)
    finally show ?thesis by simp
  next
    case False
    with "1.prems" show ?thesis by (simp add: crc_chunks.simps [of crc data])
  qed
qed

lemma crc32c_foldl: "crc32c data = NOT (foldl crc_step (NOT 0) data)"
  using crc_chunks_foldl [of "NOT 0" data]
  by (cases "crc_chunks (NOT 0) data") (simp add: crc32c_def crc_remainder_foldl)

section \<open>Detection of changed bytes\<close>

lemma foldl_crc_step_inject: "foldl crc_step x bs = foldl crc_step y bs \<longleftrightarrow> x = y"
proof (induction bs arbitrary: x y)
  case (Cons b bs)
  have "crc_step x b = crc_step y b \<longleftrightarrow> x = y"
    by (simp add: crc_step_def crc_byte_inject xor_cancel_right)
  with Cons show ?case by simp
qed simp

lemma foldl_crc_step_burst:
  assumes "length bs = length cs" and "length bs \<le> 4" and "foldl crc_step x bs = foldl crc_step x cs"
  shows "bs = cs"
proof -
  have "(crc_byte ^^ length bs) (x XOR from_le_bytes bs) = (crc_byte ^^ length bs) (x XOR from_le_bytes cs)"
    using assms by (simp add: foldl_crc_step_le)
  then have "x XOR from_le_bytes bs = x XOR from_le_bytes cs"
    by (simp add: funpow_crc_byte funpow_crc_bit_inject)
  then have "(from_le_bytes bs :: u32) = from_le_bytes cs"
    by (simp add: xor_cancel_left)
  then show ?thesis
    using assms by (intro from_le_bytes_inject [where 'a = 32]) simp_all
qed

lemma crc32c_burst_differs:
  assumes "length bs = length cs" and "length bs \<le> 4" and "bs \<noteq> cs"
  shows "crc32c (pre @ bs @ post) \<noteq> crc32c (pre @ cs @ post)"
proof
  assume "crc32c (pre @ bs @ post) = crc32c (pre @ cs @ post)"
  then have "NOT (NOT (foldl crc_step (NOT 0) (pre @ bs @ post))) =
      NOT (NOT (foldl crc_step (NOT 0) (pre @ cs @ post)))"
    by (simp only: crc32c_foldl)
  then have "foldl crc_step (foldl crc_step (NOT 0) pre) bs = foldl crc_step (foldl crc_step (NOT 0) pre) cs"
    by (simp add: foldl_crc_step_inject)
  from foldl_crc_step_burst [OF assms(1,2) this] assms(3) show False by simp
qed

lemma crc32c_update_differs:
  assumes "i < length data" and "b \<noteq> data ! i"
  shows "crc32c (data[i := b]) \<noteq> crc32c data"
proof -
  have "data = take i data @ [data ! i] @ drop (Suc i) data"
    using assms(1) by (simp add: id_take_nth_drop)
  moreover have "data[i := b] = take i data @ [b] @ drop (Suc i) data"
    using assms(1) by (simp add: upd_conv_take_nth_drop)
  ultimately show ?thesis
    using crc32c_burst_differs [of "[b]" "[data ! i]" "take i data" "drop (Suc i) data"] assms(2)
    by simp
qed

section \<open>Properties\<close>

text \<open>
  C10: the table-driven checksum, eight bytes per step with the bytes left over at the end, is the
  bit-by-bit CRC-32C of its input, for inputs of every length.
\<close>

theorem crc32c_is_crc: "crc32c data = crc32c_reference data"
  by (simp add: crc32c_foldl crc32c_reference_def)

text \<open>
  Changing bytes inside any window of four neighbouring bytes, anywhere in the input, changes the
  checksum.
\<close>

theorem crc32c_detects_burst:
  assumes "length bs = length cs" and "length bs \<le> 4" and "bs \<noteq> cs"
  shows "crc32c (pre @ bs @ post) \<noteq> crc32c (pre @ cs @ post)"
  using assms by (rule crc32c_burst_differs)

theorem crc32c_detects_burst_witness:
  "crc32c ([7, 8] @ [1, 2, 3, 4] @ [9]) \<noteq> crc32c ([7, 8] @ [1, 255, 3, 0] @ [9])"
  by (rule crc32c_detects_burst) simp_all

text \<open>
  The published check value of CRC-32C, the checksum of the nine ASCII digits \<open>123456789\<close>.
\<close>

theorem crc32c_check_value: "crc32c [0x31, 0x32, 0x33, 0x34, 0x35, 0x36, 0x37, 0x38, 0x39] = 0xE3069283"
proof -
  have byte: "crc_step crc b = crc_bit (crc_bit (crc_bit (crc_bit (crc_bit (crc_bit (crc_bit (crc_bit (crc XOR ucast b))))))))"
    for crc b by (simp add: crc_step_def crc_byte_def eval_nat_numeral)
  show ?thesis by (simp add: crc32c_foldl byte crc_bit_def CRC32C_POLYNOMIAL_def)
qed

end
