(* ===== verification/Format.thy ===== *)
theory Format
  imports Crc32
begin

text \<open>
  The on-disk formats of \<open>src/src/format.rs\<close>: page arithmetic, the file header, the record header
  in its two layouts, index slots with their tombstone bit, and registry rows. An \<open>encode\<close> takes
  the output buffer and returns it with the encoded bytes written, as the source writes through
  \<open>&mut [u8]\<close>; a \<open>decode\<close> returns \<open>None\<close> where the source does.
\<close>

section \<open>Pages\<close>

definition PAGE :: nat where
  "PAGE = 4096"

definition PAGE_SIZE_U64 :: u64 where
  "PAGE_SIZE_U64 = of_nat PAGE"

definition RECORD_MAGIC :: u32 where
  "RECORD_MAGIC = 0x44524352"

definition REGISTRY_MAGIC :: u32 where
  "REGISTRY_MAGIC = 0x58474552"

definition LAYOUT_APPEND :: u8 where
  "LAYOUT_APPEND = 0"

definition LAYOUT_BUCKET :: u8 where
  "LAYOUT_BUCKET = 1"

definition SLOT_SIZE :: nat where
  "SLOT_SIZE = 16"

definition REGISTRY_ROW_SIZE :: nat where
  "REGISTRY_ROW_SIZE = 64"

definition page_down :: "u64 \<Rightarrow> u64" where
  "page_down off = off AND NOT (PAGE_SIZE_U64 - 1)"

definition page_up :: "u64 \<Rightarrow> u64" where
  "page_up off = (off + PAGE_SIZE_U64 - 1) AND NOT (PAGE_SIZE_U64 - 1)"

section \<open>File header\<close>

record FileHeader =
  fh_kind :: u8
  fh_layout :: u8

text \<open>The bytes of \<open>b"HSF1"\<close>.\<close>

definition HSF1 :: bytes where
  "HSF1 = [0x48, 0x53, 0x46, 0x31]"

definition FileHeader_encode :: "FileHeader \<Rightarrow> bytes \<Rightarrow> bytes" where
  "FileHeader_encode h page =
     (let page = put_slice 0 (replicate PAGE 0) page;
          page = put_slice 0 HSF1 page;
          page = page[4 := fh_kind h];
          page = page[5 := fh_layout h];
          crc = crc32c (take 8 page)
      in put_slice 8 (to_le_bytes 4 crc) page)"

definition FileHeader_decode :: "bytes \<Rightarrow> FileHeader option" where
  "FileHeader_decode page =
     (if take 4 page \<noteq> HSF1 then None
      else let crc = from_le_bytes (slice_of 8 4 page) in
        if crc \<noteq> crc32c (take 8 page) then None
        else Some \<lparr>fh_kind = page ! 4, fh_layout = page ! 5\<rparr>)"

section \<open>Record header\<close>

record RecordHeader =
  rh_len :: u64
  rh_bucket :: u64
  rh_id :: u64
  rh_version :: u16
  rh_crc :: u32

definition header_len :: "bool \<Rightarrow> nat" where
  "header_len with_bucket = (if with_bucket then 38 else 30)"

definition RecordHeader_encode :: "RecordHeader \<Rightarrow> bool \<Rightarrow> bytes \<Rightarrow> bytes" where
  "RecordHeader_encode h with_bucket out =
     (let out = put_slice 0 (to_le_bytes 4 RECORD_MAGIC) out;
          out = put_slice 4 (to_le_bytes 8 (rh_len h)) out;
          (out, field_offset) =
            (if with_bucket then (put_slice 12 (to_le_bytes 8 (rh_bucket h)) out, 20) else (out, 12));
          out = put_slice field_offset (to_le_bytes 8 (rh_id h)) out;
          out = put_slice (field_offset + 8) (to_le_bytes 2 (rh_version h)) out;
          out = put_slice (field_offset + 10) (to_le_bytes 4 (rh_crc h)) out;
          header_crc = crc32c (take (field_offset + 14) out)
      in put_slice (field_offset + 14) (to_le_bytes 4 header_crc) out)"

definition RecordHeader_decode :: "bytes \<Rightarrow> bool \<Rightarrow> RecordHeader option" where
  "RecordHeader_decode buf with_bucket =
     (let header_size = header_len with_bucket in
      if length buf < header_size \<or> from_le_bytes (take 4 buf) \<noteq> RECORD_MAGIC then None
      else let stored = from_le_bytes (slice_of (header_size - 4) 4 buf) in
        if stored \<noteq> crc32c (take (header_size - 4) buf) then None
        else let len = from_le_bytes (slice_of 4 8 buf);
                 (bucket, field_offset) =
                   (if with_bucket then (from_le_bytes (slice_of 12 8 buf), 20) else (0, 12))
             in Some \<lparr>rh_len = len, rh_bucket = bucket,
                      rh_id = from_le_bytes (slice_of field_offset 8 buf),
                      rh_version = from_le_bytes (slice_of (field_offset + 8) 2 buf),
                      rh_crc = from_le_bytes (slice_of (field_offset + 10) 4 buf)\<rparr>)"

section \<open>Index slots\<close>

record Slot =
  sl_offset :: u64
  sl_total_len :: u64

definition TOMBSTONE_BIT :: u64 where
  "TOMBSTONE_BIT = push_bit 63 1"

datatype SlotState = Empty | Deleted Slot | Live Slot

definition Slot_encode :: "Slot \<Rightarrow> bytes \<Rightarrow> bytes" where
  "Slot_encode s out =
     (let out = put_slice 0 (to_le_bytes 8 (sl_offset s)) out
      in put_slice 8 (to_le_bytes 8 (sl_total_len s)) out)"

definition Slot_state :: "bytes \<Rightarrow> SlotState" where
  "Slot_state buf =
     (let offset = from_le_bytes (take 8 buf);
          total_len = from_le_bytes (slice_of 8 8 buf)
      in if offset = 0 then Empty
         else if offset AND TOMBSTONE_BIT \<noteq> 0
         then Deleted \<lparr>sl_offset = offset AND NOT TOMBSTONE_BIT, sl_total_len = total_len\<rparr>
         else Live \<lparr>sl_offset = offset, sl_total_len = total_len\<rparr>)"

definition Slot_decode :: "bytes \<Rightarrow> Slot option" where
  "Slot_decode buf = (case Slot_state buf of Live slot \<Rightarrow> Some slot | _ \<Rightarrow> None)"

definition Slot_file_offset :: "u64 \<Rightarrow> u64" where
  "Slot_file_offset rid = PAGE_SIZE_U64 + rid * of_nat SLOT_SIZE"

section \<open>Registry rows\<close>

record RegistryRow =
  rr_kind :: u8
  rr_bucket :: u64
  rr_start :: u64
  rr_size :: u64

definition RegistryRow_encode :: "RegistryRow \<Rightarrow> bytes \<Rightarrow> bytes" where
  "RegistryRow_encode r out =
     (let out = put_slice 0 (replicate REGISTRY_ROW_SIZE 0) out;
          out = put_slice 0 (to_le_bytes 4 REGISTRY_MAGIC) out;
          out = out[4 := rr_kind r];
          out = put_slice 8 (to_le_bytes 8 (rr_bucket r)) out;
          out = put_slice 16 (to_le_bytes 8 (rr_start r)) out;
          out = put_slice 24 (to_le_bytes 8 (rr_size r)) out;
          crc = crc32c (take 32 out)
      in put_slice 32 (to_le_bytes 4 crc) out)"

definition RegistryRow_decode :: "bytes \<Rightarrow> RegistryRow option" where
  "RegistryRow_decode buf =
     (if from_le_bytes (take 4 buf) \<noteq> REGISTRY_MAGIC then None
      else if from_le_bytes (slice_of 32 4 buf) \<noteq> crc32c (take 32 buf) then None
      else Some \<lparr>rr_kind = buf ! 4,
                 rr_bucket = from_le_bytes (slice_of 8 8 buf),
                 rr_start = from_le_bytes (slice_of 16 8 buf),
                 rr_size = from_le_bytes (slice_of 24 8 buf)\<rparr>)"

section \<open>Page arithmetic\<close>

lemma PAGE_SIZE_U64_eq: "PAGE_SIZE_U64 = 4096"
  by (simp add: PAGE_SIZE_U64_def PAGE_def)

lemma page_mask: "(PAGE_SIZE_U64 - 1) = mask 12"
  by (simp add: PAGE_SIZE_U64_eq mask_eq_exp_minus_1)

lemma unat_and_not_mask: "unat (w AND NOT (mask 12) :: u64) = unat w div 4096 * 4096"
proof -
  have "w AND NOT (mask 12) = push_bit 12 (drop_bit 12 w)"
    by (rule bit_word_eqI) (auto simp: bit_simps)
  also have "\<dots> = drop_bit 12 w * 4096"
    by (simp only: push_bit_eq_mult) simp
  finally have eq: "w AND NOT (mask 12) = drop_bit 12 w * 4096" .
  have d: "unat (drop_bit 12 w) = unat w div 4096"
    by (simp only: unat_drop_bit_eq) (simp add: drop_bit_eq_div)
  have "unat w div 4096 * 4096 < 18446744073709551616"
    using unat_u64_less [of w] by (meson div_times_less_eq_dividend le_less_trans)
  then have "unat (drop_bit 12 w * 4096) = unat w div 4096 * 4096"
    using unat_mul_nowrap [of "drop_bit 12 w" 4096] d by simp
  then show ?thesis by (simp only: eq)
qed

lemma unat_page_down [simp]: "unat (page_down off) = unat off div 4096 * 4096"
  by (simp only: page_down_def page_mask unat_and_not_mask)

lemma page_up_alt: "page_up off = (off + 4095) AND NOT (mask 12)"
proof -
  have "off + PAGE_SIZE_U64 - 1 = off + 4095" by (simp add: PAGE_SIZE_U64_eq)
  then show ?thesis by (simp only: page_up_def page_mask)
qed

lemma unat_page_up:
  assumes "unat off + 4095 < 18446744073709551616"
  shows "unat (page_up off) = (unat off + 4095) div 4096 * 4096"
proof -
  have "unat (off + 4095) = unat off + 4095"
    using assms unat_add_nowrap [of off 4095] by simp
  then show ?thesis by (simp only: page_up_alt unat_and_not_mask)
qed

lemma page_up_wraps:
  assumes "18446744073709551616 \<le> unat off + 4095"
  shows "page_up off = 0"
proof -
  have "unat (off + 4095) = (unat off + 4095) mod 18446744073709551616"
    by (simp only: unat_word_ariths) simp
  also have "\<dots> < 4096"
    using assms unat_u64_less [of off] by (simp add: le_mod_geq del: unat_u64_less)
  finally have "unat (off + 4095) div 4096 * 4096 = 0" by simp
  then have "unat (page_up off) = 0" by (simp only: page_up_alt unat_and_not_mask)
  then show ?thesis by (simp add: unat_eq_0)
qed

section \<open>The encoded bytes\<close>

text \<open>The bytes of a record header without its checksum, and with it.\<close>

definition header_fields :: "RecordHeader \<Rightarrow> bool \<Rightarrow> bytes" where
  "header_fields h with_bucket =
     to_le_bytes 4 RECORD_MAGIC @ to_le_bytes 8 (rh_len h) @
     (if with_bucket then to_le_bytes 8 (rh_bucket h) else []) @
     to_le_bytes 8 (rh_id h) @ to_le_bytes 2 (rh_version h) @ to_le_bytes 4 (rh_crc h)"

definition header_bytes :: "RecordHeader \<Rightarrow> bool \<Rightarrow> bytes" where
  "header_bytes h with_bucket =
     header_fields h with_bucket @ to_le_bytes 4 (crc32c (header_fields h with_bucket))"

lemma length_header_fields [simp]: "length (header_fields h wb) = header_len wb - 4"
  by (simp add: header_fields_def header_len_def)

lemma length_header_bytes [simp]: "length (header_bytes h wb) = header_len wb"
  by (simp add: header_bytes_def header_len_def)

lemma header_len_bounds [simp]: "4 \<le> header_len wb" "header_len wb \<le> 38" "0 < header_len wb"
  by (simp_all add: header_len_def)

lemma RecordHeader_encode_eq:
  assumes "header_len wb \<le> length out"
  shows "RecordHeader_encode h wb out = put_slice 0 (header_bytes h wb) out"
  using assms
  by (cases wb)
    (simp_all add: RecordHeader_encode_def header_bytes_def header_fields_def header_len_def
      put_slice_simps Let_def)

lemma RecordHeader_decode_bytes:
  "RecordHeader_decode (header_bytes h wb @ rest) wb =
     Some (if wb then h else h\<lparr>rh_bucket := 0\<rparr>)"
proof -
  let ?f = "header_fields h wb" and ?b = "header_bytes h wb @ rest"
  have crc: "slice_of (header_len wb - 4) 4 ?b = to_le_bytes 4 (crc32c ?f)" "take (header_len wb - 4) ?b = ?f"
    by (simp_all add: header_bytes_def header_len_def)
  have fields: "?b = to_le_bytes 4 RECORD_MAGIC @ to_le_bytes 8 (rh_len h) @
     (if wb then to_le_bytes 8 (rh_bucket h) else []) @ to_le_bytes 8 (rh_id h) @
     to_le_bytes 2 (rh_version h) @ to_le_bytes 4 (rh_crc h) @ to_le_bytes 4 (crc32c ?f) @ rest"
    by (simp add: header_bytes_def header_fields_def)
  have "take 4 ?b = to_le_bytes 4 RECORD_MAGIC" "slice_of 4 8 ?b = to_le_bytes 8 (rh_len h)"
    "wb \<Longrightarrow> slice_of 12 8 ?b = to_le_bytes 8 (rh_bucket h)"
    "slice_of (if wb then 20 else 12) 8 ?b = to_le_bytes 8 (rh_id h)"
    "slice_of (if wb then 28 else 20) 2 ?b = to_le_bytes 2 (rh_version h)"
    "slice_of (if wb then 30 else 22) 4 ?b = to_le_bytes 4 (rh_crc h)"
    unfolding fields by simp_all
  note slices = this
  show ?thesis
    using crc slices by (cases wb) (simp_all add: RecordHeader_decode_def Let_def)
qed

text \<open>What an accepted header says about the bytes it came from.\<close>

lemma RecordHeader_decode_Some:
  assumes "RecordHeader_decode buf wb = Some h"
  shows "header_len wb \<le> length buf"
    and "from_le_bytes (take 4 buf) = RECORD_MAGIC"
    and "from_le_bytes (slice_of (header_len wb - 4) 4 buf) = crc32c (take (header_len wb - 4) buf)"
  using assms by (auto simp: RecordHeader_decode_def Let_def split: if_splits)

section \<open>Slots\<close>

definition slot_bytes :: "Slot \<Rightarrow> bytes" where
  "slot_bytes s = to_le_bytes 8 (sl_offset s) @ to_le_bytes 8 (sl_total_len s)"

lemma length_slot_bytes [simp]: "length (slot_bytes s) = 16"
  by (simp add: slot_bytes_def)

lemma Slot_encode_eq: "16 \<le> length out \<Longrightarrow> Slot_encode s out = put_slice 0 (slot_bytes s) out"
  by (simp add: Slot_encode_def slot_bytes_def put_slice_simps)

lemma bit_63_iff: "bit (w :: u64) 63 \<longleftrightarrow> 9223372036854775808 \<le> unat w"
proof -
  have "bit w 63 \<longleftrightarrow> bit (unat w) 63"
    by (simp add: bit_unsigned_iff)
  also have "\<dots> \<longleftrightarrow> odd (unat w div 9223372036854775808)"
    using bit_iff_odd [of "unat w" 63] by simp
  also have "\<dots> \<longleftrightarrow> 9223372036854775808 \<le> unat w"
  proof (cases "9223372036854775808 \<le> unat w")
    case True
    then have "unat w div 9223372036854775808 = 1"
      using unat_u64_less [of w] by (intro div_nat_eqI) simp_all
    with True show ?thesis by simp
  qed simp
  finally show ?thesis .
qed

lemma tombstone_and: "(w :: u64) AND TOMBSTONE_BIT = 0 \<longleftrightarrow> unat w < 9223372036854775808"
proof -
  have "w AND TOMBSTONE_BIT = 0 \<longleftrightarrow> \<not> bit w 63"
    by (simp only: TOMBSTONE_BIT_def push_bit_of_1 and_exp_eq_0_iff_not_bit)
  then show ?thesis by (simp add: bit_63_iff not_le)
qed

lemma Slot_state_bytes:
  "Slot_state (slot_bytes s @ rest) =
     (if sl_offset s = 0 then Empty
      else if 9223372036854775808 \<le> unat (sl_offset s)
      then Deleted \<lparr>sl_offset = sl_offset s AND NOT TOMBSTONE_BIT, sl_total_len = sl_total_len s\<rparr>
      else Live s)"
  by (simp add: Slot_state_def slot_bytes_def tombstone_and not_less)

lemma Slot_decode_bytes:
  assumes "sl_offset s \<noteq> 0" and "unat (sl_offset s) < 9223372036854775808"
  shows "Slot_decode (slot_bytes s @ rest) = Some s"
  using assms by (simp add: Slot_decode_def Slot_state_bytes)

lemma bit_TOMBSTONE_BIT: "bit TOMBSTONE_BIT n \<longleftrightarrow> n = 63"
  by (simp only: TOMBSTONE_BIT_def bit_push_bit_iff bit_1_iff) auto

lemma tombstone_clear:
  assumes "unat (w :: u64) < 9223372036854775808"
  shows "(w OR TOMBSTONE_BIT) AND NOT TOMBSTONE_BIT = w"
proof -
  have "\<not> bit w 63" using assms by (simp add: bit_63_iff)
  then show ?thesis
    by (intro bit_word_eqI) (auto simp: bit_simps bit_TOMBSTONE_BIT)
qed

lemma tombstone_set: "9223372036854775808 \<le> unat ((w :: u64) OR TOMBSTONE_BIT)"
  using bit_63_iff [of "w OR TOMBSTONE_BIT"] by (simp add: bit_simps bit_TOMBSTONE_BIT)

lemma Slot_state_tombstone:
  assumes "unat (sl_offset s) < 9223372036854775808"
  shows "Slot_state (slot_bytes (s\<lparr>sl_offset := sl_offset s OR TOMBSTONE_BIT\<rparr>) @ rest) = Deleted s"
proof -
  have "sl_offset s OR TOMBSTONE_BIT \<noteq> 0"
    using tombstone_set [of "sl_offset s"] by (metis not_le unsigned_0 zero_less_numeral)
  then show ?thesis
    using assms by (simp add: Slot_state_bytes tombstone_set tombstone_clear)
qed

lemma unat_Slot_file_offset:
  assumes "unat rid < 1152921504606846720"
  shows "unat (Slot_file_offset rid) = 4096 + unat rid * 16"
proof -
  have "unat (rid * 16) = unat rid * 16"
    using assms unat_mul_nowrap [of rid 16] by simp
  then show ?thesis
    using assms unat_add_nowrap [of 4096 "rid * 16"]
    by (simp add: Slot_file_offset_def PAGE_SIZE_U64_eq SLOT_SIZE_def)
qed

section \<open>File headers and registry rows\<close>

lemma put_slice_0_replicate: "n \<le> length buf \<Longrightarrow> put_slice 0 (replicate n x) buf = replicate n x @ drop n buf"
  by (simp add: put_slice_def)

lemma replicate_split:
  "m \<le> n \<Longrightarrow> replicate n x = replicate m x @ replicate (n - m) x"
  by (simp flip: replicate_add)

definition file_header_bytes :: "FileHeader \<Rightarrow> bytes" where
  "file_header_bytes h = HSF1 @ [fh_kind h, fh_layout h, 0, 0]"

lemma FileHeader_encode_eq:
  assumes "length page = PAGE"
  shows "FileHeader_encode h page =
    file_header_bytes h @ to_le_bytes 4 (crc32c (file_header_bytes h)) @ replicate 4084 0"
proof -
  have "replicate PAGE (0 :: u8) = replicate 8 0 @ replicate 4 0 @ replicate 4084 0"
    by (simp add: PAGE_def flip: replicate_add)
  moreover have "replicate 8 (0 :: u8) = [0, 0, 0, 0, 0, 0, 0, 0]"
    by (simp add: eval_nat_numeral)
  moreover have "put_slice 0 (replicate PAGE 0) page = replicate PAGE 0"
    using assms by (simp add: put_slice_0_all)
  ultimately have p0: "put_slice 0 (replicate PAGE 0) page =
      [0, 0, 0, 0, 0, 0, 0, 0] @ replicate 4 0 @ replicate 4084 0"
    by simp
  have p1: "put_slice 0 HSF1 ([0, 0, 0, 0, 0, 0, 0, 0] @ rest) = HSF1 @ [0, 0, 0, 0] @ rest" for rest
    by (simp add: put_slice_def HSF1_def)
  have p2: "(HSF1 @ [0, 0, 0, 0] @ rest)[4 := a, 5 := b] = HSF1 @ [a, b, 0, 0] @ rest" for a b rest
    by (simp add: HSF1_def)
  have p3: "put_slice 8 (to_le_bytes 4 c) (file_header_bytes h @ replicate 4 0 @ rest) =
      file_header_bytes h @ to_le_bytes 4 c @ rest" for c :: u32 and rest
    by (simp add: put_slice_def file_header_bytes_def HSF1_def)
  have "take 8 (file_header_bytes h @ rest) = file_header_bytes h" for rest
    by (simp add: file_header_bytes_def HSF1_def)
  then show ?thesis
    using p3 by (simp only: FileHeader_encode_def p0 p1 p2 Let_def)
      (simp add: file_header_bytes_def)
qed

lemma FileHeader_decode_bytes:
  "FileHeader_decode (file_header_bytes h @ to_le_bytes 4 (crc32c (file_header_bytes h)) @ rest) = Some h"
  by (simp add: FileHeader_decode_def file_header_bytes_def HSF1_def)

definition row_fields :: "RegistryRow \<Rightarrow> bytes" where
  "row_fields r = to_le_bytes 4 REGISTRY_MAGIC @ [rr_kind r, 0, 0, 0] @
     to_le_bytes 8 (rr_bucket r) @ to_le_bytes 8 (rr_start r) @ to_le_bytes 8 (rr_size r)"

definition row_bytes :: "RegistryRow \<Rightarrow> bytes" where
  "row_bytes r = row_fields r @ to_le_bytes 4 (crc32c (row_fields r)) @ replicate 28 0"

lemma length_row_fields [simp]: "length (row_fields r) = 32"
  by (simp add: row_fields_def)

lemma length_row_bytes [simp]: "length (row_bytes r) = REGISTRY_ROW_SIZE"
  by (simp add: row_bytes_def REGISTRY_ROW_SIZE_def)

lemma RegistryRow_decode_bytes: "RegistryRow_decode (row_bytes r @ rest) = Some r"
proof -
  have eq: "row_bytes r @ rest = to_le_bytes 4 REGISTRY_MAGIC @ [rr_kind r, 0, 0, 0] @
     to_le_bytes 8 (rr_bucket r) @ to_le_bytes 8 (rr_start r) @ to_le_bytes 8 (rr_size r) @
     to_le_bytes 4 (crc32c (row_fields r)) @ replicate 28 0 @ rest"
    by (simp add: row_bytes_def row_fields_def)
  have "take 32 (row_bytes r @ rest) = row_fields r"
    by (simp add: row_bytes_def)
  moreover have "(row_bytes r @ rest) ! 4 = rr_kind r"
    unfolding eq by (simp add: nth_append)
  moreover have "take 4 (row_bytes r @ rest) = to_le_bytes 4 REGISTRY_MAGIC"
    "slice_of 8 8 (row_bytes r @ rest) = to_le_bytes 8 (rr_bucket r)"
    "slice_of 16 8 (row_bytes r @ rest) = to_le_bytes 8 (rr_start r)"
    "slice_of 24 8 (row_bytes r @ rest) = to_le_bytes 8 (rr_size r)"
    "slice_of 32 4 (row_bytes r @ rest) = to_le_bytes 4 (crc32c (row_fields r))"
    unfolding eq by simp_all
  ultimately show ?thesis by (simp add: RegistryRow_decode_def)
qed

lemma RegistryRow_encode_eq:
  assumes "length out = REGISTRY_ROW_SIZE"
  shows "RegistryRow_encode r out = row_bytes r"
proof -
  have "replicate REGISTRY_ROW_SIZE (0 :: u8) =
      replicate 4 0 @ replicate 4 0 @ replicate 24 0 @ replicate 4 0 @ replicate 28 0"
    by (simp add: REGISTRY_ROW_SIZE_def flip: replicate_add)
  moreover have "replicate 4 (0 :: u8) = [0, 0, 0, 0]" by (simp add: eval_nat_numeral)
  moreover have "put_slice 0 (replicate REGISTRY_ROW_SIZE 0) out = replicate REGISTRY_ROW_SIZE 0"
    using assms by (simp add: put_slice_0_all)
  ultimately have p0: "put_slice 0 (replicate REGISTRY_ROW_SIZE 0) out =
      [0, 0, 0, 0] @ [0, 0, 0, 0] @ replicate 24 0 @ replicate 4 0 @ replicate 28 0"
    by simp
  let ?m = "to_le_bytes 4 REGISTRY_MAGIC"
  have p1: "(put_slice 0 ?m ([0, 0, 0, 0] @ rest)) = ?m @ rest" for rest
    by (simp add: put_slice_def)
  have p2: "(?m @ [0, 0, 0, 0] @ rest)[4 := k] = ?m @ [k, 0, 0, 0] @ rest" for rest k
    by (simp add: list_update_append)
  have p3: "put_slice 24 c (put_slice 16 b (put_slice 8 a (?m @ [k, 0, 0, 0] @ replicate 24 0 @ rest))) =
      (?m @ [k, 0, 0, 0] @ a @ b @ c) @ rest"
    if "length a = 8" "length b = 8" "length c = 8" for a b c rest k
    using that by (simp add: put_slice_def)
  have p4: "put_slice 32 (to_le_bytes 4 c) (row_fields r @ replicate 4 0 @ rest) =
      row_fields r @ to_le_bytes 4 c @ rest" for c :: u32 and rest
    by (simp add: put_slice_def)
  have p5: "take 32 (row_fields r @ rest) = row_fields r" for rest by simp
  show ?thesis
    by (simp only: RegistryRow_encode_def p0 p1 p2 p3 [OF length_to_le_bytes length_to_le_bytes length_to_le_bytes]
        Let_def row_fields_def [symmetric] p4 p5 row_bytes_def)
qed

section \<open>A changed byte is noticed\<close>

text \<open>
  A run of bytes followed by its checksum, with any one byte changed: the stored checksum is no
  longer the checksum of what precedes it.
\<close>

lemma checksum_detects:
  assumes buf: "buf = body @ to_le_bytes 4 (crc32c body)"
    and i: "i < length buf" and b: "b \<noteq> buf ! i"
  shows "from_le_bytes (slice_of (length body) 4 (buf[i := b] @ rest)) \<noteq>
    crc32c (take (length body) (buf[i := b] @ rest))"
proof (cases "i < length body")
  case True
  then have "buf[i := b] = body[i := b] @ to_le_bytes 4 (crc32c body)"
    by (simp add: buf list_update_append)
  moreover have "crc32c (body[i := b]) \<noteq> crc32c body"
    using True b by (intro crc32c_update_differs) (simp_all add: buf nth_append)
  ultimately show ?thesis by simp
next
  case False
  let ?c = "to_le_bytes 4 (crc32c body)"
  let ?k = "i - length body"
  have k: "?k < 4" "b \<noteq> ?c ! ?k"
    using False i b by (simp_all add: buf nth_append)
  then have "?c[?k := b] \<noteq> ?c"
    by (metis length_to_le_bytes nth_list_update_eq)
  then have "(from_le_bytes (?c[?k := b]) :: u32) \<noteq> from_le_bytes ?c"
    using from_le_bytes_inject [of "?c[?k := b]" ?c, where 'a = 32] by auto
  moreover have "buf[i := b] = body @ ?c[?k := b]"
    using False by (simp add: buf list_update_append)
  ultimately show ?thesis by simp
qed

lemma RecordHeader_decode_corrupted:
  assumes "i < header_len wb" and "b \<noteq> header_bytes h wb ! i"
  shows "RecordHeader_decode ((header_bytes h wb)[i := b] @ rest) wb = None"
proof (rule ccontr)
  assume "\<not> ?thesis"
  then obtain h' where h': "RecordHeader_decode ((header_bytes h wb)[i := b] @ rest) wb = Some h'"
    by auto
  show False
    using checksum_detects [of "header_bytes h wb" "header_fields h wb" i b rest] assms
      RecordHeader_decode_Some(3) [OF h']
    by (simp add: header_bytes_def [symmetric])
qed

lemma RegistryRow_decode_corrupted:
  assumes "i < 36" and "b \<noteq> row_bytes r ! i"
  shows "RegistryRow_decode ((row_bytes r)[i := b]) = None"
proof -
  let ?buf = "row_fields r @ to_le_bytes 4 (crc32c (row_fields r))"
  have eq: "(row_bytes r)[i := b] = ?buf[i := b] @ replicate 28 0"
    using assms(1) list_update_append1 [of i ?buf "replicate 28 0" b] by (simp add: row_bytes_def)
  have "b \<noteq> ?buf ! i"
    using assms by (simp add: row_bytes_def nth_append split: if_splits)
  then have "from_le_bytes (slice_of 32 4 (?buf[i := b] @ replicate 28 0)) \<noteq>
      crc32c (take 32 (?buf[i := b] @ replicate 28 0))"
    using checksum_detects [of ?buf "row_fields r" i b "replicate 28 0"] assms(1) by simp
  then show ?thesis unfolding eq RegistryRow_decode_def by (simp only: simp_thms if_True if_False) simp
qed

lemma FileHeader_decode_corrupted:
  assumes "i < 12" and "b \<noteq> (file_header_bytes h @ to_le_bytes 4 (crc32c (file_header_bytes h))) ! i"
  shows "FileHeader_decode ((file_header_bytes h @ to_le_bytes 4 (crc32c (file_header_bytes h)))[i := b] @ rest) = None"
proof -
  let ?buf = "file_header_bytes h @ to_le_bytes 4 (crc32c (file_header_bytes h))"
  have len: "length (file_header_bytes h) = 8" by (simp add: file_header_bytes_def HSF1_def)
  have "from_le_bytes (slice_of 8 4 (?buf[i := b] @ rest)) \<noteq> crc32c (take 8 (?buf[i := b] @ rest))"
    using checksum_detects [of ?buf "file_header_bytes h" i b rest] assms by (simp add: len)
  then show ?thesis unfolding FileHeader_decode_def Let_def by (simp only: simp_thms if_True if_False) simp
qed

lemma put_slice_0_update:
  "i < length s \<Longrightarrow> (put_slice 0 s buf)[i := b] = s[i := b] @ drop (length s) buf"
  "i < length s \<Longrightarrow> put_slice 0 s buf ! i = s ! i"
  by (simp_all add: put_slice_def list_update_append nth_append)

section \<open>Properties\<close>

text \<open>
  A record header written into a buffer reads back as it was, in both layouts (the layout without
  a bucket reads bucket 0), and nothing of the buffer behind the header changes.
\<close>

theorem record_header_roundtrip:
  assumes "header_len wb \<le> length out"
  shows "RecordHeader_decode (RecordHeader_encode h wb out) wb = Some (if wb then h else h\<lparr>rh_bucket := 0\<rparr>) \<and>
    drop (header_len wb) (RecordHeader_encode h wb out) = drop (header_len wb) out \<and>
    length (RecordHeader_encode h wb out) = length out"
  using assms by (simp add: RecordHeader_encode_eq RecordHeader_decode_bytes put_slice_def)

theorem record_header_roundtrip_witness:
  "RecordHeader_decode (RecordHeader_encode \<lparr>rh_len = 5, rh_bucket = 3, rh_id = 9, rh_version = 2, rh_crc = 77\<rparr>
     False (replicate 40 1)) False =
   Some \<lparr>rh_len = 5, rh_bucket = 0, rh_id = 9, rh_version = 2, rh_crc = 77\<rparr>"
  using record_header_roundtrip [of False "replicate 40 1" "\<lparr>rh_len = 5, rh_bucket = 3, rh_id = 9, rh_version = 2, rh_crc = 77\<rparr>"]
  by (simp add: header_len_def)

text \<open>
  A record header with any one of its bytes changed, the two checksums included, is rejected.
\<close>

theorem record_header_corruption:
  assumes "header_len wb \<le> length out" and "i < header_len wb" and "b \<noteq> RecordHeader_encode h wb out ! i"
  shows "RecordHeader_decode ((RecordHeader_encode h wb out)[i := b]) wb = None"
  using assms by (simp add: RecordHeader_encode_eq put_slice_0_update RecordHeader_decode_corrupted)

theorem record_header_corruption_witness:
  "RecordHeader_decode ((RecordHeader_encode \<lparr>rh_len = 5, rh_bucket = 3, rh_id = 9, rh_version = 2, rh_crc = 77\<rparr>
     True (replicate 38 0))[20 := 8]) True = None"
proof -
  let ?h = "\<lparr>rh_len = 5, rh_bucket = 3, rh_id = 9, rh_version = 2, rh_crc = 77\<rparr>"
  have "header_bytes ?h True ! 20 = 9"
    by (simp add: header_bytes_def header_fields_def nth_append to_le_bytes_def)
  then have "RecordHeader_encode ?h True (replicate 38 0) ! 20 = 9"
    by (simp add: RecordHeader_encode_eq header_len_def put_slice_0_update)
  then show ?thesis by (intro record_header_corruption) (simp_all add: header_len_def)
qed

text \<open>
  A slot written for an offset the format can hold reads back as live, and rewritten with the
  tombstone bit it reads back as deleted with the offset and length it had.
\<close>

theorem slot_roundtrip:
  assumes "16 \<le> length out" and "sl_offset s \<noteq> 0" and "unat (sl_offset s) < 2 ^ 63"
  shows "Slot_state (Slot_encode s out) = Live s \<and> Slot_decode (Slot_encode s out) = Some s \<and>
    Slot_state (Slot_encode (s\<lparr>sl_offset := sl_offset s OR TOMBSTONE_BIT\<rparr>) out) = Deleted s \<and>
    Slot_decode (Slot_encode (s\<lparr>sl_offset := sl_offset s OR TOMBSTONE_BIT\<rparr>) out) = None"
proof -
  have bits: "16 \<le> length out" "unat (sl_offset s) < 9223372036854775808" using assms by simp_all
  have "Slot_state (Slot_encode s out) = Live s"
    using assms by (simp add: Slot_encode_eq put_slice_def Slot_state_bytes)
  moreover have "Slot_state (Slot_encode (s\<lparr>sl_offset := sl_offset s OR TOMBSTONE_BIT\<rparr>) out) = Deleted s"
    unfolding Slot_encode_eq [OF bits(1)] put_slice_def take_0 append_Nil by (rule Slot_state_tombstone [OF bits(2)])
  ultimately show ?thesis by (simp add: Slot_decode_def)
qed

theorem slot_roundtrip_witness:
  "Slot_state (Slot_encode \<lparr>sl_offset = 4096, sl_total_len = 35\<rparr> (replicate 16 0)) = Live \<lparr>sl_offset = 4096, sl_total_len = 35\<rparr>"
  using slot_roundtrip [of "replicate 16 0" "\<lparr>sl_offset = 4096, sl_total_len = 35\<rparr>"] by simp

text \<open>
  A file header page reads back as written and is a whole page; with any of the twelve bytes of
  magic, kind, layout, padding and checksum changed it is rejected.
\<close>

theorem file_header_roundtrip:
  assumes "length page = PAGE"
  shows "FileHeader_decode (FileHeader_encode h page) = Some h \<and> length (FileHeader_encode h page) = PAGE \<and>
    (\<forall>i < 12. \<forall>b. b \<noteq> FileHeader_encode h page ! i \<longrightarrow> FileHeader_decode ((FileHeader_encode h page)[i := b]) = None)"
proof -
  let ?buf = "file_header_bytes h @ to_le_bytes 4 (crc32c (file_header_bytes h))"
  obtain rest where eq: "FileHeader_encode h page = ?buf @ rest" "length rest = PAGE - 12"
    using FileHeader_encode_eq [OF assms, of h] by (simp add: PAGE_def)
  have len: "length ?buf = 12" by (simp add: file_header_bytes_def HSF1_def)
  have "FileHeader_decode ((?buf @ rest)[i := b]) = None" if "i < 12" "b \<noteq> (?buf @ rest) ! i" for i b
  proof -
    have "(?buf @ rest)[i := b] = ?buf[i := b] @ rest" using that(1) len by (intro list_update_append1) simp
    moreover have "b \<noteq> ?buf ! i" using that len nth_append [of ?buf rest i] by simp
    ultimately show ?thesis using FileHeader_decode_corrupted [OF that(1)] by metis
  qed
  moreover have "length (?buf @ rest) = PAGE" using len eq(2) by (simp add: PAGE_def)
  ultimately show ?thesis unfolding eq(1) using FileHeader_decode_bytes [of h rest] by simp
qed

theorem file_header_roundtrip_witness:
  "FileHeader_decode (FileHeader_encode \<lparr>fh_kind = 68, fh_layout = 1\<rparr> (replicate PAGE 0)) = Some \<lparr>fh_kind = 68, fh_layout = 1\<rparr>"
  using file_header_roundtrip [of "replicate PAGE 0" "\<lparr>fh_kind = 68, fh_layout = 1\<rparr>"] by simp

text \<open>
  A registry row reads back as written; with any byte up to the end of its checksum changed it is
  rejected.
\<close>

theorem registry_row_roundtrip:
  assumes "length out = REGISTRY_ROW_SIZE"
  shows "RegistryRow_decode (RegistryRow_encode r out) = Some r \<and>
    (\<forall>i < 36. \<forall>b. b \<noteq> RegistryRow_encode r out ! i \<longrightarrow> RegistryRow_decode ((RegistryRow_encode r out)[i := b]) = None)"
  using RegistryRow_decode_bytes [of r "[]"] RegistryRow_decode_corrupted [of _ _ r]
  by (simp add: RegistryRow_encode_eq [OF assms])

theorem registry_row_roundtrip_witness:
  "RegistryRow_decode (RegistryRow_encode \<lparr>rr_kind = 66, rr_bucket = 7, rr_start = 4096, rr_size = 8192\<rparr>
     (replicate REGISTRY_ROW_SIZE 5)) = Some \<lparr>rr_kind = 66, rr_bucket = 7, rr_start = 4096, rr_size = 8192\<rparr>"
  using registry_row_roundtrip [of "replicate REGISTRY_ROW_SIZE 5" "\<lparr>rr_kind = 66, rr_bucket = 7, rr_start = 4096, rr_size = 8192\<rparr>"]
  by simp

text \<open>
  \<open>page_down\<close> and \<open>page_up\<close> are the nearest page boundaries below and above, up to the last page
  of the address space, where \<open>page_up\<close> wraps to zero.
\<close>

theorem page_bounds:
  "4096 dvd unat (page_down off) \<and> unat (page_down off) \<le> unat off \<and> unat off < unat (page_down off) + 4096 \<and>
   (if unat off + 4095 < 2 ^ 64
    then 4096 dvd unat (page_up off) \<and> unat off \<le> unat (page_up off) \<and> unat (page_up off) < unat off + 4096
    else page_up off = 0)"
proof (cases "unat off + 4095 < 18446744073709551616")
  case True
  have "unat off \<le> (unat off + 4095) div 4096 * 4096" "(unat off + 4095) div 4096 * 4096 < unat off + 4096" by linarith+
  with True show ?thesis by (simp add: unat_page_up)
next
  case False
  then show ?thesis by (simp add: page_up_wraps)
qed

end
