(* ===== verification/Block_Io.thy ===== *)
theory Block_Io
  imports Format
begin

text \<open>
  Input and output: the page-aligned buffers and the \<open>BlockIo\<close> trait of \<open>src/src/io/mod.rs\<close> and its
  blocking implementation of \<open>src/src/io/sync.rs\<close>. A file is its bytes, the bytes that survive a
  crash, and the size the device lets it grow to. The operating system decides how many bytes a call
  transfers and whether it fails: those choices are a script carried in the state of the
  implementation, so every theorem holds for every sequence of short transfers. The trait is a
  record of operations, passed to the code that is generic in it; what its users rely on is the
  locale \<open>block_io\<close>.
\<close>

section \<open>Aligned buffers\<close>

text \<open>
  \<open>ab_mem\<close> is the allocation behind \<open>ptr\<close>: \<open>capacity\<close> bytes, of which the first \<open>len\<close> are the
  buffer's contents. A null \<open>ptr\<close> is an empty allocation. A failed allocation aborts the program and
  is not modelled.
\<close>

record AlignedBuf =
  ab_mem :: bytes
  ab_len :: nat

definition AlignedBuf_capacity :: "AlignedBuf \<Rightarrow> nat" where
  "AlignedBuf_capacity b = length (ab_mem b)"

definition next_multiple_of :: "nat \<Rightarrow> nat \<Rightarrow> nat" where
  "next_multiple_of n m = (n + m - 1) div m * m"

definition AlignedBuf_reserve :: "AlignedBuf \<Rightarrow> nat \<Rightarrow> AlignedBuf" where
  "AlignedBuf_reserve b need =
     (if need \<le> AlignedBuf_capacity b then b
      else let capacity = max (next_multiple_of need PAGE) (AlignedBuf_capacity b * 2)
        in b\<lparr>ab_mem := put_slice 0 (take (ab_len b) (ab_mem b)) (replicate capacity 0)\<rparr>)"

definition AlignedBuf_zeroed :: "nat \<Rightarrow> AlignedBuf" where
  "AlignedBuf_zeroed len =
     (let buffer = AlignedBuf_reserve \<lparr>ab_mem = [], ab_len = 0\<rparr> len in buffer\<lparr>ab_len := len\<rparr>)"

definition AlignedBuf_extend_from_slice :: "AlignedBuf \<Rightarrow> bytes \<Rightarrow> AlignedBuf" where
  "AlignedBuf_extend_from_slice b bs =
     (let b = AlignedBuf_reserve b (ab_len b + length bs)
      in b\<lparr>ab_mem := put_slice (ab_len b) bs (ab_mem b), ab_len := ab_len b + length bs\<rparr>)"

definition AlignedBuf_resize_zeroed :: "AlignedBuf \<Rightarrow> nat \<Rightarrow> AlignedBuf" where
  "AlignedBuf_resize_zeroed b len =
     (let b = AlignedBuf_reserve b len;
          b = (if ab_len b < len
               then b\<lparr>ab_mem := put_slice (ab_len b) (replicate (len - ab_len b) 0) (ab_mem b)\<rparr> else b)
      in b\<lparr>ab_len := len\<rparr>)"

definition AlignedBuf_clear :: "AlignedBuf \<Rightarrow> AlignedBuf" where
  "AlignedBuf_clear b = b\<lparr>ab_len := 0\<rparr>"

text \<open>\<open>deref\<close>, and a write through \<open>deref_mut\<close>.\<close>

definition AlignedBuf_deref :: "AlignedBuf \<Rightarrow> bytes" where
  "AlignedBuf_deref b = take (ab_len b) (ab_mem b)"

definition AlignedBuf_deref_put :: "AlignedBuf \<Rightarrow> nat \<Rightarrow> bytes \<Rightarrow> AlignedBuf" where
  "AlignedBuf_deref_put b i bs = b\<lparr>ab_mem := put_slice i bs (ab_mem b)\<rparr>"

section \<open>Files\<close>

record File =
  f_content :: bytes
  f_durable :: bytes
  f_limit :: nat

text \<open>\<open>file.metadata()?.len()\<close> on an open descriptor.\<close>

definition file_len :: "File \<Rightarrow> u64" where
  "file_len f = of_nat (length (f_content f))"

text \<open>
  A write of some bytes at an offset: the file grows as needed and a gap reads as zeros. Writing
  nothing changes nothing.
\<close>

definition pwrite :: "bytes \<Rightarrow> nat \<Rightarrow> bytes \<Rightarrow> bytes" where
  "pwrite c off bs =
     (if bs = [] then c
      else take off (c @ replicate (off - length c) 0) @ bs @ drop (off + length bs) c)"

text \<open>\<open>fallocate\<close>: both arguments are passed as signed integers.\<close>

definition fallocate :: "File \<Rightarrow> u64 \<Rightarrow> u64 \<Rightarrow> unit res \<times> File" where
  "fallocate f offset len =
     (if sint offset < 0 \<or> sint len \<le> 0 then (Inl (Err (Io (OsError 22))), f)
      else if f_limit f < unat offset + unat len then (Inl (Err (Io (OsError 28))), f)
      else (Inr (), f\<lparr>f_content := f_content f @
              replicate (unat offset + unat len - length (f_content f)) 0\<rparr>))"

section \<open>The trait\<close>

record IoCounters =
  ic_reads :: u64
  ic_writes :: u64
  ic_read_bytes :: u64
  ic_write_bytes :: u64
  ic_syncs :: u64

definition IoCounters_default :: IoCounters where
  "IoCounters_default =
     \<lparr>ic_reads = 0, ic_writes = 0, ic_read_bytes = 0, ic_write_bytes = 0, ic_syncs = 0\<rparr>"

text \<open>
  A \<open>ReadReq\<close> or a \<open>WriteReq\<close> is an offset and a buffer. \<open>read_vec\<close> returns the buffers as it
  leaves them; \<open>write_vec\<close> and \<open>sync\<close> return the file as they leave it, also when they fail.
\<close>

type_synonym io_req = "u64 \<times> bytes"

record 'io BlockIo =
  read_vec :: "'io \<Rightarrow> File \<Rightarrow> io_req list \<Rightarrow> bytes list res \<times> 'io"
  write_vec :: "'io \<Rightarrow> File \<Rightarrow> io_req list \<Rightarrow> unit res \<times> 'io \<times> File"
  sync :: "'io \<Rightarrow> File \<Rightarrow> unit res \<times> 'io \<times> File"
  counters :: "'io \<Rightarrow> IoCounters"
  reset_counters :: "'io \<Rightarrow> 'io"

section \<open>Blocking calls\<close>

text \<open>
  What the system does on the next call: transfer some number of bytes (all of them when the script
  has run out) or fail. A read that is not at the end of the file transfers at least one byte.
\<close>

datatype sys = Sys_ok nat | Sys_err int

text \<open>What has been written survives a crash from a successful \<open>fdatasync\<close> on.\<close>

definition fdatasync_counted :: "sys list \<Rightarrow> File \<Rightarrow> IoCounters \<Rightarrow> unit res \<times> sys list \<times> File \<times> IoCounters" where
  "fdatasync_counted script f c =
     (case script of
        Sys_err e # script \<Rightarrow> (Inl (Err (Io (OsError e))), script, f, c)
      | _ \<Rightarrow> (Inr (), tl script, f\<lparr>f_durable := f_content f\<rparr>, c\<lparr>ic_syncs := ic_syncs c + 1\<rparr>))"

lemma fdatasync_counted_Inr:
  "fdatasync_counted script f c = (Inr u, script', f', c') \<Longrightarrow> f' = f\<lparr>f_durable := f_content f\<rparr>"
  by (simp add: fdatasync_counted_def split: list.splits sys.splits)

lemma fdatasync_counted_works:
  assumes "\<forall>s \<in> set script. \<exists>k > 0. s = Sys_ok k"
  shows "\<exists>f' c'. fdatasync_counted script f c = (Inr (), tl script, f', c')"
proof (cases script)
  case (Cons s rest)
  with assms obtain k where "s = Sys_ok k" by auto
  with Cons show ?thesis by (simp add: fdatasync_counted_def)
qed (simp add: fdatasync_counted_def)

record SyncIo =
  sio_counters :: IoCounters
  sio_script :: "sys list"

definition SyncIo_new :: SyncIo where
  "SyncIo_new = \<lparr>sio_counters = IoCounters_default, sio_script = []\<rparr>"

definition file_read_at :: "SyncIo \<Rightarrow> File \<Rightarrow> nat \<Rightarrow> u64 \<Rightarrow> bytes res \<times> SyncIo" where
  "file_read_at io f want off =
     (let avail = take want (drop (unat off) (f_content f)) in
      case sio_script io of
        [] \<Rightarrow> (Inr avail, io)
      | Sys_err e # ss \<Rightarrow> (Inl (Err (Io (OsError e))), io\<lparr>sio_script := ss\<rparr>)
      | Sys_ok k # ss \<Rightarrow> (Inr (take (max 1 k) avail), io\<lparr>sio_script := ss\<rparr>))"

definition file_write_at :: "SyncIo \<Rightarrow> File \<Rightarrow> bytes \<Rightarrow> u64 \<Rightarrow> nat res \<times> SyncIo \<times> File" where
  "file_write_at io f data off =
     (let put = (\<lambda>n. f\<lparr>f_content := pwrite (f_content f) (unat off) (take n data)\<rparr>) in
      case sio_script io of
        [] \<Rightarrow> (Inr (length data), io, put (length data))
      | Sys_err e # ss \<Rightarrow> (Inl (Err (Io (OsError e))), io\<lparr>sio_script := ss\<rparr>, f)
      | Sys_ok k # ss \<Rightarrow> (Inr (min k (length data)), io\<lparr>sio_script := ss\<rparr>, put k))"

definition count_read :: "SyncIo \<Rightarrow> nat \<Rightarrow> SyncIo" where
  "count_read io n = io\<lparr>sio_counters := (sio_counters io)
     \<lparr>ic_reads := ic_reads (sio_counters io) + 1,
      ic_read_bytes := ic_read_bytes (sio_counters io) + of_nat n\<rparr>\<rparr>"

definition count_write :: "SyncIo \<Rightarrow> nat \<Rightarrow> SyncIo" where
  "count_write io n = io\<lparr>sio_counters := (sio_counters io)
     \<lparr>ic_writes := ic_writes (sio_counters io) + 1,
      ic_write_bytes := ic_write_bytes (sio_counters io) + of_nat n\<rparr>\<rparr>"

text \<open>The inner loop of \<open>read_vec\<close>: one request, \<open>done\<close> bytes of it filled.\<close>

function sync_read_request :: "SyncIo \<Rightarrow> File \<Rightarrow> u64 \<Rightarrow> bytes \<Rightarrow> nat \<Rightarrow> bytes res \<times> SyncIo" where
  "sync_read_request io f off buf done =
     (if done < length buf then
        case file_read_at io f (length buf - done) (off + of_nat done) of
          (Inl e, io) \<Rightarrow> (Inl e, io)
        | (Inr got, io) \<Rightarrow>
            let io = count_read io (length got) in
            if got = [] then (Inr (put_slice done (replicate (length buf - done) 0) buf), io)
            else sync_read_request io f off (put_slice done got buf) (done + length got)
      else (Inr buf, io))"
  by pat_completeness auto
termination
  by (relation "measure (\<lambda>(io, f, off, buf, done). length buf - done)") (auto simp: put_slice_def simp flip: length_greater_0_conv)

fun sync_read_vec :: "SyncIo \<Rightarrow> File \<Rightarrow> io_req list \<Rightarrow> bytes list res \<times> SyncIo" where
  "sync_read_vec io f [] = (Inr [], io)"
| "sync_read_vec io f ((off, buf) # requests) =
     (case sync_read_request io f off buf 0 of
        (Inl e, io) \<Rightarrow> (Inl e, io)
      | (Inr buf, io) \<Rightarrow>
          (case sync_read_vec io f requests of
             (Inl e, io) \<Rightarrow> (Inl e, io)
           | (Inr bufs, io) \<Rightarrow> (Inr (buf # bufs), io)))"

function sync_write_request :: "SyncIo \<Rightarrow> File \<Rightarrow> u64 \<Rightarrow> bytes \<Rightarrow> nat \<Rightarrow> unit res \<times> SyncIo \<times> File" where
  "sync_write_request io f off buf done =
     (if done < length buf then
        case file_write_at io f (drop done buf) (off + of_nat done) of
          (Inl e, io, f) \<Rightarrow> (Inl e, io, f)
        | (Inr n, io, f) \<Rightarrow>
            if n = 0 then (Inl (Err (Io WriteZero)), io, f)
            else sync_write_request (count_write io n) f off buf (done + n)
      else (Inr (), io, f))"
  by pat_completeness auto
termination
  by (relation "measure (\<lambda>(io, f, off, buf, done). length buf - done)") auto

fun sync_write_vec :: "SyncIo \<Rightarrow> File \<Rightarrow> io_req list \<Rightarrow> unit res \<times> SyncIo \<times> File" where
  "sync_write_vec io f [] = (Inr (), io, f)"
| "sync_write_vec io f ((off, buf) # requests) =
     (case sync_write_request io f off buf 0 of
        (Inl e, io, f) \<Rightarrow> (Inl e, io, f)
      | (Inr _, io, f) \<Rightarrow> sync_write_vec io f requests)"

definition sync_sync :: "SyncIo \<Rightarrow> File \<Rightarrow> unit res \<times> SyncIo \<times> File" where
  "sync_sync io f =
     (case fdatasync_counted (sio_script io) f (sio_counters io) of
        (r, script, f, c) \<Rightarrow> (r, io\<lparr>sio_script := script, sio_counters := c\<rparr>, f))"

definition sync_reset_counters :: "SyncIo \<Rightarrow> SyncIo" where
  "sync_reset_counters io = io\<lparr>sio_counters := IoCounters_default\<rparr>"

definition sync_block_io :: "SyncIo BlockIo" where
  "sync_block_io =
     \<lparr>read_vec = sync_read_vec, write_vec = sync_write_vec, sync = sync_sync,
      counters = sio_counters, reset_counters = sync_reset_counters\<rparr>"

declare sync_read_request.simps [simp del] sync_write_request.simps [simp del]

section \<open>Buffers never show old bytes\<close>

definition ab_ok :: "AlignedBuf \<Rightarrow> bool" where
  "ab_ok b \<longleftrightarrow> ab_len b \<le> length (ab_mem b)"

lemma next_multiple_of_PAGE: "n \<le> next_multiple_of n PAGE"
  by (simp add: next_multiple_of_def PAGE_def)

lemma length_deref [simp]: "ab_ok b \<Longrightarrow> length (AlignedBuf_deref b) = ab_len b"
  by (simp add: ab_ok_def AlignedBuf_deref_def)

lemma reserve_facts:
  assumes "ab_ok b"
  shows "ab_ok (AlignedBuf_reserve b need)" "need \<le> length (ab_mem (AlignedBuf_reserve b need))"
    "ab_len (AlignedBuf_reserve b need) = ab_len b"
    "take (ab_len b) (ab_mem (AlignedBuf_reserve b need)) = take (ab_len b) (ab_mem b)"
  using assms next_multiple_of_PAGE [of need]
  by (auto simp: AlignedBuf_reserve_def ab_ok_def AlignedBuf_capacity_def put_slice_def Let_def)

lemma zeroed_ok [simp]: "ab_ok (AlignedBuf_zeroed n)"
  and deref_zeroed [simp]: "AlignedBuf_deref (AlignedBuf_zeroed n) = replicate n 0"
  using next_multiple_of_PAGE [of n]
  by (auto simp: AlignedBuf_zeroed_def AlignedBuf_reserve_def ab_ok_def AlignedBuf_capacity_def
      AlignedBuf_deref_def put_slice_def Let_def min_def)

lemma clear_ok [simp]: "ab_ok (AlignedBuf_clear b)"
  and deref_clear [simp]: "AlignedBuf_deref (AlignedBuf_clear b) = []"
  by (simp_all add: AlignedBuf_clear_def ab_ok_def AlignedBuf_deref_def)

lemma extend_ok [simp]: "ab_ok b \<Longrightarrow> ab_ok (AlignedBuf_extend_from_slice b bs)"
  and deref_extend [simp]:
    "ab_ok b \<Longrightarrow> AlignedBuf_deref (AlignedBuf_extend_from_slice b bs) = AlignedBuf_deref b @ bs"
  using reserve_facts [of b "ab_len b + length bs"]
  by (simp_all add: AlignedBuf_extend_from_slice_def ab_ok_def AlignedBuf_deref_def put_slice_def Let_def)

lemma resize_ok [simp]: "ab_ok b \<Longrightarrow> ab_ok (AlignedBuf_resize_zeroed b n)"
  using reserve_facts [of b n]
  by (simp add: AlignedBuf_resize_zeroed_def ab_ok_def Let_def)

lemma deref_resize:
  assumes "ab_ok b"
  shows "AlignedBuf_deref (AlignedBuf_resize_zeroed b n) =
    take n (AlignedBuf_deref b) @ replicate (n - ab_len b) 0"
proof (cases "ab_len b < n")
  case True
  then show ?thesis
    using reserve_facts [OF assms, of n] assms
    by (auto simp: AlignedBuf_resize_zeroed_def AlignedBuf_deref_def put_slice_def Let_def min_def ab_ok_def)
next
  case False
  then have "take n (ab_mem (AlignedBuf_reserve b n)) = take n (ab_mem b)"
    using reserve_facts(4) [OF assms, of n] by (metis take_take min.absorb1 not_less)
  with False show ?thesis
    using reserve_facts [OF assms, of n]
    by (simp add: AlignedBuf_resize_zeroed_def AlignedBuf_deref_def Let_def min_def)
qed

lemma ab_len_resize [simp]: "ab_len (AlignedBuf_resize_zeroed b n) = n"
  by (simp add: AlignedBuf_resize_zeroed_def Let_def)

lemma deref_put:
  assumes "ab_ok b" and "i + length bs \<le> ab_len b"
  shows "ab_ok (AlignedBuf_deref_put b i bs)" "ab_len (AlignedBuf_deref_put b i bs) = ab_len b"
    "AlignedBuf_deref (AlignedBuf_deref_put b i bs) = put_slice i bs (AlignedBuf_deref b)"
proof -
  show "ab_ok (AlignedBuf_deref_put b i bs)" "ab_len (AlignedBuf_deref_put b i bs) = ab_len b"
    using assms by (simp_all add: ab_ok_def AlignedBuf_deref_put_def)
  show "AlignedBuf_deref (AlignedBuf_deref_put b i bs) = put_slice i bs (AlignedBuf_deref b)"
    using assms
    by (intro nth_equalityI)
      (simp_all add: ab_ok_def AlignedBuf_deref_put_def AlignedBuf_deref_def nth_put_slice)
qed

section \<open>File contents\<close>

text \<open>A file reads as zeros beyond its end.\<close>

definition byte_at :: "bytes \<Rightarrow> nat \<Rightarrow> u8" where
  "byte_at c i = (if i < length c then c ! i else 0)"

definition read_zeros :: "bytes \<Rightarrow> nat \<Rightarrow> nat \<Rightarrow> bytes" where
  "read_zeros c off n = map (\<lambda>i. byte_at c (off + i)) [0..<n]"

lemma length_read_zeros [simp]: "length (read_zeros c off n) = n"
  by (simp add: read_zeros_def)

lemma nth_read_zeros [simp]: "i < n \<Longrightarrow> read_zeros c off n ! i = byte_at c (off + i)"
  by (simp add: read_zeros_def)

lemma length_pwrite:
  "length (pwrite c off bs) = (if bs = [] then length c else max (length c) (off + length bs))"
  by (simp add: pwrite_def min_def max_def)

lemma byte_at_pwrite:
  "byte_at (pwrite c off bs) i =
     (if off \<le> i \<and> i < off + length bs then bs ! (i - off) else byte_at c i)"
  by (auto simp: byte_at_def pwrite_def nth_append min_def)

lemma byte_at_append_zeros [simp]: "byte_at (c @ replicate n 0) i = byte_at c i"
  by (simp add: byte_at_def nth_append)

lemma bytes_eqI:
  assumes "length c = length d" and "\<And>i. byte_at c i = byte_at d i"
  shows "c = d"
proof (rule nth_equalityI)
  fix i
  assume "i < length c"
  with assms show "c ! i = d ! i" by (metis byte_at_def)
qed (rule assms)

lemma pwrite_append:
  "pwrite (pwrite c off a) (off + length a) b = pwrite c off (a @ b)"
proof (rule bytes_eqI)
  show "length (pwrite (pwrite c off a) (off + length a) b) = length (pwrite c off (a @ b))"
    by (auto simp: length_pwrite)
  fix i
  show "byte_at (pwrite (pwrite c off a) (off + length a) b) i = byte_at (pwrite c off (a @ b)) i"
    by (auto simp: byte_at_pwrite nth_append)
qed

lemma read_zeros_Suc_append: "read_zeros c off (m + n) = read_zeros c off m @ read_zeros c (off + m) n"
  by (rule nth_equalityI) (auto simp: nth_append)

lemma take_drop_read_zeros:
  "n \<le> length c - off \<Longrightarrow> take n (drop off c) = read_zeros c off n"
  by (rule nth_equalityI) (auto simp: byte_at_def)

lemma read_zeros_eof: "length c \<le> off \<Longrightarrow> read_zeros c off n = replicate n 0"
  by (rule nth_equalityI) (auto simp: byte_at_def)

section \<open>Blocking reads and writes transfer everything\<close>

definition healthy :: "SyncIo \<Rightarrow> bool" where
  "healthy io \<longleftrightarrow> (\<forall>s \<in> set (sio_script io). \<exists>k > 0. s = Sys_ok k)"

lemma healthy_count [simp]:
  "healthy (count_read io n) = healthy io" "healthy (count_write io n) = healthy io"
  by (simp_all add: healthy_def count_read_def count_write_def)

lemma file_read_at_Inr:
  assumes "file_read_at io f want off = (Inr got, io')"
  shows "length got \<le> want" "got = read_zeros (f_content f) (unat off) (length got)"
    "got = [] \<Longrightarrow> 0 < want \<Longrightarrow> length (f_content f) \<le> unat off"
    "healthy io \<Longrightarrow> healthy io'"
proof -
  let ?avail = "take want (drop (unat off) (f_content f))"
  have "\<exists>k. got = take k ?avail \<and> (got = [] \<longrightarrow> ?avail = [])"
  proof (cases "sio_script io")
    case Nil
    with assms show ?thesis by (intro exI [of _ want]) (auto simp: file_read_at_def)
  next
    case (Cons s ss)
    with assms obtain k where "s = Sys_ok k" "got = take (max 1 k) ?avail"
      by (cases s) (auto simp: file_read_at_def Let_def)
    then show ?thesis by (intro exI [of _ "max 1 k"]) (auto simp: max_def split: if_splits)
  qed
  then obtain k where k: "got = take k ?avail" "got = [] \<Longrightarrow> ?avail = []" by blast
  then have "got = take (length got) ?avail" by (simp add: min_def)
  moreover from k have "length got \<le> length ?avail" by simp
  ultimately show "length got \<le> want" "got = read_zeros (f_content f) (unat off) (length got)"
    "got = [] \<Longrightarrow> 0 < want \<Longrightarrow> length (f_content f) \<le> unat off"
    using take_drop_read_zeros [of "length got" "f_content f" "unat off"] k(2)
    by (auto simp: min_def split: if_splits)
  show "healthy io \<Longrightarrow> healthy io'"
    using assms by (auto simp: file_read_at_def healthy_def Let_def split: list.splits sys.splits)
qed

lemma file_read_at_healthy:
  "healthy io \<Longrightarrow> \<exists>got io'. file_read_at io f want off = (Inr got, io')"
  by (fastforce simp: file_read_at_def healthy_def Let_def split: list.splits sys.splits)

lemma unat_off_done:
  fixes off :: u64
  assumes "unat off + n \<le> 18446744073709551616" and "d < n"
  shows "unat (off + of_nat d) = unat off + d"
  using assms by (simp add: unat_add_nowrap unat_of_nat_nowrap)

lemma sync_read_request_Inr:
  assumes "sync_read_request io f off buf d = (Inr buf', io')"
    and "unat off + length buf \<le> 18446744073709551616" and "d \<le> length buf"
    and "take d buf = read_zeros (f_content f) (unat off) d"
  shows "buf' = read_zeros (f_content f) (unat off) (length buf)"
  using assms
proof (induction io f off buf d rule: sync_read_request.induct)
  case (1 io f off buf d)
  show ?case
  proof (cases "d < length buf")
    case False
    with "1.prems" show ?thesis by (simp add: sync_read_request.simps [of io f off buf d])
  next
    case True
    have unat: "unat (off + of_nat d) = unat off + d"
      using "1.prems"(2) True by (rule unat_off_done)
    obtain got io1 where read: "file_read_at io f (length buf - d) (off + of_nat d) = (Inr got, io1)"
      using "1.prems"(1) True by (auto simp: sync_read_request.simps [of io f off buf d] split: prod.splits sum.splits)
    note got = file_read_at_Inr [OF read, unfolded unat]
    show ?thesis
    proof (cases "got = []")
      case True
      then have "length (f_content f) \<le> unat off + d" using got(3) \<open>d < length buf\<close> by simp
      then show ?thesis
        using "1.prems" True \<open>d < length buf\<close> read read_zeros_Suc_append [of "f_content f" "unat off" d "length buf - d"]
        by (simp add: sync_read_request.simps [of io f off buf d] put_slice_def read_zeros_eof)
    next
      case False
      let ?buf = "put_slice d got buf"
      have len: "length ?buf = length buf" using got(1) True by simp
      have "take (d + length got) ?buf = read_zeros (f_content f) (unat off) (d + length got)"
        using got(2) "1.prems"(4) True by (simp add: put_slice_def read_zeros_Suc_append)
      moreover have "sync_read_request (count_read io1 (length got)) f off ?buf (d + length got) = (Inr buf', io')"
        using "1.prems"(1) True False read by (simp add: sync_read_request.simps [of io f off buf d])
      ultimately show ?thesis
        using "1.IH" [OF True read [symmetric] refl refl False] "1.prems"(2) got(1) True len by simp
    qed
  qed
qed

lemma sync_read_request_healthy:
  "healthy io \<Longrightarrow> \<exists>buf' io'. sync_read_request io f off buf d = (Inr buf', io') \<and> healthy io'"
proof (induction io f off buf d rule: sync_read_request.induct)
  case (1 io f off buf d)
  show ?case
  proof (cases "d < length buf")
    case False
    with "1.prems" show ?thesis by (simp add: sync_read_request.simps [of io f off buf d])
  next
    case True
    obtain got io1 where read: "file_read_at io f (length buf - d) (off + of_nat d) = (Inr got, io1)"
      using file_read_at_healthy [OF "1.prems"] by blast
    have h: "healthy io1" using file_read_at_Inr(4) [OF read "1.prems"] .
    show ?thesis
    proof (cases "got = []")
      case True
      with \<open>d < length buf\<close> h read show ?thesis
        by (simp add: sync_read_request.simps [of io f off buf d])
    next
      case False
      with "1.IH" [OF True read [symmetric] refl refl False] h True read show ?thesis
        by (simp add: sync_read_request.simps [of io f off buf d])
    qed
  qed
qed

text \<open>Requests that stay inside the address space of a file.\<close>

definition reqs_ok :: "io_req list \<Rightarrow> bool" where
  "reqs_ok requests \<longleftrightarrow> (\<forall>(off, buf) \<in> set requests. unat off + length buf \<le> 18446744073709551616)"

lemma reqs_ok_Cons [simp]:
  "reqs_ok ((off, buf) # rs) \<longleftrightarrow> unat off + length buf \<le> 18446744073709551616 \<and> reqs_ok rs"
  and reqs_ok_Nil [simp]: "reqs_ok []"
  by (simp_all add: reqs_ok_def)

definition reads_of :: "bytes \<Rightarrow> io_req list \<Rightarrow> bytes list" where
  "reads_of c requests = map (\<lambda>(off, buf). read_zeros c (unat off) (length buf)) requests"

definition writes_to :: "bytes \<Rightarrow> io_req list \<Rightarrow> bytes" where
  "writes_to c requests = foldl (\<lambda>c (off, buf). pwrite c (unat off) buf) c requests"

lemma sync_read_vec_Inr:
  "sync_read_vec io f rs = (Inr bufs, io') \<Longrightarrow> reqs_ok rs \<Longrightarrow> bufs = reads_of (f_content f) rs"
proof (induction io f rs arbitrary: bufs io' rule: sync_read_vec.induct)
  case (1 io f)
  then show ?case by (simp add: reads_of_def)
next
  case (2 io f off buf rs)
  then obtain b io1 bs where one: "sync_read_request io f off buf 0 = (Inr b, io1)"
    and rest: "sync_read_vec io1 f rs = (Inr bs, io')" "bufs = b # bs"
    by (auto split: prod.splits sum.splits)
  have "b = read_zeros (f_content f) (unat off) (length buf)"
    using "2.prems"(2) by (intro sync_read_request_Inr [OF one]) (simp_all add: read_zeros_def)
  moreover have "bs = reads_of (f_content f) rs"
    using "2.IH" [OF one [symmetric] refl rest(1)] "2.prems"(2) by simp
  ultimately show ?case using rest(2) by (simp add: reads_of_def)
qed

lemma sync_read_vec_healthy:
  "healthy io \<Longrightarrow> \<exists>bufs io'. sync_read_vec io f rs = (Inr bufs, io') \<and> healthy io'"
proof (induction io f rs rule: sync_read_vec.induct)
  case (1 io f)
  then show ?case by simp
next
  case (2 io f off buf rs)
  obtain b io1 where one: "sync_read_request io f off buf 0 = (Inr b, io1)" "healthy io1"
    using sync_read_request_healthy [OF "2.prems"] by blast
  then obtain bs io2 where "sync_read_vec io1 f rs = (Inr bs, io2)" "healthy io2"
    using "2.IH" [OF one(1) [symmetric] refl] by blast
  with one show ?case by simp
qed

lemma file_write_at_Inr:
  assumes "file_write_at io f data off = (Inr n, io', f')"
  shows "n \<le> length data" "f' = f\<lparr>f_content := pwrite (f_content f) (unat off) (take n data)\<rparr>"
    "healthy io \<Longrightarrow> healthy io'" "healthy io \<Longrightarrow> data \<noteq> [] \<Longrightarrow> 0 < n"
  using assms
  by (auto simp: file_write_at_def healthy_def Let_def min_def split: list.splits sys.splits if_splits)

lemma file_write_at_healthy:
  "healthy io \<Longrightarrow> \<exists>n io' f'. file_write_at io f data off = (Inr n, io', f')"
  by (fastforce simp: file_write_at_def healthy_def Let_def split: list.splits sys.splits)

lemma sync_write_request_Inr:
  assumes "sync_write_request io f off buf d = (Inr u, io', f')"
    and "unat off + length buf \<le> 18446744073709551616" and "d \<le> length buf"
    and "f_content f = pwrite c (unat off) (take d buf)"
  shows "f' = f\<lparr>f_content := pwrite c (unat off) buf\<rparr>"
  using assms
proof (induction io f off buf d rule: sync_write_request.induct)
  case (1 io f off buf d)
  show ?case
  proof (cases "d < length buf")
    case False
    with "1.prems" show ?thesis by (simp add: sync_write_request.simps [of io f off buf d])
  next
    case True
    have unat: "unat (off + of_nat d) = unat off + d"
      using "1.prems"(2) True by (rule unat_off_done)
    obtain n io1 f1 where wr: "file_write_at io f (drop d buf) (off + of_nat d) = (Inr n, io1, f1)"
      and n: "n \<noteq> 0" and rec: "sync_write_request (count_write io1 n) f1 off buf (d + n) = (Inr u, io', f')"
      using "1.prems"(1) True
      by (auto simp: sync_write_request.simps [of io f off buf d] split: prod.splits sum.splits if_splits)
    note w = file_write_at_Inr [OF wr, unfolded unat]
    have "f_content f1 = pwrite c (unat off) (take (d + n) buf)"
      using w(2) "1.prems"(4) True pwrite_append [of c "unat off" "take d buf" "take n (drop d buf)"]
      by (simp add: take_add)
    then have "f' = f1\<lparr>f_content := pwrite c (unat off) buf\<rparr>"
      using "1.IH" [OF True wr [symmetric] refl refl n rec "1.prems"(2)] w(1) True by simp
    with w(2) show ?thesis by simp
  qed
qed

lemma sync_write_request_healthy:
  "healthy io \<Longrightarrow> \<exists>io' f'. sync_write_request io f off buf d = (Inr (), io', f') \<and> healthy io'"
proof (induction io f off buf d rule: sync_write_request.induct)
  case (1 io f off buf d)
  show ?case
  proof (cases "d < length buf")
    case False
    with "1.prems" show ?thesis by (simp add: sync_write_request.simps [of io f off buf d])
  next
    case True
    obtain n io1 f1 where wr: "file_write_at io f (drop d buf) (off + of_nat d) = (Inr n, io1, f1)"
      using file_write_at_healthy [OF "1.prems"] by blast
    have "n \<noteq> 0" "healthy io1"
      using file_write_at_Inr(3,4) [OF wr "1.prems"] True by auto
    with "1.IH" [OF True wr [symmetric] refl refl] True wr show ?thesis
      by (simp add: sync_write_request.simps [of io f off buf d])
  qed
qed

lemma sync_write_vec_Inr:
  "sync_write_vec io f rs = (Inr u, io', f') \<Longrightarrow> reqs_ok rs \<Longrightarrow>
     f' = f\<lparr>f_content := writes_to (f_content f) rs\<rparr>"
proof (induction io f rs rule: sync_write_vec.induct)
  case (1 io f)
  then show ?case by (simp add: writes_to_def)
next
  case (2 io f off buf rs)
  then obtain v io1 f1 where one: "sync_write_request io f off buf 0 = (Inr v, io1, f1)"
    and rest: "sync_write_vec io1 f1 rs = (Inr u, io', f')"
    by (auto split: prod.splits sum.splits)
  have "f1 = f\<lparr>f_content := pwrite (f_content f) (unat off) buf\<rparr>"
    using "2.prems"(2) by (intro sync_write_request_Inr [OF one]) (simp_all add: pwrite_def)
  moreover have "f' = f1\<lparr>f_content := writes_to (f_content f1) rs\<rparr>"
    using "2.IH" [OF one [symmetric] refl refl rest] "2.prems"(2) by simp
  ultimately show ?case by (simp add: writes_to_def)
qed

lemma sync_write_vec_healthy:
  "healthy io \<Longrightarrow> \<exists>io' f'. sync_write_vec io f rs = (Inr (), io', f') \<and> healthy io'"
proof (induction io f rs rule: sync_write_vec.induct)
  case (1 io f)
  then show ?case by simp
next
  case (2 io f off buf rs)
  obtain io1 f1 where one: "sync_write_request io f off buf 0 = (Inr (), io1, f1)" "healthy io1"
    using sync_write_request_healthy [OF "2.prems"] by blast
  then obtain io2 f2 where "sync_write_vec io1 f1 rs = (Inr (), io2, f2)" "healthy io2"
    using "2.IH" [OF one(1) [symmetric] refl refl] by blast
  with one show ?case by simp
qed

section \<open>What users of the trait rely on\<close>

text \<open>
  A vector of requests is given to the device as a whole, so the order of its writes is fixed only
  where they do not overlap.
\<close>

definition req_apart :: "io_req \<Rightarrow> io_req \<Rightarrow> bool" where
  "req_apart r q \<longleftrightarrow> unat (fst r) + length (snd r) \<le> unat (fst q) \<or> unat (fst q) + length (snd q) \<le> unat (fst r)"

definition reqs_apart :: "io_req list \<Rightarrow> bool" where
  "reqs_apart requests = sorted_wrt req_apart requests"

locale block_io =
  fixes D :: "'io BlockIo" and steady :: "'io \<Rightarrow> bool"
  assumes read_vec_Inr: "read_vec D io f rs = (Inr bufs, io') \<Longrightarrow> reqs_ok rs \<Longrightarrow>
      bufs = reads_of (f_content f) rs"
    and write_vec_Inr: "write_vec D io f rs = (Inr u, io', f') \<Longrightarrow> reqs_ok rs \<Longrightarrow> reqs_apart rs \<Longrightarrow>
      f' = f\<lparr>f_content := writes_to (f_content f) rs\<rparr>"
    and sync_Inr: "sync D io f = (Inr u, io', f') \<Longrightarrow> f' = f\<lparr>f_durable := f_content f\<rparr>"
    and read_vec_steady: "steady io \<Longrightarrow> \<exists>bufs io'. read_vec D io f rs = (Inr bufs, io') \<and> steady io'"
    and write_vec_steady: "steady io \<Longrightarrow> \<exists>io' f'. write_vec D io f rs = (Inr (), io', f') \<and> steady io'"
    and sync_steady: "steady io \<Longrightarrow> \<exists>io' f'. sync D io f = (Inr (), io', f') \<and> steady io'"

lemma sync_sync_Inr: "sync_sync io f = (Inr u, io', f') \<Longrightarrow> f' = f\<lparr>f_durable := f_content f\<rparr>"
  by (auto simp: sync_sync_def split: prod.splits dest: fdatasync_counted_Inr)

lemma sync_sync_healthy:
  assumes "healthy io"
  shows "\<exists>io' f'. sync_sync io f = (Inr (), io', f') \<and> healthy io'"
proof -
  have fine: "\<forall>s \<in> set (sio_script io). \<exists>k > 0. s = Sys_ok k" using assms by (simp only: healthy_def)
  obtain f' c' where d: "fdatasync_counted (sio_script io) f (sio_counters io) = (Inr (), tl (sio_script io), f', c')"
    using fdatasync_counted_works [OF fine] by blast
  have "healthy (io\<lparr>sio_script := tl (sio_script io), sio_counters := c'\<rparr>)"
    using fine list.set_sel(2) [of "sio_script io"] by (cases "sio_script io = []") (simp_all add: healthy_def)
  with d show ?thesis by (simp add: sync_sync_def)
qed

interpretation blocking: block_io sync_block_io healthy
  by (unfold_locales; simp only: sync_block_io_def BlockIo.select_convs;
    blast intro: sync_read_vec_Inr sync_write_vec_Inr sync_read_vec_healthy sync_write_vec_healthy
      sync_sync_Inr sync_sync_healthy)

section \<open>A write stays in its range\<close>

definition in_request :: "nat \<Rightarrow> io_req \<Rightarrow> bool" where
  "in_request i r \<longleftrightarrow> unat (fst r) \<le> i \<and> i < unat (fst r) + length (snd r)"

lemma file_write_at_outside:
  assumes "file_write_at io f data off = (r, io', f')" and "i < unat off \<or> unat off + length data \<le> i"
  shows "byte_at (f_content f') i = byte_at (f_content f) i \<and> f_durable f' = f_durable f"
  using assms
  by (auto simp: file_write_at_def Let_def byte_at_pwrite split: list.splits sys.splits)

lemma sync_write_request_outside:
  assumes "sync_write_request io f off buf d = (r, io', f')" and "unat off + length buf \<le> 18446744073709551616"
    and "\<not> in_request i (off, buf)"
  shows "byte_at (f_content f') i = byte_at (f_content f) i \<and> f_durable f' = f_durable f"
  using assms
proof (induction io f off buf d rule: sync_write_request.induct)
  case (1 io f off buf d)
  show ?case
  proof (cases "d < length buf")
    case False
    with "1.prems" show ?thesis by (simp add: sync_write_request.simps [of io f off buf d])
  next
    case True
    obtain q io1 f1 where wr: "file_write_at io f (drop d buf) (off + of_nat d) = (q, io1, f1)" by (metis prod_cases3)
    have "i < unat (off + of_nat d) \<or> unat (off + of_nat d) + length (drop d buf) \<le> i"
      using unat_off_done [OF "1.prems"(2) True] "1.prems"(3) True by (auto simp: in_request_def)
    note step = file_write_at_outside [OF wr this]
    show ?thesis
    proof (cases "\<exists>n. q = Inr n \<and> n \<noteq> 0")
      case False
      with wr step "1.prems"(1) True show ?thesis
        by (cases q) (auto simp: sync_write_request.simps [of io f off buf d])
    next
      case ok: True
      then obtain n where n: "q = Inr n" "n \<noteq> 0" by blast
      with wr "1.prems"(1) True have "sync_write_request (count_write io1 n) f1 off buf (d + n) = (r, io', f')"
        by (simp add: sync_write_request.simps [of io f off buf d])
      from "1.IH" [OF True wr [unfolded n(1), symmetric] refl refl n(2) this "1.prems"(2,3)] step show ?thesis by simp
    qed
  qed
qed

lemma sync_write_vec_outside:
  "sync_write_vec io f rs = (r, io', f') \<Longrightarrow> reqs_ok rs \<Longrightarrow> \<forall>q \<in> set rs. \<not> in_request i q \<Longrightarrow>
     byte_at (f_content f') i = byte_at (f_content f) i \<and> f_durable f' = f_durable f"
proof (induction io f rs rule: sync_write_vec.induct)
  case (2 io f off buf rs)
  obtain q io1 f1 where one: "sync_write_request io f off buf 0 = (q, io1, f1)" by (metis prod_cases3)
  have first: "byte_at (f_content f1) i = byte_at (f_content f) i \<and> f_durable f1 = f_durable f"
    using sync_write_request_outside [OF one, of i] "2.prems"(2,3) by simp
  show ?case
  proof (cases q)
    case (Inl e)
    with one first "2.prems"(1) show ?thesis by simp
  next
    case (Inr u)
    with one first "2.prems" "2.IH" [OF one [unfolded Inr, symmetric] refl refl] show ?thesis by simp
  qed
qed simp

section \<open>Properties\<close>

text \<open>
  On a system that does not fail, a vector of reads returns, however the system splits the
  transfers, each request's bytes as the file holds them and zeros past its end.
\<close>

theorem sync_read_complete:
  assumes "healthy io" and "reqs_ok requests"
  shows "\<exists>io'. sync_read_vec io f requests = (Inr (reads_of (f_content f) requests), io') \<and> healthy io'"
  using sync_read_vec_healthy [OF assms(1)] sync_read_vec_Inr assms(2) by metis

theorem sync_read_complete_witness:
  "\<exists>io'. sync_read_vec \<lparr>sio_counters = IoCounters_default, sio_script = [Sys_ok 2, Sys_ok 1]\<rparr>
     \<lparr>f_content = [1, 2, 3, 4, 5], f_durable = [], f_limit = 100\<rparr> [(1, [9, 9, 9, 9, 9, 9])] = (Inr [[2, 3, 4, 5, 0, 0]], io')"
  using sync_read_complete [of "\<lparr>sio_counters = IoCounters_default, sio_script = [Sys_ok 2, Sys_ok 1]\<rparr>" "[(1, [9, 9, 9, 9, 9, 9])]"
      "\<lparr>f_content = [1, 2, 3, 4, 5], f_durable = [], f_limit = 100\<rparr>"]
  by (auto simp: healthy_def reads_of_def read_zeros_def byte_at_def upt_rec)

text \<open>
  On a system that does not fail, a vector of writes puts every byte of every request into the
  file in order, however the system splits the transfers, and makes none of them durable.
\<close>

theorem sync_write_complete:
  assumes "healthy io" and "reqs_ok requests"
  shows "\<exists>io'. sync_write_vec io f requests = (Inr (), io', f\<lparr>f_content := writes_to (f_content f) requests\<rparr>) \<and> healthy io'"
  using sync_write_vec_healthy [OF assms(1)] sync_write_vec_Inr assms(2) by metis

theorem sync_write_complete_witness:
  "\<exists>io'. sync_write_vec \<lparr>sio_counters = IoCounters_default, sio_script = [Sys_ok 1]\<rparr>
     \<lparr>f_content = [1], f_durable = [], f_limit = 100\<rparr> [(2, [8, 9])] =
     (Inr (), io', \<lparr>f_content = [1, 0, 8, 9], f_durable = [], f_limit = 100\<rparr>)"
  using sync_write_complete [of "\<lparr>sio_counters = IoCounters_default, sio_script = [Sys_ok 1]\<rparr>" "[(2, [8, 9])]"
      "\<lparr>f_content = [1], f_durable = [], f_limit = 100\<rparr>"]
  by (auto simp: healthy_def writes_to_def pwrite_def)

text \<open>
  Whatever the system does, errors and short transfers included, a vector of writes changes no
  byte outside its requests and nothing that is durable.
\<close>

theorem sync_write_confined:
  assumes "reqs_ok requests" and "\<forall>q \<in> set requests. \<not> in_request i q"
    and "sync_write_vec io f requests = (r, io', f')"
  shows "byte_at (f_content f') i = byte_at (f_content f) i \<and> f_durable f' = f_durable f"
  using sync_write_vec_outside [OF assms(3,1,2)] .

theorem sync_write_confined_witness:
  "byte_at (f_content (snd (snd (sync_write_vec \<lparr>sio_counters = IoCounters_default, sio_script = [Sys_ok 1, Sys_err 5]\<rparr>
     \<lparr>f_content = [1, 2, 3, 4], f_durable = [], f_limit = 100\<rparr> [(1, [8, 9])])))) 3 = 4"
proof -
  let ?io = "\<lparr>sio_counters = IoCounters_default, sio_script = [Sys_ok 1, Sys_err 5]\<rparr>"
  let ?f = "\<lparr>f_content = [1, 2, 3, 4], f_durable = [], f_limit = 100\<rparr>"
  obtain r io' f' where w: "sync_write_vec ?io ?f [(1, [8, 9])] = (r, io', f')" by (metis prod_cases3)
  have "byte_at (f_content f') 3 = byte_at (f_content ?f) 3 \<and> f_durable f' = f_durable ?f"
    by (rule sync_write_confined [OF _ _ w]) (simp_all add: in_request_def)
  with w show ?thesis by (simp add: byte_at_def)
qed

text \<open>
  The operations of an aligned buffer are those of a byte vector: appending, resizing with zeros,
  clearing. A cleared and resized buffer shows zeros only, never bytes of an earlier use.
\<close>

theorem aligned_buf_is_vector:
  assumes "ab_ok b"
  shows "AlignedBuf_deref (AlignedBuf_extend_from_slice b bs) = AlignedBuf_deref b @ bs \<and>
    AlignedBuf_deref (AlignedBuf_resize_zeroed b n) = take n (AlignedBuf_deref b) @ replicate (n - length (AlignedBuf_deref b)) 0 \<and>
    AlignedBuf_deref (AlignedBuf_resize_zeroed (AlignedBuf_clear b) n) = replicate n 0 \<and>
    ab_ok (AlignedBuf_extend_from_slice b bs) \<and> ab_ok (AlignedBuf_resize_zeroed b n) \<and> ab_ok (AlignedBuf_clear b)"
  using assms by (simp add: deref_resize) (simp add: AlignedBuf_clear_def)

theorem aligned_buf_is_vector_witness:
  "AlignedBuf_deref (AlignedBuf_resize_zeroed (AlignedBuf_clear \<lparr>ab_mem = [7, 8, 9], ab_len = 2\<rparr>) 3) = [0, 0, 0]"
  using aligned_buf_is_vector [of "\<lparr>ab_mem = [7, 8, 9], ab_len = 2\<rparr>" "[]" 3] by (simp add: ab_ok_def eval_nat_numeral)

end
