(* ===== verification/Uring_Io.thy ===== *)
theory Uring_Io
  imports Block_Io
begin

text \<open>
  The asynchronous implementation of the trait, \<open>src/src/io/uring.rs\<close>: requests are split into segments,
  as many of them as the depth allows are in flight at once, and they complete in any order and in parts.
  The ring belongs to the crate \<open>io_uring\<close> and the kernel, which are not part of the sources: what
  entering the kernel does is a parameter, and what the code relies on is the locale \<open>uring_kernel\<close>.
\<close>

section \<open>The ring\<close>

text \<open>
  A submission names a buffer and a place in it where the program has a pointer. The index of a
  segment, passed as \<open>user_data\<close>, is a \<open>usize\<close> of 64 bits and comes back unchanged.
\<close>

record Sqe =
  sqe_read :: bool
  sqe_buf :: nat
  sqe_at :: nat
  sqe_len :: u32
  sqe_off :: u64
  sqe_user :: nat

text \<open>
  The queue of submissions with its size, the operations that are in flight, the queue of completions, and
  the state of the kernel, of any type.
\<close>

record 'k Ring =
  ring_entries :: nat
  ring_sq :: "Sqe list"
  ring_flight :: "Sqe list"
  ring_cq :: "(nat \<times> int) list"
  ring_kernel :: 'k

text \<open>
  Entering the kernel, the call behind \<open>submit_and_wait\<close>: given the operations in flight and those just
  submitted, the file and the buffers, it fails with an error number, or it returns the completions,
  each the \<open>user_data\<close> and the result, and the operations that remain in flight.
\<close>

type_synonym 'k enter = "'k \<Rightarrow> Sqe list \<Rightarrow> File \<Rightarrow> bytes list \<Rightarrow>
  (int + (nat \<times> int) list \<times> Sqe list) \<times> 'k \<times> File \<times> bytes list"

definition ring_push :: "'k Ring \<Rightarrow> Sqe \<Rightarrow> unit res \<times> 'k Ring" where
  "ring_push r e =
     (if length (ring_sq r) < ring_entries r then (Inr (), r\<lparr>ring_sq := ring_sq r @ [e]\<rparr>) else (Inl (Panic ''sq full''), r))"

definition ring_submit_and_wait :: "'k enter \<Rightarrow> 'k Ring \<Rightarrow> File \<Rightarrow> bytes list \<Rightarrow> int option \<times> 'k Ring \<times> File \<times> bytes list" where
  "ring_submit_and_wait enter r f mem =
     (case enter (ring_kernel r) (ring_flight r @ ring_sq r) f mem of
        (Inl e, k, f, mem) \<Rightarrow> (Some e, r\<lparr>ring_kernel := k\<rparr>, f, mem)
      | (Inr (cs, es), k, f, mem) \<Rightarrow>
          (None, r\<lparr>ring_sq := [], ring_flight := es, ring_cq := ring_cq r @ cs, ring_kernel := k\<rparr>, f, mem))"

section \<open>The device\<close>

definition DEFAULT_DEPTH :: u32 where
  "DEFAULT_DEPTH = 32"

definition DEFAULT_CHUNK :: nat where
  "DEFAULT_CHUNK = 512 * 1024"

record IoSegment =
  seg_offset :: u64
  seg_buf :: nat
  seg_at :: nat
  seg_len :: nat

text \<open>
  The fields of \<open>UringIo\<close> that never change after \<open>new\<close> are a configuration; between two calls of \<open>run\<close> the
  queues of the ring are empty, so its state is that of the kernel.
\<close>

record UringConf =
  uc_entries :: nat
  uc_depth :: nat
  uc_chunk :: nat

record 'k UringIo =
  ur_kernel :: 'k
  ur_sync_script :: "sys list"
  ur_counters :: IoCounters

text \<open>The power of two that is not less, for numbers that have one among 32-bit integers; else 0.\<close>

definition next_power_of_two :: "u32 \<Rightarrow> u32" where
  "next_power_of_two n = (case find (\<lambda>k. unat n \<le> 2 ^ k) [0..<32] of Some k \<Rightarrow> 2 ^ k | None \<Rightarrow> 0)"

text \<open>\<open>created\<close> is the outcome of \<open>IoUring::new\<close>: an error number, or none.\<close>

definition UringIo_new :: "(nat \<Rightarrow> int option) \<Rightarrow> u32 \<Rightarrow> nat \<Rightarrow> UringConf res" where
  "UringIo_new created depth chunk =
     (if chunk = 0 then Inl (Err (InvalidArg ''io chunk must be greater than zero''))
      else
        let depth = max depth 1;
            entries = unat (next_power_of_two depth)
        in case created entries of
             Some e \<Rightarrow> Inl (Err (Io (OsError e)))
           | None \<Rightarrow> Inr \<lparr>uc_entries = entries, uc_depth = unat depth, uc_chunk = chunk\<rparr>)"

text \<open>\<open>split\<close>, for a chunk that is not 0: else it would not return, the value \<open>None\<close>.\<close>

partial_function (option) UringIo_split :: "nat \<Rightarrow> u64 \<Rightarrow> nat \<Rightarrow> nat \<Rightarrow> nat \<Rightarrow> IoSegment list \<Rightarrow> IoSegment list option" where
  "UringIo_split chunk offset buf len done segments =
     (if done < len then
        UringIo_split chunk offset buf len (done + min (len - done) chunk)
          (segments @ [\<lparr>seg_offset = offset + of_nat done, seg_buf = buf, seg_at = done, seg_len = min (len - done) chunk\<rparr>])
      else Some segments)"

fun split_requests :: "nat \<Rightarrow> nat \<Rightarrow> io_req list \<Rightarrow> IoSegment list \<Rightarrow> IoSegment list option" where
  "split_requests chunk i [] segments = Some segments"
| "split_requests chunk i ((off, buf) # requests) segments =
     (case UringIo_split chunk off i (length buf) 0 segments of
        None \<Rightarrow> None
      | Some segments \<Rightarrow> split_requests chunk (Suc i) requests segments)"

section \<open>The loop over submissions and completions\<close>

record 'k Run =
  rn_ring :: "'k Ring"
  rn_counters :: IoCounters
  rn_file :: File
  rn_mem :: "bytes list"
  rn_segments :: "IoSegment list"
  rn_next :: nat
  rn_pending :: nat
  rn_error :: "HeapError option"

definition segment_entry :: "bool \<Rightarrow> IoSegment \<Rightarrow> nat \<Rightarrow> Sqe" where
  "segment_entry is_read segment user =
     \<lparr>sqe_read = is_read, sqe_buf = seg_buf segment, sqe_at = seg_at segment, sqe_len = of_nat (seg_len segment),
      sqe_off = seg_offset segment, sqe_user = user\<rparr>"

definition run_push :: "bool \<Rightarrow> nat \<Rightarrow> 'k Run \<Rightarrow> unit res \<times> 'k Run" where
  "run_push is_read user st =
     (case ring_push (rn_ring st) (segment_entry is_read (rn_segments st ! user) user) of
        (r, ring) \<Rightarrow> (r, st\<lparr>rn_ring := ring\<rparr>))"

text \<open>The inner \<open>while\<close>: keep the queue full while requests remain.\<close>

function run_fill :: "nat \<Rightarrow> bool \<Rightarrow> 'k Run \<Rightarrow> unit res \<times> 'k Run" where
  "run_fill depth is_read st =
     (if rn_pending st < depth \<and> rn_next st < length (rn_segments st) \<and> rn_error st = None then
        and_then (run_push is_read (rn_next st) st) (\<lambda>_ st1.
          run_fill depth is_read (st\<lparr>rn_ring := rn_ring st1, rn_next := rn_next st + 1, rn_pending := rn_pending st + 1\<rparr>))
      else (Inr (), st))"
  by pat_completeness auto
termination
  by (relation "measure (\<lambda>(depth, is_read, st). length (rn_segments st) - rn_next st)") auto

text \<open>
  The inner \<open>loop\<close>: an interrupted call is repeated; on any other error the process aborts. A kernel that
  interrupts every call would keep it from returning, the value \<open>None\<close>.
\<close>

definition EINTR :: int where
  "EINTR = 4"

partial_function (option) run_wait :: "'k enter \<Rightarrow> 'k Run \<Rightarrow> (unit res \<times> 'k Run) option" where
  "run_wait enter st =
     (case ring_submit_and_wait enter (rn_ring st) (rn_file st) (rn_mem st) of
        (None, ring, f, mem) \<Rightarrow> Some (Inr (), st\<lparr>rn_ring := ring, rn_file := f, rn_mem := mem\<rparr>)
      | (Some e, ring, f, mem) \<Rightarrow>
          (if e = EINTR then run_wait enter (st\<lparr>rn_ring := ring, rn_file := f, rn_mem := mem\<rparr>)
           else Some (Inl (Panic ''abort''), st\<lparr>rn_ring := ring, rn_file := f, rn_mem := mem\<rparr>)))"

declare run_fill.simps [simp del]

definition run_count :: "bool \<Rightarrow> nat \<Rightarrow> 'k Run \<Rightarrow> 'k Run" where
  "run_count is_read n st =
     (let c = rn_counters st in
      st\<lparr>rn_counters := if is_read then c\<lparr>ic_reads := ic_reads c + 1, ic_read_bytes := ic_read_bytes c + of_nat n\<rparr>
                        else c\<lparr>ic_writes := ic_writes c + 1, ic_write_bytes := ic_write_bytes c + of_nat n\<rparr>\<rparr>)"

text \<open>One completion: a short one continues from the remaining range.\<close>

definition run_completion :: "bool \<Rightarrow> nat \<Rightarrow> int \<Rightarrow> 'k Run \<Rightarrow> unit res \<times> 'k Run" where
  "run_completion is_read user result st =
     (let st = st\<lparr>rn_pending := rn_pending st - 1\<rparr>;
          segment = rn_segments st ! user
      in if result < 0 then
           (Inr (), if rn_error st = None then st\<lparr>rn_error := Some (Io (OsError (- result)))\<rparr> else st)
         else
           let completed = nat result;
               st = run_count is_read completed st
           in if completed = seg_len segment \<or> rn_error st \<noteq> None then (Inr (), st)
              else if is_read \<and> completed = 0 then
                (Inr (), st\<lparr>rn_mem := (rn_mem st)[seg_buf segment :=
                   put_slice (seg_at segment) (replicate (seg_len segment) 0) (rn_mem st ! seg_buf segment)]\<rparr>)
              else if \<not> is_read \<and> completed = 0 then (Inr (), st\<lparr>rn_error := Some (Io WriteZero)\<rparr>)
              else
                let segment = segment\<lparr>seg_offset := seg_offset segment + of_nat completed, seg_at := seg_at segment + completed,
                       seg_len := seg_len segment - completed\<rparr>;
                    st = st\<lparr>rn_segments := (rn_segments st)[user := segment]\<rparr>
                in and_then (run_push is_read user st) (\<lambda>_ st. (Inr (), st\<lparr>rn_pending := rn_pending st + 1\<rparr>)))"

fun run_completions :: "bool \<Rightarrow> (nat \<times> int) list \<Rightarrow> 'k Run \<Rightarrow> unit res \<times> 'k Run" where
  "run_completions is_read [] st = (Inr (), st)"
| "run_completions is_read ((user, result) # completions) st =
     and_then (run_completion is_read user result st) (\<lambda>_. run_completions is_read completions)"

definition run_result :: "'k Run \<Rightarrow> unit res \<times> 'k Run" where
  "run_result st = (case rn_error st of Some e \<Rightarrow> (Inl (Err e), st) | None \<Rightarrow> (Inr (), st))"

partial_function (option) run_loop :: "'k enter \<Rightarrow> nat \<Rightarrow> bool \<Rightarrow> 'k Run \<Rightarrow> (unit res \<times> 'k Run) option" where
  "run_loop enter depth is_read st =
     (if rn_next st < length (rn_segments st) \<or> 0 < rn_pending st then
        (case run_fill depth is_read st of
           (Inl e, st) \<Rightarrow> Some (Inl e, st)
         | (Inr _, st) \<Rightarrow>
             if rn_pending st = 0 then Some (run_result st)
             else
               (case run_wait enter st of
                  None \<Rightarrow> None
                | Some (Inl e, st) \<Rightarrow> Some (Inl e, st)
                | Some (Inr _, st) \<Rightarrow>
                    (case run_completions is_read (ring_cq (rn_ring st)) (st\<lparr>rn_ring := (rn_ring st)\<lparr>ring_cq := []\<rparr>\<rparr>) of
                       (Inl e, st) \<Rightarrow> Some (Inl e, st)
                     | (Inr _, st) \<Rightarrow> run_loop enter depth is_read st)))
      else Some (run_result st))"

definition run_start :: "UringConf \<Rightarrow> 'k UringIo \<Rightarrow> File \<Rightarrow> bytes list \<Rightarrow> IoSegment list \<Rightarrow> 'k Run" where
  "run_start c io f mem segments =
     \<lparr>rn_ring = \<lparr>ring_entries = uc_entries c, ring_sq = [], ring_flight = [], ring_cq = [], ring_kernel = ur_kernel io\<rparr>,
      rn_counters = ur_counters io, rn_file = f, rn_mem = mem, rn_segments = segments, rn_next = 0, rn_pending = 0, rn_error = None\<rparr>"

definition UringIo_run :: "'k enter \<Rightarrow> UringConf \<Rightarrow> 'k UringIo \<Rightarrow> File \<Rightarrow> bytes list \<Rightarrow> IoSegment list \<Rightarrow> bool \<Rightarrow>
    (unit res \<times> 'k Run) option" where
  "UringIo_run enter c io f mem segments is_read = run_loop enter (uc_depth c) is_read (run_start c io f mem segments)"

text \<open>The operations of the trait. A call that never returned would be a panic here; none does.\<close>

definition uring_vec :: "'k enter \<Rightarrow> UringConf \<Rightarrow> bool \<Rightarrow> 'k UringIo \<Rightarrow> File \<Rightarrow> io_req list \<Rightarrow> unit res \<times> 'k Run" where
  "uring_vec enter c is_read io f requests =
     (let stuck = (Inl (Panic ''does not return''), run_start c io f (map snd requests) []) in
      case split_requests (uc_chunk c) 0 requests [] of
        None \<Rightarrow> stuck
      | Some segments \<Rightarrow>
          (case UringIo_run enter c io f (map snd requests) segments is_read of None \<Rightarrow> stuck | Some result \<Rightarrow> result))"

definition run_io :: "'k UringIo \<Rightarrow> 'k Run \<Rightarrow> 'k UringIo" where
  "run_io io st = io\<lparr>ur_kernel := ring_kernel (rn_ring st), ur_counters := rn_counters st\<rparr>"

definition uring_read_vec :: "'k enter \<Rightarrow> UringConf \<Rightarrow> 'k UringIo \<Rightarrow> File \<Rightarrow> io_req list \<Rightarrow> bytes list res \<times> 'k UringIo" where
  "uring_read_vec enter c io f requests =
     (case uring_vec enter c True io f requests of
        (Inl e, st) \<Rightarrow> (Inl e, run_io io st)
      | (Inr _, st) \<Rightarrow> (Inr (rn_mem st), run_io io st))"

definition uring_write_vec :: "'k enter \<Rightarrow> UringConf \<Rightarrow> 'k UringIo \<Rightarrow> File \<Rightarrow> io_req list \<Rightarrow> unit res \<times> 'k UringIo \<times> File" where
  "uring_write_vec enter c io f requests =
     (case uring_vec enter c False io f requests of (r, st) \<Rightarrow> (r, run_io io st, rn_file st))"

definition uring_sync :: "'k UringIo \<Rightarrow> File \<Rightarrow> unit res \<times> 'k UringIo \<times> File" where
  "uring_sync io f =
     (case fdatasync_counted (ur_sync_script io) f (ur_counters io) of
        (r, script, f, c) \<Rightarrow> (r, io\<lparr>ur_sync_script := script, ur_counters := c\<rparr>, f))"

definition uring_reset_counters :: "'k UringIo \<Rightarrow> 'k UringIo" where
  "uring_reset_counters io = io\<lparr>ur_counters := IoCounters_default\<rparr>"

definition uring_block_io :: "'k enter \<Rightarrow> UringConf \<Rightarrow> 'k UringIo BlockIo" where
  "uring_block_io enter c =
     \<lparr>read_vec = uring_read_vec enter c, write_vec = uring_write_vec enter c, sync = uring_sync,
      counters = ur_counters, reset_counters = uring_reset_counters\<rparr>"

end
