(* ===== verification/Uring_Kernel.thy ===== *)
theory Uring_Kernel
  imports Uring_Io "HOL-Library.Multiset"
begin

text \<open>
  What \<open>src/src/io/uring.rs\<close> relies on in the kernel, as its documentation has it: the locale
  \<open>uring_kernel\<close>. A kernel that follows a script of choices, any choices, keeps it.
\<close>

section \<open>Operations that complete\<close>

text \<open>
  An operation fails and has moved nothing, or it has moved as many bytes as its result says, no more than
  it was asked for and not past the end of the file for a read. A read of something that moves nothing
  is at or past the end of the file.
\<close>

definition sqe_done :: "Sqe \<Rightarrow> int \<Rightarrow> File \<Rightarrow> bytes list \<Rightarrow> File \<Rightarrow> bytes list \<Rightarrow> bool" where
  "sqe_done e r f mem f' mem' \<longleftrightarrow>
     (if r < 0 then f' = f \<and> mem' = mem
      else nat r \<le> unat (sqe_len e) \<and>
        (if sqe_read e then f' = f \<and> nat r \<le> length (f_content f) - unat (sqe_off e) \<and>
             mem' = mem[sqe_buf e := put_slice (sqe_at e) (slice_of (unat (sqe_off e)) (nat r) (f_content f)) (mem ! sqe_buf e)] \<and>
             (r = 0 \<and> 0 < unat (sqe_len e) \<longrightarrow> length (f_content f) \<le> unat (sqe_off e))
         else mem' = mem \<and>
             f' = f\<lparr>f_content := pwrite (f_content f) (unat (sqe_off e)) (slice_of (sqe_at e) (nat r) (mem ! sqe_buf e))\<rparr>))"

text \<open>Some of the operations in flight complete, each once, in any order.\<close>

abbreviation without :: "'a list \<Rightarrow> nat \<Rightarrow> 'a list" where
  "without xs n \<equiv> take n xs @ drop (Suc n) xs"

inductive completes :: "Sqe list \<Rightarrow> File \<Rightarrow> bytes list \<Rightarrow> (nat \<times> int) list \<Rightarrow> Sqe list \<Rightarrow> File \<Rightarrow> bytes list \<Rightarrow> bool" for es f mem where
  completes_none: "completes es f mem [] es f mem"
| completes_more: "completes es f mem cs es1 f1 mem1 \<Longrightarrow> n < length es1 \<Longrightarrow> sqe_done (es1 ! n) r f1 mem1 f2 mem2 \<Longrightarrow>
    completes es f mem (cs @ [(sqe_user (es1 ! n), r)]) (without es1 n) f2 mem2"

definition sqe_inside :: "bytes list \<Rightarrow> Sqe \<Rightarrow> bool" where
  "sqe_inside mem e \<longleftrightarrow> sqe_buf e < length mem \<and> 0 < unat (sqe_len e) \<and> sqe_at e + unat (sqe_len e) \<le> length (mem ! sqe_buf e)"

text \<open>
  A call that fails has done nothing; the kernel does not interrupt for ever; a call that returns has
  completed something if there was anything to complete. A calm kernel interrupts but does not fail, and
  moves at least a byte of every write.
\<close>

locale uring_kernel =
  fixes enter :: "'k enter" and patience :: "'k \<Rightarrow> nat" and calm :: "'k \<Rightarrow> bool"
  assumes enter_fails: "enter k es f mem = (Inl e, k', f', mem') \<Longrightarrow> f' = f \<and> mem' = mem \<and> (e = EINTR \<longrightarrow> patience k' < patience k)"
    and enter_returns: "enter k es f mem = (Inr (cs, es'), k', f', mem') \<Longrightarrow> completes es f mem cs es' f' mem' \<and> (es \<noteq> [] \<longrightarrow> cs \<noteq> [])"
    and calm_fails: "calm k \<Longrightarrow> enter k es f mem = (Inl e, k', f', mem') \<Longrightarrow> e = EINTR \<and> calm k'"
    and calm_returns: "calm k \<Longrightarrow> enter k es f mem = (Inr (cs, es'), k', f', mem') \<Longrightarrow> calm k' \<and> (\<forall>(u, r) \<in> set cs. 0 \<le> r) \<and>
      ((\<forall>e \<in> set es. \<not> sqe_read e \<and> sqe_inside mem e) \<longrightarrow> (\<forall>(u, r) \<in> set cs. 0 < r))"

lemma mset_remove_nth: "n < length xs \<Longrightarrow> add_mset (xs ! n) (mset (without xs n)) = mset xs"
  by (metis Cons_nth_drop_Suc append_take_drop_id mset_append mset.simps(2) union_mset_add_mset_right)

lemma set_without: "set (without xs n) \<subseteq> set xs"
  using set_take_subset set_drop_subset by fastforce

lemma completes_users:
  "completes es f mem cs es' f' mem' \<Longrightarrow> mset (map fst cs @ map sqe_user es') = mset (map sqe_user es) \<and> set es' \<subseteq> set es \<and>
     (\<forall>(u, r) \<in> set cs. \<exists>e \<in> set es. u = sqe_user e \<and> nat r \<le> unat (sqe_len e))"
proof (induction rule: completes.induct)
  case (completes_more cs es1 f1 mem1 n r f2 mem2)
  have "add_mset (sqe_user (es1 ! n)) (image_mset sqe_user (mset (without es1 n))) = image_mset sqe_user (mset es1)"
    using mset_remove_nth [OF completes_more.hyps(2)] by (metis image_mset_add_mset)
  moreover have "nat r \<le> unat (sqe_len (es1 ! n))" using completes_more.hyps(3) by (auto simp: sqe_done_def split: if_splits)
  moreover have "es1 ! n \<in> set es1" using completes_more.hyps(2) by simp
  ultimately show ?case using completes_more.IH set_without [of n es1] by fastforce
qed simp

lemma completes_single:
  "completes [e] f mem cs es f' mem' \<Longrightarrow> (cs = [] \<and> es = [e] \<and> f' = f \<and> mem' = mem) \<or>
     (\<exists>r. cs = [(sqe_user e, r)] \<and> es = [] \<and> sqe_done e r f mem f' mem')"
  by (induction rule: completes.induct) auto

section \<open>A kernel with a script\<close>

text \<open>
  Each call takes an entry of the script: an error, or which operations complete (an index into those in
  flight, taken modulo their number) and how: after some number of bytes, or with an error. When the
  script has run out, or completes nothing, the oldest operation completes as far as it can. No operation
  moves more than \<open>max_rw_count\<close> bytes, so that a result fits an \<open>i32\<close>.
\<close>

datatype submission = Submit_err int | Submit_ok "(nat \<times> sys) list"

definition max_rw_count :: nat where
  "max_rw_count = 2147479552"

definition sqe_transfer :: "Sqe \<Rightarrow> sys \<Rightarrow> File \<Rightarrow> bytes list \<Rightarrow> int \<times> File \<times> bytes list" where
  "sqe_transfer e s f mem =
     (let want = min (unat (sqe_len e)) max_rw_count in
      case s of
        Sys_err n \<Rightarrow> (- max 1 n, f, mem)
      | Sys_ok k \<Rightarrow>
          if sqe_read e then
            let got = take (max 1 k) (take want (drop (unat (sqe_off e)) (f_content f)))
            in (int (length got), f, mem[sqe_buf e := put_slice (sqe_at e) got (mem ! sqe_buf e)])
          else
            let data = take k (take want (drop (sqe_at e) (mem ! sqe_buf e)))
            in (int (length data), f\<lparr>f_content := pwrite (f_content f) (unat (sqe_off e)) data\<rparr>, mem))"

fun script_complete :: "(nat \<times> sys) list \<Rightarrow> Sqe list \<Rightarrow> File \<Rightarrow> bytes list \<Rightarrow> ((nat \<times> int) list \<times> Sqe list) \<times> File \<times> bytes list" where
  "script_complete [] es f mem = (([], es), f, mem)"
| "script_complete ((i, s) # choices) es f mem =
     (if es = [] then (([], es), f, mem)
      else
        let n = i mod length es;
            (r, f, mem) = sqe_transfer (es ! n) s f mem;
            ((cs, es'), f, mem) = script_complete choices (without es n) f mem
        in (((sqe_user (es ! n), r) # cs, es'), f, mem))"

definition script_oldest :: "(nat \<times> sys) list" where
  "script_oldest = [(0, Sys_ok 4294967296)]"

definition script_enter :: "submission list enter" where
  "script_enter ss es f mem =
     (case ss of
        Submit_err e # ss \<Rightarrow> (Inl e, ss, f, mem)
      | Submit_ok (c # cs) # ss \<Rightarrow> (case script_complete (c # cs) es f mem of (r, f, mem) \<Rightarrow> (Inr r, ss, f, mem))
      | _ \<Rightarrow> (case script_complete script_oldest es f mem of (r, f, mem) \<Rightarrow> (Inr r, tl ss, f, mem)))"

definition choices_fine :: "(nat \<times> sys) list \<Rightarrow> bool" where
  "choices_fine cs \<longleftrightarrow> (\<forall>(i, s) \<in> set cs. \<exists>k > 0. s = Sys_ok k)"

definition script_fine :: "submission list \<Rightarrow> bool" where
  "script_fine ss \<longleftrightarrow> (\<forall>x \<in> set ss. case x of Submit_err e \<Rightarrow> e = EINTR | Submit_ok cs \<Rightarrow> choices_fine cs)"

lemma script_fine_simps [simp]: "script_fine []" "script_fine (Submit_err e # ss) \<longleftrightarrow> e = EINTR \<and> script_fine ss"
  "script_fine (Submit_ok cs # ss) \<longleftrightarrow> choices_fine cs \<and> script_fine ss"
  by (simp_all add: script_fine_def)

lemma completes_first:
  assumes "completes (without es n) f1 mem1 cs es' f' mem'" and "n < length es" and "sqe_done (es ! n) r f mem f1 mem1"
  shows "completes es f mem ((sqe_user (es ! n), r) # cs) es' f' mem'"
  using assms(1)
proof (induction rule: completes.induct)
  case completes_none
  show ?case using completes.completes_more [OF completes.completes_none assms(2,3)] by simp
next
  case (completes_more cs es1 f2 mem2 m q f3 mem3)
  show ?case using completes.completes_more [OF completes_more.IH completes_more.hyps(2,3)] by simp
qed

lemma sqe_transfer_done:
  assumes "sqe_transfer e s f mem = (r, f', mem')"
  shows "sqe_done e r f mem f' mem'"
proof (cases s)
  case (Sys_err n)
  with assms show ?thesis by (auto simp: sqe_transfer_def sqe_done_def Let_def)
next
  case (Sys_ok k)
  let ?want = "min (unat (sqe_len e)) max_rw_count"
  show ?thesis
  proof (cases "sqe_read e")
    case True
    define got where "got = take (max 1 k) (take ?want (drop (unat (sqe_off e)) (f_content f)))"
    have "sqe_transfer e s f mem = (int (length got), f, mem[sqe_buf e := put_slice (sqe_at e) got (mem ! sqe_buf e)])"
      using True Sys_ok by (simp add: sqe_transfer_def got_def Let_def)
    then have r: "int (length got) = r" "f = f'" "mem[sqe_buf e := put_slice (sqe_at e) got (mem ! sqe_buf e)] = mem'"
      unfolding assms prod.inject by blast+
    have got: "got = slice_of (unat (sqe_off e)) (length got) (f_content f)" by (simp add: got_def min_def)
    have "length got \<le> unat (sqe_len e)" "length got \<le> length (f_content f) - unat (sqe_off e)" by (auto simp: got_def)
    note got = got this
    have "length (f_content f) \<le> unat (sqe_off e)" if "got = []" "0 < unat (sqe_len e)"
      using that by (auto simp: got_def max_rw_count_def max_def split: if_splits)
    with got r(1) True show ?thesis unfolding sqe_done_def r(2,3) [symmetric] by auto
  next
    case False
    define data where "data = take k (take ?want (drop (sqe_at e) (mem ! sqe_buf e)))"
    have "sqe_transfer e s f mem = (int (length data), f\<lparr>f_content := pwrite (f_content f) (unat (sqe_off e)) data\<rparr>, mem)"
      using False Sys_ok by (simp add: sqe_transfer_def data_def Let_def)
    then have r: "int (length data) = r" "f\<lparr>f_content := pwrite (f_content f) (unat (sqe_off e)) data\<rparr> = f'" "mem = mem'"
      unfolding assms prod.inject by blast+
    have "data = slice_of (sqe_at e) (length data) (mem ! sqe_buf e)" by (simp add: data_def min_def)
    moreover have "length data \<le> unat (sqe_len e)" by (simp add: data_def)
    ultimately show ?thesis using r(1) False unfolding sqe_done_def r(2,3) [symmetric] by auto
  qed
qed

lemma sqe_transfer_fine:
  assumes "sqe_transfer e (Sys_ok k) f mem = (r, f', mem')" and "0 < k"
  shows "0 \<le> r" "\<not> sqe_read e \<Longrightarrow> sqe_inside mem e \<Longrightarrow> 0 < r \<and> mem' = mem"
  using assms by (auto simp: sqe_transfer_def sqe_inside_def max_rw_count_def Let_def split: if_splits)

lemma script_complete_completes:
  "script_complete choices es f mem = ((cs, es'), f', mem') \<Longrightarrow> completes es f mem cs es' f' mem' \<and>
     (choices \<noteq> [] \<and> es \<noteq> [] \<longrightarrow> cs \<noteq> []) \<and>
     (choices_fine choices \<longrightarrow> (\<forall>(u, r) \<in> set cs. 0 \<le> r) \<and>
       ((\<forall>e \<in> set es. \<not> sqe_read e \<and> sqe_inside mem e) \<longrightarrow> (\<forall>(u, r) \<in> set cs. 0 < r)))"
proof (induction choices arbitrary: es f mem cs es' f' mem')
  case Nil
  then show ?case by (auto intro: completes_none)
next
  case (Cons c choices)
  obtain i s where c: "c = (i, s)" by (cases c)
  show ?case
  proof (cases "es = []")
    case True
    with Cons.prems c show ?thesis by (auto intro: completes_none)
  next
    case False
    let ?n = "i mod length es"
    have n: "?n < length es" using False by simp
    obtain r f1 mem1 where t: "sqe_transfer (es ! ?n) s f mem = (r, f1, mem1)" by (metis prod_cases3)
    obtain cs1 es1 f2 mem2 where rest: "script_complete choices (without es ?n) f1 mem1 = ((cs1, es1), f2, mem2)" by (metis surj_pair)
    have eq: "cs = (sqe_user (es ! ?n), r) # cs1" "es' = es1" "f' = f2" "mem' = mem2"
      using Cons.prems False t rest c by (simp_all add: Let_def)
    note IH = Cons.IH [OF rest]
    have "completes es f mem cs es' f' mem'"
      unfolding eq using IH by (intro completes_first [OF _ n sqe_transfer_done [OF t]]) simp
    moreover have "(\<forall>(u, r) \<in> set cs. 0 \<le> r) \<and> ((\<forall>e \<in> set es. \<not> sqe_read e \<and> sqe_inside mem e) \<longrightarrow> (\<forall>(u, r) \<in> set cs. 0 < r))"
      if fc: "choices_fine (c # choices)"
    proof -
      obtain k where "s = Sys_ok k" "0 < k" using fc c by (auto simp: choices_fine_def)
      note fine = sqe_transfer_fine [OF t [unfolded this(1)] this(2)]
      have "choices_fine choices" using that by (simp add: choices_fine_def)
      moreover have "\<forall>e \<in> set (without es ?n). e \<in> set es" using set_without [of ?n es] by blast
      moreover have "es ! ?n \<in> set es" using n by simp
      ultimately show ?thesis unfolding eq(1) using IH fine by auto
    qed
    ultimately show ?thesis using eq(1) by blast
  qed
qed

lemma choices_fine_oldest: "choices_fine script_oldest"
  by (simp add: choices_fine_def script_oldest_def)

lemma script_enter_cases:
  obtains (fails) e where "script_enter ss es f mem = (Inl e, tl ss, f, mem)" "ss = Submit_err e # tl ss"
    | (returns) choices cs es' f' mem' where "choices \<noteq> []" "script_complete choices es f mem = ((cs, es'), f', mem')"
      "script_enter ss es f mem = (Inr (cs, es'), tl ss, f', mem')" "script_fine ss \<longrightarrow> choices_fine choices"
proof (cases "\<exists>e rest. ss = Submit_err e # rest")
  case True
  then show thesis by (auto intro: fails simp: script_enter_def)
next
  case False
  define choices where "choices = (case ss of Submit_ok (c # cs) # _ \<Rightarrow> c # cs | _ \<Rightarrow> script_oldest)"
  obtain cs es' f' mem' where r: "script_complete choices es f mem = ((cs, es'), f', mem')" by (metis surj_pair)
  have "choices \<noteq> []" by (simp add: choices_def script_oldest_def split: list.splits submission.splits)
  moreover have "script_enter ss es f mem = (Inr (cs, es'), tl ss, f', mem')"
    using False r by (auto simp: script_enter_def choices_def split: list.splits submission.splits)
  moreover have "script_fine ss \<longrightarrow> choices_fine choices"
    using choices_fine_oldest by (auto simp: choices_def split: list.splits submission.splits)
  ultimately show thesis using r by (intro returns)
qed

lemma script_fails:
  assumes "script_enter ss es f mem = (Inl e, ss', f', mem')"
  shows "f' = f \<and> mem' = mem \<and> ss = Submit_err e # ss'"
  using assms by (cases rule: script_enter_cases [of ss es f mem]) auto

lemma script_returns:
  assumes "script_enter ss es f mem = (Inr (cs, es'), ss', f', mem')"
  shows "completes es f mem cs es' f' mem' \<and> (es \<noteq> [] \<longrightarrow> cs \<noteq> []) \<and> (script_fine ss \<longrightarrow> script_fine ss' \<and> (\<forall>(u, r) \<in> set cs. 0 \<le> r) \<and>
    ((\<forall>e \<in> set es. \<not> sqe_read e \<and> sqe_inside mem e) \<longrightarrow> (\<forall>(u, r) \<in> set cs. 0 < r)))"
proof (cases rule: script_enter_cases [of ss es f mem])
  case (fails e)
  with assms show ?thesis by simp
next
  case (returns choices cs1 es1 f1 mem1)
  have "script_fine ss \<Longrightarrow> script_fine (tl ss)" by (cases ss) (auto simp: script_fine_def)
  with returns assms script_complete_completes [OF returns(2)] show ?thesis by simp
qed

interpretation scripted: uring_kernel script_enter length script_fine
proof (unfold_locales, goal_cases)
  case 1
  then show ?case using script_fails by fastforce
next
  case 2
  then show ?case using script_returns by blast
next
  case 3
  then show ?case using script_fails by fastforce
next
  case 4
  then show ?case using script_returns by blast
qed

end
