(* ===== verification/Uring_Run.thy ===== *)
theory Uring_Run
  imports Uring_Kernel
begin

text \<open>
  The loop of \<open>src/src/io/uring.rs\<close>: the invariant of its bookkeeping, its termination, and what it has
  transferred when it returns.
\<close>

section \<open>The bookkeeping\<close>

definition seg_within :: "IoSegment \<Rightarrow> IoSegment \<Rightarrow> bool" where
  "seg_within s0 s \<longleftrightarrow> seg_buf s = seg_buf s0 \<and> seg_at s0 \<le> seg_at s \<and> seg_at s + seg_len s = seg_at s0 + seg_len s0 \<and>
     seg_offset s = seg_offset s0 + of_nat (seg_at s - seg_at s0) \<and> 0 < seg_len s"

lemma seg_within_len: "seg_within s0 s \<Longrightarrow> seg_len s \<le> seg_len s0"
  unfolding seg_within_def by linarith

text \<open>The segments that are under way: submitted, in flight, or completed but not looked at.\<close>

definition under_way :: "(nat \<times> int) list \<Rightarrow> 'k Ring \<Rightarrow> nat list" where
  "under_way cs r = map fst cs @ map sqe_user (ring_flight r) @ map sqe_user (ring_sq r)"

definition ring_ok :: "bool \<Rightarrow> IoSegment list \<Rightarrow> 'k Ring \<Rightarrow> bool" where
  "ring_ok is_read segs r \<longleftrightarrow> (\<forall>e \<in> set (ring_flight r @ ring_sq r). e = segment_entry is_read (segs ! sqe_user e) (sqe_user e))"

definition results_ok :: "IoSegment list \<Rightarrow> (nat \<times> int) list \<Rightarrow> bool" where
  "results_ok segs cs \<longleftrightarrow> (\<forall>(u, r) \<in> set cs. nat r \<le> seg_len (segs ! u))"

definition run_ok :: "bool \<Rightarrow> nat \<Rightarrow> IoSegment list \<Rightarrow> (nat \<times> int) list \<Rightarrow> 'k Run \<Rightarrow> bool" where
  "run_ok is_read depth S cs st \<longleftrightarrow> length (rn_segments st) = length S \<and> rn_next st \<le> length S \<and>
     (\<forall>j < length S. seg_within (S ! j) (rn_segments st ! j)) \<and>
     (\<forall>j. rn_next st \<le> j \<and> j < length S \<longrightarrow> rn_segments st ! j = S ! j) \<and>
     distinct (under_way cs (rn_ring st)) \<and> (\<forall>u \<in> set (under_way cs (rn_ring st)). u < rn_next st) \<and>
     rn_pending st = length (under_way cs (rn_ring st)) \<and> rn_pending st \<le> depth \<and> depth \<le> ring_entries (rn_ring st) \<and>
     ring_ok is_read (rn_segments st) (rn_ring st) \<and> results_ok (rn_segments st) cs \<and> ring_cq (rn_ring st) = []"

text \<open>What is left to do: it shrinks with every round.\<close>

definition seg_left :: "nat \<Rightarrow> nat set \<Rightarrow> IoSegment list \<Rightarrow> nat \<Rightarrow> nat" where
  "seg_left next us segs j = (if j < next \<and> j \<notin> us then 0 else seg_len (segs ! j) + 1)"

definition run_left :: "(nat \<times> int) list \<Rightarrow> 'k Run \<Rightarrow> nat" where
  "run_left cs st = (\<Sum>j < length (rn_segments st). seg_left (rn_next st) (set (under_way cs (rn_ring st))) (rn_segments st) j)"

lemma run_okD:
  assumes "run_ok is_read depth S cs st"
  shows "length (rn_segments st) = length S" "rn_next st \<le> length S" "j < length S \<Longrightarrow> seg_within (S ! j) (rn_segments st ! j)"
    "rn_next st \<le> j \<Longrightarrow> j < length S \<Longrightarrow> rn_segments st ! j = S ! j" "distinct (under_way cs (rn_ring st))"
    "u \<in> set (under_way cs (rn_ring st)) \<Longrightarrow> u < rn_next st" "rn_pending st = length (under_way cs (rn_ring st))" "rn_pending st \<le> depth"
    "depth \<le> ring_entries (rn_ring st)" "ring_ok is_read (rn_segments st) (rn_ring st)" "results_ok (rn_segments st) cs" "ring_cq (rn_ring st) = []"
  using assms by (auto simp: run_ok_def)

text \<open>Submissions never find the queue full.\<close>

lemma run_push_ok:
  assumes "length (ring_sq (rn_ring st)) < ring_entries (rn_ring st)"
  shows "run_push is_read u st = (Inr (), st\<lparr>rn_ring := (rn_ring st)\<lparr>ring_sq := ring_sq (rn_ring st) @ [segment_entry is_read (rn_segments st ! u) u]\<rparr>\<rparr>)"
  using assms by (simp add: run_push_def ring_push_def)

lemma segment_entry_user [simp]: "sqe_user (segment_entry is_read s u) = u"
  by (simp add: segment_entry_def)

lemma under_way_push:
  "under_way cs (r\<lparr>ring_sq := ring_sq r @ [segment_entry is_read s u]\<rparr>) = under_way cs r @ [u]"
  by (simp add: under_way_def)

definition filled :: "bool \<Rightarrow> nat \<Rightarrow> IoSegment list \<Rightarrow> 'k Run \<Rightarrow> 'k Run \<Rightarrow> bool" where
  "filled is_read depth S st st' \<longleftrightarrow> run_ok is_read depth S [] st' \<and> run_left [] st' = run_left [] st \<and>
     ring_kernel (rn_ring st') = ring_kernel (rn_ring st) \<and> rn_file st' = rn_file st \<and> rn_mem st' = rn_mem st \<and> rn_segments st' = rn_segments st \<and>
     rn_error st' = rn_error st \<and> rn_next st \<le> rn_next st' \<and> (\<forall>j. rn_next st \<le> j \<and> j < rn_next st' \<longrightarrow> j \<in> set (under_way [] (rn_ring st'))) \<and>
     set (under_way [] (rn_ring st)) \<subseteq> set (under_way [] (rn_ring st')) \<and>
     (rn_pending st' = 0 \<longrightarrow> rn_error st' \<noteq> None \<or> rn_next st' = length S \<or> depth = 0)"

lemma run_fill_ok:
  assumes "run_ok is_read depth S [] st"
  shows "\<exists>st'. run_fill depth is_read st = (Inr (), st') \<and> filled is_read depth S st st'"
  using assms
proof (induction depth is_read st rule: run_fill.induct)
  case (1 depth is_read st)
  note D = run_okD [OF "1.prems"]
  show ?case
  proof (cases "rn_pending st < depth \<and> rn_next st < length (rn_segments st) \<and> rn_error st = None")
    case False
    with "1.prems" D(1,2) show ?thesis by (auto simp: run_fill.simps [of depth is_read st] filled_def)
  next
    case True
    let ?u = "rn_next st" and ?r = "rn_ring st"
    let ?r1 = "?r\<lparr>ring_sq := ring_sq ?r @ [segment_entry is_read (rn_segments st ! ?u) ?u]\<rparr>"
    let ?st = "st\<lparr>rn_ring := ?r1, rn_next := rn_next st + 1, rn_pending := rn_pending st + 1\<rparr>"
    have "length (ring_sq ?r) < ring_entries ?r" using D(7,8,9) True by (auto simp: under_way_def)
    note push = run_push_ok [OF this, of is_read ?u]
    have way: "under_way [] ?r1 = under_way [] ?r @ [?u]" by (rule under_way_push)
    have "?u \<notin> set (under_way [] ?r)" using D(6) by blast
    then have ok: "run_ok is_read depth S [] ?st"
      using "1.prems" True way D(6) unfolding run_ok_def by (auto simp: ring_ok_def less_Suc_eq)
    have left: "run_left [] ?st = run_left [] st"
      unfolding run_left_def by (rule sum.cong) (auto simp: way seg_left_def less_Suc_eq)
    have "\<exists>st'. run_fill depth is_read ?st = (Inr (), st') \<and> filled is_read depth S ?st st'"
      using "1.IH" [OF True, of "st\<lparr>rn_ring := ?r1\<rparr>"] ok by simp
    then obtain st' where fill: "run_fill depth is_read ?st = (Inr (), st')" and f: "filled is_read depth S ?st st'" by blast
    have "rn_next st \<le> j \<longleftrightarrow> j = ?u \<or> rn_next ?st \<le> j" for j by auto
    then have "filled is_read depth S st st'"
      using f left unfolding filled_def by (auto simp: way)
    moreover have "run_fill depth is_read st = (Inr (), st')"
      using True push fill by (subst run_fill.simps) simp
    ultimately show ?thesis by blast
  qed
qed

section \<open>Waiting\<close>

text \<open>The run after the kernel was entered, with the completions \<open>cs\<close> in the queue.\<close>

definition run_entered :: "'k Run \<Rightarrow> (nat \<times> int) list \<Rightarrow> Sqe list \<Rightarrow> 'k \<Rightarrow> File \<Rightarrow> bytes list \<Rightarrow> 'k Run" where
  "run_entered st cs es k f mem = st\<lparr>rn_ring := (rn_ring st)\<lparr>ring_sq := [], ring_flight := es, ring_cq := ring_cq (rn_ring st) @ cs, ring_kernel := k\<rparr>,
     rn_file := f, rn_mem := mem\<rparr>"

lemma run_entered_simps [simp]:
  "ring_sq (rn_ring (run_entered st cs es k f mem)) = []" "ring_flight (rn_ring (run_entered st cs es k f mem)) = es"
  "ring_cq (rn_ring (run_entered st cs es k f mem)) = ring_cq (rn_ring st) @ cs" "ring_kernel (rn_ring (run_entered st cs es k f mem)) = k"
  "ring_entries (rn_ring (run_entered st cs es k f mem)) = ring_entries (rn_ring st)"
  "rn_file (run_entered st cs es k f mem) = f" "rn_mem (run_entered st cs es k f mem) = mem"
  "rn_segments (run_entered st cs es k f mem) = rn_segments st" "rn_next (run_entered st cs es k f mem) = rn_next st"
  "rn_pending (run_entered st cs es k f mem) = rn_pending st" "rn_error (run_entered st cs es k f mem) = rn_error st"
  by (simp_all add: run_entered_def)

abbreviation ring_all :: "'k Run \<Rightarrow> Sqe list" where
  "ring_all st \<equiv> ring_flight (rn_ring st) @ ring_sq (rn_ring st)"

context uring_kernel
begin

text \<open>The wait ends: the process aborts, or a call returns.\<close>

lemma run_wait_outcome:
  "(\<exists>st'. run_wait enter st = Some (Inl (Panic ''abort''), st') \<and> \<not> calm (ring_kernel (rn_ring st))) \<or>
   (\<exists>k cs es k' f mem. enter k (ring_all st) (rn_file st) (rn_mem st) = (Inr (cs, es), k', f, mem) \<and>
     (calm (ring_kernel (rn_ring st)) \<longrightarrow> calm k) \<and> run_wait enter st = Some (Inr (), run_entered st cs es k' f mem))"
proof (induction "patience (ring_kernel (rn_ring st))" arbitrary: st rule: less_induct)
  case less
  let ?k = "ring_kernel (rn_ring st)"
  obtain r k' f mem where e: "enter ?k (ring_all st) (rn_file st) (rn_mem st) = (r, k', f, mem)" by (metis surj_pair)
  show ?case
  proof (cases r)
    case (Inr a)
    then obtain cs es where "enter ?k (ring_all st) (rn_file st) (rn_mem st) = (Inr (cs, es), k', f, mem)" using e by (cases a) auto
    then show ?thesis by (intro disjI2 exI conjI) (auto simp: run_wait.simps [of enter st] ring_submit_and_wait_def run_entered_def)
  next
    case (Inl n)
    note err = enter_fails [OF e [unfolded Inl]]
    let ?st = "st\<lparr>rn_ring := (rn_ring st)\<lparr>ring_kernel := k'\<rparr>\<rparr>"
    have same: "st\<lparr>rn_ring := x, rn_file := f, rn_mem := mem\<rparr> = st\<lparr>rn_ring := x\<rparr>" for x using err by (cases st) simp
    show ?thesis
    proof (cases "n = EINTR")
      case False
      then have "\<not> calm ?k" using calm_fails [OF _ e [unfolded Inl]] by blast
      with e Inl False show ?thesis by (simp add: run_wait.simps [of enter st] ring_submit_and_wait_def)
    next
      case True
      have wait: "run_wait enter st = run_wait enter ?st"
        using e Inl True same by (simp add: run_wait.simps [of enter st] ring_submit_and_wait_def)
      have entered: "run_entered ?st cs es k f mem = run_entered st cs es k f mem" for cs es k f mem by (simp add: run_entered_def)
      have "patience (ring_kernel (rn_ring ?st)) < patience ?k" using err True by simp
      note IH = less.hyps [OF this]
      have calm: "calm ?k \<longrightarrow> calm k'" using calm_fails [OF _ e [unfolded Inl]] by blast
      from IH show ?thesis
      proof
        assume "\<exists>st'. run_wait enter ?st = Some (Inl (Panic ''abort''), st') \<and> \<not> calm (ring_kernel (rn_ring ?st))"
        with calm wait show ?thesis by auto
      next
        assume "\<exists>k cs es k' f mem. enter k (ring_all ?st) (rn_file ?st) (rn_mem ?st) = (Inr (cs, es), k', f, mem) \<and>
          (calm (ring_kernel (rn_ring ?st)) \<longrightarrow> calm k) \<and> run_wait enter ?st = Some (Inr (), run_entered ?st cs es k' f mem)"
        then obtain k cs es k2 f2 mem2 where "enter k (ring_all st) (rn_file st) (rn_mem st) = (Inr (cs, es), k2, f2, mem2)"
            "calm k' \<longrightarrow> calm k" "run_wait enter ?st = Some (Inr (), run_entered ?st cs es k2 f2 mem2)" by auto
        with calm wait entered show ?thesis by (intro disjI2 exI [of _ k]) (intro exI conjI; auto)
      qed
    qed
  qed
qed

end

text \<open>What was submitted is in flight or has completed.\<close>

definition waited :: "bool \<Rightarrow> nat \<Rightarrow> IoSegment list \<Rightarrow> 'k Run \<Rightarrow> (nat \<times> int) list \<Rightarrow> 'k Run \<Rightarrow> bool" where
  "waited is_read depth S st cs st' \<longleftrightarrow> run_ok is_read depth S cs st' \<and>
     set (under_way cs (rn_ring st')) = set (under_way [] (rn_ring st)) \<and> rn_segments st' = rn_segments st \<and>
     rn_next st' = rn_next st \<and> rn_pending st' = rn_pending st \<and> rn_error st' = rn_error st"

lemma run_ok_entered:
  assumes ok: "run_ok is_read depth S [] st" and small: "\<forall>s \<in> set S. seg_len s < 2 ^ 32"
    and c: "completes (ring_all st) (rn_file st) (rn_mem st) cs es f mem"
  shows "waited is_read depth S st cs (run_entered st [] es k f mem)"
proof -
  note D = run_okD [OF ok]
  note U = completes_users [OF c]
  let ?r = "rn_ring (run_entered st [] es k f mem)"
  have way: "mset (under_way cs ?r) = mset (under_way [] (rn_ring st))"
    using U by (simp add: under_way_def)
  then have w: "distinct (under_way cs ?r)" "set (under_way cs ?r) = set (under_way [] (rn_ring st))"
      "length (under_way cs ?r) = length (under_way [] (rn_ring st))"
    using D(5) by (metis mset_eq_imp_distinct_iff, metis set_mset_mset, metis size_mset)
  have "results_ok (rn_segments st) cs"
    unfolding results_ok_def
  proof (intro ballI, clarify)
    fix u result
    assume "(u, result) \<in> set cs"
    with U obtain e where e: "e \<in> set (ring_all st)" "u = sqe_user e" "nat result \<le> unat (sqe_len e)" by blast
    have "u < length S" using D(2) D(6) [of u] e(1,2) by (auto simp: under_way_def)
    then have "seg_len (rn_segments st ! u) \<le> seg_len (S ! u)" using D(3) seg_within_len by blast
    moreover have "seg_len (S ! u) < 2 ^ 32" using small \<open>u < length S\<close> by simp
    moreover have "sqe_len e = of_nat (seg_len (rn_segments st ! u))"
      using D(10) e(1,2) unfolding ring_ok_def segment_entry_def by (metis Sqe.select_convs(4))
    ultimately show "nat result \<le> seg_len (rn_segments st ! u)" using e(3) by (simp add: unat_of_nat_nowrap)
  qed
  moreover have "ring_ok is_read (rn_segments st) ?r" using D(10) U by (auto simp: ring_ok_def)
  ultimately show ?thesis using ok w D unfolding waited_def run_ok_def by simp
qed

section \<open>Completions\<close>

lemma under_way_Cons: "under_way ((u, result) # cs) r = u # under_way cs r"
  by (simp add: under_way_def)

lemma run_left_less:
  assumes "u < length (rn_segments st)" and "length segs = length (rn_segments st)"
    and "\<And>j. j < length segs \<Longrightarrow> j \<noteq> u \<Longrightarrow> seg_left n us segs j = seg_left (rn_next st) (set (under_way cs (rn_ring st))) (rn_segments st) j"
    and "seg_left n us segs u < seg_left (rn_next st) (set (under_way cs (rn_ring st))) (rn_segments st) u"
  shows "(\<Sum>j < length segs. seg_left n us segs j) < run_left cs st"
  unfolding run_left_def assms(2) by (rule sum_strict_mono_strong [where a = u]) (use assms in \<open>auto simp: le_less\<close>)

text \<open>A segment leaves: it was transferred, it failed, or it ended with the file.\<close>

lemma run_ok_leave:
  assumes ok: "run_ok is_read depth S ((u, result) # cs) st"
    and st': "rn_ring st' = rn_ring st" "rn_segments st' = rn_segments st" "rn_next st' = rn_next st" "rn_pending st' = rn_pending st - 1"
  shows "run_ok is_read depth S cs st' \<and> run_left cs st' < run_left ((u, result) # cs) st"
proof -
  note D = run_okD [OF ok, unfolded under_way_Cons]
  have u: "u < rn_next st" "u < length (rn_segments st)" using D(1,2) D(6) [of u] by auto
  have "run_ok is_read depth S cs st'"
    using ok st' unfolding run_ok_def under_way_Cons by (auto simp: results_ok_def)
  moreover have "run_left cs st' < run_left ((u, result) # cs) st"
    unfolding run_left_def [of cs st'] st'
    by (rule run_left_less [OF u(2) refl]) (use u D(5) in \<open>auto simp: seg_left_def under_way_Cons\<close>)
  ultimately show ?thesis by simp
qed

text \<open>A segment goes on from where it stopped.\<close>

definition seg_advance :: "IoSegment \<Rightarrow> nat \<Rightarrow> IoSegment" where
  "seg_advance s n = s\<lparr>seg_offset := seg_offset s + of_nat n, seg_at := seg_at s + n, seg_len := seg_len s - n\<rparr>"

lemma seg_within_advance: "seg_within s0 s \<Longrightarrow> n < seg_len s \<Longrightarrow> seg_within s0 (seg_advance s n)"
  by (auto simp: seg_within_def seg_advance_def simp flip: of_nat_add)

lemma run_ok_continue:
  assumes ok: "run_ok is_read depth S ((u, result) # cs) st" and n: "0 < n" "n < seg_len (rn_segments st ! u)"
    and st': "rn_segments st' = (rn_segments st)[u := seg_advance (rn_segments st ! u) n]" "rn_next st' = rn_next st" "rn_pending st' = rn_pending st"
      "rn_ring st' = (rn_ring st)\<lparr>ring_sq := ring_sq (rn_ring st) @ [segment_entry is_read (seg_advance (rn_segments st ! u) n) u]\<rparr>"
  shows "run_ok is_read depth S cs st' \<and> run_left cs st' < run_left ((u, result) # cs) st"
proof -
  note D = run_okD [OF ok, unfolded under_way_Cons]
  have u: "u < rn_next st" "u < length (rn_segments st)" using D(1,2) D(6) [of u] by auto
  have way: "under_way cs (rn_ring st') = under_way cs (rn_ring st) @ [u]" by (simp only: st'(4) under_way_push)
  have others: "\<forall>v \<in> set (under_way cs (rn_ring st)). v \<noteq> u" using D(5) by auto
  have keep: "rn_segments st' ! v = rn_segments st ! v" if "v \<in> set (under_way cs (rn_ring st))" for v
    using others that unfolding st'(1) by (metis nth_list_update_neq)
  have "ring_ok is_read (rn_segments st') (rn_ring st')"
    unfolding ring_ok_def
  proof
    fix e
    assume "e \<in> set (ring_flight (rn_ring st') @ ring_sq (rn_ring st'))"
    then consider "e \<in> set (ring_flight (rn_ring st) @ ring_sq (rn_ring st))" | "e = segment_entry is_read (seg_advance (rn_segments st ! u) n) u"
      by (auto simp: st'(4))
    then show "e = segment_entry is_read (rn_segments st' ! sqe_user e) (sqe_user e)"
    proof cases
      case 1
      then have "sqe_user e \<in> set (under_way cs (rn_ring st))" by (auto simp: under_way_def)
      then show ?thesis using D(10) 1 keep unfolding ring_ok_def by metis
    qed (simp add: st'(1) u(2))
  qed
  moreover have "v \<in> set (under_way cs (rn_ring st))" if "(v, r) \<in> set cs" for v r using that by (force simp: under_way_def)
  then have "results_ok (rn_segments st') cs"
    using D(11) keep unfolding results_ok_def by fastforce
  moreover have "seg_within (S ! j) (rn_segments st' ! j)" if "j < length S" for j
    using D(3) [OF that] seg_within_advance [OF _ n(2)] u(2) by (cases "j = u") (auto simp: st'(1))
  ultimately have "run_ok is_read depth S cs st'"
    using ok u way unfolding run_ok_def under_way_Cons by (auto simp: st' nth_list_update)
  moreover have "run_left cs st' < run_left ((u, result) # cs) st"
    unfolding run_left_def [of cs st']
    by (rule run_left_less [OF u(2)]) (use u D(5) n way in \<open>auto simp: st' seg_left_def under_way_Cons seg_advance_def\<close>)
  ultimately show ?thesis by simp
qed

text \<open>The cases of a completion.\<close>

lemma run_completion_cases:
  assumes ok: "run_ok is_read depth S ((u, result) # cs) st"
  defines "s \<equiv> rn_segments st ! u" and "counted \<equiv> run_count is_read (nat result) (st\<lparr>rn_pending := rn_pending st - 1\<rparr>)"
  obtains (failed) e where "result < 0" "run_completion is_read u result st = (Inr (), st\<lparr>rn_pending := rn_pending st - 1, rn_error := Some e\<rparr>)"
    | (finished) "0 \<le> result" "nat result = seg_len s \<or> rn_error st \<noteq> None" "run_completion is_read u result st = (Inr (), counted)"
    | (ended) "is_read" "result = 0" "rn_error st = None" "run_completion is_read u result st =
        (Inr (), counted\<lparr>rn_mem := (rn_mem st)[seg_buf s := put_slice (seg_at s) (replicate (seg_len s) 0) (rn_mem st ! seg_buf s)]\<rparr>)"
    | (nothing) "\<not> is_read" "result = 0" "run_completion is_read u result st = (Inr (), counted\<lparr>rn_error := Some (Io WriteZero)\<rparr>)"
    | (partial) "0 < nat result" "nat result < seg_len s" "rn_error st = None" "run_completion is_read u result st =
        (Inr (), counted\<lparr>rn_segments := (rn_segments st)[u := seg_advance s (nat result)], rn_pending := rn_pending st,
           rn_ring := (rn_ring st)\<lparr>ring_sq := ring_sq (rn_ring st) @ [segment_entry is_read (seg_advance s (nat result)) u]\<rparr>\<rparr>)"
proof -
  note D = run_okD [OF ok, unfolded under_way_Cons]
  have u: "u < rn_next st" "u < length (rn_segments st)" using D(1,2) D(6) [of u] by auto
  have le: "nat result \<le> seg_len s" using D(11) by (auto simp: results_ok_def s_def)
  have pos: "0 < seg_len s" using D(1,3) u(2) by (simp add: seg_within_def s_def)
  have count: "rn_segments counted = rn_segments st" "rn_ring counted = rn_ring st" "rn_error counted = rn_error st" "rn_mem counted = rn_mem st"
      "rn_pending counted = rn_pending st - 1"
    by (simp_all add: counted_def run_count_def Let_def)
  show thesis
  proof (cases "result < 0")
    case True
    show thesis
    proof (cases "rn_error st")
      case None
      with True show thesis by (intro failed) (simp_all add: run_completion_def)
    next
      case (Some a)
      then have "st\<lparr>rn_pending := n\<rparr> = st\<lparr>rn_pending := n, rn_error := Some a\<rparr>" for n by (cases st) simp
      with True Some show thesis by (intro failed [of a]) (simp_all add: run_completion_def)
    qed
  next
    case False
    show thesis
    proof (cases "nat result = seg_len s \<or> rn_error st \<noteq> None")
      case True
      with False show thesis by (intro finished) (auto simp: run_completion_def Let_def counted_def run_count_def s_def)
    next
      case go: False
      show thesis
      proof (cases "result = 0")
        case True
        note zero = this
        show thesis
        proof (cases is_read)
          case True
          with zero go pos show thesis by (intro ended) (simp_all add: run_completion_def Let_def counted_def run_count_def s_def)
        next
          case False
          show thesis
            by (rule nothing) (use zero go pos False in \<open>simp_all add: run_completion_def Let_def counted_def run_count_def s_def\<close>)
        qed
      next
        case nonzero: False
        let ?s = "seg_advance s (nat result)"
        let ?st = "counted\<lparr>rn_segments := (rn_segments st)[u := ?s]\<rparr>"
        have "length (ring_sq (rn_ring st)) < ring_entries (rn_ring st)" using D(7,8,9) by (auto simp: under_way_def)
        then have "run_push is_read u ?st = (Inr (), ?st\<lparr>rn_ring := (rn_ring st)\<lparr>ring_sq := ring_sq (rn_ring st) @ [segment_entry is_read ?s u]\<rparr>\<rparr>)"
          using run_push_ok [of ?st is_read u] u(2) by (simp add: count)
        moreover have "run_completion is_read u result st = and_then (run_push is_read u ?st) (\<lambda>_ st. (Inr (), st\<lparr>rn_pending := rn_pending st + 1\<rparr>))"
          using False go nonzero by (simp add: run_completion_def Let_def counted_def run_count_def s_def seg_advance_def)
        moreover have "Suc (rn_pending st - 1) = rn_pending st" using D(7) by simp
        ultimately show thesis
          using False go nonzero le by (intro partial) (auto simp: count)
      qed
    qed
  qed
qed

section \<open>The loop\<close>

lemma run_completion_ok:
  assumes ok: "run_ok is_read depth S ((u, result) # cs) st"
  obtains st' where "run_completion is_read u result st = (Inr (), st')" "run_ok is_read depth S cs st'"
    "run_left cs st' < run_left ((u, result) # cs) st"
proof (cases rule: run_completion_cases [OF ok, case_names 1 2 3 4 5])
  case (1 e)
  show thesis by (rule that [OF 1(2)]) (use run_ok_leave [OF ok, of "st\<lparr>rn_pending := rn_pending st - 1, rn_error := Some e\<rparr>"] in simp_all)
next
  case 2
  let ?st = "run_count is_read (nat result) (st\<lparr>rn_pending := rn_pending st - 1\<rparr>)"
  show thesis by (rule that [OF 2(3)]) (use run_ok_leave [OF ok, of ?st] in \<open>simp_all add: run_count_def Let_def\<close>)
next
  case 3
  show thesis
    by (rule that [OF 3(4)]) (use run_ok_leave [OF ok] in \<open>simp_all add: run_count_def Let_def\<close>)
next
  case 4
  show thesis
    by (rule that [OF 4(3)]) (use run_ok_leave [OF ok] in \<open>simp_all add: run_count_def Let_def\<close>)
next
  case 5
  show thesis
    by (rule that [OF 5(4)]) (use run_ok_continue [OF ok 5(1,2)] in \<open>simp_all add: run_count_def Let_def\<close>)
qed

text \<open>
  What holds before a round and is kept by filling the queue, by waiting and by each completion holds when
  the loop is done; and the loop is done after finitely many rounds, because each leaves less to transfer.
\<close>

lemma run_completions_rule:
  assumes "run_ok is_read depth S cs st" and "P cs st"
    and step: "\<And>u result cs st st'. run_ok is_read depth S ((u, result) # cs) st \<Longrightarrow> P ((u, result) # cs) st \<Longrightarrow>
      run_completion is_read u result st = (Inr (), st') \<Longrightarrow> P cs st'"
  shows "\<exists>st'. run_completions is_read cs st = (Inr (), st') \<and> run_ok is_read depth S [] st' \<and> P [] st' \<and>
    run_left [] st' \<le> run_left cs st \<and> (cs \<noteq> [] \<longrightarrow> run_left [] st' < run_left cs st)"
  using assms(1,2)
proof (induction cs arbitrary: st)
  case (Cons c cs)
  obtain u result where c: "c = (u, result)" by (cases c)
  obtain st1 where one: "run_completion is_read u result st = (Inr (), st1)" and ok: "run_ok is_read depth S cs st1"
    and less: "run_left cs st1 < run_left (c # cs) st"
    using run_completion_ok [OF Cons.prems(1) [unfolded c]] c by metis
  have "P cs st1" using step [OF Cons.prems [unfolded c] one] .
  with Cons.IH [OF ok] obtain st' where "run_completions is_read cs st1 = (Inr (), st')" "run_ok is_read depth S [] st'" "P [] st'"
      "run_left [] st' \<le> run_left cs st1" by blast
  with one less c show ?case by auto
qed simp

context uring_kernel
begin

lemma run_loop_rule:
  assumes "run_ok is_read depth S [] st" and "P [] st" and small: "\<forall>s \<in> set S. seg_len s < 2 ^ 32" and depth: "0 < depth"
    and fill: "\<And>st st'. run_ok is_read depth S [] st \<Longrightarrow> P [] st \<Longrightarrow> filled is_read depth S st st' \<Longrightarrow> P [] st'"
    and wait: "\<And>st k cs es k' f mem. run_ok is_read depth S [] st \<Longrightarrow> P [] st \<Longrightarrow> 0 < rn_pending st \<Longrightarrow>
      enter k (ring_all st) (rn_file st) (rn_mem st) = (Inr (cs, es), k', f, mem) \<Longrightarrow> calm (ring_kernel (rn_ring st)) \<longrightarrow> calm k \<Longrightarrow>
      waited is_read depth S st cs (run_entered st [] es k' f mem) \<Longrightarrow> P cs (run_entered st [] es k' f mem)"
    and completion: "\<And>u result cs st st'. run_ok is_read depth S ((u, result) # cs) st \<Longrightarrow> P ((u, result) # cs) st \<Longrightarrow>
      run_completion is_read u result st = (Inr (), st') \<Longrightarrow> P cs st'"
    and fine: "\<And>st. P [] st \<Longrightarrow> fine \<Longrightarrow> calm (ring_kernel (rn_ring st))"
  shows "(\<exists>st'. run_loop enter depth is_read st = Some (run_result st') \<and> run_ok is_read depth S [] st' \<and> P [] st' \<and> rn_pending st' = 0 \<and>
      (rn_error st' = None \<longrightarrow> rn_next st' = length S)) \<or> \<not> fine \<and> (\<exists>st'. run_loop enter depth is_read st = Some (Inl (Panic ''abort''), st'))"
  using assms(1,2)
proof (induction "run_left [] st" arbitrary: st rule: less_induct)
  case less
  note D = run_okD [OF less.prems(1)]
  show ?case
  proof (cases "rn_next st < length (rn_segments st) \<or> 0 < rn_pending st")
    case False
    with less.prems D(1,2) show ?thesis by (intro disjI1 exI [of _ st]) (simp add: run_loop.simps [of enter depth is_read st])
  next
    case go: True
    obtain st1 where f: "run_fill depth is_read st = (Inr (), st1)" "filled is_read depth S st st1"
      using run_fill_ok [OF less.prems(1)] by blast
    have ok1: "run_ok is_read depth S [] st1" and left1: "run_left [] st1 = run_left [] st" and
      stop: "rn_pending st1 = 0 \<longrightarrow> rn_error st1 \<noteq> None \<or> rn_next st1 = length S"
      using f(2) depth unfolding filled_def by blast+
    have P1: "P [] st1" by (rule fill [OF less.prems f(2)])
    note D1 = run_okD [OF ok1]
    show ?thesis
    proof (cases "rn_pending st1 = 0")
      case True
      with go f(1) ok1 P1 stop show ?thesis by (intro disjI1 exI [of _ st1]) (auto simp: run_loop.simps [of enter depth is_read st])
    next
      case False
      consider st2 where "run_wait enter st1 = Some (Inl (Panic ''abort''), st2)" "\<not> calm (ring_kernel (rn_ring st1))"
        | k cs es k' f mem where "enter k (ring_all st1) (rn_file st1) (rn_mem st1) = (Inr (cs, es), k', f, mem)"
          "calm (ring_kernel (rn_ring st1)) \<longrightarrow> calm k" "run_wait enter st1 = Some (Inr (), run_entered st1 cs es k' f mem)"
        using run_wait_outcome [of st1] by blast
      then show ?thesis
      proof cases
        case 1
        then have "\<not> fine" using fine [OF P1] by blast
        with 1 go f(1) False show ?thesis by (auto simp: run_loop.simps [of enter depth is_read st])
      next
        case 2
        let ?st2 = "run_entered st1 [] es k' f mem"
        note e = enter_returns [OF 2(1)]
        have "ring_all st1 \<noteq> []" using False D1(7) by (auto simp: under_way_def)
        then have ne: "cs \<noteq> []" using e by blast
        have w: "waited is_read depth S st1 cs ?st2" by (rule run_ok_entered [OF ok1 small]) (use e in simp)
        then have ok2: "run_ok is_read depth S cs ?st2" by (simp add: waited_def)
        have left2: "run_left cs ?st2 = run_left [] st1" using w by (simp add: waited_def run_left_def)
        have P2: "P cs ?st2" using wait [OF ok1 P1 _ 2(1,2) w] False by simp
        have "\<exists>st'. run_completions is_read cs ?st2 = (Inr (), st') \<and> run_ok is_read depth S [] st' \<and> P [] st' \<and>
            run_left [] st' \<le> run_left cs ?st2 \<and> (cs \<noteq> [] \<longrightarrow> run_left [] st' < run_left cs ?st2)"
          by (rule run_completions_rule [OF ok2, of P]) (rule P2, rule completion)
        then obtain st3 where 3: "run_completions is_read cs ?st2 = (Inr (), st3)" "run_ok is_read depth S [] st3" "P [] st3"
            "run_left [] st3 < run_left cs ?st2"
          using ne by blast
        have taken: "(run_entered st1 cs es k' f mem)\<lparr>rn_ring := (rn_ring (run_entered st1 cs es k' f mem))\<lparr>ring_cq := []\<rparr>\<rparr> = ?st2"
          using D1(12) by (simp add: run_entered_def)
        have "run_loop enter depth is_read st = run_loop enter depth is_read st3"
          using go f(1) False 2(3) 3(1) taken D1(12) by (simp add: run_loop.simps [of enter depth is_read st])
        with less.hyps [OF _ 3(2,3)] 3(4) left1 left2 show ?thesis by simp
      qed
    qed
  qed
qed

end

text \<open>The invariant at the start of \<open>run\<close>.\<close>

lemma run_ok_start:
  assumes "uc_depth c \<le> uc_entries c" and "\<forall>s \<in> set S. 0 < seg_len s"
  shows "run_ok is_read (uc_depth c) S [] (run_start c io f mem S)"
  using assms by (auto simp: run_ok_def run_start_def under_way_def ring_ok_def results_ok_def seg_within_def)

end
