(* ===== verification/Uring_Data.thy ===== *)
theory Uring_Data
  imports Uring_Run
begin

text \<open>
  What the loop of \<open>src/src/io/uring.rs\<close> has transferred: every segment up to the place it has come to,
  in whatever order and in however many parts the operations completed; and nothing beside the segments.
\<close>

section \<open>Segments and what was moved\<close>

definition seg_fits :: "bytes list \<Rightarrow> IoSegment \<Rightarrow> bool" where
  "seg_fits mem s \<longleftrightarrow> seg_buf s < length mem \<and> seg_at s + seg_len s \<le> length (mem ! seg_buf s) \<and>
     unat (seg_offset s) + seg_len s \<le> 18446744073709551616 \<and> 0 < seg_len s \<and> seg_len s < 2 ^ 32"

text \<open>Two segments that a read, or a write, may transfer in any order.\<close>

definition seg_apart :: "bool \<Rightarrow> IoSegment \<Rightarrow> IoSegment \<Rightarrow> bool" where
  "seg_apart is_read s t \<longleftrightarrow>
     (if is_read then seg_buf s \<noteq> seg_buf t \<or> seg_at s + seg_len s \<le> seg_at t \<or> seg_at t + seg_len t \<le> seg_at s
      else unat (seg_offset s) + seg_len s \<le> unat (seg_offset t) \<or> unat (seg_offset t) + seg_len t \<le> unat (seg_offset s))"

text \<open>The first \<open>n\<close> bytes of a segment are the same in the buffer and in the file.\<close>

definition seg_moved :: "bool \<Rightarrow> IoSegment \<Rightarrow> nat \<Rightarrow> bytes \<Rightarrow> bytes list \<Rightarrow> bool" where
  "seg_moved is_read s n c mem \<longleftrightarrow>
     (\<forall>i<n. mem ! seg_buf s ! (seg_at s + i) = byte_at c (unat (seg_offset s) + i)) \<and>
     (\<not> is_read \<and> 0 < n \<longrightarrow> unat (seg_offset s) + n \<le> length c)"

text \<open>Moving \<open>n\<close> more bytes after the first \<open>p\<close>.\<close>

definition seg_step :: "bool \<Rightarrow> IoSegment \<Rightarrow> nat \<Rightarrow> nat \<Rightarrow> bytes \<Rightarrow> bytes list \<Rightarrow> bytes \<Rightarrow> bytes list \<Rightarrow> bool" where
  "seg_step is_read s p n c mem c' mem' \<longleftrightarrow> p + n \<le> seg_len s \<and>
     (if is_read then c' = c \<and> mem' = mem[seg_buf s := put_slice (seg_at s + p) (read_zeros c (unat (seg_offset s) + p) n) (mem ! seg_buf s)]
      else mem' = mem \<and> c' = pwrite c (unat (seg_offset s) + p) (slice_of (seg_at s + p) n (mem ! seg_buf s)))"

lemma mem_put_nth:
  assumes "b < length mem" and "at + length bs \<le> length (mem ! b)" and "b' = b \<Longrightarrow> i < length (mem ! b)"
  shows "mem[b := put_slice at bs (mem ! b)] ! b' ! i = (if b' = b \<and> at \<le> i \<and> i < at + length bs then bs ! (i - at) else mem ! b' ! i)"
  using assms by (auto simp: nth_put_slice nth_list_update)

lemma seg_slice_len: "seg_fits mem s \<Longrightarrow> p + n \<le> seg_len s \<Longrightarrow> length (slice_of (seg_at s + p) n (mem ! seg_buf s)) = n"
  unfolding length_take length_drop by (rule min_absorb2) (unfold seg_fits_def, linarith)

lemma seg_step_moves:
  assumes step: "seg_step is_read s p n c mem c' mem'" and moved: "seg_moved is_read s p c mem" and fits: "seg_fits mem s"
  shows "seg_moved is_read s (p + n) c' mem'"
proof (cases is_read)
  case True
  then have "c' = c" and m: "mem' = mem[seg_buf s := put_slice (seg_at s + p) (read_zeros c (unat (seg_offset s) + p) n) (mem ! seg_buf s)]"
    and le: "p + n \<le> seg_len s" using step by (simp_all add: seg_step_def)
  have "mem' ! seg_buf s ! (seg_at s + i) = byte_at c (unat (seg_offset s) + i)" if "i < p + n" for i
    unfolding m using fits le that moved by (subst mem_put_nth) (auto simp: seg_fits_def seg_moved_def)
  with True \<open>c' = c\<close> show ?thesis by (simp add: seg_moved_def)
next
  case False
  let ?bs = "slice_of (seg_at s + p) n (mem ! seg_buf s)"
  have "mem' = mem" and c: "c' = pwrite c (unat (seg_offset s) + p) ?bs" and le: "p + n \<le> seg_len s"
    using step False by (simp_all add: seg_step_def)
  have len: "length ?bs = n" using fits le by (simp add: seg_slice_len del: length_take)
  have "mem ! seg_buf s ! (seg_at s + i) = byte_at c' (unat (seg_offset s) + i)" if "i < p + n" for i
    unfolding c byte_at_pwrite using that moved fits le len by (auto simp: seg_fits_def seg_moved_def)
  moreover have "unat (seg_offset s) + (p + n) \<le> length c'" if "0 < p + n"
    using that moved False len by (cases "n = 0") (auto simp: seg_moved_def c length_pwrite pwrite_def)
  ultimately show ?thesis using False \<open>mem' = mem\<close> by (simp add: seg_moved_def)
qed

lemma seg_step_keeps:
  assumes step: "seg_step is_read s p n c mem c' mem'" and moved: "seg_moved is_read t k c mem" and fits: "seg_fits mem s" "seg_fits mem t"
    and k: "k \<le> seg_len t" and apart: "seg_apart is_read s t \<or> t = s \<and> k \<le> p"
  shows "seg_moved is_read t k c' mem'"
proof (cases is_read)
  case True
  then have "c' = c" and m: "mem' = mem[seg_buf s := put_slice (seg_at s + p) (read_zeros c (unat (seg_offset s) + p) n) (mem ! seg_buf s)]"
    and le: "p + n \<le> seg_len s" using step by (simp_all add: seg_step_def)
  have "mem' ! seg_buf t ! (seg_at t + i) = mem ! seg_buf t ! (seg_at t + i)" if "i < k" for i
    unfolding m using fits le that apart k True by (subst mem_put_nth) (auto simp: seg_fits_def seg_apart_def)
  with True \<open>c' = c\<close> moved show ?thesis by (simp add: seg_moved_def)
next
  case False
  let ?bs = "slice_of (seg_at s + p) n (mem ! seg_buf s)"
  have "mem' = mem" and c: "c' = pwrite c (unat (seg_offset s) + p) ?bs" and le: "p + n \<le> seg_len s"
    using step False by (simp_all add: seg_step_def)
  have len: "length ?bs = n" using fits le by (simp add: seg_slice_len del: length_take)
  have "byte_at c' (unat (seg_offset t) + i) = byte_at c (unat (seg_offset t) + i)" if "i < k" for i
    unfolding c byte_at_pwrite using that apart k le len False by (auto simp: seg_apart_def)
  with False \<open>mem' = mem\<close> moved show ?thesis by (auto simp: seg_moved_def c length_pwrite)
qed

section \<open>What is kept\<close>

definition seg_covers :: "IoSegment \<Rightarrow> nat \<Rightarrow> bool" where
  "seg_covers s i \<longleftrightarrow> unat (seg_offset s) \<le> i \<and> i < unat (seg_offset s) + seg_len s"

definition run_kept :: "bool \<Rightarrow> IoSegment list \<Rightarrow> File \<Rightarrow> bytes list \<Rightarrow> File \<Rightarrow> bytes list \<Rightarrow> bool" where
  "run_kept is_read S f0 mem0 f mem \<longleftrightarrow> map length mem = map length mem0 \<and>
     (if is_read then f = f0
      else mem = mem0 \<and> f_durable f = f_durable f0 \<and> f_limit f = f_limit f0 \<and> length (f_content f0) \<le> length (f_content f) \<and>
        (\<forall>n \<ge> length (f_content f0). (\<forall>s \<in> set S. unat (seg_offset s) + seg_len s \<le> n) \<longrightarrow> length (f_content f) \<le> n) \<and>
        (\<forall>i. (\<forall>s \<in> set S. \<not> seg_covers s i) \<longrightarrow> byte_at (f_content f) i = byte_at (f_content f0) i))"

lemma map_length_nth: "map length xs = map length ys \<Longrightarrow> length xs = length ys \<and> (\<forall>i < length ys. length (xs ! i) = length (ys ! i))"
  by (metis length_map nth_map)

lemma map_length_update: "length x = length (xs ! i) \<Longrightarrow> map length (xs[i := x]) = map length xs"
  by (cases "i < length xs") (auto simp: map_update list_update_same_conv list_update_beyond)

lemma run_kept_fits: "run_kept is_read S f0 mem0 f mem \<Longrightarrow> seg_fits mem s = seg_fits mem0 s"
  unfolding run_kept_def seg_fits_def by (metis map_length_nth)

lemma seg_step_kept:
  assumes step: "seg_step is_read s p n (f_content f) mem c' mem'" and fits: "seg_fits mem s" and s: "s \<in> set S"
    and kept: "run_kept is_read S f0 mem0 f mem"
  shows "run_kept is_read S f0 mem0 (f\<lparr>f_content := c'\<rparr>) mem'"
proof (cases is_read)
  case True
  then have "map length mem' = map length mem"
    using step fits by (auto simp: seg_step_def seg_fits_def intro!: map_length_update)
  with True kept step show ?thesis by (simp add: run_kept_def seg_step_def)
next
  case False
  let ?bs = "slice_of (seg_at s + p) n (mem ! seg_buf s)"
  have m: "mem' = mem" and c: "c' = pwrite (f_content f) (unat (seg_offset s) + p) ?bs" and le: "p + n \<le> seg_len s"
    using step False by (simp_all add: seg_step_def)
  have len: "length ?bs = n" using fits le by (simp add: seg_slice_len del: length_take)
  have "unat (seg_offset s) + p + n \<le> k" if "\<forall>s \<in> set S. unat (seg_offset s) + seg_len s \<le> k" for k
    using that s le by fastforce
  moreover have "length (f_content f) \<le> k" if "length (f_content f0) \<le> k" "\<forall>s \<in> set S. unat (seg_offset s) + seg_len s \<le> k" for k
    using kept False that by (simp add: run_kept_def)
  moreover have "length c' = (if n = 0 then length (f_content f) else max (length (f_content f)) (unat (seg_offset s) + p + n))"
    using len by (auto simp: c length_pwrite)
  ultimately have "\<forall>k \<ge> length (f_content f0). (\<forall>s \<in> set S. unat (seg_offset s) + seg_len s \<le> k) \<longrightarrow> length c' \<le> k"
    "length (f_content f) \<le> length c'" by simp_all
  moreover have "byte_at c' i = byte_at (f_content f) i" if "\<forall>s \<in> set S. \<not> seg_covers s i" for i
    using that s le len unfolding c byte_at_pwrite seg_covers_def by fastforce
  ultimately show ?thesis using kept False m unfolding run_kept_def by (auto intro: order_trans)
qed

section \<open>One operation\<close>

abbreviation seg_done :: "IoSegment \<Rightarrow> IoSegment \<Rightarrow> nat" where
  "seg_done s0 s \<equiv> seg_at s - seg_at s0"

lemma seg_within_place:
  assumes "seg_within s0 s" and "seg_fits mem s0"
  shows "seg_buf s = seg_buf s0" "seg_at s = seg_at s0 + seg_done s0 s" "seg_len s = seg_len s0 - seg_done s0 s"
    "seg_done s0 s + seg_len s = seg_len s0" "unat (seg_offset s) = unat (seg_offset s0) + seg_done s0 s" "unat (of_nat (seg_len s) :: u32) = seg_len s"
proof -
  show *: "seg_buf s = seg_buf s0" "seg_at s = seg_at s0 + seg_done s0 s" "seg_len s = seg_len s0 - seg_done s0 s"
    "seg_done s0 s + seg_len s = seg_len s0" using assms(1) by (auto simp: seg_within_def)
  have "0 < seg_len s" "seg_offset s = seg_offset s0 + of_nat (seg_done s0 s)" using assms(1) by (auto simp: seg_within_def)
  then show "unat (seg_offset s) = unat (seg_offset s0) + seg_done s0 s"
    using assms(2) *(4) by (metis seg_fits_def unat_off_done less_add_same_cancel1)
  show "unat (of_nat (seg_len s) :: u32) = seg_len s"
    using assms *(4) by (intro unat_of_nat_nowrap) (simp add: seg_fits_def)
qed

definition moved_by :: "bool \<Rightarrow> IoSegment \<Rightarrow> nat \<Rightarrow> int \<Rightarrow> File \<Rightarrow> bytes list \<Rightarrow> File \<Rightarrow> bytes list \<Rightarrow> bool" where
  "moved_by is_read s d r f mem f' mem' \<longleftrightarrow>
     (if r < 0 then f' = f \<and> mem' = mem
      else (\<exists>c'. f' = f\<lparr>f_content := c'\<rparr> \<and> seg_step is_read s d (nat r) (f_content f) mem c' mem') \<and>
        (is_read \<and> r = 0 \<longrightarrow> length (f_content f) \<le> unat (seg_offset s) + d))"

lemma done_moves:
  assumes t: "sqe_done (segment_entry is_read s u) r f mem f' mem'" and within: "seg_within s0 s" and fits: "seg_fits mem s0"
  shows "moved_by is_read s0 (seg_done s0 s) r f mem f' mem'"
proof (cases "r < 0")
  case True
  with t show ?thesis by (simp add: sqe_done_def moved_by_def)
next
  case False
  note P = seg_within_place [OF within fits]
  let ?d = "seg_done s0 s" and ?n = "nat r"
  have n: "?n \<le> seg_len s" using t False P(6) by (simp add: sqe_done_def segment_entry_def)
  then have le: "?d + ?n \<le> seg_len s0" using P(4) by linarith
  have pos: "0 < seg_len s" using within by (simp add: seg_within_def)
  show ?thesis
  proof (cases is_read)
    case True
    have D: "f' = f" "?n \<le> length (f_content f) - unat (seg_offset s)" "r = 0 \<longrightarrow> length (f_content f) \<le> unat (seg_offset s)"
      "mem' = mem[seg_buf s := put_slice (seg_at s) (slice_of (unat (seg_offset s)) ?n (f_content f)) (mem ! seg_buf s)]"
      using t False True P(6) pos by (simp_all add: sqe_done_def segment_entry_def)
    have "slice_of (unat (seg_offset s)) ?n (f_content f) = read_zeros (f_content f) (unat (seg_offset s)) ?n"
      using D(2) by (rule take_drop_read_zeros)
    then have "seg_step is_read s0 ?d ?n (f_content f) mem (f_content f) mem'"
      unfolding seg_step_def D(4) using True le by (simp add: P(1) P(5) flip: P(2))
    with False D(1,3) P(5) show ?thesis unfolding moved_by_def by (auto intro!: exI [of _ "f_content f"])
  next
    case wr: False
    have D: "mem' = mem" "f' = f\<lparr>f_content := pwrite (f_content f) (unat (seg_offset s)) (slice_of (seg_at s) ?n (mem ! seg_buf s))\<rparr>"
      using t False wr by (simp_all add: sqe_done_def segment_entry_def)
    have "seg_step is_read s0 ?d ?n (f_content f) mem (f_content f') mem'"
      unfolding seg_step_def D using wr le by (simp add: P(1) P(5) flip: P(2))
    with False wr D(2) show ?thesis unfolding moved_by_def by (auto intro!: exI [of _ "f_content f'"])
  qed
qed

section \<open>Every segment\<close>

definition segs_ok :: "bool \<Rightarrow> bytes list \<Rightarrow> IoSegment list \<Rightarrow> bool" where
  "segs_ok is_read mem S \<longleftrightarrow> (\<forall>s \<in> set S. seg_fits mem s) \<and>
     (\<forall>j < length S. \<forall>k < length S. j \<noteq> k \<longrightarrow> seg_apart is_read (S ! j) (S ! k))"

text \<open>
  The segments as they are now, those that are done, the results not looked at yet, the file and the
  buffers.
\<close>

definition data_ok :: "bool \<Rightarrow> IoSegment list \<Rightarrow> File \<Rightarrow> bytes list \<Rightarrow> IoSegment list \<Rightarrow> nat set \<Rightarrow> (nat \<times> int) list \<Rightarrow>
    File \<Rightarrow> bytes list \<Rightarrow> bool" where
  "data_ok is_read S f0 mem0 segs dn res f mem \<longleftrightarrow> run_kept is_read S f0 mem0 f mem \<and>
     (\<forall>j < length S. seg_moved is_read (S ! j) (seg_done (S ! j) (segs ! j)) (f_content f) mem) \<and>
     (\<forall>(u, r) \<in> set res. 0 \<le> r \<longrightarrow> seg_moved is_read (S ! u) (seg_done (S ! u) (segs ! u) + nat r) (f_content f) mem \<and>
       (is_read \<and> r = 0 \<longrightarrow> length (f_content f) \<le> unat (seg_offset (S ! u)) + seg_done (S ! u) (segs ! u))) \<and>
     (\<forall>j \<in> dn. seg_moved is_read (S ! j) (seg_len (S ! j)) (f_content f) mem)"

lemma data_okD:
  assumes "data_ok is_read S f0 mem0 segs dn res f mem"
  shows "run_kept is_read S f0 mem0 f mem" "j < length S \<Longrightarrow> seg_moved is_read (S ! j) (seg_done (S ! j) (segs ! j)) (f_content f) mem"
    "(u, r) \<in> set res \<Longrightarrow> 0 \<le> r \<Longrightarrow> seg_moved is_read (S ! u) (seg_done (S ! u) (segs ! u) + nat r) (f_content f) mem"
    "(u, 0) \<in> set res \<Longrightarrow> is_read \<Longrightarrow> length (f_content f) \<le> unat (seg_offset (S ! u)) + seg_done (S ! u) (segs ! u)"
    "j \<in> dn \<Longrightarrow> seg_moved is_read (S ! j) (seg_len (S ! j)) (f_content f) mem"
  using assms by (auto simp: data_ok_def)

lemma data_ok_mono: "data_ok is_read S f0 mem0 segs dn res f mem \<Longrightarrow> dn' \<subseteq> dn \<Longrightarrow> set res' \<subseteq> set res \<Longrightarrow>
    data_ok is_read S f0 mem0 segs dn' res' f mem"
  unfolding data_ok_def by blast

text \<open>The results belong to segments that are not done, one each.\<close>

definition res_ok :: "IoSegment list \<Rightarrow> IoSegment list \<Rightarrow> nat set \<Rightarrow> nat list \<Rightarrow> (nat \<times> int) list \<Rightarrow> bool" where
  "res_ok S segs dn us res \<longleftrightarrow> (\<forall>j < length S. seg_within (S ! j) (segs ! j)) \<and> dn \<subseteq> {..<length S} \<and> distinct (map fst res @ us) \<and>
     (\<forall>u \<in> set (map fst res @ us). u < length S \<and> u \<notin> dn) \<and> (\<forall>(u, r) \<in> set res. nat r \<le> seg_len (segs ! u))"

lemma data_ok_step:
  assumes data: "data_ok is_read S f0 mem0 segs dn res f mem" and segs: "segs_ok is_read mem0 S" and res: "res_ok S segs dn us res"
    and u: "u \<in> set us" and step: "seg_step is_read (S ! u) (seg_done (S ! u) (segs ! u)) n (f_content f) mem c' mem'"
  shows "data_ok is_read S f0 mem0 segs dn res (f\<lparr>f_content := c'\<rparr>) mem'"
    "seg_moved is_read (S ! u) (seg_done (S ! u) (segs ! u) + n) c' mem'"
proof -
  note D = data_okD [OF data]
  have u': "u < length S" "u \<notin> dn" "u \<notin> fst ` set res" using res u by (auto simp: res_ok_def)
  have fits: "seg_fits mem (S ! j)" if "j < length S" for j
    using segs that D(1) run_kept_fits by (simp add: segs_ok_def)
  have keeps: "seg_moved is_read (S ! j) k c' mem'" if "seg_moved is_read (S ! j) k (f_content f) mem" "j < length S" "k \<le> seg_len (S ! j)" "j \<noteq> u" for j k
    by (rule seg_step_keeps [OF step that(1) fits [OF u'(1)] fits [OF that(2)] that(3)]) (use segs that u'(1) in \<open>simp add: segs_ok_def\<close>)
  show moved: "seg_moved is_read (S ! u) (seg_done (S ! u) (segs ! u) + n) c' mem'"
    by (rule seg_step_moves [OF step D(2) [OF u'(1)] fits [OF u'(1)]])
  have here: "seg_moved is_read (S ! u) (seg_done (S ! u) (segs ! u)) c' mem'"
    by (rule seg_step_keeps [OF step D(2) [OF u'(1)] fits [OF u'(1)] fits [OF u'(1)]]) (use step in \<open>auto simp: seg_step_def\<close>)
  have parts: "seg_done (S ! j) (segs ! j) + seg_len (segs ! j) = seg_len (S ! j)" if "j < length S" for j
    using res that by (auto simp: res_ok_def seg_within_def)
  have "seg_moved is_read (S ! j) (seg_done (S ! j) (segs ! j)) c' mem'" if "j < length S" for j
    using keeps [OF D(2) [OF that] that] here parts [OF that] by (cases "j = u") auto
  moreover have "seg_moved is_read (S ! v) (seg_done (S ! v) (segs ! v) + nat r) c' mem'" if "(v, r) \<in> set res" "0 \<le> r" for v r
  proof -
    have "v \<in> fst ` set res" using that(1) by force
    then have v: "v < length S" "nat r \<le> seg_len (segs ! v)" "v \<noteq> u" using res that(1) u'(3) by (auto simp: res_ok_def)
    show ?thesis by (rule keeps [OF D(3) [OF that] v(1) _ v(3)]) (use v(2) parts [OF v(1)] in linarith)
  qed
  moreover have "seg_moved is_read (S ! j) (seg_len (S ! j)) c' mem'" if "j \<in> dn" for j
  proof -
    have "j < length S" "j \<noteq> u" using res that u'(2) by (auto simp: res_ok_def)
    then show ?thesis using keeps [OF D(5) [OF that]] by simp
  qed
  moreover have "run_kept is_read S f0 mem0 (f\<lparr>f_content := c'\<rparr>) mem'"
    using u'(1) by (intro seg_step_kept [OF step fits [OF u'(1)] _ D(1)]) simp
  moreover have "is_read \<longrightarrow> c' = f_content f" using step by (simp add: seg_step_def)
  ultimately show "data_ok is_read S f0 mem0 segs dn res (f\<lparr>f_content := c'\<rparr>) mem'"
    using D(4) by (auto simp: data_ok_def)
qed

lemma data_ok_transfer:
  assumes data: "data_ok is_read S f0 mem0 segs dn res f mem" and segs: "segs_ok is_read mem0 S" and res: "res_ok S segs dn us res"
    and u: "u \<in> set us" and moved: "moved_by is_read (S ! u) (seg_done (S ! u) (segs ! u)) r f mem f' mem'"
  shows "data_ok is_read S f0 mem0 segs dn (res @ [(u, r)]) f' mem'"
proof (cases "r < 0")
  case True
  with moved data show ?thesis by (auto simp: moved_by_def data_ok_def)
next
  case False
  then obtain c' where f': "f' = f\<lparr>f_content := c'\<rparr>"
      and step: "seg_step is_read (S ! u) (seg_done (S ! u) (segs ! u)) (nat r) (f_content f) mem c' mem'"
      and eof: "is_read \<and> r = 0 \<longrightarrow> length (f_content f) \<le> unat (seg_offset (S ! u)) + seg_done (S ! u) (segs ! u)"
    using moved by (auto simp: moved_by_def)
  have "is_read \<longrightarrow> c' = f_content f" using step by (simp add: seg_step_def)
  with data_ok_step [OF data segs res u step] eof f' show ?thesis by (auto simp: data_ok_def)
qed

section \<open>Waiting\<close>

lemma res_ok_complete:
  assumes res: "res_ok S segs dn (map sqe_user es) res" and n: "n < length es" and r: "nat r \<le> seg_len (segs ! sqe_user (es ! n))"
  shows "res_ok S segs dn (map sqe_user (take n es @ drop (Suc n) es)) (res @ [(sqe_user (es ! n), r)])"
proof -
  have m: "mset (map fst (res @ [(sqe_user (es ! n), r)]) @ map sqe_user (take n es @ drop (Suc n) es)) = mset (map fst res @ map sqe_user es)"
    using arg_cong [OF mset_remove_nth [OF n], of "image_mset sqe_user"] by simp
  then have "distinct (map fst (res @ [(sqe_user (es ! n), r)]) @ map sqe_user (take n es @ drop (Suc n) es))"
    using res unfolding res_ok_def by (metis mset_eq_imp_distinct_iff)
  moreover have "set (map fst (res @ [(sqe_user (es ! n), r)]) @ map sqe_user (take n es @ drop (Suc n) es)) = set (map fst res @ map sqe_user es)"
    using m by (metis set_mset_mset)
  ultimately show ?thesis using res r unfolding res_ok_def by auto
qed

lemma completes_data:
  assumes "completes es f mem cs es' f' mem'" and "data_ok is_read S f0 mem0 segs dn [] f mem" and segs: "segs_ok is_read mem0 S"
    and "res_ok S segs dn (map sqe_user es) []" and entries: "\<forall>e \<in> set es. e = segment_entry is_read (segs ! sqe_user e) (sqe_user e)"
  shows "data_ok is_read S f0 mem0 segs dn cs f' mem' \<and> res_ok S segs dn (map sqe_user es') cs"
  using assms(1)
proof (induction rule: completes.induct)
  case completes_none
  then show ?case using assms(2,4) by simp
next
  case (completes_more cs es1 f1 mem1 n r f2 mem2)
  let ?u = "sqe_user (es1 ! n)"
  have data: "data_ok is_read S f0 mem0 segs dn cs f1 mem1" and res: "res_ok S segs dn (map sqe_user es1) cs" using completes_more.IH by simp_all
  have in_es: "es1 ! n \<in> set es" using completes_users [OF completes_more.hyps(1)] completes_more.hyps(2) by auto
  then have e: "es1 ! n = segment_entry is_read (segs ! ?u) ?u" using entries by simp
  have u: "?u < length S" "seg_within (S ! ?u) (segs ! ?u)" "?u \<in> set (map sqe_user es1)"
    using res completes_more.hyps(2) by (auto simp: res_ok_def)
  have fits: "seg_fits mem1 (S ! ?u)"
    using segs u(1) data_okD(1) [OF data] run_kept_fits by (simp add: segs_ok_def)
  have d: "sqe_done (segment_entry is_read (segs ! ?u) ?u) r f1 mem1 f2 mem2" using completes_more.hyps(3) by (subst e [symmetric])
  have "sqe_len (es1 ! n) = of_nat (seg_len (segs ! ?u))" by (subst e) (simp add: segment_entry_def)
  then have "nat r \<le> seg_len (segs ! ?u)"
    using completes_more.hyps(3) seg_within_place(6) [OF u(2) fits] by (auto simp: sqe_done_def split: if_splits)
  from res_ok_complete [OF res completes_more.hyps(2) this] data_ok_transfer [OF data segs res u(3) done_moves [OF d u(2) fits]]
  show ?case by simp
qed

section \<open>The invariant of the loop\<close>

definition run_dn :: "(nat \<times> int) list \<Rightarrow> 'k Run \<Rightarrow> nat set" where
  "run_dn cs st = (if rn_error st = None then {j. j < rn_next st \<and> j \<notin> set (under_way cs (rn_ring st))} else {})"

definition run_data :: "bool \<Rightarrow> IoSegment list \<Rightarrow> File \<Rightarrow> bytes list \<Rightarrow> (nat \<times> int) list \<Rightarrow> 'k Run \<Rightarrow> bool" where
  "run_data is_read S f0 mem0 cs st \<longleftrightarrow>
     data_ok is_read S f0 mem0 (rn_segments st) (run_dn cs st) cs (rn_file st) (rn_mem st)"

lemma run_ok_res:
  assumes "run_ok is_read depth S cs st"
  shows "res_ok S (rn_segments st) (run_dn cs st) (map sqe_user (ring_flight (rn_ring st) @ ring_sq (rn_ring st))) cs"
    "cs = (u, result) # cs' \<Longrightarrow> res_ok S (rn_segments st) (run_dn cs st) [u] cs'"
proof -
  note D = run_okD [OF assms]
  have "v < length S" if "v \<in> set (under_way cs (rn_ring st))" for v using D(2) D(6) [OF that] by simp
  then show "res_ok S (rn_segments st) (run_dn cs st) (map sqe_user (ring_flight (rn_ring st) @ ring_sq (rn_ring st))) cs"
    "cs = (u, result) # cs' \<Longrightarrow> res_ok S (rn_segments st) (run_dn cs st) [u] cs'"
    using D(2,3,5,11) by (auto simp: res_ok_def run_dn_def under_way_def results_ok_def)
qed

lemma run_data_fill:
  assumes "run_data is_read S f0 mem0 [] st" and f: "filled is_read depth S st st'"
  shows "run_data is_read S f0 mem0 [] st'"
proof -
  have "rn_error st' = rn_error st" "set (under_way [] (rn_ring st)) \<subseteq> set (under_way [] (rn_ring st'))"
    "\<And>j. rn_next st \<le> j \<Longrightarrow> j < rn_next st' \<Longrightarrow> j \<in> set (under_way [] (rn_ring st'))" using f by (auto simp: filled_def)
  then have "run_dn [] st' \<subseteq> run_dn [] st" unfolding run_dn_def using not_le by auto
  with assms(1) f show ?thesis by (auto simp: run_data_def filled_def intro: data_ok_mono)
qed

lemma run_data_wait:
  assumes ok: "run_ok is_read depth S [] st" and data: "run_data is_read S f0 mem0 [] st" and segs: "segs_ok is_read mem0 S"
    and c: "completes (ring_all st) (rn_file st) (rn_mem st) cs es f mem" and w: "waited is_read depth S st cs (run_entered st [] es k f mem)"
  shows "run_data is_read S f0 mem0 cs (run_entered st [] es k f mem)"
proof -
  have "run_dn cs (run_entered st [] es k f mem) = run_dn [] st" using w by (simp add: waited_def run_dn_def)
  moreover have "data_ok is_read S f0 mem0 (rn_segments st) (run_dn [] st) cs f mem"
    using completes_data [OF c _ segs run_ok_res(1) [OF ok]] data run_okD(10) [OF ok] by (simp add: run_data_def ring_ok_def)
  ultimately show ?thesis by (simp add: run_data_def)
qed

lemma run_data_completion:
  assumes ok: "run_ok is_read depth S ((u, result) # cs) st" and data: "run_data is_read S f0 mem0 ((u, result) # cs) st"
    and segs: "segs_ok is_read mem0 S" and c: "run_completion is_read u result st = (Inr (), st')"
  shows "run_data is_read S f0 mem0 cs st'"
proof -
  let ?segs = "rn_segments st" and ?s = "rn_segments st ! u" and ?dn = "run_dn ((u, result) # cs) st"
  let ?f = "rn_file st" and ?mem = "rn_mem st"
  note D = run_okD [OF ok, unfolded under_way_Cons]
  have u: "u < rn_next st" "u < length S" using D(2) D(6) [of u] by auto
  have within: "seg_within (S ! u) ?s" using D(3) [OF u(2)] .
  then have len: "seg_done (S ! u) ?s + seg_len ?s = seg_len (S ! u)" by (auto simp: seg_within_def)
  have all: "data_ok is_read S f0 mem0 ?segs ?dn ((u, result) # cs) ?f ?mem" using data by (simp add: run_data_def)
  then have rest: "data_ok is_read S f0 mem0 ?segs ?dn cs ?f ?mem" by (rule data_ok_mono) auto
  have moved: "seg_moved is_read (S ! u) (seg_done (S ! u) ?s + nat result) (f_content ?f) ?mem" if "0 \<le> result"
    using data_okD(3) [OF all, of u result] that by simp
  note step = data_ok_step [OF rest segs run_ok_res(2) [OF ok refl], of u]
  have leave: "run_data is_read S f0 mem0 cs st1"
    if "rn_ring st1 = rn_ring st" "rn_segments st1 = ?segs" "rn_next st1 = rn_next st" "rn_error st1 = rn_error st"
      and "data_ok is_read S f0 mem0 ?segs ?dn cs (rn_file st1) (rn_mem st1)"
      and "rn_error st = None \<Longrightarrow> seg_moved is_read (S ! u) (seg_len (S ! u)) (f_content (rn_file st1)) (rn_mem st1)" for st1
  proof -
    have "run_dn cs st1 \<subseteq> (if rn_error st = None then insert u ?dn else ?dn)"
      using that(1-4) by (auto simp: run_dn_def under_way_Cons)
    then have "data_ok is_read S f0 mem0 ?segs (run_dn cs st1) cs (rn_file st1) (rn_mem st1)"
      using that(5,6) by (auto simp: data_ok_def split: if_splits)
    then show ?thesis using that(1,2,4) by (simp add: run_data_def)
  qed
  show ?thesis
  proof (cases rule: run_completion_cases [OF ok, case_names 1 2 3 4 5])
    case (1 e)
    then have "st' = st\<lparr>rn_pending := rn_pending st - 1, rn_error := Some e\<rparr>" using c by simp
    then show ?thesis using rest by (auto simp: run_data_def run_dn_def intro: data_ok_mono)
  next
    case 2
    then have "st' = run_count is_read (nat result) (st\<lparr>rn_pending := rn_pending st - 1\<rparr>)" using c by simp
    then show ?thesis by (intro leave) (use rest moved 2 len in \<open>simp_all add: run_count_def Let_def\<close>)
  next
    case 3
    let ?mem' = "?mem[seg_buf ?s := put_slice (seg_at ?s) (replicate (seg_len ?s) 0) (?mem ! seg_buf ?s)]"
    have st': "st' = run_count is_read (nat result) (st\<lparr>rn_pending := rn_pending st - 1\<rparr>)\<lparr>rn_mem := ?mem'\<rparr>" using c 3 by simp
    have "length (f_content ?f) \<le> unat (seg_offset (S ! u)) + seg_done (S ! u) ?s"
      using data_okD(4) [OF all, of u] 3 by simp
    moreover have "seg_buf ?s = seg_buf (S ! u)" "seg_at (S ! u) + seg_done (S ! u) ?s = seg_at ?s" using within by (auto simp: seg_within_def)
    ultimately have zeros: "seg_step is_read (S ! u) (seg_done (S ! u) ?s) (seg_len ?s) (f_content ?f) ?mem (f_content ?f) ?mem'"
      using 3 len by (simp add: seg_step_def read_zeros_eof)
    show ?thesis unfolding st'
      by (intro leave) (use step [OF _ zeros] len in \<open>simp_all add: run_count_def Let_def\<close>)
  next
    case 4
    then have "st' = run_count is_read (nat result) (st\<lparr>rn_pending := rn_pending st - 1\<rparr>)\<lparr>rn_error := Some (Io WriteZero)\<rparr>" using c by simp
    then show ?thesis using rest by (auto simp: run_data_def run_dn_def run_count_def Let_def intro: data_ok_mono)
  next
    case 5
    let ?s' = "seg_advance ?s (nat result)"
    have st': "rn_segments st' = ?segs[u := ?s']" "rn_file st' = ?f" "rn_mem st' = ?mem" "rn_error st' = rn_error st" "rn_next st' = rn_next st"
      "under_way cs (rn_ring st') = under_way cs (rn_ring st) @ [u]"
      using c 5 by (auto simp: run_count_def Let_def under_way_def)
    have adv: "seg_done (S ! u) ?s' = seg_done (S ! u) ?s + nat result" using within by (auto simp: seg_advance_def seg_within_def)
    have others: "?segs[u := ?s'] ! v = ?segs ! v" if "(v, r) \<in> set cs" for v r
    proof -
      have "v \<in> set (under_way cs (rn_ring st))" using that by (force simp: under_way_def)
      with D(5) show ?thesis by (metis distinct.simps(2) nth_list_update_neq)
    qed
    have "run_dn cs st' = ?dn" using st' by (auto simp: run_dn_def under_way_Cons)
    moreover have "data_ok is_read S f0 mem0 (?segs[u := ?s']) ?dn cs ?f ?mem"
      unfolding data_ok_def
    proof (intro conjI allI impI ballI)
      fix j assume "j < length S"
      then show "seg_moved is_read (S ! j) (seg_done (S ! j) (?segs[u := ?s'] ! j)) (f_content ?f) ?mem"
        using data_okD(2) [OF rest] moved adv 5 D(1) u by (cases "j = u") auto
    next
      fix x assume "x \<in> set cs"
      then show "case x of (v, r) \<Rightarrow> 0 \<le> r \<longrightarrow> seg_moved is_read (S ! v) (seg_done (S ! v) (?segs[u := ?s'] ! v) + nat r) (f_content ?f) ?mem \<and>
          (is_read \<and> r = 0 \<longrightarrow> length (f_content ?f) \<le> unat (seg_offset (S ! v)) + seg_done (S ! v) (?segs[u := ?s'] ! v))"
        using rest others unfolding data_ok_def by fastforce
    qed (use rest in \<open>simp_all add: data_ok_def\<close>)
    ultimately show ?thesis using st' by (simp add: run_data_def)
  qed
qed

end
