(* ===== verification/Uring_Calm.thy ===== *)
theory Uring_Calm
  imports Uring_Data
begin

text \<open>
  The loop of \<open>src/src/io/uring.rs\<close> on a calm kernel, which interrupts calls but does not fail: every request
  is served, without an error and without an abort.
\<close>

definition results_fine :: "bool \<Rightarrow> (nat \<times> int) list \<Rightarrow> bool" where
  "results_fine is_read cs \<longleftrightarrow> (\<forall>(u, r) \<in> set cs. 0 \<le> r \<and> (is_read \<or> 0 < r))"

definition segs_inside :: "bytes list \<Rightarrow> IoSegment list \<Rightarrow> bool" where
  "segs_inside mem S \<longleftrightarrow> (\<forall>s \<in> set S. seg_buf s < length mem \<and> seg_at s + seg_len s \<le> length (mem ! seg_buf s) \<and> 0 < seg_len s \<and> seg_len s < 2 ^ 32)"

lemma sqe_inside_cong: "map length mem' = map length mem \<Longrightarrow> sqe_inside mem' e = sqe_inside mem e"
  using map_length_nth [of mem' mem] by (auto simp: sqe_inside_def)

text \<open>What is in flight lies inside its buffer, and stays there.\<close>

lemma completes_lengths:
  "completes es f mem cs es' f' mem' \<Longrightarrow> \<forall>e \<in> set es. sqe_inside mem e \<Longrightarrow> map length mem' = map length mem"
proof (induction rule: completes.induct)
  case (completes_more cs es1 f1 mem1 n r f2 mem2)
  have lens: "map length mem1 = map length mem" using completes_more.IH completes_more.prems by simp
  have "es1 ! n \<in> set es" using completes_users [OF completes_more.hyps(1)] completes_more.hyps(2) by auto
  then have inside: "sqe_inside mem1 (es1 ! n)" using completes_more.prems sqe_inside_cong [OF lens] by simp
  have "map length mem2 = map length mem1"
  proof (cases "r < 0 \<or> \<not> sqe_read (es1 ! n)")
    case True
    with completes_more.hyps(3) show ?thesis by (auto simp: sqe_done_def split: if_splits)
  next
    case False
    let ?e = "es1 ! n"
    let ?got = "slice_of (unat (sqe_off ?e)) (nat r) (f_content f1)"
    have "mem2 = mem1[sqe_buf ?e := put_slice (sqe_at ?e) ?got (mem1 ! sqe_buf ?e)]" "nat r \<le> unat (sqe_len ?e)"
      using False completes_more.hyps(3) by (simp_all add: sqe_done_def)
    moreover have "length ?got \<le> nat r" by simp
    ultimately show ?thesis using inside by (auto simp: sqe_inside_def intro!: map_length_update length_put_slice)
  qed
  with lens show ?case by simp
qed simp

lemma run_ok_inside:
  assumes ok: "run_ok is_read depth S cs st" and inside: "segs_inside mem S" and e: "e \<in> set (ring_all st)"
  shows "sqe_inside mem e" "sqe_read e = is_read"
proof -
  note D = run_okD [OF ok]
  let ?s = "rn_segments st ! sqe_user e"
  have "sqe_user e < rn_next st" using e by (intro D(6)) (auto simp: under_way_def)
  then have u: "sqe_user e < length S" using D(2) by simp
  have "e = segment_entry is_read ?s (sqe_user e)" using D(10) e by (simp add: ring_ok_def)
  then have fields: "sqe_read e = is_read" "sqe_buf e = seg_buf ?s" "sqe_at e = seg_at ?s" "sqe_len e = of_nat (seg_len ?s)"
    unfolding segment_entry_def by (metis Sqe.select_convs)+
  have w: "seg_within (S ! sqe_user e) ?s" using D(3) [OF u] .
  have i: "seg_buf (S ! sqe_user e) < length mem" "seg_at (S ! sqe_user e) + seg_len (S ! sqe_user e) \<le> length (mem ! seg_buf (S ! sqe_user e))"
    "seg_len (S ! sqe_user e) < 2 ^ 32" using inside u by (auto simp: segs_inside_def)
  have "unat (sqe_len e) = seg_len ?s"
    unfolding fields using seg_within_len [OF w] i(3) by (intro unat_of_nat_nowrap) simp
  then show "sqe_inside mem e" "sqe_read e = is_read" using w i(1,2) by (auto simp: sqe_inside_def fields seg_within_def)
qed

context uring_kernel
begin

definition run_calm :: "bool \<Rightarrow> bytes list \<Rightarrow> (nat \<times> int) list \<Rightarrow> 'k Run \<Rightarrow> bool" where
  "run_calm is_read mem0 cs st \<longleftrightarrow> map length (rn_mem st) = map length mem0 \<and> calm (ring_kernel (rn_ring st)) \<and>
     rn_error st = None \<and> results_fine is_read cs"

lemma run_calm_wait:
  assumes ok: "run_ok is_read depth S [] st" and rc: "run_calm is_read mem0 [] st" and inside: "segs_inside mem0 S"
    and e: "enter k (ring_all st) (rn_file st) (rn_mem st) = (Inr (cs, es), k', f, mem)" and calm: "calm k"
  shows "run_calm is_read mem0 cs (run_entered st [] es k' f mem)"
proof -
  have lens: "map length (rn_mem st) = map length mem0" using rc by (simp add: run_calm_def)
  have all: "sqe_inside (rn_mem st) e" "sqe_read e = is_read" if "e \<in> set (ring_all st)" for e
    using run_ok_inside [OF ok inside that] sqe_inside_cong [OF lens] by simp_all
  have "map length mem = map length (rn_mem st)"
    using completes_lengths [of "ring_all st"] enter_returns [OF e] all by blast
  moreover have "results_fine is_read cs" using calm_returns [OF calm e] all by (cases is_read) (auto simp: results_fine_def)
  ultimately show ?thesis using rc lens calm_returns [OF calm e] by (simp add: run_calm_def)
qed

lemma run_calm_completion:
  assumes ok: "run_ok is_read depth S ((u, result) # cs) st" and rc: "run_calm is_read mem0 ((u, result) # cs) st"
    and inside: "segs_inside mem0 S" and c: "run_completion is_read u result st = (Inr (), st')"
  shows "run_calm is_read mem0 cs st'"
proof -
  note D = run_okD [OF ok, unfolded under_way_Cons]
  have fine: "0 \<le> result" "is_read \<or> 0 < result" "results_fine is_read cs" using rc by (auto simp: run_calm_def results_fine_def)
  have lens: "map length (rn_mem st) = map length mem0" using rc by (simp add: run_calm_def)
  show ?thesis
  proof (cases rule: run_completion_cases [OF ok, case_names 1 2 3 4 5])
    case 3
    let ?s = "rn_segments st ! u" and ?mem = "rn_mem st"
    have u: "u < length S" using D(2) D(6) [of u] by simp
    have w: "seg_within (S ! u) ?s" using D(3) [OF u] .
    have "seg_buf (S ! u) < length mem0" "seg_at (S ! u) + seg_len (S ! u) \<le> length (mem0 ! seg_buf (S ! u))"
      using inside u by (auto simp: segs_inside_def)
    then have "seg_at ?s + seg_len ?s \<le> length (?mem ! seg_buf ?s)"
      using w map_length_nth [OF lens] by (auto simp: seg_within_def)
    then have "map length (?mem[seg_buf ?s := put_slice (seg_at ?s) (replicate (seg_len ?s) 0) (?mem ! seg_buf ?s)]) = map length mem0"
      unfolding lens [symmetric] by (intro map_length_update length_put_slice) simp
    moreover have "rn_mem st' = ?mem[seg_buf ?s := put_slice (seg_at ?s) (replicate (seg_len ?s) 0) (?mem ! seg_buf ?s)]"
      "ring_kernel (rn_ring st') = ring_kernel (rn_ring st)" "rn_error st' = rn_error st"
      using 3 c by (auto simp: run_count_def Let_def)
    ultimately show ?thesis using rc fine(3) by (simp add: run_calm_def)
  qed (use c fine rc in \<open>auto simp: run_calm_def run_count_def Let_def\<close>)
qed

end

end
