(* ===== verification/Uring_Split.thy ===== *)
theory Uring_Split
  imports Uring_Calm
begin

text \<open>
  \<open>split\<close> of \<open>src/src/io/uring.rs\<close>: it returns, its segments follow each other and cover each request, none
  is longer than the chunk; for requests that do not overlap neither do the segments. What the
  segments of a vector transfer is what the vector asks for.
\<close>

section \<open>One request\<close>

text \<open>Segments that follow each other from place \<open>d\<close> on to the end of a buffer of \<open>n\<close> bytes.\<close>

fun tiled :: "nat \<Rightarrow> u64 \<Rightarrow> nat \<Rightarrow> nat \<Rightarrow> nat \<Rightarrow> IoSegment list \<Rightarrow> bool" where
  "tiled chunk off buf n d [] \<longleftrightarrow> d = n"
| "tiled chunk off buf n d (s # ss) \<longleftrightarrow> seg_buf s = buf \<and> seg_at s = d \<and> seg_offset s = off + of_nat d \<and> 0 < seg_len s \<and> seg_len s \<le> chunk \<and>
     d + seg_len s \<le> n \<and> tiled chunk off buf n (d + seg_len s) ss"

lemma UringIo_split_tiled:
  assumes "0 < chunk" and "d \<le> n"
  shows "\<exists>ss. UringIo_split chunk off buf n d segs = Some (segs @ ss) \<and> tiled chunk off buf n d ss"
  using assms(2)
proof (induction "n - d" arbitrary: d segs rule: less_induct)
  case less
  show ?case
  proof (cases "d < n")
    case False
    with less.prems show ?thesis by (intro exI [of _ "[]"]) (simp add: UringIo_split.simps)
  next
    case True
    let ?k = "min (n - d) chunk"
    let ?s = "\<lparr>seg_offset = off + of_nat d, seg_buf = buf, seg_at = d, seg_len = ?k\<rparr>"
    have "\<exists>ss. UringIo_split chunk off buf n (d + ?k) (segs @ [?s]) = Some ((segs @ [?s]) @ ss) \<and> tiled chunk off buf n (d + ?k) ss"
      by (rule less.hyps) (use True assms(1) in \<open>auto simp: min_def\<close>)
    then obtain ss where "UringIo_split chunk off buf n (d + ?k) (segs @ [?s]) = Some ((segs @ [?s]) @ ss)" "tiled chunk off buf n (d + ?k) ss" by blast
    with True assms(1) show ?thesis
      by (intro exI [of _ "?s # ss"]) (simp add: UringIo_split.simps [of chunk off buf n d])
  qed
qed

definition seg_of :: "nat \<Rightarrow> u64 \<Rightarrow> nat \<Rightarrow> nat \<Rightarrow> IoSegment \<Rightarrow> bool" where
  "seg_of chunk off buf n s \<longleftrightarrow> seg_buf s = buf \<and> seg_offset s = off + of_nat (seg_at s) \<and> 0 < seg_len s \<and> seg_len s \<le> chunk \<and> seg_at s + seg_len s \<le> n"

lemma tiled_segs:
  "tiled chunk off buf n d ss \<Longrightarrow> d \<le> n \<and> (\<forall>s \<in> set ss. seg_of chunk off buf n s \<and> d \<le> seg_at s) \<and>
     sorted_wrt (\<lambda>s t. seg_at s + seg_len s \<le> seg_at t) ss \<and> (\<forall>i. d \<le> i \<and> i < n \<longrightarrow> (\<exists>s \<in> set ss. seg_at s \<le> i \<and> i < seg_at s + seg_len s))"
proof (induction ss arbitrary: d)
  case (Cons s ss)
  have s: "seg_buf s = buf" "seg_at s = d" "seg_offset s = off + of_nat d" "0 < seg_len s" "seg_len s \<le> chunk" "d + seg_len s \<le> n"
    and rest: "tiled chunk off buf n (d + seg_len s) ss" using Cons.prems by simp_all
  note IH = Cons.IH [OF rest]
  have "\<exists>t \<in> set (s # ss). seg_at t \<le> i \<and> i < seg_at t + seg_len t" if "d \<le> i" "i < n" for i
    using IH that s(2) by (cases "i < d + seg_len s") auto
  moreover have "\<forall>t \<in> set (s # ss). seg_of chunk off buf n t \<and> d \<le> seg_at t" using IH s by (auto simp: seg_of_def)
  ultimately show ?case using IH s by auto
qed simp

section \<open>A vector of requests\<close>

definition seg_before :: "IoSegment \<Rightarrow> IoSegment \<Rightarrow> bool" where
  "seg_before s t \<longleftrightarrow> seg_buf s < seg_buf t \<or> seg_buf s = seg_buf t \<and> seg_at s + seg_len s \<le> seg_at t"

text \<open>The segments of the requests from number \<open>i\<close> on.\<close>

definition split_ok :: "nat \<Rightarrow> nat \<Rightarrow> io_req list \<Rightarrow> IoSegment list \<Rightarrow> bool" where
  "split_ok chunk i rs S \<longleftrightarrow> sorted_wrt seg_before S \<and>
     (\<forall>s \<in> set S. \<exists>k < length rs. seg_of chunk (fst (rs ! k)) (i + k) (length (snd (rs ! k))) s) \<and>
     (\<forall>k < length rs. \<forall>j < length (snd (rs ! k)). \<exists>s \<in> set S. seg_buf s = i + k \<and> seg_at s \<le> j \<and> j < seg_at s + seg_len s)"

lemma split_ok_Cons:
  assumes one: "tiled chunk off i (length buf) 0 ss" and rest: "split_ok chunk (Suc i) rs S"
  shows "split_ok chunk i ((off, buf) # rs) (ss @ S)"
proof -
  note T = tiled_segs [OF one]
  have "sorted_wrt seg_before ss"
    by (rule sorted_wrt_mono_rel [of _ "\<lambda>s t. seg_at s + seg_len s \<le> seg_at t"]) (use T in \<open>auto simp: seg_before_def seg_of_def\<close>)
  moreover have "seg_before s t" if "s \<in> set ss" "t \<in> set S" for s t
    using that T rest by (fastforce simp: split_ok_def seg_of_def seg_before_def)
  ultimately have "sorted_wrt seg_before (ss @ S)" using rest by (simp add: split_ok_def sorted_wrt_append)
  moreover have "\<exists>k < length ((off, buf) # rs). seg_of chunk (fst (((off, buf) # rs) ! k)) (i + k) (length (snd (((off, buf) # rs) ! k))) s"
    if "s \<in> set (ss @ S)" for s
  proof (cases "s \<in> set ss")
    case True
    with T show ?thesis by (intro exI [of _ 0]) simp
  next
    case False
    then obtain k where "k < length rs" "seg_of chunk (fst (rs ! k)) (Suc i + k) (length (snd (rs ! k))) s"
      using \<open>s \<in> set (ss @ S)\<close> rest False unfolding split_ok_def by auto
    then show ?thesis by (intro exI [of _ "Suc k"]) simp
  qed
  moreover have "\<exists>s \<in> set (ss @ S). seg_buf s = i + k \<and> seg_at s \<le> j \<and> j < seg_at s + seg_len s"
    if "k < length ((off, buf) # rs)" "j < length (snd (((off, buf) # rs) ! k))" for k j
  proof (cases k)
    case 0
    with T that show ?thesis by (fastforce simp: seg_of_def)
  next
    case (Suc k')
    then have "k' < length rs" "j < length (snd (rs ! k'))" using that by simp_all
    then obtain s where "s \<in> set S" "seg_buf s = Suc i + k' \<and> seg_at s \<le> j \<and> j < seg_at s + seg_len s"
      using rest unfolding split_ok_def by blast
    with Suc show ?thesis by auto
  qed
  ultimately show ?thesis by (auto simp: split_ok_def)
qed

lemma split_requests_ok:
  assumes "0 < chunk"
  shows "\<exists>S. split_requests chunk i rs segs = Some (segs @ S) \<and> split_ok chunk i rs S"
proof (induction rs arbitrary: i segs)
  case Nil
  then show ?case by (simp add: split_ok_def)
next
  case (Cons r rs)
  obtain off buf where r: "r = (off, buf)" by (cases r)
  obtain ss where ss: "UringIo_split chunk off i (length buf) 0 segs = Some (segs @ ss)" "tiled chunk off i (length buf) 0 ss"
    using UringIo_split_tiled [OF assms] by blast
  obtain S where S: "split_requests chunk (Suc i) rs (segs @ ss) = Some ((segs @ ss) @ S)" "split_ok chunk (Suc i) rs S"
    using Cons.IH by blast
  with ss split_ok_Cons [OF ss(2) S(2)] r show ?case by auto
qed

lemma sorted_wrt_apart:
  assumes "sorted_wrt R xs" and "\<And>x y. x \<in> set xs \<Longrightarrow> y \<in> set xs \<Longrightarrow> R x y \<Longrightarrow> Q x y" and "\<And>x y. Q x y \<Longrightarrow> Q y x"
    and "j < length xs" "k < length xs" "j \<noteq> k"
  shows "Q (xs ! j) (xs ! k)"
  using assms by (metis linorder_neqE_nat nth_mem sorted_wrt_iff_nth_less)

lemma split_ok_inside:
  assumes "split_ok chunk 0 rs S" and "chunk < 2 ^ 32"
  shows "segs_inside (map snd rs) S"
  using assms by (fastforce simp: split_ok_def segs_inside_def seg_of_def)

lemma split_ok_segs:
  assumes split: "split_ok chunk 0 rs S" and chunk: "chunk < 2 ^ 32" and rs: "reqs_ok rs" and apart: "is_read \<or> reqs_apart rs"
  shows "segs_ok is_read (map snd rs) S"
proof -
  have req: "unat (fst (rs ! k)) + length (snd (rs ! k)) \<le> 18446744073709551616" if "k < length rs" for k
    using rs that by (auto simp: reqs_ok_def dest: nth_mem)
  have place: "unat (seg_offset s) = unat (fst (rs ! seg_buf s)) + seg_at s \<and> seg_buf s < length rs \<and>
      seg_at s + seg_len s \<le> length (snd (rs ! seg_buf s)) \<and> 0 < seg_len s \<and> seg_len s < 2 ^ 32" if s: "s \<in> set S" for s
  proof -
    obtain k where k: "k < length rs" "seg_of chunk (fst (rs ! k)) k (length (snd (rs ! k))) s"
      using split s by (auto simp: split_ok_def)
    then have "unat (seg_offset s) = unat (fst (rs ! k)) + seg_at s"
      using req [OF k(1)] by (auto simp: seg_of_def intro: unat_off_done)
    with k chunk show ?thesis by (auto simp: seg_of_def)
  qed
  have "seg_apart is_read s t" if "s \<in> set S" "t \<in> set S" "seg_before s t" for s t
  proof (cases "seg_buf s < seg_buf t")
    case False
    then show ?thesis using that place by (auto simp: seg_before_def seg_apart_def)
  next
    case True
    then have "is_read \<or> req_apart (rs ! seg_buf s) (rs ! seg_buf t)"
      using apart place [OF that(2)] by (auto simp: reqs_apart_def sorted_wrt_iff_nth_less)
    then show ?thesis using place [OF that(1)] place [OF that(2)] True by (auto simp: seg_apart_def req_apart_def)
  qed
  moreover have "seg_apart is_read s t \<Longrightarrow> seg_apart is_read t s" for s t by (auto simp: seg_apart_def split: if_splits)
  ultimately have "\<forall>j < length S. \<forall>k < length S. j \<noteq> k \<longrightarrow> seg_apart is_read (S ! j) (S ! k)"
    using sorted_wrt_apart [of seg_before S "seg_apart is_read"] split by (simp add: split_ok_def)
  moreover have "seg_fits (map snd rs) s" if "s \<in> set S" for s
    using place [OF that] req [of "seg_buf s"] by (auto simp: seg_fits_def)
  ultimately show ?thesis by (simp add: segs_ok_def)
qed
end
