(* ===== verification/Uring.thy ===== *)
theory Uring
  imports Uring_Split
begin

text \<open>
  The asynchronous device meets the contract of the trait: the run as a whole, the splitting of requests
  into segments, and the proof of the locale \<open>block_io\<close>, by which all that is proved of the heap on any device
  holds on this one.
\<close>

section \<open>The whole run\<close>

definition conf_ok :: "UringConf \<Rightarrow> bool" where
  "conf_ok c \<longleftrightarrow> 0 < uc_depth c \<and> uc_depth c \<le> uc_entries c \<and> 0 < uc_chunk c \<and> uc_chunk c < 2 ^ 32"

text \<open>Nothing is pending, submitted, in flight or completed: the buffers belong to the caller again.\<close>

definition run_quiet :: "'k Run \<Rightarrow> bool" where
  "run_quiet st \<longleftrightarrow> rn_pending st = 0 \<and> ring_flight (rn_ring st) = [] \<and> ring_sq (rn_ring st) = [] \<and> ring_cq (rn_ring st) = []"

lemma run_quietI: "run_ok is_read depth S [] st \<Longrightarrow> rn_pending st = 0 \<Longrightarrow> run_quiet st"
  using run_okD(7,12) by (fastforce simp: run_quiet_def under_way_def)

context uring_kernel
begin

lemma UringIo_run_returns:
  assumes c: "0 < uc_depth c" "uc_depth c \<le> uc_entries c" and S: "\<forall>s \<in> set S. 0 < seg_len s \<and> seg_len s < 2 ^ 32"
  shows "(\<exists>st. UringIo_run enter c io f mem S is_read = Some (run_result st) \<and> run_quiet st) \<or>
    (\<exists>st. UringIo_run enter c io f mem S is_read = Some (Inl (Panic ''abort''), st))"
proof -
  have ok: "run_ok is_read (uc_depth c) S [] (run_start c io f mem S)" using c S by (intro run_ok_start) auto
  have "(\<exists>st'. run_loop enter (uc_depth c) is_read (run_start c io f mem S) = Some (run_result st') \<and> run_ok is_read (uc_depth c) S [] st' \<and>
        True \<and> rn_pending st' = 0 \<and> (rn_error st' = None \<longrightarrow> rn_next st' = length S)) \<or>
      \<not> False \<and> (\<exists>st'. run_loop enter (uc_depth c) is_read (run_start c io f mem S) = Some (Inl (Panic ''abort''), st'))"
    by (rule run_loop_rule [where P = "\<lambda>_ _. True" and fine = False, OF ok TrueI]) (use S c(1) in simp_all)
  then show ?thesis unfolding UringIo_run_def using run_quietI by blast
qed

lemma UringIo_run_calm:
  assumes c: "conf_ok c" and S: "segs_inside mem S" and calm: "calm (ur_kernel io)"
  shows "\<exists>st. UringIo_run enter c io f mem S is_read = Some (Inr (), st) \<and> run_quiet st \<and> calm (ring_kernel (rn_ring st))"
proof -
  have depth: "0 < uc_depth c" "uc_depth c \<le> uc_entries c" using c by (simp_all add: conf_ok_def)
  have ok: "run_ok is_read (uc_depth c) S [] (run_start c io f mem S)" using depth S by (intro run_ok_start) (auto simp: segs_inside_def)
  have start: "run_calm is_read mem [] (run_start c io f mem S)" using calm by (simp add: run_calm_def run_start_def results_fine_def)
  have small: "\<forall>s \<in> set S. seg_len s < 2 ^ 32" using S by (simp add: segs_inside_def)
  have "(\<exists>st'. run_loop enter (uc_depth c) is_read (run_start c io f mem S) = Some (run_result st') \<and> run_ok is_read (uc_depth c) S [] st' \<and>
        run_calm is_read mem [] st' \<and> rn_pending st' = 0 \<and> (rn_error st' = None \<longrightarrow> rn_next st' = length S)) \<or>
      \<not> True \<and> (\<exists>st'. run_loop enter (uc_depth c) is_read (run_start c io f mem S) = Some (Inl (Panic ''abort''), st'))"
  proof (rule run_loop_rule [where P = "run_calm is_read mem" and fine = True, OF ok start small depth(1)], goal_cases)
    case 1
    then show ?case by (simp add: run_calm_def filled_def)
  next
    case (2 st k cs es k' f' mem')
    then have "calm k" by (simp add: run_calm_def)
    then show ?case by (rule run_calm_wait [OF 2(1,2) S 2(4)])
  next
    case 3
    show ?case by (rule run_calm_completion [OF 3(1,2) S 3(3)])
  next
    case 4
    then show ?case by (simp add: run_calm_def)
  qed
  then obtain st where "UringIo_run enter c io f mem S is_read = Some (run_result st)" "run_ok is_read (uc_depth c) S [] st" "run_calm is_read mem [] st"
    "rn_pending st = 0" unfolding UringIo_run_def by blast
  then show ?thesis using run_quietI by (auto simp: run_calm_def run_result_def)
qed

text \<open>A run that succeeds has moved every byte of every segment.\<close>

lemma UringIo_run_moves:
  assumes c: "conf_ok c" and segs: "segs_ok is_read mem S" and run: "UringIo_run enter c io f mem S is_read = Some (Inr (), st)"
  shows "run_kept is_read S f mem (rn_file st) (rn_mem st) \<and> (\<forall>s \<in> set S. seg_moved is_read s (seg_len s) (f_content (rn_file st)) (rn_mem st))"
proof -
  have depth: "0 < uc_depth c" "uc_depth c \<le> uc_entries c" using c by (simp_all add: conf_ok_def)
  have small: "\<forall>s \<in> set S. seg_len s < 2 ^ 32" "\<forall>s \<in> set S. 0 < seg_len s" using segs by (simp_all add: segs_ok_def seg_fits_def)
  have ok: "run_ok is_read (uc_depth c) S [] (run_start c io f mem S)" by (rule run_ok_start [OF depth(2) small(2)])
  have start: "run_data is_read S f mem [] (run_start c io f mem S)"
    by (simp add: run_data_def run_start_def data_ok_def run_kept_def seg_moved_def run_dn_def)
  have "(\<exists>st'. run_loop enter (uc_depth c) is_read (run_start c io f mem S) = Some (run_result st') \<and> run_ok is_read (uc_depth c) S [] st' \<and>
        run_data is_read S f mem [] st' \<and> rn_pending st' = 0 \<and> (rn_error st' = None \<longrightarrow> rn_next st' = length S)) \<or>
      \<not> False \<and> (\<exists>st'. run_loop enter (uc_depth c) is_read (run_start c io f mem S) = Some (Inl (Panic ''abort''), st'))"
  proof (rule run_loop_rule [where P = "run_data is_read S f mem" and fine = False, OF ok start small(1) depth(1)], goal_cases)
    case 1
    show ?case by (rule run_data_fill [OF 1(2,3)])
  next
    case 2
    show ?case by (rule run_data_wait [OF 2(1,2) segs _ 2(6)]) (use enter_returns [OF 2(4)] in simp)
  next
    case 3
    show ?case by (rule run_data_completion [OF 3(1,2) segs 3(3)])
  qed simp
  then obtain st' where "run_result st' = (Inr (), st)" and st': "run_ok is_read (uc_depth c) S [] st'" "run_data is_read S f mem [] st'" "rn_pending st' = 0"
      "rn_error st' = None \<longrightarrow> rn_next st' = length S" using run unfolding UringIo_run_def by auto
  then have "st' = st" "rn_error st' = None" by (auto simp: run_result_def split: option.splits)
  with st' have ok': "run_ok is_read (uc_depth c) S [] st" and data: "run_data is_read S f mem [] st" and ended: "rn_pending st = 0"
      "rn_error st = None" "rn_next st = length S" by simp_all
  have "under_way [] (rn_ring st) = []" using run_okD(7) [OF ok'] ended(1) by simp
  with ended have "run_dn [] st = {..<length S}" by (auto simp: run_dn_def)
  then have "seg_moved is_read (S ! j) (seg_len (S ! j)) (f_content (rn_file st)) (rn_mem st)" if "j < length S" for j
    using data_okD(5) [OF data [unfolded run_data_def], of j] that by simp
  then show ?thesis
    using data_okD(1) [OF data [unfolded run_data_def]] by (metis in_set_conv_nth)
qed

end

section \<open>What the segments transfer\<close>

lemma split_ok_seg:
  assumes "split_ok chunk 0 rs S" and "reqs_ok rs" and "s \<in> set S"
  shows "seg_buf s < length rs" "unat (seg_offset s) = unat (fst (rs ! seg_buf s)) + seg_at s"
    "seg_at s + seg_len s \<le> length (snd (rs ! seg_buf s))" "0 < seg_len s"
proof -
  obtain k where k: "k < length rs" "seg_of chunk (fst (rs ! k)) k (length (snd (rs ! k))) s"
    using assms(1,3) by (auto simp: split_ok_def)
  moreover have "unat (fst (rs ! k)) + length (snd (rs ! k)) \<le> 18446744073709551616"
    using assms(2) k(1) by (auto simp: reqs_ok_def dest: nth_mem)
  ultimately show "seg_buf s < length rs" "unat (seg_offset s) = unat (fst (rs ! seg_buf s)) + seg_at s"
    "seg_at s + seg_len s \<le> length (snd (rs ! seg_buf s))" "0 < seg_len s"
    by (auto simp: seg_of_def intro: unat_off_done)
qed

lemma split_ok_cover:
  assumes "split_ok chunk 0 rs S" and "k < length rs" and "j < length (snd (rs ! k))"
  obtains s where "s \<in> set S" "seg_buf s = k" "seg_at s \<le> j" "j < seg_at s + seg_len s"
proof -
  have "\<exists>s \<in> set S. seg_buf s = 0 + k \<and> seg_at s \<le> j \<and> j < seg_at s + seg_len s"
    using assms unfolding split_ok_def by blast
  with that show thesis by auto
qed

lemma moved_reads:
  assumes split: "split_ok chunk 0 rs S" and rs: "reqs_ok rs" and kept: "run_kept True S f (map snd rs) f' mem"
    and moved: "\<forall>s \<in> set S. seg_moved True s (seg_len s) (f_content f') mem"
  shows "mem = reads_of (f_content f) rs"
proof -
  have "map length mem = map length (map snd rs)" and f: "f' = f" using kept by (simp_all add: run_kept_def)
  note len = map_length_nth [OF this(1)]
  show ?thesis
  proof (rule nth_equalityI)
    show "length mem = length (reads_of (f_content f) rs)" using len by (simp add: reads_of_def)
    fix k
    assume "k < length mem"
    then have k: "k < length rs" using len by simp
    then have target: "reads_of (f_content f) rs ! k = read_zeros (f_content f) (unat (fst (rs ! k))) (length (snd (rs ! k)))"
      by (cases "rs ! k") (simp add: reads_of_def)
    show "mem ! k = reads_of (f_content f) rs ! k"
      unfolding target
    proof (rule nth_equalityI)
      show "length (mem ! k) = length (read_zeros (f_content f) (unat (fst (rs ! k))) (length (snd (rs ! k))))" using len k by simp
      fix j
      assume "j < length (mem ! k)"
      then have j: "j < length (snd (rs ! k))" using len k by simp
      then obtain s where s: "s \<in> set S" "seg_buf s = k" "seg_at s \<le> j" "j < seg_at s + seg_len s"
        using split_ok_cover [OF split k] by blast
      then have "j - seg_at s < seg_len s" by linarith
      then have "mem ! seg_buf s ! (seg_at s + (j - seg_at s)) = byte_at (f_content f) (unat (seg_offset s) + (j - seg_at s))"
        using moved s(1) f unfolding seg_moved_def by blast
      then show "mem ! k ! j = read_zeros (f_content f) (unat (fst (rs ! k))) (length (snd (rs ! k))) ! j"
        using s j split_ok_seg(2) [OF split rs s(1)] by simp
    qed
  qed
qed

lemma writes_to_simps: "writes_to c [] = c" "writes_to c (r # rs) = writes_to (pwrite c (unat (fst r)) (snd r)) rs"
  by (simp_all add: writes_to_def split: prod.splits)

lemma writes_to_outside: "\<forall>r \<in> set rs. \<not> in_request i r \<Longrightarrow> byte_at (writes_to c rs) i = byte_at c i"
  by (induction rs arbitrary: c) (auto simp: writes_to_simps byte_at_pwrite in_request_def)

lemma writes_to_inside:
  "reqs_apart rs \<Longrightarrow> r \<in> set rs \<Longrightarrow> j < length (snd r) \<Longrightarrow> byte_at (writes_to c rs) (unat (fst r) + j) = snd r ! j"
proof (induction rs arbitrary: c)
  case (Cons q rs)
  have apart: "reqs_apart rs" "\<forall>p \<in> set rs. req_apart q p" using Cons.prems(1) by (simp_all add: reqs_apart_def)
  show ?case
  proof (cases "r \<in> set rs")
    case True
    with Cons.IH [OF apart(1) True Cons.prems(3)] show ?thesis by (simp add: writes_to_simps)
  next
    case False
    then have "r = q" using Cons.prems(2) by simp
    then have "\<forall>p \<in> set rs. \<not> in_request (unat (fst r) + j) p"
      using apart(2) Cons.prems(3) by (fastforce simp: req_apart_def in_request_def)
    then show ?thesis using \<open>r = q\<close> Cons.prems(3) by (simp add: writes_to_simps writes_to_outside byte_at_pwrite)
  qed
qed simp

lemma length_writes_to: "length c \<le> length (writes_to c rs)"
proof (induction rs arbitrary: c)
  case (Cons r rs)
  have "length c \<le> length (pwrite c (unat (fst r)) (snd r))" by (simp add: length_pwrite)
  then show ?case unfolding writes_to_simps by (rule order_trans [OF _ Cons.IH])
qed (simp add: writes_to_simps)

lemma length_writes_to_le:
  "length c \<le> n \<Longrightarrow> \<forall>r \<in> set rs. snd r \<noteq> [] \<longrightarrow> unat (fst r) + length (snd r) \<le> n \<Longrightarrow> length (writes_to c rs) \<le> n"
  by (induction rs arbitrary: c) (auto simp: writes_to_simps length_pwrite)

lemma length_writes_to_ge: "r \<in> set rs \<Longrightarrow> snd r \<noteq> [] \<Longrightarrow> unat (fst r) + length (snd r) \<le> length (writes_to c rs)"
proof (induction rs arbitrary: c)
  case (Cons q rs)
  show ?case
  proof (cases "r \<in> set rs")
    case True
    with Cons show ?thesis by (simp add: writes_to_simps)
  next
    case False
    with Cons.prems have "unat (fst r) + length (snd r) \<le> length (pwrite c (unat (fst q)) (snd q))" by (simp add: length_pwrite)
    then show ?thesis unfolding writes_to_simps by (rule order_trans [OF _ length_writes_to])
  qed
qed simp

lemma moved_writes:
  assumes split: "split_ok chunk 0 rs S" and rs: "reqs_ok rs" "reqs_apart rs" and kept: "run_kept False S f (map snd rs) f' mem"
    and moved: "\<forall>s \<in> set S. seg_moved False s (seg_len s) (f_content f') mem"
  shows "f' = f\<lparr>f_content := writes_to (f_content f) rs\<rparr>"
proof -
  let ?c = "f_content f" and ?c' = "f_content f'"
  have mem: "mem = map snd rs" and fields: "f_durable f' = f_durable f" "f_limit f' = f_limit f" and grows: "length ?c \<le> length ?c'"
    and small: "\<And>n. length ?c \<le> n \<Longrightarrow> \<forall>s \<in> set S. unat (seg_offset s) + seg_len s \<le> n \<Longrightarrow> length ?c' \<le> n"
    and same: "\<And>i. \<forall>s \<in> set S. \<not> seg_covers s i \<Longrightarrow> byte_at ?c' i = byte_at ?c i"
    using kept by (auto simp: run_kept_def)
  have cover: "\<exists>s \<in> set S. seg_covers s (unat (fst (rs ! k)) + j) \<and> seg_buf s = k \<and> seg_at s \<le> j \<and> j < seg_at s + seg_len s"
    if "k < length rs" "j < length (snd (rs ! k))" for k j
  proof -
    obtain s where s: "s \<in> set S" "seg_buf s = k" "seg_at s \<le> j" "j < seg_at s + seg_len s"
      using split_ok_cover [OF split \<open>k < length rs\<close> \<open>j < length (snd (rs ! k))\<close>] by blast
    then have "seg_covers s (unat (fst (rs ! k)) + j)"
      using split_ok_seg(2) [OF split rs(1) s(1)] by (simp add: seg_covers_def)
    with s show ?thesis by blast
  qed
  have "?c' = writes_to ?c rs"
  proof (rule bytes_eqI)
    have "unat (seg_offset s) + seg_len s \<le> length (writes_to ?c rs)" if "s \<in> set S" for s
    proof -
      note s = split_ok_seg [OF split rs(1) that]
      then have "unat (fst (rs ! seg_buf s)) + length (snd (rs ! seg_buf s)) \<le> length (writes_to ?c rs)"
        by (intro length_writes_to_ge) auto
      with s show ?thesis by linarith
    qed
    then have "length ?c' \<le> length (writes_to ?c rs)" by (intro small length_writes_to) blast
    moreover have "unat (fst r) + length (snd r) \<le> length ?c'" if r: "r \<in> set rs" "snd r \<noteq> []" for r
    proof -
      obtain k where k: "k < length rs" "r = rs ! k" using r(1) by (metis in_set_conv_nth)
      then obtain s where s: "s \<in> set S" "seg_buf s = k" "seg_at s \<le> length (snd r) - 1" "length (snd r) - 1 < seg_at s + seg_len s"
        using cover [of k "length (snd r) - 1"] r(2) by auto
      have "unat (seg_offset s) + seg_len s \<le> length ?c'" using moved s(1) split_ok_seg(4) [OF split rs(1) s(1)] by (simp add: seg_moved_def)
      moreover have "rs ! seg_buf s = r" using s(2) k(2) by simp
      then have "unat (seg_offset s) = unat (fst r) + seg_at s" using split_ok_seg(2) [OF split rs(1) s(1)] by simp
      ultimately show ?thesis using s(4) by linarith
    qed
    then have "length (writes_to ?c rs) \<le> length ?c'" using grows by (intro length_writes_to_le) auto
    ultimately show "length ?c' = length (writes_to ?c rs)" by simp
    fix i
    show "byte_at ?c' i = byte_at (writes_to ?c rs) i"
    proof (cases "\<exists>s \<in> set S. seg_covers s i")
      case True
      then obtain s where s: "s \<in> set S" "seg_covers s i" by blast
      note p = split_ok_seg [OF split rs(1) s(1)]
      let ?r = "rs ! seg_buf s" and ?j = "i - unat (fst (rs ! seg_buf s))"
      have j: "?j < length (snd ?r)" "unat (fst ?r) + ?j = i" "seg_at s \<le> ?j" "?j - seg_at s < seg_len s"
        using s(2) p by (auto simp: seg_covers_def)
      have "mem ! seg_buf s ! (seg_at s + (?j - seg_at s)) = byte_at ?c' (unat (seg_offset s) + (?j - seg_at s))"
        using moved s(1) j(4) by (simp add: seg_moved_def)
      moreover have "byte_at (writes_to ?c rs) (unat (fst ?r) + ?j) = snd ?r ! ?j"
        using writes_to_inside [OF rs(2) _ j(1)] p(1) by simp
      ultimately show ?thesis using j p(1,2) mem by simp
    next
      case False
      have "\<not> in_request i r" if "r \<in> set rs" for r
      proof
        assume i: "in_request i r"
        obtain k where k: "k < length rs" "r = rs ! k" using \<open>r \<in> set rs\<close> by (metis in_set_conv_nth)
        from i have r: "i - unat (fst r) < length (snd r)" "unat (fst r) + (i - unat (fst r)) = i" by (auto simp: in_request_def)
        from cover [OF k(1) r(1) [unfolded k(2)]] r(2) k(2) False show "False" by auto
      qed
      with False same writes_to_outside show ?thesis by simp
    qed
  qed
  with fields show ?thesis by simp
qed

section \<open>The contract of the trait\<close>

lemma uring_vec_run:
  assumes "0 < uc_chunk c"
  obtains S where "split_requests (uc_chunk c) 0 rs [] = Some S" "split_ok (uc_chunk c) 0 rs S"
    "\<And>result. UringIo_run enter c io f (map snd rs) S is_read = Some result \<Longrightarrow> uring_vec enter c is_read io f rs = result"
  using split_requests_ok [OF assms, of 0 rs "[]"] by (auto simp: uring_vec_def)

definition uring_fine :: "('k \<Rightarrow> bool) \<Rightarrow> 'k UringIo \<Rightarrow> bool" where
  "uring_fine calm io \<longleftrightarrow> calm (ur_kernel io) \<and> (\<forall>s \<in> set (ur_sync_script io). \<exists>k > 0. s = Sys_ok k)"

lemma uring_fine_run_io: "uring_fine calm io \<Longrightarrow> calm (ring_kernel (rn_ring st)) \<Longrightarrow> uring_fine calm (run_io io st)"
  by (simp add: uring_fine_def run_io_def)

lemma uring_sync_Inr: "uring_sync io f = (Inr u, io', f') \<Longrightarrow> f' = f\<lparr>f_durable := f_content f\<rparr>"
  by (auto simp: uring_sync_def split: prod.splits dest: fdatasync_counted_Inr)

lemma uring_sync_fine:
  assumes "uring_fine calm io"
  shows "\<exists>io' f'. uring_sync io f = (Inr (), io', f') \<and> uring_fine calm io'"
proof -
  have fine: "calm (ur_kernel io)" "\<forall>s \<in> set (ur_sync_script io). \<exists>k > 0. s = Sys_ok k" using assms unfolding uring_fine_def by blast+
  obtain f' c' where d: "fdatasync_counted (ur_sync_script io) f (ur_counters io) = (Inr (), tl (ur_sync_script io), f', c')"
    using fdatasync_counted_works [OF fine(2)] by blast
  have "uring_fine calm (io\<lparr>ur_sync_script := tl (ur_sync_script io), ur_counters := c'\<rparr>)"
    using fine list.set_sel(2) [of "ur_sync_script io"] by (cases "ur_sync_script io = []") (simp_all add: uring_fine_def)
  with d show ?thesis by (simp add: uring_sync_def)
qed

context uring_kernel
begin

lemma uring_vec_calm:
  assumes c: "conf_ok c" and calm: "calm (ur_kernel io)"
  shows "\<exists>st. uring_vec enter c is_read io f rs = (Inr (), st) \<and> calm (ring_kernel (rn_ring st))"
proof -
  have chunk: "0 < uc_chunk c" "uc_chunk c < 2 ^ 32" using c by (simp_all add: conf_ok_def)
  obtain S where S: "split_ok (uc_chunk c) 0 rs S"
      "\<And>result. UringIo_run enter c io f (map snd rs) S is_read = Some result \<Longrightarrow> uring_vec enter c is_read io f rs = result"
    using uring_vec_run [OF chunk(1)] by blast
  show ?thesis using UringIo_run_calm [OF c split_ok_inside [OF S(1) chunk(2)] calm] S(2) by blast
qed

lemma uring_vec_Inr:
  assumes c: "conf_ok c" and run: "uring_vec enter c is_read io f rs = (Inr (), st)" and rs: "reqs_ok rs" "is_read \<or> reqs_apart rs"
  obtains S where "split_ok (uc_chunk c) 0 rs S" "run_kept is_read S f (map snd rs) (rn_file st) (rn_mem st)"
    "\<forall>s \<in> set S. seg_moved is_read s (seg_len s) (f_content (rn_file st)) (rn_mem st)"
proof -
  have chunk: "0 < uc_chunk c" "uc_chunk c < 2 ^ 32" using c by (simp_all add: conf_ok_def)
  have depth: "0 < uc_depth c" "uc_depth c \<le> uc_entries c" using c by (simp_all add: conf_ok_def)
  obtain S where S: "split_ok (uc_chunk c) 0 rs S"
      "\<And>result. UringIo_run enter c io f (map snd rs) S is_read = Some result \<Longrightarrow> uring_vec enter c is_read io f rs = result"
    using uring_vec_run [OF chunk(1)] by blast
  have segs: "segs_ok is_read (map snd rs) S" by (rule split_ok_segs [OF S(1) chunk(2) rs])
  then have "\<forall>s \<in> set S. 0 < seg_len s \<and> seg_len s < 2 ^ 32" by (simp add: segs_ok_def seg_fits_def)
  then obtain result where r: "UringIo_run enter c io f (map snd rs) S is_read = Some result"
    using UringIo_run_returns [OF depth] by blast
  with S(2) run have "UringIo_run enter c io f (map snd rs) S is_read = Some (Inr (), st)" by simp
  note m = UringIo_run_moves [OF c segs this]
  show thesis by (rule that [OF S(1)]) (simp_all add: m)
qed

lemma uring_read_vec_Inr:
  assumes c: "conf_ok c" and run: "uring_read_vec enter c io f rs = (Inr bufs, io')" and rs: "reqs_ok rs"
  shows "bufs = reads_of (f_content f) rs"
proof -
  obtain st where "uring_vec enter c True io f rs = (Inr (), st)" and bufs: "bufs = rn_mem st"
    using run by (auto simp: uring_read_vec_def split: prod.splits sum.splits)
  from c this(1) rs obtain S where "split_ok (uc_chunk c) 0 rs S" "run_kept True S f (map snd rs) (rn_file st) (rn_mem st)"
      "\<forall>s \<in> set S. seg_moved True s (seg_len s) (f_content (rn_file st)) (rn_mem st)"
    by (rule uring_vec_Inr) simp
  then show ?thesis unfolding bufs by (rule moved_reads [OF _ rs])
qed

lemma uring_write_vec_Inr:
  assumes c: "conf_ok c" and run: "uring_write_vec enter c io f rs = (Inr u, io', f')" and rs: "reqs_ok rs" "reqs_apart rs"
  shows "f' = f\<lparr>f_content := writes_to (f_content f) rs\<rparr>"
proof -
  obtain st where "uring_vec enter c False io f rs = (Inr (), st)" and f': "f' = rn_file st"
    using run by (auto simp: uring_write_vec_def split: prod.splits)
  from c this(1) rs(1) obtain S where "split_ok (uc_chunk c) 0 rs S" "run_kept False S f (map snd rs) (rn_file st) (rn_mem st)"
      "\<forall>s \<in> set S. seg_moved False s (seg_len s) (f_content (rn_file st)) (rn_mem st)"
    by (rule uring_vec_Inr) (simp add: rs(2))
  then show ?thesis unfolding f' by (rule moved_writes [OF _ rs])
qed

lemma uring_read_vec_fine:
  assumes "conf_ok c" and "uring_fine calm io"
  shows "\<exists>bufs io'. uring_read_vec enter c io f rs = (Inr bufs, io') \<and> uring_fine calm io'"
  using uring_vec_calm [OF assms(1), of io True f rs] uring_fine_run_io [OF assms(2)] assms(2)
  by (auto simp: uring_read_vec_def uring_fine_def [of calm io])

lemma uring_write_vec_fine:
  assumes "conf_ok c" and "uring_fine calm io"
  shows "\<exists>io' f'. uring_write_vec enter c io f rs = (Inr (), io', f') \<and> uring_fine calm io'"
  using uring_vec_calm [OF assms(1), of io False f rs] uring_fine_run_io [OF assms(2)] assms(2)
  by (auto simp: uring_write_vec_def uring_fine_def [of calm io])

theorem uring_block_io_contract:
  assumes "conf_ok c"
  shows "block_io (uring_block_io enter c) (uring_fine calm)"
  by (unfold_locales; simp only: uring_block_io_def BlockIo.select_convs;
    blast intro: uring_read_vec_Inr [OF assms] uring_write_vec_Inr [OF assms] uring_read_vec_fine [OF assms] uring_write_vec_fine [OF assms]
      uring_sync_Inr uring_sync_fine)

end

text \<open>The device as \<open>UringIo::new\<close> makes it for the default depth and chunk.\<close>

definition default_conf :: UringConf where
  "default_conf = \<lparr>uc_entries = 32, uc_depth = 32, uc_chunk = 524288\<rparr>"

lemma UringIo_new_default: "UringIo_new (\<lambda>_. None) DEFAULT_DEPTH DEFAULT_CHUNK = Inr default_conf"
  by (simp add: UringIo_new_def DEFAULT_DEPTH_def DEFAULT_CHUNK_def default_conf_def next_power_of_two_def upt_rec Let_def)

lemma default_conf_ok: "conf_ok default_conf"
  by (simp add: conf_ok_def default_conf_def)

section \<open>Properties\<close>

lemma next_power_of_two_le:
  assumes "next_power_of_two n \<noteq> 0"
  shows "unat n \<le> unat (next_power_of_two n)"
proof -
  obtain k where f: "find (\<lambda>k. unat n \<le> 2 ^ k) [0..<32] = Some k"
    using assms by (auto simp: next_power_of_two_def split: option.splits)
  then have k: "k < 32" "unat n \<le> 2 ^ k" by (auto simp: find_Some_iff)
  have "(2 :: nat) ^ k < 2 ^ 32" using k(1) by (rule power_strict_increasing) simp
  then have "unat (of_nat (2 ^ k) :: u32) = 2 ^ k" by (intro unat_of_nat_nowrap) simp
  with f k(2) show ?thesis by (simp add: next_power_of_two_def)
qed

lemma UringIo_new_conf:
  assumes "UringIo_new created depth chunk = Inr c" and "created 0 \<noteq> None"
  shows "0 < uc_depth c" "uc_depth c \<le> uc_entries c" "uc_chunk c = chunk" "0 < chunk"
proof -
  have c: "chunk \<noteq> 0" "c = \<lparr>uc_entries = unat (next_power_of_two (max depth 1)), uc_depth = unat (max depth 1), uc_chunk = chunk\<rparr>"
    "created (unat (next_power_of_two (max depth 1))) = None"
    using assms(1) by (auto simp: UringIo_new_def Let_def split: if_splits option.splits)
  then have "next_power_of_two (max depth 1) \<noteq> 0" using assms(2) by auto
  note next_power_of_two_le [OF this]
  then show "0 < uc_depth c" "uc_depth c \<le> uc_entries c" "uc_chunk c = chunk" "0 < chunk" using c(1,2) by simp_all
qed

text \<open>
  C16: on a ring made by \<open>UringIo::new\<close> with a chunk below \<open>2 ^ 32\<close> bytes (the kernel refuses a ring without
  entries), every call of \<open>run\<close> ends, whatever the kernel does within its contract: any order of completions, short transfers,
  interrupted calls, failed operations. Unless the process aborts, nothing is pending, submitted or in flight when it ends, so the
  kernel no longer holds a pointer into the caller's buffers; and the queue was never full.
\<close>

theorem uring_run_ends_quiet:
  assumes "uring_kernel enter patience calm" and "UringIo_new created depth chunk = Inr c" and "created 0 \<noteq> None" and "chunk < 2 ^ 32"
  shows "\<exists>S r st. split_requests (uc_chunk c) 0 rs [] = Some S \<and> UringIo_run enter c io f (map snd rs) S is_read = Some (r, st) \<and>
    (r = Inl (Panic ''abort'') \<or> run_quiet st \<and> (\<forall>p. r \<noteq> Inl (Panic p)))"
proof -
  note new = UringIo_new_conf [OF assms(2,3)]
  obtain S where S: "split_requests (uc_chunk c) 0 rs [] = Some S" "split_ok (uc_chunk c) 0 rs S"
    using uring_vec_run [of c rs] new(3,4) by metis
  have "segs_inside (map snd rs) S" using split_ok_inside [OF S(2)] new(3) assms(4) by simp
  then have "\<forall>s \<in> set S. 0 < seg_len s \<and> seg_len s < 2 ^ 32" by (simp add: segs_inside_def)
  then consider st where "UringIo_run enter c io f (map snd rs) S is_read = Some (run_result st)" "run_quiet st"
    | st where "UringIo_run enter c io f (map snd rs) S is_read = Some (Inl (Panic ''abort''), st)"
    using uring_kernel.UringIo_run_returns [OF assms(1) new(1,2)] by blast
  then show ?thesis
  proof cases
    case 1
    then show ?thesis using S(1) by (cases "rn_error st") (auto simp: run_result_def)
  qed (use S(1) in blast)
qed

theorem uring_run_ends_quiet_witness:
  "\<exists>S r st. split_requests 2 0 [(0, [1, 2, 3])] [] = Some S \<and>
    UringIo_run script_enter \<lparr>uc_entries = 2, uc_depth = 2, uc_chunk = 2\<rparr>
      \<lparr>ur_kernel = [Submit_err EINTR, Submit_ok [(1, Sys_err 5)], Submit_ok [(0, Sys_ok 1)]], ur_sync_script = [], ur_counters = IoCounters_default\<rparr>
      \<lparr>f_content = [], f_durable = [], f_limit = 9\<rparr> [[1, 2, 3]] S False = Some (r, st) \<and> (r = Inl (Panic ''abort'') \<or> run_quiet st)"
proof -
  have "UringIo_new (\<lambda>n. if n = 0 then Some 22 else None) 2 2 = Inr \<lparr>uc_entries = 2, uc_depth = 2, uc_chunk = 2\<rparr>"
    by (simp add: UringIo_new_def next_power_of_two_def upt_rec Let_def max_def word_le_nat_alt)
  from uring_run_ends_quiet [OF scripted.uring_kernel_axioms this, where rs = "[(0, [1, 2, 3])]" and is_read = False and f = "\<lparr>f_content = [], f_durable = [], f_limit = 9\<rparr>"
      and io = "\<lparr>ur_kernel = [Submit_err EINTR, Submit_ok [(1, Sys_err 5)], Submit_ok [(0, Sys_ok 1)]], ur_sync_script = [], ur_counters = IoCounters_default\<rparr>"]
  show ?thesis by auto
qed

text \<open>
  C17: a vector of requests that do not overlap, with a chunk below \<open>2 ^ 32\<close> bytes, that the asynchronous
  device reports as done is done, whatever the order and the sizes in
  which the kernel completed its segments and whatever was interrupted: the buffers of a read hold what
  the file holds, zeros past its end, and a write has put every byte in its place and nothing else.
\<close>

theorem uring_success_complete:
  assumes "uring_kernel enter patience calm" and "conf_ok c" and "reqs_ok rs" and "reqs_apart rs"
  shows "(uring_read_vec enter c io f rs = (Inr bufs, io') \<longrightarrow> bufs = reads_of (f_content f) rs) \<and>
    (uring_write_vec enter c io f rs = (Inr (), io', f') \<longrightarrow> f' = f\<lparr>f_content := writes_to (f_content f) rs\<rparr>)"
  using uring_kernel.uring_read_vec_Inr [OF assms(1,2) _ assms(3)] uring_kernel.uring_write_vec_Inr [OF assms(1,2) _ assms(3,4)] by blast

theorem uring_success_complete_witness:
  "\<exists>io'. uring_read_vec script_enter \<lparr>uc_entries = 2, uc_depth = 2, uc_chunk = 2\<rparr>
     \<lparr>ur_kernel = [Submit_err EINTR, Submit_ok [(1, Sys_ok 1)], Submit_ok [(1, Sys_ok 5), (0, Sys_ok 1)]], ur_sync_script = [],
      ur_counters = IoCounters_default\<rparr>
     \<lparr>f_content = [1, 2, 3, 4, 5], f_durable = [], f_limit = 9\<rparr> [(1, [9, 9, 9]), (4, [9, 9])] = (Inr [[2, 3, 4], [5, 0]], io')"
proof -
  let ?c = "\<lparr>uc_entries = 2, uc_depth = 2, uc_chunk = 2\<rparr>" and ?f = "\<lparr>f_content = [1, 2, 3, 4, 5], f_durable = [], f_limit = 9\<rparr>"
  let ?io = "\<lparr>ur_kernel = [Submit_err EINTR, Submit_ok [(1, Sys_ok 1)], Submit_ok [(1, Sys_ok 5), (0, Sys_ok 1)]], ur_sync_script = [],
    ur_counters = IoCounters_default\<rparr>"
  let ?rs = "[(1, [9, 9, 9]), (4, [9, 9])] :: io_req list"
  have c: "conf_ok ?c" by (simp add: conf_ok_def)
  have "uring_fine script_fine ?io" by (simp add: uring_fine_def choices_fine_def)
  then obtain bufs io' where r: "uring_read_vec script_enter ?c ?io ?f ?rs = (Inr bufs, io')" using scripted.uring_read_vec_fine [OF c] by blast
  have "bufs = reads_of (f_content ?f) ?rs"
    using uring_success_complete [OF scripted.uring_kernel_axioms c, of ?rs ?io ?f bufs io'] r by (simp add: reqs_apart_def req_apart_def)
  with r show ?thesis by (simp add: reads_of_def read_zeros_def byte_at_def upt_rec)
qed

text \<open>
  C27: on a system that does not fail, the asynchronous device with a chunk below \<open>2 ^ 32\<close> bytes gives what
  the blocking one gives for requests that do not overlap: the same buffers for a vector of reads, the same
  file for a vector of writes.
\<close>

theorem uring_equals_blocking:
  assumes "uring_kernel enter patience calm" and "conf_ok c" and "uring_fine calm io" and "healthy sio" and "reqs_ok rs" and "reqs_apart rs"
  shows "fst (uring_read_vec enter c io f rs) = fst (sync_read_vec sio f rs) \<and>
    fst (uring_write_vec enter c io f rs) = fst (sync_write_vec sio f rs) \<and>
    snd (snd (uring_write_vec enter c io f rs)) = snd (snd (sync_write_vec sio f rs))"
proof -
  note K = uring_kernel.uring_read_vec_fine [OF assms(1,2,3)] uring_kernel.uring_write_vec_fine [OF assms(1,2,3)]
  obtain bufs io' where r: "uring_read_vec enter c io f rs = (Inr bufs, io')" using K(1) by blast
  obtain bufs' sio' where r': "sync_read_vec sio f rs = (Inr bufs', sio')" using sync_read_vec_healthy [OF assms(4)] by blast
  obtain io'' f' where w: "uring_write_vec enter c io f rs = (Inr (), io'', f')" using K(2) by blast
  obtain sio'' f'' where w': "sync_write_vec sio f rs = (Inr (), sio'', f'')" using sync_write_vec_healthy [OF assms(4)] by blast
  show ?thesis
    using uring_kernel.uring_read_vec_Inr [OF assms(1,2) r assms(5)] sync_read_vec_Inr [OF r' assms(5)]
      uring_kernel.uring_write_vec_Inr [OF assms(1,2) w assms(5,6)] sync_write_vec_Inr [OF w' assms(5)] r r' w w' by simp
qed

theorem uring_equals_blocking_witness:
  "snd (snd (uring_write_vec script_enter \<lparr>uc_entries = 2, uc_depth = 2, uc_chunk = 2\<rparr>
     \<lparr>ur_kernel = [Submit_ok [(1, Sys_ok 1)]], ur_sync_script = [], ur_counters = IoCounters_default\<rparr>
     \<lparr>f_content = [1], f_durable = [], f_limit = 9\<rparr> [(2, [7, 8, 9])])) =
   \<lparr>f_content = [1, 0, 7, 8, 9], f_durable = [], f_limit = 9\<rparr>"
proof -
  let ?c = "\<lparr>uc_entries = 2, uc_depth = 2, uc_chunk = 2\<rparr>" and ?f = "\<lparr>f_content = [1], f_durable = [], f_limit = 9\<rparr>"
  let ?io = "\<lparr>ur_kernel = [Submit_ok [(1, Sys_ok 1)]], ur_sync_script = [], ur_counters = IoCounters_default\<rparr>"
  let ?sio = "\<lparr>sio_counters = IoCounters_default, sio_script = []\<rparr>"
  obtain io' f' where w: "sync_write_vec ?sio ?f [(2, [7, 8, 9])] = (Inr (), io', f')"
    using sync_write_vec_healthy [of ?sio ?f "[(2, [7, 8, 9])]"] by (auto simp: healthy_def)
  have "snd (snd (uring_write_vec script_enter ?c ?io ?f [(2, [7, 8, 9])])) = snd (snd (sync_write_vec ?sio ?f [(2, [7, 8, 9])]))"
    using uring_equals_blocking [OF scripted.uring_kernel_axioms, of ?c ?io ?sio "[(2, [7, 8, 9])]" ?f]
    by (simp add: conf_ok_def uring_fine_def choices_fine_def healthy_def reqs_apart_def)
  with w show ?thesis using sync_write_vec_Inr [OF w] by (simp add: writes_to_def pwrite_def)
qed

text \<open>
  C40: \<open>segment.len as u32\<close> drops the upper half of the length. With a chunk that large, which
  \<open>UringIo::new\<close> accepts, a segment whose length is a multiple of 2 to the 32nd is submitted as a read of
  nothing; its empty completion is taken for the end of the file, and the caller is given a buffer of
  zeros, with success, in place of the bytes of the file.
\<close>

theorem uring_wide_chunk_reads_zeros:
  assumes "uring_kernel enter patience calm" and "calm (ur_kernel io)" and "0 < uc_depth c" and "uc_depth c \<le> uc_entries c"
    and "0 < length buf" and "length buf mod 4294967296 = 0" and "length buf \<le> uc_chunk c"
  shows "\<exists>io'. uring_read_vec enter c io f [(off, buf)] = (Inr [replicate (length buf) 0], io')"
proof -
  let ?s = "\<lparr>seg_offset = off, seg_buf = 0, seg_at = 0, seg_len = length buf\<rparr>"
  have split: "split_requests (uc_chunk c) 0 [(off, buf)] [] = Some [?s]"
    using assms(5,7) by (simp add: UringIo_split.simps)
  let ?st0 = "run_start c io f [buf] [?s]"
  have zero: "(of_nat (length buf) :: u32) = 0"
    using assms(6) by (simp add: word_of_nat_eq_0_iff mod_eq_0_iff_dvd)
  let ?e = "segment_entry True ?s 0"
  let ?st1 = "?st0\<lparr>rn_ring := (rn_ring ?st0)\<lparr>ring_sq := [?e]\<rparr>, rn_next := 1, rn_pending := 1\<rparr>"
  have fill: "run_fill (uc_depth c) True ?st0 = (Inr (), ?st1)"
    using assms(3,4) by (simp add: run_fill.simps run_push_def ring_push_def run_start_def)
  have calm1: "calm (ring_kernel (rn_ring ?st1))" using assms(2) by (simp add: run_start_def)
  obtain k cs es k' f' mem' where e: "enter k [?e] f [buf] = (Inr (cs, es), k', f', mem')" and k: "calm k"
      and wait: "run_wait enter ?st1 = Some (Inr (), run_entered ?st1 cs es k' f' mem')"
    using uring_kernel.run_wait_outcome [OF assms(1), of ?st1] calm1 by (auto simp: run_start_def)
  have ret: "completes [?e] f [buf] cs es f' mem'" "cs \<noteq> []" using uring_kernel.enter_returns [OF assms(1) e] by simp_all
  have pos: "\<forall>(u, r) \<in> set cs. 0 \<le> r" using uring_kernel.calm_returns [OF assms(1) k e] by simp
  obtain r where r: "cs = [(0, r)]" "es = []" "sqe_done ?e r f [buf] f' mem'" using completes_single [OF ret(1)] ret(2) by auto
  then have "r = 0" using pos zero by (auto simp: sqe_done_def segment_entry_def)
  with r zero have one: "cs = [(0, 0)] \<and> es = [] \<and> f' = f \<and> mem' = [buf]" by (simp add: sqe_done_def segment_entry_def)
  let ?st2 = "?st1\<lparr>rn_ring := (rn_ring ?st0)\<lparr>ring_kernel := k'\<rparr>\<rparr>"
  let ?st3 = "run_count True 0 (?st2\<lparr>rn_pending := 0\<rparr>)\<lparr>rn_mem := [replicate (length buf) 0]\<rparr>"
  have completed: "run_completions True [(0, 0)] ?st2 = (Inr (), ?st3)"
    using assms(5) by (simp add: run_completion_def run_count_def run_start_def Let_def put_slice_0_all)
  have "run_loop enter (uc_depth c) True ?st3 = Some (Inr (), ?st3)"
    by (simp add: run_loop.simps run_count_def run_start_def run_result_def Let_def)
  moreover have "(run_entered ?st1 cs es k' f' mem')\<lparr>rn_ring := (rn_ring (run_entered ?st1 cs es k' f' mem'))\<lparr>ring_cq := []\<rparr>\<rparr> = ?st2"
    using one by (simp add: run_entered_def run_start_def)
  moreover have "ring_cq (rn_ring (run_entered ?st1 cs es k' f' mem')) = [(0, 0)]" using one by (simp add: run_start_def)
  ultimately have "run_loop enter (uc_depth c) True ?st0 = Some (Inr (), ?st3)"
    using fill wait completed by (subst run_loop.simps) (simp add: run_start_def)
  then have "uring_vec enter c True io f [(off, buf)] = (Inr (), ?st3)"
    using split by (simp add: uring_vec_def UringIo_run_def)
  then show ?thesis by (simp add: uring_read_vec_def)
qed

text \<open>The example is a file that begins with the byte 1, of which one buffer of four gibibytes is read.\<close>

theorem uring_wide_chunk_reads_zeros_witness:
  "\<exists>io'. uring_read_vec script_enter \<lparr>uc_entries = 32, uc_depth = 32, uc_chunk = 4294967296\<rparr>
     \<lparr>ur_kernel = [], ur_sync_script = [], ur_counters = IoCounters_default\<rparr>
     \<lparr>f_content = [1], f_durable = [], f_limit = 9\<rparr> [(0, replicate 4294967296 7)] = (Inr [replicate 4294967296 0], io') \<and>
   byte_at [1] 0 \<noteq> replicate 4294967296 0 ! 0"
  using uring_wide_chunk_reads_zeros [OF scripted.uring_kernel_axioms, where c = "\<lparr>uc_entries = 32, uc_depth = 32, uc_chunk = 4294967296\<rparr>" and
      io = "\<lparr>ur_kernel = [], ur_sync_script = [], ur_counters = IoCounters_default\<rparr>" and buf = "replicate 4294967296 7" and
      f = "\<lparr>f_content = [1], f_durable = [], f_limit = 9\<rparr>" and off = 0]
  by (simp add: byte_at_def)

end
