(* ===== verification/Paged_File.thy ===== *)
theory Paged_File
  imports Block_Io
begin

text \<open>
  \<open>PagedFile\<close> of \<open>src/src/data.rs\<close>: a file accessed by whole pages, with writes staged in memory until
  a flush, the last partial page of each flushed write kept at hand, and a pool of buffers for reuse.
  Shown: staging a write changes what the file is seen to hold at exactly the written bytes, a flush
  writes what is seen to the file and changes nothing that is seen, and a read returns what is seen.
\<close>

section \<open>State\<close>

definition MAX_STAGED_WRITES :: nat where
  "MAX_STAGED_WRITES = 64"

definition MAX_POOLED_BUFFERS :: nat where
  "MAX_POOLED_BUFFERS = 16"

definition MAX_POOLED_BUFFER_CAPACITY :: nat where
  "MAX_POOLED_BUFFER_CAPACITY = 8388608"

record StagedWrite =
  sw_start :: u64
  sw_buffer :: AlignedBuf
  sw_head :: "bytes option"

definition StagedWrite_base :: "StagedWrite \<Rightarrow> u64" where
  "StagedWrite_base w = page_down (sw_start w)"

definition StagedWrite_end :: "StagedWrite \<Rightarrow> u64" where
  "StagedWrite_end w = StagedWrite_base w + of_nat (ab_len (sw_buffer w))"

record PagedFile =
  pf_file :: File
  tail_pages :: "u64 \<rightharpoonup> bytes"
  pool :: "AlignedBuf list"
  staged_writes :: "StagedWrite list"
  pending_bytes :: nat
  allocated_end :: u64

section \<open>Opening\<close>

definition PagedFile_handle :: "File \<Rightarrow> PagedFile" where
  "PagedFile_handle f =
     \<lparr>pf_file = f, tail_pages = Map.empty, pool = [], staged_writes = [], pending_bytes = 0,
      allocated_end = 0\<rparr>"

text \<open>
  The file is passed as found under the path (an empty one if there was none) and returned as it is
  left when the operation fails.
\<close>

definition PagedFile_create :: "'io BlockIo \<Rightarrow> 'io \<Rightarrow> File \<Rightarrow> u8 \<Rightarrow> u8 \<Rightarrow> PagedFile res \<times> 'io \<times> File" where
  "PagedFile_create D io f kind layout =
     (let paged_file = PagedFile_handle (f\<lparr>f_content := []\<rparr>);
          page = FileHeader_encode \<lparr>fh_kind = kind, fh_layout = layout\<rparr>
                   (AlignedBuf_deref (AlignedBuf_zeroed PAGE))
      in case write_vec D io (pf_file paged_file) [(0, page)] of
           (Inl e, io, f) \<Rightarrow> (Inl e, io, f)
         | (Inr _, io, f) \<Rightarrow>
             (case sync D io f of
                (Inl e, io, f) \<Rightarrow> (Inl e, io, f)
              | (Inr _, io, f) \<Rightarrow>
                  (Inr (paged_file\<lparr>pf_file := f, allocated_end := PAGE_SIZE_U64\<rparr>), io, f)))"

definition PagedFile_open :: "'io BlockIo \<Rightarrow> 'io \<Rightarrow> File \<Rightarrow> u8 \<Rightarrow> u8 \<Rightarrow> PagedFile res \<times> 'io" where
  "PagedFile_open D io f kind layout =
     (let paged_file = PagedFile_handle f in
      case read_vec D io f [(0, AlignedBuf_deref (AlignedBuf_zeroed PAGE))] of
        (Inl e, io) \<Rightarrow> (Inl e, io)
      | (Inr pages, io) \<Rightarrow>
          (case FileHeader_decode (hd pages) of
             Some header \<Rightarrow>
               if fh_kind header = kind \<and> fh_layout header = layout then (Inr paged_file, io)
               else (Inl (Err (Corrupt ''file header'' 0)), io)
           | None \<Rightarrow> (Inl (Err (Corrupt ''file header'' 0)), io)))"

section \<open>Size and allocation\<close>

definition PagedFile_size :: "PagedFile \<Rightarrow> u64" where
  "PagedFile_size pf = file_len (pf_file pf)"

definition PagedFile_ensure_alloc :: "PagedFile \<Rightarrow> u64 \<Rightarrow> u64 \<Rightarrow> unit res \<times> PagedFile" where
  "PagedFile_ensure_alloc pf up_to chunk =
     (if up_to \<le> allocated_end pf then (Inr (), pf)
      else let new_end = page_up (max up_to (allocated_end pf + chunk)) in
        case fallocate (pf_file pf) (allocated_end pf) (new_end - allocated_end pf) of
          (Inl e, f) \<Rightarrow> (Inl e, pf\<lparr>pf_file := f\<rparr>)
        | (Inr _, f) \<Rightarrow> (Inr (), pf\<lparr>pf_file := f, allocated_end := new_end\<rparr>))"

definition PagedFile_note_alloc :: "PagedFile \<Rightarrow> u64 \<Rightarrow> PagedFile" where
  "PagedFile_note_alloc pf up_to = pf\<lparr>allocated_end := max (allocated_end pf) up_to\<rparr>"

definition PagedFile_has_pending :: "PagedFile \<Rightarrow> bool" where
  "PagedFile_has_pending pf \<longleftrightarrow> staged_writes pf \<noteq> []"

section \<open>The buffer pool\<close>

text \<open>The last element of the list is the one \<open>pop\<close> takes.\<close>

definition PagedFile_take_buffer :: "PagedFile \<Rightarrow> AlignedBuf \<times> PagedFile" where
  "PagedFile_take_buffer pf =
     (if pool pf = [] then (AlignedBuf_clear (AlignedBuf_zeroed 0), pf)
      else (AlignedBuf_clear (last (pool pf)), pf\<lparr>pool := butlast (pool pf)\<rparr>))"

definition PagedFile_take_sized :: "PagedFile \<Rightarrow> nat \<Rightarrow> AlignedBuf \<times> PagedFile" where
  "PagedFile_take_sized pf len =
     (let (buffer, pf) = PagedFile_take_buffer pf in (AlignedBuf_resize_zeroed buffer len, pf))"

definition PagedFile_recycle :: "PagedFile \<Rightarrow> AlignedBuf \<Rightarrow> PagedFile" where
  "PagedFile_recycle pf buf =
     (if length (pool pf) < MAX_POOLED_BUFFERS \<and> AlignedBuf_capacity buf \<le> MAX_POOLED_BUFFER_CAPACITY
      then pf\<lparr>pool := pool pf @ [buf]\<rparr> else pf)"

section \<open>Flushing\<close>

text \<open>\<open>(lo..hi).step_by(PAGE)\<close>.\<close>

definition pages_between :: "u64 \<Rightarrow> u64 \<Rightarrow> u64 list" where
  "pages_between lo hi =
     map (\<lambda>k. lo + of_nat (PAGE * k)) [0..<(unat hi - unat lo + (PAGE - 1)) div PAGE]"

text \<open>One page of the file, read into a zeroed buffer.\<close>

definition PagedFile_read_page :: "'io BlockIo \<Rightarrow> 'io \<Rightarrow> PagedFile \<Rightarrow> u64 \<Rightarrow> bytes res \<times> 'io" where
  "PagedFile_read_page D io pf page_off =
     (case read_vec D io (pf_file pf) [(page_off, AlignedBuf_deref (AlignedBuf_zeroed PAGE))] of
        (Inl e, io) \<Rightarrow> (Inl e, io)
      | (Inr pages, io) \<Rightarrow> (Inr (hd pages), io))"

text \<open>
  The bytes that follow a write on its last page: from the page read when the write began on it,
  from the kept tail page, or from the file.
\<close>

definition flush_suffix ::
  "'io BlockIo \<Rightarrow> 'io \<Rightarrow> PagedFile \<Rightarrow> StagedWrite \<Rightarrow> u64 \<Rightarrow> bytes res \<times> 'io" where
  "flush_suffix D io pf w last_page =
     (case (if last_page = StagedWrite_base w then sw_head w else None) of
        Some page \<Rightarrow> (Inr page, io)
      | None \<Rightarrow>
          (case tail_pages pf last_page of
             Some page \<Rightarrow> (Inr page, io)
           | None \<Rightarrow> PagedFile_read_page D io pf last_page))"

text \<open>One round of the first loop of \<open>flush\<close>.\<close>

definition flush_prepare ::
  "'io BlockIo \<Rightarrow> 'io \<Rightarrow> PagedFile \<Rightarrow> StagedWrite \<Rightarrow> StagedWrite res \<times> 'io \<times> PagedFile" where
  "flush_prepare D io pf w =
     (let w_end = StagedWrite_end w;
          base = StagedWrite_base w;
          buffer = AlignedBuf_resize_zeroed (sw_buffer w) (unat (page_up w_end - base));
          forget = (\<lambda>m. foldl (\<lambda>m page. m(page := None)) m (pages_between base (page_up w_end)))
      in if w_end mod PAGE_SIZE_U64 \<noteq> 0 then
           let last_page = page_down w_end;
               within = unat (w_end - last_page)
           in case flush_suffix D io pf w last_page of
                (Inl e, io) \<Rightarrow> (Inl e, io, pf)
              | (Inr page, io) \<Rightarrow>
                  let page_buffer_offset = unat (last_page - base);
                      buffer = AlignedBuf_deref_put buffer (page_buffer_offset + within) (drop within page);
                      tails = (forget (tail_pages pf))
                        (last_page \<mapsto> slice_of page_buffer_offset PAGE (AlignedBuf_deref buffer))
                  in (Inr (w\<lparr>sw_buffer := buffer\<rparr>), io, pf\<lparr>tail_pages := tails\<rparr>)
         else (Inr (w\<lparr>sw_buffer := buffer\<rparr>), io, pf\<lparr>tail_pages := forget (tail_pages pf)\<rparr>))"

fun flush_prepare_all ::
  "'io BlockIo \<Rightarrow> 'io \<Rightarrow> PagedFile \<Rightarrow> StagedWrite list \<Rightarrow> StagedWrite list res \<times> 'io \<times> PagedFile" where
  "flush_prepare_all D io pf [] = (Inr [], io, pf)"
| "flush_prepare_all D io pf (w # ws) =
     (case flush_prepare D io pf w of
        (Inl e, io, pf) \<Rightarrow> (Inl e, io, pf)
      | (Inr w, io, pf) \<Rightarrow>
          (case flush_prepare_all D io pf ws of
             (Inl e, io, pf) \<Rightarrow> (Inl e, io, pf)
           | (Inr ws, io, pf) \<Rightarrow> (Inr (w # ws), io, pf)))"

definition PagedFile_flush :: "'io BlockIo \<Rightarrow> 'io \<Rightarrow> PagedFile \<Rightarrow> unit res \<times> 'io \<times> PagedFile" where
  "PagedFile_flush D io pf =
     (if staged_writes pf = [] then (Inr (), io, pf)
      else case flush_prepare_all D io (pf\<lparr>staged_writes := []\<rparr>) (staged_writes pf) of
        (Inl e, io, pf) \<Rightarrow> (Inl e, io, pf)
      | (Inr ws, io, pf) \<Rightarrow>
          (case write_vec D io (pf_file pf)
                  (map (\<lambda>w. (StagedWrite_base w, AlignedBuf_deref (sw_buffer w))) ws) of
             (Inl e, io, f) \<Rightarrow> (Inl e, io, pf\<lparr>pf_file := f\<rparr>)
           | (Inr _, io, f) \<Rightarrow>
               (Inr (), io, foldl (\<lambda>pf w. PagedFile_recycle pf (sw_buffer w))
                              (pf\<lparr>pf_file := f, pending_bytes := 0\<rparr>) ws)))"

section \<open>Staging\<close>

definition parts_len :: "bytes list \<Rightarrow> nat" where
  "parts_len parts = sum_list (map length parts)"

text \<open>The early return: the write continues a staged one.\<close>

definition stage_continue :: "PagedFile \<Rightarrow> u64 \<Rightarrow> bytes list \<Rightarrow> PagedFile option" where
  "stage_continue pf off parts =
     (case position (\<lambda>w. StagedWrite_end w = off) (staged_writes pf) of
        None \<Rightarrow> None
      | Some i \<Rightarrow>
          let new_end = page_up (off + of_nat (parts_len parts));
              w = staged_writes pf ! i;
              base = StagedWrite_base w;
              overlaps_other_write =
                list_ex (\<lambda>(j, other). j \<noteq> i \<and> StagedWrite_base other < new_end
                    \<and> base < page_up (StagedWrite_end other))
                  (enumerate 0 (staged_writes pf))
          in if overlaps_other_write then None
             else Some (pf\<lparr>staged_writes := (staged_writes pf)
                      [i := w\<lparr>sw_buffer := foldl AlignedBuf_extend_from_slice (sw_buffer w) parts\<rparr>],
                    pending_bytes := pending_bytes pf + parts_len parts\<rparr>))"

definition stage_overlaps :: "PagedFile \<Rightarrow> u64 \<Rightarrow> nat \<Rightarrow> bool" where
  "stage_overlaps pf off len \<longleftrightarrow>
     (let head_page = page_down off;
          new_end = page_up (off + of_nat len)
      in list_ex (\<lambda>w. StagedWrite_base w < new_end \<and> head_page < page_up (StagedWrite_end w))
           (staged_writes pf))"

definition flush_if :: "bool \<Rightarrow> 'io BlockIo \<Rightarrow> 'io \<Rightarrow> PagedFile \<Rightarrow> unit res \<times> 'io \<times> PagedFile" where
  "flush_if c D io pf = (if c then PagedFile_flush D io pf else (Inr (), io, pf))"

text \<open>The page a write begins on, when it does not begin at the page's start.\<close>

definition stage_head :: "'io BlockIo \<Rightarrow> 'io \<Rightarrow> PagedFile \<Rightarrow> u64 \<Rightarrow> bytes option res \<times> 'io" where
  "stage_head D io pf off =
     (let head_page = page_down off in
      if 0 < unat (off - head_page) then
        (case tail_pages pf head_page of
           Some page \<Rightarrow> (Inr (Some page), io)
         | None \<Rightarrow>
             (case PagedFile_read_page D io pf head_page of
                (Inl e, io) \<Rightarrow> (Inl e, io)
              | (Inr page, io) \<Rightarrow> (Inr (Some page), io)))
      else (Inr None, io))"

definition stage_push :: "'io BlockIo \<Rightarrow> 'io \<Rightarrow> PagedFile \<Rightarrow> u64 \<Rightarrow> bytes list \<Rightarrow> unit res \<times> 'io \<times> PagedFile" where
  "stage_push D io pf off parts =
     (let (buf, pf) = PagedFile_take_buffer pf;
          pad = unat (off - page_down off)
      in case stage_head D io pf off of
           (Inl e, io) \<Rightarrow> (Inl e, io, pf)
         | (Inr head, io) \<Rightarrow>
             let buf = (case head of None \<Rightarrow> buf
                        | Some page \<Rightarrow> AlignedBuf_extend_from_slice buf (take pad page));
                 buf = foldl AlignedBuf_extend_from_slice buf parts
             in (Inr (), io, pf\<lparr>pending_bytes := pending_bytes pf + parts_len parts,
                  staged_writes := staged_writes pf @ [\<lparr>sw_start = off, sw_buffer = buf, sw_head = head\<rparr>]\<rparr>))"

definition PagedFile_stage ::
  "'io BlockIo \<Rightarrow> 'io \<Rightarrow> PagedFile \<Rightarrow> u64 \<Rightarrow> bytes list \<Rightarrow> unit res \<times> 'io \<times> PagedFile" where
  "PagedFile_stage D io pf off parts =
     (case stage_continue pf off parts of
        Some pf \<Rightarrow> (Inr (), io, pf)
      | None \<Rightarrow>
          (case flush_if (MAX_STAGED_WRITES \<le> length (staged_writes pf)) D io pf of
             (Inl e, io, pf) \<Rightarrow> (Inl e, io, pf)
           | (Inr _, io, pf) \<Rightarrow>
               (case flush_if (stage_overlaps pf off (parts_len parts)) D io pf of
                  (Inl e, io, pf) \<Rightarrow> (Inl e, io, pf)
                | (Inr _, io, pf) \<Rightarrow> stage_push D io pf off parts)))"

section \<open>Reading\<close>

definition PagedFile_read_aligned ::
  "'io BlockIo \<Rightarrow> 'io \<Rightarrow> PagedFile \<Rightarrow> u64 \<Rightarrow> u64 \<Rightarrow> (AlignedBuf \<times> nat) res \<times> 'io \<times> PagedFile" where
  "PagedFile_read_aligned D io pf off len =
     (case PagedFile_flush D io pf of
        (Inl e, io, pf) \<Rightarrow> (Inl e, io, pf)
      | (Inr _, io, pf) \<Rightarrow>
          let base = page_down off;
              (buf, pf) = PagedFile_take_buffer pf;
              buf = AlignedBuf_resize_zeroed buf (unat (page_up (off + len) - base))
          in case read_vec D io (pf_file pf) [(base, AlignedBuf_deref buf)] of
               (Inl e, io) \<Rightarrow> (Inl e, io, pf)
             | (Inr bufs, io) \<Rightarrow>
                 (Inr (AlignedBuf_deref_put buf 0 (hd bufs), unat (off - base)), io, pf))"

section \<open>What a paged file is seen to hold\<close>

text \<open>
  The bytes a staged write covers, as natural numbers: from the start of its first page, to the end of
  its buffer, to the end of its last page. Offsets stay below \<open>2 ^ 62\<close>, so nothing wraps.
\<close>

definition sw_lo :: "StagedWrite \<Rightarrow> nat" where
  "sw_lo w = unat (sw_start w) div 4096 * 4096"

definition sw_hi :: "StagedWrite \<Rightarrow> nat" where
  "sw_hi w = sw_lo w + ab_len (sw_buffer w)"

definition sw_up :: "StagedWrite \<Rightarrow> nat" where
  "sw_up w = (sw_hi w + 4095) div 4096 * 4096"

abbreviation OFF_MAX :: nat where
  "OFF_MAX \<equiv> 4611686018427387904"

text \<open>A staged write that agrees with the file contents \<open>c\<close> before its start.\<close>

definition sw_ok :: "bytes \<Rightarrow> StagedWrite \<Rightarrow> bool" where
  "sw_ok c w \<longleftrightarrow> ab_ok (sw_buffer w) \<and> unat (sw_start w) \<le> sw_hi w \<and> sw_hi w \<le> OFF_MAX \<and>
     (\<forall>i. sw_lo w \<le> i \<and> i < unat (sw_start w) \<longrightarrow> AlignedBuf_deref (sw_buffer w) ! (i - sw_lo w) = byte_at c i) \<and>
     (sw_head w = None \<or> sw_head w = Some (read_zeros c (sw_lo w) 4096))"

definition sw_apart :: "StagedWrite \<Rightarrow> StagedWrite \<Rightarrow> bool" where
  "sw_apart v w \<longleftrightarrow> sw_up v \<le> sw_lo w \<or> sw_up w \<le> sw_lo v"

text \<open>A set of kept pages that agrees with the contents \<open>h\<close>.\<close>

definition tails_ok :: "(nat \<Rightarrow> u8) \<Rightarrow> (u64 \<rightharpoonup> bytes) \<Rightarrow> bool" where
  "tails_ok h m \<longleftrightarrow> (\<forall>p pg. m p = Some pg \<longrightarrow> 4096 dvd unat p \<and> pg = map (\<lambda>k. h (unat p + k)) [0..<4096])"

definition pf_ok :: "PagedFile \<Rightarrow> bool" where
  "pf_ok pf \<longleftrightarrow> (\<forall>w \<in> set (staged_writes pf). sw_ok (f_content (pf_file pf)) w) \<and>
     sorted_wrt sw_apart (staged_writes pf) \<and>
     tails_ok (byte_at (f_content (pf_file pf))) (tail_pages pf)"

definition sw_covers :: "nat \<Rightarrow> StagedWrite \<Rightarrow> bool" where
  "sw_covers i w \<longleftrightarrow> sw_lo w \<le> i \<and> i < sw_hi w"

definition pf_view :: "PagedFile \<Rightarrow> nat \<Rightarrow> u8" where
  "pf_view pf i =
     (case find (sw_covers i) (staged_writes pf) of
        Some w \<Rightarrow> AlignedBuf_deref (sw_buffer w) ! (i - sw_lo w)
      | None \<Rightarrow> byte_at (f_content (pf_file pf)) i)"

text \<open>The contents \<open>h\<close> with bytes written at an offset.\<close>

definition overlay :: "(nat \<Rightarrow> u8) \<Rightarrow> nat \<Rightarrow> bytes \<Rightarrow> nat \<Rightarrow> u8" where
  "overlay h off bs i = (if off \<le> i \<and> i < off + length bs then bs ! (i - off) else h i)"

lemma sw_lo_base: "unat (StagedWrite_base w) = sw_lo w"
  by (simp add: StagedWrite_base_def sw_lo_def)

lemma sw_lo_le: "sw_lo w \<le> unat (sw_start w)" "unat (sw_start w) < sw_lo w + 4096"
  by (simp_all add: sw_lo_def)

lemma sw_bounds: "sw_lo w \<le> sw_hi w" "sw_hi w \<le> sw_up w" "sw_up w < sw_hi w + 4096"
  by (simp_all add: sw_hi_def sw_up_def)

lemma sw_dvd: "4096 dvd sw_lo w" "4096 dvd sw_up w"
  by (simp_all add: sw_lo_def sw_up_def)

lemma sw_hi_end: "sw_hi w \<le> OFF_MAX \<Longrightarrow> unat (StagedWrite_end w) = sw_hi w"
  unfolding StagedWrite_end_def sw_hi_def
  by (subst unat_add_nowrap) (simp_all add: unat_of_nat_nowrap sw_lo_base)

lemma sw_up_end: "sw_hi w \<le> OFF_MAX \<Longrightarrow> unat (page_up (StagedWrite_end w)) = sw_up w"
  using sw_hi_end [of w] by (simp add: unat_page_up sw_up_def)

lemma less_ceil_div: "4096 * k < (y :: nat) \<Longrightarrow> k < (y + 4095) div 4096"
  by arith

lemma pages_between_mem:
  assumes "4096 dvd unat p" and "unat lo \<le> unat p" and "unat p < unat hi" and "4096 dvd unat lo"
  shows "p \<in> set (pages_between lo hi)"
proof -
  let ?k = "(unat p - unat lo) div 4096"
  have k: "4096 * ?k = unat p - unat lo" using assms by (simp add: dvd_diff_nat)
  have "lo + of_nat (PAGE * ?k) = p"
  proof (rule word_unat_eq_iff [THEN iffD2])
    have "PAGE * ?k = unat p - unat lo" using k by (simp add: PAGE_def)
    moreover have "unat p - unat lo < 18446744073709551616"
      using unat_u64_less [of p] by (simp del: unat_u64_less)
    ultimately show "unat (lo + of_nat (PAGE * ?k)) = unat p"
      using assms(2) by (simp add: unat_add_nowrap unat_of_nat_nowrap)
  qed
  moreover have "?k < (unat hi - unat lo + (PAGE - 1)) div PAGE"
  proof -
    have "4096 * ?k < unat hi - unat lo" using assms k by linarith
    from less_ceil_div [OF this] show ?thesis by (simp add: PAGE_def)
  qed
  ultimately show ?thesis by (force simp: pages_between_def)
qed

lemma forget_pages: "foldl (\<lambda>m p. m(p := None)) m ps q = (if q \<in> set ps then None else m q)"
  by (induction ps arbitrary: m) auto

lemma read_zeros_map: "read_zeros c off n = map (\<lambda>k. byte_at c (off + k)) [0..<n]"
  by (simp add: read_zeros_def)

section \<open>The pages of a staged write\<close>

text \<open>The whole pages a staged write turns into when it is flushed over the contents \<open>c\<close>.\<close>

definition sw_image :: "bytes \<Rightarrow> StagedWrite \<Rightarrow> bytes" where
  "sw_image c w = AlignedBuf_deref (sw_buffer w) @ read_zeros c (sw_hi w) (sw_up w - sw_hi w)"

definition sw_agree :: "bytes \<Rightarrow> (nat \<Rightarrow> u8) \<Rightarrow> StagedWrite \<Rightarrow> bool" where
  "sw_agree c h w \<longleftrightarrow> (\<forall>i. sw_lo w \<le> i \<and> i < sw_up w \<longrightarrow> h i = byte_at c i)"

lemma sw_okD:
  assumes "sw_ok c w"
  shows "ab_ok (sw_buffer w)" "sw_hi w \<le> OFF_MAX" "unat (sw_start w) \<le> sw_hi w"
    "sw_head w = Some page \<Longrightarrow> page = read_zeros c (sw_lo w) 4096"
  using assms by (auto simp: sw_ok_def)

lemma length_sw_image [simp]: "sw_ok c w \<Longrightarrow> length (sw_image c w) = sw_up w - sw_lo w"
  using sw_bounds [of w] by (simp add: sw_image_def sw_okD sw_hi_def)

lemma nth_sw_image:
  assumes "sw_ok c w" and "sw_lo w \<le> i" and "i < sw_up w"
  shows "sw_image c w ! (i - sw_lo w) =
    (if i < sw_hi w then AlignedBuf_deref (sw_buffer w) ! (i - sw_lo w) else byte_at c i)"
  using assms by (auto simp: sw_image_def nth_append sw_okD sw_hi_def)

lemma dvd_le_page: "4096 dvd (a :: nat) \<Longrightarrow> a \<le> b \<Longrightarrow> a \<le> b - b mod 4096"
  by (elim dvdE) (simp add: minus_mod_eq_mult_div less_eq_div_iff_mult_less_eq mult.commute)

lemma ceil_page:
  fixes b :: nat
  shows "b mod 4096 \<noteq> 0 \<Longrightarrow> (b + 4095) div 4096 * 4096 = b - b mod 4096 + 4096"
    and "b mod 4096 = 0 \<Longrightarrow> (b + 4095) div 4096 * 4096 = b"
proof -
  define q r where qr: "q = b div 4096" "r = b mod 4096"
  then have b: "b = 4096 * q + r" and r: "r < 4096" by simp_all
  have ceil: "(b + 4095) div 4096 = q + (r + 4095) div 4096"
    by (simp only: b add.assoc div_mult_self4 [symmetric])
  { assume "b mod 4096 \<noteq> 0"
    then have "(r + 4095) div 4096 = 1" using qr(2) r by (intro div_nat_eqI) simp_all
    then show "(b + 4095) div 4096 * 4096 = b - b mod 4096 + 4096"
      unfolding ceil minus_mod_eq_mult_div qr(1) by simp }
  { assume "b mod 4096 = 0"
    then have "r = 0" using qr(2) by simp
    with b show "(b + 4095) div 4096 * 4096 = b"
      unfolding ceil by simp }
qed

lemma sw_pages:
  assumes "sw_hi w \<le> OFF_MAX"
  shows "unat (page_up (StagedWrite_end w) - StagedWrite_base w) = sw_up w - sw_lo w"
    "StagedWrite_end w mod PAGE_SIZE_U64 \<noteq> 0 \<longleftrightarrow> sw_hi w mod 4096 \<noteq> 0"
    "unat (page_down (StagedWrite_end w)) = sw_hi w - sw_hi w mod 4096"
    "unat (StagedWrite_end w - page_down (StagedWrite_end w)) = sw_hi w mod 4096"
    "sw_lo w \<le> sw_hi w - sw_hi w mod 4096"
    "sw_hi w mod 4096 \<noteq> 0 \<Longrightarrow> sw_up w = sw_hi w - sw_hi w mod 4096 + 4096"
    "sw_hi w mod 4096 = 0 \<Longrightarrow> sw_up w = sw_hi w"
proof -
  note b = sw_bounds [of w] sw_hi_end [OF assms] sw_up_end [OF assms] sw_lo_base [of w]
  show "unat (page_up (StagedWrite_end w) - StagedWrite_base w) = sw_up w - sw_lo w"
    using b by (simp add: unat_sub_nowrap)
  show "StagedWrite_end w mod PAGE_SIZE_U64 \<noteq> 0 \<longleftrightarrow> sw_hi w mod 4096 \<noteq> 0"
    using b by (simp add: PAGE_SIZE_U64_eq word_unat_eq_iff unat_mod_distrib)
  show d: "unat (page_down (StagedWrite_end w)) = sw_hi w - sw_hi w mod 4096"
    using b by (simp add: minus_mod_eq_div_mult)
  show "unat (StagedWrite_end w - page_down (StagedWrite_end w)) = sw_hi w mod 4096"
    using d b by (subst unat_sub_nowrap) simp_all
  show "sw_lo w \<le> sw_hi w - sw_hi w mod 4096"
    using b(1) by (rule dvd_le_page [OF sw_dvd(1)])
  show "sw_hi w mod 4096 \<noteq> 0 \<Longrightarrow> sw_up w = sw_hi w - sw_hi w mod 4096 + 4096"
    "sw_hi w mod 4096 = 0 \<Longrightarrow> sw_up w = sw_hi w"
    unfolding sw_up_def by (simp_all add: ceil_page)
qed

text \<open>Kept pages after the pages of a write are forgotten, and after its last page is kept.\<close>

lemma overlay_outside: "(i < off \<or> off + length bs \<le> i) \<Longrightarrow> overlay h off bs i = h i"
  by (auto simp: overlay_def)

lemma page_apart:
  assumes "4096 dvd p" and "4096 dvd lo" and "4096 dvd up" and "\<not> (lo \<le> p \<and> p < up)" and "k < 4096"
  shows "p + k < lo \<or> up \<le> (p + k :: nat)"
proof -
  obtain a b c where "p = 4096 * a" "lo = 4096 * b" "up = 4096 * c"
    using assms(1-3) by (auto elim!: dvdE)
  with assms(4,5) show ?thesis by auto
qed

lemma tails_ok_forget:
  assumes t: "tails_ok h m" and w: "sw_ok c w"
  shows "tails_ok (overlay h (sw_lo w) (sw_image c w))
    (foldl (\<lambda>m p. m(p := None)) m (pages_between (StagedWrite_base w) (page_up (StagedWrite_end w))))"
  unfolding tails_ok_def
proof (intro allI impI)
  fix p pg
  let ?ps = "pages_between (StagedWrite_base w) (page_up (StagedWrite_end w))"
  assume "foldl (\<lambda>m p. m(p := None)) m ?ps p = Some pg"
  then have p: "p \<notin> set ?ps" "m p = Some pg" by (auto simp: forget_pages split: if_splits)
  then have a: "4096 dvd unat p" and pg: "pg = map (\<lambda>k. h (unat p + k)) [0..<4096]"
    using t by (auto simp: tails_ok_def)
  have "\<not> (sw_lo w \<le> unat p \<and> unat p < sw_up w)"
    using pages_between_mem [of p "StagedWrite_base w" "page_up (StagedWrite_end w)"] a p(1)
      sw_up_end [OF sw_okD(2) [OF w]] sw_dvd [of w] by (auto simp: sw_lo_base)
  note out = page_apart [OF a sw_dvd(1) sw_dvd(2) this]
  have "overlay h (sw_lo w) (sw_image c w) (unat p + k) = h (unat p + k)" if "k < 4096" for k
    using out [OF that] sw_bounds [of w] by (intro overlay_outside) (simp add: w)
  with a pg show "4096 dvd unat p \<and> pg = map (\<lambda>k. overlay h (sw_lo w) (sw_image c w) (unat p + k)) [0..<4096]"
    by simp
qed

lemma tails_ok_keep:
  assumes "tails_ok h m" and "4096 dvd unat p" and "pg = map (\<lambda>k. h (unat p + k)) [0..<4096]"
  shows "tails_ok h (m(p \<mapsto> pg))"
  using assms by (simp add: tails_ok_def)

lemma last_page_image:
  assumes "sw_ok c w" and "sw_lo w \<le> l" and "sw_up w = l + 4096"
  shows "slice_of (l - sw_lo w) 4096 (sw_image c w) =
    map (\<lambda>k. overlay h (sw_lo w) (sw_image c w) (l + k)) [0..<4096]"
  using assms by (intro nth_equalityI) (simp_all add: overlay_def)

lemma flush_buffer:
  assumes w: "sw_ok c w" and page: "page = read_zeros c l 4096"
    and l: "l = sw_hi w - sw_hi w mod 4096" and part: "sw_hi w mod 4096 \<noteq> 0"
  defines "buffer \<equiv> AlignedBuf_resize_zeroed (sw_buffer w) (sw_up w - sw_lo w)"
  shows "AlignedBuf_deref (AlignedBuf_deref_put buffer (l - sw_lo w + sw_hi w mod 4096)
    (drop (sw_hi w mod 4096) page)) = sw_image c w"
proof -
  note p = sw_pages(5,6) [OF sw_okD(2) [OF w], folded l] and b = sw_bounds [of w]
  have hi: "l - sw_lo w + sw_hi w mod 4096 = ab_len (sw_buffer w)" "sw_hi w = l + sw_hi w mod 4096"
    using p(1) l sw_hi_def [of w] by (simp_all add: mod_less_eq_dividend)
  have up: "sw_up w - sw_hi w = 4096 - sw_hi w mod 4096" "sw_up w - sw_lo w = ab_len (sw_buffer w) + (4096 - sw_hi w mod 4096)"
    using p(2) [OF part] hi p(1) by simp_all
  have tail: "drop (sw_hi w mod 4096) page = read_zeros c (sw_hi w) (4096 - sw_hi w mod 4096)"
    using hi(2) by (intro nth_equalityI) (simp_all add: page add.assoc [symmetric])
  have "AlignedBuf_deref buffer = AlignedBuf_deref (sw_buffer w) @ replicate (4096 - sw_hi w mod 4096) 0"
    using up sw_okD(1) [OF w] by (simp add: buffer_def deref_resize)
  moreover have "ab_ok buffer" "ab_len buffer = sw_up w - sw_lo w"
    using sw_okD(1) [OF w] by (simp_all add: buffer_def)
  moreover obtain r where r: "sw_hi w mod 4096 = r" "r \<le> 4096"
    using mod_less_divisor [of 4096 "sw_hi w"] by simp
  ultimately show ?thesis
    using hi(1) up sw_okD(1) [OF w] r(2) unfolding r(1)
    by (simp add: deref_put tail [unfolded r(1)] sw_image_def put_slice_def)
qed

lemma flush_buffer_full:
  assumes w: "sw_ok c w" and full: "sw_hi w mod 4096 = 0"
  shows "AlignedBuf_deref (AlignedBuf_resize_zeroed (sw_buffer w) (sw_up w - sw_lo w)) = sw_image c w"
  using sw_pages(7) [OF sw_okD(2) [OF w] full] sw_okD(1) [OF w] sw_hi_def [of w]
  by (simp add: deref_resize sw_image_def read_zeros_def)

lemma sw_agree_page:
  assumes "sw_agree c h w" and "sw_lo w \<le> l" and "sw_up w = l + 4096"
  shows "map (\<lambda>k. h (l + k)) [0..<4096] = read_zeros c l 4096"
  using assms by (simp add: sw_agree_def read_zeros_map)

text \<open>The writes of a list of staged writes, one after the other.\<close>

definition overlay_all :: "bytes \<Rightarrow> (nat \<Rightarrow> u8) \<Rightarrow> StagedWrite list \<Rightarrow> nat \<Rightarrow> u8" where
  "overlay_all c = foldl (\<lambda>h w. overlay h (sw_lo w) (sw_image c w))"

lemma overlay_all_simps [simp]:
  "overlay_all c h [] = h"
  "overlay_all c h (w # ws) = overlay_all c (overlay h (sw_lo w) (sw_image c w)) ws"
  by (simp_all add: overlay_all_def)

lemma sw_agree_overlay:
  assumes "sw_agree c h v" and "sw_apart w v" and "sw_ok c w"
  shows "sw_agree c (overlay h (sw_lo w) (sw_image c w)) v"
  using assms sw_bounds [of w] by (auto simp: sw_agree_def sw_apart_def overlay_def)

lemma covers_apart: "sw_covers i v \<Longrightarrow> sw_apart v w \<Longrightarrow> \<not> sw_covers i w"
  using sw_bounds [of v] sw_bounds [of w] by (auto simp: sw_covers_def sw_apart_def)

text \<open>What is seen through non-overlapping staged writes is what writing them gives.\<close>

lemma overlay_all_view:
  assumes "\<forall>w \<in> set ws. sw_ok c w \<and> sw_agree c h w" and "sorted_wrt sw_apart ws"
  shows "overlay_all c h ws i =
    (case find (sw_covers i) ws of Some w \<Rightarrow> AlignedBuf_deref (sw_buffer w) ! (i - sw_lo w) | None \<Rightarrow> h i)"
  using assms
proof (induction ws arbitrary: h)
  case Nil
  then show ?case by simp
next
  case (Cons w ws)
  let ?h = "overlay h (sw_lo w) (sw_image c w)"
  have "\<forall>v \<in> set ws. sw_ok c v \<and> sw_agree c ?h v"
    using Cons.prems by (simp add: sw_agree_overlay)
  then have IH: "overlay_all c ?h ws i =
      (case find (sw_covers i) ws of Some w \<Rightarrow> AlignedBuf_deref (sw_buffer w) ! (i - sw_lo w) | None \<Rightarrow> ?h i)"
    using Cons.prems by (intro Cons.IH) simp_all
  have w: "sw_ok c w" "sw_agree c h w" using Cons.prems(1) by simp_all
  have inside: "?h i = (if i < sw_hi w then AlignedBuf_deref (sw_buffer w) ! (i - sw_lo w) else h i)"
    if "sw_lo w \<le> i" "i < sw_up w"
    using that w nth_sw_image [OF w(1) that] by (auto simp: overlay_def sw_agree_def)
  show ?case
  proof (cases "sw_covers i w")
    case True
    then have "find (sw_covers i) ws = None"
      using Cons.prems(2) covers_apart by (auto simp: find_None_iff)
    with True IH inside sw_bounds [of w] show ?thesis by (simp add: sw_covers_def)
  next
    case False
    have "?h i = h i"
    proof (cases "sw_lo w \<le> i \<and> i < sw_up w")
      case True
      with False inside show ?thesis by (simp add: sw_covers_def)
    next
      case False
      then show ?thesis using w(1) sw_bounds [of w] by (intro overlay_outside) auto
    qed
    with False IH show ?thesis by (simp split: option.split)
  qed
qed

lemma writes_overlay_all:
  assumes "\<forall>w \<in> set ws. sw_ok c w"
  shows "byte_at (writes_to d (map (\<lambda>w. (StagedWrite_base w, sw_image c w)) ws)) = overlay_all c (byte_at d) ws"
  using assms
proof (induction ws arbitrary: d)
  case Nil
  then show ?case by (simp add: writes_to_def)
next
  case (Cons w ws)
  have "byte_at (pwrite d (sw_lo w) (sw_image c w)) = overlay (byte_at d) (sw_lo w) (sw_image c w)"
    by (rule ext) (simp add: byte_at_pwrite overlay_def)
  with Cons show ?case by (simp add: writes_to_def sw_lo_base)
qed

lemma sw_agree_self: "sw_agree c (byte_at c) w"
  by (simp add: sw_agree_def)

lemma pf_view_overlay:
  assumes "pf_ok pf"
  shows "pf_view pf = overlay_all (f_content (pf_file pf)) (byte_at (f_content (pf_file pf))) (staged_writes pf)"
  using assms by (intro ext) (subst overlay_all_view; simp add: pf_ok_def pf_view_def sw_agree_self)

section \<open>Flushing writes what is seen\<close>

context block_io
begin

lemma read_page_Inr:
  assumes "PagedFile_read_page D io pf p = (Inr page, io')" and "unat p \<le> OFF_MAX"
  shows "page = read_zeros (f_content (pf_file pf)) (unat p) 4096"
proof -
  obtain pages where "read_vec D io (pf_file pf) [(p, replicate 4096 0)] = (Inr pages, io')" "page = hd pages"
    using assms(1) by (auto simp: PagedFile_read_page_def PAGE_def split: prod.splits sum.splits)
  with read_vec_Inr [of io "pf_file pf" "[(p, replicate 4096 0)]"] assms(2) show ?thesis
    by (simp add: reads_of_def)
qed

lemma flush_suffix_Inr:
  assumes s: "flush_suffix D io pf w l = (Inr page, io')" and c: "c = f_content (pf_file pf)"
    and w: "sw_ok c w" and t: "tails_ok h (tail_pages pf)" and a: "sw_agree c h w"
    and l: "sw_lo w \<le> unat l" "sw_up w = unat l + 4096" "unat l \<le> OFF_MAX"
  shows "page = read_zeros c (unat l) 4096"
proof -
  consider (head) "l = StagedWrite_base w" "sw_head w = Some page"
    | (tail) "tail_pages pf l = Some page"
    | (read) "PagedFile_read_page D io pf l = (Inr page, io')"
    using s by (auto simp: flush_suffix_def split: option.splits if_splits)
  then show ?thesis
  proof cases
    case head
    with sw_okD(4) [OF w] show ?thesis by (simp add: sw_lo_base)
  next
    case tail
    with t have "page = map (\<lambda>k. h (unat l + k)) [0..<4096]" by (auto simp: tails_ok_def)
    with sw_agree_page [OF a l(1,2)] show ?thesis by simp
  next
    case read
    with read_page_Inr l(3) c show ?thesis by simp
  qed
qed

lemma flush_prepare_Inr:
  assumes f: "flush_prepare D io pf w = (Inr w', io', pf')" and c: "c = f_content (pf_file pf)"
    and w: "sw_ok c w" and t: "tails_ok h (tail_pages pf)" and a: "sw_agree c h w"
  shows "StagedWrite_base w' = StagedWrite_base w \<and> AlignedBuf_deref (sw_buffer w') = sw_image c w \<and>
    (\<exists>m. pf' = pf\<lparr>tail_pages := m\<rparr> \<and> tails_ok (overlay h (sw_lo w) (sw_image c w)) m)"
proof -
  let ?l = "page_down (StagedWrite_end w)"
  let ?b = "AlignedBuf_resize_zeroed (sw_buffer w) (sw_up w - sw_lo w)"
  let ?m = "foldl (\<lambda>m p. m(p := None)) (tail_pages pf)
    (pages_between (StagedWrite_base w) (page_up (StagedWrite_end w)))"
  note hi = sw_okD(2) [OF w] and p = sw_pages [OF sw_okD(2) [OF w]] and tf = tails_ok_forget [OF t w]
  show ?thesis
  proof (cases "sw_hi w mod 4096 = 0")
    case True
    then have "w' = w\<lparr>sw_buffer := ?b\<rparr>" "pf' = pf\<lparr>tail_pages := ?m\<rparr>"
      using f p(1,2) by (simp_all add: flush_prepare_def Let_def)
    with flush_buffer_full [OF w True] tf show ?thesis by (auto simp: StagedWrite_base_def)
  next
    case False
    have l: "sw_lo w \<le> unat ?l" "sw_up w = unat ?l + 4096" "unat ?l \<le> OFF_MAX" "4096 dvd unat ?l"
      using p(3,5) p(6) [OF False] hi by simp_all
    have off: "unat (?l - StagedWrite_base w) = unat ?l - sw_lo w"
      using l(1) by (simp add: unat_sub_nowrap sw_lo_base)
    obtain page io1 where s: "flush_suffix D io pf w ?l = (Inr page, io1)"
      using f p(2) False by (auto simp: flush_prepare_def Let_def split: prod.splits sum.splits)
    let ?b' = "AlignedBuf_deref_put ?b (unat ?l - sw_lo w + sw_hi w mod 4096) (drop (sw_hi w mod 4096) page)"
    have b': "AlignedBuf_deref ?b' = sw_image c w"
      by (rule flush_buffer [OF w flush_suffix_Inr [OF s c w t a l(1-3)] p(3) False])
    have "w' = w\<lparr>sw_buffer := ?b'\<rparr>"
      "pf' = pf\<lparr>tail_pages := ?m(?l \<mapsto> slice_of (unat ?l - sw_lo w) 4096 (sw_image c w))\<rparr>"
      using f p(1,2,4) False s off b' by (simp_all add: flush_prepare_def Let_def PAGE_def)
    moreover have "tails_ok (overlay h (sw_lo w) (sw_image c w))
        (?m(?l \<mapsto> slice_of (unat ?l - sw_lo w) 4096 (sw_image c w)))"
      using tf l(4) by (rule tails_ok_keep) (rule last_page_image [OF w l(1,2)])
    ultimately show ?thesis using b' by (auto simp: StagedWrite_base_def)
  qed
qed

lemma flush_prepare_all_Inr:
  assumes "flush_prepare_all D io pf ws = (Inr ws', io', pf')" and "c = f_content (pf_file pf)"
    and "\<forall>w \<in> set ws. sw_ok c w \<and> sw_agree c h w" and "sorted_wrt sw_apart ws"
    and "tails_ok h (tail_pages pf)"
  shows "map (\<lambda>w. (StagedWrite_base w, AlignedBuf_deref (sw_buffer w))) ws' =
      map (\<lambda>w. (StagedWrite_base w, sw_image c w)) ws \<and>
    (\<exists>m. pf' = pf\<lparr>tail_pages := m\<rparr> \<and> tails_ok (overlay_all c h ws) m)"
  using assms
proof (induction ws arbitrary: io pf h ws')
  case Nil
  then show ?case by (auto intro: exI [of _ "tail_pages pf"])
next
  case (Cons w ws)
  obtain w1 io1 pf1 ws1 where one: "flush_prepare D io pf w = (Inr w1, io1, pf1)"
    and rest: "flush_prepare_all D io1 pf1 ws = (Inr ws1, io', pf')" "ws' = w1 # ws1"
    using Cons.prems(1) by (auto split: prod.splits sum.splits)
  have w: "sw_ok c w" "sw_agree c h w" using Cons.prems(3) by simp_all
  let ?h = "overlay h (sw_lo w) (sw_image c w)"
  from flush_prepare_Inr [OF one Cons.prems(2) w(1) Cons.prems(5) w(2)] obtain m where
    w1: "StagedWrite_base w1 = StagedWrite_base w" "AlignedBuf_deref (sw_buffer w1) = sw_image c w"
    and pf1: "pf1 = pf\<lparr>tail_pages := m\<rparr>" "tails_ok ?h m" by blast
  have "\<forall>v \<in> set ws. sw_ok c v \<and> sw_agree c ?h v"
    using Cons.prems(3,4) by (simp add: sw_agree_overlay)
  then have "map (\<lambda>w. (StagedWrite_base w, AlignedBuf_deref (sw_buffer w))) ws1 =
      map (\<lambda>w. (StagedWrite_base w, sw_image c w)) ws \<and>
    (\<exists>m. pf' = pf1\<lparr>tail_pages := m\<rparr> \<and> tails_ok (overlay_all c ?h ws) m)"
    using Cons.prems(2,4) pf1 by (intro Cons.IH [OF rest(1)]) simp_all
  with w1 pf1 rest(2) show ?case by auto
qed

end

lemma recycle_fields [simp]:
  "pf_file (PagedFile_recycle pf b) = pf_file pf"
  "tail_pages (PagedFile_recycle pf b) = tail_pages pf"
  "staged_writes (PagedFile_recycle pf b) = staged_writes pf"
  "pending_bytes (PagedFile_recycle pf b) = pending_bytes pf"
  "allocated_end (PagedFile_recycle pf b) = allocated_end pf"
  by (simp_all add: PagedFile_recycle_def)

lemma recycle_all_fields [simp]:
  "pf_file (foldl (\<lambda>pf w. PagedFile_recycle pf (sw_buffer w)) pf ws) = pf_file pf"
  "tail_pages (foldl (\<lambda>pf w. PagedFile_recycle pf (sw_buffer w)) pf ws) = tail_pages pf"
  "staged_writes (foldl (\<lambda>pf w. PagedFile_recycle pf (sw_buffer w)) pf ws) = staged_writes pf"
  "pending_bytes (foldl (\<lambda>pf w. PagedFile_recycle pf (sw_buffer w)) pf ws) = pending_bytes pf"
  "allocated_end (foldl (\<lambda>pf w. PagedFile_recycle pf (sw_buffer w)) pf ws) = allocated_end pf"
  by (induction ws arbitrary: pf) simp_all

lemma flush_reqs_ok:
  assumes "\<forall>w \<in> set ws. sw_ok c w"
  shows "reqs_ok (map (\<lambda>w. (StagedWrite_base w, sw_image c w)) ws)"
proof -
  have "unat (StagedWrite_base w) + length (sw_image c w) \<le> 18446744073709551616" if "sw_ok c w" for w
    using that sw_bounds [of w] sw_okD(2) [OF that] by (simp add: sw_lo_base)
  with assms show ?thesis by (auto simp: reqs_ok_def)
qed

lemma flush_reqs_apart:
  assumes "\<forall>w \<in> set ws. sw_ok c w" and "sorted_wrt sw_apart ws"
  shows "reqs_apart (map (\<lambda>w. (StagedWrite_base w, sw_image c w)) ws)"
  unfolding reqs_apart_def sorted_wrt_map
proof (rule sorted_wrt_mono_rel [OF _ assms(2)])
  fix v w
  assume "v \<in> set ws" "w \<in> set ws" "sw_apart v w"
  with assms(1) sw_bounds [of v] sw_bounds [of w]
  show "req_apart (StagedWrite_base v, sw_image c v) (StagedWrite_base w, sw_image c w)"
    by (auto simp: req_apart_def sw_apart_def sw_lo_base)
qed

text \<open>What staging, flushing and reading leave alone.\<close>

definition pf_same :: "PagedFile \<Rightarrow> PagedFile \<Rightarrow> bool" where
  "pf_same pf pf' \<longleftrightarrow> allocated_end pf' = allocated_end pf \<and>
     f_durable (pf_file pf') = f_durable (pf_file pf) \<and> f_limit (pf_file pf') = f_limit (pf_file pf)"

lemma pf_same_refl [simp]: "pf_same pf pf"
  and pf_same_trans: "pf_same a b \<Longrightarrow> pf_same b d \<Longrightarrow> pf_same a d"
  by (simp_all add: pf_same_def)

text \<open>What an operation leaves that changes nothing that is seen.\<close>

definition pf_keep :: "PagedFile \<Rightarrow> PagedFile \<Rightarrow> bool" where
  "pf_keep pf pf' \<longleftrightarrow> pf_ok pf' \<and> pf_view pf' = pf_view pf \<and> pf_same pf pf'"

lemma pf_keep_trans: "pf_keep a b \<Longrightarrow> pf_keep b d \<Longrightarrow> pf_keep a d"
  by (auto simp: pf_keep_def intro: pf_same_trans)

lemma pf_keep_recycle: "pf_keep pf pf' \<Longrightarrow> pf_keep pf (PagedFile_recycle pf' b)"
  unfolding pf_keep_def pf_ok_def pf_same_def pf_view_def recycle_fields by simp

lemma pf_view_Nil: "staged_writes pf = [] \<Longrightarrow> pf_view pf = byte_at (f_content (pf_file pf))"
  by (rule ext) (simp add: pf_view_def)

text \<open>A file with nothing staged that holds what \<open>h\<close> says.\<close>

definition pf_settled :: "(nat \<Rightarrow> u8) \<Rightarrow> PagedFile \<Rightarrow> bool" where
  "pf_settled h pf \<longleftrightarrow> staged_writes pf = [] \<and> byte_at (f_content (pf_file pf)) = h \<and> tails_ok h (tail_pages pf)"

lemma pf_settledD:
  assumes "pf_settled h pf"
  shows "pf_ok pf" "pf_view pf = h" "staged_writes pf = []" "byte_at (f_content (pf_file pf)) = h"
  using assms by (auto simp: pf_settled_def pf_ok_def pf_view_def)

context block_io
begin

text \<open>A flush with something staged writes the images of the staged writes and keeps their last pages.\<close>

lemma flush_steps:
  assumes f: "PagedFile_flush D io pf = (Inr u, io', pf')" and ok: "pf_ok pf" and staged: "staged_writes pf \<noteq> []"
    and c: "c = f_content (pf_file pf)"
  obtains m and ws :: "StagedWrite list" where "tails_ok (overlay_all c (byte_at c) (staged_writes pf)) m"
    "pf' = foldl (\<lambda>pf w. PagedFile_recycle pf (sw_buffer w)) (pf\<lparr>staged_writes := [], tail_pages := m, pf_file := (pf_file pf)
       \<lparr>f_content := writes_to c (map (\<lambda>w. (StagedWrite_base w, sw_image c w)) (staged_writes pf))\<rparr>, pending_bytes := 0\<rparr>) ws"
proof -
  let ?ws = "staged_writes pf" and ?pf = "pf\<lparr>staged_writes := []\<rparr>"
  obtain ws io1 pf1 io2 f2 where prep: "flush_prepare_all D io ?pf ?ws = (Inr ws, io1, pf1)"
    and wr: "write_vec D io1 (pf_file pf1) (map (\<lambda>w. (StagedWrite_base w, AlignedBuf_deref (sw_buffer w))) ws) = (Inr (), io2, f2)"
    and pf': "pf' = foldl (\<lambda>pf w. PagedFile_recycle pf (sw_buffer w)) (pf1\<lparr>pf_file := f2, pending_bytes := 0\<rparr>) ws"
    using f staged by (auto simp: PagedFile_flush_def split: prod.splits sum.splits)
  have sw: "\<forall>w \<in> set ?ws. sw_ok c w" "sorted_wrt sw_apart ?ws" "tails_ok (byte_at c) (tail_pages ?pf)"
    using ok c by (simp_all add: pf_ok_def)
  from flush_prepare_all_Inr [OF prep _ _ sw(2,3), of c] sw(1) c obtain m where
    reqs: "map (\<lambda>w. (StagedWrite_base w, AlignedBuf_deref (sw_buffer w))) ws = map (\<lambda>w. (StagedWrite_base w, sw_image c w)) ?ws"
    and pf1: "pf1 = ?pf\<lparr>tail_pages := m\<rparr>" "tails_ok (overlay_all c (byte_at c) ?ws) m"
    by (auto simp: sw_agree_self)
  have "f2 = (pf_file pf)\<lparr>f_content := writes_to c (map (\<lambda>w. (StagedWrite_base w, sw_image c w)) ?ws)\<rparr>"
    using write_vec_Inr [OF wr [unfolded reqs] flush_reqs_ok [OF sw(1)] flush_reqs_apart [OF sw(1,2)]] pf1(1) c
    by simp
  with that [OF pf1(2)] pf1(1) pf' show thesis by simp
qed

lemma flush_Inr:
  assumes f: "PagedFile_flush D io pf = (Inr u, io', pf')" and ok: "pf_ok pf"
  shows "pf_settled (pf_view pf) pf' \<and> pf_same pf pf' \<and> (staged_writes pf \<noteq> [] \<longrightarrow> pending_bytes pf' = 0)"
proof (cases "staged_writes pf = []")
  case True
  with f ok show ?thesis by (auto simp: PagedFile_flush_def pf_settled_def pf_ok_def pf_view_Nil pf_same_def)
next
  case False
  have sw: "\<forall>w \<in> set (staged_writes pf). sw_ok (f_content (pf_file pf)) w" using ok by (simp add: pf_ok_def)
  show ?thesis
    by (rule flush_steps [OF f ok False refl])
      (simp add: pf_settled_def pf_same_def pf_view_overlay [OF ok] writes_overlay_all [OF sw])
qed

lemma read_page_steady:
  assumes "steady io"
  shows "\<exists>page io'. PagedFile_read_page D io pf p = (Inr page, io') \<and> steady io'"
  using read_vec_steady [OF assms, of "pf_file pf" "[(p, AlignedBuf_deref (AlignedBuf_zeroed PAGE))]"]
  by (auto simp: PagedFile_read_page_def)

lemma flush_prepare_steady:
  assumes "steady io"
  shows "\<exists>w' io' pf'. flush_prepare D io pf w = (Inr w', io', pf') \<and> steady io'"
proof -
  have "\<exists>page io'. flush_suffix D io pf w l = (Inr page, io') \<and> steady io'" for l
    using assms read_page_steady [OF assms] by (auto simp: flush_suffix_def split: option.splits)
  then obtain page io' where "flush_suffix D io pf w (page_down (StagedWrite_end w)) = (Inr page, io')" "steady io'"
    by blast
  with assms show ?thesis by (auto simp: flush_prepare_def Let_def)
qed

lemma flush_prepare_all_steady:
  "steady io \<Longrightarrow> \<exists>ws' io' pf'. flush_prepare_all D io pf ws = (Inr ws', io', pf') \<and> steady io'"
proof (induction ws arbitrary: io pf)
  case Nil
  then show ?case by simp
next
  case (Cons w ws)
  obtain w' io1 pf1 where "flush_prepare D io pf w = (Inr w', io1, pf1)" "steady io1"
    using flush_prepare_steady [OF Cons.prems] by blast
  moreover obtain ws' io2 pf2 where "flush_prepare_all D io1 pf1 ws = (Inr ws', io2, pf2)" "steady io2"
    using Cons.IH [OF \<open>steady io1\<close>] by blast
  ultimately show ?case by simp
qed

lemma flush_steady:
  assumes "steady io"
  shows "\<exists>io' pf'. PagedFile_flush D io pf = (Inr (), io', pf') \<and> steady io'"
proof -
  obtain ws io1 pf1 where "flush_prepare_all D io (pf\<lparr>staged_writes := []\<rparr>) (staged_writes pf) = (Inr ws, io1, pf1)" "steady io1"
    using flush_prepare_all_steady [OF assms] by blast
  moreover obtain io2 f2 where "write_vec D io1 (pf_file pf1)
      (map (\<lambda>w. (StagedWrite_base w, AlignedBuf_deref (sw_buffer w))) ws) = (Inr (), io2, f2)" "steady io2"
    using write_vec_steady [OF \<open>steady io1\<close>] by blast
  ultimately show ?thesis using assms by (simp add: PagedFile_flush_def)
qed

lemma flush_if_Inr:
  assumes "flush_if b D io pf = (Inr u, io', pf')" and "pf_ok pf"
  shows "pf_ok pf' \<and> pf_view pf' = pf_view pf \<and> pf_same pf pf' \<and>
    length (staged_writes pf') \<le> length (staged_writes pf) \<and> (b \<longrightarrow> staged_writes pf' = [])"
  using assms flush_Inr [of io pf u io' pf'] pf_settledD [of "pf_view pf" pf']
  by (cases b) (auto simp: flush_if_def)

lemma flush_if_staged:
  "flush_if b D io pf = (Inr u, io', pf') \<Longrightarrow> pf_ok pf \<Longrightarrow> staged_writes pf' = staged_writes pf \<or> staged_writes pf' = []"
  using flush_if_Inr [of b io pf u io' pf'] by (cases b) (auto simp: flush_if_def)

lemma flush_if_steady:
  "steady io \<Longrightarrow> \<exists>io' pf'. flush_if b D io pf = (Inr (), io', pf') \<and> steady io'"
  using flush_steady by (simp add: flush_if_def)

end

lemma pf_settled_keep: "pf_settled (pf_view pf) pf' \<Longrightarrow> pf_same pf pf' \<Longrightarrow> pf_keep pf pf'"
  by (simp add: pf_keep_def pf_settledD)

lemma fallocate_extends:
  "\<exists>r n. fallocate f off len = (r, f\<lparr>f_content := f_content f @ replicate n 0\<rparr>)"
  by (auto simp: fallocate_def intro: exI [of _ 0])

lemma extend_zeros_keep:
  fixes n :: nat
  assumes "pf_ok pf"
  defines "pf' \<equiv> pf\<lparr>pf_file := (pf_file pf)\<lparr>f_content := f_content (pf_file pf) @ replicate n 0\<rparr>\<rparr>"
  shows "pf_ok pf'" "pf_view pf' = pf_view pf"
proof -
  let ?c = "f_content (pf_file pf)"
  have eq: "byte_at (?c @ replicate n 0) = byte_at ?c" by (rule ext) simp
  then have ok: "sw_ok (?c @ replicate n 0) = sw_ok ?c"
    by (simp add: sw_ok_def fun_eq_iff read_zeros_map)
  show "pf_ok pf'" using assms(1) by (simp add: pf'_def pf_ok_def ok eq)
  show "pf_view pf' = pf_view pf" by (rule ext) (simp add: pf'_def pf_view_def eq split: option.split)
qed

lemma allocated_end_irrelevant [simp]:
  "pf_ok (pf\<lparr>allocated_end := a\<rparr>) = pf_ok pf" "pf_view (pf\<lparr>allocated_end := a\<rparr>) = pf_view pf"
  by (simp_all add: pf_ok_def pf_view_def fun_eq_iff split: option.split)

lemma ensure_alloc_facts:
  assumes "PagedFile_ensure_alloc pf up_to chunk = (r, pf')" and "pf_ok pf"
  shows "pf_ok pf' \<and> pf_view pf' = pf_view pf \<and> f_durable (pf_file pf') = f_durable (pf_file pf) \<and>
    f_limit (pf_file pf') = f_limit (pf_file pf) \<and> staged_writes pf' = staged_writes pf"
proof -
  let ?len = "page_up (max up_to (allocated_end pf + chunk)) - allocated_end pf"
  obtain q n where f: "fallocate (pf_file pf) (allocated_end pf) ?len =
      (q, (pf_file pf)\<lparr>f_content := f_content (pf_file pf) @ replicate n 0\<rparr>)"
    using fallocate_extends by blast
  let ?pf = "pf\<lparr>pf_file := (pf_file pf)\<lparr>f_content := f_content (pf_file pf) @ replicate n 0\<rparr>\<rparr>"
  have "pf' = pf \<or> pf' = ?pf \<or> (\<exists>a. pf' = ?pf\<lparr>allocated_end := a\<rparr>)"
    using assms(1) f by (cases q) (auto simp: PagedFile_ensure_alloc_def Let_def split: if_splits)
  with extend_zeros_keep [OF assms(2), of n] assms(2) show ?thesis
    by (elim disjE exE) (simp_all only: allocated_end_irrelevant, simp_all)
qed

text \<open>The allocated end stays within what the device holds.\<close>

definition pf_room :: "PagedFile \<Rightarrow> bool" where
  "pf_room pf \<longleftrightarrow> unat (allocated_end pf) \<le> f_limit (pf_file pf) \<and> f_limit (pf_file pf) \<le> OFF_MAX"

lemma pf_room_same: "pf_same pf pf' \<Longrightarrow> pf_room pf' = pf_room pf"
  by (simp add: pf_same_def pf_room_def)

lemma page_up_ge: "unat m + 4095 < 18446744073709551616 \<Longrightarrow> unat m \<le> unat (page_up m)"
  by (simp add: unat_page_up)

lemma ensure_alloc_bound:
  assumes e: "PagedFile_ensure_alloc pf up_to chunk = (Inr u, pf')" and room: "pf_room pf"
    and small: "unat up_to \<le> 2 * OFF_MAX" "unat chunk \<le> OFF_MAX"
  shows "pf_room pf' \<and> unat up_to \<le> unat (allocated_end pf') \<and> allocated_end pf \<le> allocated_end pf'"
proof (cases "up_to \<le> allocated_end pf")
  case True
  with e room show ?thesis by (simp add: PagedFile_ensure_alloc_def word_le_nat_alt)
next
  case False
  let ?m = "max up_to (allocated_end pf + chunk)"
  have sum: "unat (allocated_end pf + chunk) = unat (allocated_end pf) + unat chunk"
    using room small(2) by (simp add: pf_room_def unat_add_nowrap)
  have up: "unat ?m \<le> unat (page_up ?m)"
    using room small by (intro page_up_ge) (simp add: sum pf_room_def)
  then have le: "unat up_to \<le> unat (page_up ?m)" "unat (allocated_end pf) \<le> unat (page_up ?m)"
    by (simp_all add: sum)
  have "unat (page_up ?m - allocated_end pf) = unat (page_up ?m) - unat (allocated_end pf)"
    using le(2) by (simp add: unat_sub_nowrap)
  with False e room le show ?thesis
    by (auto simp: PagedFile_ensure_alloc_def fallocate_def Let_def pf_room_def word_le_nat_alt
        split: if_splits)
qed

section \<open>Staging changes the written bytes only\<close>

lemma sw_apart_sym: "sw_apart v w \<longleftrightarrow> sw_apart w v"
  by (auto simp: sw_apart_def)

lemma pf_view_covered:
  assumes "pf_ok pf" and "w \<in> set (staged_writes pf)" and "sw_covers k w"
  shows "pf_view pf k = AlignedBuf_deref (sw_buffer w) ! (k - sw_lo w)"
proof -
  obtain v where v: "find (sw_covers k) (staged_writes pf) = Some v"
    using assms(2,3) by (cases "find (sw_covers k) (staged_writes pf)") (auto simp: find_None_iff)
  then have "v \<in> set (staged_writes pf)" "sw_covers k v"
    by (auto simp: find_Some_iff)
  moreover have "\<not> sw_apart v w" "\<not> sw_apart w v"
    using covers_apart assms(3) \<open>sw_covers k v\<close> by blast+
  ultimately have "v = w"
    using assms(1,2) by (auto simp: pf_ok_def sorted_wrt_iff_nth_less in_set_conv_nth) (metis nat_neq_iff)
  with v show ?thesis by (simp add: pf_view_def)
qed

lemma pf_view_uncovered:
  assumes "\<forall>w \<in> set (staged_writes pf). \<not> sw_covers k w"
  shows "pf_view pf k = byte_at (f_content (pf_file pf)) k"
proof -
  have "find (sw_covers k) (staged_writes pf) = None" using assms by (auto simp: find_None_iff)
  then show ?thesis by (simp add: pf_view_def)
qed

text \<open>
  A list of staged writes that has one more write, or one that is longer, shows the old contents
  with the new bytes.
\<close>

lemma pf_view_staged:
  assumes pf: "pf_ok pf" and pf': "pf_ok pf'" and f: "pf_file pf' = pf_file pf"
    and w: "w \<in> set (staged_writes pf')"
    and others: "\<And>v. v \<in> set (staged_writes pf') \<Longrightarrow> v \<noteq> w \<Longrightarrow> v \<in> set (staged_writes pf)"
    and old: "\<And>v k. v \<in> set (staged_writes pf) \<Longrightarrow> sw_covers k v \<Longrightarrow> \<not> sw_covers k w \<Longrightarrow> v \<in> set (staged_writes pf')"
    and before: "\<And>k. sw_lo w \<le> k \<Longrightarrow> k < off \<Longrightarrow> AlignedBuf_deref (sw_buffer w) ! (k - sw_lo w) = pf_view pf k"
    and bytes: "\<And>k. off \<le> k \<Longrightarrow> k < sw_hi w \<Longrightarrow> AlignedBuf_deref (sw_buffer w) ! (k - sw_lo w) = bs ! (k - off)"
    and range: "sw_lo w \<le> off" "sw_hi w = off + length bs"
  shows "pf_view pf' = overlay (pf_view pf) off bs"
proof (rule ext)
  fix k
  show "pf_view pf' k = overlay (pf_view pf) off bs k"
  proof (cases "sw_covers k w")
    case True
    then show ?thesis
      using pf_view_covered [OF pf' w True] before [of k] bytes [of k] range
      by (auto simp: sw_covers_def overlay_def)
  next
    case False
    then have out: "overlay (pf_view pf) off bs k = pf_view pf k"
      using range by (auto simp: sw_covers_def overlay_def)
    show ?thesis
    proof (cases "\<exists>v \<in> set (staged_writes pf'). sw_covers k v")
      case True
      then obtain v where "v \<in> set (staged_writes pf')" "sw_covers k v" by blast
      with False others pf_view_covered [OF pf'] pf_view_covered [OF pf] out show ?thesis by metis
    next
      case none: False
      then have "\<forall>v \<in> set (staged_writes pf). \<not> sw_covers k v" using old False by blast
      with none pf_view_uncovered [of pf k] pf_view_uncovered [of pf' k] f out show ?thesis by simp
    qed
  qed
qed

lemma extend_all:
  "ab_ok b \<Longrightarrow> ab_ok (foldl AlignedBuf_extend_from_slice b parts) \<and>
     AlignedBuf_deref (foldl AlignedBuf_extend_from_slice b parts) = AlignedBuf_deref b @ concat parts"
  by (induction parts arbitrary: b) simp_all

lemma parts_len_concat: "parts_len parts = length (concat parts)"
  by (simp add: parts_len_def length_concat)

lemma ab_len_deref: "ab_ok b \<Longrightarrow> ab_len b = length (AlignedBuf_deref b)"
  by simp

lemma unat_off_len:
  assumes "unat (off :: u64) + n \<le> OFF_MAX"
  shows "unat (off + of_nat n) = unat off + n"
    "unat (page_up (off + of_nat n)) = (unat off + n + 4095) div 4096 * 4096"
proof -
  show u: "unat (off + of_nat n) = unat off + n"
    using assms by (simp add: unat_add_nowrap unat_of_nat_nowrap)
  show "unat (page_up (off + of_nat n)) = (unat off + n + 4095) div 4096 * 4096"
    using assms by (simp add: unat_page_up u)
qed

text \<open>A staged write that is continued.\<close>

definition sw_extend :: "StagedWrite \<Rightarrow> bytes list \<Rightarrow> StagedWrite" where
  "sw_extend w parts = w\<lparr>sw_buffer := foldl AlignedBuf_extend_from_slice (sw_buffer w) parts\<rparr>"

lemma sw_extend_fields [simp]:
  "sw_start (sw_extend w parts) = sw_start w" "sw_head (sw_extend w parts) = sw_head w"
  "sw_lo (sw_extend w parts) = sw_lo w"
  by (simp_all add: sw_extend_def sw_lo_def)

lemma sw_extend_facts:
  assumes "sw_ok c w"
  shows "sw_hi (sw_extend w parts) = sw_hi w + length (concat parts)"
    and "sw_lo w \<le> k \<Longrightarrow> AlignedBuf_deref (sw_buffer (sw_extend w parts)) ! (k - sw_lo w) =
      (if k < sw_hi w then AlignedBuf_deref (sw_buffer w) ! (k - sw_lo w) else concat parts ! (k - sw_hi w))"
    and "sw_hi w + length (concat parts) \<le> OFF_MAX \<Longrightarrow> sw_ok c (sw_extend w parts)"
proof -
  have buf: "ab_ok (sw_buffer (sw_extend w parts))"
    "AlignedBuf_deref (sw_buffer (sw_extend w parts)) = AlignedBuf_deref (sw_buffer w) @ concat parts"
    using extend_all [OF sw_okD(1) [OF assms]] by (simp_all add: sw_extend_def)
  have ln: "length (AlignedBuf_deref (sw_buffer w)) = ab_len (sw_buffer w)" using sw_okD(1) [OF assms] by simp
  show hi: "sw_hi (sw_extend w parts) = sw_hi w + length (concat parts)"
    using ab_len_deref [OF buf(1)] by (simp add: sw_hi_def buf(2) ln)
  show nth: "AlignedBuf_deref (sw_buffer (sw_extend w parts)) ! (k - sw_lo w) =
      (if k < sw_hi w then AlignedBuf_deref (sw_buffer w) ! (k - sw_lo w) else concat parts ! (k - sw_hi w))"
    if "sw_lo w \<le> k" for k
    using that by (auto simp: buf(2) nth_append ln sw_hi_def)
  show "sw_ok c (sw_extend w parts)" if "sw_hi w + length (concat parts) \<le> OFF_MAX"
    using assms that unfolding sw_ok_def hi by (simp add: buf(1) nth)
qed

lemma stage_continue_cases:
  assumes s: "stage_continue pf off parts = Some pf'"
  obtains i where "i < length (staged_writes pf)" "StagedWrite_end (staged_writes pf ! i) = off"
    "pf' = pf\<lparr>staged_writes := (staged_writes pf)[i := sw_extend (staged_writes pf ! i) parts],
       pending_bytes := pending_bytes pf + parts_len parts\<rparr>"
    "\<And>j. j < length (staged_writes pf) \<Longrightarrow> j \<noteq> i \<Longrightarrow>
       page_up (off + of_nat (parts_len parts)) \<le> StagedWrite_base (staged_writes pf ! j) \<or>
       page_up (StagedWrite_end (staged_writes pf ! j)) \<le> StagedWrite_base (staged_writes pf ! i)"
proof -
  obtain i where pos: "position (\<lambda>w. StagedWrite_end w = off) (staged_writes pf) = Some i"
    using s by (auto simp: stage_continue_def split: option.splits)
  with s position_Some [OF pos] show thesis
    by (intro that [of i])
      (auto simp: stage_continue_def sw_extend_def Let_def list_ex_enumerate not_less split: if_splits, metis not_le)
qed

lemma stage_continue_ok:
  assumes ok: "pf_ok pf" and i: "i < length (staged_writes pf)"
    and w: "sw_ok (f_content (pf_file pf)) w'"
    and apart: "\<And>j. j < length (staged_writes pf) \<Longrightarrow> j \<noteq> i \<Longrightarrow> sw_apart (staged_writes pf ! j) w'"
  shows "pf_ok (pf\<lparr>staged_writes := (staged_writes pf)[i := w'], pending_bytes := n\<rparr>)"
proof -
  have "sw_apart ((staged_writes pf)[i := w'] ! a) ((staged_writes pf)[i := w'] ! b)"
    if "a < b" "b < length (staged_writes pf)" for a b
    using that ok apart [of a] apart [of b, unfolded sw_apart_sym [of "staged_writes pf ! b"]] i
    by (cases "a = i"; cases "b = i") (auto simp: pf_ok_def sorted_wrt_iff_nth_less)
  then have "sorted_wrt sw_apart ((staged_writes pf)[i := w'])"
    by (simp add: sorted_wrt_iff_nth_less)
  moreover have "\<forall>v \<in> set ((staged_writes pf)[i := w']). sw_ok (f_content (pf_file pf)) v"
    using ok w by (auto simp: pf_ok_def dest: set_update_subset_insert [THEN subsetD])
  ultimately show ?thesis using ok by (simp add: pf_ok_def)
qed

lemma stage_continue_Some:
  assumes s: "stage_continue pf off parts = Some pf'" and ok: "pf_ok pf"
    and len: "unat off + parts_len parts \<le> OFF_MAX"
  shows "pf_ok pf' \<and> pf_view pf' = overlay (pf_view pf) (unat off) (concat parts) \<and> pf_same pf pf' \<and>
    length (staged_writes pf') = length (staged_writes pf) \<and>
    (\<forall>w \<in> set (staged_writes pf'). w \<in> set (staged_writes pf) \<or> sw_hi w = unat off + parts_len parts)"
proof -
  let ?c = "f_content (pf_file pf)" and ?ws = "staged_writes pf"
  obtain i where i: "i < length ?ws" "StagedWrite_end (?ws ! i) = off"
    and pf': "pf' = pf\<lparr>staged_writes := ?ws[i := sw_extend (?ws ! i) parts], pending_bytes := pending_bytes pf + parts_len parts\<rparr>"
    and free: "\<And>j. j < length ?ws \<Longrightarrow> j \<noteq> i \<Longrightarrow> page_up (off + of_nat (parts_len parts)) \<le> StagedWrite_base (?ws ! j)
       \<or> page_up (StagedWrite_end (?ws ! j)) \<le> StagedWrite_base (?ws ! i)"
    using stage_continue_cases [OF s] by metis
  define w w' where "w = ?ws ! i" and "w' = sw_extend w parts"
  have ws: "sw_ok ?c (?ws ! j)" if "j < length ?ws" for j using ok that by (simp add: pf_ok_def)
  then have w: "sw_ok ?c w" "w \<in> set ?ws" using i(1) by (simp_all add: w_def)
  have hi: "sw_hi w = unat off" using sw_hi_end [OF sw_okD(2) [OF w(1)]] i(2) by (simp add: w_def)
  note ext = sw_extend_facts [OF w(1), where parts = parts, folded w'_def, unfolded hi]
  have lo: "sw_lo w' = sw_lo w" by (simp add: w'_def)
  have apart: "sw_apart (?ws ! j) w'" if "j < length ?ws" "j \<noteq> i" for j
    using free [OF that] sw_up_end [OF sw_okD(2) [OF ws [OF that(1)]]] unat_off_len(2) [OF len] ext(1) lo
    by (auto simp: sw_apart_def word_le_nat_alt sw_lo_base w_def sw_up_def [of w'] parts_len_concat)
  have ok': "pf_ok pf'"
    unfolding pf' w_def [symmetric] w'_def [symmetric]
    using len by (intro stage_continue_ok [OF ok i(1) ext(3) apart]) (simp_all add: parts_len_concat)
  have "pf_view pf' = overlay (pf_view pf) (unat off) (concat parts)"
  proof (rule pf_view_staged [OF ok ok', where w = w'])
    show "w' \<in> set (staged_writes pf')" using i(1) by (simp add: pf' set_update_memI w_def w'_def)
    show "v \<in> set ?ws" if "v \<in> set (staged_writes pf')" "v \<noteq> w'" for v
      using that by (auto simp: pf' w_def w'_def dest: set_update_subset_insert [THEN subsetD])
    show "v \<in> set (staged_writes pf')" if "v \<in> set ?ws" "sw_covers k v" "\<not> sw_covers k w'" for v k
    proof -
      have "v \<noteq> w" using that(2,3) lo hi ext(1) by (auto simp: sw_covers_def)
      with that(1) i(1) show ?thesis by (auto simp: pf' w_def in_set_conv_nth nth_list_update)
    qed
    show "AlignedBuf_deref (sw_buffer w') ! (k - sw_lo w') = pf_view pf k" if "sw_lo w' \<le> k" "k < unat off" for k
      using that pf_view_covered [OF ok w(2), of k] lo hi ext(2) [of k] by (simp add: sw_covers_def)
    show "AlignedBuf_deref (sw_buffer w') ! (k - sw_lo w') = concat parts ! (k - unat off)"
      if "unat off \<le> k" "k < sw_hi w'" for k
      using that ext(2) [of k] lo hi sw_bounds(1) [of w] by simp
  qed (use lo hi sw_bounds [of w] ext(1) in \<open>simp_all add: pf'\<close>)
  moreover have "\<forall>v \<in> set (staged_writes pf'). v \<in> set ?ws \<or> sw_hi v = unat off + parts_len parts"
    using ext(1) by (auto simp: pf' w_def w'_def parts_len_concat dest: set_update_subset_insert [THEN subsetD])
  ultimately show ?thesis using ok' by (simp add: pf' pf_same_def)
qed

lemma take_read_zeros: "m \<le> n \<Longrightarrow> take m (read_zeros c off n) = read_zeros c off m"
  by (simp add: read_zeros_def take_map)

lemma take_buffer_facts:
  assumes "PagedFile_take_buffer pf = (b, pf')"
  shows "ab_ok b \<and> AlignedBuf_deref b = [] \<and> (\<exists>q. pf' = pf\<lparr>pool := q\<rparr>)"
  using assms by (auto simp: PagedFile_take_buffer_def split: if_splits intro: exI [of _ "pool pf"])

lemma not_stage_overlaps:
  assumes "\<not> stage_overlaps pf off n" and "v \<in> set (staged_writes pf)" and "sw_ok c v"
    and "unat off + n \<le> OFF_MAX" and "sw_lo w = unat off div 4096 * 4096" and "sw_hi w = unat off + n"
  shows "sw_apart v w"
  using assms(1,2) sw_up_end [OF sw_okD(2) [OF assms(3)]] unat_off_len(2) [OF assms(4)] assms(5,6)
  by (auto simp: stage_overlaps_def Let_def list_ex_iff word_less_nat_alt sw_apart_def sw_lo_base sw_up_def [of w])

text \<open>The write that \<open>stage\<close> pushes, with the start of its first page in front.\<close>

lemma pushed_write:
  assumes b: "ab_ok b" "AlignedBuf_deref b = read_zeros c (unat off div 4096 * 4096) (unat off mod 4096) @ bs"
    and head: "head = None \<or> head = Some (read_zeros c (unat off div 4096 * 4096) 4096)"
    and len: "unat off + length bs \<le> OFF_MAX"
  defines "w \<equiv> \<lparr>sw_start = off, sw_buffer = b, sw_head = head\<rparr>"
  shows "sw_lo w = unat off div 4096 * 4096" "sw_hi w = unat off + length bs" "sw_ok c w"
    "sw_lo w \<le> k \<Longrightarrow> AlignedBuf_deref (sw_buffer w) ! (k - sw_lo w) = (if k < unat off then byte_at c k else bs ! (k - unat off))"
proof -
  show lo: "sw_lo w = unat off div 4096 * 4096" by (simp add: w_def sw_lo_def)
  have off: "unat off div 4096 * 4096 + unat off mod 4096 = unat off" by simp
  show hi: "sw_hi w = unat off + length bs"
    using ab_len_deref [OF b(1)] off unfolding sw_hi_def lo by (simp add: b(2) w_def)
  show nth: "AlignedBuf_deref (sw_buffer w) ! (k - sw_lo w) = (if k < unat off then byte_at c k else bs ! (k - unat off))"
    if "sw_lo w \<le> k" for k
  proof -
    have "k - sw_lo w < unat off mod 4096 \<longleftrightarrow> k < unat off" "k - sw_lo w - unat off mod 4096 = k - unat off"
      using that off unfolding lo by linarith+
    then show ?thesis using that by (simp add: w_def b(2) nth_append lo [unfolded w_def])
  qed
  show "sw_ok c w"
  proof -
    have "sw_start w = off" "sw_buffer w = b" "sw_head w = head" by (simp_all add: w_def)
    with b(1) len head nth show ?thesis unfolding sw_ok_def hi by (auto simp: lo)
  qed
qed

lemma stage_push_ok:
  assumes ok: "pf_ok pf" and w: "sw_ok (f_content (pf_file pf)) w"
    and apart: "\<And>v. v \<in> set (staged_writes pf) \<Longrightarrow> sw_apart v w"
  shows "pf_ok (pf\<lparr>pool := q, pending_bytes := n, staged_writes := staged_writes pf @ [w]\<rparr>)"
  using assms by (simp add: pf_ok_def sorted_wrt_append)

lemma stage_push_view:
  assumes ok: "pf_ok pf" and w: "sw_ok (f_content (pf_file pf)) w"
    and apart: "\<And>v. v \<in> set (staged_writes pf) \<Longrightarrow> sw_apart v w"
    and nth: "\<And>k. sw_lo w \<le> k \<Longrightarrow> AlignedBuf_deref (sw_buffer w) ! (k - sw_lo w) =
      (if k < off then byte_at (f_content (pf_file pf)) k else bs ! (k - off))"
    and range: "sw_lo w \<le> off" "sw_hi w = off + length bs"
  shows "pf_view (pf\<lparr>pool := q, pending_bytes := n, staged_writes := staged_writes pf @ [w]\<rparr>) = overlay (pf_view pf) off bs"
proof (rule pf_view_staged [OF ok stage_push_ok [OF ok w apart], where w = w])
  fix k
  assume k: "sw_lo w \<le> k" "k < off"
  then have "sw_covers k w" using range by (simp add: sw_covers_def)
  then have "\<forall>v \<in> set (staged_writes pf). \<not> sw_covers k v"
    using apart covers_apart by blast
  then have "pf_view pf k = byte_at (f_content (pf_file pf)) k" by (rule pf_view_uncovered)
  with k nth show "AlignedBuf_deref (sw_buffer w) ! (k - sw_lo w) = pf_view pf k" by simp
next
  fix k
  assume "off \<le> k"
  with nth range show "AlignedBuf_deref (sw_buffer w) ! (k - sw_lo w) = bs ! (k - off)" by simp
qed (use range in auto)

context block_io
begin

lemma stage_head_Inr:
  assumes s: "stage_head D io pf off = (Inr head, io')" and t: "tails_ok (byte_at c) (tail_pages pf)"
    and c: "c = f_content (pf_file pf)" and off: "unat off \<le> OFF_MAX"
  shows "if unat off mod 4096 = 0 then head = None else head = Some (read_zeros c (unat off div 4096 * 4096) 4096)"
proof -
  have pad: "unat (off - page_down off) = unat off mod 4096"
    by (simp add: unat_sub_nowrap minus_div_mult_eq_mod)
  consider (none) "unat off mod 4096 = 0" "head = None"
    | (tail) page where "unat off mod 4096 \<noteq> 0" "tail_pages pf (page_down off) = Some page" "head = Some page"
    | (read) page where "unat off mod 4096 \<noteq> 0" "PagedFile_read_page D io pf (page_down off) = (Inr page, io')" "head = Some page"
    using s pad by (auto simp: stage_head_def Let_def split: if_splits option.splits prod.splits sum.splits)
  then show ?thesis
  proof cases
    case none
    then show ?thesis by simp
  next
    case tail
    with t have "page = map (\<lambda>k. byte_at c (unat (page_down off) + k)) [0..<4096]"
      unfolding tails_ok_def by blast
    with tail show ?thesis by (simp add: read_zeros_map)
  next
    case read
    have "unat (page_down off) \<le> OFF_MAX" using off by (simp add: le_trans [OF div_times_less_eq_dividend])
    with read read_page_Inr [OF read(2)] c show ?thesis by simp
  qed
qed

lemma stage_push_Inr:
  assumes s: "stage_push D io pf off parts = (Inr u, io', pf')" and ok: "pf_ok pf"
    and len: "unat off + parts_len parts \<le> OFF_MAX" and free: "\<not> stage_overlaps pf off (parts_len parts)"
  shows "pf_ok pf' \<and> pf_view pf' = overlay (pf_view pf) (unat off) (concat parts) \<and> pf_same pf pf' \<and>
    length (staged_writes pf') = Suc (length (staged_writes pf)) \<and>
    (\<forall>w \<in> set (staged_writes pf'). w \<in> set (staged_writes pf) \<or> sw_hi w = unat off + parts_len parts)"
proof -
  let ?c = "f_content (pf_file pf)" and ?pad = "unat off mod 4096" and ?lo = "unat off div 4096 * 4096"
  have pad: "unat (off - page_down off) = ?pad"
    by (simp add: unat_sub_nowrap minus_div_mult_eq_mod)
  obtain b pf1 where tb: "PagedFile_take_buffer pf = (b, pf1)" by fastforce
  obtain q where b: "ab_ok b" "AlignedBuf_deref b = []" and pf1: "pf1 = pf\<lparr>pool := q\<rparr>"
    using take_buffer_facts [OF tb] by blast
  obtain head io1 where head: "stage_head D io pf1 off = (Inr head, io1)"
    using s tb by (auto simp: stage_push_def Let_def split: prod.splits sum.splits)
  define b1 where "b1 = (case head of None \<Rightarrow> b | Some page \<Rightarrow> AlignedBuf_extend_from_slice b (take ?pad page))"
  define b2 where "b2 = foldl AlignedBuf_extend_from_slice b1 parts"
  define w where "w = \<lparr>sw_start = off, sw_buffer = b2, sw_head = head\<rparr>"
  have pf': "pf' = pf\<lparr>pool := q, pending_bytes := pending_bytes pf + parts_len parts, staged_writes := staged_writes pf @ [w]\<rparr>"
    using s tb head by (simp add: stage_push_def Let_def pad pf1 w_def b1_def b2_def)
  have h: "if ?pad = 0 then head = None else head = Some (read_zeros ?c ?lo 4096)"
    by (rule stage_head_Inr [OF head]) (use ok len in \<open>simp_all add: pf1 pf_ok_def\<close>)
  then have b1: "ab_ok b1 \<and> AlignedBuf_deref b1 = read_zeros ?c ?lo ?pad"
  proof (cases "?pad = 0")
    case True
    with h b show ?thesis by (simp add: b1_def read_zeros_def)
  next
    case False
    have "take ?pad (read_zeros ?c ?lo 4096) = read_zeros ?c ?lo ?pad" by (rule take_read_zeros) simp
    with False h b show ?thesis by (simp add: b1_def)
  qed
  have b2: "ab_ok b2" "AlignedBuf_deref b2 = read_zeros ?c ?lo ?pad @ concat parts"
    using extend_all [of b1 parts] b1 by (simp_all add: b2_def)
  have "head = None \<or> head = Some (read_zeros ?c ?lo 4096)" using h by (auto split: if_splits)
  note w = pushed_write [OF b2 this len [unfolded parts_len_concat], folded w_def]
  have apart: "sw_apart v w" if "v \<in> set (staged_writes pf)" for v
    using not_stage_overlaps [OF free that _ len w(1) w(2) [folded parts_len_concat], of ?c] ok that
    by (simp add: pf_ok_def)
  have "sw_lo w \<le> unat off" by (simp add: w(1))
  from stage_push_ok [OF ok w(3) apart] stage_push_view [OF ok w(3) apart w(4) this w(2)]
  show ?thesis by (simp add: pf' pf_same_def w(2) parts_len_concat)
qed

theorem stage_Inr:
  assumes s: "PagedFile_stage D io pf off parts = (Inr u, io', pf')" and ok: "pf_ok pf"
    and len: "unat off + parts_len parts \<le> OFF_MAX"
  shows "pf_ok pf' \<and> pf_view pf' = overlay (pf_view pf) (unat off) (concat parts) \<and> pf_same pf pf' \<and>
    (length (staged_writes pf) \<le> MAX_STAGED_WRITES \<longrightarrow> length (staged_writes pf') \<le> MAX_STAGED_WRITES) \<and>
    (\<forall>w \<in> set (staged_writes pf'). w \<in> set (staged_writes pf) \<or> sw_hi w = unat off + parts_len parts)"
proof (cases "stage_continue pf off parts")
  case (Some pf1)
  with s have "pf' = pf1" by (simp add: PagedFile_stage_def)
  with stage_continue_Some [OF Some ok len] show ?thesis by simp
next
  case None
  obtain io1 pf1 io2 pf2 where
    f1: "flush_if (MAX_STAGED_WRITES \<le> length (staged_writes pf)) D io pf = (Inr (), io1, pf1)"
    and f2: "flush_if (stage_overlaps pf1 off (parts_len parts)) D io1 pf1 = (Inr (), io2, pf2)"
    and p: "stage_push D io2 pf2 off parts = (Inr u, io', pf')"
    using s None by (auto simp: PagedFile_stage_def split: prod.splits sum.splits)
  note a = flush_if_Inr [OF f1 ok] and b = flush_if_Inr [OF f2]
  have "\<not> stage_overlaps pf2 off (parts_len parts)"
    using a b f2 by (cases "stage_overlaps pf1 off (parts_len parts)") (auto simp: stage_overlaps_def flush_if_def)
  then have "pf_ok pf' \<and> pf_view pf' = overlay (pf_view pf2) (unat off) (concat parts) \<and> pf_same pf2 pf' \<and>
    length (staged_writes pf') = Suc (length (staged_writes pf2)) \<and>
    (\<forall>w \<in> set (staged_writes pf'). w \<in> set (staged_writes pf2) \<or> sw_hi w = unat off + parts_len parts)"
    using a b by (intro stage_push_Inr [OF p _ len]) simp_all
  moreover have "set (staged_writes pf2) \<subseteq> set (staged_writes pf)"
    using flush_if_staged [OF f1 ok] flush_if_staged [OF f2] a by auto
  ultimately show ?thesis using a b by (auto intro: pf_same_trans simp: MAX_STAGED_WRITES_def not_less_eq_eq)
qed

lemma stage_steady:
  assumes "steady io"
  shows "\<exists>io' pf'. PagedFile_stage D io pf off parts = (Inr (), io', pf') \<and> steady io'"
proof -
  obtain io1 pf1 where f1: "flush_if (MAX_STAGED_WRITES \<le> length (staged_writes pf)) D io pf = (Inr (), io1, pf1)" "steady io1"
    using flush_if_steady [OF assms] by blast
  obtain io2 pf2 where f2: "flush_if (stage_overlaps pf1 off (parts_len parts)) D io1 pf1 = (Inr (), io2, pf2)" "steady io2"
    using flush_if_steady [OF f1(2)] by blast
  have "\<exists>head io'. stage_head D io2 pf3 off = (Inr head, io') \<and> steady io'" for pf3
    using read_page_steady [OF f2(2), of pf3 "page_down off"] f2(2)
    by (auto simp: stage_head_def Let_def split: option.splits)
  then obtain head io3 where "stage_head D io2 (snd (PagedFile_take_buffer pf2)) off = (Inr head, io3)" "steady io3"
    by blast
  then have "\<exists>io' pf'. stage_push D io2 pf2 off parts = (Inr (), io', pf') \<and> steady io'"
    by (simp add: stage_push_def Let_def split_beta)
  with f1 f2 assms show ?thesis by (auto simp: PagedFile_stage_def split: option.splits)
qed

lemma read_aligned_Inr:
  assumes r: "PagedFile_read_aligned D io pf off len = (Inr (buf, n), io', pf')" and ok: "pf_ok pf"
    and bound: "unat off + unat len \<le> OFF_MAX"
  shows "slice_of n (unat len) (AlignedBuf_deref buf) = map (\<lambda>k. pf_view pf (unat off + k)) [0..<unat len]"
    and "pf_settled (pf_view pf) pf'" "pf_same pf pf'"
    and "ab_ok buf" "n + unat len \<le> ab_len buf" "n < 4096"
proof -
  let ?lo = "unat off div 4096 * 4096" and ?up = "(unat off + unat len + 4095) div 4096 * 4096"
  obtain io1 pf1 where f: "PagedFile_flush D io pf = (Inr (), io1, pf1)"
    using r by (auto simp: PagedFile_read_aligned_def split: prod.splits sum.splits)
  note fl = flush_Inr [OF f ok]
  obtain b q where tb: "PagedFile_take_buffer pf1 = (b, pf1\<lparr>pool := q\<rparr>)" and b: "ab_ok b" "AlignedBuf_deref b = []"
    using take_buffer_facts [of pf1] by (metis surj_pair)
  have bl: "ab_len b = 0" using b by (metis length_deref list.size(3))
  have n: "unat (page_up (off + len) - page_down off) = ?up - ?lo"
  proof -
    have u: "unat (page_up (off + len)) = ?up"
      using bound by (simp add: unat_page_up unat_add_nowrap)
    have "?lo \<le> ?up" by (intro mult_le_mono1 div_le_mono) simp
    then show ?thesis by (simp add: unat_sub_nowrap u)
  qed
  define b1 where "b1 = AlignedBuf_resize_zeroed b (?up - ?lo)"
  have b1: "ab_ok b1" "AlignedBuf_deref b1 = replicate (?up - ?lo) 0" "ab_len b1 = ?up - ?lo"
    using b bl by (simp_all add: b1_def deref_resize)
  obtain bufs where rv: "read_vec D io1 (pf_file pf1) [(page_down off, AlignedBuf_deref b1)] = (Inr bufs, io')"
    and res: "buf = AlignedBuf_deref_put b1 0 (hd bufs)" "n = unat (off - page_down off)" "pf' = pf1\<lparr>pool := q\<rparr>"
    using r f tb n by (auto simp: PagedFile_read_aligned_def Let_def b1_def split: prod.splits sum.splits)
  have up: "unat off + unat len \<le> ?up" "?lo + unat off mod 4096 = unat off" "unat off mod 4096 < 4096" by simp_all
  then have up': "unat off mod 4096 + unat len \<le> ?up - ?lo" by linarith
  have "?up \<le> 18446744073709551616" using bound by linarith
  then have hd: "hd bufs = read_zeros (f_content (pf_file pf1)) ?lo (?up - ?lo)"
    using read_vec_Inr [OF rv] by (simp add: b1 reads_of_def)
  have nn: "n = unat off mod 4096" by (simp add: res(2) unat_sub_nowrap minus_div_mult_eq_mod)
  have db: "AlignedBuf_deref buf = hd bufs" "ab_ok buf" "ab_len buf = ?up - ?lo"
    using deref_put [OF b1(1), of 0 "hd bufs"] by (simp_all add: res(1) hd b1 put_slice_def)
  show "pf_settled (pf_view pf) pf'" "pf_same pf pf'" "ab_ok buf" "n + unat len \<le> ab_len buf" "n < 4096"
    using fl db(2,3) up' up(3) nn by (simp_all add: res(3) pf_settled_def pf_same_def)
  have view: "byte_at (f_content (pf_file pf1)) = pf_view pf" using fl by (simp add: pf_settled_def)
  show "slice_of n (unat len) (AlignedBuf_deref buf) = map (\<lambda>k. pf_view pf (unat off + k)) [0..<unat len]"
    unfolding nn db(1) hd read_zeros_map view using up(2) up'
    by (intro nth_equalityI) (simp_all add: add.assoc [symmetric])
qed

lemma read_aligned_steady:
  assumes "steady io"
  shows "\<exists>r io' pf'. PagedFile_read_aligned D io pf off len = (Inr r, io', pf') \<and> steady io'"
proof -
  obtain io1 pf1 where f: "PagedFile_flush D io pf = (Inr (), io1, pf1)" "steady io1"
    using flush_steady [OF assms] by blast
  obtain b pf2 where tb: "PagedFile_take_buffer pf1 = (b, pf2)" by fastforce
  obtain bufs io2 where "read_vec D io1 (pf_file pf2) [(page_down off, AlignedBuf_deref
      (AlignedBuf_resize_zeroed b (unat (page_up (off + len) - page_down off))))] = (Inr bufs, io2)" "steady io2"
    using read_vec_steady [OF f(2)] by blast
  with f tb show ?thesis by (auto simp: PagedFile_read_aligned_def Let_def)
qed

end

section \<open>Creating and opening\<close>

text \<open>The first page of a new file.\<close>

definition header_page :: "u8 \<Rightarrow> u8 \<Rightarrow> bytes" where
  "header_page kind layout = FileHeader_encode \<lparr>fh_kind = kind, fh_layout = layout\<rparr> (replicate PAGE 0)"

lemma header_page_facts:
  "length (header_page kind layout) = 4096"
  "FileHeader_decode (header_page kind layout @ rest) = Some \<lparr>fh_kind = kind, fh_layout = layout\<rparr>"
proof -
  let ?h = "\<lparr>fh_kind = kind, fh_layout = layout\<rparr>"
  have eq: "header_page kind layout = file_header_bytes ?h @ to_le_bytes 4 (crc32c (file_header_bytes ?h)) @ replicate 4084 0"
    unfolding header_page_def by (rule FileHeader_encode_eq) simp
  show "length (header_page kind layout) = 4096" unfolding eq by (simp add: file_header_bytes_def HSF1_def)
  show "FileHeader_decode (header_page kind layout @ rest) = Some ?h"
    unfolding eq append_assoc by (rule FileHeader_decode_bytes)
qed

lemma pf_ok_handle: "pf_ok (PagedFile_handle f)"
  and pf_view_handle: "pf_view (PagedFile_handle f) = byte_at (f_content f)"
  by (simp_all add: PagedFile_handle_def pf_ok_def tails_ok_def pf_view_def fun_eq_iff)

context block_io
begin

lemma create_Inr:
  assumes c: "PagedFile_create D io f kind layout = (Inr pf, io', f')"
  shows "f' = f\<lparr>f_content := header_page kind layout, f_durable := header_page kind layout\<rparr> \<and>
    pf = (PagedFile_handle f')\<lparr>allocated_end := PAGE_SIZE_U64\<rparr>"
proof -
  let ?page = "header_page kind layout" and ?f = "f\<lparr>f_content := []\<rparr>"
  obtain io1 f1 where w: "write_vec D io ?f [(0, ?page)] = (Inr (), io1, f1)" and s: "sync D io1 f1 = (Inr (), io', f')"
    and pf: "pf = (PagedFile_handle ?f)\<lparr>pf_file := f', allocated_end := PAGE_SIZE_U64\<rparr>"
    using c by (auto simp: PagedFile_create_def PagedFile_handle_def Let_def header_page_def split: prod.splits sum.splits)
  have "f1 = ?f\<lparr>f_content := writes_to [] [(0, ?page)]\<rparr>"
    using write_vec_Inr [OF w] by (simp add: header_page_facts reqs_apart_def)
  then have "f1 = f\<lparr>f_content := ?page\<rparr>" by (simp add: writes_to_def pwrite_def)
  with sync_Inr [OF s] pf show ?thesis by (simp add: PagedFile_handle_def)
qed

lemma create_steady:
  assumes "steady io"
  shows "\<exists>pf io' f'. PagedFile_create D io f kind layout = (Inr pf, io', f') \<and> steady io'"
proof -
  obtain io1 f1 where "write_vec D io (f\<lparr>f_content := []\<rparr>) [(0, header_page kind layout)] = (Inr (), io1, f1)" "steady io1"
    using write_vec_steady [OF assms] by blast
  moreover obtain io2 f2 where "sync D io1 f1 = (Inr (), io2, f2)" "steady io2"
    using sync_steady [OF \<open>steady io1\<close>] by blast
  ultimately show ?thesis by (simp add: PagedFile_create_def PagedFile_handle_def Let_def header_page_def)
qed

text \<open>What \<open>open\<close> answers depends on the first page only.\<close>

lemma open_steady:
  assumes "steady io"
  shows "\<exists>io'. steady io' \<and> PagedFile_open D io f kind layout =
    (if FileHeader_decode (read_zeros (f_content f) 0 4096) = Some \<lparr>fh_kind = kind, fh_layout = layout\<rparr>
     then Inr (PagedFile_handle f) else Inl (Err (Corrupt ''file header'' 0)), io')"
proof -
  have len: "length (AlignedBuf_deref (AlignedBuf_zeroed PAGE)) = 4096" by (simp add: PAGE_def)
  obtain bufs io' where r: "read_vec D io f [(0, AlignedBuf_deref (AlignedBuf_zeroed PAGE))] = (Inr bufs, io')" "steady io'"
    using read_vec_steady [OF assms] by blast
  have "bufs = [read_zeros (f_content f) 0 4096]"
    using read_vec_Inr [OF r(1)] len by (simp add: reads_of_def PAGE_def)
  with r show ?thesis by (auto simp: PagedFile_open_def Let_def split: option.split)
qed

end

lemma read_zeros_header: "read_zeros (header_page kind layout @ rest) 0 4096 = header_page kind layout"
  using take_drop_read_zeros [of 4096 "header_page kind layout @ rest" 0] by (simp add: header_page_facts(1))

section \<open>A flush that fails\<close>

lemma flush_prepare_staged:
  "flush_prepare D io pf w = (r, io', pf') \<Longrightarrow> staged_writes pf' = staged_writes pf"
  by (auto simp: flush_prepare_def Let_def split: if_splits prod.splits sum.splits)

lemma flush_prepare_all_staged:
  "flush_prepare_all D io pf ws = (r, io', pf') \<Longrightarrow> staged_writes pf' = staged_writes pf"
  by (induction D io pf ws arbitrary: r io' pf' rule: flush_prepare_all.induct)
    (fastforce split: prod.splits sum.splits dest: flush_prepare_staged)+

lemma flush_Inl_staged:
  assumes "PagedFile_flush D io pf = (Inl e, io', pf')"
  shows "staged_writes pf' = []"
  using assms
  by (auto simp: PagedFile_flush_def split: if_splits prod.splits sum.splits dest!: flush_prepare_all_staged)

section \<open>Properties\<close>

text \<open>A paged file over one page of zeros, with one byte staged at the front; a concrete state for the witnesses.\<close>

definition example_file :: File where
  "example_file = \<lparr>f_content = replicate 4096 0, f_durable = [], f_limit = 1048576\<rparr>"

definition example_pf :: PagedFile where
  "example_pf = (PagedFile_handle example_file)
     \<lparr>staged_writes := [\<lparr>sw_start = 0, sw_buffer = \<lparr>ab_mem = [7], ab_len = 1\<rparr>, sw_head = None\<rparr>], pending_bytes := 1\<rparr>"

lemma example_pf_ok: "pf_ok example_pf"
  by (simp add: example_pf_def pf_ok_def PagedFile_handle_def sw_ok_def ab_ok_def sw_hi_def sw_lo_def tails_ok_def)

lemma example_pf_view: "pf_view example_pf 0 = 7"
  by (simp add: example_pf_def pf_view_def PagedFile_handle_def sw_covers_def sw_hi_def sw_lo_def AlignedBuf_deref_def)

lemma SyncIo_new_healthy: "healthy SyncIo_new"
  by (simp add: SyncIo_new_def healthy_def)

text \<open>
  C11: on a device that does not fail, staging a write changes what the file is seen to hold at exactly
  the written bytes, whether it continues a staged write, forces a flush or starts a new one; nothing
  becomes durable, and never more than 64 writes stay staged.
\<close>

theorem stage_overlays:
  assumes "healthy io" and "pf_ok pf" and "unat off + parts_len parts \<le> OFF_MAX"
  shows "\<exists>io' pf'. PagedFile_stage sync_block_io io pf off parts = (Inr (), io', pf') \<and> healthy io' \<and> pf_ok pf' \<and>
    pf_view pf' = overlay (pf_view pf) (unat off) (concat parts) \<and> f_durable (pf_file pf') = f_durable (pf_file pf) \<and>
    (length (staged_writes pf) \<le> MAX_STAGED_WRITES \<longrightarrow> length (staged_writes pf') \<le> MAX_STAGED_WRITES)"
proof -
  obtain io' pf' where st: "PagedFile_stage sync_block_io io pf off parts = (Inr (), io', pf')" "healthy io'"
    using blocking.stage_steady [OF assms(1)] by blast
  from blocking.stage_Inr [OF st(1) assms(2,3)] st show ?thesis by (simp add: pf_same_def)
qed

theorem stage_overlays_witness:
  "\<exists>io' pf'. PagedFile_stage sync_block_io SyncIo_new example_pf 1 [[5], [6]] = (Inr (), io', pf') \<and>
     pf_view pf' 0 = 7 \<and> pf_view pf' 1 = 5 \<and> pf_view pf' 2 = 6"
proof -
  have "unat (1 :: u64) + parts_len [[5], [6]] \<le> OFF_MAX" by (simp add: parts_len_def)
  from stage_overlays [OF SyncIo_new_healthy example_pf_ok this] show ?thesis
    by (force simp: overlay_def example_pf_view)
qed

text \<open>
  C12: on a device that does not fail, a flush writes what the file is seen to hold to the file itself,
  whole pages at a time, leaves nothing staged and changes nothing that is seen.
\<close>

theorem flush_writes_view:
  assumes "healthy io" and "pf_ok pf"
  shows "\<exists>io' pf'. PagedFile_flush sync_block_io io pf = (Inr (), io', pf') \<and> healthy io' \<and> pf_ok pf' \<and>
    staged_writes pf' = [] \<and> byte_at (f_content (pf_file pf')) = pf_view pf \<and> pf_view pf' = pf_view pf \<and>
    f_durable (pf_file pf') = f_durable (pf_file pf)"
proof -
  obtain io' pf' where fl: "PagedFile_flush sync_block_io io pf = (Inr (), io', pf')" "healthy io'"
    using blocking.flush_steady [OF assms(1)] by blast
  from blocking.flush_Inr [OF fl(1) assms(2)] have "pf_settled (pf_view pf) pf'" "pf_same pf pf'" by simp_all
  with fl pf_settledD [OF this(1)] show ?thesis by (simp add: pf_same_def)
qed

theorem flush_writes_view_witness:
  "\<exists>io' pf'. PagedFile_flush sync_block_io SyncIo_new example_pf = (Inr (), io', pf') \<and> byte_at (f_content (pf_file pf')) 0 = 7"
  using flush_writes_view [OF SyncIo_new_healthy example_pf_ok] example_pf_view by metis

text \<open>
  On a device that does not fail, reading a range returns, at the position it reports, the bytes
  the file is seen to hold there, staged writes included.
\<close>

theorem read_aligned_view:
  assumes "healthy io" and "pf_ok pf" and "unat off + unat len \<le> OFF_MAX"
  shows "\<exists>buf pos io' pf'. PagedFile_read_aligned sync_block_io io pf off len = (Inr (buf, pos), io', pf') \<and>
    slice_of pos (unat len) (AlignedBuf_deref buf) = map (\<lambda>k. pf_view pf (unat off + k)) [0..<unat len] \<and>
    pf_ok pf' \<and> pf_view pf' = pf_view pf"
proof -
  obtain buf pos io' pf' where r: "PagedFile_read_aligned sync_block_io io pf off len = (Inr (buf, pos), io', pf')"
    using blocking.read_aligned_steady [OF assms(1)] by (metis prod.exhaust)
  with blocking.read_aligned_Inr(1,2) [OF r assms(2,3)] pf_settledD show ?thesis by blast
qed

theorem read_aligned_view_witness:
  "\<exists>buf pos io' pf'. PagedFile_read_aligned sync_block_io SyncIo_new example_pf 0 1 = (Inr (buf, pos), io', pf') \<and>
     slice_of pos 1 (AlignedBuf_deref buf) = [7]"
proof -
  have "unat (0 :: u64) + unat (1 :: u64) \<le> OFF_MAX" by simp
  from read_aligned_view [OF SyncIo_new_healthy example_pf_ok this] show ?thesis
    by (simp add: example_pf_view) blast
qed

text \<open>
  C37: a flush that returns an error has dropped the staged writes: nothing is staged any more and the
  next flush returns success without touching the file, whether or not the bytes ever reached it.
\<close>

theorem failed_flush_drops:
  assumes "PagedFile_flush D io pf = (Inl e, io', pf')"
  shows "staged_writes pf' = [] \<and> PagedFile_flush D io'' pf' = (Inr (), io'', pf')"
  using flush_Inl_staged [OF assms] by (simp add: PagedFile_flush_def)

theorem failed_flush_drops_witness:
  "\<exists>io' pf'. PagedFile_flush sync_block_io \<lparr>sio_counters = IoCounters_default, sio_script = [Sys_err 5]\<rparr> example_pf =
       (Inl (Err (Io (OsError 5))), io', pf') \<and>
     byte_at (f_content (pf_file pf')) 0 = 0 \<and> PagedFile_flush sync_block_io io' pf' = (Inr (), io', pf')"
proof -
  let ?io = "\<lparr>sio_counters = IoCounters_default, sio_script = [Sys_err 5]\<rparr>"
  obtain r io' pf' where f: "PagedFile_flush sync_block_io ?io example_pf = (r, io', pf')" by (metis prod_cases3)
  then have r: "r = Inl (Err (Io (OsError 5)))" "pf_file pf' = example_file"
    by (auto simp: PagedFile_flush_def example_pf_def PagedFile_handle_def flush_prepare_def Let_def StagedWrite_end_def
        StagedWrite_base_def page_down_def PAGE_SIZE_U64_eq flush_suffix_def PagedFile_read_page_def sync_block_io_def
        sync_read_request.simps file_read_at_def PAGE_def)
  from failed_flush_drops [OF f [unfolded r(1)]] f r show ?thesis by (simp add: example_file_def byte_at_def)
qed

text \<open>
  C29: a file that was created opens again under the kind and layout it was created with and under no
  other, and its header page is durable.
\<close>

theorem create_then_open:
  assumes "healthy io"
  shows "\<exists>pf io1 f1. PagedFile_create sync_block_io io f kind layout = (Inr pf, io1, f1) \<and> pf_file pf = f1 \<and> pf_ok pf \<and>
    f_durable f1 = f_content f1 \<and>
    (\<forall>kind' layout'. \<exists>io2. PagedFile_open sync_block_io io1 f1 kind' layout' =
      (if kind' = kind \<and> layout' = layout then Inr (PagedFile_handle f1) else Inl (Err (Corrupt ''file header'' 0)), io2))"
proof -
  obtain pf io1 f1 where c: "PagedFile_create sync_block_io io f kind layout = (Inr pf, io1, f1)" "healthy io1"
    using blocking.create_steady [OF assms] by blast
  note r = blocking.create_Inr [OF c(1)]
  have "FileHeader_decode (read_zeros (f_content f1) 0 4096) = Some \<lparr>fh_kind = kind, fh_layout = layout\<rparr>"
    using r read_zeros_header [of kind layout "[]"] header_page_facts(2) [of kind layout "[]"] by simp
  then have "\<exists>io2. PagedFile_open sync_block_io io1 f1 kind' layout' =
      (if kind' = kind \<and> layout' = layout then Inr (PagedFile_handle f1) else Inl (Err (Corrupt ''file header'' 0)), io2)"
    for kind' layout' using blocking.open_steady [OF c(2), of f1 kind' layout'] by auto
  moreover have "pf_ok pf" "pf_file pf = f1" "f_durable f1 = f_content f1"
    using r pf_ok_handle by (simp_all, simp add: PagedFile_handle_def)
  ultimately show ?thesis using c(1) by blast
qed

theorem create_then_open_witness:
  "\<exists>pf io1 f1 io2. PagedFile_create sync_block_io SyncIo_new example_file 68 1 = (Inr pf, io1, f1) \<and>
     PagedFile_open sync_block_io io1 f1 68 0 = (Inl (Err (Corrupt ''file header'' 0)), io2)"
proof -
  obtain pf io1 f1 where c: "PagedFile_create sync_block_io SyncIo_new example_file 68 1 = (Inr pf, io1, f1)"
    and o: "\<And>k l. \<exists>io2. PagedFile_open sync_block_io io1 f1 k l =
      (if k = 68 \<and> l = 1 then Inr (PagedFile_handle f1) else Inl (Err (Corrupt ''file header'' 0)), io2)"
    using create_then_open [OF SyncIo_new_healthy, of example_file 68 1] by blast
  from c o [of 68 0] show ?thesis by simp
qed

end
