(* ===== verification/Data_File.thy ===== *)
theory Data_File
  imports Paged_File
begin

text \<open>
  \<open>DataFile\<close> of \<open>src/src/data.rs\<close>: records are a checksummed header followed by the payload, staged
  into and read from a paged file, one at a time or many at once. Shown: what \<open>stage_record\<close> writes,
  that \<open>read_record\<close>, \<open>read_header\<close> and \<open>read_many\<close> give it back, and that a payload they return passed
  its checksum.
\<close>

section \<open>Records\<close>

record DataFile =
  df_paged_file :: PagedFile
  df_with_bucket :: bool
  df_integrity :: bool

definition DataFile_record_header_len :: "DataFile \<Rightarrow> u64" where
  "DataFile_record_header_len df = of_nat (header_len (df_with_bucket df))"

definition DataFile_stage_record ::
  "'io BlockIo \<Rightarrow> 'io \<Rightarrow> DataFile \<Rightarrow> u64 \<Rightarrow> u64 \<Rightarrow> u64 \<Rightarrow> u16 \<Rightarrow> bytes \<Rightarrow> unit res \<times> 'io \<times> DataFile" where
  "DataFile_stage_record D io df off bucket rid version payload =
     (let crc = (if df_integrity df then crc32c payload else 0);
          header = \<lparr>rh_len = of_nat (length payload), rh_bucket = bucket, rh_id = rid,
                    rh_version = version, rh_crc = crc\<rparr>;
          header_size = header_len (df_with_bucket df);
          header_buffer = RecordHeader_encode header (df_with_bucket df) (take header_size (replicate 38 0))
      in case PagedFile_stage D io (df_paged_file df) off [header_buffer, payload] of
           (r, io, pf) \<Rightarrow> (r, io, df\<lparr>df_paged_file := pf\<rparr>))"

text \<open>
  \<open>parse\<close> returns the header and what it leaves in \<open>out\<close>. The slice that holds the payload panics when
  it does not lie in the buffer.
\<close>

definition DataFile_parse ::
  "DataFile \<Rightarrow> bytes \<Rightarrow> nat \<Rightarrow> u64 \<Rightarrow> u64 \<Rightarrow> u64 \<Rightarrow> (RecordHeader \<times> bytes) res" where
  "DataFile_parse df buffer buffer_offset total_len expect_id offset =
     (let header_size = header_len (df_with_bucket df) in
      case RecordHeader_decode (drop buffer_offset buffer) (df_with_bucket df) of
        None \<Rightarrow> Inl (Err (Corrupt ''record header'' offset))
      | Some header \<Rightarrow>
          if rh_id header \<noteq> expect_id \<or> rh_len header + of_nat header_size \<noteq> total_len
          then Inl (Err (Corrupt ''record identity'' offset))
          else let payload_end = buffer_offset + header_size + unat (rh_len header) in
            if length buffer < payload_end then Inl (Panic ''slice index out of range'')
            else let payload = slice_of (buffer_offset + header_size) (unat (rh_len header)) buffer in
              if df_integrity df \<and> crc32c payload \<noteq> rh_crc header
              then Inl (Err (Corrupt ''record payload'' offset))
              else Inr (header, payload))"

definition DataFile_read_record ::
  "'io BlockIo \<Rightarrow> 'io \<Rightarrow> DataFile \<Rightarrow> u64 \<Rightarrow> u64 \<Rightarrow> u64 \<Rightarrow> (RecordHeader \<times> bytes) res \<times> 'io \<times> DataFile" where
  "DataFile_read_record D io df off total_len expect_id =
     (case PagedFile_read_aligned D io (df_paged_file df) off total_len of
        (Inl e, io, pf) \<Rightarrow> (Inl e, io, df\<lparr>df_paged_file := pf\<rparr>)
      | (Inr (buffer, buffer_offset), io, pf) \<Rightarrow>
          (DataFile_parse df (AlignedBuf_deref buffer) buffer_offset total_len expect_id off, io,
           df\<lparr>df_paged_file := PagedFile_recycle pf buffer\<rparr>))"

definition DataFile_read_header ::
  "'io BlockIo \<Rightarrow> 'io \<Rightarrow> DataFile \<Rightarrow> u64 \<Rightarrow> u64 \<Rightarrow> RecordHeader res \<times> 'io \<times> DataFile" where
  "DataFile_read_header D io df off expect_id =
     (case PagedFile_read_aligned D io (df_paged_file df) off (DataFile_record_header_len df) of
        (Inl e, io, pf) \<Rightarrow> (Inl e, io, df\<lparr>df_paged_file := pf\<rparr>)
      | (Inr (buffer, buffer_offset), io, pf) \<Rightarrow>
          let df' = df\<lparr>df_paged_file := PagedFile_recycle pf buffer\<rparr> in
          case RecordHeader_decode (drop buffer_offset (AlignedBuf_deref buffer)) (df_with_bucket df) of
            None \<Rightarrow> (Inl (Err (Corrupt ''record header'' off)), io, df')
          | Some header \<Rightarrow>
              if rh_id header \<noteq> expect_id then (Inl (Err (Corrupt ''record identity'' off)), io, df')
              else (Inr header, io, df'))"

section \<open>Many records at once\<close>

text \<open>An item is an offset, a length and an identifier; a group is a range of pages and its items.\<close>

type_synonym item = "u64 \<times> u64 \<times> u64"
type_synonym item_group = "u64 \<times> u64 \<times> nat list"

definition group_push :: "item list \<Rightarrow> item_group list \<Rightarrow> nat \<Rightarrow> item_group list" where
  "group_push items groups item_index =
     (let (offset, len, _) = items ! item_index;
          group_start = page_down offset;
          group_end = page_up (offset + len)
      in if groups \<noteq> [] \<and> group_start \<le> fst (snd (last groups))
         then let (gs, ge, members) = last groups
           in butlast groups @ [(gs, max ge group_end, members @ [item_index])]
         else groups @ [(group_start, group_end, [item_index])])"

definition read_order :: "item list \<Rightarrow> nat list" where
  "read_order items = sort_key (\<lambda>item_index. fst (items ! item_index)) [0..<length items]"

definition read_groups :: "item list \<Rightarrow> item_group list" where
  "read_groups items = foldl (group_push items) [] (read_order items)"

fun take_sized_all :: "PagedFile \<Rightarrow> nat list \<Rightarrow> AlignedBuf list \<times> PagedFile" where
  "take_sized_all pf [] = ([], pf)"
| "take_sized_all pf (len # lens) =
     (let (buffer, pf) = PagedFile_take_sized pf len;
          (buffers, pf) = take_sized_all pf lens
      in (buffer # buffers, pf))"

text \<open>The requests fill the buffers they were made from.\<close>

definition fill_buffers :: "AlignedBuf list \<Rightarrow> bytes list \<Rightarrow> AlignedBuf list" where
  "fill_buffers buffers filled = map2 (\<lambda>buffer bs. AlignedBuf_deref_put buffer 0 bs) buffers filled"

fun parse_members ::
  "DataFile \<Rightarrow> item list \<Rightarrow> u64 \<Rightarrow> bytes \<Rightarrow> nat list \<Rightarrow> bytes list \<Rightarrow> bytes list res" where
  "parse_members df items group_start buffer [] out = Inr out"
| "parse_members df items group_start buffer (item_index # members) out =
     (let (offset, len, rid) = items ! item_index in
      case DataFile_parse df buffer (unat (offset - group_start)) len rid offset of
        Inl e \<Rightarrow> Inl e
      | Inr (_, payload) \<Rightarrow> parse_members df items group_start buffer members (out[item_index := payload]))"

fun parse_groups ::
  "DataFile \<Rightarrow> item list \<Rightarrow> (item_group \<times> bytes) list \<Rightarrow> bytes list \<Rightarrow> bytes list res" where
  "parse_groups df items [] out = Inr out"
| "parse_groups df items (((group_start, _, members), buffer) # rest) out =
     (case parse_members df items group_start buffer members out of
        Inl e \<Rightarrow> Inl e
      | Inr out \<Rightarrow> parse_groups df items rest out)"

text \<open>The result is what \<open>out\<close> holds after success. The buffers are recycled on success only.\<close>

definition DataFile_read_many ::
  "'io BlockIo \<Rightarrow> 'io \<Rightarrow> DataFile \<Rightarrow> item list \<Rightarrow> bytes list res \<times> 'io \<times> DataFile" where
  "DataFile_read_many D io df items =
     (case PagedFile_flush D io (df_paged_file df) of
        (Inl e, io, pf) \<Rightarrow> (Inl e, io, df\<lparr>df_paged_file := pf\<rparr>)
      | (Inr _, io, pf) \<Rightarrow>
          let groups = read_groups items;
              (buffers, pf) = take_sized_all pf (map (\<lambda>(gs, ge, _). unat (ge - gs)) groups)
          in case read_vec D io (pf_file pf)
                    (map2 (\<lambda>(gs, _, _) buffer. (gs, AlignedBuf_deref buffer)) groups buffers) of
               (Inl e, io) \<Rightarrow> (Inl e, io, df\<lparr>df_paged_file := pf\<rparr>)
             | (Inr filled, io) \<Rightarrow>
                 let buffers = fill_buffers buffers filled in
                 case parse_groups df items (zip groups (map AlignedBuf_deref buffers))
                        (replicate (length items) []) of
                   Inl e \<Rightarrow> (Inl e, io, df\<lparr>df_paged_file := pf\<rparr>)
                 | Inr out \<Rightarrow> (Inr out, io, df\<lparr>df_paged_file := foldl PagedFile_recycle pf buffers\<rparr>))"

section \<open>A record in a file\<close>

definition holds_at :: "(nat \<Rightarrow> u8) \<Rightarrow> nat \<Rightarrow> bytes \<Rightarrow> bool" where
  "holds_at h off bs \<longleftrightarrow> map (\<lambda>k. h (off + k)) [0..<length bs] = bs"

definition record_header :: "bool \<Rightarrow> u64 \<Rightarrow> u64 \<Rightarrow> u16 \<Rightarrow> bytes \<Rightarrow> RecordHeader" where
  "record_header integrity bucket rid version payload =
     \<lparr>rh_len = of_nat (length payload), rh_bucket = bucket, rh_id = rid, rh_version = version,
      rh_crc = (if integrity then crc32c payload else 0)\<rparr>"

definition record_bytes :: "bool \<Rightarrow> bool \<Rightarrow> u64 \<Rightarrow> u64 \<Rightarrow> u16 \<Rightarrow> bytes \<Rightarrow> bytes" where
  "record_bytes with_bucket integrity bucket rid version payload =
     header_bytes (record_header integrity bucket rid version payload) with_bucket @ payload"

lemma length_record_bytes [simp]:
  "length (record_bytes wb integrity bucket rid version payload) = header_len wb + length payload"
  by (simp add: record_bytes_def)

lemma holds_at_nth: "holds_at h off bs \<longleftrightarrow> (\<forall>k < length bs. h (off + k) = bs ! k)"
  unfolding holds_at_def list_eq_iff_nth_eq by simp

lemma holds_at_overlay: "holds_at (overlay h off bs) off bs"
  unfolding holds_at_def by (rule nth_equalityI) (simp_all add: overlay_def)

lemma holds_at_overlay_apart:
  assumes "holds_at h off bs" and "off + length bs \<le> off' \<or> off' + length bs' \<le> off"
  shows "holds_at (overlay h off' bs') off bs"
proof -
  have "overlay h off' bs' (off + k) = h (off + k)" if "k < length bs" for k
    using assms(2) that by (auto simp: overlay_def)
  with assms(1) show ?thesis by (simp add: holds_at_nth)
qed

lemma encode_record_header:
  "RecordHeader_encode h wb (take (header_len wb) (replicate 38 0)) = header_bytes h wb"
  by (simp add: RecordHeader_encode_eq put_slice_0_all min_def)

text \<open>
  A record is found by \<open>parse\<close> wherever the buffer holds it: in append files the bucket is not stored
  and reads as zero.
\<close>

definition stored_header :: "bool \<Rightarrow> bool \<Rightarrow> u64 \<Rightarrow> u64 \<Rightarrow> u16 \<Rightarrow> bytes \<Rightarrow> RecordHeader" where
  "stored_header with_bucket integrity bucket rid version payload =
     record_header integrity (if with_bucket then bucket else 0) rid version payload"

lemma decode_record:
  assumes "drop bo buffer = record_bytes wb integrity bucket rid version payload @ rest"
  shows "RecordHeader_decode (drop bo buffer) wb = Some (stored_header wb integrity bucket rid version payload)"
  using assms
  by (simp add: record_bytes_def RecordHeader_decode_bytes stored_header_def record_header_def)

lemma parse_record:
  assumes rec: "slice_of bo (header_len (df_with_bucket df) + length payload) buffer =
      record_bytes (df_with_bucket df) (df_integrity df) bucket rid version payload"
    and small: "length payload \<le> OFF_MAX"
    and total: "total_len = of_nat (header_len (df_with_bucket df) + length payload)"
  shows "DataFile_parse df buffer bo total_len rid off =
    Inr (stored_header (df_with_bucket df) (df_integrity df) bucket rid version payload, payload)"
proof -
  let ?wb = "df_with_bucket df" and ?h = "header_bytes (record_header (df_integrity df) bucket rid version payload) (df_with_bucket df)"
  let ?n = "header_len ?wb + length payload"
  obtain rest where rest: "drop bo buffer = record_bytes ?wb (df_integrity df) bucket rid version payload @ rest"
    using append_take_drop_id [of ?n "drop bo buffer"] rec by metis
  have len: "unat (of_nat (length payload) :: u64) = length payload"
    using small by (simp add: unat_of_nat_nowrap)
  have long: "bo + ?n \<le> length buffer"
    using arg_cong [OF rec, of length] header_len_bounds(3) [of ?wb]
    unfolding length_take length_drop length_record_bytes by linarith
  have "slice_of (bo + header_len ?wb) (length payload) buffer = payload"
    using arg_cong [OF rest, of "drop (header_len ?wb)"] by (simp add: record_bytes_def ac_simps)
  with len long show ?thesis
    unfolding DataFile_parse_def decode_record [OF rest]
    by (simp add: stored_header_def record_header_def Let_def total)
qed

lemma parse_Inr:
  assumes "DataFile_parse df buffer bo total_len rid off = Inr (header, payload)"
  shows "rh_id header = rid" "rh_len header + of_nat (header_len (df_with_bucket df)) = total_len"
    "df_integrity df \<Longrightarrow> crc32c payload = rh_crc header"
    "payload = slice_of (bo + header_len (df_with_bucket df)) (unat (rh_len header)) buffer"
    "RecordHeader_decode (drop bo buffer) (df_with_bucket df) = Some header"
  using assms by (auto simp: DataFile_parse_def Let_def split: option.splits if_splits)

section \<open>Storing and reading one record\<close>

text \<open>A data file is sound when its paged file is; operations change nothing else.\<close>

definition df_keep :: "DataFile \<Rightarrow> DataFile \<Rightarrow> bool" where
  "df_keep df df' \<longleftrightarrow> (\<exists>pf. df' = df\<lparr>df_paged_file := pf\<rparr> \<and> pf_keep (df_paged_file df) pf)"

abbreviation df_view :: "DataFile \<Rightarrow> nat \<Rightarrow> u8" where
  "df_view df \<equiv> pf_view (df_paged_file df)"

lemma df_keepD:
  assumes "df_keep df df'"
  shows "pf_ok (df_paged_file df')" "df_view df' = df_view df"
    "df_with_bucket df' = df_with_bucket df" "df_integrity df' = df_integrity df"
    "pf_same (df_paged_file df) (df_paged_file df')"
  using assms by (auto simp: df_keep_def pf_keep_def)

text \<open>
  The record with this identifier, version and payload is what the file is seen to hold at an
  offset.
\<close>

definition df_record :: "DataFile \<Rightarrow> nat \<Rightarrow> u64 \<Rightarrow> u64 \<Rightarrow> u16 \<Rightarrow> bytes \<Rightarrow> bool" where
  "df_record df off bucket rid version payload \<longleftrightarrow>
     off + header_len (df_with_bucket df) + length payload \<le> OFF_MAX \<and>
     holds_at (df_view df) off (record_bytes (df_with_bucket df) (df_integrity df) bucket rid version payload)"

definition record_len :: "DataFile \<Rightarrow> bytes \<Rightarrow> nat" where
  "record_len df payload = header_len (df_with_bucket df) + length payload"

lemma df_record_keep: "df_keep df df' \<Longrightarrow> df_record df' off bucket rid version payload = df_record df off bucket rid version payload"
  by (simp add: df_record_def df_keepD)

lemma df_recordD:
  assumes "df_record df off bucket rid version payload"
  shows "off + record_len df payload \<le> OFF_MAX"
    "holds_at (df_view df) off (record_bytes (df_with_bucket df) (df_integrity df) bucket rid version payload)"
    "unat (of_nat (record_len df payload) :: u64) = record_len df payload"
proof -
  show b: "off + record_len df payload \<le> OFF_MAX"
    using assms by (simp add: df_record_def record_len_def)
  show "holds_at (df_view df) off (record_bytes (df_with_bucket df) (df_integrity df) bucket rid version payload)"
    using assms by (simp add: df_record_def)
  show "unat (of_nat (record_len df payload) :: u64) = record_len df payload"
    using b by (intro unat_of_nat_nowrap) simp
qed

lemma length_record: "length (record_bytes (df_with_bucket df) i bucket rid version payload) = record_len df payload"
  by (simp add: record_len_def)

context block_io
begin

lemma stage_record_Inr:
  assumes s: "DataFile_stage_record D io df off bucket rid version payload = (Inr u, io', df')"
    and ok: "pf_ok (df_paged_file df)" and len: "unat off + record_len df payload \<le> OFF_MAX"
  shows "\<exists>pf. df' = df\<lparr>df_paged_file := pf\<rparr> \<and> pf_ok pf \<and> pf_same (df_paged_file df) pf \<and>
    pf_view pf = overlay (df_view df) (unat off)
      (record_bytes (df_with_bucket df) (df_integrity df) bucket rid version payload)"
proof -
  let ?parts = "[header_bytes (record_header (df_integrity df) bucket rid version payload) (df_with_bucket df), payload]"
  obtain pf where st: "PagedFile_stage D io (df_paged_file df) off ?parts = (Inr u, io', pf)"
    and df': "df' = df\<lparr>df_paged_file := pf\<rparr>"
    using s unfolding DataFile_stage_record_def Let_def encode_record_header record_header_def [symmetric]
    by (auto split: prod.splits)
  have "unat off + parts_len ?parts \<le> OFF_MAX" using len by (simp add: parts_len_def record_len_def)
  from stage_Inr [OF st ok this] df' show ?thesis by (intro exI [of _ pf]) (simp add: record_bytes_def)
qed

lemma stage_record_steady:
  assumes "steady io"
  shows "\<exists>io' df'. DataFile_stage_record D io df off bucket rid version payload = (Inr (), io', df') \<and> steady io'"
proof -
  let ?parts = "[header_bytes (record_header (df_integrity df) bucket rid version payload) (df_with_bucket df), payload]"
  obtain io' pf where "PagedFile_stage D io (df_paged_file df) off ?parts = (Inr (), io', pf)" "steady io'"
    using stage_steady [OF assms] by blast
  then show ?thesis
    unfolding DataFile_stage_record_def Let_def encode_record_header record_header_def [symmetric] by simp
qed

lemma read_aligned_record:
  assumes r: "PagedFile_read_aligned D io pf off len = (Inr (buf, n), io', pf')" and ok: "pf_ok pf"
    and bound: "unat off + unat len \<le> OFF_MAX" and bs: "holds_at (pf_view pf) (unat off) bs" "length bs = unat len"
  shows "slice_of n (unat len) (AlignedBuf_deref buf) = bs"
  using read_aligned_Inr(1) [OF r ok bound] bs by (simp add: holds_at_def)

lemma read_record_Inr:
  assumes r: "DataFile_read_record D io df off (of_nat (record_len df payload)) rid = (r, io', df')"
    and ok: "pf_ok (df_paged_file df)" and rec: "df_record df (unat off) bucket rid version payload"
  shows "r = Inr (header, out) \<Longrightarrow> df_keep df df' \<and> out = payload \<and>
      header = stored_header (df_with_bucket df) (df_integrity df) bucket rid version payload"
    and "steady io \<Longrightarrow> (\<exists>x. r = Inr x) \<and> steady io'"
proof -
  let ?len = "of_nat (record_len df payload) :: u64"
  note ul = df_recordD(3) [OF rec]
  have bound: "unat off + unat ?len \<le> OFF_MAX"
    using df_recordD(1) [OF rec] by (simp only: ul)
  have parse: "DataFile_parse df (AlignedBuf_deref buf) n ?len rid off =
      Inr (stored_header (df_with_bucket df) (df_integrity df) bucket rid version payload, payload)"
    if "PagedFile_read_aligned D io (df_paged_file df) off ?len = (Inr (buf, n), io1, pf1)" for buf n io1 pf1
  proof (rule parse_record)
    show "slice_of n (header_len (df_with_bucket df) + length payload) (AlignedBuf_deref buf) =
        record_bytes (df_with_bucket df) (df_integrity df) bucket rid version payload"
      using read_aligned_record [OF that ok bound df_recordD(2) [OF rec]]
      unfolding ul length_record by (simp add: record_len_def)
    show "length payload \<le> OFF_MAX" "?len = of_nat (header_len (df_with_bucket df) + length payload)"
      using df_recordD(1) [OF rec] by (simp_all add: record_len_def)
  qed
  { assume "r = Inr (header, out)"
    then obtain buf n pf1 where a: "PagedFile_read_aligned D io (df_paged_file df) off ?len = (Inr (buf, n), io', pf1)"
      and df': "df' = df\<lparr>df_paged_file := PagedFile_recycle pf1 buf\<rparr>"
      and p: "DataFile_parse df (AlignedBuf_deref buf) n ?len rid off = Inr (header, out)"
      using r by (auto simp: DataFile_read_record_def split: prod.splits sum.splits)
    have "pf_keep (df_paged_file df) pf1"
      using read_aligned_Inr(2,3) [OF a ok bound] by (rule pf_settled_keep)
    with p parse [OF a] df' show "df_keep df df' \<and> out = payload \<and>
      header = stored_header (df_with_bucket df) (df_integrity df) bucket rid version payload"
      by (auto simp: df_keep_def intro: pf_keep_recycle) }
  assume st: "steady io"
  obtain buf n io1 pf1 where a: "PagedFile_read_aligned D io (df_paged_file df) off ?len = (Inr (buf, n), io1, pf1)" "steady io1"
    using read_aligned_steady [OF st, of "df_paged_file df" off ?len] by auto
  then have "r = DataFile_parse df (AlignedBuf_deref buf) n ?len rid off" "io' = io1"
    using r by (simp_all add: DataFile_read_record_def)
  with a(2) parse [OF a(1)] show "(\<exists>x. r = Inr x) \<and> steady io'" by auto
qed

lemma read_header_Inr:
  assumes r: "DataFile_read_header D io df off rid = (r, io', df')"
    and ok: "pf_ok (df_paged_file df)" and rec: "df_record df (unat off) bucket rid version payload"
  shows "r = Inr header \<Longrightarrow> df_keep df df' \<and>
      header = stored_header (df_with_bucket df) (df_integrity df) bucket rid version payload"
    and "steady io \<Longrightarrow> (\<exists>x. r = Inr x) \<and> steady io'"
proof -
  let ?hl = "header_len (df_with_bucket df)" and ?len = "DataFile_record_header_len df"
  let ?hb = "header_bytes (record_header (df_integrity df) bucket rid version payload) (df_with_bucket df)"
  let ?sh = "stored_header (df_with_bucket df) (df_integrity df) bucket rid version payload"
  have ul: "unat ?len = ?hl" by (simp add: DataFile_record_header_len_def header_len_def)
  have bound: "unat off + unat ?len \<le> OFF_MAX"
    using df_recordD(1) [OF rec] by (simp add: ul record_len_def)
  have hb: "holds_at (df_view df) (unat off) ?hb"
    using df_recordD(2) [OF rec] by (auto simp: holds_at_nth record_bytes_def nth_append)
  have decode: "RecordHeader_decode (drop n (AlignedBuf_deref buf)) (df_with_bucket df) = Some ?sh"
    if "PagedFile_read_aligned D io (df_paged_file df) off ?len = (Inr (buf, n), io1, pf1)" for buf n io1 pf1
  proof -
    have "slice_of n ?hl (AlignedBuf_deref buf) = ?hb"
      using read_aligned_record [OF that ok bound hb] by (simp add: ul)
    then obtain rest where "drop n (AlignedBuf_deref buf) = ?hb @ rest"
      using append_take_drop_id [of ?hl "drop n (AlignedBuf_deref buf)"] by metis
    then show ?thesis
      by (simp add: RecordHeader_decode_bytes stored_header_def record_header_def)
  qed
  have res: "r = Inr ?sh \<and> io1 = io' \<and> df' = df\<lparr>df_paged_file := PagedFile_recycle pf1 buf\<rparr>"
    if "PagedFile_read_aligned D io (df_paged_file df) off ?len = (Inr (buf, n), io1, pf1)" for buf n io1 pf1
    using r that decode [OF that]
    by (simp add: DataFile_read_header_def Let_def stored_header_def record_header_def)
  { assume "r = Inr header"
    then obtain buf n io1 pf1 where a: "PagedFile_read_aligned D io (df_paged_file df) off ?len = (Inr (buf, n), io1, pf1)"
      using r by (auto simp: DataFile_read_header_def split: prod.splits sum.splits)
    have "pf_keep (df_paged_file df) pf1"
      using read_aligned_Inr(2,3) [OF a ok bound] by (rule pf_settled_keep)
    with res [OF a] \<open>r = Inr header\<close> show "df_keep df df' \<and> header = ?sh"
      by (auto simp: df_keep_def intro: pf_keep_recycle) }
  assume st: "steady io"
  obtain buf n io1 pf1 where a: "PagedFile_read_aligned D io (df_paged_file df) off ?len = (Inr (buf, n), io1, pf1)" "steady io1"
    using read_aligned_steady [OF st, of "df_paged_file df" off ?len] by auto
  with res [OF a(1)] show "(\<exists>x. r = Inr x) \<and> steady io'" by auto
qed

end

section \<open>Grouped reads cover every item\<close>

text \<open>Items that lie below the largest offset, and groups whose pages cover their members.\<close>

definition items_ok :: "item list \<Rightarrow> bool" where
  "items_ok items \<longleftrightarrow> (\<forall>(offset, len, _) \<in> set items. unat offset + unat len \<le> OFF_MAX)"

definition group_ok :: "item list \<Rightarrow> item_group \<Rightarrow> bool" where
  "group_ok items g \<longleftrightarrow> (case g of (gs, ge, members) \<Rightarrow>
     members \<noteq> [] \<and> unat ge \<le> OFF_MAX \<and> unat gs \<le> unat ge \<and>
     (\<forall>i \<in> set members. i < length items \<and> unat gs \<le> unat (fst (items ! i)) \<and>
        unat (fst (items ! i)) + unat (fst (snd (items ! i))) \<le> unat ge))"

definition group_members :: "item_group list \<Rightarrow> nat list" where
  "group_members groups = concat (map (\<lambda>(_, _, members). members) groups)"

lemma group_members_append [simp]: "group_members (a @ b) = group_members a @ group_members b"
  and group_members_Nil [simp]: "group_members [] = []"
  and group_members_Cons [simp]: "group_members ((gs, ge, ms) # groups) = ms @ group_members groups"
  by (simp_all add: group_members_def)

lemma page_range:
  assumes "unat offset + unat len \<le> OFF_MAX"
  shows "unat (page_down offset) \<le> unat offset" "unat offset + unat len \<le> unat (page_up (offset + len))"
    "unat (page_up (offset + len)) \<le> OFF_MAX"
proof -
  have u: "unat (page_up (offset + len)) = (unat offset + unat len + 4095) div 4096 * 4096"
    using assms by (simp add: unat_page_up unat_add_nowrap)
  show "unat (page_down offset) \<le> unat offset" "unat offset + unat len \<le> unat (page_up (offset + len))"
    unfolding u by simp_all
  have "(unat offset + unat len + 4095) div 4096 \<le> (OFF_MAX + 4095) div 4096"
    using assms by (intro div_le_mono) simp
  then show "unat (page_up (offset + len)) \<le> OFF_MAX" unfolding u by simp
qed

lemma group_push_ok:
  assumes ok: "\<forall>g \<in> set groups. group_ok items g" and i: "i < length items" and items: "items_ok items"
    and sorted: "\<forall>j \<in> set (group_members groups). fst (items ! j) \<le> fst (items ! i)"
  shows "(\<forall>g \<in> set (group_push items groups i). group_ok items g) \<and>
    group_members (group_push items groups i) = group_members groups @ [i]"
proof -
  obtain offset len rid where it: "items ! i = (offset, len, rid)" by (cases "items ! i")
  have "unat offset + unat len \<le> OFF_MAX"
    using items nth_mem [OF i] it by (auto simp: items_ok_def)
  note range = page_range [OF this]
  show ?thesis
  proof (cases "groups \<noteq> [] \<and> page_down offset \<le> fst (snd (last groups))")
    case False
    with ok i it range show ?thesis
      by (auto simp: group_push_def Let_def group_ok_def)
  next
    case True
    obtain gs ge ms where lg: "last groups = (gs, ge, ms)" by (cases "last groups")
    have split: "groups = butlast groups @ [(gs, ge, ms)]"
      using True lg by (metis append_butlast_last_id)
    then have members: "group_members groups = group_members (butlast groups) @ ms"
      by (metis group_members_append group_members_Cons group_members_Nil append_Nil2)
    have g: "group_ok items (gs, ge, ms)" using ok True lg by (metis last_in_set)
    then obtain j where j: "j \<in> set ms" "unat gs \<le> unat (fst (items ! j))"
      by (auto simp: group_ok_def) (metis list.set_intros(1) neq_Nil_conv)
    then have "unat gs \<le> unat offset"
      using sorted members it by (force simp: word_le_nat_alt)
    with g i it range have "group_ok items (gs, max ge (page_up (offset + len)), ms @ [i])"
      by (auto simp: group_ok_def max_def word_le_nat_alt)
    moreover have "group_push items groups i = butlast groups @ [(gs, max ge (page_up (offset + len)), ms @ [i])]"
      using True it lg by (simp add: group_push_def Let_def)
    ultimately show ?thesis using ok members by (auto dest: in_set_butlastD)
  qed
qed

lemma group_all_ok:
  assumes "items_ok items" and "\<forall>i \<in> set order. i < length items"
    and "sorted_wrt (\<lambda>i j. fst (items ! i) \<le> fst (items ! j)) (group_members groups @ order)"
    and "\<forall>g \<in> set groups. group_ok items g"
  shows "(\<forall>g \<in> set (foldl (group_push items) groups order). group_ok items g) \<and>
    group_members (foldl (group_push items) groups order) = group_members groups @ order"
  using assms(2-4)
proof (induction order arbitrary: groups)
  case Nil
  then show ?case by simp
next
  case (Cons i order)
  have "\<forall>j \<in> set (group_members groups). fst (items ! j) \<le> fst (items ! i)"
    using Cons.prems(2) by (simp add: sorted_wrt_append)
  then have "(\<forall>g \<in> set (group_push items groups i). group_ok items g) \<and>
      group_members (group_push items groups i) = group_members groups @ [i]"
    using Cons.prems assms(1) by (intro group_push_ok) simp_all
  with Cons.IH [of "group_push items groups i"] Cons.prems show ?case by simp
qed

lemma read_groups_ok:
  assumes "items_ok items"
  shows "\<forall>g \<in> set (read_groups items). group_ok items g"
    "set (group_members (read_groups items)) = {..<length items}"
proof -
  have "sorted_wrt (\<lambda>i j. fst (items ! i) \<le> fst (items ! j)) (read_order items)"
    using sorted_sort_key [of "\<lambda>i. fst (items ! i)" "[0..<length items]"]
    by (simp add: read_order_def sorted_wrt_map)
  then have "(\<forall>g \<in> set (foldl (group_push items) [] (read_order items)). group_ok items g) \<and>
      group_members (foldl (group_push items) [] (read_order items)) = group_members [] @ read_order items"
    using assms by (intro group_all_ok) (simp_all add: read_order_def)
  then show "\<forall>g \<in> set (read_groups items). group_ok items g"
    "set (group_members (read_groups items)) = {..<length items}"
    by (auto simp: read_groups_def read_order_def)
qed

section \<open>Reading many records\<close>

definition item_record :: "DataFile \<Rightarrow> item \<Rightarrow> bytes \<Rightarrow> bool" where
  "item_record df item payload \<longleftrightarrow> (case item of (offset, len, rid) \<Rightarrow>
     len = of_nat (record_len df payload) \<and>
     (\<exists>bucket version. df_record df (unat offset) bucket rid version payload))"

lemma items_records_ok:
  assumes "list_all2 (item_record df) items payloads"
  shows "items_ok items"
proof -
  have "unat (fst it) + unat (fst (snd it)) \<le> OFF_MAX" if "item_record df it payload" for it payload
    using that df_recordD(1,3) by (fastforce simp: item_record_def)
  with assms show ?thesis by (force simp: items_ok_def list_all2_conv_all_nth in_set_conv_nth)
qed

lemma slice_of_view:
  fixes lo off :: nat
  assumes "lo \<le> off" and "off + n \<le> up"
  shows "slice_of (off - lo) n (map (\<lambda>k. h (lo + k)) [0..<up - lo]) = map (\<lambda>k. h (off + k)) [0..<n]"
proof -
  obtain d where d: "off = lo + d" using assms(1) le_Suc_ex by blast
  then obtain e where "up = lo + d + n + e" using assms(2) le_Suc_ex by blast
  with d show ?thesis by (intro nth_equalityI) (simp_all add: add.assoc)
qed

lemma parse_in_group:
  assumes rec: "item_record df (offset, len, rid) payload"
    and range: "unat gs \<le> unat offset" "unat offset + unat len \<le> unat ge"
    and buf: "buffer = map (\<lambda>k. df_view df (unat gs + k)) [0..<unat ge - unat gs]"
  shows "\<exists>h. DataFile_parse df buffer (unat (offset - gs)) len rid off = Inr (h, payload)"
proof -
  obtain bucket version where r: "df_record df (unat offset) bucket rid version payload"
    and len: "len = of_nat (record_len df payload)"
    using rec by (auto simp: item_record_def)
  let ?bs = "record_bytes (df_with_bucket df) (df_integrity df) bucket rid version payload"
  have ul: "unat len = record_len df payload" using df_recordD(3) [OF r] len by simp
  have "slice_of (unat offset - unat gs) (record_len df payload) buffer = ?bs"
    using slice_of_view [of "unat gs" "unat offset" "record_len df payload" "unat ge" "df_view df"]
      df_recordD(2) [OF r] range ul unfolding holds_at_def length_record by (simp add: buf)
  moreover have "unat (offset - gs) = unat offset - unat gs" using range by (simp add: unat_sub_nowrap)
  ultimately have "DataFile_parse df buffer (unat (offset - gs)) len rid off =
      Inr (stored_header (df_with_bucket df) (df_integrity df) bucket rid version payload, payload)"
    using df_recordD(1) [OF r] by (intro parse_record) (simp_all add: record_len_def len)
  then show ?thesis by blast
qed

lemma parse_members_Inr:
  assumes "\<forall>i \<in> set members. \<exists>h. DataFile_parse df buffer (unat (fst (items ! i) - gs)) (fst (snd (items ! i)))
      (snd (snd (items ! i))) (fst (items ! i)) = Inr (h, payloads ! i)"
  shows "\<exists>out'. parse_members df items gs buffer members out = Inr out' \<and> length out' = length out \<and>
    (\<forall>k < length out. out' ! k = (if k \<in> set members then payloads ! k else out ! k))"
  using assms
proof (induction members arbitrary: out)
  case Nil
  then show ?case by simp
next
  case (Cons i members)
  obtain h where "DataFile_parse df buffer (unat (fst (items ! i) - gs)) (fst (snd (items ! i)))
      (snd (snd (items ! i))) (fst (items ! i)) = Inr (h, payloads ! i)"
    using Cons.prems by auto
  then have step: "parse_members df items gs buffer (i # members) out =
      parse_members df items gs buffer members (out[i := payloads ! i])"
    by (simp add: split_beta)
  obtain out' where "parse_members df items gs buffer members (out[i := payloads ! i]) = Inr out'"
    "length out' = length out"
    "\<forall>k < length out. out' ! k = (if k \<in> set members then payloads ! k else out[i := payloads ! i] ! k)"
    using Cons.IH [of "out[i := payloads ! i]"] Cons.prems by auto
  with step show ?case by (auto simp: nth_list_update)
qed

lemma parse_groups_Inr:
  assumes recs: "list_all2 (item_record df) items payloads"
    and "\<forall>g \<in> set groups. group_ok items g"
    and "bufs = map (\<lambda>(gs, ge, _). map (\<lambda>k. df_view df (unat gs + k)) [0..<unat ge - unat gs]) groups"
  shows "\<exists>out'. parse_groups df items (zip groups bufs) out = Inr out' \<and> length out' = length out \<and>
    (\<forall>k < length out. out' ! k = (if k \<in> set (group_members groups) then payloads ! k else out ! k))"
  using assms(2,3)
proof (induction groups arbitrary: out bufs)
  case Nil
  then show ?case by simp
next
  case (Cons g groups)
  obtain gs ge members where g: "g = (gs, ge, members)" by (cases g)
  let ?buf = "map (\<lambda>k. df_view df (unat gs + k)) [0..<unat ge - unat gs]"
  let ?bufs = "map (\<lambda>(gs, ge, _). map (\<lambda>k. df_view df (unat gs + k)) [0..<unat ge - unat gs]) groups"
  have "\<exists>h. DataFile_parse df ?buf (unat (fst (items ! i) - gs)) (fst (snd (items ! i)))
      (snd (snd (items ! i))) (fst (items ! i)) = Inr (h, payloads ! i)" if "i \<in> set members" for i
  proof -
    have i: "i < length items" "unat gs \<le> unat (fst (items ! i))"
      "unat (fst (items ! i)) + unat (fst (snd (items ! i))) \<le> unat ge"
      using Cons.prems(1) g that by (auto simp: group_ok_def)
    then have "item_record df (fst (items ! i), fst (snd (items ! i)), snd (snd (items ! i))) (payloads ! i)"
      using recs by (simp add: list_all2_conv_all_nth)
    then show ?thesis using i(2,3) by (rule parse_in_group) simp
  qed
  then obtain out1 where one: "parse_members df items gs ?buf members out = Inr out1" "length out1 = length out"
    "\<forall>k < length out. out1 ! k = (if k \<in> set members then payloads ! k else out ! k)"
    using parse_members_Inr [of members df ?buf items gs payloads out] by blast
  obtain out2 where "parse_groups df items (zip groups ?bufs) out1 = Inr out2" "length out2 = length out1"
    "\<forall>k < length out1. out2 ! k = (if k \<in> set (group_members groups) then payloads ! k else out1 ! k)"
    using Cons.IH [of ?bufs out1] Cons.prems(1) by auto
  with one show ?case by (auto simp: Cons.prems(2) g)
qed

lemma take_sized_all_facts:
  "take_sized_all pf lens = (bs, pf') \<Longrightarrow>
     length bs = length lens \<and> (\<forall>i < length lens. ab_ok (bs ! i) \<and> AlignedBuf_deref (bs ! i) = replicate (lens ! i) 0 \<and> ab_len (bs ! i) = lens ! i) \<and>
     (\<exists>q. pf' = pf\<lparr>pool := q\<rparr>)"
proof (induction lens arbitrary: pf bs)
  case Nil
  then show ?case by (auto intro: exI [of _ "pool pf"])
next
  case (Cons len lens)
  obtain b pf1 where tb: "PagedFile_take_buffer pf = (b, pf1)" by fastforce
  obtain bs1 where rest: "take_sized_all pf1 lens = (bs1, pf')" "bs = AlignedBuf_resize_zeroed b len # bs1"
    using Cons.prems tb by (auto simp: PagedFile_take_sized_def Let_def split: prod.splits)
  obtain q where b: "ab_ok b" "AlignedBuf_deref b = []" "pf1 = pf\<lparr>pool := q\<rparr>"
    using take_buffer_facts [OF tb] by blast
  then have bl: "ab_len b = 0" by (metis length_deref list.size(3))
  have IH: "length bs1 = length lens \<and> (\<forall>i < length lens. ab_ok (bs1 ! i) \<and>
      AlignedBuf_deref (bs1 ! i) = replicate (lens ! i) 0 \<and> ab_len (bs1 ! i) = lens ! i) \<and> (\<exists>q. pf' = pf1\<lparr>pool := q\<rparr>)"
    by (rule Cons.IH [OF rest(1)])
  then show ?case
    using b bl rest(2) by (auto simp: nth_Cons deref_resize split: nat.splits)
qed

lemma recycle_list_keep: "pf_keep pf pf' \<Longrightarrow> pf_keep pf (foldl PagedFile_recycle pf' bs)"
  by (induction bs arbitrary: pf') (simp_all add: pf_keep_recycle)

lemma pool_irrelevant [simp]:
  "pf_ok (pf\<lparr>pool := q\<rparr>) = pf_ok pf" "pf_view (pf\<lparr>pool := q\<rparr>) = pf_view pf"
  by (simp_all add: pf_ok_def pf_view_def fun_eq_iff split: option.split)

lemma pf_keep_pool: "pf_keep pf pf' \<Longrightarrow> pf_keep pf (pf'\<lparr>pool := q\<rparr>)"
  by (simp add: pf_keep_def pf_same_def)

lemma fill_buffers_deref:
  assumes "length bs = length filled"
    and "\<And>i. i < length filled \<Longrightarrow> ab_ok (bs ! i) \<and> ab_len (bs ! i) = length (filled ! i)"
  shows "map AlignedBuf_deref (fill_buffers bs filled) = filled"
proof (rule nth_equalityI)
  fix i
  assume "i < length (map AlignedBuf_deref (fill_buffers bs filled))"
  then have i: "i < length filled" using assms(1) by (simp add: fill_buffers_def)
  with assms(2) [OF i] show "map AlignedBuf_deref (fill_buffers bs filled) ! i = filled ! i"
    using assms(1) by (simp add: fill_buffers_def deref_put put_slice_def)
qed (simp add: fill_buffers_def assms(1))

context block_io
begin

lemma read_many_returns:
  assumes fl: "PagedFile_flush D io (df_paged_file df) = (Inr (), io1, pf1)" and ok: "pf_ok (df_paged_file df)"
    and ts: "take_sized_all pf1 (map (\<lambda>(gs, ge, _). unat (ge - gs)) (read_groups items)) = (bufs, pf2)"
    and rv: "read_vec D io1 (pf_file pf2) (map2 (\<lambda>(gs, _, _) buffer. (gs, AlignedBuf_deref buffer)) (read_groups items) bufs) = (Inr filled, io2)"
    and recs: "list_all2 (item_record df) items payloads"
  shows "\<exists>bs. DataFile_read_many D io df items = (Inr payloads, io2, df\<lparr>df_paged_file := foldl PagedFile_recycle pf2 bs\<rparr>)"
proof -
  let ?groups = "read_groups items"
  note groups = read_groups_ok [OF items_records_ok [OF recs]] and tsf = take_sized_all_facts [OF ts]
  have lens: "map (\<lambda>(gs, ge, _). unat (ge - gs)) ?groups = map (\<lambda>(gs, ge, _). unat ge - unat gs) ?groups"
    using groups(1) by (auto simp: group_ok_def unat_sub_nowrap)
  have reqs: "map2 (\<lambda>(gs, _, _) buffer. (gs, AlignedBuf_deref buffer)) ?groups bufs =
      map (\<lambda>(gs, ge, _). (gs, replicate (unat ge - unat gs) 0)) ?groups"
    using tsf unfolding lens by (intro nth_equalityI) (auto simp: split_beta)
  have "reqs_ok (map (\<lambda>(gs, ge, _). (gs, replicate (unat ge - unat gs) (0 :: u8))) ?groups)"
    using groups(1) by (fastforce simp: reqs_ok_def group_ok_def)
  then have "filled = reads_of (f_content (pf_file pf2)) (map (\<lambda>(gs, ge, _). (gs, replicate (unat ge - unat gs) 0)) ?groups)"
    using read_vec_Inr [OF rv] unfolding reqs by simp
  moreover have "byte_at (f_content (pf_file pf2)) = df_view df"
    using flush_Inr [OF fl ok] tsf by (auto simp: pf_settled_def)
  ultimately have filled: "filled = map (\<lambda>(gs, ge, _). map (\<lambda>k. df_view df (unat gs + k)) [0..<unat ge - unat gs]) ?groups"
    by (auto simp: reads_of_def read_zeros_map)
  have deref: "map AlignedBuf_deref (fill_buffers bufs filled) = filled"
    using tsf unfolding lens by (intro fill_buffers_deref) (auto simp: filled split_beta)
  obtain out' where "parse_groups df items (zip ?groups filled) (replicate (length items) []) = Inr out'"
    "length out' = length items" "\<forall>k < length items. out' ! k = payloads ! k"
    using parse_groups_Inr [OF recs groups(1) filled, of "replicate (length items) []"] groups(2) by auto
  moreover from this have "out' = payloads"
    using recs by (intro nth_equalityI) (auto simp: list_all2_lengthD)
  ultimately show ?thesis using fl ts rv deref by (auto simp: DataFile_read_many_def Let_def)
qed

lemma read_many_Inr:
  assumes r: "DataFile_read_many D io df items = (r, io', df')" and ok: "pf_ok (df_paged_file df)"
    and recs: "list_all2 (item_record df) items payloads"
  shows "r = Inr out \<Longrightarrow> out = payloads \<and> df_keep df df'"
    and "steady io \<Longrightarrow> (\<exists>x. r = Inr x) \<and> steady io'"
proof -
  let ?groups = "read_groups items" and ?lens = "map (\<lambda>(gs, ge, _). unat (ge - gs)) (read_groups items)"
  { assume "r = Inr out"
    then obtain io1 pf1 bufs pf2 filled where fl: "PagedFile_flush D io (df_paged_file df) = (Inr (), io1, pf1)"
      and ts: "take_sized_all pf1 ?lens = (bufs, pf2)"
      and rv: "read_vec D io1 (pf_file pf2) (map2 (\<lambda>(gs, _, _) buffer. (gs, AlignedBuf_deref buffer)) ?groups bufs) = (Inr filled, io')"
      using r by (auto simp: DataFile_read_many_def Let_def split: prod.splits sum.splits)
    from flush_Inr [OF fl ok] have "pf_keep (df_paged_file df) pf1" by (simp add: pf_settled_keep)
    with take_sized_all_facts [OF ts] have "pf_keep (df_paged_file df) pf2" by (auto intro: pf_keep_pool)
    with read_many_returns [OF fl ok ts rv recs] r \<open>r = Inr out\<close> show "out = payloads \<and> df_keep df df'"
      by (auto simp: df_keep_def intro: recycle_list_keep) }
  assume "steady io"
  then obtain io1 pf1 where fl: "PagedFile_flush D io (df_paged_file df) = (Inr (), io1, pf1)" "steady io1"
    using flush_steady by blast
  obtain bufs pf2 where ts: "take_sized_all pf1 ?lens = (bufs, pf2)" by fastforce
  obtain filled io2 where rv: "read_vec D io1 (pf_file pf2) (map2 (\<lambda>(gs, _, _) buffer. (gs, AlignedBuf_deref buffer)) ?groups bufs) = (Inr filled, io2)" "steady io2"
    using read_vec_steady [OF fl(2)] by blast
  from read_many_returns [OF fl(1) ok ts rv(1) recs] r rv(2) show "(\<exists>x. r = Inr x) \<and> steady io'" by auto
qed

end

section \<open>Damaged records are refused\<close>

lemma parse_damaged:
  assumes rec: "slice_of bo (record_len df payload) buffer =
      (record_bytes (df_with_bucket df) True bucket rid version payload)[i := b]"
    and i: "i < record_len df payload" "b \<noteq> record_bytes (df_with_bucket df) True bucket rid version payload ! i"
    and df: "df_integrity df" and small: "length payload \<le> OFF_MAX"
  shows "\<exists>what. DataFile_parse df buffer bo (of_nat (record_len df payload)) rid off = Inl (Err (Corrupt what off))"
proof -
  let ?wb = "df_with_bucket df" and ?h = "record_header True bucket rid version payload"
  let ?n = "record_len df payload" and ?hl = "header_len (df_with_bucket df)"
  obtain rest where rest: "drop bo buffer = (header_bytes ?h ?wb @ payload)[i := b] @ rest"
    using append_take_drop_id [of ?n "drop bo buffer"] rec by (metis record_bytes_def)
  show ?thesis
  proof (cases "i < ?hl")
    case True
    then have "drop bo buffer = (header_bytes ?h ?wb)[i := b] @ payload @ rest"
      using rest by (simp add: list_update_append)
    moreover have "b \<noteq> header_bytes ?h ?wb ! i" using i(2) True by (simp add: record_bytes_def nth_append)
    ultimately have "RecordHeader_decode (drop bo buffer) ?wb = None"
      using RecordHeader_decode_corrupted [OF True] by metis
    then show ?thesis by (simp add: DataFile_parse_def Let_def)
  next
    case False
    let ?p = "payload[i - ?hl := b]"
    have d: "drop bo buffer = header_bytes ?h ?wb @ ?p @ rest"
      using rest False by (simp add: list_update_append)
    have hd: "RecordHeader_decode (drop bo buffer) ?wb = Some (stored_header ?wb True bucket rid version payload)"
      unfolding d by (simp add: RecordHeader_decode_bytes stored_header_def record_header_def)
    have "slice_of (bo + ?hl) (length payload) buffer = ?p"
      using arg_cong [OF d, of "drop ?hl"] by (simp add: ac_simps)
    moreover have "crc32c ?p \<noteq> crc32c payload"
      using i False by (intro crc32c_update_differs) (auto simp: record_bytes_def nth_append record_len_def)
    moreover have "bo + ?hl + length payload \<le> length buffer"
      using arg_cong [OF d, of length] header_len_bounds(3) [of ?wb]
      unfolding length_drop length_append length_header_bytes length_list_update by linarith
    ultimately show ?thesis
      using small df by (simp add: DataFile_parse_def hd Let_def stored_header_def record_header_def record_len_def unat_of_nat_nowrap)
  qed
qed

context block_io
begin

lemma read_record_view:
  assumes r: "PagedFile_read_aligned D io (df_paged_file df) off (of_nat (record_len df payload)) = (Inr (buf, n), io', pf')"
    and ok: "pf_ok (df_paged_file df)" and len: "unat off + record_len df payload \<le> OFF_MAX"
    and bs: "holds_at (df_view df) (unat off) bs" "length bs = record_len df payload"
  shows "slice_of n (record_len df payload) (AlignedBuf_deref buf) = bs"
proof -
  have ul: "unat (of_nat (record_len df payload) :: u64) = record_len df payload"
    using len by (intro unat_of_nat_nowrap) simp
  show ?thesis using read_aligned_record [OF r ok, of bs] len bs by (simp add: ul)
qed

end

section \<open>Properties\<close>

text \<open>A data file of one empty page, for the witnesses.\<close>

definition example_df :: DataFile where
  "example_df = \<lparr>df_paged_file = PagedFile_handle example_file, df_with_bucket = True, df_integrity = True\<rparr>"

lemma example_df_ok: "pf_ok (df_paged_file example_df)"
  by (simp add: example_df_def pf_ok_handle)

text \<open>
  C18: on a device that does not fail, a record that was staged reads back with the header and the
  payload it was given (the bucket reads 0 in files that do not store it), and every byte outside the
  record is seen as before.
\<close>

theorem record_roundtrip:
  assumes "healthy io" and "pf_ok (df_paged_file df)" and "unat off + record_len df payload \<le> OFF_MAX"
  shows "\<exists>io1 df1 io2 df2.
    DataFile_stage_record sync_block_io io df off bucket rid version payload = (Inr (), io1, df1) \<and>
    DataFile_read_record sync_block_io io1 df1 off (of_nat (record_len df payload)) rid =
      (Inr (stored_header (df_with_bucket df) (df_integrity df) bucket rid version payload, payload), io2, df2) \<and>
    (\<forall>i. i < unat off \<or> unat off + record_len df payload \<le> i \<longrightarrow> df_view df1 i = df_view df i)"
proof -
  obtain io1 df1 where s: "DataFile_stage_record sync_block_io io df off bucket rid version payload = (Inr (), io1, df1)" "healthy io1"
    using blocking.stage_record_steady [OF assms(1)] by blast
  let ?bs = "record_bytes (df_with_bucket df) (df_integrity df) bucket rid version payload"
  obtain pf where pf: "df1 = df\<lparr>df_paged_file := pf\<rparr>" "pf_ok pf" "pf_view pf = overlay (df_view df) (unat off) ?bs"
    using blocking.stage_record_Inr [OF s(1) assms(2,3)] by blast
  have rl: "record_len df1 payload = record_len df payload" by (simp add: pf(1) record_len_def)
  have rec: "df_record df1 (unat off) bucket rid version payload"
    using assms(3) holds_at_overlay by (simp add: df_record_def pf(1,3) record_len_def)
  obtain r io2 df2 where rd: "DataFile_read_record sync_block_io io1 df1 off (of_nat (record_len df1 payload)) rid = (r, io2, df2)"
    by (metis prod_cases3)
  obtain h out where "r = Inr (h, out)"
    using blocking.read_record_Inr(2) [OF rd _ rec] pf s(2) by auto
  then have "r = Inr (stored_header (df_with_bucket df) (df_integrity df) bucket rid version payload, payload)"
    using blocking.read_record_Inr(1) [OF rd _ rec] pf by auto
  moreover have "\<forall>i. i < unat off \<or> unat off + record_len df payload \<le> i \<longrightarrow> df_view df1 i = df_view df i"
    by (auto simp: pf(1,3) overlay_def record_len_def)
  ultimately show ?thesis using s rd unfolding rl by blast
qed

theorem record_roundtrip_witness:
  "\<exists>io1 df1 h io2 df2. DataFile_stage_record sync_block_io SyncIo_new example_df 4096 3 9 1 [1, 2, 3] = (Inr (), io1, df1) \<and>
     DataFile_read_record sync_block_io io1 df1 4096 41 9 = (Inr (h, [1, 2, 3]), io2, df2)"
proof -
  have len: "record_len example_df [1, 2, 3] = 41" by (simp add: record_len_def example_df_def header_len_def)
  then have "unat (4096 :: u64) + record_len example_df [1, 2, 3] \<le> OFF_MAX" by simp
  from record_roundtrip [OF SyncIo_new_healthy example_df_ok this, of 3 9 1] show ?thesis unfolding len by simp blast
qed

text \<open>
  C19: a record with any one of its bytes damaged, in the header or in the payload, is refused as
  corrupt by a read on a device that does not fail, when integrity checking is on.
\<close>

theorem damaged_record_refused:
  assumes "healthy io" and "pf_ok (df_paged_file df)" and "df_integrity df"
    and "unat off + record_len df payload \<le> OFF_MAX" and "i < record_len df payload"
    and "b \<noteq> record_bytes (df_with_bucket df) True bucket rid version payload ! i"
    and "holds_at (df_view df) (unat off) ((record_bytes (df_with_bucket df) True bucket rid version payload)[i := b])"
  shows "\<exists>what io' df'. DataFile_read_record sync_block_io io df off (of_nat (record_len df payload)) rid =
    (Inl (Err (Corrupt what off)), io', df')"
proof -
  let ?bs = "(record_bytes (df_with_bucket df) True bucket rid version payload)[i := b]"
  obtain buf n io' pf' where rd: "PagedFile_read_aligned sync_block_io io (df_paged_file df) off (of_nat (record_len df payload)) =
      (Inr (buf, n), io', pf')"
    using blocking.read_aligned_steady [OF assms(1)] by (metis prod.exhaust)
  have "slice_of n (record_len df payload) (AlignedBuf_deref buf) = ?bs"
    by (rule blocking.read_record_view [OF rd assms(2,4,7)]) (simp add: record_len_def)
  then have "\<exists>what. DataFile_parse df (AlignedBuf_deref buf) n (of_nat (record_len df payload)) rid off = Inl (Err (Corrupt what off))"
    using assms(3-6) by (intro parse_damaged) (auto simp: record_len_def)
  then show ?thesis using rd by (auto simp: DataFile_read_record_def)
qed

theorem damaged_record_refused_witness:
  "\<exists>what io' df'. DataFile_read_record sync_block_io SyncIo_new (example_df\<lparr>df_paged_file :=
       PagedFile_handle (example_file\<lparr>f_content := replicate 4096 0 @ (record_bytes True True 3 9 1 [1, 2, 3])[40 := 4]\<rparr>)\<rparr>) 4096 41 9 =
     (Inl (Err (Corrupt what 4096)), io', df')"
proof -
  let ?bs = "(record_bytes True True 3 9 1 [1, 2, 3])[40 := 4]"
  let ?df = "example_df\<lparr>df_paged_file := PagedFile_handle (example_file\<lparr>f_content := replicate 4096 0 @ ?bs\<rparr>)\<rparr>"
  have df: "df_with_bucket ?df" "df_integrity ?df" "record_len ?df [1, 2, 3] = 41"
    by (simp_all add: example_df_def record_len_def header_len_def)
  have old: "record_bytes True True 3 9 1 [1, 2, 3] ! 40 = 3"
    by (simp add: record_bytes_def nth_append header_len_def)
  have len: "length ?bs = 41" by (simp add: header_len_def)
  have "holds_at (byte_at (replicate 4096 0 @ ?bs)) 4096 ?bs"
    unfolding holds_at_nth by (simp add: byte_at_def nth_append)
  then have holds: "holds_at (df_view ?df) (unat (4096 :: u64)) ?bs" by (simp add: pf_view_handle)
  have "\<exists>what io' df'. DataFile_read_record sync_block_io SyncIo_new ?df 4096 (of_nat (record_len ?df [1, 2, 3])) 9 =
      (Inl (Err (Corrupt what 4096)), io', df')"
    by (rule damaged_record_refused [OF SyncIo_new_healthy, where i = 40 and b = 4])
      (use df old holds in \<open>simp_all add: pf_ok_handle\<close>)
  then show ?thesis unfolding df(3) by simp
qed

text \<open>
  C28: on a device that does not fail, reading many records at once, sorted and merged into page ranges,
  returns the payload of each record asked for, in the order asked for.
\<close>

theorem read_many_correct:
  assumes "healthy io" and "pf_ok (df_paged_file df)" and "list_all2 (item_record df) items payloads"
  shows "\<exists>io' df'. DataFile_read_many sync_block_io io df items = (Inr payloads, io', df') \<and> healthy io' \<and> df_view df' = df_view df"
proof -
  obtain r io' df' where r: "DataFile_read_many sync_block_io io df items = (r, io', df')" by (metis prod_cases3)
  note m = blocking.read_many_Inr [OF r assms(2,3)]
  obtain out where "r = Inr out" "healthy io'" using m(2) [OF assms(1)] by blast
  with m(1) r df_keepD(2) show ?thesis by blast
qed

theorem read_many_correct_witness:
  "\<exists>io' df'. DataFile_read_many sync_block_io SyncIo_new (example_df\<lparr>df_paged_file :=
       PagedFile_handle (example_file\<lparr>f_content := record_bytes True True 0 5 1 [8, 9] @ record_bytes True True 0 6 1 [7]\<rparr>)\<rparr>)
       [(40, 39, 6), (0, 40, 5)] = (Inr [[7], [8, 9]], io', df')"
proof -
  let ?c = "record_bytes True True 0 5 1 [8, 9] @ record_bytes True True 0 6 1 [7]"
  let ?df = "example_df\<lparr>df_paged_file := PagedFile_handle (example_file\<lparr>f_content := ?c\<rparr>)\<rparr>"
  have df: "df_with_bucket ?df" "df_integrity ?df" "df_view ?df = byte_at ?c"
    by (simp_all add: example_df_def pf_view_handle)
  have len: "length (record_bytes True True 0 5 1 [8, 9]) = 40" "length (record_bytes True True 0 6 1 [7]) = 39"
    by (simp_all add: header_len_def)
  have "holds_at (byte_at ?c) 0 (record_bytes True True 0 5 1 [8, 9])" "holds_at (byte_at ?c) 40 (record_bytes True True 0 6 1 [7])"
    unfolding holds_at_nth len by (simp_all add: byte_at_def nth_append len del: length_record_bytes)
  then have "df_record ?df 0 0 5 1 [8, 9]" "df_record ?df 40 0 6 1 [7]"
    using df by (simp_all add: df_record_def header_len_def)
  moreover have "record_len ?df [8, 9] = 40" "record_len ?df [7] = 39"
    using df(1) by (simp_all add: record_len_def header_len_def)
  ultimately have "list_all2 (item_record ?df) [(40, 39, 6), (0, 40, 5)] [[7], [8, 9]]"
    by (auto simp: item_record_def)
  from read_many_correct [OF SyncIo_new_healthy _ this] show ?thesis by (auto simp: pf_ok_handle)
qed

end
