(* ===== verification/Index_File.thy ===== *)
theory Index_File
  imports Data_File
begin

text \<open>
  The index file of \<open>src/src/index.rs\<close>: slot \<open>id\<close> at a fixed offset gives the place of record \<open>id\<close>.
  Shown: staging a slot or a tombstone changes that slot only, and \<open>read_slot\<close>, \<open>read_slot_state\<close> and
  the batched \<open>read_slots\<close> return the slots the file is seen to hold.
\<close>

section \<open>Operations\<close>

definition SLOTS_PER_PAGE :: u64 where
  "SLOTS_PER_PAGE = PAGE_SIZE_U64 div of_nat SLOT_SIZE"

record IndexFile =
  ix_paged_file :: PagedFile

definition IndexFile_stage_slot ::
  "'io BlockIo \<Rightarrow> 'io \<Rightarrow> IndexFile \<Rightarrow> u64 \<Rightarrow> Slot option \<Rightarrow> unit res \<times> 'io \<times> IndexFile" where
  "IndexFile_stage_slot D io ix rid slot =
     (let buffer = replicate SLOT_SIZE 0;
          buffer = (case slot of Some slot \<Rightarrow> Slot_encode slot buffer | None \<Rightarrow> buffer)
      in case PagedFile_stage D io (ix_paged_file ix) (Slot_file_offset rid) [buffer] of
           (r, io, pf) \<Rightarrow> (r, io, ix\<lparr>ix_paged_file := pf\<rparr>))"

definition IndexFile_stage_tombstone ::
  "'io BlockIo \<Rightarrow> 'io \<Rightarrow> IndexFile \<Rightarrow> u64 \<Rightarrow> Slot \<Rightarrow> unit res \<times> 'io \<times> IndexFile" where
  "IndexFile_stage_tombstone D io ix rid old_slot =
     (let buffer = Slot_encode \<lparr>sl_offset = sl_offset old_slot OR TOMBSTONE_BIT,
                                sl_total_len = sl_total_len old_slot\<rparr> (replicate SLOT_SIZE 0)
      in case PagedFile_stage D io (ix_paged_file ix) (Slot_file_offset rid) [buffer] of
           (r, io, pf) \<Rightarrow> (r, io, ix\<lparr>ix_paged_file := pf\<rparr>))"

text \<open>The bytes of a slot, read through the pages around it.\<close>

definition IndexFile_read_slot_bytes ::
  "'io BlockIo \<Rightarrow> 'io \<Rightarrow> IndexFile \<Rightarrow> u64 \<Rightarrow> bytes res \<times> 'io \<times> IndexFile" where
  "IndexFile_read_slot_bytes D io ix rid =
     (case PagedFile_read_aligned D io (ix_paged_file ix) (Slot_file_offset rid) (of_nat SLOT_SIZE) of
        (Inl e, io, pf) \<Rightarrow> (Inl e, io, ix\<lparr>ix_paged_file := pf\<rparr>)
      | (Inr (buffer, buffer_offset), io, pf) \<Rightarrow>
          (Inr (slice_of buffer_offset SLOT_SIZE (AlignedBuf_deref buffer)), io,
           ix\<lparr>ix_paged_file := PagedFile_recycle pf buffer\<rparr>))"

definition IndexFile_read_slot_state ::
  "'io BlockIo \<Rightarrow> 'io \<Rightarrow> IndexFile \<Rightarrow> u64 \<Rightarrow> SlotState res \<times> 'io \<times> IndexFile" where
  "IndexFile_read_slot_state D io ix rid =
     (case IndexFile_read_slot_bytes D io ix rid of
        (Inl e, io, ix) \<Rightarrow> (Inl e, io, ix)
      | (Inr bs, io, ix) \<Rightarrow> (Inr (Slot_state bs), io, ix))"

definition IndexFile_read_slot ::
  "'io BlockIo \<Rightarrow> 'io \<Rightarrow> IndexFile \<Rightarrow> u64 \<Rightarrow> Slot option res \<times> 'io \<times> IndexFile" where
  "IndexFile_read_slot D io ix rid =
     (case IndexFile_read_slot_bytes D io ix rid of
        (Inl e, io, ix) \<Rightarrow> (Inl e, io, ix)
      | (Inr bs, io, ix) \<Rightarrow> (Inr (Slot_decode bs), io, ix))"

section \<open>Many slots at once\<close>

definition slot_pages :: "u64 list \<Rightarrow> u64 list" where
  "slot_pages ids = remdups_adj (sort (map (\<lambda>rid. page_down (Slot_file_offset rid)) ids))"

definition page_push :: "(u64 \<times> u64) list \<Rightarrow> u64 \<Rightarrow> (u64 \<times> u64) list" where
  "page_push groups page_start =
     (if groups \<noteq> [] \<and> page_start = snd (last groups)
      then butlast groups @ [(fst (last groups), snd (last groups) + PAGE_SIZE_U64)]
      else groups @ [(page_start, page_start + PAGE_SIZE_U64)])"

definition slot_groups :: "u64 list \<Rightarrow> (u64 \<times> u64) list" where
  "slot_groups ids = foldl page_push [] (slot_pages ids)"

text \<open>
  \<open>partition_point\<close>: the groups are ordered, so the elements that satisfy the predicate come first and
  the result is the index of the first one that does not.
\<close>

definition partition_point :: "('a \<Rightarrow> bool) \<Rightarrow> 'a list \<Rightarrow> nat" where
  "partition_point P xs = length (takeWhile P xs)"

definition slot_in_groups :: "(u64 \<times> u64) list \<Rightarrow> bytes list \<Rightarrow> u64 \<Rightarrow> Slot option res" where
  "slot_in_groups groups buffers rid =
     (let slot_offset = Slot_file_offset rid;
          group_index = partition_point (\<lambda>group. snd group \<le> slot_offset) groups
      in if group_index < length groups then
           let buffer_offset = unat (slot_offset - fst (groups ! group_index)) in
           if buffer_offset + SLOT_SIZE \<le> length (buffers ! group_index)
           then Inr (Slot_decode (slice_of buffer_offset SLOT_SIZE (buffers ! group_index)))
           else Inl (Panic ''slice index out of range'')
         else Inl (Panic ''index out of bounds''))"

fun slots_in_groups :: "(u64 \<times> u64) list \<Rightarrow> bytes list \<Rightarrow> u64 list \<Rightarrow> Slot option list res" where
  "slots_in_groups groups buffers [] = Inr []"
| "slots_in_groups groups buffers (rid # ids) =
     (case slot_in_groups groups buffers rid of
        Inl e \<Rightarrow> Inl e
      | Inr slot \<Rightarrow>
          (case slots_in_groups groups buffers ids of
             Inl e \<Rightarrow> Inl e
           | Inr slots \<Rightarrow> Inr (slot # slots)))"

definition IndexFile_read_slots ::
  "'io BlockIo \<Rightarrow> 'io \<Rightarrow> IndexFile \<Rightarrow> u64 list \<Rightarrow> Slot option list res \<times> 'io \<times> IndexFile" where
  "IndexFile_read_slots D io ix ids =
     (case PagedFile_flush D io (ix_paged_file ix) of
        (Inl e, io, pf) \<Rightarrow> (Inl e, io, ix\<lparr>ix_paged_file := pf\<rparr>)
      | (Inr _, io, pf) \<Rightarrow>
          let groups = slot_groups ids;
              (buffers, pf) = take_sized_all pf (map (\<lambda>(gs, ge). unat (ge - gs)) groups)
          in case read_vec D io (pf_file pf)
                    (map2 (\<lambda>(gs, _) buffer. (gs, AlignedBuf_deref buffer)) groups buffers) of
               (Inl e, io) \<Rightarrow> (Inl e, io, ix\<lparr>ix_paged_file := pf\<rparr>)
             | (Inr filled, io) \<Rightarrow>
                 let buffers = fill_buffers buffers filled in
                 case slots_in_groups groups (map AlignedBuf_deref buffers) ids of
                   Inl e \<Rightarrow> (Inl e, io, ix\<lparr>ix_paged_file := pf\<rparr>)
                 | Inr slots \<Rightarrow> (Inr slots, io, ix\<lparr>ix_paged_file := foldl PagedFile_recycle pf buffers\<rparr>))"

section \<open>The slots an index is seen to hold\<close>

text \<open>Identifiers whose slot lies below the largest offset.\<close>

abbreviation ID_MAX :: nat where
  "ID_MAX \<equiv> 288230376151711488"

definition slot_at :: "(nat \<Rightarrow> u8) \<Rightarrow> u64 \<Rightarrow> bytes" where
  "slot_at h rid = map (\<lambda>k. h (4096 + unat rid * 16 + k)) [0..<16]"

definition ix_slot :: "IndexFile \<Rightarrow> u64 \<Rightarrow> SlotState" where
  "ix_slot ix rid = Slot_state (slot_at (pf_view (ix_paged_file ix)) rid)"

abbreviation ix_live :: "IndexFile \<Rightarrow> u64 \<Rightarrow> Slot option" where
  "ix_live ix rid \<equiv> Slot_decode (slot_at (pf_view (ix_paged_file ix)) rid)"

lemma ix_live_iff: "ix_live ix rid = Some s \<longleftrightarrow> ix_slot ix rid = Live s"
  by (simp add: ix_slot_def Slot_decode_def split: SlotState.split)

definition ix_keep :: "IndexFile \<Rightarrow> IndexFile \<Rightarrow> bool" where
  "ix_keep ix ix' \<longleftrightarrow> pf_keep (ix_paged_file ix) (ix_paged_file ix')"

lemma ix_keepD:
  assumes "ix_keep ix ix'"
  shows "pf_ok (ix_paged_file ix')" "ix_slot ix' = ix_slot ix" "ix_live ix' rid = ix_live ix rid"
  using assms by (auto simp: ix_keep_def pf_keep_def ix_slot_def intro!: ext)

lemma slot_offset: "unat rid < ID_MAX \<Longrightarrow> unat (Slot_file_offset rid) = 4096 + unat rid * 16"
  by (rule unat_Slot_file_offset) simp

lemma slot_at_overlay:
  assumes "length bs = 16" and "unat rid < ID_MAX"
  shows "slot_at (overlay h (unat (Slot_file_offset rid)) bs) rid' = (if rid' = rid then bs else slot_at h rid')"
proof (cases "rid' = rid")
  case True
  with assms show ?thesis
    by (intro nth_equalityI) (simp_all add: slot_at_def overlay_def slot_offset)
next
  case False
  then have "unat rid' \<noteq> unat rid" by (simp add: word_unat_eq_iff)
  with assms False show ?thesis
    by (auto simp: slot_at_def overlay_def slot_offset)
qed

context block_io
begin

lemma stage_slot_bytes:
  assumes s: "PagedFile_stage D io (ix_paged_file ix) (Slot_file_offset rid) [bs] = (Inr u, io', pf')"
    and ok: "pf_ok (ix_paged_file ix)" and rid: "unat rid < ID_MAX" and bs: "length bs = 16"
  shows "pf_ok pf' \<and> pf_same (ix_paged_file ix) pf' \<and>
    slot_at (pf_view pf') = (slot_at (pf_view (ix_paged_file ix)))(rid := bs)"
proof -
  have "unat (Slot_file_offset rid) + parts_len [bs] \<le> OFF_MAX"
    using rid by (simp add: slot_offset parts_len_def bs)
  from stage_Inr [OF s ok this] show ?thesis
    by (auto simp: slot_at_overlay bs rid intro!: ext)
qed

lemma stage_slot_Inr:
  assumes s: "IndexFile_stage_slot D io ix rid (Some slot) = (Inr u, io', ix')"
    and ok: "pf_ok (ix_paged_file ix)" and rid: "unat rid < ID_MAX"
    and slot: "sl_offset slot \<noteq> 0" "unat (sl_offset slot) < 9223372036854775808"
  shows "pf_ok (ix_paged_file ix') \<and> pf_same (ix_paged_file ix) (ix_paged_file ix') \<and>
    ix_slot ix' = (ix_slot ix)(rid := Live slot)"
proof -
  have "Slot_encode slot (replicate SLOT_SIZE 0) = slot_bytes slot"
    by (simp add: Slot_encode_eq SLOT_SIZE_def put_slice_0_all)
  then obtain pf where st: "PagedFile_stage D io (ix_paged_file ix) (Slot_file_offset rid) [slot_bytes slot] = (Inr u, io', pf)"
    and ix': "ix' = ix\<lparr>ix_paged_file := pf\<rparr>"
    using s by (auto simp: IndexFile_stage_slot_def split: prod.splits)
  from stage_slot_bytes [OF st ok rid] slot show ?thesis
    using Slot_state_bytes [of slot "[]"] by (simp add: ix' ix_slot_def fun_eq_iff)
qed

lemma stage_tombstone_Inr:
  assumes s: "IndexFile_stage_tombstone D io ix rid slot = (Inr u, io', ix')"
    and ok: "pf_ok (ix_paged_file ix)" and rid: "unat rid < ID_MAX"
    and slot: "unat (sl_offset slot) < 9223372036854775808"
  shows "pf_ok (ix_paged_file ix') \<and> pf_same (ix_paged_file ix) (ix_paged_file ix') \<and>
    ix_slot ix' = (ix_slot ix)(rid := Deleted slot)"
proof -
  let ?bs = "slot_bytes (slot\<lparr>sl_offset := sl_offset slot OR TOMBSTONE_BIT\<rparr>)"
  have "Slot_encode \<lparr>sl_offset = sl_offset slot OR TOMBSTONE_BIT, sl_total_len = sl_total_len slot\<rparr> (replicate SLOT_SIZE 0) = ?bs"
    by (simp add: Slot_encode_eq SLOT_SIZE_def put_slice_0_all slot_bytes_def)
  then obtain pf where st: "PagedFile_stage D io (ix_paged_file ix) (Slot_file_offset rid) [?bs] = (Inr u, io', pf)"
    and ix': "ix' = ix\<lparr>ix_paged_file := pf\<rparr>"
    using s by (auto simp: IndexFile_stage_tombstone_def split: prod.splits)
  from stage_slot_bytes [OF st ok rid] show ?thesis
    using Slot_state_tombstone [OF slot, of "[]"] by (simp add: ix' ix_slot_def fun_eq_iff)
qed

lemma stage_slot_steady:
  assumes "steady io"
  shows "\<exists>io' ix'. IndexFile_stage_slot D io ix rid slot = (Inr (), io', ix') \<and> steady io'"
    "\<exists>io' ix'. IndexFile_stage_tombstone D io ix rid old = (Inr (), io', ix') \<and> steady io'"
proof -
  have "\<exists>io' ix'. (case PagedFile_stage D io (ix_paged_file ix) (Slot_file_offset rid) [bs] of
      (r, io, pf) \<Rightarrow> (r, io, ix\<lparr>ix_paged_file := pf\<rparr>)) = (Inr (), io', ix') \<and> steady io'" for bs
    using stage_steady [OF assms, of "ix_paged_file ix" "Slot_file_offset rid" "[bs]"] by auto
  then show "\<exists>io' ix'. IndexFile_stage_slot D io ix rid slot = (Inr (), io', ix') \<and> steady io'"
    "\<exists>io' ix'. IndexFile_stage_tombstone D io ix rid old = (Inr (), io', ix') \<and> steady io'"
    by (simp_all add: IndexFile_stage_slot_def IndexFile_stage_tombstone_def Let_def)
qed

lemma read_slot_bytes_Inr:
  assumes r: "IndexFile_read_slot_bytes D io ix rid = (Inr bs, io', ix')"
    and ok: "pf_ok (ix_paged_file ix)" and rid: "unat rid < ID_MAX"
  shows "bs = slot_at (pf_view (ix_paged_file ix)) rid \<and> ix_keep ix ix'"
proof -
  obtain buf n pf where a: "PagedFile_read_aligned D io (ix_paged_file ix) (Slot_file_offset rid) 16 = (Inr (buf, n), io', pf)"
    and res: "bs = slice_of n 16 (AlignedBuf_deref buf)" "ix' = ix\<lparr>ix_paged_file := PagedFile_recycle pf buf\<rparr>"
    using r by (auto simp: IndexFile_read_slot_bytes_def SLOT_SIZE_def split: prod.splits sum.splits)
  have b: "unat (Slot_file_offset rid) + unat (16 :: u64) \<le> OFF_MAX"
    using rid by (simp add: slot_offset)
  have "pf_keep (ix_paged_file ix) pf"
    using read_aligned_Inr(2,3) [OF a ok b] by (rule pf_settled_keep)
  with read_aligned_Inr(1) [OF a ok b] show ?thesis
    by (simp add: res slot_at_def slot_offset [OF rid] ix_keep_def pf_keep_recycle)
qed

lemma read_slot_Inr:
  assumes "IndexFile_read_slot D io ix rid = (Inr slot, io', ix')"
    and "pf_ok (ix_paged_file ix)" and "unat rid < ID_MAX"
  shows "slot = ix_live ix rid \<and> ix_keep ix ix'"
  using assms(1) read_slot_bytes_Inr [OF _ assms(2,3)]
  by (auto simp: IndexFile_read_slot_def split: prod.splits sum.splits)

lemma read_slot_state_Inr:
  assumes "IndexFile_read_slot_state D io ix rid = (Inr slot, io', ix')"
    and "pf_ok (ix_paged_file ix)" and "unat rid < ID_MAX"
  shows "slot = ix_slot ix rid \<and> ix_keep ix ix'"
  using assms(1) read_slot_bytes_Inr [OF _ assms(2,3)]
  by (auto simp: IndexFile_read_slot_state_def ix_slot_def split: prod.splits sum.splits)

lemma read_slot_bytes_steady:
  "steady io \<Longrightarrow> \<exists>bs io' ix'. IndexFile_read_slot_bytes D io ix rid = (Inr bs, io', ix') \<and> steady io'"
  using read_aligned_steady [of io "ix_paged_file ix" "Slot_file_offset rid" "of_nat SLOT_SIZE"]
  by (auto simp: IndexFile_read_slot_bytes_def)

lemma read_slot_steady:
  "steady io \<Longrightarrow> \<exists>slot io' ix'. IndexFile_read_slot D io ix rid = (Inr slot, io', ix') \<and> steady io'"
  using read_slot_bytes_steady [of io ix rid] by (auto simp: IndexFile_read_slot_def)

end

section \<open>Batched slot reads\<close>

text \<open>Groups of pages in ascending order that cover the pages seen so far.\<close>

definition page_groups_ok :: "u64 list \<Rightarrow> (u64 \<times> u64) list \<Rightarrow> bool" where
  "page_groups_ok pages groups \<longleftrightarrow>
     (\<forall>g \<in> set groups. unat (fst g) < unat (snd g) \<and> unat (snd g) \<le> OFF_MAX + 4096) \<and>
     sorted_wrt (\<lambda>a b. unat (snd a) \<le> unat (fst b)) groups \<and>
     (\<forall>p \<in> set pages. \<exists>g \<in> set groups. unat (fst g) \<le> unat p \<and> unat p + 4096 \<le> unat (snd g)) \<and>
     (groups \<noteq> [] \<longrightarrow> pages \<noteq> [] \<and> unat (snd (last groups)) = unat (last pages) + 4096)"

lemma page_gap:
  assumes "4096 dvd (a :: nat)" and "4096 dvd b" and "a < b"
  shows "a + 4096 \<le> b"
proof -
  obtain k l where "a = 4096 * k" "b = 4096 * l" using assms(1,2) by (auto elim!: dvdE)
  with assms(3) show ?thesis by auto
qed

lemma page_push_ok:
  assumes g: "page_groups_ok pages groups" and p: "unat p \<le> OFF_MAX" "4096 dvd unat p"
    and less: "\<forall>q \<in> set pages. q < p \<and> 4096 dvd unat q"
  shows "page_groups_ok (pages @ [p]) (page_push groups p)"
proof -
  have up: "unat (p + PAGE_SIZE_U64) = unat p + 4096"
    using p(1) by (simp add: PAGE_SIZE_U64_eq unat_add_nowrap)
  show ?thesis
  proof (cases "groups = []")
    case True
    with g p up show ?thesis by (auto simp: page_groups_ok_def page_push_def)
  next
    case False
    then have last: "unat (snd (last groups)) \<le> unat p"
      using g less p page_gap [of "unat (last pages)" "unat p"]
      by (auto simp: page_groups_ok_def word_less_nat_alt)
    obtain init gs ge where groups: "groups = init @ [(gs, ge)]"
      using False by (metis rev_exhaust surj_pair)
    have init: "\<forall>h \<in> set init. unat (snd h) \<le> unat gs" "unat gs < unat ge"
      using g by (auto simp: groups page_groups_ok_def sorted_wrt_append)
    show ?thesis
    proof (cases "p = ge")
      case True
      have "\<exists>g \<in> set (init @ [(gs, p + PAGE_SIZE_U64)]). unat (fst g) \<le> unat q \<and> unat q + 4096 \<le> unat (snd g)"
        if "q \<in> set pages" for q
        using g that True up by (fastforce simp: groups page_groups_ok_def)
      with g p up True init show ?thesis
        by (auto simp: groups page_groups_ok_def page_push_def sorted_wrt_append)
    next
      case no: False
      with g p up init last show ?thesis
        by (fastforce simp: groups page_groups_ok_def page_push_def sorted_wrt_append)
    qed
  qed
qed

lemma page_push_all:
  assumes "\<forall>p \<in> set pages. unat p \<le> OFF_MAX \<and> 4096 dvd unat p" and "sorted_wrt (<) (seen @ pages)"
    and "page_groups_ok seen groups" and "\<forall>p \<in> set seen. 4096 dvd unat p"
  shows "page_groups_ok (seen @ pages) (foldl page_push groups pages)"
  using assms
proof (induction pages arbitrary: seen groups)
  case Nil
  then show ?case by simp
next
  case (Cons p pages)
  have "page_groups_ok (seen @ [p]) (page_push groups p)"
    using Cons.prems by (intro page_push_ok) (auto simp: sorted_wrt_append)
  then have "page_groups_ok ((seen @ [p]) @ pages) (foldl page_push (page_push groups p) pages)"
    using Cons.prems by (intro Cons.IH) auto
  then show ?case by simp
qed

lemma slot_page:
  assumes "unat rid < ID_MAX"
  shows "unat (page_down (Slot_file_offset rid)) \<le> OFF_MAX"
    "unat (page_down (Slot_file_offset rid)) \<le> unat (Slot_file_offset rid)"
    "unat (Slot_file_offset rid) + 16 \<le> unat (page_down (Slot_file_offset rid)) + 4096"
proof -
  have s: "unat (Slot_file_offset rid) = 16 * (256 + unat rid)" using slot_offset [OF assms] by simp
  show "unat (page_down (Slot_file_offset rid)) \<le> unat (Slot_file_offset rid)" by simp
  then show "unat (page_down (Slot_file_offset rid)) \<le> OFF_MAX"
    using assms by (simp add: slot_offset)
  have "(16 * n + 16 :: nat) \<le> 16 * n div 4096 * 4096 + 4096" for n
  proof -
    have "16 * n div 4096 = n div 256" using div_mult_mult1 [of 16 n 256] by simp
    moreover have "n < n div 256 * 256 + 256" by (simp add: dividend_less_div_times)
    ultimately show ?thesis by simp
  qed
  then show "unat (Slot_file_offset rid) + 16 \<le> unat (page_down (Slot_file_offset rid)) + 4096"
    unfolding unat_page_down s .
qed

lemma strict_sorted_remdups_adj: "sorted xs \<Longrightarrow> sorted_wrt (<) (remdups_adj (xs :: 'a::linorder list))"
  by (induction xs rule: remdups_adj.induct) (auto simp: order.order_iff_strict)

lemma slot_groups_ok:
  assumes "\<forall>rid \<in> set ids. unat rid < ID_MAX"
  shows "page_groups_ok (slot_pages ids) (slot_groups ids)"
proof -
  have "page_groups_ok ([] @ slot_pages ids) (foldl page_push [] (slot_pages ids))"
  proof (rule page_push_all)
    show "\<forall>p \<in> set (slot_pages ids). unat p \<le> OFF_MAX \<and> 4096 dvd unat p"
      using assms slot_page(1) by (auto simp: slot_pages_def simp del: unat_page_down) simp
    show "sorted_wrt (<) ([] @ slot_pages ids)"
      by (simp add: slot_pages_def strict_sorted_remdups_adj)
  qed (simp_all add: page_groups_ok_def)
  then show ?thesis by (simp add: slot_groups_def)
qed

text \<open>The search for the group finds the one that holds the slot.\<close>

lemma partition_point_split:
  assumes "xs = a @ g # b" and "\<forall>x \<in> set a. P x" and "\<not> P g"
  shows "partition_point P xs = length a"
  using assms by (simp add: partition_point_def takeWhile_append)

lemma slot_in_groups_Inr:
  assumes ids: "\<forall>rid \<in> set ids. unat rid < ID_MAX" and rid: "rid \<in> set ids"
    and bufs: "bufs = map (\<lambda>(gs, ge). map (\<lambda>k. h (unat gs + k)) [0..<unat ge - unat gs]) (slot_groups ids)"
  shows "slot_in_groups (slot_groups ids) bufs rid = Inr (Slot_decode (slot_at h rid))"
proof -
  let ?so = "Slot_file_offset rid" and ?groups = "slot_groups ids"
  note g = slot_groups_ok [OF ids] and p = slot_page [OF ids [rule_format, OF rid]]
  have "page_down ?so \<in> set (slot_pages ids)" using rid by (simp add: slot_pages_def)
  then obtain gs ge where mem: "(gs, ge) \<in> set ?groups"
    and range: "unat gs \<le> unat (page_down ?so)" "unat (page_down ?so) + 4096 \<le> unat ge"
    using g unfolding page_groups_ok_def by fastforce
  obtain a b where groups: "?groups = a @ (gs, ge) # b" using mem by (auto simp: in_set_conv_decomp)
  have "\<forall>x \<in> set a. snd x \<le> ?so"
    using g range(1) p(2) unfolding groups page_groups_ok_def
    by (fastforce simp: sorted_wrt_append word_le_nat_alt)
  moreover have "\<not> ge \<le> ?so" using range(2) p(3) by (simp add: word_le_nat_alt)
  ultimately have idx: "partition_point (\<lambda>group. snd group \<le> ?so) ?groups = length a"
    using groups by (intro partition_point_split) auto
  have off: "unat (?so - gs) = unat ?so - unat gs" using range(1) p(2) by (intro unat_sub_nowrap) linarith
  have at: "?groups ! length a = (gs, ge)" "length a < length ?groups" by (simp_all add: groups)
  have buf: "bufs ! length a = map (\<lambda>k. h (unat gs + k)) [0..<unat ge - unat gs]"
    using at by (simp add: bufs)
  have fits: "unat ?so - unat gs + 16 \<le> unat ge - unat gs" "unat gs \<le> unat ?so"
    using range p(2,3) by linarith+
  have "slice_of (unat ?so - unat gs) 16 (bufs ! length a) = slot_at h rid"
    using slice_of_view [of "unat gs" "unat ?so" 16 "unat ge" h] fits slot_offset [OF ids [rule_format, OF rid]]
    by (simp add: buf slot_at_def)
  with fits off at show ?thesis
    by (simp add: slot_in_groups_def idx Let_def SLOT_SIZE_def buf)
qed

lemma slots_in_groups_Inr:
  assumes "\<And>rid. rid \<in> set ids \<Longrightarrow> slot_in_groups groups bufs rid = Inr (f rid)"
  shows "slots_in_groups groups bufs ids = Inr (map f ids)"
  using assms by (induction ids) simp_all

context block_io
begin

lemma read_slots_returns:
  assumes r: "IndexFile_read_slots D io ix ids = (r, io', ix')" and ok: "pf_ok (ix_paged_file ix)"
    and ids: "\<forall>rid \<in> set ids. unat rid < ID_MAX"
    and fl: "PagedFile_flush D io (ix_paged_file ix) = (Inr (), io1, pf1)"
    and ts: "take_sized_all pf1 (map (\<lambda>(gs, ge). unat (ge - gs)) (slot_groups ids)) = (bufs, pf2)"
    and rv: "read_vec D io1 (pf_file pf2) (map2 (\<lambda>(gs, _) buffer. (gs, AlignedBuf_deref buffer)) (slot_groups ids) bufs) = (Inr filled, io2)"
  shows "r = Inr (map (ix_live ix) ids) \<and> io' = io2 \<and> ix_keep ix ix'"
proof -
  let ?groups = "slot_groups ids" and ?h = "pf_view (ix_paged_file ix)"
  note g = slot_groups_ok [OF ids] and tsf = take_sized_all_facts [OF ts]
  have lens: "map (\<lambda>(gs, ge). unat (ge - gs)) ?groups = map (\<lambda>(gs, ge). unat ge - unat gs) ?groups"
    using g by (auto simp: page_groups_ok_def unat_sub_nowrap)
  have reqs: "map2 (\<lambda>(gs, _) buffer. (gs, AlignedBuf_deref buffer)) ?groups bufs =
      map (\<lambda>(gs, ge). (gs, replicate (unat ge - unat gs) 0)) ?groups"
    using tsf unfolding lens by (intro nth_equalityI) (auto simp: split_beta)
  have "reqs_ok (map (\<lambda>(gs, ge). (gs, replicate (unat ge - unat gs) (0 :: u8))) ?groups)"
    using g by (fastforce simp: reqs_ok_def page_groups_ok_def)
  then have "filled = reads_of (f_content (pf_file pf2)) (map (\<lambda>(gs, ge). (gs, replicate (unat ge - unat gs) 0)) ?groups)"
    using read_vec_Inr [OF rv] unfolding reqs by simp
  moreover have "byte_at (f_content (pf_file pf2)) = ?h"
    using flush_Inr [OF fl ok] tsf by (auto simp: pf_settled_def)
  ultimately have filled: "filled = map (\<lambda>(gs, ge). map (\<lambda>k. ?h (unat gs + k)) [0..<unat ge - unat gs]) ?groups"
    by (auto simp: reads_of_def read_zeros_map)
  have deref: "map AlignedBuf_deref (fill_buffers bufs filled) = filled"
    using tsf unfolding lens by (intro fill_buffers_deref) (auto simp: filled split_beta)
  have "slots_in_groups ?groups filled ids = Inr (map (ix_live ix) ids)"
    by (rule slots_in_groups_Inr) (rule slot_in_groups_Inr [OF ids _ filled])
  moreover have "pf_keep (ix_paged_file ix) pf1" using flush_Inr [OF fl ok] by (simp add: pf_settled_keep)
  then have "pf_keep (ix_paged_file ix) (foldl PagedFile_recycle pf2 bs)" for bs
    using tsf by (auto intro: recycle_list_keep pf_keep_pool)
  ultimately show ?thesis
    using r fl ts rv deref by (auto simp: IndexFile_read_slots_def Let_def ix_keep_def)
qed

lemma read_slots_Inr:
  assumes r: "IndexFile_read_slots D io ix ids = (r, io', ix')" and ok: "pf_ok (ix_paged_file ix)"
    and ids: "\<forall>rid \<in> set ids. unat rid < ID_MAX"
  shows "r = Inr slots \<Longrightarrow> slots = map (ix_live ix) ids \<and> ix_keep ix ix'"
    and "steady io \<Longrightarrow> (\<exists>x. r = Inr x) \<and> steady io'"
proof -
  let ?lens = "map (\<lambda>(gs, ge). unat (ge - gs)) (slot_groups ids)"
  let ?reqs = "map2 (\<lambda>(gs, _) buffer. (gs, AlignedBuf_deref buffer)) (slot_groups ids)"
  { assume "r = Inr slots"
    then obtain io1 pf1 bufs pf2 filled where "PagedFile_flush D io (ix_paged_file ix) = (Inr (), io1, pf1)"
      "take_sized_all pf1 ?lens = (bufs, pf2)" "read_vec D io1 (pf_file pf2) (?reqs bufs) = (Inr filled, io')"
      using r by (auto simp: IndexFile_read_slots_def Let_def split: prod.splits sum.splits)
    from read_slots_returns [OF r ok ids this] \<open>r = Inr slots\<close>
    show "slots = map (ix_live ix) ids \<and> ix_keep ix ix'" by simp }
  assume "steady io"
  then obtain io1 pf1 where fl: "PagedFile_flush D io (ix_paged_file ix) = (Inr (), io1, pf1)" "steady io1"
    using flush_steady by blast
  obtain bufs pf2 where ts: "take_sized_all pf1 ?lens = (bufs, pf2)" by fastforce
  obtain filled io2 where rv: "read_vec D io1 (pf_file pf2) (?reqs bufs) = (Inr filled, io2)" "steady io2"
    using read_vec_steady [OF fl(2)] by blast
  from read_slots_returns [OF r ok ids fl(1) ts rv(1)] rv(2)
  show "(\<exists>x. r = Inr x) \<and> steady io'" by auto
qed

end

section \<open>Properties\<close>

definition example_ix :: IndexFile where
  "example_ix = \<lparr>ix_paged_file = PagedFile_handle example_file\<rparr>"

lemma example_ix_ok: "pf_ok (ix_paged_file example_ix)"
  by (simp add: example_ix_def pf_ok_handle)

lemma Slot_state_zeros: "Slot_state (replicate 16 0) = Empty"
  by (simp add: Slot_state_def eval_nat_numeral)

lemma ix_slot_zeros:
  assumes "pf_view (ix_paged_file ix) = byte_at (c @ replicate n 0)" and "length c \<le> 4096"
  shows "ix_slot ix rid = Empty"
proof -
  have "slot_at (pf_view (ix_paged_file ix)) rid = replicate 16 0"
    unfolding slot_at_def assms(1) using assms(2) by (intro nth_equalityI) (simp_all add: byte_at_def nth_append)
  then show ?thesis by (simp add: ix_slot_def Slot_state_zeros)
qed

lemma example_ix_slot: "ix_slot example_ix rid = Empty"
  by (rule ix_slot_zeros [of _ "[]" 4096])
    (simp_all add: example_ix_def pf_view_handle example_file_def)

text \<open>
  On a device that does not fail, staging a slot sets the slot of that identifier and no other,
  staging its tombstone turns exactly that slot into a deleted one, and reading a slot afterwards
  returns what was staged, or nothing once it is deleted.
\<close>

theorem index_update_read:
  assumes "healthy io" and "pf_ok (ix_paged_file ix)" and "unat rid < ID_MAX" and "unat rid' < ID_MAX"
    and "sl_offset slot \<noteq> 0" and "unat (sl_offset slot) < 2 ^ 63"
  shows "\<exists>io1 ix1 io2 ix2 io3 ix3 io4 ix4.
    IndexFile_stage_slot sync_block_io io ix rid (Some slot) = (Inr (), io1, ix1) \<and> ix_slot ix1 = (ix_slot ix)(rid := Live slot) \<and>
    IndexFile_read_slot sync_block_io io1 ix1 rid' = (Inr (if rid' = rid then Some slot else ix_live ix rid'), io2, ix2) \<and>
    IndexFile_stage_tombstone sync_block_io io2 ix2 rid slot = (Inr (), io3, ix3) \<and> ix_slot ix3 = (ix_slot ix)(rid := Deleted slot) \<and>
    IndexFile_read_slot sync_block_io io3 ix3 rid' = (Inr (if rid' = rid then None else ix_live ix rid'), io4, ix4)"
proof -
  have small: "unat (sl_offset slot) < 9223372036854775808" using assms(6) by simp
  have live: "ix_live ix' rid' = (case ix_slot ix' rid' of Live s \<Rightarrow> Some s | _ \<Rightarrow> None)" for ix'
    by (simp add: ix_slot_def Slot_decode_def)
  obtain io1 ix1 where s1: "IndexFile_stage_slot sync_block_io io ix rid (Some slot) = (Inr (), io1, ix1)" "healthy io1"
    using blocking.stage_slot_steady(1) [OF assms(1)] by blast
  have f1: "pf_ok (ix_paged_file ix1)" "ix_slot ix1 = (ix_slot ix)(rid := Live slot)"
    using blocking.stage_slot_Inr [OF s1(1) assms(2,3,5) small] by simp_all
  obtain sl io2 ix2 where s2: "IndexFile_read_slot sync_block_io io1 ix1 rid' = (Inr sl, io2, ix2)" "healthy io2"
    using blocking.read_slot_steady [OF s1(2)] by blast
  have f2: "sl = ix_live ix1 rid'" "pf_ok (ix_paged_file ix2)" "ix_slot ix2 = ix_slot ix1"
    using blocking.read_slot_Inr [OF s2(1) f1(1) assms(4)] ix_keepD(1,2) by auto
  obtain io3 ix3 where s3: "IndexFile_stage_tombstone sync_block_io io2 ix2 rid slot = (Inr (), io3, ix3)" "healthy io3"
    using blocking.stage_slot_steady(2) [OF s2(2)] by blast
  have f3: "pf_ok (ix_paged_file ix3)" "ix_slot ix3 = (ix_slot ix)(rid := Deleted slot)"
    using blocking.stage_tombstone_Inr [OF s3(1) f2(2) assms(3) small] f1(2) f2(3) by simp_all
  obtain sl' io4 ix4 where s4: "IndexFile_read_slot sync_block_io io3 ix3 rid' = (Inr sl', io4, ix4)"
    using blocking.read_slot_steady [OF s3(2)] by blast
  have "sl' = ix_live ix3 rid'" using blocking.read_slot_Inr [OF s4 f3(1) assms(4)] by simp
  then have "sl' = (if rid' = rid then None else ix_live ix rid')" "sl = (if rid' = rid then Some slot else ix_live ix rid')"
    using f1(2) f2(1) f3(2) by (simp_all add: live)
  with s1 s2 s3 s4 f1(2) f3(2) show ?thesis by blast
qed

theorem index_update_read_witness:
  "\<exists>io1 ix1 io2 ix2. IndexFile_stage_slot sync_block_io SyncIo_new example_ix 7 (Some \<lparr>sl_offset = 4096, sl_total_len = 41\<rparr>) = (Inr (), io1, ix1) \<and>
     IndexFile_read_slot sync_block_io io1 ix1 7 = (Inr (Some \<lparr>sl_offset = 4096, sl_total_len = 41\<rparr>), io2, ix2)"
proof -
  let ?slot = "\<lparr>sl_offset = 4096, sl_total_len = 41\<rparr>"
  have "unat (7 :: u64) < ID_MAX" "sl_offset ?slot \<noteq> 0" "unat (sl_offset ?slot) < 2 ^ 63" by simp_all
  from index_update_read [OF SyncIo_new_healthy example_ix_ok this(1,1,2,3)] show ?thesis
    by (simp only: simp_thms if_True) blast
qed

text \<open>
  C26: on a device that does not fail, the batched slot read, which reads each page once and merges
  neighbouring pages, returns what reading the slots one by one returns, in the order asked for and
  with repetitions.
\<close>

theorem read_slots_correct:
  assumes "healthy io" and "pf_ok (ix_paged_file ix)" and "\<forall>rid \<in> set ids. unat rid < ID_MAX"
  shows "\<exists>io' ix'. IndexFile_read_slots sync_block_io io ix ids = (Inr (map (ix_live ix) ids), io', ix') \<and> ix_slot ix' = ix_slot ix \<and>
    (\<forall>rid \<in> set ids. \<exists>io2 ix2. IndexFile_read_slot sync_block_io io ix rid = (Inr (ix_live ix rid), io2, ix2))"
proof -
  obtain r io' ix' where r: "IndexFile_read_slots sync_block_io io ix ids = (r, io', ix')" by (metis prod_cases3)
  note m = blocking.read_slots_Inr [OF r assms(2,3)]
  obtain slots where "r = Inr slots" using m(2) [OF assms(1)] by blast
  moreover have "\<exists>io2 ix2. IndexFile_read_slot sync_block_io io ix rid = (Inr (ix_live ix rid), io2, ix2)" if "rid \<in> set ids" for rid
    using blocking.read_slot_steady [OF assms(1), of ix rid] blocking.read_slot_Inr [OF _ assms(2)] assms(3) that by blast
  ultimately show ?thesis using m(1) r ix_keepD(2) by blast
qed

theorem read_slots_correct_witness:
  "\<exists>io' ix'. IndexFile_read_slots sync_block_io SyncIo_new example_ix [300, 2, 300] = (Inr [None, None, None], io', ix')"
proof -
  have "\<forall>rid \<in> set [300, 2, 300 :: u64]. unat rid < ID_MAX" by simp
  moreover have "ix_live example_ix rid = None" for rid
    using ix_live_iff [of example_ix rid] example_ix_slot [of rid] by (metis SlotState.distinct(3) not_Some_eq)
  ultimately show ?thesis using read_slots_correct [OF SyncIo_new_healthy example_ix_ok, of "[300, 2, 300]"] by auto
qed

end
