(* ===== verification/Placement.thy ===== *)
theory Placement
  imports Index_File
begin

text \<open>
  The placement contract of \<open>src/src/placement.rs\<close>, with the heap configuration of \<open>src/src/heap.rs\<close> it
  is given. The trait is a record of operations; what the heap relies on is the locale \<open>placing\<close>: an
  allocation never hands out bytes or identifiers that are in use.
\<close>

section \<open>Configuration\<close>

datatype SyncPolicy = SyncNone | EveryN u32

record HeapConfig =
  sync_policy :: SyncPolicy
  integrity :: bool
  initial_size :: u64
  growth :: u64
  min_extent :: u64
  region_slots :: u64
  pending_limit :: nat

definition HeapConfig_default :: HeapConfig where
  "HeapConfig_default =
     \<lparr>sync_policy = SyncNone, integrity = True, initial_size = push_bit 20 64, growth = push_bit 20 64,
      min_extent = push_bit 20 1, region_slots = 4096, pending_limit = 8388608\<rparr>"

section \<open>The trait\<close>

text \<open>
  Each operation is given the device and its state, the configuration, the placement, the data file
  and the registry, and returns them as it leaves them.
\<close>

type_synonym ('io, 'p, 'a) placed = "'a res \<times> 'io \<times> 'p \<times> DataFile \<times> PagedFile option"

record ('io, 'p) Placement =
  pl_with_bucket :: bool
  pl_layout :: u8
  pl_alloc :: "'io BlockIo \<Rightarrow> 'io \<Rightarrow> HeapConfig \<Rightarrow> 'p \<Rightarrow> DataFile \<Rightarrow> PagedFile option \<Rightarrow> u64 \<Rightarrow> u64
    \<Rightarrow> ('io, 'p, u64 \<times> u64) placed"
  pl_update_alloc :: "'io BlockIo \<Rightarrow> 'io \<Rightarrow> HeapConfig \<Rightarrow> 'p \<Rightarrow> DataFile \<Rightarrow> PagedFile option \<Rightarrow> u64 \<Rightarrow> u64
    \<Rightarrow> ('io, 'p, u64) placed"
  pl_used_bytes :: "'p \<Rightarrow> u64"

section \<open>The contract\<close>

text \<open>The data file grew and shows the same bytes.\<close>

definition df_grow :: "DataFile \<Rightarrow> DataFile \<Rightarrow> bool" where
  "df_grow df df' \<longleftrightarrow> (\<exists>pf. df' = df\<lparr>df_paged_file := pf\<rparr> \<and> pf_ok pf \<and> pf_view pf = df_view df \<and>
     f_durable (pf_file pf) = f_durable (pf_file (df_paged_file df)))"

lemma df_growD:
  assumes "df_grow df df'"
  shows "pf_ok (df_paged_file df')" "df_view df' = df_view df"
    "df_with_bucket df' = df_with_bucket df" "df_integrity df' = df_integrity df"
    "f_durable (pf_file (df_paged_file df')) = f_durable (pf_file (df_paged_file df))"
  using assms by (auto simp: df_grow_def)

lemma df_grow_refl: "pf_ok (df_paged_file df) \<Longrightarrow> df_grow df df"
  by (auto simp: df_grow_def intro: exI [of _ "df_paged_file df"])

lemma df_grow_trans: "df_grow a b \<Longrightarrow> df_grow b d \<Longrightarrow> df_grow a d"
  by (auto simp: df_grow_def)

lemma df_grow_ensure_alloc:
  assumes "PagedFile_ensure_alloc (df_paged_file df) up_to chunk = (r, pf)" and "pf_ok (df_paged_file df)"
  shows "df_grow df (df\<lparr>df_paged_file := pf\<rparr>)"
  using ensure_alloc_facts [OF assms] by (auto simp: df_grow_def)

lemma df_record_grow: "df_grow df df' \<Longrightarrow> df_record df' off bucket rid version payload = df_record df off bucket rid version payload"
  by (simp add: df_record_def df_growD)

text \<open>Enough room on the device lets an allocation succeed.\<close>

lemma sint_nonneg:
  assumes "unat (w :: u64) < 9223372036854775808"
  shows "0 \<le> sint w" "0 < unat w \<Longrightarrow> 0 < sint w"
proof -
  have "int (unat w) < 9223372036854775808" using assms by linarith
  then have "int (unat w) < 2 ^ 63" by simp
  moreover have "- (2 ^ 63) \<le> int (unat w)" by (rule order_trans [of _ 0]) simp_all
  ultimately have "signed_take_bit 63 (int (unat w)) = int (unat w)" by (intro signed_take_bit_int_eq_self)
  then have "sint w = int (unat w)" by (simp add: sint_uint)
  then show "0 \<le> sint w" "0 < unat w \<Longrightarrow> 0 < sint w" by linarith+
qed

lemma ensure_alloc_succeeds:
  assumes room: "pf_room pf" and up_to: "unat up_to \<le> unat (allocated_end pf) + n"
    and limit: "unat (allocated_end pf) + unat chunk + n + 4096 \<le> f_limit (pf_file pf)"
  shows "\<exists>pf'. PagedFile_ensure_alloc pf up_to chunk = (Inr (), pf')"
proof (cases "up_to \<le> allocated_end pf")
  case True
  then show ?thesis by (simp add: PagedFile_ensure_alloc_def)
next
  case False
  let ?m = "max up_to (allocated_end pf + chunk)" and ?a = "allocated_end pf"
  have lim: "f_limit (pf_file pf) \<le> OFF_MAX" using room by (simp add: pf_room_def)
  have sum: "unat (?a + chunk) = unat ?a + unat chunk" using limit lim by (simp add: unat_add_nowrap)
  have m: "unat ?a < unat ?m" "unat ?m + 4096 \<le> f_limit (pf_file pf)"
    using False up_to limit by (auto simp: sum word_le_nat_alt)
  have up: "unat (page_up ?m) = (unat ?m + 4095) div 4096 * 4096"
    using m(2) lim by (intro unat_page_up) linarith
  have ge: "unat ?m \<le> unat (page_up ?m)" using m(2) lim by (intro page_up_ge) linarith
  have le: "unat (page_up ?m) \<le> unat ?m + 4095" unfolding up by (rule div_times_less_eq_dividend)
  have len: "unat (page_up ?m - ?a) = unat (page_up ?m) - unat ?a" using m(1) ge by (intro unat_sub_nowrap) linarith
  have "\<not> sint ?a < 0" "\<not> sint (page_up ?m - ?a) \<le> 0"
    using sint_nonneg(1) [of ?a] sint_nonneg(2) [of "page_up ?m - ?a"] len m ge le lim by linarith+
  moreover have "unat ?a + unat (page_up ?m - ?a) \<le> f_limit (pf_file pf)"
    using len m ge le by linarith
  ultimately show ?thesis using False by (simp add: PagedFile_ensure_alloc_def fallocate_def Let_def)
qed

text \<open>The same space is allocated, on the same device.\<close>

definition pf_extent :: "PagedFile \<Rightarrow> PagedFile \<Rightarrow> bool" where
  "pf_extent pf pf' \<longleftrightarrow> allocated_end pf' = allocated_end pf \<and> f_limit (pf_file pf') = f_limit (pf_file pf)"

lemma pf_same_extent: "pf_same pf pf' \<Longrightarrow> pf_extent pf pf'"
  by (simp add: pf_same_def pf_extent_def)

text \<open>The bytes of a range.\<close>

abbreviation span :: "u64 \<Rightarrow> u64 \<Rightarrow> nat set" where
  "span off len \<equiv> {unat off..<unat off + unat len}"

text \<open>
  \<open>good\<close> is the invariant of a placement over its configuration and data file, \<open>sane\<close> that its counters
  are far from wrapping, \<open>owned\<close> the bytes and \<open>taken\<close> the identifiers it has handed out, and \<open>room\<close> a
  condition under which an insertion cannot run out of space.
\<close>

locale placing = block_io D steady for D :: "'io BlockIo" and steady :: "'io \<Rightarrow> bool" +
  fixes P :: "('io, 'p) Placement"
    and good :: "HeapConfig \<Rightarrow> 'p \<Rightarrow> DataFile \<Rightarrow> bool"
    and sane :: "'p \<Rightarrow> bool"
    and owned :: "'p \<Rightarrow> nat set"
    and taken :: "'p \<Rightarrow> nat set"
    and room :: "HeapConfig \<Rightarrow> 'p \<Rightarrow> DataFile \<Rightarrow> PagedFile option \<Rightarrow> u64 \<Rightarrow> u64 \<Rightarrow> bool"
  assumes alloc_Inr: "pl_alloc P D io cfg p df reg bucket total_len = (Inr (off, rid), io', p', df', reg') \<Longrightarrow>
      good cfg p df \<Longrightarrow> pf_ok (df_paged_file df) \<Longrightarrow> 0 < unat total_len \<Longrightarrow> unat total_len \<le> OFF_MAX \<Longrightarrow>
      unat rid < ID_MAX \<Longrightarrow> sane p' \<Longrightarrow>
      good cfg p' df' \<and> df_grow df df' \<and> 4096 \<le> unat off \<and> unat off + unat total_len \<le> OFF_MAX \<and>
      span off total_len \<inter> owned p = {} \<and> owned p' = owned p \<union> span off total_len \<and>
      unat rid \<notin> taken p \<and> taken p' = insert (unat rid) (taken p)"
    and alloc_update_Inr: "pl_update_alloc P D io cfg p df reg bucket total_len = (Inr off, io', p', df', reg') \<Longrightarrow>
      good cfg p df \<Longrightarrow> pf_ok (df_paged_file df) \<Longrightarrow> 0 < unat total_len \<Longrightarrow> unat total_len \<le> OFF_MAX \<Longrightarrow> sane p' \<Longrightarrow>
      good cfg p' df' \<and> df_grow df df' \<and> 4096 \<le> unat off \<and> unat off + unat total_len \<le> OFF_MAX \<and>
      span off total_len \<inter> owned p = {} \<and> owned p' = owned p \<union> span off total_len \<and> taken p' = taken p"
    and good_extent: "good cfg p df \<Longrightarrow> pf_extent (df_paged_file df) (df_paged_file df') \<Longrightarrow> good cfg p df'"
    and alloc_room: "steady io \<Longrightarrow> good cfg p df \<Longrightarrow> room cfg p df reg bucket total_len \<Longrightarrow>
      \<exists>off rid io' p' df' reg'. pl_alloc P D io cfg p df reg bucket total_len = (Inr (off, rid), io', p', df', reg') \<and>
        steady io' \<and> unat rid < ID_MAX \<and> sane p'"
    and alloc_steady: "steady io \<Longrightarrow> pl_alloc P D io cfg p df reg bucket total_len = (r, io', p', df', reg') \<Longrightarrow> steady io'"
    and alloc_update_steady: "steady io \<Longrightarrow> pl_update_alloc P D io cfg p df reg bucket total_len = (q, io', p', df', reg') \<Longrightarrow> steady io'"

section \<open>A concrete store\<close>

text \<open>A new store on a device of one megabyte: a concrete state to evaluate the operations on.\<close>

definition example_config :: HeapConfig where
  "example_config = HeapConfig_default\<lparr>initial_size := 65536, growth := 65536, min_extent := 4096\<rparr>"

definition example_store :: "bool \<Rightarrow> DataFile" where
  "example_store with_bucket =
     \<lparr>df_paged_file = (PagedFile_handle example_file)\<lparr>allocated_end := 65536\<rparr>, df_with_bucket = with_bucket, df_integrity = True\<rparr>"

lemma example_store_ok: "pf_ok (df_paged_file (example_store wb))" "pf_room (df_paged_file (example_store wb))"
  "allocated_end (df_paged_file (example_store wb)) = 65536" "f_limit (pf_file (df_paged_file (example_store wb))) = 1048576"
  "df_view (example_store wb) = byte_at (replicate 4096 0)"
  by (simp_all add: example_store_def pf_ok_handle pf_view_handle)
    (simp_all add: pf_room_def PagedFile_handle_def example_file_def)

lemma example_config_simps: "growth example_config = 65536" "unat (growth example_config) = 65536"
  "min_extent example_config = 4096" "region_slots example_config = 4096"
  by (simp_all add: example_config_def HeapConfig_default_def)

end
