(* ===== verification/Append.thy ===== *)
theory Append
  imports Placement
begin

text \<open>
  Append placement of \<open>src/src/append.rs\<close>: records in allocation order, identifiers counted up. Shown:
  it meets the placement contract.
\<close>

record AppendPlacement =
  ap_cursor :: u64
  ap_next_id :: u64

definition AppendPlacement_alloc ::
  "'io BlockIo \<Rightarrow> 'io \<Rightarrow> HeapConfig \<Rightarrow> AppendPlacement \<Rightarrow> DataFile \<Rightarrow> PagedFile option \<Rightarrow> u64 \<Rightarrow> u64
   \<Rightarrow> ('io, AppendPlacement, u64 \<times> u64) placed" where
  "AppendPlacement_alloc D io config p df registry bucket total_len =
     (let offset = ap_cursor p in
      case PagedFile_ensure_alloc (df_paged_file df) (offset + total_len) (growth config) of
        (Inl e, pf) \<Rightarrow> (Inl e, io, p, df\<lparr>df_paged_file := pf\<rparr>, registry)
      | (Inr _, pf) \<Rightarrow>
          let p = p\<lparr>ap_cursor := ap_cursor p + total_len\<rparr>;
              rid = ap_next_id p;
              p = p\<lparr>ap_next_id := ap_next_id p + 1\<rparr>
          in (Inr (offset, rid), io, p, df\<lparr>df_paged_file := pf\<rparr>, registry))"

definition AppendPlacement_alloc_update ::
  "'io BlockIo \<Rightarrow> 'io \<Rightarrow> HeapConfig \<Rightarrow> AppendPlacement \<Rightarrow> DataFile \<Rightarrow> PagedFile option \<Rightarrow> u64 \<Rightarrow> u64
   \<Rightarrow> ('io, AppendPlacement, u64) placed" where
  "AppendPlacement_alloc_update D io config p df registry bucket total_len =
     (let offset = ap_cursor p in
      case PagedFile_ensure_alloc (df_paged_file df) (offset + total_len) (growth config) of
        (Inl e, pf) \<Rightarrow> (Inl e, io, p, df\<lparr>df_paged_file := pf\<rparr>, registry)
      | (Inr _, pf) \<Rightarrow>
          (Inr offset, io, p\<lparr>ap_cursor := ap_cursor p + total_len\<rparr>, df\<lparr>df_paged_file := pf\<rparr>, registry))"

definition AppendPlacement_used_bytes :: "AppendPlacement \<Rightarrow> u64" where
  "AppendPlacement_used_bytes p = ap_cursor p - PAGE_SIZE_U64"

definition append_placement :: "('io, AppendPlacement) Placement" where
  "append_placement =
     \<lparr>pl_with_bucket = False, pl_layout = LAYOUT_APPEND, pl_alloc = AppendPlacement_alloc,
      pl_update_alloc = AppendPlacement_alloc_update, pl_used_bytes = AppendPlacement_used_bytes\<rparr>"

section \<open>The contract\<close>

text \<open>The cursor never passes the end of what is allocated on the device.\<close>

definition append_good :: "HeapConfig \<Rightarrow> AppendPlacement \<Rightarrow> DataFile \<Rightarrow> bool" where
  "append_good cfg p df \<longleftrightarrow> pf_room (df_paged_file df) \<and> 4096 \<le> unat (ap_cursor p) \<and>
     unat (ap_cursor p) \<le> unat (allocated_end (df_paged_file df)) \<and> unat (growth cfg) \<le> OFF_MAX"

text \<open>Nothing to ask of the counters: the device bounds the cursor.\<close>

definition append_sane :: "AppendPlacement \<Rightarrow> bool" where
  "append_sane p \<longleftrightarrow> True"

definition append_owned :: "AppendPlacement \<Rightarrow> nat set" where
  "append_owned p = {4096..<unat (ap_cursor p)}"

definition append_taken :: "AppendPlacement \<Rightarrow> nat set" where
  "append_taken p = {..<unat (ap_next_id p)}"

definition append_room :: "HeapConfig \<Rightarrow> AppendPlacement \<Rightarrow> DataFile \<Rightarrow> PagedFile option \<Rightarrow> u64 \<Rightarrow> u64 \<Rightarrow> bool" where
  "append_room cfg p df reg bucket total_len \<longleftrightarrow> unat (ap_next_id p) < ID_MAX \<and>
     unat (allocated_end (df_paged_file df)) + unat (growth cfg) + unat total_len + 4096 \<le> f_limit (pf_file (df_paged_file df))"

lemma append_step:
  assumes e: "PagedFile_ensure_alloc (df_paged_file df) (ap_cursor p + total_len) (growth cfg) = (Inr u, pf)"
    and g: "append_good cfg p df" and ok: "pf_ok (df_paged_file df)" and total_len: "unat total_len \<le> OFF_MAX"
  shows "append_good cfg (p\<lparr>ap_cursor := ap_cursor p + total_len, ap_next_id := i\<rparr>) (df\<lparr>df_paged_file := pf\<rparr>)"
    "df_grow df (df\<lparr>df_paged_file := pf\<rparr>)" "4096 \<le> unat (ap_cursor p)"
    "unat (ap_cursor p) + unat total_len \<le> OFF_MAX" "span (ap_cursor p) total_len \<inter> append_owned p = {}"
    "append_owned (p\<lparr>ap_cursor := ap_cursor p + total_len, ap_next_id := i\<rparr>) = append_owned p \<union> span (ap_cursor p) total_len"
proof -
  have room: "pf_room (df_paged_file df)" "4096 \<le> unat (ap_cursor p)" "unat (ap_cursor p) \<le> OFF_MAX" "unat (growth cfg) \<le> OFF_MAX"
    using g by (auto simp: append_good_def pf_room_def)
  have sum: "unat (ap_cursor p + total_len) = unat (ap_cursor p) + unat total_len"
    using room total_len by (simp add: unat_add_nowrap)
  note b = ensure_alloc_bound [OF e room(1) _ room(4), unfolded sum]
  have b': "pf_room pf" "unat (ap_cursor p) + unat total_len \<le> unat (allocated_end pf)"
    using b room(3) total_len by simp_all
  then show "append_good cfg (p\<lparr>ap_cursor := ap_cursor p + total_len, ap_next_id := i\<rparr>) (df\<lparr>df_paged_file := pf\<rparr>)"
    "unat (ap_cursor p) + unat total_len \<le> OFF_MAX"
    using room by (auto simp: append_good_def pf_room_def sum)
  show "df_grow df (df\<lparr>df_paged_file := pf\<rparr>)" using df_grow_ensure_alloc [OF e ok] .
  show "4096 \<le> unat (ap_cursor p)" "span (ap_cursor p) total_len \<inter> append_owned p = {}"
    "append_owned (p\<lparr>ap_cursor := ap_cursor p + total_len, ap_next_id := i\<rparr>) = append_owned p \<union> span (ap_cursor p) total_len"
    using room(2) by (auto simp: append_owned_def sum)
qed

lemma append_alloc_Inr:
  assumes a: "AppendPlacement_alloc D io cfg p df reg bucket total_len = (Inr (off, rid), io', p', df', reg')"
    and g: "append_good cfg p df" and ok: "pf_ok (df_paged_file df)" and total_len: "unat total_len \<le> OFF_MAX"
    and rid: "unat rid < ID_MAX"
  shows "append_good cfg p' df' \<and> df_grow df df' \<and> 4096 \<le> unat off \<and> unat off + unat total_len \<le> OFF_MAX \<and>
    span off total_len \<inter> append_owned p = {} \<and> append_owned p' = append_owned p \<union> span off total_len \<and>
    unat rid \<notin> append_taken p \<and> append_taken p' = insert (unat rid) (append_taken p)"
proof -
  obtain pf where e: "PagedFile_ensure_alloc (df_paged_file df) (ap_cursor p + total_len) (growth cfg) = (Inr (), pf)"
    and res: "off = ap_cursor p" "rid = ap_next_id p" "df' = df\<lparr>df_paged_file := pf\<rparr>"
      "p' = p\<lparr>ap_cursor := ap_cursor p + total_len, ap_next_id := ap_next_id p + 1\<rparr>"
    using a by (auto simp: AppendPlacement_alloc_def Let_def split: prod.splits sum.splits)
  have "unat (ap_next_id p + 1) = Suc (unat (ap_next_id p))"
    using rid res(2) by (simp add: unat_add_nowrap)
  with append_step [OF e g ok total_len] res show ?thesis
    by (simp add: append_taken_def lessThan_Suc)
qed

lemma append_alloc_update_Inr:
  assumes a: "AppendPlacement_alloc_update D io cfg p df reg bucket total_len = (Inr off, io', p', df', reg')"
    and g: "append_good cfg p df" and ok: "pf_ok (df_paged_file df)" and total_len: "unat total_len \<le> OFF_MAX"
  shows "append_good cfg p' df' \<and> df_grow df df' \<and> 4096 \<le> unat off \<and> unat off + unat total_len \<le> OFF_MAX \<and>
    span off total_len \<inter> append_owned p = {} \<and> append_owned p' = append_owned p \<union> span off total_len \<and>
    append_taken p' = append_taken p"
proof -
  obtain pf where e: "PagedFile_ensure_alloc (df_paged_file df) (ap_cursor p + total_len) (growth cfg) = (Inr (), pf)"
    and res: "off = ap_cursor p" "df' = df\<lparr>df_paged_file := pf\<rparr>" "p' = p\<lparr>ap_cursor := ap_cursor p + total_len, ap_next_id := ap_next_id p\<rparr>"
    using a by (auto simp: AppendPlacement_alloc_update_def Let_def split: prod.splits sum.splits)
  note step = append_step [OF e g ok total_len]
  show ?thesis
    unfolding res append_taken_def
    using step(1) [of "ap_next_id p"] step(2-5) step(6) [of "ap_next_id p"] by simp
qed

lemma append_alloc_room:
  assumes g: "append_good cfg p df" and r: "append_room cfg p df reg bucket total_len"
  shows "\<exists>off rid p' df'. AppendPlacement_alloc D io cfg p df reg bucket total_len = (Inr (off, rid), io, p', df', reg) \<and>
    unat rid < ID_MAX"
proof -
  have "\<exists>pf. PagedFile_ensure_alloc (df_paged_file df) (ap_cursor p + total_len) (growth cfg) = (Inr (), pf)"
    using g r by (intro ensure_alloc_succeeds) (auto simp: append_good_def append_room_def pf_room_def unat_add_nowrap)
  with r show ?thesis by (auto simp: AppendPlacement_alloc_def append_room_def Let_def)
qed

lemma append_placement_simps:
  "pl_alloc append_placement = AppendPlacement_alloc" "pl_update_alloc append_placement = AppendPlacement_alloc_update"
  by (simp_all add: append_placement_def)

text \<open>The contract holds on every device.\<close>

lemma append_placing:
  assumes "block_io D steady"
  shows "placing D steady append_placement append_good append_sane append_owned append_taken append_room"
proof (intro placing.intro placing_axioms.intro assms, unfold append_placement_simps, goal_cases)
  case 1
  then show ?case by (intro append_alloc_Inr)
next
  case 2
  then show ?case by (intro append_alloc_update_Inr)
next
  case 3
  then show ?case by (simp add: append_good_def pf_room_def pf_extent_def)
next
  case 4
  then show ?case unfolding append_sane_def using append_alloc_room by metis
next
  case 5
  then show ?case by (auto simp: AppendPlacement_alloc_def Let_def split: prod.splits sum.splits)
next
  case 6
  then show ?case by (auto simp: AppendPlacement_alloc_update_def Let_def split: prod.splits sum.splits)
qed

interpretation appending: placing sync_block_io healthy append_placement append_good append_sane append_owned append_taken append_room
  by (rule append_placing [OF blocking.block_io_axioms])

section \<open>Properties\<close>

definition example_append :: AppendPlacement where
  "example_append = \<lparr>ap_cursor = PAGE_SIZE_U64, ap_next_id = 0\<rparr>"

lemma example_append_good: "append_good example_config example_append (example_store wb)"
  by (simp add: append_good_def example_store_ok example_append_def PAGE_SIZE_U64_eq example_config_simps)

text \<open>
  C22: a successful append allocation hands out bytes after the header page, inside what is allocated
  on the device, that overlap nothing handed out before, and an identifier never handed out before.
\<close>

theorem append_alloc_fresh:
  assumes "append_good cfg p df" and "pf_ok (df_paged_file df)" and "unat total_len \<le> OFF_MAX"
    and "AppendPlacement_alloc D io cfg p df reg bucket total_len = (Inr (off, rid), io', p', df', reg')" and "unat rid < ID_MAX"
  shows "append_good cfg p' df' \<and> df_view df' = df_view df \<and> 4096 \<le> unat off \<and>
    unat off + unat total_len \<le> unat (allocated_end (df_paged_file df')) \<and>
    span off total_len \<inter> append_owned p = {} \<and> append_owned p' = append_owned p \<union> span off total_len \<and>
    unat rid \<notin> append_taken p \<and> append_taken p' = insert (unat rid) (append_taken p)"
proof -
  note a = append_alloc_Inr [OF assms(4,1,2,3,5)]
  have p': "ap_cursor p' = off + total_len"
    using assms(4) by (auto simp: AppendPlacement_alloc_def Let_def split: prod.splits sum.splits)
  have "unat (off + total_len) = unat off + unat total_len" using a by (subst unat_add_nowrap) simp_all
  with a p' have "unat off + unat total_len \<le> unat (allocated_end (df_paged_file df'))" by (simp add: append_good_def)
  with a df_growD(2) show ?thesis by simp
qed

theorem append_alloc_fresh_witness:
  "\<exists>off rid p' df'. AppendPlacement_alloc sync_block_io SyncIo_new example_config example_append (example_store False) None 0 100 =
       (Inr (off, rid), SyncIo_new, p', df', None) \<and>
     4096 \<le> unat off \<and> append_owned p' = append_owned example_append \<union> span off 100"
proof -
  have "append_room example_config example_append (example_store False) None 0 100"
    by (simp add: append_room_def example_append_def example_store_ok example_config_simps)
  then obtain off rid p' df' where a: "AppendPlacement_alloc sync_block_io SyncIo_new example_config example_append (example_store False) None 0 100 =
      (Inr (off, rid), SyncIo_new, p', df', None)" "unat rid < ID_MAX"
    using append_alloc_room [OF example_append_good, of False None 0 100 sync_block_io SyncIo_new] by blast
  have "unat (100 :: u64) \<le> OFF_MAX" by simp
  from append_alloc_fresh [OF example_append_good example_store_ok(1) this a] a(1) show ?thesis by blast
qed

end
