(* ===== verification/Recovery.thy ===== *)
theory Recovery
  imports Placement
begin

text \<open>
  Recovery of \<open>src/src/recovery.rs\<close>: the walk over the records of a data file, which reads it in chunks
  and can find the next record after a damaged one, and the rebuilding of the index and the registry
  from the records. Shown: the walk terminates and is the direct scan of the bytes the file is seen to
  hold.
\<close>

section \<open>Walking over records\<close>

definition RECOVERY_SCAN_CHUNK_SIZE :: u64 where
  "RECOVERY_SCAN_CHUNK_SIZE = push_bit 20 1"

record WalkStats =
  ws_records :: u64
  ws_resyncs :: u64
  ws_bad_payload :: u64
  ws_last_end :: u64

definition WalkStats_default :: WalkStats where
  "WalkStats_default = \<lparr>ws_records = 0, ws_resyncs = 0, ws_bad_payload = 0, ws_last_end = 0\<rparr>"

record RecoveryReport =
  rp_rebuilt :: bool
  rp_restored_slots :: u64
  rp_rebuild :: WalkStats

text \<open>The file walked over, and the bytes read from it that are still needed.\<close>

record 'io Walk =
  wk_io :: 'io
  wk_file :: PagedFile
  wk_buffer :: bytes
  wk_start :: u64

abbreviation wk_end :: "'io Walk \<Rightarrow> u64" where
  "wk_end w \<equiv> wk_start w + of_nat (length (wk_buffer w))"

text \<open>The loop of \<open>ensure_available\<close>; it ends because every round reads up to the end or a whole chunk.\<close>

lemma chunk_decreases:
  assumes "(r :: u64) < e"
  shows "unat (e - (r + min c (e - r))) < unat (e - r) \<or> c = 0"
proof (cases "c = 0")
  case False
  let ?n = "min c (e - r)"
  have "e \<noteq> r" using assms by auto
  then have "0 < unat ?n" using False by (auto simp: unat_gt_0 min_def)
  moreover have le: "unat ?n \<le> unat (e - r)" by simp
  moreover have "unat (e - (r + ?n)) = unat (e - r) - unat ?n"
    using unat_sub_nowrap [OF le] by (simp add: algebra_simps)
  ultimately show ?thesis by linarith
qed simp

function ensure_loop :: "'io BlockIo \<Rightarrow> u64 \<Rightarrow> u64 \<Rightarrow> u64 \<Rightarrow> 'io Walk \<Rightarrow> bool res \<times> 'io Walk" where
  "ensure_loop D end_offset needed_bytes available_bytes w =
     (if available_bytes < needed_bytes then
        let read_offset = wk_end w in
        if end_offset \<le> read_offset then (Inr False, w)
        else let read_len = min RECOVERY_SCAN_CHUNK_SIZE (end_offset - read_offset) in
          case PagedFile_read_aligned D (wk_io w) (wk_file w) read_offset read_len of
            (Inl e, io, pf) \<Rightarrow> (Inl e, w\<lparr>wk_io := io, wk_file := pf\<rparr>)
          | (Inr (chunk, chunk_offset), io, pf) \<Rightarrow>
              if length (AlignedBuf_deref chunk) < chunk_offset + unat read_len
              then (Inl (Panic ''slice index out of range''), w\<lparr>wk_io := io, wk_file := pf\<rparr>)
              else ensure_loop D end_offset needed_bytes (available_bytes + read_len)
                     (w\<lparr>wk_io := io, wk_file := pf,
                        wk_buffer := wk_buffer w @ slice_of chunk_offset (unat read_len) (AlignedBuf_deref chunk)\<rparr>)
      else (Inr True, w))"
  by pat_completeness auto
termination
proof (relation "measure (\<lambda>(D, end_offset, needed, available, w). unat (end_offset - wk_end w))", goal_cases)
  case (2 D e needed available w r n x rr y io pf chunk co)
  let ?n = "min RECOVERY_SCAN_CHUNK_SIZE (e - wk_end w)"
  have "unat (e - (wk_end w + ?n)) < unat (e - wk_end w)"
    using chunk_decreases [of "wk_end w" e RECOVERY_SCAN_CHUNK_SIZE] 2 by (simp add: RECOVERY_SCAN_CHUNK_SIZE_def not_le)
  with 2 show ?case by (simp add: add.assoc min_absorb2 not_less del: unat_min)
qed simp

declare ensure_loop.simps [simp del]

definition ensure_available :: "'io BlockIo \<Rightarrow> u64 \<Rightarrow> u64 \<Rightarrow> u64 \<Rightarrow> 'io Walk \<Rightarrow> bool res \<times> 'io Walk" where
  "ensure_available D end_offset pos needed_bytes w =
     ensure_loop D end_offset needed_bytes (wk_end w - pos) w"

text \<open>\<open>buffer.drain(..n)\<close>.\<close>

definition drain :: "nat \<Rightarrow> 'io Walk \<Rightarrow> unit res \<times> 'io Walk" where
  "drain n w =
     (if length (wk_buffer w) < n then (Inl (Panic ''range end index out of range''), w)
      else (Inr (), w\<lparr>wk_buffer := drop n (wk_buffer w)\<rparr>))"

definition walk_trim :: "u64 \<Rightarrow> 'io Walk \<Rightarrow> unit res \<times> 'io Walk" where
  "walk_trim pos w =
     (if 8 * RECOVERY_SCAN_CHUNK_SIZE < pos - wk_start w
      then and_then (drain (unat (pos - wk_start w)) w) (\<lambda>_ w. (Inr (), w\<lparr>wk_start := pos\<rparr>))
      else (Inr (), w))"

definition resync_trim :: "u64 \<Rightarrow> 'io Walk \<Rightarrow> unit res \<times> 'io Walk" where
  "resync_trim search_offset w =
     (if 8 * RECOVERY_SCAN_CHUNK_SIZE < search_offset - wk_start w
      then let drain_len = unat (search_offset - wk_start w - 3)
        in and_then (drain drain_len w) (\<lambda>_ w. (Inr (), w\<lparr>wk_start := wk_start w + of_nat drain_len\<rparr>))
      else (Inr (), w))"

text \<open>\<open>windows(4).position(|window| window == record_magic)\<close>.\<close>

definition magic_position :: "bytes \<Rightarrow> nat option" where
  "magic_position bs = find (\<lambda>i. slice_of i 4 bs = to_le_bytes 4 RECORD_MAGIC) [0..<length bs - 3]"

text \<open>
  The search for the next record. \<open>n\<close> bounds the number of rounds; each but the first reads at least
  one more byte. None means the end was reached.
\<close>

function walk_resync :: "nat \<Rightarrow> 'io BlockIo \<Rightarrow> u64 \<Rightarrow> u64 \<Rightarrow> u64 \<Rightarrow> 'io Walk \<Rightarrow> u64 option res \<times> 'io Walk" where
  "walk_resync n D end_offset pos search_offset w =
     (if n = 0 then (Inl (Panic ''out of rounds''), w)
      else and_then (resync_trim search_offset w) (\<lambda>_ w.
      and_then (ensure_available D end_offset pos (search_offset - pos + 4) w) (\<lambda>enough_data w.
      if \<not> enough_data then (Inr None, w)
      else let search_index = unat (search_offset - wk_start w) in
        if length (wk_buffer w) < search_index then (Inl (Panic ''slice index out of range''), w)
        else case magic_position (drop search_index (wk_buffer w)) of
          Some relative_offset \<Rightarrow> (Inr (Some (search_offset + of_nat relative_offset)), w)
        | None \<Rightarrow> walk_resync (n - 1) D end_offset pos (wk_end w - 3) w)))"
  by pat_completeness auto
termination
  by (relation "measure fst") simp_all

declare walk_resync.simps [simp del]

text \<open>
  The visitor is a function of what it has gathered so far, the offset of a record, its header and
  whether its payload is intact; it answers whether to go on. One round of the loop: a record that was
  visited, a new position, or the end.
\<close>

type_synonym 'v visitor = "'v \<Rightarrow> u64 \<Rightarrow> RecordHeader \<Rightarrow> bool \<Rightarrow> bool \<times> 'v"

definition walk_header :: "bool \<Rightarrow> u64 \<Rightarrow> u64 \<Rightarrow> 'io Walk \<Rightarrow> RecordHeader option" where
  "walk_header with_bucket end_offset pos w =
     (case RecordHeader_decode (drop (unat (pos - wk_start w)) (wk_buffer w)) with_bucket of
        Some header \<Rightarrow>
          if pos + of_nat (header_len with_bucket) + rh_len header \<le> end_offset then Some header else None
      | None \<Rightarrow> None)"

definition walk_visit ::
  "bool \<Rightarrow> bool \<Rightarrow> 'v visitor \<Rightarrow> u64 \<Rightarrow> RecordHeader \<Rightarrow> WalkStats \<Rightarrow> 'v \<Rightarrow> 'io Walk \<Rightarrow> (bool \<times> WalkStats \<times> 'v) res \<times> 'io Walk" where
  "walk_visit with_bucket checked visitor pos header stats v w =
     (let header_size = header_len with_bucket;
          buffer_offset = unat (pos - wk_start w);
          payload_end = buffer_offset + header_size + unat (rh_len header)
      in if length (wk_buffer w) < payload_end then (Inl (Panic ''slice index out of range''), w)
         else let payload = slice_of (buffer_offset + header_size) (unat (rh_len header)) (wk_buffer w);
                  payload_valid = (\<not> checked \<or> crc32c payload = rh_crc header);
                  stats = stats\<lparr>ws_records := ws_records stats + 1\<rparr>;
                  stats = (if payload_valid then stats else stats\<lparr>ws_bad_payload := ws_bad_payload stats + 1\<rparr>);
                  (continue_walk, v) = visitor v pos header payload_valid;
                  stats = stats\<lparr>ws_last_end := pos + (of_nat header_size + rh_len header)\<rparr>
              in (Inr (continue_walk, stats, v), w))"

function walk_loop ::
  "nat \<Rightarrow> 'io BlockIo \<Rightarrow> bool \<Rightarrow> bool \<Rightarrow> u64 \<Rightarrow> bool \<Rightarrow> 'v visitor \<Rightarrow> u64 \<Rightarrow> WalkStats \<Rightarrow> 'v \<Rightarrow> 'io Walk
   \<Rightarrow> (WalkStats \<times> 'v) res \<times> 'io Walk" where
  "walk_loop n D with_bucket checked end_offset allow_resync visitor pos stats v w =
     (let header_size = of_nat (header_len with_bucket) in
      if n = 0 then (Inl (Panic ''out of rounds''), w)
      else and_then (walk_trim pos w) (\<lambda>_ w.
      if end_offset < pos + header_size then (Inr (stats, v), w)
      else and_then (ensure_available D end_offset pos header_size w) (\<lambda>enough_data w.
      if \<not> enough_data then (Inr (stats, v), w)
      else case walk_header with_bucket end_offset pos w of
        None \<Rightarrow>
          if \<not> allow_resync then (Inr (stats, v), w)
          else and_then (walk_resync (unat end_offset + 2) D end_offset pos (pos + 1) w) (\<lambda>found w.
            case found of
              None \<Rightarrow> (Inr (stats, v), w)
            | Some search_offset \<Rightarrow>
                walk_loop (n - 1) D with_bucket checked end_offset allow_resync visitor search_offset
                  (stats\<lparr>ws_resyncs := ws_resyncs stats + 1\<rparr>) v w)
      | Some header \<Rightarrow>
          and_then (ensure_available D end_offset pos (header_size + rh_len header) w) (\<lambda>enough_data w.
          if \<not> enough_data then (Inr (stats, v), w)
          else and_then (walk_visit with_bucket checked visitor pos header stats v w) (\<lambda>(continue_walk, stats, v) w.
            if \<not> continue_walk then (Inr (stats, v), w)
            else walk_loop (n - 1) D with_bucket checked end_offset allow_resync visitor
                   (pos + (header_size + rh_len header)) stats v w)))))"
  by pat_completeness auto
termination
  by (relation "measure fst") simp_all

declare walk_loop.simps [simp del]

text \<open>The bound on the rounds is one more than the end offset: every round moves the position forward.\<close>

definition walk ::
  "'io BlockIo \<Rightarrow> 'io \<Rightarrow> PagedFile \<Rightarrow> bool \<Rightarrow> bool \<Rightarrow> u64 \<Rightarrow> u64 \<Rightarrow> bool \<Rightarrow> 'v visitor \<Rightarrow> 'v
   \<Rightarrow> (WalkStats \<times> 'v) res \<times> 'io \<times> PagedFile" where
  "walk D io paged_file with_bucket checked start_offset end_offset allow_resync visitor v =
     (let stats = WalkStats_default\<lparr>ws_last_end := start_offset\<rparr> in
      case PagedFile_flush D io paged_file of
        (Inl e, io, pf) \<Rightarrow> (Inl e, io, pf)
      | (Inr _, io, pf) \<Rightarrow>
          (case walk_loop (unat end_offset + 1) D with_bucket checked end_offset allow_resync visitor
                  start_offset stats v \<lparr>wk_io = io, wk_file = pf, wk_buffer = [], wk_start = start_offset\<rparr> of
             (r, w) \<Rightarrow> (r, wk_io w, wk_file w)))"

section \<open>The direct scan\<close>

text \<open>What the walk is to find: the same rules applied to the bytes themselves, with no buffer between.\<close>

definition view_bytes :: "(nat \<Rightarrow> u8) \<Rightarrow> nat \<Rightarrow> nat \<Rightarrow> bytes" where
  "view_bytes h p n = map (\<lambda>k. h (p + k)) [0..<n]"

definition header_at :: "bool \<Rightarrow> (nat \<Rightarrow> u8) \<Rightarrow> nat \<Rightarrow> RecordHeader option" where
  "header_at wb h p = RecordHeader_decode (view_bytes h p (header_len wb)) wb"

definition record_at :: "bool \<Rightarrow> (nat \<Rightarrow> u8) \<Rightarrow> nat \<Rightarrow> nat \<Rightarrow> RecordHeader option" where
  "record_at wb h e p =
     (case header_at wb h p of
        Some header \<Rightarrow> if p + header_len wb + unat (rh_len header) \<le> e then Some header else None
      | None \<Rightarrow> None)"

definition next_magic :: "(nat \<Rightarrow> u8) \<Rightarrow> nat \<Rightarrow> nat \<Rightarrow> nat option" where
  "next_magic h p e = find (\<lambda>i. view_bytes h i 4 = to_le_bytes 4 RECORD_MAGIC) [p..<e - 3]"

definition payload_intact :: "bool \<Rightarrow> bool \<Rightarrow> (nat \<Rightarrow> u8) \<Rightarrow> nat \<Rightarrow> RecordHeader \<Rightarrow> bool" where
  "payload_intact wb checked h p header \<longleftrightarrow>
     \<not> checked \<or> crc32c (view_bytes h (p + header_len wb) (unat (rh_len header))) = rh_crc header"

definition count_record :: "bool \<Rightarrow> nat \<Rightarrow> WalkStats \<Rightarrow> WalkStats" where
  "count_record intact past stats = stats\<lparr>ws_records := ws_records stats + 1,
     ws_bad_payload := ws_bad_payload stats + (if intact then 0 else 1), ws_last_end := of_nat past\<rparr>"

lemma next_magic_Some:
  assumes "next_magic h p e = Some q"
  shows "p \<le> q" "q + 4 \<le> e" "view_bytes h q 4 = to_le_bytes 4 RECORD_MAGIC"
  using assms by (auto simp: next_magic_def find_Some_iff)

lemma next_magic_bounds: "next_magic h p e = Some q \<Longrightarrow> p \<le> q \<and> q + 4 \<le> e"
  by (simp add: next_magic_Some)

function scan ::
  "bool \<Rightarrow> bool \<Rightarrow> (nat \<Rightarrow> u8) \<Rightarrow> nat \<Rightarrow> bool \<Rightarrow> 'v visitor \<Rightarrow> nat \<Rightarrow> WalkStats \<Rightarrow> 'v \<Rightarrow> WalkStats \<times> 'v" where
  "scan wb checked h e resync visitor p stats v =
     (if e < p + header_len wb then (stats, v)
      else case record_at wb h e p of
        Some header \<Rightarrow>
          let intact = payload_intact wb checked h p header;
              past = p + (header_len wb + unat (rh_len header));
              (go, v) = visitor v (of_nat p) header intact
          in if go then scan wb checked h e resync visitor past (count_record intact past stats) v
             else (count_record intact past stats, v)
      | None \<Rightarrow>
          if \<not> resync then (stats, v)
          else case next_magic h (p + 1) e of
            None \<Rightarrow> (stats, v)
          | Some q \<Rightarrow> scan wb checked h e resync visitor q (stats\<lparr>ws_resyncs := ws_resyncs stats + 1\<rparr>) v)"
  by pat_completeness auto
termination
  by (relation "measure (\<lambda>(wb, checked, h, e, resync, visitor, p, stats, v). e - p)")
    (auto simp: header_len_def dest!: next_magic_bounds split: if_splits)

declare scan.simps [simp del]

lemma length_view_bytes [simp]: "length (view_bytes h p n) = n"
  by (simp add: view_bytes_def)

lemma nth_view_bytes [simp]: "k < n \<Longrightarrow> view_bytes h p n ! k = h (p + k)"
  by (simp add: view_bytes_def)

lemma drop_view_bytes [simp]: "drop k (view_bytes h p n) = view_bytes h (p + k) (n - k)"
  by (rule nth_equalityI) (simp_all add: add.assoc)

lemma take_view_bytes [simp]: "take k (view_bytes h p n) = view_bytes h p (min k n)"
  by (rule nth_equalityI) simp_all

lemma view_bytes_append: "view_bytes h p m @ view_bytes h (p + m) n = view_bytes h p (m + n)"
  by (rule nth_equalityI) (auto simp: nth_append)

lemma decode_prefix:
  assumes "header_len wb \<le> length buf"
  shows "RecordHeader_decode buf wb = RecordHeader_decode (take (header_len wb) buf) wb"
proof -
  have "slice_of i n (take (header_len wb) buf) = slice_of i n buf" if "i + n \<le> header_len wb" for i n
    using that by (simp add: drop_take min_absorb1)
  moreover have "take i (take (header_len wb) buf) = take i buf" if "i \<le> header_len wb" for i
    using that by (simp add: min_absorb1)
  moreover have "drop (header_len wb - 4) (take (header_len wb) buf) = slice_of (header_len wb - 4) 4 buf"
    by (cases wb) (simp_all add: header_len_def drop_take)
  ultimately show ?thesis
    using assms by (cases wb) (simp_all add: RecordHeader_decode_def header_len_def Let_def)
qed

lemma decode_view:
  "header_len wb \<le> n \<Longrightarrow> RecordHeader_decode (view_bytes h p n) wb = header_at wb h p"
  by (subst decode_prefix) (simp_all add: header_at_def min_absorb1)

text \<open>The search in a part of the bytes, and on from where it ends.\<close>

lemma find_shift: "find (\<lambda>i. P (p + i)) is = map_option (\<lambda>q. q - p) (find P (map (\<lambda>i. p + (i :: nat)) is))"
  by (induction "is") auto

lemma magic_position_view:
  "magic_position (view_bytes h p n) = map_option (\<lambda>q. q - p) (next_magic h p (p + n))"
proof -
  let ?P = "\<lambda>i. view_bytes h i 4 = to_le_bytes 4 RECORD_MAGIC"
  have upt: "[p..<p + n - 3] = map (\<lambda>i. p + i) [0..<n - 3]"
    by (rule nth_equalityI) auto
  have "magic_position (view_bytes h p n) = find (\<lambda>i. ?P (p + i)) [0..<n - 3]"
    unfolding magic_position_def
    by (rule find_cong) (simp_all add: min_absorb1)
  also have "\<dots> = map_option (\<lambda>q. q - p) (find ?P (map (\<lambda>i. p + i) [0..<n - 3]))"
    by (rule find_shift)
  finally show ?thesis by (simp add: next_magic_def upt)
qed

lemma next_magic_later:
  assumes "next_magic h p m = None" and "m \<le> e" and "p + 3 \<le> m"
  shows "next_magic h p e = next_magic h (m - 3) e"
proof -
  have "[p..<e - 3] = [p..<m - 3] @ [m - 3..<e - 3]"
    using assms(2,3) upt_add_eq_append [of p "m - 3" "e - m"] by simp
  moreover have "find P (xs @ ys) = find P ys" if "find P xs = None" for P :: "nat \<Rightarrow> bool" and xs ys
    using that by (induction xs) (auto split: if_splits)
  ultimately show ?thesis using assms(1) by (simp add: next_magic_def)
qed

lemma next_magic_earlier:
  assumes "next_magic h p m = Some q" and "m \<le> e"
  shows "next_magic h p e = Some q"
proof -
  have "p + 3 \<le> m" using next_magic_bounds [OF assms(1)] by simp
  then have "[p..<e - 3] = [p..<m - 3] @ [m - 3..<e - 3]"
    using assms(2) upt_add_eq_append [of p "m - 3" "e - m"] by simp
  moreover have "find P (xs @ ys) = Some x" if "find P xs = Some x" for P :: "nat \<Rightarrow> bool" and xs ys x
    using that by (induction xs) (auto split: if_splits)
  ultimately show ?thesis using assms(1) by (simp add: next_magic_def)
qed

section \<open>The walk is the scan\<close>

abbreviation wk_hi :: "'io Walk \<Rightarrow> nat" where
  "wk_hi w \<equiv> unat (wk_start w) + length (wk_buffer w)"

text \<open>The buffer holds what the file is seen to hold from \<open>wk_start\<close> on, up to the end at most.\<close>

definition walk_ok :: "(nat \<Rightarrow> u8) \<Rightarrow> nat \<Rightarrow> 'io Walk \<Rightarrow> bool" where
  "walk_ok h e w \<longleftrightarrow> pf_settled h (wk_file w) \<and>
     wk_buffer w = view_bytes h (unat (wk_start w)) (length (wk_buffer w)) \<and> wk_hi w \<le> e"

definition same_walk :: "'io Walk \<Rightarrow> 'io Walk \<Rightarrow> bool" where
  "same_walk w w' \<longleftrightarrow> pf_same (wk_file w) (wk_file w') \<and> pf_file (wk_file w') = pf_file (wk_file w)"

text \<open>Reading a file that has nothing staged does not write to it.\<close>

definition pf_still :: "PagedFile \<Rightarrow> PagedFile \<Rightarrow> bool" where
  "pf_still pf pf' \<longleftrightarrow> (staged_writes pf = [] \<longrightarrow> pf_file pf' = pf_file pf \<and> staged_writes pf' = [])"

lemma pf_still_refl [simp]: "pf_still pf pf"
  and pf_still_trans: "pf_still a b \<Longrightarrow> pf_still b d \<Longrightarrow> pf_still a d"
  by (simp_all add: pf_still_def)

lemma pf_still_recycle [simp]: "pf_still a (PagedFile_recycle b buf) = pf_still a b"
  by (simp add: pf_still_def recycle_fields)

lemma read_aligned_still:
  assumes "PagedFile_read_aligned D io pf off len = (r, io', pf')"
  shows "pf_still pf pf'"
proof -
  obtain b pf1 where "PagedFile_take_buffer pf = (b, pf1)" by (cases "PagedFile_take_buffer pf")
  moreover from take_buffer_facts [OF this] obtain q where "pf1 = pf\<lparr>pool := q\<rparr>" by blast
  ultimately show ?thesis
    using assms by (auto simp: pf_still_def PagedFile_read_aligned_def PagedFile_flush_def Let_def split: prod.splits sum.splits)
qed

lemma same_walk_trans [trans]: "same_walk u v \<Longrightarrow> same_walk v w \<Longrightarrow> same_walk u w"
  by (simp add: same_walk_def pf_same_def)

lemma same_walk_refl [simp]: "same_walk w w"
  by (simp add: same_walk_def)

lemma wk_end_unat:
  assumes "walk_ok h e w" and "e \<le> OFF_MAX"
  shows "unat (wk_end w) = wk_hi w"
  using assms by (simp add: walk_ok_def unat_simps)

lemma walk_buffer_drop:
  assumes "walk_ok h e w" and "unat (wk_start w) \<le> p" and "p \<le> wk_hi w"
  shows "drop (p - unat (wk_start w)) (wk_buffer w) = view_bytes h p (wk_hi w - p)"
proof -
  have "wk_buffer w = view_bytes h (unat (wk_start w)) (length (wk_buffer w))"
    using assms(1) by (simp add: walk_ok_def)
  then have "drop (p - unat (wk_start w)) (wk_buffer w) =
      drop (p - unat (wk_start w)) (view_bytes h (unat (wk_start w)) (length (wk_buffer w)))" by simp
  with assms(2,3) show ?thesis by (simp add: add.commute)
qed

context block_io
begin

text \<open>One more chunk.\<close>

lemma walk_read:
  assumes ok: "walk_ok h (unat e) w" and e: "unat e \<le> OFF_MAX" and st: "steady (wk_io w)" and lt: "wk_hi w < unat e"
  defines "n \<equiv> min RECOVERY_SCAN_CHUNK_SIZE (e - wk_end w)"
  obtains chunk co io pf where
    "PagedFile_read_aligned D (wk_io w) (wk_file w) (wk_end w) n = (Inr (chunk, co), io, pf)"
    "co + unat n \<le> length (AlignedBuf_deref chunk)" "steady io" "0 < unat n" "wk_hi w + unat n \<le> unat e"
    "walk_ok h (unat e) (w\<lparr>wk_io := io, wk_file := pf,
       wk_buffer := wk_buffer w @ slice_of co (unat n) (AlignedBuf_deref chunk)\<rparr>)" "pf_same (wk_file w) pf" "pf_file pf = pf_file (wk_file w)"
proof -
  have hi: "unat (wk_end w) = wk_hi w" using ok e by (rule wk_end_unat)
  have n: "unat n = min (unat RECOVERY_SCAN_CHUNK_SIZE) (unat e - wk_hi w)"
    using lt hi by (simp add: n_def unat_sub_nowrap)
  have settled: "pf_settled h (wk_file w)" and buf: "wk_buffer w = view_bytes h (unat (wk_start w)) (length (wk_buffer w))"
    using ok by (simp_all add: walk_ok_def)
  have view: "pf_ok (wk_file w)" "pf_view (wk_file w) = h" using pf_settledD [OF settled] by simp_all
  obtain chunk co io pf where r: "PagedFile_read_aligned D (wk_io w) (wk_file w) (wk_end w) n = (Inr (chunk, co), io, pf)" "steady io"
    using read_aligned_steady [OF st] by (metis surj_pair)
  have bound: "unat (wk_end w) + unat n \<le> OFF_MAX" using hi n e lt by linarith
  note facts = read_aligned_Inr [OF r(1) view(1) bound, unfolded view(2) hi]
  have "wk_buffer w @ slice_of co (unat n) (AlignedBuf_deref chunk) =
      view_bytes h (unat (wk_start w)) (length (wk_buffer w) + unat n)"
    using facts(1) buf view_bytes_append [of h "unat (wk_start w)" "length (wk_buffer w)" "unat n"]
    by (metis view_bytes_def)
  then have "walk_ok h (unat e) (w\<lparr>wk_io := io, wk_file := pf,
      wk_buffer := wk_buffer w @ slice_of co (unat n) (AlignedBuf_deref chunk)\<rparr>)"
    using facts(2) n lt by (simp add: walk_ok_def)
  moreover have "0 < unat n" using n lt by (simp add: RECOVERY_SCAN_CHUNK_SIZE_def)
  moreover have "co + unat n \<le> length (AlignedBuf_deref chunk)" using facts(4,5) by simp
  moreover have "pf_file pf = pf_file (wk_file w)"
    using read_aligned_still [OF r(1)] settled by (simp add: pf_settled_def pf_still_def)
  ultimately show ?thesis using that r facts(3) n lt by simp
qed

text \<open>\<open>ensure_available\<close> reads until the bytes are there, or finds that the end is too near.\<close>

lemma ensure_loop_ok:
  assumes "walk_ok h (unat e) w" and "unat e \<le> OFF_MAX" and "steady (wk_io w)"
    and "p \<le> wk_hi w" and "unat available = wk_hi w - p"
  shows "\<exists>w'. ensure_loop D e needed available w = (Inr (p + unat needed \<le> unat e), w') \<and>
    walk_ok h (unat e) w' \<and> steady (wk_io w') \<and> wk_start w' = wk_start w \<and> wk_hi w \<le> wk_hi w' \<and> same_walk w w' \<and>
    (p + unat needed \<le> unat e \<longrightarrow> p + unat needed \<le> wk_hi w')"
  using assms
proof (induction "unat e - wk_hi w" arbitrary: w available rule: less_induct)
  case less
  have hi: "unat (wk_end w) = wk_hi w" using less.prems(1,2) by (rule wk_end_unat)
  have le: "wk_hi w \<le> unat e" using less.prems(1) by (simp add: walk_ok_def)
  note step = ensure_loop.simps [of D e needed available w]
  consider (enough) "\<not> available < needed" | (reached) "available < needed" "unat e \<le> wk_hi w"
    | (more) "available < needed" "wk_hi w < unat e"
    using not_less by blast
  then show ?case
  proof cases
    case enough
    with less.prems le show ?thesis by (auto simp: step word_less_nat_alt)
  next
    case reached
    with le have "wk_hi w = unat e" by simp
    with reached less.prems hi show ?thesis by (auto simp: step word_less_nat_alt word_le_nat_alt)
  next
    case more
    let ?n = "min RECOVERY_SCAN_CHUNK_SIZE (e - wk_end w)"
    obtain chunk co io pf where r: "PagedFile_read_aligned D (wk_io w) (wk_file w) (wk_end w) ?n = (Inr (chunk, co), io, pf)"
      "co + unat ?n \<le> length (AlignedBuf_deref chunk)" "steady io" "0 < unat ?n" "wk_hi w + unat ?n \<le> unat e"
      "walk_ok h (unat e) (w\<lparr>wk_io := io, wk_file := pf, wk_buffer := wk_buffer w @ slice_of co (unat ?n) (AlignedBuf_deref chunk)\<rparr>)"
      "pf_same (wk_file w) pf" "pf_file pf = pf_file (wk_file w)"
      using walk_read [OF less.prems(1-3) more(2)] by metis
    let ?w = "w\<lparr>wk_io := io, wk_file := pf, wk_buffer := wk_buffer w @ slice_of co (unat ?n) (AlignedBuf_deref chunk)\<rparr>"
    have hi': "wk_hi ?w = wk_hi w + unat ?n" using r(2) by (simp add: min_absorb2 del: unat_min)
    have eq: "ensure_loop D e needed available w = ensure_loop D e needed (available + ?n) ?w"
      using more r(1,2) hi by (simp add: step word_le_nat_alt not_less Let_def del: unat_min)
    have av: "unat (available + ?n) = wk_hi ?w - p"
    proof -
      have "unat available + unat ?n < 2 ^ LENGTH(64)" using less.prems(2,5) r(5) by simp
      from unat_add_nowrap [OF this] show ?thesis unfolding hi' using less.prems(4,5) by linarith
    qed
    have same: "same_walk w ?w" using r(7,8) by (simp add: same_walk_def)
    have dec: "unat e - wk_hi ?w < unat e - wk_hi w" and ple: "p \<le> wk_hi ?w"
      unfolding hi' using r(4,5) less.prems(4) by linarith+
    have st: "steady (wk_io ?w)" using r(3) by simp
    obtain w' where w': "ensure_loop D e needed (available + ?n) ?w = (Inr (p + unat needed \<le> unat e), w')"
      "walk_ok h (unat e) w'" "steady (wk_io w')" "wk_start w' = wk_start ?w" "wk_hi ?w \<le> wk_hi w'" "same_walk ?w w'"
      "p + unat needed \<le> unat e \<longrightarrow> p + unat needed \<le> wk_hi w'"
      using less.hyps [OF dec r(6) less.prems(2) st ple av] by blast
    have "wk_start w' = wk_start w" using w'(4) by simp
    moreover have "same_walk w w'" using same_walk_trans [OF same w'(6)] .
    moreover have "wk_hi w \<le> wk_hi w'" using w'(5) hi' by linarith
    ultimately show ?thesis using w'(1-3,7) eq by metis
  qed
qed

lemma ensure_available_ok:
  assumes "walk_ok h (unat e) w" and "unat e \<le> OFF_MAX" and "steady (wk_io w)" and "unat pos \<le> wk_hi w"
  shows "\<exists>w'. ensure_available D e pos needed w = (Inr (unat pos + unat needed \<le> unat e), w') \<and>
    walk_ok h (unat e) w' \<and> steady (wk_io w') \<and> wk_start w' = wk_start w \<and> wk_hi w \<le> wk_hi w' \<and> same_walk w w' \<and>
    (unat pos + unat needed \<le> unat e \<longrightarrow> unat pos + unat needed \<le> wk_hi w')"
  unfolding ensure_available_def
  using assms wk_end_unat [OF assms(1,2)] by (intro ensure_loop_ok) (simp_all add: unat_sub_nowrap)

end

text \<open>Dropping the front of the buffer.\<close>

lemma drain_ok:
  assumes "walk_ok h e w" and "n \<le> length (wk_buffer w)" and "unat s = unat (wk_start w) + n"
  shows "\<exists>w'. drain n w = (Inr (), w') \<and> wk_start w' = wk_start w \<and> walk_ok h e (w'\<lparr>wk_start := s\<rparr>) \<and>
    wk_hi (w'\<lparr>wk_start := s\<rparr>) = wk_hi w \<and> wk_io w' = wk_io w \<and> wk_file w' = wk_file w"
proof -
  have "drop n (wk_buffer w) = view_bytes h (unat (wk_start w) + n) (length (wk_buffer w) - n)"
    using walk_buffer_drop [OF assms(1), of "unat (wk_start w) + n"] assms(2) by simp
  with assms show ?thesis by (simp add: drain_def walk_ok_def)
qed

lemma walk_trim_ok:
  assumes "walk_ok h e w" and "unat (wk_start w) \<le> unat pos" and "unat pos \<le> wk_hi w"
  shows "\<exists>w'. walk_trim pos w = (Inr (), w') \<and> walk_ok h e w' \<and> unat (wk_start w') \<le> unat pos \<and>
    wk_hi w' = wk_hi w \<and> wk_io w' = wk_io w \<and> wk_file w' = wk_file w"
proof (cases "8 * RECOVERY_SCAN_CHUNK_SIZE < pos - wk_start w")
  case True
  let ?n = "unat (pos - wk_start w)"
  have n: "?n \<le> length (wk_buffer w)" "unat pos = unat (wk_start w) + ?n"
    using assms(2,3) by (simp_all add: unat_sub_nowrap)
  obtain w' where "drain ?n w = (Inr (), w')" "walk_ok h e (w'\<lparr>wk_start := pos\<rparr>)"
      "wk_hi (w'\<lparr>wk_start := pos\<rparr>) = wk_hi w" "wk_io w' = wk_io w" "wk_file w' = wk_file w"
    using drain_ok [OF assms(1) n] by blast
  with True show ?thesis by (simp add: walk_trim_def)
qed (use assms in \<open>simp add: walk_trim_def\<close>)

lemma resync_trim_ok:
  assumes ok: "walk_ok h e w" and s: "unat (wk_start w) \<le> unat s" "unat s \<le> wk_hi w"
  shows "\<exists>w'. resync_trim s w = (Inr (), w') \<and> walk_ok h e w' \<and> unat (wk_start w') \<le> unat s \<and>
    wk_hi w' = wk_hi w \<and> wk_io w' = wk_io w \<and> wk_file w' = wk_file w"
proof (cases "8 * RECOVERY_SCAN_CHUNK_SIZE < s - wk_start w")
  case True
  let ?n = "unat (s - wk_start w - 3)"
  have big: "8388608 < unat s - unat (wk_start w)"
    using True s by (simp add: word_less_nat_alt RECOVERY_SCAN_CHUNK_SIZE_def unat_sub_nowrap)
  have n: "?n = unat s - unat (wk_start w) - 3" using s big by (simp add: unat_sub_nowrap)
  have m: "unat (wk_start w + of_nat ?n) = unat (wk_start w) + ?n"
  proof -
    have "unat (wk_start w) + ?n < 18446744073709551616" using n big unat_u64_less [of s] by linarith
    then have "unat (wk_start w) + ?n < 2 ^ LENGTH(64)" by simp
    from unat_add_nowrap [OF this] show ?thesis by simp
  qed
  have len: "?n \<le> length (wk_buffer w)" using n s by linarith
  obtain w' where w': "drain ?n w = (Inr (), w')" "wk_start w' = wk_start w"
      "walk_ok h e (w'\<lparr>wk_start := wk_start w + of_nat ?n\<rparr>)"
      "wk_hi (w'\<lparr>wk_start := wk_start w + of_nat ?n\<rparr>) = wk_hi w" "wk_io w' = wk_io w" "wk_file w' = wk_file w"
    using drain_ok [OF ok len m] by blast
  have "unat (wk_start w + of_nat ?n) \<le> unat s" using m n s by linarith
  with True w' show ?thesis by (auto simp: resync_trim_def Let_def)
qed (use assms in \<open>simp add: resync_trim_def\<close>)

context block_io
begin

text \<open>The search finds the next record magic; with one round more than there are bytes left it ends.\<close>

lemma walk_resync_ok:
  assumes "walk_ok h (unat e) w" and "unat e \<le> OFF_MAX" and "steady (wk_io w)"
    and "unat (wk_start w) \<le> unat s" and "unat s \<le> wk_hi w" and "pos < s"
    and "unat e - wk_hi w + (if unat s + 4 \<le> wk_hi w then 1 else 0) < n"
  shows "\<exists>w'. walk_resync n D e pos s w = (Inr (map_option of_nat (next_magic h (unat s) (unat e))), w') \<and>
    walk_ok h (unat e) w' \<and> steady (wk_io w') \<and> same_walk w w' \<and>
    (\<forall>q. next_magic h (unat s) (unat e) = Some q \<longrightarrow> unat (wk_start w') \<le> q \<and> q \<le> wk_hi w')"
  using assms
proof (induction n arbitrary: w s)
  case (Suc n)
  note step = walk_resync.simps [of "Suc n" D e pos s w]
  have s: "unat s \<le> unat e" using Suc.prems(1,5) by (simp add: walk_ok_def)
  obtain w1 where w1: "resync_trim s w = (Inr (), w1)" "walk_ok h (unat e) w1" "unat (wk_start w1) \<le> unat s"
      "wk_hi w1 = wk_hi w" "wk_io w1 = wk_io w" "wk_file w1 = wk_file w"
    using resync_trim_ok [OF Suc.prems(1,4,5)] by blast
  have need: "unat (s - pos + 4) = unat s - unat pos + 4"
    using Suc.prems(2,6) s by (simp add: word_less_nat_alt unat_simps)
  have le: "unat pos + unat (s - pos + 4) = unat s + 4" using need Suc.prems(6) by (simp add: word_less_nat_alt)
  have st1: "steady (wk_io w1)" and pos: "unat pos \<le> wk_hi w1"
    using Suc.prems(3,5,6) w1(4,5) by (simp_all add: word_less_nat_alt)
  obtain w2 where w2: "ensure_available D e pos (s - pos + 4) w1 = (Inr (unat s + 4 \<le> unat e), w2)"
      "walk_ok h (unat e) w2" "steady (wk_io w2)" "wk_start w2 = wk_start w1" "wk_hi w1 \<le> wk_hi w2" "same_walk w1 w2"
      "unat s + 4 \<le> unat e \<longrightarrow> unat s + 4 \<le> wk_hi w2"
    using ensure_available_ok [OF w1(2) Suc.prems(2) st1 pos, of "s - pos + 4"] unfolding le by blast
  have same: "same_walk w w2" using w2(6) w1(6) by (simp add: same_walk_def)
  show ?case
  proof (cases "unat s + 4 \<le> unat e")
    case False
    then have "next_magic h (unat s) (unat e) = None" by (simp add: next_magic_def)
    with False w1(1) w2(1-3) same show ?thesis by (simp add: step)
  next
    case True
    then have hi: "unat s + 4 \<le> wk_hi w2" using w2(7) by simp
    have top: "wk_hi w2 \<le> unat e" using w2(2) by (simp add: walk_ok_def)
    have index: "unat (s - wk_start w2) = unat s - unat (wk_start w2)" "\<not> length (wk_buffer w2) < unat (s - wk_start w2)"
      using w1(3) w2(4) hi by (simp_all add: unat_sub_nowrap)
    have "drop (unat (s - wk_start w2)) (wk_buffer w2) = view_bytes h (unat s) (wk_hi w2 - unat s)"
      unfolding index using walk_buffer_drop [OF w2(2), of "unat s"] w1(3) w2(4) hi by simp
    then have search: "magic_position (drop (unat (s - wk_start w2)) (wk_buffer w2)) =
        map_option (\<lambda>q. q - unat s) (next_magic h (unat s) (wk_hi w2))"
      using hi by (simp add: magic_position_view)
    note found = step w1(1) w2(1) True index(2) search
    show ?thesis
    proof (cases "next_magic h (unat s) (wk_hi w2)")
      case (Some q)
      note q = next_magic_bounds [OF Some]
      have "s + of_nat (q - unat s) = of_nat q" using q by (simp add: of_nat_diff)
      with Some q next_magic_earlier [OF Some top] found w2(2,3) same w1(3) w2(4) show ?thesis
        by (simp add: Let_def)
    next
      case None
      let ?s = "wk_end w2 - 3"
      have last: "unat (wk_end w2) = wk_hi w2" using w2(2) Suc.prems(2) by (rule wk_end_unat)
      have s': "unat ?s = wk_hi w2 - 3" using last hi by (simp add: unat_sub_nowrap)
      have later: "next_magic h (unat s) (unat e) = next_magic h (unat ?s) (unat e)"
        unfolding s' using next_magic_later [OF None top] hi by simp
      have fuel: "unat e - wk_hi w2 + (if unat ?s + 4 \<le> wk_hi w2 then 1 else 0) < n"
        unfolding s' using Suc.prems(7) hi w1(4) w2(5) top by (simp split: if_splits)
      have "walk_resync (Suc n) D e pos s w = walk_resync n D e pos ?s w2"
        using None found by (simp add: Let_def)
      moreover have "unat (wk_start w2) \<le> unat ?s" "unat ?s \<le> wk_hi w2" "pos < ?s"
        unfolding s' word_less_nat_alt using hi w1(3) w2(4) Suc.prems(6) by (simp_all add: word_less_nat_alt)
      ultimately show ?thesis
        using Suc.IH [OF w2(2) Suc.prems(2) w2(3) _ _ _ fuel] same_walk_trans [OF same] unfolding later by metis
    qed
  qed
qed simp

end

text \<open>
  No header that the scan comes to announces a payload so long that adding its length wraps. Every
  header the heap writes satisfies it; a forged one may not.
\<close>

definition length_sane :: "bool \<Rightarrow> (nat \<Rightarrow> u8) \<Rightarrow> nat \<Rightarrow> bool" where
  "length_sane wb h p = (case header_at wb h p of Some header \<Rightarrow> unat (rh_len header) < 2 ^ 63 | None \<Rightarrow> True)"

function lengths_sane :: "bool \<Rightarrow> (nat \<Rightarrow> u8) \<Rightarrow> nat \<Rightarrow> bool \<Rightarrow> nat \<Rightarrow> bool" where
  "lengths_sane wb h e resync p =
     (if e < p + header_len wb then True
      else length_sane wb h p \<and>
        (case record_at wb h e p of
           Some header \<Rightarrow> lengths_sane wb h e resync (p + (header_len wb + unat (rh_len header)))
         | None \<Rightarrow>
             \<not> resync \<or> (case next_magic h (p + 1) e of None \<Rightarrow> True | Some q \<Rightarrow> lengths_sane wb h e resync q)))"
  by pat_completeness auto
termination
  by (relation "measure (\<lambda>(wb, h, e, resync, p). e - p)")
    (auto simp: header_len_def dest!: next_magic_bounds split: if_splits)

declare lengths_sane.simps [simp del]

lemma unat_record_end:
  assumes "length_sane wb h (unat pos)" and "header_at wb h (unat pos) = Some header" and "unat pos + header_len wb \<le> unat e"
    and "unat e \<le> OFF_MAX"
  shows "unat (of_nat (header_len wb) + rh_len header :: u64) = header_len wb + unat (rh_len header)"
    and "unat (pos + of_nat (header_len wb) + rh_len header) = unat pos + header_len wb + unat (rh_len header)"
    and "unat (pos + of_nat (header_len wb)) = unat pos + header_len wb"
proof -
  have len: "unat (rh_len header) < 2 ^ 63" using assms by (simp add: length_sane_def)
  have hl: "unat (of_nat (header_len wb) :: u64) = header_len wb"
    by (simp add: header_len_def)
  show "unat (of_nat (header_len wb) + rh_len header :: u64) = header_len wb + unat (rh_len header)"
    using len by (subst unat_add_nowrap) (simp_all add: header_len_def)
  show pos: "unat (pos + of_nat (header_len wb)) = unat pos + header_len wb"
    using assms(3,4) hl by (simp add: unat_add_nowrap)
  show "unat (pos + of_nat (header_len wb) + rh_len header) = unat pos + header_len wb + unat (rh_len header)"
    using pos len assms(3,4) by (subst unat_add_nowrap) simp_all
qed

lemma walk_header_ok:
  assumes ok: "walk_ok h (unat e) w" and e: "unat e \<le> OFF_MAX" and sane: "length_sane wb h (unat pos)"
    and pos: "unat (wk_start w) \<le> unat pos" "unat pos + header_len wb \<le> wk_hi w"
  shows "walk_header wb e pos w = record_at wb h (unat e) (unat pos)"
proof -
  have le: "unat pos + header_len wb \<le> unat e" using ok pos(2) by (simp add: walk_ok_def)
  have "drop (unat (pos - wk_start w)) (wk_buffer w) = view_bytes h (unat pos) (wk_hi w - unat pos)"
    using walk_buffer_drop [OF ok pos(1)] pos by (simp add: unat_sub_nowrap)
  then have "RecordHeader_decode (drop (unat (pos - wk_start w)) (wk_buffer w)) wb = header_at wb h (unat pos)"
    using pos(2) decode_view [of wb "wk_hi w - unat pos" h "unat pos"] by simp
  then show ?thesis
    using unat_record_end(2) [OF sane _ le e]
    by (auto simp: walk_header_def record_at_def word_le_nat_alt split: option.splits)
qed

lemma walk_visit_ok:
  assumes ok: "walk_ok h (unat e) w" and e: "unat e \<le> OFF_MAX" and sane: "length_sane wb h (unat pos)"
    and header: "header_at wb h (unat pos) = Some header"
    and pos: "unat (wk_start w) \<le> unat pos" "unat pos + (header_len wb + unat (rh_len header)) \<le> wk_hi w"
    and v: "visitor v pos header (payload_intact wb checked h (unat pos) header) = (go, v')"
  shows "walk_visit wb checked visitor pos header stats v w =
    (Inr (go, count_record (payload_intact wb checked h (unat pos) header)
       (unat pos + (header_len wb + unat (rh_len header))) stats, v'), w)"
proof -
  let ?o = "unat (pos - wk_start w)" and ?p = "unat pos + header_len wb"
  have o: "?o = unat pos - unat (wk_start w)" using pos(1) by (simp add: unat_sub_nowrap)
  have "slice_of (?o + header_len wb) (unat (rh_len header)) (wk_buffer w) = view_bytes h ?p (unat (rh_len header))"
    using walk_buffer_drop [OF ok, of ?p] pos by (simp add: o min_absorb1 flip: Nat.diff_add_assoc2)
  moreover have "\<not> length (wk_buffer w) < ?o + header_len wb + unat (rh_len header)"
    using pos o by linarith
  moreover have "pos + (of_nat (header_len wb) + rh_len header) = of_nat (unat pos + (header_len wb + unat (rh_len header)))"
    by simp
  ultimately show ?thesis
    using v by (auto simp: walk_visit_def payload_intact_def count_record_def Let_def)
qed

context block_io
begin

text \<open>A round where a record may begin: the header is in the buffer.\<close>

lemma walk_loop_round:
  assumes ok: "walk_ok h (unat e) w" and e: "unat e \<le> OFF_MAX" and st: "steady (wk_io w)"
    and pos: "unat (wk_start w) \<le> unat pos" "unat pos \<le> wk_hi w" and room: "unat pos + header_len wb \<le> unat e"
  obtains w1 w2 where "walk_trim pos w = (Inr (), w1)" "ensure_available D e pos (of_nat (header_len wb)) w1 = (Inr True, w2)"
    "\<not> e < pos + of_nat (header_len wb)" "walk_ok h (unat e) w2" "steady (wk_io w2)" "same_walk w w2"
    "unat (wk_start w2) \<le> unat pos" "unat pos + header_len wb \<le> wk_hi w2"
proof -
  let ?hl = "header_len wb"
  have hl: "unat (of_nat ?hl :: u64) = ?hl" "unat (pos + of_nat ?hl) = unat pos + ?hl"
    using room e by (simp_all add: unat_add_nowrap header_len_def)
  obtain w1 where w1: "walk_trim pos w = (Inr (), w1)" "walk_ok h (unat e) w1" "unat (wk_start w1) \<le> unat pos"
      "wk_hi w1 = wk_hi w" "wk_io w1 = wk_io w" "wk_file w1 = wk_file w"
    using walk_trim_ok [OF ok pos] by blast
  have st1: "steady (wk_io w1)" and pos1: "unat pos \<le> wk_hi w1" and same1: "same_walk w w1"
    using st pos w1(4-6) by (simp_all add: same_walk_def)
  obtain w2 where "ensure_available D e pos (of_nat ?hl) w1 = (Inr True, w2)"
      "walk_ok h (unat e) w2" "steady (wk_io w2)" "wk_start w2 = wk_start w1" "same_walk w1 w2" "unat pos + ?hl \<le> wk_hi w2"
    using ensure_available_ok [OF w1(2) e st1 pos1, of "of_nat ?hl"] room unfolding hl(1) by fastforce
  with that w1(1,3) same_walk_trans [OF same1] room hl(2) show ?thesis by (auto simp: word_less_nat_alt)
qed

text \<open>The branch that reads on to the end of the record.\<close>

lemma walk_record_ok:
  assumes ok: "walk_ok h (unat e) w" and e: "unat e \<le> OFF_MAX" and st: "steady (wk_io w)" and sane: "length_sane wb h (unat pos)"
    and pos: "unat (wk_start w) \<le> unat pos" "unat pos + header_len wb \<le> wk_hi w"
    and r: "record_at wb h (unat e) (unat pos) = Some header"
    and v: "visitor v pos header (payload_intact wb checked h (unat pos) header) = (go, v')"
  defines "q \<equiv> pos + (of_nat (header_len wb) + rh_len header)"
  obtains w' where "ensure_available D e pos (of_nat (header_len wb) + rh_len header) w = (Inr True, w')"
    "walk_visit wb checked visitor pos header stats v w' =
      (Inr (go, count_record (payload_intact wb checked h (unat pos) header) (unat q) stats, v'), w')"
    "walk_ok h (unat e) w'" "steady (wk_io w')" "same_walk w w'" "unat (wk_start w') \<le> unat q" "unat q \<le> wk_hi w'"
    "unat q = unat pos + (header_len wb + unat (rh_len header))"
proof -
  let ?len = "header_len wb + unat (rh_len header)"
  have header: "header_at wb h (unat pos) = Some header" and le: "unat pos + ?len \<le> unat e"
    using r by (auto simp: record_at_def split: option.splits if_splits)
  have len: "unat (of_nat (header_len wb) + rh_len header :: u64) = ?len" and q: "unat q = unat pos + ?len"
    using unat_record_end [OF sane header _ e] le by (simp_all add: q_def add.assoc)
  have "unat pos \<le> wk_hi w" using pos(2) by simp
  from ensure_available_ok [OF ok e st this, of "of_nat (header_len wb) + rh_len header", unfolded len] le
  obtain w' where w': "ensure_available D e pos (of_nat (header_len wb) + rh_len header) w = (Inr True, w')"
      "walk_ok h (unat e) w'" "steady (wk_io w')" "wk_start w' = wk_start w" "same_walk w w'" "unat pos + ?len \<le> wk_hi w'"
    by fastforce
  have "unat (wk_start w') \<le> unat pos" using pos(1) w'(4) by simp
  from walk_visit_ok [OF w'(2) e sane header this w'(6), where visitor = visitor and v = v and stats = stats] v
  have "walk_visit wb checked visitor pos header stats v w' =
      (Inr (go, count_record (payload_intact wb checked h (unat pos) header) (unat q) stats, v'), w')"
    unfolding q by blast
  with that w' q \<open>unat (wk_start w') \<le> unat pos\<close> show ?thesis by simp
qed

text \<open>The branch that looks for the next record.\<close>

lemma walk_search_ok:
  assumes ok: "walk_ok h (unat e) w" and e: "unat e \<le> OFF_MAX" and st: "steady (wk_io w)"
    and pos: "unat (wk_start w) \<le> unat pos" "unat pos + header_len wb \<le> wk_hi w"
  obtains w' where "walk_resync (unat e + 2) D e pos (pos + 1) w = (Inr (map_option of_nat (next_magic h (unat pos + 1) (unat e))), w')"
    "walk_ok h (unat e) w'" "steady (wk_io w')" "same_walk w w'"
    "\<And>q. next_magic h (unat pos + 1) (unat e) = Some q \<Longrightarrow> unat (wk_start w') \<le> q \<and> q \<le> wk_hi w'"
proof -
  have hl: "0 < header_len wb" by (simp add: header_len_def)
  have "unat pos \<le> unat e" using ok pos(2) by (simp add: walk_ok_def)
  then have p1: "unat (pos + 1) = unat pos + 1" using e by (simp add: unat_add_nowrap)
  have fuel: "unat e - wk_hi w + (if unat (pos + 1) + 4 \<le> wk_hi w then 1 else 0) < unat e + 2"
    by (split if_split) linarith
  have "pos < pos + 1" "unat (wk_start w) \<le> unat (pos + 1)" "unat (pos + 1) \<le> wk_hi w"
    unfolding word_less_nat_alt p1 using pos hl by linarith+
  from walk_resync_ok [OF ok e st this(2,3,1) fuel] that show ?thesis unfolding p1 by blast
qed

lemma walk_loop_ok:
  assumes "walk_ok h (unat e) w" and "unat e \<le> OFF_MAX" and "steady (wk_io w)" and "lengths_sane wb h (unat e) resync (unat pos)"
    and "unat (wk_start w) \<le> unat pos" and "unat pos \<le> wk_hi w" and "unat e - unat pos < n"
  shows "\<exists>w'. walk_loop n D wb checked e resync visitor pos stats v w =
      (Inr (scan wb checked h (unat e) resync visitor (unat pos) stats v), w') \<and>
    walk_ok h (unat e) w' \<and> steady (wk_io w') \<and> same_walk w w'"
  using assms
proof (induction n arbitrary: w pos stats v)
  case (Suc n)
  let ?hl = "header_len wb"
  note step = walk_loop.simps [of "Suc n" D wb checked e resync visitor pos stats v w]
    scan.simps [of wb checked h "unat e" resync visitor "unat pos" stats v] Let_def
  show ?case
  proof (cases "unat pos + ?hl \<le> unat e")
    case False
    have "unat pos \<le> unat e" using Suc.prems(1,6) by (simp add: walk_ok_def)
    then have "e < pos + of_nat ?hl" using False Suc.prems(2)
      by (auto simp: word_less_nat_alt unat_add_nowrap header_len_def split: if_splits)
    then show ?thesis
      using walk_trim_ok [OF Suc.prems(1,5,6)] Suc.prems(3) False by (auto simp: step same_walk_def)
  next
    case room: True
    obtain w1 w2 where r: "walk_trim pos w = (Inr (), w1)" "ensure_available D e pos (of_nat ?hl) w1 = (Inr True, w2)"
        "\<not> e < pos + of_nat ?hl" "walk_ok h (unat e) w2" "steady (wk_io w2)" "same_walk w w2"
        "unat (wk_start w2) \<le> unat pos" "unat pos + ?hl \<le> wk_hi w2"
      by (rule walk_loop_round [OF Suc.prems(1-3,5,6) room])
    have sane: "length_sane wb h (unat pos)" using Suc.prems(4) room by (simp add: lengths_sane.simps [of wb h "unat e" _ "unat pos"])
    note round = step r(1-3) walk_header_ok [OF r(4) Suc.prems(2) sane r(7,8)] room
    show ?thesis
    proof (cases "record_at wb h (unat e) (unat pos)")
      case None
      obtain w3 where s: "walk_resync (unat e + 2) D e pos (pos + 1) w2 =
            (Inr (map_option of_nat (next_magic h (unat pos + 1) (unat e))), w3)"
          "walk_ok h (unat e) w3" "steady (wk_io w3)" "same_walk w2 w3"
          "\<And>q. next_magic h (unat pos + 1) (unat e) = Some q \<Longrightarrow> unat (wk_start w3) \<le> q \<and> q \<le> wk_hi w3"
        using walk_search_ok [OF r(4) Suc.prems(2) r(5,7,8)] by blast
      show ?thesis
      proof (cases "resync \<and> next_magic h (unat pos + 1) (unat e) \<noteq> None")
        case False
        with None round s(1-4) r(4-6) same_walk_trans [OF r(6) s(4)] show ?thesis by (cases resync) simp_all
      next
        case True
        then obtain q where q: "next_magic h (unat pos + 1) (unat e) = Some q" by auto
        have uq: "unat (of_nat q :: u64) = q"
          using next_magic_bounds [OF q] Suc.prems(2) by (simp add: unat_of_nat_nowrap)
        have "lengths_sane wb h (unat e) resync q"
          using Suc.prems(4) room None True q by (simp add: lengths_sane.simps [of wb h "unat e" _ "unat pos"])
        then have ahead: "lengths_sane wb h (unat e) resync (unat (of_nat q :: u64))" unfolding uq .
        have "unat e - q < n" using next_magic_bounds [OF q] Suc.prems(7) by linarith
        from Suc.IH [OF s(2) Suc.prems(2) s(3) ahead, of "stats\<lparr>ws_resyncs := ws_resyncs stats + 1\<rparr>" v,
            unfolded uq, OF _ _ this] s(5) [OF q]
        show ?thesis using same_walk_trans [OF same_walk_trans [OF r(6) s(4)]] None round s(1) True q by auto
      qed
    next
      case (Some header)
      let ?q = "pos + (of_nat ?hl + rh_len header)" and ?intact = "payload_intact wb checked h (unat pos) header"
      obtain go v' where v: "visitor v pos header ?intact = (go, v')" by (cases "visitor v pos header ?intact") auto
      obtain w3 where s: "ensure_available D e pos (of_nat ?hl + rh_len header) w2 = (Inr True, w3)"
          "walk_visit wb checked visitor pos header stats v w3 = (Inr (go, count_record ?intact (unat ?q) stats, v'), w3)"
          "walk_ok h (unat e) w3" "steady (wk_io w3)" "same_walk w2 w3" "unat (wk_start w3) \<le> unat ?q" "unat ?q \<le> wk_hi w3"
          "unat ?q = unat pos + (?hl + unat (rh_len header))"
        using walk_record_ok [OF r(4) Suc.prems(2) r(5) sane r(7,8) Some,
            where visitor = visitor and v = v and stats = stats] v by blast
      have "0 < ?hl" "unat ?q \<le> unat e" using s(3,7) by (simp_all add: header_len_def walk_ok_def)
      then have less: "unat e - unat ?q < n" using s(8) Suc.prems(7) by linarith
      have "lengths_sane wb h (unat e) resync (unat ?q)"
        unfolding s(8) using Suc.prems(4) room Some by (simp add: lengths_sane.simps [of wb h "unat e" _ "unat pos"])
      from Suc.IH [OF s(3) Suc.prems(2) s(4) this s(6,7) less, of "count_record ?intact (unat ?q) stats" v']
      show ?thesis using same_walk_trans [OF same_walk_trans [OF r(6) s(5)]] same_walk_trans [OF r(6) s(5)]
          s(1-4) round Some v by (auto simp: Let_def simp flip: s(8))
    qed
  qed
qed simp

lemma walk_scan:
  assumes ok: "pf_ok pf" and st: "steady io" and bounds: "unat start \<le> OFF_MAX" "unat e \<le> OFF_MAX"
    and sane: "lengths_sane wb (pf_view pf) (unat e) resync (unat start)"
  shows "\<exists>io' pf'. walk D io pf wb checked start e resync visitor v =
      (Inr (scan wb checked (pf_view pf) (unat e) resync visitor (unat start) (WalkStats_default\<lparr>ws_last_end := start\<rparr>) v), io', pf') \<and>
    steady io' \<and> pf_settled (pf_view pf) pf' \<and> pf_same pf pf' \<and> pf_still pf pf'"
proof -
  obtain io1 pf1 where fl: "PagedFile_flush D io pf = (Inr (), io1, pf1)" "steady io1" using flush_steady [OF st] by blast
  have set1: "pf_settled (pf_view pf) pf1" "pf_same pf pf1" using flush_Inr [OF fl(1) ok] by simp_all
  let ?w = "\<lparr>wk_io = io1, wk_file = pf1, wk_buffer = [], wk_start = start\<rparr>"
  let ?stats = "WalkStats_default\<lparr>ws_last_end := start\<rparr>"
  have "\<exists>w'. walk_loop (unat e + 1) D wb checked e resync visitor start ?stats v ?w =
      (Inr (scan wb checked (pf_view pf) (unat e) resync visitor (unat start) ?stats v), w') \<and>
      pf_settled (pf_view pf) (wk_file w') \<and> steady (wk_io w') \<and> same_walk ?w w'"
  proof (cases "unat start \<le> unat e")
    case True
    then have "walk_ok (pf_view pf) (unat e) ?w" using set1 by (simp add: walk_ok_def view_bytes_def)
    from walk_loop_ok [OF this bounds(2) _ sane, where n = "unat e + 1" and checked = checked and visitor = visitor and stats = ?stats and v = v] fl(2)
    show ?thesis by (auto simp: walk_ok_def less_Suc_eq_le)
  next
    case False
    then have "e < start + of_nat (header_len wb)" using bounds(1)
      by (auto simp: word_less_nat_alt unat_add_nowrap header_len_def)
    with False set1 fl(2) show ?thesis
      by (simp add: walk_loop.simps [of "Suc (unat e)"] scan.simps walk_trim_def Let_def)
  qed
  moreover have "staged_writes pf = [] \<Longrightarrow> pf1 = pf" using fl(1) by (simp add: PagedFile_flush_def)
  ultimately show ?thesis using fl(1) set1 by (auto simp: walk_def Let_def same_walk_def pf_same_def pf_still_def pf_settled_def)
qed

end

section \<open>The intact records from an offset on\<close>

text \<open>
  The intact records that follow each other from an offset on: what a walk without resynchronisation
  reports to a visitor that stops at a damaged payload.
\<close>

function tail_records :: "bool \<Rightarrow> bool \<Rightarrow> (nat \<Rightarrow> u8) \<Rightarrow> nat \<Rightarrow> nat \<Rightarrow> (nat \<times> RecordHeader) list" where
  "tail_records wb checked h e p =
     (if e < p + header_len wb then []
      else case record_at wb h e p of
        None \<Rightarrow> []
      | Some header \<Rightarrow>
          if payload_intact wb checked h p header
          then (p, header) # tail_records wb checked h e (p + (header_len wb + unat (rh_len header)))
          else [])"
  by pat_completeness auto
termination
  by (relation "measure (\<lambda>(wb, checked, h, e, p). e - p)") (auto simp: header_len_def split: if_splits)

declare tail_records.simps [simp del]

lemma scan_tail_records:
  assumes "\<And>v p header. visitor v p header True = (True, step v p header)" and "\<And>v p header. visitor v p header False = (False, v)"
  shows "snd (scan wb checked h e False visitor p stats v) =
    foldl (\<lambda>v (p, header). step v (of_nat p) header) v (tail_records wb checked h e p)"
proof (induction wb checked h e p arbitrary: stats v rule: tail_records.induct)
  case (1 wb checked h e p)
  show ?case
  proof (cases "e < p + header_len wb \<or> record_at wb h e p = None")
    case True
    then show ?thesis by (auto simp: scan.simps [of wb checked h e False visitor p] tail_records.simps [of wb checked h e p])
  next
    case False
    then obtain header where header: "record_at wb h e p = Some header" "\<not> e < p + header_len wb" by auto
    show ?thesis
    proof (cases "payload_intact wb checked h p header")
      case True
      with header "1.IH" [OF header(2,1) True] assms show ?thesis
        by (simp add: scan.simps [of wb checked h e False visitor p] tail_records.simps [of wb checked h e p] Let_def)
    next
      case damaged: False
      with header assms show ?thesis
        by (simp add: scan.simps [of wb checked h e False visitor p] tail_records.simps [of wb checked h e p] Let_def)
    qed
  qed
qed

lemma tail_records_bounds:
  "(q, header) \<in> set (tail_records wb checked h e p) \<Longrightarrow>
     p \<le> q \<and> q + header_len wb + unat (rh_len header) \<le> e \<and> record_at wb h e q = Some header \<and> payload_intact wb checked h q header"
proof (induction wb checked h e p rule: tail_records.induct)
  case (1 wb checked h e p)
  from "1.prems" show ?case
    by (subst (asm) tail_records.simps)
      (auto simp: record_at_def split: if_splits option.splits dest!: "1.IH" [rotated 3])
qed

text \<open>A log: the bucket, identifier, version and payload of records that were written one after the other.\<close>

type_synonym entry = "u64 \<times> u64 \<times> u16 \<times> bytes"

fun log_at :: "bool \<Rightarrow> bool \<Rightarrow> (nat \<Rightarrow> u8) \<Rightarrow> nat \<Rightarrow> entry list \<Rightarrow> bool" where
  "log_at wb checked h p [] = True"
| "log_at wb checked h p ((bucket, rid, version, payload) # log) =
     (holds_at h p (record_bytes wb checked bucket rid version payload) \<and>
      log_at wb checked h (p + (header_len wb + length payload)) log)"

fun log_end :: "bool \<Rightarrow> nat \<Rightarrow> entry list \<Rightarrow> nat" where
  "log_end wb p [] = p"
| "log_end wb p ((bucket, rid, version, payload) # log) = log_end wb (p + (header_len wb + length payload)) log"

fun log_visits :: "bool \<Rightarrow> bool \<Rightarrow> nat \<Rightarrow> entry list \<Rightarrow> (nat \<times> RecordHeader) list" where
  "log_visits wb checked p [] = []"
| "log_visits wb checked p ((bucket, rid, version, payload) # log) =
     (p, stored_header wb checked bucket rid version payload) # log_visits wb checked (p + (header_len wb + length payload)) log"

lemma log_end_ge: "p \<le> log_end wb p log"
  by (induction wb p log rule: log_end.induct) auto

lemma holds_view_bytes: "holds_at h p bs \<longleftrightarrow> view_bytes h p (length bs) = bs"
  by (simp add: holds_at_def view_bytes_def)

lemma record_at_holds:
  assumes holds: "holds_at h p (record_bytes wb checked bucket rid version payload)"
    and room: "p + (header_len wb + length payload) \<le> e" and e: "e \<le> OFF_MAX"
  defines "header \<equiv> stored_header wb checked bucket rid version payload"
  shows "record_at wb h e p = Some header" "payload_intact wb checked h p header" "unat (rh_len header) = length payload"
proof -
  have len: "unat (rh_len header) = length payload"
    using room e by (simp add: header_def stored_header_def record_header_def unat_of_nat_nowrap)
  have bytes: "view_bytes h p (header_len wb + length payload) = record_bytes wb checked bucket rid version payload"
    using holds by (simp add: holds_view_bytes)
  then have "header_at wb h p = RecordHeader_decode (record_bytes wb checked bucket rid version payload) wb"
    using decode_view [of wb "header_len wb + length payload" h p] by simp
  also have "\<dots> = Some header"
    using decode_record [of 0 _ wb checked bucket rid version payload "[]"] by (simp add: header_def)
  finally show "record_at wb h e p = Some header" using room len by (simp add: record_at_def)
  have "view_bytes h (p + header_len wb) (length payload) = payload"
    using arg_cong [OF bytes, of "drop (header_len wb)"] by (simp add: record_bytes_def)
  then show "payload_intact wb checked h p header"
    using len by (simp add: payload_intact_def header_def stored_header_def record_header_def)
  show "unat (rh_len header) = length payload" by (rule len)
qed

lemma tail_records_log:
  assumes "log_at wb checked h p log" and "log_end wb p log \<le> e" and "e \<le> OFF_MAX"
    and "tail_records wb checked h e (log_end wb p log) = []"
  shows "tail_records wb checked h e p = log_visits wb checked p log"
  using assms
proof (induction wb checked h p log rule: log_at.induct)
  case (2 wb checked h p bucket rid version payload log)
  let ?q = "p + (header_len wb + length payload)"
  have q: "?q \<le> e" using "2.prems"(2) log_end_ge [of ?q wb log] by simp
  have "holds_at h p (record_bytes wb checked bucket rid version payload)" using "2.prems"(1) by simp
  note rec = record_at_holds [OF this q "2.prems"(3)]
  show ?case
    using "2.prems" "2.IH" q rec by (subst tail_records.simps) simp
qed simp

section \<open>What the opening of a placement shares\<close>

record OpenStats =
  os_restored :: u64

text \<open>
  A \<open>HashMap\<close> keyed by identifiers is its entries in the order of their insertion. The order in which
  iteration visits the keys is not specified: it is a parameter, a function that the theorems assume to
  permute the keys.
\<close>

type_synonym hash_order = "u64 list \<Rightarrow> u64 list"

type_synonym 'v hash_map = "(u64 \<times> 'v) list"

definition hash_entries :: "hash_order \<Rightarrow> 'v hash_map \<Rightarrow> (u64 \<times> 'v) list" where
  "hash_entries order m = map (\<lambda>k. (k, the (map_of m k))) (order (map fst m))"

text \<open>\<open>entry(k).or_insert(v)\<close> followed by an update of the entry.\<close>

fun entry_update :: "u64 \<Rightarrow> 'v \<Rightarrow> ('v \<Rightarrow> 'v) \<Rightarrow> 'v hash_map \<Rightarrow> 'v hash_map" where
  "entry_update k v f [] = [(k, f v)]"
| "entry_update k v f ((k', v') # m) = (if k' = k then (k', f v') # m else (k', v') # entry_update k v f m)"

definition order_ok :: "hash_order \<Rightarrow> bool" where
  "order_ok order \<longleftrightarrow> (\<forall>ks. distinct ks \<longrightarrow> distinct (order ks) \<and> set (order ks) = set ks)"

lemma map_of_entry_update:
  "map_of (entry_update k v f m) = (map_of m)(k \<mapsto> f (case map_of m k of None \<Rightarrow> v | Some v' \<Rightarrow> v'))"
  by (induction m) (auto simp: fun_eq_iff)

lemma keys_entry_update: "set (map fst (entry_update k v f m)) = insert k (set (map fst m))"
  by (induction k v f m rule: entry_update.induct) auto

lemma distinct_entry_update: "distinct (map fst m) \<Longrightarrow> distinct (map fst (entry_update k v f m))"
proof (induction m)
  case (Cons a m)
  then show ?case using keys_entry_update [of k v f m] by (cases a) (auto simp del: set_map)
qed simp

lemma hash_entries_facts:
  assumes "order_ok order" and "distinct (map fst m)"
  shows "distinct (map fst (hash_entries order m))" "map_of (hash_entries order m) = map_of m"
proof -
  have o: "distinct (order (map fst m))" "set (order (map fst m)) = set (map fst m)"
    using assms by (auto simp: order_ok_def)
  then show "distinct (map fst (hash_entries order m))" by (simp add: hash_entries_def comp_def)
  show "map_of (hash_entries order m) = map_of m"
  proof
    fix k
    show "map_of (hash_entries order m) k = map_of m k"
    proof (cases "k \<in> set (map fst m)")
      case True
      then have "map_of m k = Some (the (map_of m k))" by (metis map_of_eq_None_iff option.exhaust_sel set_map)
      with True o show ?thesis by (simp add: hash_entries_def map_of_map_restrict comp_def restrict_map_def)
    next
      case False
      then have "map_of m k = None" by (simp add: map_of_eq_None_iff)
      with False o show ?thesis by (simp add: hash_entries_def map_of_map_restrict restrict_map_def)
    qed
  qed
qed

text \<open>\<open>chunks_exact(n)\<close>.\<close>

definition chunks_exact :: "nat \<Rightarrow> bytes \<Rightarrow> bytes list" where
  "chunks_exact n bs = map (\<lambda>i. slice_of (i * n) n bs) [0..<length bs div n]"

text \<open>A record found by a walk: its identifier, offset, version and length.\<close>

type_synonym found_record = "u64 \<times> u64 \<times> u16 \<times> u64"

text \<open>Keep the offset, version and length of the newer of two records.\<close>

definition keep_newer :: "u64 \<times> u16 \<times> u64 \<Rightarrow> u64 \<times> u16 \<times> u64 \<Rightarrow> u64 \<times> u16 \<times> u64" where
  "keep_newer r entry = (if fst (snd entry) \<le> fst (snd r) then r else entry)"

text \<open>\<open>index.paged_file.flush(io)?; io.sync(..)?\<close>, when anything was restored.\<close>

definition settle_index :: "'io BlockIo \<Rightarrow> u64 \<Rightarrow> 'io \<Rightarrow> IndexFile \<Rightarrow> unit res \<times> 'io \<times> IndexFile" where
  "settle_index D restored io ix =
     (if 0 < restored then
        case PagedFile_flush D io (ix_paged_file ix) of
          (Inl e, io, pf) \<Rightarrow> (Inl e, io, ix\<lparr>ix_paged_file := pf\<rparr>)
        | (Inr _, io, pf) \<Rightarrow>
            (case sync D io (pf_file pf) of
               (r, io, f) \<Rightarrow> (r, io, ix\<lparr>ix_paged_file := pf\<lparr>pf_file := f\<rparr>\<rparr>))
      else (Inr (), io, ix))"

type_synonym ('io, 'p) opened = "('p \<times> OpenStats) res \<times> 'io \<times> DataFile \<times> IndexFile \<times> PagedFile option"

lemma read_header_still:
  assumes "DataFile_read_header D io df offset rid = (r, io', df')"
  shows "pf_still (df_paged_file df) (df_paged_file df')"
  using assms by (auto simp: DataFile_read_header_def Let_def dest!: read_aligned_still split: prod.splits sum.splits option.splits if_splits)

lemma df_keep_trans: "df_keep a b \<Longrightarrow> df_keep b d \<Longrightarrow> df_keep a d"
  by (auto simp: df_keep_def) (blast intro: pf_keep_trans)

lemma slot_at_view: "slot_at h rid = view_bytes h (4096 + unat rid * 16) 16"
  by (simp add: slot_at_def view_bytes_def)

context block_io
begin

lemma stage_slot_ok:
  assumes "pf_ok (ix_paged_file ix)" and "steady io" and "unat rid < ID_MAX"
    and "sl_offset slot \<noteq> 0" and "unat (sl_offset slot) < 9223372036854775808"
  obtains io' ix' where "IndexFile_stage_slot D io ix rid (Some slot) = (Inr (), io', ix')" "steady io'"
    "pf_ok (ix_paged_file ix')" "ix_slot ix' = (ix_slot ix)(rid := Live slot)" "pf_same (ix_paged_file ix) (ix_paged_file ix')"
  using stage_slot_steady(1) [OF assms(2), of ix rid "Some slot"] stage_slot_Inr [OF _ assms(1,3,4,5)] that by blast

lemma read_slot_state_ok:
  assumes "pf_ok (ix_paged_file ix)" and "steady io" and "unat rid < ID_MAX"
  obtains io' ix' where "IndexFile_read_slot_state D io ix rid = (Inr (ix_slot ix rid), io', ix')" "steady io'" "ix_keep ix ix'"
proof -
  obtain bs io' ix' where b: "IndexFile_read_slot_bytes D io ix rid = (Inr bs, io', ix')" "steady io'"
    using read_slot_bytes_steady [OF assms(2)] by blast
  then have "IndexFile_read_slot_state D io ix rid = (Inr (Slot_state bs), io', ix')"
    by (simp add: IndexFile_read_slot_state_def)
  with that b(2) read_slot_state_Inr [OF this assms(1,3)] show ?thesis by simp
qed

lemma settle_index_ok:
  assumes "pf_ok (ix_paged_file ix)" and "steady io"
  obtains io' ix' where "settle_index D restored io ix = (Inr (), io', ix')" "steady io'" "pf_ok (ix_paged_file ix')" "ix_slot ix' = ix_slot ix"
proof (cases "0 < restored")
  case True
  obtain io1 pf1 where fl: "PagedFile_flush D io (ix_paged_file ix) = (Inr (), io1, pf1)" "steady io1" using flush_steady [OF assms(2)] by blast
  obtain io2 f where sy: "sync D io1 (pf_file pf1) = (Inr (), io2, f)" "steady io2" using sync_steady [OF fl(2)] by blast
  have f: "f = (pf_file pf1)\<lparr>f_durable := f_content (pf_file pf1)\<rparr>" using sync_Inr [OF sy(1)] .
  have "pf_settled (pf_view (ix_paged_file ix)) pf1" using flush_Inr [OF fl(1) assms(1)] by simp
  then have "pf_settled (pf_view (ix_paged_file ix)) (pf1\<lparr>pf_file := f\<rparr>)" by (simp add: pf_settled_def f)
  with that [of io2 "ix\<lparr>ix_paged_file := pf1\<lparr>pf_file := f\<rparr>\<rparr>"] True fl(1) sy pf_settledD show ?thesis
    by (simp add: settle_index_def ix_slot_def fun_eq_iff)
qed (use assms that in \<open>simp add: settle_index_def\<close>)

end

section \<open>The walk and the scan\<close>

text \<open>
  C15: on a device that does not fail, the walk over a data file ends, and what it counts and what it
  gives to its visitor is what the direct scan of the seen bytes counts and gives, whatever the visitor
  gathers, wherever chunks and trimmed buffers end, with and without the search for the next record
  after a damaged one. The seen contents stay as they were and nothing is left staged. No bytes the walk
  comes to may pass for a header whose length wraps around (\<open>lengths_sane\<close>).
\<close>

theorem walk_is_scan:
  assumes "pf_ok pf" and "healthy io" and "unat start \<le> OFF_MAX" and "unat e \<le> OFF_MAX"
    and "lengths_sane wb (pf_view pf) (unat e) resync (unat start)"
  shows "\<exists>io' pf'. walk sync_block_io io pf wb checked start e resync visitor v =
      (Inr (scan wb checked (pf_view pf) (unat e) resync visitor (unat start) (WalkStats_default\<lparr>ws_last_end := start\<rparr>) v), io', pf') \<and>
    healthy io' \<and> pf_view pf' = pf_view pf \<and> staged_writes pf' = []"
proof -
  obtain io' pf' where "walk sync_block_io io pf wb checked start e resync visitor v =
      (Inr (scan wb checked (pf_view pf) (unat e) resync visitor (unat start) (WalkStats_default\<lparr>ws_last_end := start\<rparr>) v), io', pf')"
    "healthy io'" "pf_settled (pf_view pf) pf'"
    using blocking.walk_scan [OF assms, of checked visitor v] by blast
  with pf_settledD [OF this(3)] show ?thesis by (auto simp: pf_settled_def)
qed

definition example_log :: File where
  "example_log = \<lparr>f_content = replicate 4096 0 @ record_bytes False True 0 9 1 [1, 2, 3], f_durable = [], f_limit = 1048576\<rparr>"

lemma example_log_holds:
  "holds_at (pf_view (PagedFile_handle example_log)) 4096 (record_bytes False True 0 9 1 [1, 2, 3])"
  unfolding holds_at_def
  by (rule nth_equalityI) (auto simp: pf_view_handle example_log_def byte_at_def nth_append header_len_def)

lemma example_log_record:
  "record_at False (pf_view (PagedFile_handle example_log)) 4129 4096 = Some (stored_header False True 0 9 1 [1, 2, 3])"
  "payload_intact False True (pf_view (PagedFile_handle example_log)) 4096 (stored_header False True 0 9 1 [1, 2, 3])"
  "unat (rh_len (stored_header False True 0 9 1 [1, 2, 3])) = 3"
  using record_at_holds [OF example_log_holds, of 4129] by (simp_all add: header_len_def)

theorem walk_is_scan_witness:
  "\<exists>stats io' pf'. walk sync_block_io SyncIo_new (PagedFile_handle example_log) False True 4096 4129 True
      (\<lambda>v offset header intact. (True, v @ [(offset, rh_id header, intact)])) [] = (Inr (stats, [(4096, 9, True)]), io', pf') \<and>
    ws_records stats = 1 \<and> ws_last_end stats = 4129"
proof -
  let ?h = "pf_view (PagedFile_handle example_log)"
  let ?visit = "\<lambda>v offset header intact. (True, v @ [(offset, rh_id header, intact)])"
  have past: "lengths_sane False ?h 4129 True 4129" "scan False True ?h 4129 True ?visit 4129 s v = (s, v)" for s v
    by (subst lengths_sane.simps scan.simps; simp add: header_len_def)+
  have "length_sane False ?h 4096"
    using example_log_record(1,3) by (auto simp: length_sane_def record_at_def split: option.splits if_splits)
  then have sane: "lengths_sane False ?h (unat (4129 :: u64)) True (unat (4096 :: u64))"
    by (subst lengths_sane.simps) (simp add: example_log_record past header_len_def)
  have "rh_id (stored_header False True 0 9 1 [1, 2, 3]) = 9" by (simp add: stored_header_def record_header_def)
  then have "scan False True ?h (unat (4129 :: u64)) True ?visit (unat (4096 :: u64)) (WalkStats_default\<lparr>ws_last_end := 4096\<rparr>) [] =
      (count_record True 4129 (WalkStats_default\<lparr>ws_last_end := 4096\<rparr>), [(4096, 9, True)])"
    by (subst scan.simps) (simp add: example_log_record past header_len_def Let_def)
  with walk_is_scan [OF pf_ok_handle SyncIo_new_healthy _ _ sane, of True ?visit "[]"] show ?thesis
    by (fastforce simp: count_record_def WalkStats_default_def)
qed

end
