(* ===== verification/Append_Open.thy ===== *)
theory Append_Open
  imports Append Recovery
begin

text \<open>
  Opening of append placement, \<open>open\<close> of \<open>src/src/append.rs\<close>: the identifiers and the end of the records
  are read from the index, the records written after that are walked over, and the slots they need are
  restored. Shown: on a device that does not fail it is this computation on the bytes the two files are
  seen to hold, and records appended after the index was last written get their slots back.
\<close>

section \<open>Reading the index\<close>

definition note_slot :: "u64 \<Rightarrow> u64 \<times> u64 \<Rightarrow> nat \<times> bytes \<Rightarrow> u64 \<times> u64" where
  "note_slot offset s entry =
     (case (s, entry) of ((next_id, max_end), slot_index, chunk) \<Rightarrow>
        (case Slot_state chunk of
           Live slot \<Rightarrow> ((offset - PAGE_SIZE_U64) div of_nat SLOT_SIZE + of_nat slot_index + 1,
                        max max_end (sl_offset slot + sl_total_len slot))
         | Deleted slot \<Rightarrow> ((offset - PAGE_SIZE_U64) div of_nat SLOT_SIZE + of_nat slot_index + 1,
                        max max_end (sl_offset slot + sl_total_len slot))
         | Empty \<Rightarrow> (next_id, max_end)))"

function index_scan ::
  "'io BlockIo \<Rightarrow> u64 \<Rightarrow> u64 \<Rightarrow> u64 \<times> u64 \<Rightarrow> 'io \<Rightarrow> IndexFile \<Rightarrow> (u64 \<times> u64) res \<times> 'io \<times> IndexFile" where
  "index_scan D index_size offset s io ix =
     (if offset < index_size then
        let chunk_size = min (index_size - offset) (push_bit 20 1) in
        case PagedFile_read_aligned D io (ix_paged_file ix) offset chunk_size of
          (Inl e, io, pf) \<Rightarrow> (Inl e, io, ix\<lparr>ix_paged_file := pf\<rparr>)
        | (Inr (buffer, buffer_offset), io, pf) \<Rightarrow>
            if length (AlignedBuf_deref buffer) < buffer_offset + unat chunk_size
            then (Inl (Panic ''slice index out of range''), io, ix\<lparr>ix_paged_file := pf\<rparr>)
            else index_scan D index_size (offset + chunk_size)
                   (foldl (note_slot offset) s
                     (enumerate 0 (chunks_exact SLOT_SIZE (slice_of buffer_offset (unat chunk_size) (AlignedBuf_deref buffer)))))
                   io (ix\<lparr>ix_paged_file := pf\<rparr>)
      else (Inr s, io, ix))"
  by pat_completeness auto
termination
proof (relation "measure (\<lambda>(D, index_size, offset, s, io, ix). unat (index_size - offset))", goal_cases)
  case (2 D index_size offset)
  then show ?case using chunk_decreases [of offset index_size "push_bit 20 1"] by (simp add: min.commute)
qed simp

declare index_scan.simps [simp del]

section \<open>Restoring slots\<close>

definition append_visit :: "u64 \<Rightarrow> (found_record list \<times> u64) visitor" where
  "append_visit header_size s offset header payload_valid =
     (case s of (found, cursor) \<Rightarrow>
        if \<not> payload_valid then (False, (found, cursor))
        else (True, (found @ [(rh_id header, offset, rh_version header, rh_len header + header_size)],
                     offset + rh_len header + header_size)))"

fun restore_tail ::
  "'io BlockIo \<Rightarrow> found_record list \<Rightarrow> u64 \<times> u64 \<times> (u64 \<times> u16 \<times> u64) hash_map \<Rightarrow> 'io \<Rightarrow> IndexFile
   \<Rightarrow> (u64 \<times> u64 \<times> (u64 \<times> u16 \<times> u64) hash_map) res \<times> 'io \<times> IndexFile" where
  "restore_tail D [] s io ix = (Inr s, io, ix)"
| "restore_tail D ((rid, offset, version, len) # found) (next_id, restored, updates) io ix =
     (if rid = next_id then
        case IndexFile_stage_slot D io ix rid (Some \<lparr>sl_offset = offset, sl_total_len = len\<rparr>) of
          (Inl e, io, ix) \<Rightarrow> (Inl e, io, ix)
        | (Inr _, io, ix) \<Rightarrow> restore_tail D found (next_id + 1, restored + 1, updates) io ix
      else if rid < next_id then
        restore_tail D found
          (next_id, restored, entry_update rid (offset, version, len) (keep_newer (offset, version, len)) updates) io ix
      else (Inr (next_id, restored, updates), io, ix))"

text \<open>
  Whether an update found in the data file is to be skipped. An error of \<open>read_header\<close> is ignored, a
  panic is not.
\<close>

definition update_skipped ::
  "'io BlockIo \<Rightarrow> u64 \<Rightarrow> u64 \<Rightarrow> u16 \<Rightarrow> SlotState \<Rightarrow> 'io \<Rightarrow> DataFile \<Rightarrow> bool res \<times> 'io \<times> DataFile" where
  "update_skipped D rid offset version state io df =
     (case state of
        Deleted _ \<Rightarrow> (Inr True, io, df)
      | Empty \<Rightarrow> (Inr False, io, df)
      | Live slot \<Rightarrow>
          if sl_offset slot = offset then (Inr True, io, df)
          else case DataFile_read_header D io df (sl_offset slot) rid of
            (Inl (Panic msg), io, df) \<Rightarrow> (Inl (Panic msg), io, df)
          | (Inl (Err _), io, df) \<Rightarrow> (Inr False, io, df)
          | (Inr existing_header, io, df) \<Rightarrow> (Inr (version \<le> rh_version existing_header), io, df))"

fun restore_updates ::
  "'io BlockIo \<Rightarrow> (u64 \<times> u64 \<times> u16 \<times> u64) list \<Rightarrow> u64 \<Rightarrow> 'io \<Rightarrow> DataFile \<Rightarrow> IndexFile \<Rightarrow> u64 res \<times> 'io \<times> DataFile \<times> IndexFile" where
  "restore_updates D [] restored io df ix = (Inr restored, io, df, ix)"
| "restore_updates D ((rid, offset, version, len) # updates) restored io df ix =
     (case IndexFile_read_slot_state D io ix rid of
        (Inl e, io, ix) \<Rightarrow> (Inl e, io, df, ix)
      | (Inr state, io, ix) \<Rightarrow>
          (case update_skipped D rid offset version state io df of
             (Inl e, io, df) \<Rightarrow> (Inl e, io, df, ix)
           | (Inr True, io, df) \<Rightarrow> restore_updates D updates restored io df ix
           | (Inr False, io, df) \<Rightarrow>
               (case IndexFile_stage_slot D io ix rid (Some \<lparr>sl_offset = offset, sl_total_len = len\<rparr>) of
                  (Inl e, io, ix) \<Rightarrow> (Inl e, io, df, ix)
                | (Inr _, io, ix) \<Rightarrow> restore_updates D updates (restored + 1) io df ix)))"

section \<open>Opening\<close>

definition AppendPlacement_recover ::
  "'io BlockIo \<Rightarrow> hash_order \<Rightarrow> u64 \<times> u64 \<Rightarrow> 'io \<Rightarrow> DataFile \<Rightarrow> IndexFile
   \<Rightarrow> (AppendPlacement \<times> OpenStats) res \<times> 'io \<times> DataFile \<times> IndexFile" where
  "AppendPlacement_recover D order s io df ix =
     (case s of (next_id, max_end) \<Rightarrow>
      let last_byte = PagedFile_size (df_paged_file df);
          header_size = DataFile_record_header_len df
      in case walk D io (df_paged_file df) False (df_integrity df) max_end last_byte False
                (append_visit header_size) ([], max_end) of
        (Inl e, io, pf) \<Rightarrow> (Inl e, io, df\<lparr>df_paged_file := pf\<rparr>, ix)
      | (Inr (_, found, cursor), io, pf) \<Rightarrow>
          let df = df\<lparr>df_paged_file := pf\<rparr> in
          (case restore_tail D found (next_id, 0, []) io ix of
             (Inl e, io, ix) \<Rightarrow> (Inl e, io, df, ix)
           | (Inr (next_id, restored, updates), io, ix) \<Rightarrow>
               (case restore_updates D (hash_entries order updates) restored io df ix of
                  (Inl e, io, df, ix) \<Rightarrow> (Inl e, io, df, ix)
                | (Inr restored, io, df, ix) \<Rightarrow>
                    (case settle_index D restored io ix of
                       (Inl e, io, ix) \<Rightarrow> (Inl e, io, df, ix)
                     | (Inr _, io, ix) \<Rightarrow>
                         (Inr (\<lparr>ap_cursor = cursor, ap_next_id = next_id\<rparr>, \<lparr>os_restored = restored\<rparr>), io,
                          df\<lparr>df_paged_file := PagedFile_note_alloc (df_paged_file df) (PagedFile_size (df_paged_file df))\<rparr>, ix)))))"

definition AppendPlacement_open ::
  "'io BlockIo \<Rightarrow> hash_order \<Rightarrow> 'io \<Rightarrow> HeapConfig \<Rightarrow> DataFile \<Rightarrow> IndexFile \<Rightarrow> PagedFile option \<Rightarrow> bool
   \<Rightarrow> ('io, AppendPlacement) opened" where
  "AppendPlacement_open D order io config df ix registry created =
     (if created then
        case PagedFile_ensure_alloc (df_paged_file df) (initial_size config) (growth config) of
          (Inl e, pf) \<Rightarrow> (Inl e, io, df\<lparr>df_paged_file := pf\<rparr>, ix, registry)
        | (Inr _, pf) \<Rightarrow>
            (Inr (\<lparr>ap_cursor = PAGE_SIZE_U64, ap_next_id = 0\<rparr>, \<lparr>os_restored = 0\<rparr>), io,
             df\<lparr>df_paged_file := pf\<rparr>, ix, registry)
      else
        case index_scan D (PagedFile_size (ix_paged_file ix)) PAGE_SIZE_U64 (0, PAGE_SIZE_U64) io ix of
          (Inl e, io, ix) \<Rightarrow> (Inl e, io, df, ix, registry)
        | (Inr s, io, ix) \<Rightarrow>
            (case AppendPlacement_recover D order s io df ix of
               (r, io, df, ix) \<Rightarrow> (r, io, df, ix, registry)))"

section \<open>What the index says\<close>

text \<open>The slots one after the other: the identifier after the last one used, and the end of the last record.\<close>

definition note_state :: "(u64 \<Rightarrow> SlotState) \<Rightarrow> u64 \<times> u64 \<Rightarrow> nat \<Rightarrow> u64 \<times> u64" where
  "note_state st s i =
     (case st (of_nat i) of
        Live slot \<Rightarrow> (of_nat i + 1, max (snd s) (sl_offset slot + sl_total_len slot))
      | Deleted slot \<Rightarrow> (of_nat i + 1, max (snd s) (sl_offset slot + sl_total_len slot))
      | Empty \<Rightarrow> s)"

lemma foldl_enumerate_map: "foldl f s (enumerate 0 (map g [0..<n])) = foldl (\<lambda>s i. f s (i, g i)) s [0..<n]"
proof -
  have "enumerate 0 (map g [0..<n]) = map (\<lambda>i. (i, g i)) [0..<n]"
    by (rule nth_equalityI) (simp_all add: nth_enumerate_eq)
  then show ?thesis by (simp add: foldl_map)
qed

lemma foldl_upt_shift: "foldl f s [k..<k + c] = foldl (\<lambda>s j. f s (k + j)) s [0..<c]"
proof -
  have "[k..<k + c] = map (\<lambda>j. k + j) [0..<c]" by (rule nth_equalityI) simp_all
  then show ?thesis by (simp only: foldl_map)
qed

lemma note_slot_state:
  assumes "unat offset = 4096 + 16 * k" and "chunk = slot_at h (of_nat (k + j))"
    and "\<And>rid. st rid = Slot_state (slot_at h rid)"
  shows "note_slot offset s (j, chunk) = note_state st s (k + j)"
proof -
  have "unat ((offset - PAGE_SIZE_U64) div of_nat SLOT_SIZE) = k"
    using assms(1) by (simp add: unat_div unat_sub_nowrap PAGE_SIZE_U64_eq SLOT_SIZE_def)
  then have "(offset - PAGE_SIZE_U64) div of_nat SLOT_SIZE = of_nat k"
    by (metis of_nat_unat ucast_id)
  then show ?thesis using assms(2,3)
    by (cases s) (simp add: note_slot_def note_state_def split: SlotState.splits)
qed

lemma slots_of_chunk:
  assumes off: "unat offset = 4096 + 16 * k" and c: "16 * c \<le> n" "n < 16 * (c + 1)" and bound: "k + c \<le> ID_MAX"
    and buf: "buf = view_bytes h (unat offset) n" and st: "\<And>rid. st rid = Slot_state (slot_at h rid)"
  shows "foldl (note_slot offset) s (enumerate 0 (chunks_exact SLOT_SIZE buf)) = foldl (note_state st) s [k..<k + c]"
proof -
  have div: "n div 16 = c" using c by (intro div_nat_eqI) simp_all
  have "slice_of (j * 16) 16 buf = slot_at h (of_nat (k + j))" if "j < c" for j
  proof -
    have "j * 16 + 16 \<le> n" using that c(1) by linarith
    moreover have "unat (of_nat (k + j) :: u64) = k + j" using that bound by (intro unat_of_nat_nowrap) simp
    ultimately show ?thesis
      by (simp add: buf min_absorb1 slot_at_view off algebra_simps)
  qed
  then have "note_slot offset s (j, slice_of (j * 16) 16 buf) = note_state st s (k + j)" if "j < c" for s j
    using note_slot_state [OF off _ st] that by simp
  then have eq: "foldl (\<lambda>s j. note_slot offset s (j, slice_of (j * 16) 16 buf)) s [0..<c] = foldl (\<lambda>s j. note_state st s (k + j)) s [0..<c]"
    by (intro foldl_cong) simp_all
  show ?thesis
    by (simp add: chunks_exact_def SLOT_SIZE_def foldl_enumerate_map buf [THEN arg_cong, of length, simplified] div foldl_upt_shift eq)
qed

context block_io
begin

lemma index_chunk:
  assumes ok: "pf_ok (ix_paged_file ix)" and st: "steady io" and sz: "unat sz \<le> OFF_MAX"
    and off: "unat offset = 4096 + 16 * k" "unat offset < unat sz"
  defines "n \<equiv> min (sz - offset) 1048576" and "c \<equiv> min ((unat sz - unat offset) div 16) 65536"
  obtains io' ix' where "index_scan D sz offset s io ix = index_scan D sz (offset + n) (foldl (note_state (ix_slot ix)) s [k..<k + c]) io' ix'"
    "steady io'" "ix_keep ix ix'" "pf_still (ix_paged_file ix) (ix_paged_file ix')"
proof -
  let ?pf = "ix_paged_file ix"
  have n: "unat n = min (unat sz - unat offset) 1048576" using off(2) by (simp add: n_def unat_sub_nowrap)
  have bound: "unat offset + unat n \<le> OFF_MAX" using n off(2) sz by linarith
  obtain buf co io' pf where r: "PagedFile_read_aligned D io ?pf offset n = (Inr (buf, co), io', pf)" "steady io'"
    using read_aligned_steady [OF st] by (metis surj_pair)
  note facts = read_aligned_Inr [OF r(1) ok bound]
  have "16 * c \<le> unat n" "unat n < 16 * (c + 1)" "k + c \<le> ID_MAX"
    using n off sz unfolding c_def by (auto simp: min_def)
  then have "foldl (note_slot offset) s (enumerate 0 (chunks_exact SLOT_SIZE (slice_of co (unat n) (AlignedBuf_deref buf)))) =
      foldl (note_state (ix_slot ix)) s [k..<k + c]"
    using facts(1) by (intro slots_of_chunk [OF off(1), where h = "pf_view ?pf"]) (simp_all add: view_bytes_def ix_slot_def)
  moreover have "\<not> length (AlignedBuf_deref buf) < co + unat n" using facts(4,5) by simp
  ultimately have eq: "index_scan D sz offset s io ix =
      index_scan D sz (offset + n) (foldl (note_state (ix_slot ix)) s [k..<k + c]) io' (ix\<lparr>ix_paged_file := pf\<rparr>)"
    using r(1) off(2) by (simp add: index_scan.simps [of D sz offset] n_def [symmetric] Let_def word_less_nat_alt)
  have "ix_keep ix (ix\<lparr>ix_paged_file := pf\<rparr>)"
    using pf_settled_keep [OF facts(2,3)] by (simp add: ix_keep_def)
  moreover have "pf_still ?pf pf" using read_aligned_still [OF r(1)] .
  ultimately show ?thesis using that [OF eq r(2)] by simp
qed

lemma index_scan_ok:
  assumes "pf_ok (ix_paged_file ix)" and "steady io" and "unat sz \<le> OFF_MAX" and "unat offset = 4096 + 16 * k"
    and "16 * k \<le> unat sz - 4096 \<or> k = 0"
  shows "\<exists>io' ix'. index_scan D sz offset s io ix =
      (Inr (foldl (note_state (ix_slot ix)) s [k..<(unat sz - 4096) div 16]), io', ix') \<and> steady io' \<and> ix_keep ix ix' \<and>
    pf_still (ix_paged_file ix) (ix_paged_file ix')"
  using assms
proof (induction "unat sz - unat offset" arbitrary: offset k s io ix rule: less_induct)
  case less
  show ?case
  proof (cases "unat offset < unat sz")
    case False
    then have "[k..<(unat sz - 4096) div 16] = []" using less.prems(4) by simp
    with False less.prems show ?thesis
      by (simp add: index_scan.simps [of D sz offset] word_less_nat_alt ix_keep_def pf_keep_def)
  next
    case True
    let ?n = "min (sz - offset) 1048576" and ?c = "min ((unat sz - unat offset) div 16) 65536"
    let ?s = "foldl (note_state (ix_slot ix)) s [k..<k + ?c]"
    obtain io1 ix1 where one: "index_scan D sz offset s io ix = index_scan D sz (offset + ?n) ?s io1 ix1"
      "steady io1" "ix_keep ix ix1" "pf_still (ix_paged_file ix) (ix_paged_file ix1)"
      by (rule index_chunk [OF less.prems(1-4) True])
    have n: "unat ?n = min (unat sz - unat offset) 1048576" using True by (simp add: unat_sub_nowrap)
    have off: "unat (offset + ?n) = unat offset + unat ?n"
      using n True less.prems(3) by (subst unat_add_nowrap) (simp_all del: unat_min)
    show ?thesis
    proof (cases "unat sz - unat offset < 1048576")
      case last: True
      have "k + ?c = (unat sz - 4096) div 16" "\<not> offset + ?n < sz"
        using last True less.prems(4) off n by (auto simp: word_less_nat_alt)
      with one show ?thesis by (simp add: index_scan.simps [of D sz "offset + ?n"])
    next
      case False
      have ok1: "pf_ok (ix_paged_file ix1)" and slot1: "ix_slot ix1 = ix_slot ix" using ix_keepD [OF one(3)] by simp_all
      have off': "unat (offset + ?n) = 4096 + 16 * (k + 65536)" using False off n less.prems(4) by simp
      have c: "?c = 65536" using False by simp
      have le: "16 * (k + 65536) \<le> unat sz - 4096" using False unfolding less.prems(4) by simp
      have "unat sz - unat (offset + ?n) < unat sz - unat offset" using off n True by linarith
      from less.hyps [OF this ok1 one(2) less.prems(3) off', of ?s] le
      obtain io2 ix2 where two: "index_scan D sz (offset + ?n) ?s io1 ix1 =
          (Inr (foldl (note_state (ix_slot ix)) ?s [k + 65536..<(unat sz - 4096) div 16]), io2, ix2)" "steady io2" "ix_keep ix1 ix2"
          "pf_still (ix_paged_file ix1) (ix_paged_file ix2)"
        unfolding slot1 by blast
      have "[k..<(unat sz - 4096) div 16] = [k..<k + 65536] @ [k + 65536..<(unat sz - 4096) div 16]"
        using le upt_add_eq_append [of k "k + 65536" "(unat sz - 4096) div 16 - (k + 65536)"] by simp
      with one two c show ?thesis by (auto simp: ix_keep_def intro: pf_keep_trans pf_still_trans)
    qed
  qed
qed

end

text \<open>
  Slots are used below \<open>N\<close> and up to it, and \<open>E\<close> is the end of the last record a slot points to.
\<close>

definition slot_of :: "SlotState \<Rightarrow> Slot option" where
  "slot_of state = (case state of Live slot \<Rightarrow> Some slot | Deleted slot \<Rightarrow> Some slot | Empty \<Rightarrow> None)"

abbreviation slot_end :: "Slot \<Rightarrow> nat" where
  "slot_end slot \<equiv> unat (sl_offset slot) + unat (sl_total_len slot)"

definition index_upto :: "(u64 \<Rightarrow> SlotState) \<Rightarrow> nat \<Rightarrow> nat \<Rightarrow> bool" where
  "index_upto st N E \<longleftrightarrow> N \<le> ID_MAX \<and> (\<forall>i. N \<le> unat i \<longrightarrow> st i = Empty) \<and> (0 < N \<longrightarrow> st (of_nat (N - 1)) \<noteq> Empty) \<and>
     4096 \<le> E \<and> E \<le> OFF_MAX \<and> (\<forall>i slot. slot_of (st i) = Some slot \<longrightarrow> slot_end slot \<le> E) \<and>
     (E = 4096 \<or> (\<exists>i slot. slot_of (st i) = Some slot \<and> slot_end slot = E))"

lemma note_state_slot:
  "note_state st s i = (case slot_of (st (of_nat i)) of None \<Rightarrow> s
     | Some slot \<Rightarrow> (of_nat i + 1, max (snd s) (sl_offset slot + sl_total_len slot)))"
  by (simp add: note_state_def slot_of_def split: SlotState.splits)

lemma slot_of_None: "slot_of state = None \<longleftrightarrow> state = Empty"
  by (simp add: slot_of_def split: SlotState.splits)

lemma note_states_end:
  assumes "\<forall>i slot. slot_of (st i) = Some slot \<longrightarrow> slot_end slot \<le> E" and "E \<le> OFF_MAX"
    and "unat (snd s) \<le> E"
  shows "unat (snd (foldl (note_state st) s ids)) \<le> E" "unat (snd s) \<le> unat (snd (foldl (note_state st) s ids))"
    "i \<in> set ids \<Longrightarrow> slot_of (st (of_nat i)) = Some slot \<Longrightarrow> slot_end slot \<le> unat (snd (foldl (note_state st) s ids))"
proof -
  have sum: "unat (sl_offset slot + sl_total_len slot) = slot_end slot" if "slot_of (st i) = Some slot" for i slot
  proof -
    have "slot_end slot \<le> OFF_MAX" using that assms(1,2) le_trans by blast
    then show ?thesis by (intro unat_add_nowrap) simp
  qed
  have step: "unat (snd (note_state st s i)) \<le> E \<and> unat (snd s) \<le> unat (snd (note_state st s i)) \<and>
      (\<forall>slot. slot_of (st (of_nat i)) = Some slot \<longrightarrow> slot_end slot \<le> unat (snd (note_state st s i)))" if "unat (snd s) \<le> E" for s i
    using that assms(1) sum by (auto simp: note_state_slot split: option.splits)
  have "unat (snd (foldl (note_state st) s ids)) \<le> E \<and> unat (snd s) \<le> unat (snd (foldl (note_state st) s ids)) \<and>
      (\<forall>i \<in> set ids. \<forall>slot. slot_of (st (of_nat i)) = Some slot \<longrightarrow> slot_end slot \<le> unat (snd (foldl (note_state st) s ids)))"
    using assms(3)
  proof (induction ids arbitrary: s)
    case (Cons i ids)
    note one = step [OF Cons.prems, of i]
    note rest = Cons.IH [OF conjunct1 [OF one]]
    show ?case using one rest by (auto intro: order_trans)
  qed simp
  then show "unat (snd (foldl (note_state st) s ids)) \<le> E" "unat (snd s) \<le> unat (snd (foldl (note_state st) s ids))"
    "i \<in> set ids \<Longrightarrow> slot_of (st (of_nat i)) = Some slot \<Longrightarrow> slot_end slot \<le> unat (snd (foldl (note_state st) s ids))"
    by auto
qed

lemma note_states_next:
  assumes "\<forall>i. N \<le> unat i \<longrightarrow> st i = Empty" and "0 < N \<longrightarrow> st (of_nat (N - 1)) \<noteq> Empty" and "N \<le> n" and "n \<le> ID_MAX"
    and "fst s = 0"
  shows "fst (foldl (note_state st) s [0..<n]) = of_nat N"
proof -
  have "foldl (note_state st) r [N..<n] = r" for r
  proof -
    have "foldl (note_state st) r ids = r" if "set ids \<subseteq> {N..<n}" for ids
      using that
    proof (induction ids arbitrary: r)
      case (Cons i ids)
      then have "N \<le> unat (of_nat i :: u64)" using assms(4) by (subst unat_of_nat_nowrap) auto
      then have "note_state st r i = r" using assms(1) by (simp add: note_state_def)
      with Cons show ?case by simp
    qed simp
    then show ?thesis by simp
  qed
  moreover have "[0..<n] = [0..<N] @ [N..<n]" using assms(3) upt_add_eq_append [of 0 N "n - N"] by simp
  moreover have "fst (foldl (note_state st) s [0..<N]) = of_nat N"
  proof (cases N)
    case (Suc m)
    with assms(2) have "st (of_nat m) \<noteq> Empty" by simp
    then obtain slot where "slot_of (st (of_nat m)) = Some slot" by (metis slot_of_None not_None_eq)
    with Suc show ?thesis by (simp add: note_state_slot)
  qed (simp add: assms(5))
  ultimately show ?thesis by simp
qed

lemma note_states_summary:
  assumes ix: "index_upto st N E" and n: "N \<le> n" "n \<le> ID_MAX"
  shows "foldl (note_state st) (0, PAGE_SIZE_U64) [0..<n] = (of_nat N, of_nat E)"
proof -
  let ?r = "foldl (note_state st) (0, PAGE_SIZE_U64) [0..<n]"
  have u: "\<forall>i. N \<le> unat i \<longrightarrow> st i = Empty" "0 < N \<longrightarrow> st (of_nat (N - 1)) \<noteq> Empty" "4096 \<le> E" "E \<le> OFF_MAX"
      "\<forall>i slot. slot_of (st i) = Some slot \<longrightarrow> slot_end slot \<le> E"
      "E = 4096 \<or> (\<exists>i slot. slot_of (st i) = Some slot \<and> slot_end slot = E)"
    using ix by (auto simp: index_upto_def)
  have "unat (snd (0 :: u64, PAGE_SIZE_U64)) \<le> E" using u(3) by (simp add: PAGE_SIZE_U64_eq)
  note ends = note_states_end [OF u(5,4) this, where ids = "[0..<n]"]
  have "E \<le> unat (snd ?r)" using u(6)
  proof
    assume "E = 4096"
    then show ?thesis using ends(2) by (simp add: PAGE_SIZE_U64_eq)
  next
    assume "\<exists>i slot. slot_of (st i) = Some slot \<and> slot_end slot = E"
    then obtain i slot where i: "slot_of (st i) = Some slot" "slot_end slot = E" by blast
    then have "unat i < N" using u(1) by (metis slot_of_None not_less option.distinct(1))
    with i ends(3) [of "unat i" slot] n show ?thesis by simp
  qed
  with ends(1) have "snd ?r = of_nat E" by (metis le_antisym of_nat_unat ucast_id)
  moreover have "fst ?r = of_nat N" using note_states_next [OF u(1,2) n] by simp
  ultimately show ?thesis by (metis prod.collapse)
qed

section \<open>What is restored\<close>

text \<open>The slots after a log: each record is where its identifier was last written.\<close>

definition entry_slot :: "nat \<Rightarrow> bool \<Rightarrow> bytes \<Rightarrow> Slot" where
  "entry_slot p wb payload = \<lparr>sl_offset = of_nat p, sl_total_len = of_nat (header_len wb + length payload)\<rparr>"

fun log_slots :: "bool \<Rightarrow> nat \<Rightarrow> entry list \<Rightarrow> (u64 \<Rightarrow> SlotState) \<Rightarrow> u64 \<Rightarrow> SlotState" where
  "log_slots wb p [] st = st"
| "log_slots wb p ((bucket, rid, version, payload) # log) st =
     log_slots wb (p + (header_len wb + length payload)) log (st(rid := Live (entry_slot p wb payload)))"

fun log_found :: "bool \<Rightarrow> nat \<Rightarrow> entry list \<Rightarrow> found_record list" where
  "log_found wb p [] = []"
| "log_found wb p ((bucket, rid, version, payload) # log) =
     (rid, of_nat p, version, of_nat (header_len wb + length payload)) # log_found wb (p + (header_len wb + length payload)) log"

text \<open>
  A log as a heap writes it after \<open>N\<close> identifiers were used: an insertion takes the next identifier,
  an update raises the version of a record that is there. \<open>vers\<close> gives the versions.
\<close>

fun log_ok :: "(u64 \<rightharpoonup> u16) \<Rightarrow> nat \<Rightarrow> entry list \<Rightarrow> bool" where
  "log_ok vers N [] = (N \<le> ID_MAX)"
| "log_ok vers N ((bucket, rid, version, payload) # log) =
     (if unat rid = N then log_ok (vers(rid \<mapsto> version)) (N + 1) log
      else unat rid < N \<and> (case vers rid of None \<Rightarrow> False | Some old \<Rightarrow> old < version) \<and> log_ok (vers(rid \<mapsto> version)) N log)"

fun log_next :: "nat \<Rightarrow> entry list \<Rightarrow> nat" where
  "log_next N [] = N"
| "log_next N ((bucket, rid, version, payload) # log) = log_next (if unat rid = N then N + 1 else N) log"

definition merge_slots :: "(u64 \<times> u16 \<times> u64) hash_map \<Rightarrow> (u64 \<Rightarrow> SlotState) \<Rightarrow> u64 \<Rightarrow> SlotState" where
  "merge_slots updates st rid =
     (case map_of updates rid of
        Some (offset, version, len) \<Rightarrow> Live \<lparr>sl_offset = offset, sl_total_len = len\<rparr>
      | None \<Rightarrow> st rid)"

text \<open>The record of an identifier in a version, at an offset past the header page.\<close>

definition version_at :: "DataFile \<Rightarrow> u64 \<Rightarrow> u64 \<Rightarrow> u16 \<Rightarrow> bool" where
  "version_at df offset rid version \<longleftrightarrow> 4096 \<le> unat offset \<and> (\<exists>bucket payload. df_record df (unat offset) bucket rid version payload)"

definition tail_inv ::
  "DataFile \<Rightarrow> (u64 \<rightharpoonup> u16) \<Rightarrow> nat \<Rightarrow> (u64 \<times> u16 \<times> u64) hash_map \<Rightarrow> (u64 \<Rightarrow> SlotState) \<Rightarrow> bool" where
  "tail_inv df vers N updates st \<longleftrightarrow> distinct (map fst updates) \<and> (\<forall>rid \<in> dom vers. unat rid < N) \<and>
     (\<forall>rid offset version len. map_of updates rid = Some (offset, version, len) \<longrightarrow>
        vers rid = Some version \<and> version_at df offset rid version \<and>
        (\<exists>slot old. st rid = Live slot \<and> version_at df (sl_offset slot) rid old \<and> old < version)) \<and>
     (\<forall>rid version. map_of updates rid = None \<longrightarrow> vers rid = Some version \<longrightarrow>
        (\<exists>slot. st rid = Live slot \<and> version_at df (sl_offset slot) rid version))"

lemma tail_inv_insert:
  assumes inv: "tail_inv df vers N updates st" and rid: "unat rid = N" and rec: "version_at df (sl_offset slot) rid version"
  shows "tail_inv df (vers(rid \<mapsto> version)) (N + 1) updates (st(rid := Live slot))"
    "merge_slots updates (st(rid := Live slot)) = (merge_slots updates st)(rid := Live slot)"
proof -
  have "vers rid = None" using inv rid by (auto simp: tail_inv_def)
  then have fresh: "map_of updates rid = None"
    using inv unfolding tail_inv_def by (metis option.distinct(1) option.exhaust prod_cases3)
  show "tail_inv df (vers(rid \<mapsto> version)) (N + 1) updates (st(rid := Live slot))"
    using inv rid rec fresh by (auto simp: tail_inv_def less_Suc_eq)
  show "merge_slots updates (st(rid := Live slot)) = (merge_slots updates st)(rid := Live slot)"
    using fresh by (auto simp: merge_slots_def fun_eq_iff split: option.splits)
qed

lemma tail_inv_update:
  fixes len :: u64
  assumes inv: "tail_inv df vers N updates st" and old: "vers rid = Some old" "old < version"
    and rec: "version_at df offset rid version"
  defines "updates' \<equiv> entry_update rid (offset, version, len) (keep_newer (offset, version, len)) updates"
  shows "tail_inv df (vers(rid \<mapsto> version)) N updates' st"
    "merge_slots updates' st = (merge_slots updates st)(rid := Live \<lparr>sl_offset = offset, sl_total_len = len\<rparr>)"
proof -
  have "map_of updates rid = Some (o1, v1, l1) \<Longrightarrow> v1 = old" for o1 v1 l1
    using inv old(1) by (fastforce simp: tail_inv_def)
  then have m: "map_of updates' = (map_of updates)(rid \<mapsto> (offset, version, len))"
    using old(2) unfolding updates'_def map_of_entry_update
    by (auto simp: keep_newer_def fun_eq_iff split: option.splits)
  have st: "\<exists>slot old. st rid = Live slot \<and> version_at df (sl_offset slot) rid old \<and> old < version"
  proof (cases "map_of updates rid")
    case None
    with inv old show ?thesis unfolding tail_inv_def by blast
  next
    case (Some r)
    then obtain o1 v1 l1 where r: "map_of updates rid = Some (o1, v1, l1)" by (metis prod_cases3)
    with inv obtain slot w where "st rid = Live slot" "version_at df (sl_offset slot) rid w" "w < v1" "v1 = old"
      using old(1) unfolding tail_inv_def by (metis option.inject)
    with old(2) show ?thesis by (meson order_less_trans)
  qed
  have "distinct (map fst updates')" using inv unfolding updates'_def tail_inv_def by (blast intro: distinct_entry_update)
  with inv rec old(1) st show "tail_inv df (vers(rid \<mapsto> version)) N updates' st"
    unfolding tail_inv_def m by (auto simp: fun_upd_apply)
  show "merge_slots updates' st = (merge_slots updates st)(rid := Live \<lparr>sl_offset = offset, sl_total_len = len\<rparr>)"
    by (auto simp: merge_slots_def m fun_eq_iff)
qed

lemma log_ok_bound: "log_ok vers N log \<Longrightarrow> N \<le> ID_MAX"
  by (induction vers N log rule: log_ok.induct) (auto split: if_splits)

lemma log_entry_version:
  assumes "holds_at (df_view df) p (record_bytes (df_with_bucket df) (df_integrity df) bucket rid version payload)"
    and "p + (header_len (df_with_bucket df) + length payload) \<le> OFF_MAX" and "4096 \<le> p"
  shows "version_at df (of_nat p) rid version" "unat (of_nat p :: u64) = p" "of_nat p \<noteq> (0 :: u64)" "p < 9223372036854775808"
proof -
  show p: "unat (of_nat p :: u64) = p" "p < 9223372036854775808" using assms(2) by (simp_all add: unat_of_nat_nowrap)
  then show "of_nat p \<noteq> (0 :: u64)" using assms(3) by auto
  show "version_at df (of_nat p) rid version"
    using assms p(1) by (auto simp: version_at_def df_record_def add.assoc)
qed

context block_io
begin

lemma restore_tail_log:
  assumes "pf_ok (ix_paged_file ix)" and "steady io" and "log_ok vers N log" and "tail_inv df vers N updates (ix_slot ix)"
    and "log_at (df_with_bucket df) (df_integrity df) (df_view df) p log" and "log_end (df_with_bucket df) p log \<le> OFF_MAX"
    and "4096 \<le> p"
  shows "\<exists>restored' updates' vers' io' ix'. restore_tail D (log_found (df_with_bucket df) p log) (of_nat N, restored, updates) io ix =
      (Inr (of_nat (log_next N log), restored', updates'), io', ix') \<and> steady io' \<and> pf_ok (ix_paged_file ix') \<and>
    tail_inv df vers' (log_next N log) updates' (ix_slot ix') \<and> log_next N log \<le> ID_MAX \<and>
    merge_slots updates' (ix_slot ix') = log_slots (df_with_bucket df) p log (merge_slots updates (ix_slot ix))"
  using assms
proof (induction log arbitrary: vers N updates restored io ix p)
  case Nil
  then show ?case by auto
next
  case (Cons entry log)
  obtain bucket rid version payload where entry: "entry = (bucket, rid, version, payload)" by (metis prod_cases4)
  let ?wb = "df_with_bucket df" and ?slot = "entry_slot p (df_with_bucket df) payload"
  let ?q = "p + (header_len ?wb + length payload)"
  have log: "log_at ?wb (df_integrity df) (df_view df) ?q log" "log_end ?wb ?q log \<le> OFF_MAX" "4096 \<le> ?q"
    using Cons.prems(5-7) by (auto simp: entry)
  have "?q \<le> OFF_MAX" using log(2) log_end_ge [of ?q ?wb log] by simp
  then have rec: "version_at df (sl_offset ?slot) rid version" "sl_offset ?slot \<noteq> 0" "unat (sl_offset ?slot) < 9223372036854775808"
    using log_entry_version [of df p bucket rid version payload] Cons.prems(5,7) by (simp_all add: entry entry_slot_def)
  show ?case
  proof (cases "unat rid = N")
    case True
    have ok: "log_ok (vers(rid \<mapsto> version)) (N + 1) log" using Cons.prems(3) True by (simp add: entry)
    then have "unat rid < ID_MAX" using log_ok_bound [OF ok] True by simp
    then obtain io1 ix1 where s: "IndexFile_stage_slot D io ix rid (Some ?slot) = (Inr (), io1, ix1)" "steady io1"
        "pf_ok (ix_paged_file ix1)" "ix_slot ix1 = (ix_slot ix)(rid := Live ?slot)"
      using stage_slot_ok [OF Cons.prems(1,2) _ rec(2,3)] by blast
    note inv = tail_inv_insert [OF Cons.prems(4) True rec(1), folded s(4)]
    have "rid = of_nat N" using True by (metis of_nat_unat ucast_id)
    then have "restore_tail D (log_found ?wb p (entry # log)) (of_nat N, restored, updates) io ix =
        restore_tail D (log_found ?wb ?q log) (of_nat (N + 1), restored + 1, updates) io1 ix1"
      using s(1) by (simp add: entry entry_slot_def add.commute)
    moreover have "log_slots ?wb p (entry # log) (merge_slots updates (ix_slot ix)) = log_slots ?wb ?q log (merge_slots updates (ix_slot ix1))"
      unfolding inv(2) by (simp add: entry)
    moreover have "log_next N (entry # log) = log_next (N + 1) log" using True by (simp add: entry)
    ultimately show ?thesis using Cons.IH [OF s(3,2) ok inv(1) log, of "restored + 1"] by simp
  next
    case False
    have ok: "unat rid < N" "log_ok (vers(rid \<mapsto> version)) N log" using Cons.prems(3) False by (simp_all add: entry)
    obtain old where old: "vers rid = Some old" "old < version"
      using Cons.prems(3) False by (auto simp: entry split: option.splits)
    let ?r = "(sl_offset ?slot, version, sl_total_len ?slot)"
    let ?u = "entry_update rid ?r (keep_newer ?r) updates"
    note inv = tail_inv_update [OF Cons.prems(4) old rec(1), where len = "sl_total_len ?slot"]
    have N: "unat (of_nat N :: u64) = N" using log_ok_bound [OF ok(2)] by (simp add: unat_of_nat_nowrap)
    have "rid \<noteq> of_nat N" "rid < of_nat N" using ok(1) N by (auto simp: word_less_nat_alt)
    then have "restore_tail D (log_found ?wb p (entry # log)) (of_nat N, restored, updates) io ix =
        restore_tail D (log_found ?wb ?q log) (of_nat N, restored, ?u) io ix"
      by (simp add: entry entry_slot_def)
    moreover have "log_slots ?wb p (entry # log) (merge_slots updates (ix_slot ix)) = log_slots ?wb ?q log (merge_slots ?u (ix_slot ix))"
      unfolding inv(2) by (simp add: entry entry_slot_def)
    moreover have "log_next N (entry # log) = log_next N log" using False by (simp add: entry)
    ultimately show ?thesis using Cons.IH [OF Cons.prems(1,2) ok(2) inv(1) log, of restored] by simp
  qed
qed

text \<open>Restoring an update: the version it replaces is older, so its slot is staged.\<close>

lemma version_at_unique:
  assumes "version_at df offset rid v" and "version_at df offset rid w"
  shows "v = w"
proof -
  obtain b p where a: "df_record df (unat offset) b rid v p" using assms(1) by (auto simp: version_at_def)
  obtain c q where b: "df_record df (unat offset) c rid w q" using assms(2) by (auto simp: version_at_def)
  let ?wb = "df_with_bucket df"
  have "record_at ?wb (df_view df) OFF_MAX (unat offset) = Some (stored_header ?wb (df_integrity df) b rid v p)"
    "record_at ?wb (df_view df) OFF_MAX (unat offset) = Some (stored_header ?wb (df_integrity df) c rid w q)"
    using record_at_holds(1) [OF df_recordD(2) [OF a], of OFF_MAX] record_at_holds(1) [OF df_recordD(2) [OF b], of OFF_MAX]
      df_recordD(1) [OF a] df_recordD(1) [OF b] by (simp_all add: record_len_def)
  then show ?thesis by (simp add: stored_header_def record_header_def)
qed

lemma update_not_skipped:
  assumes ok: "pf_ok (df_paged_file df)" and st: "steady io" and new: "version_at df offset rid version"
    and old: "version_at df (sl_offset slot) rid w" "w < version"
  obtains io' df' where "update_skipped D rid offset version (Live slot) io df = (Inr False, io', df')" "steady io'" "df_keep df df'"
    "pf_still (df_paged_file df) (df_paged_file df')"
proof -
  have "sl_offset slot \<noteq> offset" using version_at_unique [OF new, of w] old by auto
  moreover obtain bucket payload where rec: "df_record df (unat (sl_offset slot)) bucket rid w payload"
    using old(1) by (auto simp: version_at_def)
  moreover obtain r io' df' where r: "DataFile_read_header D io df (sl_offset slot) rid = (r, io', df')" by (metis prod_cases3)
  moreover obtain header where "r = Inr header" "steady io'" using read_header_Inr(2) [OF r ok rec st] by blast
  moreover have "df_keep df df'" "rh_version header = w"
    using read_header_Inr(1) [OF r ok rec \<open>r = Inr header\<close>] by (simp_all add: stored_header_def record_header_def)
  moreover have "pf_still (df_paged_file df) (df_paged_file df')" using read_header_still [OF r] .
  ultimately show ?thesis using that old(2) by (simp add: update_skipped_def not_le)
qed

lemma restore_updates_ok:
  assumes "pf_ok (ix_paged_file ix)" and "pf_ok (df_paged_file df)" and "steady io" and "distinct (map fst updates)"
    and "\<forall>(rid, offset, version, len) \<in> set updates. unat rid < ID_MAX \<and> version_at df offset rid version \<and>
      (\<exists>slot old. ix_slot ix rid = Live slot \<and> version_at df (sl_offset slot) rid old \<and> old < version)"
  shows "\<exists>restored' io' df' ix'. restore_updates D updates restored io df ix = (Inr restored', io', df', ix') \<and> steady io' \<and>
    df_keep df df' \<and> pf_still (df_paged_file df) (df_paged_file df') \<and> pf_ok (ix_paged_file ix') \<and>
    ix_slot ix' = merge_slots updates (ix_slot ix)"
  using assms
proof (induction updates arbitrary: restored io df ix)
  case Nil
  then show ?case by (auto simp: merge_slots_def df_keep_def pf_keep_def fun_eq_iff intro: exI [of _ "df_paged_file df"])
next
  case (Cons entry updates)
  obtain rid offset version len where entry: "entry = (rid, offset, version, len)" by (metis prod_cases4)
  let ?slot = "\<lparr>sl_offset = offset, sl_total_len = len\<rparr>"
  obtain slot old where rec: "unat rid < ID_MAX" "version_at df offset rid version" "ix_slot ix rid = Live slot"
      "version_at df (sl_offset slot) rid old" "old < version"
    using Cons.prems(5) by (auto simp: entry)
  obtain io1 ix1 where r: "IndexFile_read_slot_state D io ix rid = (Inr (Live slot), io1, ix1)" "steady io1" "ix_keep ix ix1"
    using read_slot_state_ok [OF Cons.prems(1,3) rec(1)] rec(3) by metis
  obtain io2 df2 where u: "update_skipped D rid offset version (Live slot) io1 df = (Inr False, io2, df2)" "steady io2" "df_keep df df2"
      "pf_still (df_paged_file df) (df_paged_file df2)"
    using update_not_skipped [OF Cons.prems(2) r(2) rec(2,4,5)] by blast
  have "offset \<noteq> 0" "unat offset < 9223372036854775808"
    using rec(2) by (auto simp: version_at_def df_record_def)
  then obtain io3 ix3 where s: "IndexFile_stage_slot D io2 ix1 rid (Some ?slot) = (Inr (), io3, ix3)" "steady io3"
      "pf_ok (ix_paged_file ix3)" "ix_slot ix3 = (ix_slot ix)(rid := Live ?slot)"
    using stage_slot_ok [OF ix_keepD(1) [OF r(3)] u(2) rec(1), where slot = ?slot] unfolding ix_keepD(2) [OF r(3)] Slot.simps by metis
  have ok2: "pf_ok (df_paged_file df2)" and same: "version_at df2 = version_at df"
    using df_keepD [OF u(3)] df_record_keep [OF u(3)] by (simp_all add: version_at_def fun_eq_iff)
  have new: "rid \<notin> fst ` set updates" using Cons.prems(4) by (simp add: entry)
  have others: "unat r < ID_MAX \<and> version_at df2 o1 r v \<and> (\<exists>slot old. ix_slot ix3 r = Live slot \<and> version_at df2 (sl_offset slot) r old \<and> old < v)"
    if "(r, o1, v, l) \<in> set updates" for r o1 v l
  proof -
    have "r \<noteq> rid" using that new by (auto simp: image_iff)
    with that Cons.prems(5) show ?thesis unfolding s(4) same by (simp add: entry) blast
  qed
  have "distinct (map fst updates)" using Cons.prems(4) by (simp add: entry)
  then obtain restored' io4 df4 ix4 where rest: "restore_updates D updates (restored + 1) io3 df2 ix3 = (Inr restored', io4, df4, ix4)"
      "steady io4" "df_keep df2 df4" "pf_still (df_paged_file df2) (df_paged_file df4)" "pf_ok (ix_paged_file ix4)" "ix_slot ix4 = merge_slots updates (ix_slot ix3)"
    using Cons.IH [OF s(3) ok2 s(2), of "restored + 1"] others by blast
  have "df_keep df df4" "pf_still (df_paged_file df) (df_paged_file df4)"
    using df_keep_trans [OF u(3) rest(3)] pf_still_trans [OF u(4) rest(4)] by simp_all
  moreover have "map_of updates rid = None" using new by (simp add: map_of_eq_None_iff)
  then have "merge_slots updates (ix_slot ix3) = merge_slots (entry # updates) (ix_slot ix)"
    by (auto simp: entry s(4) merge_slots_def fun_eq_iff split: option.splits)
  ultimately show ?case using r(1) u(1) s(1) rest by (simp add: entry)
qed

end

section \<open>Opening restores the log\<close>

lemma tail_inv_entries:
  assumes "tail_inv df vers N updates st" and "map_of updates rid = Some (offset, version, len)"
  shows "unat rid < N" "version_at df offset rid version"
    "\<exists>slot old. st rid = Live slot \<and> version_at df (sl_offset slot) rid old \<and> old < version"
proof -
  have "vers rid = Some version" "version_at df offset rid version"
      "\<exists>slot old. st rid = Live slot \<and> version_at df (sl_offset slot) rid old \<and> old < version"
    using assms unfolding tail_inv_def by blast+
  moreover have "\<forall>rid \<in> dom vers. unat rid < N" using assms(1) by (simp add: tail_inv_def)
  ultimately show "unat rid < N" "version_at df offset rid version"
    "\<exists>slot old. st rid = Live slot \<and> version_at df (sl_offset slot) rid old \<and> old < version" by auto
qed

lemma append_visit_log:
  "foldl (\<lambda>v (p, header). snd (append_visit (of_nat (header_len wb)) v (of_nat p) header True)) (found, of_nat p) (log_visits wb checked p log) =
     (found @ log_found wb p log, of_nat (log_end wb p log))"
  by (induction wb checked p log arbitrary: found rule: log_visits.induct)
    (simp_all add: append_visit_def stored_header_def record_header_def add.commute add.left_commute)

lemma lengths_sane_log:
  assumes "log_at wb checked h p log" and "log_end wb p log \<le> e" and "e \<le> OFF_MAX" and "lengths_sane wb h e resync (log_end wb p log)"
  shows "lengths_sane wb h e resync p"
  using assms
proof (induction wb checked h p log rule: log_at.induct)
  case (2 wb checked h p bucket rid version payload log)
  let ?q = "p + (header_len wb + length payload)"
  have q: "?q \<le> e" using "2.prems"(2) log_end_ge [of ?q wb log] by simp
  have "holds_at h p (record_bytes wb checked bucket rid version payload)" using "2.prems"(1) by simp
  note rec = record_at_holds [OF this q "2.prems"(3)]
  have "header_at wb h p = Some (stored_header wb checked bucket rid version payload)"
    using rec(1) by (auto simp: record_at_def split: option.splits if_splits)
  with rec q "2.prems"(3) have "length_sane wb h p" by (simp add: length_sane_def)
  moreover have "lengths_sane wb h e resync ?q" using "2.IH" "2.prems" by simp
  ultimately show ?case using rec by (subst lengths_sane.simps) simp
qed simp

text \<open>
  What a data file and an index hold for \<open>open\<close> to restore: the index knows \<open>N\<close> identifiers and records
  up to \<open>E\<close>, the slots of the versions \<open>vers\<close> point to records of these versions, and from \<open>E\<close> on the data
  file holds a log and after it nothing that passes for an intact record.
\<close>

definition append_tail :: "DataFile \<Rightarrow> (u64 \<Rightarrow> SlotState) \<Rightarrow> (u64 \<rightharpoonup> u16) \<Rightarrow> nat \<Rightarrow> nat \<Rightarrow> entry list \<Rightarrow> bool" where
  "append_tail df st vers N E log \<longleftrightarrow>
     (let h = df_view df; n = unat (PagedFile_size (df_paged_file df)) in
      \<not> df_with_bucket df \<and> n \<le> OFF_MAX \<and> lengths_sane False h n False (log_end False E log) \<and> index_upto st N E \<and>
      (\<forall>rid version. vers rid = Some version \<longrightarrow> unat rid < N \<and>
         (\<exists>slot. st rid = Live slot \<and> version_at df (sl_offset slot) rid version)) \<and>
      log_ok vers N log \<and> log_at False (df_integrity df) h E log \<and> log_end False E log \<le> n \<and>
      tail_records False (df_integrity df) h n (log_end False E log) = [])"

context block_io
begin

lemma walk_log:
  assumes ok: "pf_ok (df_paged_file df)" and st: "steady io" and t: "append_tail df slots vers N E log"
  obtains stats io' pf' where "walk D io (df_paged_file df) False (df_integrity df) (of_nat E) (PagedFile_size (df_paged_file df)) False
      (append_visit (DataFile_record_header_len df)) ([], of_nat E) =
        (Inr (stats, log_found False E log, of_nat (log_end False E log)), io', pf')"
    "steady io'" "pf_keep (df_paged_file df) pf'" "pf_still (df_paged_file df) pf'"
proof -
  let ?pf = "df_paged_file df" and ?e = "PagedFile_size (df_paged_file df)" and ?visit = "append_visit (DataFile_record_header_len df)"
  have b: "unat ?e \<le> OFF_MAX" "lengths_sane False (df_view df) (unat ?e) False (log_end False E log)" "log_at False (df_integrity df) (df_view df) E log"
      "log_end False E log \<le> unat ?e" "tail_records False (df_integrity df) (df_view df) (unat ?e) (log_end False E log) = []"
      "\<not> df_with_bucket df" "E \<le> OFF_MAX"
    using t by (auto simp: append_tail_def index_upto_def Let_def)
  have E: "unat (of_nat E :: u64) = E" using b(7) by (simp add: unat_of_nat_nowrap)
  let ?s = "WalkStats_default\<lparr>ws_last_end := of_nat E\<rparr>"
  obtain io' pf' where w: "walk D io ?pf False (df_integrity df) (of_nat E) ?e False ?visit ([], of_nat E) =
      (Inr (scan False (df_integrity df) (df_view df) (unat ?e) False ?visit E ?s ([], of_nat E)), io', pf')"
      "steady io'" "pf_settled (df_view df) pf'" "pf_same ?pf pf'" "pf_still ?pf pf'"
    using walk_scan [OF ok st, of "of_nat E" ?e False False "df_integrity df" ?visit "([], of_nat E)"] b(1,7)
      lengths_sane_log [OF b(3,4,1,2)] unfolding E by blast
  have "snd (scan False (df_integrity df) (df_view df) (unat ?e) False ?visit E ?s ([], of_nat E)) =
      foldl (\<lambda>v (p, header). snd (?visit v (of_nat p) header True)) ([], of_nat E) (tail_records False (df_integrity df) (df_view df) (unat ?e) E)"
    by (rule scan_tail_records) (auto simp: append_visit_def)
  also have "\<dots> = (log_found False E log, of_nat (log_end False E log))"
    using append_visit_log [of False "[]" E "df_integrity df" log] b(6) tail_records_log [OF b(3,4,1,5)]
    by (simp add: DataFile_record_header_len_def)
  finally obtain stats where "scan False (df_integrity df) (df_view df) (unat ?e) False ?visit E ?s ([], of_nat E) =
      (stats, log_found False E log, of_nat (log_end False E log))"
    by (metis prod.collapse)
  with that w(1,2,5) pf_settled_keep [OF w(3,4)] show ?thesis by simp
qed

lemma append_recover_ok:
  assumes df: "pf_ok (df_paged_file df)" and ix: "pf_ok (ix_paged_file ix)" and st: "steady io" and order: "order_ok order"
    and t: "append_tail df (ix_slot ix) vers N E log"
  shows "\<exists>restored io' df' ix'. AppendPlacement_recover D order (of_nat N, of_nat E) io df ix =
      (Inr (\<lparr>ap_cursor = of_nat (log_end False E log), ap_next_id = of_nat (log_next N log)\<rparr>, \<lparr>os_restored = restored\<rparr>), io', df', ix') \<and>
    steady io' \<and> pf_ok (df_paged_file df') \<and> df_view df' = df_view df \<and> df_with_bucket df' = df_with_bucket df \<and>
    df_integrity df' = df_integrity df \<and> pf_ok (ix_paged_file ix') \<and> ix_slot ix' = log_slots False E log (ix_slot ix) \<and>
    (staged_writes (df_paged_file df) = [] \<longrightarrow> pf_file (df_paged_file df') = pf_file (df_paged_file df) \<and> staged_writes (df_paged_file df') = [] \<and>
      allocated_end (df_paged_file df') = max (allocated_end (df_paged_file df)) (PagedFile_size (df_paged_file df)))"
proof -
  obtain stats io1 pf1 where w: "walk D io (df_paged_file df) False (df_integrity df) (of_nat E) (PagedFile_size (df_paged_file df)) False
      (append_visit (DataFile_record_header_len df)) ([], of_nat E) =
        (Inr (stats, log_found False E log, of_nat (log_end False E log)), io1, pf1)"
    "steady io1" "pf_keep (df_paged_file df) pf1" "pf_still (df_paged_file df) pf1"
    using walk_log [OF df st t] by blast
  let ?df = "df\<lparr>df_paged_file := pf1\<rparr>"
  have keep: "df_keep df ?df" using w(3) by (auto simp: df_keep_def)
  have h: "\<not> df_with_bucket df" "log_ok vers N log" "log_at False (df_integrity df) (df_view df) E log" "log_end False E log \<le> OFF_MAX" "4096 \<le> E"
    using t by (auto simp: append_tail_def index_upto_def Let_def)
  have "tail_inv df vers N [] (ix_slot ix)"
    using t by (auto simp: tail_inv_def append_tail_def Let_def)
  moreover have empty: "merge_slots [] st = st" for st by (simp add: merge_slots_def fun_eq_iff)
  ultimately obtain restored updates vers' io2 ix2 where r: "restore_tail D (log_found False E log) (of_nat N, 0, []) io1 ix =
        (Inr (of_nat (log_next N log), restored, updates), io2, ix2)" "steady io2" "pf_ok (ix_paged_file ix2)"
      "tail_inv df vers' (log_next N log) updates (ix_slot ix2)" "log_next N log \<le> ID_MAX"
      "merge_slots updates (ix_slot ix2) = log_slots False E log (ix_slot ix)"
    using restore_tail_log [OF ix w(2) h(2), of df "[]" E 0] h by auto
  let ?updates = "hash_entries order updates"
  have dist: "distinct (map fst updates)" using r(4) by (simp add: tail_inv_def)
  note e = hash_entries_facts [OF order dist]
  have "version_at ?df = version_at df" using df_record_keep [OF keep] by (simp add: version_at_def fun_eq_iff)
  then have "\<forall>(rid, offset, version, len) \<in> set ?updates. unat rid < ID_MAX \<and> version_at ?df offset rid version \<and>
      (\<exists>slot old. ix_slot ix2 rid = Live slot \<and> version_at ?df (sl_offset slot) rid old \<and> old < version)"
    using tail_inv_entries [OF r(4)] r(5) map_of_is_SomeI [OF e(1)] e(2) by fastforce
  then obtain restored' io3 df3 ix3 where u: "restore_updates D ?updates restored io2 ?df ix2 = (Inr restored', io3, df3, ix3)" "steady io3"
      "df_keep ?df df3" "pf_still (df_paged_file ?df) (df_paged_file df3)" "pf_ok (ix_paged_file ix3)"
      "ix_slot ix3 = merge_slots ?updates (ix_slot ix2)"
    using restore_updates_ok [OF r(3) df_keepD(1) [OF keep] r(2) e(1)] by blast
  obtain io4 ix4 where s: "settle_index D restored' io3 ix3 = (Inr (), io4, ix4)" "steady io4" "pf_ok (ix_paged_file ix4)" "ix_slot ix4 = ix_slot ix3"
    using settle_index_ok [OF u(5,2)] by blast
  let ?pf3 = "df_paged_file df3"
  have keep3: "df_keep df df3" "pf_still (df_paged_file df) ?pf3"
    using df_keep_trans [OF keep u(3)] pf_still_trans [OF w(4)] u(4) by simp_all
  have "ix_slot ix4 = log_slots False E log (ix_slot ix)"
    using s(4) u(6) r(6) by (simp add: merge_slots_def e(2) fun_eq_iff)
  moreover have "pf_ok (PagedFile_note_alloc ?pf3 n)" "pf_view (PagedFile_note_alloc ?pf3 n) = df_view df" for n
    using df_keepD(1,2) [OF keep3(1)] by (simp_all add: PagedFile_note_alloc_def allocated_end_irrelevant)
  moreover have "allocated_end ?pf3 = allocated_end (df_paged_file df)" using df_keepD(5) [OF keep3(1)] by (simp add: pf_same_def)
  ultimately show ?thesis
    using w(1) r(1) u(1) s df_keepD [OF keep3(1)] keep3(2)
    by (simp add: AppendPlacement_recover_def Let_def pf_still_def PagedFile_note_alloc_def PagedFile_size_def)
qed

end

text \<open>The slots that are used lie in the index file, which is written in whole pages.\<close>

lemma slots_in_file:
  assumes clean: "staged_writes (ix_paged_file ix) = []" and c: "c = f_content (pf_file (ix_paged_file ix))"
    and len: "4096 \<le> length c" "16 dvd length c" and u: "index_upto (ix_slot ix) N E"
  shows "N \<le> (length c - 4096) div 16"
proof (cases "N = 0")
  case False
  then have used: "ix_slot ix (of_nat (N - 1)) \<noteq> Empty" "N \<le> ID_MAX" using u by (auto simp: index_upto_def)
  have "4096 + 16 * (N - 1) < length c"
  proof (rule ccontr)
    assume past: "\<not> 4096 + 16 * (N - 1) < length c"
    have N: "unat (of_nat (N - 1) :: u64) = N - 1" using used(2) by (intro unat_of_nat_nowrap) simp
    have "slot_at (pf_view (ix_paged_file ix)) (of_nat (N - 1)) = replicate 16 0"
      unfolding slot_at_def N
      by (rule nth_equalityI) (use past clean c in \<open>auto simp: pf_view_def byte_at_def\<close>)
    then show False using used(1) Slot_state_zeros by (simp add: ix_slot_def)
  qed
  moreover have "16 dvd length c - 4096" using len by (intro dvd_diff_nat) simp_all
  ultimately show ?thesis using False by (auto elim!: dvdE)
qed simp

context block_io
begin

text \<open>Reading the index finds the identifiers in use and the end of the records.\<close>

lemma open_reads_index:
  assumes ix: "pf_ok (ix_paged_file ix)" "staged_writes (ix_paged_file ix) = []"
    and c: "c = f_content (pf_file (ix_paged_file ix))" "4096 \<le> length c" "16 dvd length c" "length c \<le> OFF_MAX"
    and st: "steady io" and upto: "index_upto (ix_slot ix) N E"
  obtains io1 ix1 where "AppendPlacement_open D order io cfg df ix registry False =
      (case AppendPlacement_recover D order (of_nat N, of_nat E) io1 df ix1 of (r, io, df, ix) \<Rightarrow> (r, io, df, ix, registry))"
    "steady io1" "ix_keep ix ix1" "pf_still (ix_paged_file ix) (ix_paged_file ix1)"
proof -
  let ?size = "PagedFile_size (ix_paged_file ix)"
  have size: "unat ?size = length c" using c(1,4) by (simp add: PagedFile_size_def file_len_def unat_of_nat_nowrap)
  obtain io1 ix1 where s: "index_scan D ?size PAGE_SIZE_U64 (0, PAGE_SIZE_U64) io ix =
      (Inr (foldl (note_state (ix_slot ix)) (0, PAGE_SIZE_U64) [0..<(length c - 4096) div 16]), io1, ix1)" "steady io1" "ix_keep ix ix1"
      "pf_still (ix_paged_file ix) (ix_paged_file ix1)"
    using index_scan_ok [OF ix(1) st, of ?size PAGE_SIZE_U64 0 "(0, PAGE_SIZE_U64)"] size c(4)
    by (auto simp: PAGE_SIZE_U64_eq)
  have "foldl (note_state (ix_slot ix)) (0, PAGE_SIZE_U64) [0..<(length c - 4096) div 16] = (of_nat N, of_nat E)"
    using note_states_summary [OF upto slots_in_file [OF ix(2) c(1-3) upto]] c(4) by simp
  with that s show thesis by (simp add: AppendPlacement_open_def)
qed

lemma append_open_ok:
  assumes df: "pf_ok (df_paged_file df)" and ix: "pf_ok (ix_paged_file ix)" "staged_writes (ix_paged_file ix) = []"
    and c: "c = f_content (pf_file (ix_paged_file ix))" "4096 \<le> length c" "16 dvd length c" "length c \<le> OFF_MAX"
    and st: "steady io" and order: "order_ok order" and t: "append_tail df (ix_slot ix) vers N E log"
  shows "\<exists>restored io' df' ix'. AppendPlacement_open D order io cfg df ix registry False =
      (Inr (\<lparr>ap_cursor = of_nat (log_end False E log), ap_next_id = of_nat (log_next N log)\<rparr>, \<lparr>os_restored = restored\<rparr>),
       io', df', ix', registry) \<and>
    steady io' \<and> pf_ok (df_paged_file df') \<and> df_view df' = df_view df \<and> df_with_bucket df' = df_with_bucket df \<and>
    df_integrity df' = df_integrity df \<and> pf_ok (ix_paged_file ix') \<and> ix_slot ix' = log_slots False E log (ix_slot ix) \<and>
    (staged_writes (df_paged_file df) = [] \<longrightarrow> pf_file (df_paged_file df') = pf_file (df_paged_file df) \<and> staged_writes (df_paged_file df') = [] \<and>
      allocated_end (df_paged_file df') = max (allocated_end (df_paged_file df)) (PagedFile_size (df_paged_file df)))"
proof -
  have upto: "index_upto (ix_slot ix) N E" using t by (simp add: append_tail_def Let_def)
  obtain io1 ix1 where s: "AppendPlacement_open D order io cfg df ix registry False =
      (case AppendPlacement_recover D order (of_nat N, of_nat E) io1 df ix1 of (r, io, df, ix) \<Rightarrow> (r, io, df, ix, registry))"
    "steady io1" "ix_keep ix ix1" "pf_still (ix_paged_file ix) (ix_paged_file ix1)"
    using open_reads_index [OF ix c st upto] by blast
  have "append_tail df (ix_slot ix1) vers N E log" using t ix_keepD(2) [OF s(3)] by simp
  then show ?thesis
    using append_recover_ok [OF df ix_keepD(1) [OF s(3)] s(2) order, of vers N E log] s(1) ix_keepD(2) [OF s(3)]
    by auto
qed

end

end
