(* ===== verification/Bucket.thy ===== *)
theory Bucket
  imports Placement "HOL-Library.Multiset"
begin

text \<open>
  Bucket placement of \<open>src/src/bucket.rs\<close>: each bucket has extents of the data file and regions of
  identifiers, granted by cutting the free end off another bucket's last extent or by growing the
  file, and recorded in the registry. Shown: extents and regions never overlap, so bytes and
  identifiers are handed out once and the placement contract holds.
\<close>

section \<open>State\<close>

record Extent =
  ex_start :: u64
  ex_size :: u64
  ex_used :: u64

definition Extent_end :: "Extent \<Rightarrow> u64" where
  "Extent_end e = ex_start e + ex_size e"

record BucketState =
  bs_id :: u64
  bs_data :: "Extent list"
  bs_slots :: "Extent list"

record BucketPlacement =
  bp_states :: "BucketState list"
  bp_bucket_indices :: "u64 \<rightharpoonup> nat"
  bp_extent_grant_count :: u64
  bp_file_size :: u64
  bp_next_region :: u64
  bp_registry_end :: u64

definition required_extent_size :: "HeapConfig \<Rightarrow> u64 \<Rightarrow> u64" where
  "required_extent_size config total_len = max (page_up total_len) (min_extent config)"

section \<open>Registry rows\<close>

text \<open>
  The operations below update the device, the placement, the data file and the registry; the state is
  their tuple.
\<close>

type_synonym ('io, 'a) granted = "'a res \<times> 'io \<times> BucketPlacement \<times> DataFile \<times> PagedFile"

definition BucketPlacement_push_row ::
  "'io BlockIo \<Rightarrow> 'io \<Rightarrow> BucketPlacement \<Rightarrow> DataFile \<Rightarrow> PagedFile \<Rightarrow> RegistryRow \<Rightarrow> ('io, unit) granted" where
  "BucketPlacement_push_row D io p df registry row =
     (let buffer = RegistryRow_encode row (replicate REGISTRY_ROW_SIZE 0) in
      case PagedFile_stage D io registry (bp_registry_end p) [buffer] of
        (Inl e, io, registry) \<Rightarrow> (Inl e, io, p, df, registry)
      | (Inr _, io, registry) \<Rightarrow>
          (Inr (), io, p\<lparr>bp_registry_end := bp_registry_end p + of_nat REGISTRY_ROW_SIZE\<rparr>, df, registry))"

section \<open>Granting extents\<close>

definition leading_zeros :: "u64 \<Rightarrow> nat" where
  "leading_zeros w = length (takeWhile (\<lambda>i. \<not> bit w (63 - i)) [0..<64])"

definition section_base :: "u64 \<Rightarrow> u64" where
  "section_base grant_number = push_bit (63 - leading_zeros grant_number) 1"

definition saturating_sub :: "u64 \<Rightarrow> u64 \<Rightarrow> u64" where
  "saturating_sub a b = (if a < b then 0 else a - b)"

lemma unat_neg_less:
  assumes "(g :: u64) \<noteq> 0"
  shows "unat (- 1 - g) < unat (- g)" "unat (- g - 1) < unat (- g)"
proof -
  have pos: "0 < unat (- g)" using assms by (simp add: unat_gt_0)
  then have "unat (- g - 1) = unat (- g) - 1" by (subst unat_sub_nowrap) simp_all
  with pos show "unat (- g - 1) < unat (- g)" by simp
  moreover have "- 1 - g = - g - 1" by simp
  ultimately show "unat (- 1 - g) < unat (- g)" by (simp only:)
qed

text \<open>
  The loop of \<open>grant_extent\<close>: the buckets are taken in turn, section by section; the first with enough
  free space gives some of it, and a number beyond the buckets grows the file. It ends because the
  grant number would otherwise come round to zero.
\<close>

definition put_data :: "BucketPlacement \<Rightarrow> nat \<Rightarrow> Extent list \<Rightarrow> BucketPlacement" where
  "put_data p i es = p\<lparr>bp_states := (bp_states p)[i := (bp_states p ! i)\<lparr>bs_data := es\<rparr>]\<rparr>"

definition put_slots :: "BucketPlacement \<Rightarrow> nat \<Rightarrow> Extent list \<Rightarrow> BucketPlacement" where
  "put_slots p i es = p\<lparr>bp_states := (bp_states p)[i := (bp_states p ! i)\<lparr>bs_slots := es\<rparr>]\<rparr>"

definition set_last :: "Extent list \<Rightarrow> Extent \<Rightarrow> Extent list" where
  "set_last es e = butlast es @ [e]"

function grant_loop :: "HeapConfig \<Rightarrow> BucketPlacement \<Rightarrow> DataFile \<Rightarrow> u64 \<Rightarrow> Extent res \<times> BucketPlacement \<times> DataFile" where
  "grant_loop config p df need =
     (let grant_number = bp_extent_grant_count p;
          p = p\<lparr>bp_extent_grant_count := grant_number + 1\<rparr>
      in if grant_number = 0
         then (Inr \<lparr>ex_start = PAGE_SIZE_U64, ex_size = bp_file_size p - PAGE_SIZE_U64, ex_used = 0\<rparr>, p, df)
         else let victim_index = unat (grant_number - section_base grant_number) in
           if length (bp_states p) \<le> victim_index then
             let grow = max need (growth config) in
             case PagedFile_ensure_alloc (df_paged_file df) (bp_file_size p + grow) grow of
               (Inl e, pf) \<Rightarrow> (Inl e, p, df\<lparr>df_paged_file := pf\<rparr>)
             | (Inr _, pf) \<Rightarrow>
                 (Inr \<lparr>ex_start = bp_file_size p, ex_size = grow, ex_used = 0\<rparr>,
                  p\<lparr>bp_file_size := bp_file_size p + grow\<rparr>, df\<lparr>df_paged_file := pf\<rparr>)
           else if bs_data (bp_states p ! victim_index) = [] then (Inl (Panic ''bucket without extent''), p, df)
           else let victim = last (bs_data (bp_states p ! victim_index));
                    free = saturating_sub (ex_size victim) (page_up (ex_used victim))
             in if need \<le> free then
                  let cut = max (page_down (free div 2)) need;
                      victim = victim\<lparr>ex_size := ex_size victim - cut\<rparr>
                  in (Inr \<lparr>ex_start = ex_start victim + ex_size victim, ex_size = cut, ex_used = 0\<rparr>,
                      put_data p victim_index (set_last (bs_data (bp_states p ! victim_index)) victim), df)
                else grant_loop config p df need)"
  by pat_completeness auto
termination
  by (relation "measure (\<lambda>(config, p, df, need). unat (- bp_extent_grant_count p))") (auto simp: unat_neg_less)

declare grant_loop.simps [simp del]

definition BucketPlacement_grant_extent ::
  "'io BlockIo \<Rightarrow> 'io \<Rightarrow> HeapConfig \<Rightarrow> BucketPlacement \<Rightarrow> DataFile \<Rightarrow> PagedFile \<Rightarrow> nat \<Rightarrow> u64 \<Rightarrow> ('io, unit) granted" where
  "BucketPlacement_grant_extent D io config p df registry bucket_index need =
     (case grant_loop config p df need of
        (Inl e, p, df) \<Rightarrow> (Inl e, io, p, df, registry)
      | (Inr extent, p, df) \<Rightarrow>
          let bucket = bs_id (bp_states p ! bucket_index) in
          and_then (BucketPlacement_push_row D io p df registry
              \<lparr>rr_kind = 0x44, rr_bucket = bucket, rr_start = ex_start extent, rr_size = ex_size extent\<rparr>)
            (\<lambda>_ (io, p, df, registry).
             (Inr (), io, put_data p bucket_index (bs_data (bp_states p ! bucket_index) @ [extent]), df, registry)))"

definition BucketPlacement_grant_region ::
  "'io BlockIo \<Rightarrow> 'io \<Rightarrow> HeapConfig \<Rightarrow> BucketPlacement \<Rightarrow> DataFile \<Rightarrow> PagedFile \<Rightarrow> nat \<Rightarrow> ('io, unit) granted" where
  "BucketPlacement_grant_region D io config p df registry bucket_index =
     (let region = \<lparr>ex_start = bp_next_region p, ex_size = region_slots config, ex_used = 0\<rparr>;
          p = p\<lparr>bp_next_region := bp_next_region p + region_slots config\<rparr>;
          bucket = bs_id (bp_states p ! bucket_index)
      in and_then (BucketPlacement_push_row D io p df registry
              \<lparr>rr_kind = 0x53, rr_bucket = bucket, rr_start = ex_start region, rr_size = ex_size region\<rparr>)
            (\<lambda>_ (io, p, df, registry).
             (Inr (), io, put_slots p bucket_index (bs_slots (bp_states p ! bucket_index) @ [region]), df, registry)))"

definition BucketPlacement_bucket_index ::
  "'io BlockIo \<Rightarrow> 'io \<Rightarrow> HeapConfig \<Rightarrow> BucketPlacement \<Rightarrow> DataFile \<Rightarrow> PagedFile \<Rightarrow> u64 \<Rightarrow> u64 \<Rightarrow> ('io, nat) granted" where
  "BucketPlacement_bucket_index D io config p df registry bucket need =
     (case bp_bucket_indices p bucket of
        Some bucket_index \<Rightarrow> (Inr bucket_index, io, p, df, registry)
      | None \<Rightarrow>
          let bucket_index = length (bp_states p);
              p = p\<lparr>bp_states := bp_states p @ [\<lparr>bs_id = bucket, bs_data = [], bs_slots = []\<rparr>],
                     bp_bucket_indices := (bp_bucket_indices p)(bucket \<mapsto> bucket_index)\<rparr>
          in and_then (BucketPlacement_grant_extent D io config p df registry bucket_index need)
               (\<lambda>_ (io, p, df, registry).
             and_then (BucketPlacement_grant_region D io config p df registry bucket_index)
               (\<lambda>_ s. (Inr bucket_index, s))))"

text \<open>\<open>last_mut().unwrap()\<close> after a grant cannot fail: the list has just been extended.\<close>

definition BucketPlacement_place_bytes ::
  "'io BlockIo \<Rightarrow> 'io \<Rightarrow> HeapConfig \<Rightarrow> BucketPlacement \<Rightarrow> DataFile \<Rightarrow> PagedFile \<Rightarrow> nat \<Rightarrow> u64 \<Rightarrow> ('io, u64) granted" where
  "BucketPlacement_place_bytes D io config p df registry bucket_index total_len =
     (let extents = bs_data (bp_states p ! bucket_index) in
      if extents = [] then (Inl (Panic ''bucket without extent''), io, p, df, registry)
      else let extent = last extents in
        if ex_used extent + total_len \<le> ex_size extent then
          (Inr (ex_start extent + ex_used extent), io,
           put_data p bucket_index (set_last extents (extent\<lparr>ex_used := ex_used extent + total_len\<rparr>)), df, registry)
        else
          and_then (BucketPlacement_grant_extent D io config p df registry bucket_index
              (required_extent_size config total_len))
            (\<lambda>_ (io, p, df, registry).
             let extents = bs_data (bp_states p ! bucket_index);
                 extent = (last extents)\<lparr>ex_used := total_len\<rparr>
             in (Inr (ex_start extent), io, put_data p bucket_index (set_last extents extent), df, registry)))"

section \<open>The placement operations\<close>

definition BucketPlacement_place_id ::
  "'io BlockIo \<Rightarrow> 'io \<Rightarrow> HeapConfig \<Rightarrow> BucketPlacement \<Rightarrow> DataFile \<Rightarrow> PagedFile \<Rightarrow> nat \<Rightarrow> ('io, u64) granted" where
  "BucketPlacement_place_id D io config p df registry bucket_index =
     (let regions = bs_slots (bp_states p ! bucket_index) in
      if regions = [] then (Inl (Panic ''bucket without region''), io, p, df, registry)
      else let region = last regions in
        if ex_used region < ex_size region then
          (Inr (ex_start region + ex_used region), io,
           put_slots p bucket_index (set_last regions (region\<lparr>ex_used := ex_used region + 1\<rparr>)), df, registry)
        else
          and_then (BucketPlacement_grant_region D io config p df registry bucket_index)
            (\<lambda>_ (io, p, df, registry).
             let regions = bs_slots (bp_states p ! bucket_index);
                 region = (last regions)\<lparr>ex_used := 1\<rparr>
             in (Inr (ex_start region), io, put_slots p bucket_index (set_last regions region), df, registry)))"

text \<open>A missing registry panics; otherwise the operations run on it.\<close>

definition with_registry ::
  "(PagedFile \<Rightarrow> ('io, 'a) granted) \<Rightarrow> 'io \<Rightarrow> BucketPlacement \<Rightarrow> DataFile \<Rightarrow> PagedFile option \<Rightarrow> ('io, BucketPlacement, 'a) placed" where
  "with_registry f io p df registry =
     (case registry of
        None \<Rightarrow> (Inl (Panic ''bucket layout requires registry''), io, p, df, None)
      | Some registry \<Rightarrow> (case f registry of (r, io, p, df, registry) \<Rightarrow> (r, io, p, df, Some registry)))"

definition BucketPlacement_alloc ::
  "'io BlockIo \<Rightarrow> 'io \<Rightarrow> HeapConfig \<Rightarrow> BucketPlacement \<Rightarrow> DataFile \<Rightarrow> PagedFile option \<Rightarrow> u64 \<Rightarrow> u64
   \<Rightarrow> ('io, BucketPlacement, u64 \<times> u64) placed" where
  "BucketPlacement_alloc D io config p df registry bucket total_len =
     with_registry (\<lambda>registry.
       and_then (BucketPlacement_bucket_index D io config p df registry bucket (required_extent_size config total_len))
         (\<lambda>bucket_index (io, p, df, registry).
       and_then (BucketPlacement_place_bytes D io config p df registry bucket_index total_len)
         (\<lambda>offset (io, p, df, registry).
       and_then (BucketPlacement_place_id D io config p df registry bucket_index)
         (\<lambda>rid s. (Inr (offset, rid), s))))) io p df registry"

definition BucketPlacement_alloc_update ::
  "'io BlockIo \<Rightarrow> 'io \<Rightarrow> HeapConfig \<Rightarrow> BucketPlacement \<Rightarrow> DataFile \<Rightarrow> PagedFile option \<Rightarrow> u64 \<Rightarrow> u64
   \<Rightarrow> ('io, BucketPlacement, u64) placed" where
  "BucketPlacement_alloc_update D io config p df registry bucket total_len =
     with_registry (\<lambda>registry.
       case bp_bucket_indices p bucket of
         None \<Rightarrow> (Inl (Err (InvalidArg ''update refers to unknown bucket'')), io, p, df, registry)
       | Some bucket_index \<Rightarrow>
           BucketPlacement_place_bytes D io config p df registry bucket_index total_len) io p df registry"

definition BucketPlacement_used_bytes :: "BucketPlacement \<Rightarrow> u64" where
  "BucketPlacement_used_bytes p = sum_list (map ex_used (concat (map bs_data (bp_states p))))"

definition bucket_placement :: "('io, BucketPlacement) Placement" where
  "bucket_placement =
     \<lparr>pl_with_bucket = True, pl_layout = LAYOUT_BUCKET, pl_alloc = BucketPlacement_alloc,
      pl_update_alloc = BucketPlacement_alloc_update, pl_used_bytes = BucketPlacement_used_bytes\<rparr>"

section \<open>Extents do not overlap\<close>

definition ex_apart :: "Extent \<Rightarrow> Extent \<Rightarrow> bool" where
  "ex_apart a b \<longleftrightarrow> unat (ex_start a) + unat (ex_size a) \<le> unat (ex_start b) \<or>
     unat (ex_start b) + unat (ex_size b) \<le> unat (ex_start a)"

text \<open>A collection of extents inside \<open>[lo, hi)\<close>, each used up to its size, none overlapping another.\<close>

definition ex_ok :: "nat \<Rightarrow> nat \<Rightarrow> Extent \<Rightarrow> bool" where
  "ex_ok lo hi e \<longleftrightarrow> lo \<le> unat (ex_start e) \<and> unat (ex_start e) + unat (ex_size e) \<le> hi \<and> unat (ex_used e) \<le> unat (ex_size e)"

definition all_ok :: "nat \<Rightarrow> nat \<Rightarrow> Extent list \<Rightarrow> bool" where
  "all_ok lo hi es \<longleftrightarrow> (\<forall>e \<in> set es. ex_ok lo hi e) \<and> sorted_wrt ex_apart es"

definition used_by :: "Extent list \<Rightarrow> nat set" where
  "used_by es = (\<Union>e \<in> set es. span (ex_start e) (ex_used e))"

lemma sorted_wrt_mset:
  assumes sym: "\<And>x y. R x y \<Longrightarrow> R y x" and eq: "mset xs = mset ys" and sorted: "sorted_wrt R xs"
  shows "sorted_wrt R ys"
  using eq sorted
proof (induction xs arbitrary: ys)
  case Nil
  then show ?case by simp
next
  case (Cons x xs)
  have "x \<in> set ys" using Cons.prems(1) by (metis list.set_intros(1) mset_eq_setD)
  then obtain a b where ys: "ys = a @ x # b" by (auto simp: in_set_conv_decomp)
  then have m: "mset xs = mset (a @ b)" using Cons.prems(1) by simp
  have "sorted_wrt R (a @ b)" using Cons.IH [OF m] Cons.prems(2) by simp
  moreover have "\<forall>y \<in> set (a @ b). R x y" using Cons.prems(2) mset_eq_setD [OF m] by simp
  ultimately show ?case using sym by (auto simp: ys sorted_wrt_append)
qed

lemma all_ok_mset: "mset es = mset fs \<Longrightarrow> all_ok lo hi es = all_ok lo hi fs"
proof -
  assume m: "mset es = mset fs"
  have "sorted_wrt ex_apart es = sorted_wrt ex_apart fs"
    using sorted_wrt_mset [of ex_apart es fs] sorted_wrt_mset [of ex_apart fs es] m by (auto simp: ex_apart_def)
  with mset_eq_setD [OF m] show ?thesis by (simp add: all_ok_def)
qed

lemma used_by_mset: "mset es = mset fs \<Longrightarrow> used_by es = used_by fs"
  using mset_eq_setD [of es fs] by (simp add: used_by_def)

lemma all_ok_Cons: "all_ok lo hi (e # es) \<longleftrightarrow> ex_ok lo hi e \<and> (\<forall>x \<in> set es. ex_apart e x) \<and> all_ok lo hi es"
  by (auto simp: all_ok_def)

lemma used_by_Cons: "used_by (e # es) = span (ex_start e) (ex_used e) \<union> used_by es"
  by (simp add: used_by_def)

text \<open>All extents of one kind; the one at the end of a bucket's list can be taken out.\<close>

definition extents_of :: "(BucketState \<Rightarrow> Extent list) \<Rightarrow> BucketState list \<Rightarrow> Extent list" where
  "extents_of f states = concat (map f states)"

lemma extents_of_update:
  assumes "i < length states"
  obtains rest where "mset (extents_of f states) = mset (f (states ! i) @ rest)"
    "\<And>s. mset (extents_of f (states[i := s])) = mset (f s @ rest)"
proof -
  let ?rest = "concat (map f (take i states)) @ concat (map f (drop (Suc i) states))"
  have split: "states = take i states @ states ! i # drop (Suc i) states"
    using assms by (rule id_take_nth_drop)
  have "mset (extents_of f states) = mset (f (states ! i) @ ?rest)"
    by (subst split) (simp add: extents_of_def)
  moreover have "mset (extents_of f (states[i := s])) = mset (f s @ ?rest)" for s
    using assms by (simp add: extents_of_def upd_conv_take_nth_drop)
  ultimately show thesis by (rule that)
qed

text \<open>Growing the used part of an extent, cutting its end off, and using bytes of a new one.\<close>

lemma ex_ok_mono: "all_ok lo hi es \<Longrightarrow> hi \<le> hi' \<Longrightarrow> all_ok lo hi' es"
  by (auto simp: all_ok_def ex_ok_def)

lemma all_ok_use:
  assumes ok: "all_ok lo hi (e # es)" and n: "unat (ex_used e) + unat n \<le> unat (ex_size e)" and hi: "hi \<le> 2 * OFF_MAX"
  shows "all_ok lo hi (e\<lparr>ex_used := ex_used e + n\<rparr> # es)"
    "span (ex_start e + ex_used e) n \<inter> used_by (e # es) = {}"
    "used_by (e\<lparr>ex_used := ex_used e + n\<rparr> # es) = used_by (e # es) \<union> span (ex_start e + ex_used e) n"
    "lo \<le> unat (ex_start e + ex_used e)" "unat (ex_start e + ex_used e) + unat n \<le> hi"
proof -
  have e: "ex_ok lo hi e" "\<forall>x \<in> set es. ex_apart e x" "\<forall>x \<in> set es. ex_ok lo hi x"
    using ok by (auto simp: all_ok_Cons all_ok_def)
  have u: "unat (ex_used e + n) = unat (ex_used e) + unat n" "unat (ex_start e + ex_used e) = unat (ex_start e) + unat (ex_used e)"
    using e(1) n hi by (simp_all add: unat_add_nowrap ex_ok_def)
  show "all_ok lo hi (e\<lparr>ex_used := ex_used e + n\<rparr> # es)"
    using ok n u by (auto simp: all_ok_Cons ex_ok_def ex_apart_def)
  show "lo \<le> unat (ex_start e + ex_used e)" "unat (ex_start e + ex_used e) + unat n \<le> hi"
    using e(1) n by (auto simp: u ex_ok_def)
  have "k \<notin> span (ex_start x) (ex_used x)" if "x \<in> set es" "k \<in> span (ex_start e + ex_used e) n" for x k
  proof -
    have "ex_apart e x" "ex_ok lo hi x" using e(2,3) that(1) by simp_all
    with that(2) n show ?thesis unfolding u by (auto simp: ex_apart_def ex_ok_def)
  qed
  then show "span (ex_start e + ex_used e) n \<inter> used_by (e # es) = {}"
    unfolding used_by_Cons by (auto simp: used_by_def u)
  show "used_by (e\<lparr>ex_used := ex_used e + n\<rparr> # es) = used_by (e # es) \<union> span (ex_start e + ex_used e) n"
    unfolding used_by_Cons u by (auto simp: u)
qed

lemma all_ok_cut:
  assumes ok: "all_ok lo hi (v # es)" and c: "unat c \<le> unat (ex_size v) - unat (ex_used v)" and hi: "hi \<le> 2 * OFF_MAX"
  defines "v' \<equiv> v\<lparr>ex_size := ex_size v - c\<rparr>"
  shows "all_ok lo hi (\<lparr>ex_start = ex_start v' + ex_size v', ex_size = c, ex_used = 0\<rparr> # v' # es)"
    "used_by (v' # es) = used_by (v # es)"
proof -
  have v: "ex_ok lo hi v" "\<forall>x \<in> set es. ex_apart v x" "all_ok lo hi es" using ok by (auto simp: all_ok_Cons)
  have u: "unat (ex_size v - c) = unat (ex_size v) - unat c"
    using c by (intro unat_sub_nowrap) linarith
  have w: "unat (ex_start v + (ex_size v - c)) = unat (ex_start v) + (unat (ex_size v) - unat c)"
  proof -
    have "unat (ex_start v) + unat (ex_size v - c) < 18446744073709551616"
      using v(1) hi unfolding ex_ok_def u by linarith
    then show ?thesis by (subst unat_add_nowrap) (simp_all add: u)
  qed
  let ?n = "\<lparr>ex_start = ex_start v' + ex_size v', ex_size = c, ex_used = 0\<rparr>"
  have "ex_ok lo hi v'" using v(1) c by (auto simp: v'_def ex_ok_def u)
  moreover have "ex_ok lo hi ?n" using v(1) c by (auto simp: v'_def ex_ok_def w)
  moreover have "ex_apart ?n v'" using c by (simp add: v'_def ex_apart_def w u)
  moreover have "\<forall>x \<in> set es. ex_apart ?n x \<and> ex_apart v' x"
    using v(2) c by (auto simp: v'_def ex_apart_def w u)
  ultimately show "all_ok lo hi (?n # v' # es)" using v(3) by (auto simp: all_ok_Cons)
  show "used_by (v' # es) = used_by (v # es)" by (simp add: v'_def used_by_Cons)
qed

section \<open>The invariant\<close>

abbreviation data_ext :: "BucketPlacement \<Rightarrow> Extent list" where
  "data_ext p \<equiv> extents_of bs_data (bp_states p)"

abbreviation slot_ext :: "BucketPlacement \<Rightarrow> Extent list" where
  "slot_ext p \<equiv> extents_of bs_slots (bp_states p)"

definition bucket_core :: "HeapConfig \<Rightarrow> BucketPlacement \<Rightarrow> DataFile \<Rightarrow> bool" where
  "bucket_core cfg p df \<longleftrightarrow>
     pf_room (df_paged_file df) \<and> 4096 \<le> unat (bp_file_size p) \<and>
     unat (bp_file_size p) \<le> unat (allocated_end (df_paged_file df)) \<and>
     all_ok 4096 (unat (bp_file_size p)) (data_ext p) \<and>
     (bp_extent_grant_count p = 0 \<longrightarrow> data_ext p = []) \<and>
     (\<forall>b i. bp_bucket_indices p b = Some i \<longrightarrow> i < length (bp_states p)) \<and>
     unat (growth cfg) \<le> OFF_MAX \<and> unat (min_extent cfg) \<le> OFF_MAX \<and>
     0 < region_slots cfg \<and> unat (region_slots cfg) \<le> ID_MAX"

definition bucket_slots :: "nat \<Rightarrow> BucketPlacement \<Rightarrow> bool" where
  "bucket_slots n p \<longleftrightarrow> all_ok 0 (unat (bp_next_region p)) (slot_ext p) \<and> unat (bp_next_region p) \<le> n"

text \<open>Fewer than \<open>2 ^ 61\<close> buckets, and a grant counter that is far from wrapping.\<close>

definition bucket_sane :: "BucketPlacement \<Rightarrow> bool" where
  "bucket_sane p \<longleftrightarrow> unat (bp_extent_grant_count p) \<le> 4611686018427387904 \<and> length (bp_states p) < 2305843009213693952"

definition bucket_good :: "HeapConfig \<Rightarrow> BucketPlacement \<Rightarrow> DataFile \<Rightarrow> bool" where
  "bucket_good cfg p df \<longleftrightarrow> bucket_core cfg p df \<and> bucket_slots (ID_MAX + unat (region_slots cfg)) p \<and> bucket_sane p"

definition bucket_owned :: "BucketPlacement \<Rightarrow> nat set" where
  "bucket_owned p = used_by (data_ext p)"

definition bucket_taken :: "BucketPlacement \<Rightarrow> nat set" where
  "bucket_taken p = used_by (slot_ext p)"

text \<open>What a grant leaves alone.\<close>

definition grant_frame :: "BucketPlacement \<Rightarrow> BucketPlacement \<Rightarrow> bool" where
  "grant_frame p p' \<longleftrightarrow> map bs_id (bp_states p') = map bs_id (bp_states p) \<and>
     map bs_slots (bp_states p') = map bs_slots (bp_states p) \<and>
     bp_bucket_indices p' = bp_bucket_indices p \<and> bp_next_region p' = bp_next_region p"

lemma grant_frameD:
  assumes "grant_frame p p'"
  shows "length (bp_states p') = length (bp_states p)" "slot_ext p' = slot_ext p"
    "bp_bucket_indices p' = bp_bucket_indices p" "bp_next_region p' = bp_next_region p"
  using assms map_eq_imp_length_eq by (auto simp: grant_frame_def extents_of_def)

lemma grant_frame_put_data: "i < length (bp_states p) \<Longrightarrow> grant_frame p (put_data p i es)"
  by (simp add: grant_frame_def put_data_def map_update list_update_same_conv)

lemma grant_frame_trans: "grant_frame a b \<Longrightarrow> grant_frame b d \<Longrightarrow> grant_frame a d"
  by (simp add: grant_frame_def)

section \<open>The grant loop\<close>

definition GRANT_MAX :: nat where
  "GRANT_MAX = 6917529027641081856"

lemma section_base_top:
  assumes "4611686018427387904 \<le> unat g" and "unat g < 9223372036854775808"
  shows "section_base g = 4611686018427387904"
proof -
  have "\<not> bit g 63" using assms(2) by (simp add: bit_63_iff)
  moreover have "bit g 62"
  proof -
    have "unat g div 4611686018427387904 = 1" using assms by (intro div_nat_eqI) simp_all
    then have "bit (unat g) 62" by (simp add: bit_iff_odd)
    then show ?thesis by (simp add: bit_unsigned_iff)
  qed
  moreover have "[0..<64] = 0 # Suc 0 # [2..<64]" by (simp add: upt_rec)
  ultimately have "leading_zeros g = 1" by (simp add: leading_zeros_def)
  then show ?thesis by (simp add: section_base_def)
qed

lemma victim_top:
  assumes "GRANT_MAX \<le> unat g" and "unat g < 9223372036854775808"
  shows "2305843009213693952 \<le> unat (g - section_base g)"
proof -
  have "section_base g = 4611686018427387904"
    using assms by (intro section_base_top) (simp_all add: GRANT_MAX_def)
  with assms(1) show ?thesis by (simp add: unat_sub_nowrap GRANT_MAX_def)
qed

lemma core_count:
  assumes "bucket_core cfg p df" and "c \<noteq> 0"
  shows "bucket_core cfg (p\<lparr>bp_extent_grant_count := c\<rparr>) df"
  using assms by (simp add: bucket_core_def)

lemma saturating_sub_le:
  assumes "n \<le> saturating_sub a b" and "0 < unat n"
  shows "unat n + unat b \<le> unat a"
  using assms by (auto simp: saturating_sub_def word_le_nat_alt word_less_nat_alt unat_sub_nowrap split: if_splits)

text \<open>What a grant gives: a fresh extent, and nothing that was used is lost.\<close>

definition grant_post :: "HeapConfig \<Rightarrow> BucketPlacement \<Rightarrow> DataFile \<Rightarrow> u64 \<Rightarrow> Extent \<Rightarrow> BucketPlacement \<Rightarrow> DataFile \<Rightarrow> bool" where
  "grant_post cfg p df need e p' df' \<longleftrightarrow>
     bucket_core cfg p' df' \<and> df_grow df df' \<and> grant_frame p p' \<and> bp_extent_grant_count p' \<noteq> 0 \<and>
     all_ok 4096 (unat (bp_file_size p')) (e # data_ext p') \<and> used_by (data_ext p') = used_by (data_ext p) \<and>
     ex_used e = 0 \<and> (bp_extent_grant_count p \<noteq> 0 \<longrightarrow> need \<le> ex_size e) \<and>
     unat (bp_extent_grant_count p') \<le> max (unat (bp_extent_grant_count p)) GRANT_MAX + 1"

lemma grant_first:
  assumes core: "bucket_core cfg p df" and ok: "pf_ok (df_paged_file df)" and g: "bp_extent_grant_count p = 0"
  shows "grant_post cfg p df need \<lparr>ex_start = PAGE_SIZE_U64, ex_size = bp_file_size p - PAGE_SIZE_U64, ex_used = 0\<rparr>
    (p\<lparr>bp_extent_grant_count := 1\<rparr>) df"
proof -
  have fs: "4096 \<le> unat (bp_file_size p)" using core by (simp add: bucket_core_def)
  then have "unat (bp_file_size p - 4096) = unat (bp_file_size p) - 4096" by (subst unat_sub_nowrap) simp_all
  moreover have "data_ext p = []" using core g by (simp add: bucket_core_def)
  ultimately show ?thesis
    using core_count [OF core, of 1] df_grow_refl [OF ok] fs g
    by (simp add: grant_post_def grant_frame_def all_ok_def ex_ok_def PAGE_SIZE_U64_eq GRANT_MAX_def)
qed

lemma grant_grow:
  assumes core: "bucket_core cfg p df" and ok: "pf_ok (df_paged_file df)" and c: "c \<noteq> 0"
    and cb: "unat c \<le> max (unat (bp_extent_grant_count p)) GRANT_MAX + 1"
    and need: "unat need \<le> OFF_MAX"
    and e: "PagedFile_ensure_alloc (df_paged_file df) (bp_file_size p + max need (growth cfg)) (max need (growth cfg)) = (Inr u, pf)"
  shows "grant_post cfg p df need \<lparr>ex_start = bp_file_size p, ex_size = max need (growth cfg), ex_used = 0\<rparr>
    (p\<lparr>bp_extent_grant_count := c, bp_file_size := bp_file_size p + max need (growth cfg)\<rparr>) (df\<lparr>df_paged_file := pf\<rparr>)"
proof -
  let ?grow = "max need (growth cfg)" and ?fs = "bp_file_size p"
  have b: "pf_room (df_paged_file df)" "4096 \<le> unat ?fs" "unat ?fs \<le> OFF_MAX" "unat ?grow \<le> OFF_MAX"
    "all_ok 4096 (unat ?fs) (data_ext p)"
    using core need by (auto simp: bucket_core_def pf_room_def)
  have sum: "unat (?fs + ?grow) = unat ?fs + unat ?grow" using b(3,4) by (intro unat_add_nowrap) (simp del: unat_max)
  have al: "pf_room pf" "unat ?fs + unat ?grow \<le> unat (allocated_end pf)"
    using ensure_alloc_bound [OF e b(1) _ b(4), unfolded sum] b(3,4) by linarith+
  have "all_ok 4096 (unat ?fs + unat ?grow) (data_ext p)" using b(5) by (rule ex_ok_mono) simp
  moreover have "\<forall>x \<in> set (data_ext p). unat (ex_start x) + unat (ex_size x) \<le> unat ?fs"
    using b(5) by (auto simp: all_ok_def ex_ok_def)
  ultimately have "all_ok 4096 (unat ?fs + unat ?grow) (\<lparr>ex_start = ?fs, ex_size = ?grow, ex_used = 0\<rparr> # data_ext p)"
    using b(2) by (auto simp: all_ok_Cons ex_ok_def ex_apart_def)
  moreover have "bucket_core cfg (p\<lparr>bp_extent_grant_count := c, bp_file_size := ?fs + ?grow\<rparr>) (df\<lparr>df_paged_file := pf\<rparr>)"
    using core al b c \<open>all_ok 4096 (unat ?fs + unat ?grow) (data_ext p)\<close> by (simp add: bucket_core_def sum)
  ultimately show ?thesis
    using df_grow_ensure_alloc [OF e ok] c cb by (simp add: grant_post_def grant_frame_def sum)
qed

lemma grant_split:
  assumes core: "bucket_core cfg p df" and ok: "pf_ok (df_paged_file df)" and c: "c \<noteq> 0"
    and cb: "unat c \<le> max (unat (bp_extent_grant_count p)) GRANT_MAX + 1"
    and i: "i < length (bp_states p)" and ne: "bs_data (bp_states p ! i) \<noteq> []"
    and cut: "unat n \<le> unat (ex_size v) - unat (ex_used v)" "need \<le> n"
    and v: "v = last (bs_data (bp_states p ! i))" and v': "v' = v\<lparr>ex_size := ex_size v - n\<rparr>"
  shows "grant_post cfg p df need \<lparr>ex_start = ex_start v' + ex_size v', ex_size = n, ex_used = 0\<rparr>
    (put_data (p\<lparr>bp_extent_grant_count := c\<rparr>) i (set_last (bs_data (bp_states p ! i)) v')) df"
proof -
  let ?p' = "put_data (p\<lparr>bp_extent_grant_count := c\<rparr>) i (set_last (bs_data (bp_states p ! i)) v')"
  let ?e = "\<lparr>ex_start = ex_start v' + ex_size v', ex_size = n, ex_used = 0\<rparr>"
  obtain rest where r: "mset (data_ext p) = mset (bs_data (bp_states p ! i) @ rest)"
    "\<And>s. mset (extents_of bs_data ((bp_states p)[i := s])) = mset (bs_data s @ rest)"
    using extents_of_update [OF i] by metis
  let ?rest = "butlast (bs_data (bp_states p ! i)) @ rest"
  have split: "bs_data (bp_states p ! i) = butlast (bs_data (bp_states p ! i)) @ [v]"
    using ne by (simp add: v)
  have m: "mset (data_ext p) = mset (v # ?rest)"
    unfolding r(1) by (subst split) simp
  have m': "mset (data_ext ?p') = mset (v' # ?rest)"
    unfolding put_data_def set_last_def using r(2) by simp
  have "all_ok 4096 (unat (bp_file_size p)) (v # ?rest)" and fs: "unat (bp_file_size p) \<le> 2 * OFF_MAX"
    using core all_ok_mset [OF m] by (auto simp: bucket_core_def pf_room_def)
  note cutting = all_ok_cut [OF this(1) cut(1) fs, folded v']
  have all: "all_ok 4096 (unat (bp_file_size p)) (?e # data_ext ?p')"
    using cutting(1) all_ok_mset [of "?e # data_ext ?p'" "?e # v' # ?rest"] m' by simp
  have used: "used_by (data_ext ?p') = used_by (data_ext p)"
    using cutting(2) used_by_mset [OF m] used_by_mset [OF m'] by simp
  have frame: "grant_frame p ?p'" using i grant_frame_put_data [of i "p\<lparr>bp_extent_grant_count := c\<rparr>"] by (simp add: grant_frame_def)
  have "bucket_core cfg ?p' df"
    using core all c grant_frameD [OF frame] unfolding bucket_core_def by (simp add: put_data_def all_ok_Cons)
  with all used frame cut(2) c cb df_grow_refl [OF ok] show ?thesis
    by (simp add: grant_post_def put_data_def)
qed

text \<open>The extents offered by a bucket: what is free, or at least what is needed.\<close>

lemma split_amount:
  assumes core: "bucket_core cfg p df" and v: "v \<in> set (data_ext p)" and need: "0 < unat need"
    and free: "need \<le> saturating_sub (ex_size v) (page_up (ex_used v))"
  defines "n \<equiv> max (page_down (saturating_sub (ex_size v) (page_up (ex_used v)) div 2)) need"
  shows "unat n \<le> unat (ex_size v) - unat (ex_used v)" "need \<le> n"
proof -
  let ?f = "saturating_sub (ex_size v) (page_up (ex_used v))"
  have "unat (ex_used v) \<le> OFF_MAX"
    using core v by (auto simp: bucket_core_def all_ok_def ex_ok_def pf_room_def)
  then have "unat (ex_used v) \<le> unat (page_up (ex_used v))" by (intro page_up_ge) simp
  moreover have "unat ?f + unat (page_up (ex_used v)) \<le> unat (ex_size v)"
    using free need by (intro saturating_sub_le) (auto simp: word_le_nat_alt)
  moreover have "unat (page_down (?f div 2)) \<le> unat ?f"
    by (simp add: unat_div_distrib)
  ultimately show "unat n \<le> unat (ex_size v) - unat (ex_used v)"
    using free unfolding n_def unat_max word_le_nat_alt by linarith
  show "need \<le> n" by (simp add: n_def)
qed

lemma grant_loop_Inr:
  assumes "grant_loop cfg p df need = (Inr e, p', df')" and "bucket_core cfg p df" and "pf_ok (df_paged_file df)"
    and "0 < unat need" "unat need \<le> OFF_MAX"
    and "unat (bp_extent_grant_count p) < 9223372036854775808" and "length (bp_states p) \<le> 2305843009213693952"
  shows "grant_post cfg p df need e p' df'"
  using assms
proof (induction "GRANT_MAX - unat (bp_extent_grant_count p)" arbitrary: p rule: less_induct)
  case less
  let ?g = "bp_extent_grant_count p"
  let ?p = "p\<lparr>bp_extent_grant_count := ?g + 1\<rparr>" and ?i = "unat (?g - section_base ?g)"
  let ?v = "last (bs_data (bp_states p ! ?i))"
  let ?free = "saturating_sub (ex_size ?v) (page_up (ex_used ?v))"
  have g1: "unat (?g + 1) = unat ?g + 1" using less.prems(6) by (subst unat_add_nowrap) simp_all
  then have c: "?g + 1 \<noteq> 0" by (metis add_is_0 one_neq_zero unat_0)
  have cb: "unat (?g + 1) \<le> max (unat ?g) GRANT_MAX + 1" using g1 by simp
  note unfold = less.prems(1) [unfolded grant_loop.simps [of cfg p df need] Let_def]
  consider (first) "?g = 0" | (grow) "?g \<noteq> 0" "length (bp_states p) \<le> ?i"
    | (attempt) "?g \<noteq> 0" "?i < length (bp_states p)" by linarith
  then show ?case
  proof cases
    case first
    then show ?thesis using unfold grant_first [OF less.prems(2,3) first] by simp
  next
    case grow
    then obtain u pf where "PagedFile_ensure_alloc (df_paged_file df) (bp_file_size p + max need (growth cfg)) (max need (growth cfg)) = (Inr u, pf)"
      using unfold by (auto split: prod.splits sum.splits)
    from grant_grow [OF less.prems(2,3) c cb less.prems(5) this] grow unfold this show ?thesis by simp
  next
    case attempt
    then have ne: "bs_data (bp_states p ! ?i) \<noteq> []" using unfold by auto
    have v: "?v \<in> set (data_ext p)"
      unfolding extents_of_def using last_in_set [OF ne] nth_mem [OF attempt(2)] by (auto simp del: nth_mem)
    show ?thesis
    proof (cases "need \<le> ?free")
      case True
      note amount = split_amount [OF less.prems(2) v less.prems(4) True]
      show ?thesis
        using unfold attempt ne True grant_split [OF less.prems(2,3) c cb attempt(2) ne amount refl refl] by simp
    next
      case False
      have le: "unat ?g < GRANT_MAX"
      proof (rule ccontr)
        assume "\<not> unat ?g < GRANT_MAX"
        then have "2305843009213693952 \<le> ?i" by (intro victim_top [OF _ less.prems(6)]) simp
        with attempt(2) less.prems(7) show False by linarith
      qed
      have "grant_post cfg ?p df need e p' df'"
        using unfold attempt ne False le g1 less.prems core_count [OF less.prems(2) c]
        by (intro less.hyps) (simp_all add: GRANT_MAX_def)
      with attempt(1) c le g1 show ?thesis by (simp add: grant_post_def grant_frame_def)
    qed
  qed
qed

section \<open>Placing bytes\<close>

lemma push_row_Inr:
  assumes "BucketPlacement_push_row D io p df reg row = (Inr u, io', p', df', reg')"
  shows "p' = p\<lparr>bp_registry_end := bp_registry_end p + of_nat REGISTRY_ROW_SIZE\<rparr> \<and> df' = df"
  using assms by (auto simp: BucketPlacement_push_row_def Let_def split: prod.splits sum.splits)

lemma core_registry_end [simp]: "bucket_core cfg (p\<lparr>bp_registry_end := r\<rparr>) df = bucket_core cfg p df"
  by (simp add: bucket_core_def)

text \<open>The extents with the list of one bucket extended, or its last element replaced.\<close>

lemma put_data_mset:
  assumes "i < length (bp_states p)"
  shows "mset (data_ext (put_data p i (bs_data (bp_states p ! i) @ [e]))) = mset (e # data_ext p)"
    and "bs_data (bp_states p ! i) \<noteq> [] \<Longrightarrow> \<exists>rest. mset (data_ext p) = mset (last (bs_data (bp_states p ! i)) # rest) \<and>
      (\<forall>e. mset (data_ext (put_data p i (set_last (bs_data (bp_states p ! i)) e))) = mset (e # rest))"
proof -
  obtain rest where r: "mset (data_ext p) = mset (bs_data (bp_states p ! i) @ rest)"
    "\<And>s. mset (extents_of bs_data ((bp_states p)[i := s])) = mset (bs_data s @ rest)"
    using extents_of_update [OF assms] by metis
  show "mset (data_ext (put_data p i (bs_data (bp_states p ! i) @ [e]))) = mset (e # data_ext p)"
    using r by (simp add: put_data_def)
  assume ne: "bs_data (bp_states p ! i) \<noteq> []"
  have "mset (data_ext p) = mset (last (bs_data (bp_states p ! i)) # (butlast (bs_data (bp_states p ! i)) @ rest))"
    unfolding r(1) by (subst append_butlast_last_id [OF ne, symmetric]) simp
  moreover have "mset (data_ext (put_data p i (set_last (bs_data (bp_states p ! i)) e))) =
      mset (e # (butlast (bs_data (bp_states p ! i)) @ rest))" for e
    using r(2) by (simp add: put_data_def set_last_def)
  ultimately show "\<exists>rest. mset (data_ext p) = mset (last (bs_data (bp_states p ! i)) # rest) \<and>
      (\<forall>e. mset (data_ext (put_data p i (set_last (bs_data (bp_states p ! i)) e))) = mset (e # rest))"
    by blast
qed

lemma core_put_data:
  assumes core: "bucket_core cfg p df" and i: "i < length (bp_states p)"
    and all: "all_ok 4096 (unat (bp_file_size p)) (data_ext (put_data p i es))" and g: "bp_extent_grant_count p \<noteq> 0"
  shows "bucket_core cfg (put_data p i es) df"
  using core all g grant_frameD [OF grant_frame_put_data [OF i, of es]]
  unfolding bucket_core_def by (simp add: put_data_def)

lemma grant_extent_Inr:
  assumes g: "BucketPlacement_grant_extent D io cfg p df reg i need = (Inr u, io', p', df', reg')"
    and core: "bucket_core cfg p df" and ok: "pf_ok (df_paged_file df)" and need: "0 < unat need" "unat need \<le> OFF_MAX"
    and count: "unat (bp_extent_grant_count p) < 9223372036854775808" "length (bp_states p) \<le> 2305843009213693952"
    and i: "i < length (bp_states p)"
  shows "bucket_core cfg p' df' \<and> df_grow df df' \<and> grant_frame p p' \<and> bp_extent_grant_count p' \<noteq> 0 \<and>
    used_by (data_ext p') = used_by (data_ext p) \<and> bs_data (bp_states p' ! i) \<noteq> [] \<and>
    ex_used (last (bs_data (bp_states p' ! i))) = 0 \<and>
    (bp_extent_grant_count p \<noteq> 0 \<longrightarrow> need \<le> ex_size (last (bs_data (bp_states p' ! i)))) \<and>
    unat (bp_extent_grant_count p') \<le> max (unat (bp_extent_grant_count p)) GRANT_MAX + 1"
proof -
  obtain e p1 df1 io2 p2 df2 reg2 row where l: "grant_loop cfg p df need = (Inr e, p1, df1)"
    and pr: "BucketPlacement_push_row D io p1 df1 reg row = (Inr (), io2, p2, df2, reg2)"
    and res: "p' = put_data p2 i (bs_data (bp_states p2 ! i) @ [e])" "df' = df2"
    using g by (auto simp: BucketPlacement_grant_extent_def Let_def split: prod.splits sum.splits elim!: and_then_Inr)
  have post: "grant_post cfg p df need e p1 df1" by (rule grant_loop_Inr [OF l core ok need count])
  have p2: "p2 = p1\<lparr>bp_registry_end := bp_registry_end p1 + of_nat REGISTRY_ROW_SIZE\<rparr>" "df2 = df1"
    using push_row_Inr [OF pr] by simp_all
  then have frame2: "grant_frame p p2" and i2: "i < length (bp_states p2)"
    using post i grant_frameD(1) [of p p1] by (auto simp: grant_post_def grant_frame_def)
  have m: "mset (data_ext p') = mset (e # data_ext p1)"
    using put_data_mset(1) [OF i2] by (simp add: res p2)
  have "all_ok 4096 (unat (bp_file_size p1)) (data_ext p')"
    using post all_ok_mset [OF m] by (simp add: grant_post_def)
  then have core': "bucket_core cfg p' df'"
    unfolding res(2) unfolding res(1) using post i2 p2 by (intro core_put_data) (simp_all add: grant_post_def)
  have "used_by (data_ext p') = used_by (data_ext p)"
    using used_by_mset [OF m] post by (simp add: used_by_Cons grant_post_def)
  moreover have "bs_data (bp_states p' ! i) = bs_data (bp_states p2 ! i) @ [e]" using i2 by (simp add: res(1) put_data_def)
  moreover have "grant_frame p p'" using frame2 grant_frame_put_data [OF i2] by (auto simp: res(1) intro: grant_frame_trans)
  moreover have "bp_extent_grant_count p' = bp_extent_grant_count p1" by (simp add: res(1) put_data_def p2)
  ultimately show ?thesis using core' post p2(2) res(2) by (simp add: grant_post_def)
qed

lemma required_extent_bounds:
  assumes "unat total_len \<le> OFF_MAX" and "0 < unat total_len" and "bucket_core cfg p df"
  shows "unat total_len \<le> unat (required_extent_size cfg total_len)" "0 < unat (required_extent_size cfg total_len)"
    "unat (required_extent_size cfg total_len) \<le> OFF_MAX"
proof -
  have up: "unat (page_up total_len) = (unat total_len + 4095) div 4096 * 4096"
    using assms(1) by (intro unat_page_up) simp
  have "(unat total_len + 4095) div 4096 \<le> (OFF_MAX + 4095) div 4096" using assms(1) by (intro div_le_mono) simp
  then have le: "unat (page_up total_len) \<le> OFF_MAX" unfolding up by simp
  have ge: "unat total_len \<le> unat (page_up total_len)" using assms(1) by (intro page_up_ge) simp
  from ge assms(2) show "unat total_len \<le> unat (required_extent_size cfg total_len)" "0 < unat (required_extent_size cfg total_len)"
    unfolding required_extent_size_def unat_max by linarith+
  show "unat (required_extent_size cfg total_len) \<le> OFF_MAX"
    using le assms(3) by (simp add: required_extent_size_def bucket_core_def)
qed

text \<open>Bytes taken from the last extent of a bucket.\<close>

lemma use_last:
  assumes core: "bucket_core cfg p df" and i: "i < length (bp_states p)" and ne: "bs_data (bp_states p ! i) \<noteq> []"
    and e: "e = last (bs_data (bp_states p ! i))" and n: "unat (ex_used e) + unat n \<le> unat (ex_size e)"
    and p': "p' = put_data p i (set_last (bs_data (bp_states p ! i)) (e\<lparr>ex_used := ex_used e + n\<rparr>))"
  shows "bucket_core cfg p' df \<and> grant_frame p p' \<and> bp_extent_grant_count p' = bp_extent_grant_count p \<and>
    4096 \<le> unat (ex_start e + ex_used e) \<and> unat (ex_start e + ex_used e) + unat n \<le> OFF_MAX \<and>
    span (ex_start e + ex_used e) n \<inter> used_by (data_ext p) = {} \<and>
    used_by (data_ext p') = used_by (data_ext p) \<union> span (ex_start e + ex_used e) n"
proof -
  obtain rest where m: "mset (data_ext p) = mset (e # rest)"
    and m': "mset (data_ext p') = mset (e\<lparr>ex_used := ex_used e + n\<rparr> # rest)"
    using put_data_mset(2) [OF i ne] e p' by metis
  have "data_ext p \<noteq> []" using m by (metis list.distinct(1) mset_zero_iff)
  then have g: "bp_extent_grant_count p \<noteq> 0" using core by (auto simp: bucket_core_def)
  have all: "all_ok 4096 (unat (bp_file_size p)) (e # rest)" and fs: "unat (bp_file_size p) \<le> OFF_MAX"
    using core all_ok_mset [OF m] by (auto simp: bucket_core_def pf_room_def)
  then have "unat (bp_file_size p) \<le> 2 * OFF_MAX" by linarith
  note u = all_ok_use [OF all n this]
  have "bucket_core cfg p' df"
    unfolding p' using u(1) all_ok_mset [OF m'] g by (intro core_put_data [OF core i]) (simp_all add: p')
  moreover have "grant_frame p p'" unfolding p' by (rule grant_frame_put_data [OF i])
  moreover have "bp_extent_grant_count p' = bp_extent_grant_count p" by (simp add: p' put_data_def)
  ultimately show ?thesis
    using u(2-5) fs used_by_mset [OF m] used_by_mset [OF m'] by simp
qed

lemma place_bytes_Inr:
  assumes b: "BucketPlacement_place_bytes D io cfg p df reg i total_len = (Inr off, io', p', df', reg')"
    and core: "bucket_core cfg p df" and ok: "pf_ok (df_paged_file df)"
    and total_len: "0 < unat total_len" "unat total_len \<le> OFF_MAX"
    and count: "unat (bp_extent_grant_count p) < 9223372036854775808" "length (bp_states p) \<le> 2305843009213693952"
    and i: "i < length (bp_states p)"
  shows "bucket_core cfg p' df' \<and> df_grow df df' \<and> grant_frame p p' \<and>
    4096 \<le> unat off \<and> unat off + unat total_len \<le> OFF_MAX \<and> span off total_len \<inter> used_by (data_ext p) = {} \<and>
    used_by (data_ext p') = used_by (data_ext p) \<union> span off total_len"
proof -
  let ?es = "bs_data (bp_states p ! i)" and ?need = "required_extent_size cfg total_len"
  have ne: "?es \<noteq> []" using b by (auto simp: BucketPlacement_place_bytes_def)
  have mem: "last ?es \<in> set (data_ext p)"
    unfolding extents_of_def using last_in_set [OF ne] nth_mem [OF i] by (auto simp del: nth_mem)
  then have e: "unat (ex_used (last ?es)) \<le> OFF_MAX" and g: "bp_extent_grant_count p \<noteq> 0"
    using core by (auto simp: bucket_core_def all_ok_def ex_ok_def pf_room_def)
  have sum: "unat (ex_used (last ?es) + total_len) = unat (ex_used (last ?es)) + unat total_len"
    using e total_len(2) by (intro unat_add_nowrap) simp
  show ?thesis
  proof (cases "ex_used (last ?es) + total_len \<le> ex_size (last ?es)")
    case True
    then have "unat (ex_used (last ?es)) + unat total_len \<le> unat (ex_size (last ?es))"
      using sum by (simp add: word_le_nat_alt)
    from use_last [OF core i ne refl this refl] b True ne df_grow_refl [OF ok] show ?thesis
      by (auto simp: BucketPlacement_place_bytes_def Let_def)
  next
    case False
    then obtain io1 p1 df1 reg1 where ge: "BucketPlacement_grant_extent D io cfg p df reg i ?need = (Inr (), io1, p1, df1, reg1)"
      and res: "off = ex_start (last (bs_data (bp_states p1 ! i)))" "df' = df1"
        "p' = put_data p1 i (set_last (bs_data (bp_states p1 ! i)) ((last (bs_data (bp_states p1 ! i)))\<lparr>ex_used := total_len\<rparr>))"
      using b ne by (auto simp: BucketPlacement_place_bytes_def Let_def elim!: and_then_Inr)
    note need = required_extent_bounds [OF total_len(2,1) core]
    note gr = grant_extent_Inr [OF ge core ok need(2,3) count i]
    let ?e = "last (bs_data (bp_states p1 ! i))"
    have size: "unat (ex_used ?e) + unat total_len \<le> unat (ex_size ?e)" and zero: "ex_used ?e = 0"
      using gr g need(1) by (auto simp: word_le_nat_alt)
    have i1: "i < length (bp_states p1)" using gr i grant_frameD(1) by metis
    have p': "p' = put_data p1 i (set_last (bs_data (bp_states p1 ! i)) (?e\<lparr>ex_used := ex_used ?e + total_len\<rparr>))"
      by (simp add: res(3) zero)
    from gr use_last [OF _ i1 _ refl size p'] zero res(1,2) show ?thesis
      by (auto intro: grant_frame_trans)
  qed
qed

section \<open>Placing identifiers\<close>

text \<open>What a grant of identifiers leaves alone.\<close>

definition region_frame :: "BucketPlacement \<Rightarrow> BucketPlacement \<Rightarrow> bool" where
  "region_frame p p' \<longleftrightarrow> map bs_id (bp_states p') = map bs_id (bp_states p) \<and>
     map bs_data (bp_states p') = map bs_data (bp_states p) \<and> bp_bucket_indices p' = bp_bucket_indices p \<and>
     bp_extent_grant_count p' = bp_extent_grant_count p \<and> bp_file_size p' = bp_file_size p"

lemma region_frameD:
  assumes "region_frame p p'"
  shows "length (bp_states p') = length (bp_states p)" "data_ext p' = data_ext p"
    "bucket_core cfg p' df = bucket_core cfg p df" "bp_extent_grant_count p' = bp_extent_grant_count p"
proof -
  show l: "length (bp_states p') = length (bp_states p)" and d: "data_ext p' = data_ext p"
    "bp_extent_grant_count p' = bp_extent_grant_count p"
    using assms map_eq_imp_length_eq by (auto simp: region_frame_def extents_of_def)
  show "bucket_core cfg p' df = bucket_core cfg p df"
    using assms l d by (simp add: bucket_core_def region_frame_def)
qed

lemma region_frame_put_slots: "i < length (bp_states p) \<Longrightarrow> region_frame p (put_slots p i es)"
  by (simp add: region_frame_def put_slots_def map_update list_update_same_conv)

lemma region_frame_trans: "region_frame a b \<Longrightarrow> region_frame b d \<Longrightarrow> region_frame a d"
  by (simp add: region_frame_def)

lemma put_slots_mset:
  assumes "i < length (bp_states p)"
  shows "mset (slot_ext (put_slots p i (bs_slots (bp_states p ! i) @ [e]))) = mset (e # slot_ext p)"
    and "bs_slots (bp_states p ! i) \<noteq> [] \<Longrightarrow> \<exists>rest. mset (slot_ext p) = mset (last (bs_slots (bp_states p ! i)) # rest) \<and>
      (\<forall>e. mset (slot_ext (put_slots p i (set_last (bs_slots (bp_states p ! i)) e))) = mset (e # rest))"
proof -
  obtain rest where r: "mset (slot_ext p) = mset (bs_slots (bp_states p ! i) @ rest)"
    "\<And>s. mset (extents_of bs_slots ((bp_states p)[i := s])) = mset (bs_slots s @ rest)"
    using extents_of_update [OF assms] by metis
  show "mset (slot_ext (put_slots p i (bs_slots (bp_states p ! i) @ [e]))) = mset (e # slot_ext p)"
    using r by (simp add: put_slots_def)
  assume ne: "bs_slots (bp_states p ! i) \<noteq> []"
  have "mset (slot_ext p) = mset (last (bs_slots (bp_states p ! i)) # (butlast (bs_slots (bp_states p ! i)) @ rest))"
    unfolding r(1) by (subst append_butlast_last_id [OF ne, symmetric]) simp
  moreover have "mset (slot_ext (put_slots p i (set_last (bs_slots (bp_states p ! i)) e))) =
      mset (e # (butlast (bs_slots (bp_states p ! i)) @ rest))" for e
    using r(2) by (simp add: put_slots_def set_last_def)
  ultimately show "\<exists>rest. mset (slot_ext p) = mset (last (bs_slots (bp_states p ! i)) # rest) \<and>
      (\<forall>e. mset (slot_ext (put_slots p i (set_last (bs_slots (bp_states p ! i)) e))) = mset (e # rest))"
    by blast
qed

lemma grant_region_Inr:
  assumes g: "BucketPlacement_grant_region D io cfg p df reg i = (Inr u, io', p', df', reg')"
    and s: "bucket_slots (2 * OFF_MAX) p" and n: "unat (bp_next_region p) + unat (region_slots cfg) \<le> 2 * OFF_MAX"
    and i: "i < length (bp_states p)"
  shows "df' = df \<and> region_frame p p' \<and> bucket_slots (2 * OFF_MAX) p' \<and> used_by (slot_ext p') = used_by (slot_ext p) \<and>
    bs_slots (bp_states p' ! i) = bs_slots (bp_states p ! i) @
      [\<lparr>ex_start = bp_next_region p, ex_size = region_slots cfg, ex_used = 0\<rparr>] \<and>
    unat (bp_next_region p') = unat (bp_next_region p) + unat (region_slots cfg)"
proof -
  let ?r = "\<lparr>ex_start = bp_next_region p, ex_size = region_slots cfg, ex_used = 0\<rparr>"
  let ?p1 = "p\<lparr>bp_next_region := bp_next_region p + region_slots cfg\<rparr>"
  obtain io2 p2 df2 reg2 row where pr: "BucketPlacement_push_row D io ?p1 df reg row = (Inr (), io2, p2, df2, reg2)"
    and res: "p' = put_slots p2 i (bs_slots (bp_states p2 ! i) @ [?r])" "df' = df2"
    using g by (auto simp: BucketPlacement_grant_region_def Let_def elim!: and_then_Inr)
  have p2: "p2 = ?p1\<lparr>bp_registry_end := bp_registry_end p + of_nat REGISTRY_ROW_SIZE\<rparr>" "df2 = df"
    using push_row_Inr [OF pr] by simp_all
  have sum: "unat (bp_next_region p + region_slots cfg) = unat (bp_next_region p) + unat (region_slots cfg)"
    using n by (intro unat_add_nowrap) simp
  have i2: "i < length (bp_states p2)" using i by (simp add: p2)
  have m: "mset (slot_ext p') = mset (?r # slot_ext p)" using put_slots_mset(1) [OF i2] by (simp add: res(1) p2(1))
  have all: "all_ok 0 (unat (bp_next_region p)) (slot_ext p)" using s by (simp add: bucket_slots_def)
  have "all_ok 0 (unat (bp_next_region p) + unat (region_slots cfg)) (?r # slot_ext p)"
    using all ex_ok_mono [OF all, of "unat (bp_next_region p) + unat (region_slots cfg)"]
    by (fastforce simp: all_ok_Cons all_ok_def ex_ok_def ex_apart_def)
  then have "bucket_slots (2 * OFF_MAX) p'"
    using all_ok_mset [OF m] n by (simp add: bucket_slots_def res(1) p2(1) put_slots_def sum)
  moreover have "used_by (slot_ext p') = used_by (slot_ext p)" using used_by_mset [OF m] by (simp add: used_by_Cons)
  moreover have "region_frame p p'"
    using region_frame_put_slots [OF i2] by (auto simp: res(1) p2(1) region_frame_def)
  moreover have "unat (bp_next_region p') = unat (bp_next_region p) + unat (region_slots cfg)"
    by (simp add: res(1) p2(1) put_slots_def sum)
  ultimately show ?thesis using i by (simp add: res p2 put_slots_def)
qed

lemma use_last_slot:
  assumes s: "bucket_slots (2 * OFF_MAX) p" and i: "i < length (bp_states p)" and ne: "bs_slots (bp_states p ! i) \<noteq> []"
    and e: "e = last (bs_slots (bp_states p ! i))" and n: "unat (ex_used e) < unat (ex_size e)"
    and p': "p' = put_slots p i (set_last (bs_slots (bp_states p ! i)) (e\<lparr>ex_used := ex_used e + 1\<rparr>))"
  shows "bucket_slots (2 * OFF_MAX) p' \<and> region_frame p p' \<and> bp_next_region p' = bp_next_region p \<and>
    unat (ex_start e + ex_used e) \<notin> used_by (slot_ext p) \<and>
    used_by (slot_ext p') = insert (unat (ex_start e + ex_used e)) (used_by (slot_ext p))"
proof -
  obtain rest where m: "mset (slot_ext p) = mset (e # rest)"
    and m': "mset (slot_ext p') = mset (e\<lparr>ex_used := ex_used e + 1\<rparr> # rest)"
    using put_slots_mset(2) [OF i ne] e p' by metis
  have all: "all_ok 0 (unat (bp_next_region p)) (e # rest)" and fs: "unat (bp_next_region p) \<le> 2 * OFF_MAX"
    using s all_ok_mset [OF m] by (auto simp: bucket_slots_def)
  have "unat (ex_used e) + unat (1 :: u64) \<le> unat (ex_size e)" using n by simp
  note u = all_ok_use [OF all this fs]
  have nr: "bp_next_region p' = bp_next_region p" by (simp add: p' put_slots_def)
  have "bucket_slots (2 * OFF_MAX) p'"
    using u(1) fs all_ok_mset [OF m'] by (simp add: bucket_slots_def nr)
  moreover have "region_frame p p'" unfolding p' by (rule region_frame_put_slots [OF i])
  moreover have "span (ex_start e + ex_used e) 1 = {unat (ex_start e + ex_used e)}" by auto
  ultimately show ?thesis
    using u(2,3) nr used_by_mset [OF m] used_by_mset [OF m'] by auto
qed

lemma place_id_Inr:
  assumes b: "BucketPlacement_place_id D io cfg p df reg i = (Inr rid, io', p', df', reg')"
    and s: "bucket_slots (2 * OFF_MAX) p" and n: "unat (bp_next_region p) + unat (region_slots cfg) \<le> 2 * OFF_MAX"
    and i: "i < length (bp_states p)" and rs: "0 < region_slots cfg"
  shows "df' = df \<and> region_frame p p' \<and> bucket_slots (2 * OFF_MAX) p' \<and> unat rid \<notin> used_by (slot_ext p) \<and>
    used_by (slot_ext p') = insert (unat rid) (used_by (slot_ext p)) \<and>
    (if bp_next_region p' = bp_next_region p
     then rid = ex_start (last (bs_slots (bp_states p ! i))) + ex_used (last (bs_slots (bp_states p ! i)))
     else rid = bp_next_region p \<and> unat (bp_next_region p') = unat (bp_next_region p) + unat (region_slots cfg))"
proof -
  let ?rs = "bs_slots (bp_states p ! i)"
  have ne: "?rs \<noteq> []" using b by (auto simp: BucketPlacement_place_id_def)
  show ?thesis
  proof (cases "ex_used (last ?rs) < ex_size (last ?rs)")
    case True
    then have "unat (ex_used (last ?rs)) < unat (ex_size (last ?rs))" by (simp add: word_less_nat_alt)
    from use_last_slot [OF s i ne refl this refl] b True ne show ?thesis
      by (auto simp: BucketPlacement_place_id_def Let_def)
  next
    case False
    then obtain io1 p1 df1 reg1 where gr: "BucketPlacement_grant_region D io cfg p df reg i = (Inr (), io1, p1, df1, reg1)"
      and res: "rid = ex_start (last (bs_slots (bp_states p1 ! i)))" "df' = df1"
        "p' = put_slots p1 i (set_last (bs_slots (bp_states p1 ! i)) ((last (bs_slots (bp_states p1 ! i)))\<lparr>ex_used := 1\<rparr>))"
      using b ne by (auto simp: BucketPlacement_place_id_def Let_def elim!: and_then_Inr)
    note g = grant_region_Inr [OF gr s n i]
    let ?e = "last (bs_slots (bp_states p1 ! i))"
    have e: "?e = \<lparr>ex_start = bp_next_region p, ex_size = region_slots cfg, ex_used = 0\<rparr>" using g by simp
    then have size: "unat (ex_used ?e) < unat (ex_size ?e)" using rs by (simp add: word_less_nat_alt)
    have i1: "i < length (bp_states p1)" using g i region_frameD(1) by metis
    have p': "p' = put_slots p1 i (set_last (bs_slots (bp_states p1 ! i)) (?e\<lparr>ex_used := ex_used ?e + 1\<rparr>))"
      by (simp add: res(3) e)
    have "bp_next_region p1 \<noteq> bp_next_region p" using g rs by (auto simp: word_less_nat_alt)
    with g use_last_slot [OF _ i1 _ refl size p'] res(1,2) e show ?thesis
      by (auto intro: region_frame_trans)
  qed
qed

section \<open>The contract\<close>

lemma nth_map_frame: "map f xs = map f (ys @ [y]) \<Longrightarrow> f (xs ! length ys) = f y"
  by (metis length_append_singleton length_map lessI nth_append_length nth_map)

text \<open>The bucket of an insertion, found or made.\<close>

lemma bucket_index_Inr:
  assumes b: "BucketPlacement_bucket_index D io cfg p df reg bucket need = (Inr i, io', p', df', reg')"
    and core: "bucket_core cfg p df" and ok: "pf_ok (df_paged_file df)" and need: "0 < unat need" "unat need \<le> OFF_MAX"
    and s: "bucket_slots (ID_MAX + unat (region_slots cfg)) p" and sane: "bucket_sane p"
  shows "bucket_core cfg p' df' \<and> df_grow df df' \<and> i < length (bp_states p') \<and> used_by (data_ext p') = used_by (data_ext p) \<and>
    bucket_slots (ID_MAX + 2 * unat (region_slots cfg)) p' \<and> used_by (slot_ext p') = used_by (slot_ext p) \<and>
    unat (bp_extent_grant_count p') \<le> GRANT_MAX + 1 \<and> length (bp_states p') \<le> Suc (length (bp_states p)) \<and>
    (p' = p \<or> unat (bp_next_region p') = unat (bp_next_region p) + unat (region_slots cfg) \<and>
       bs_slots (bp_states p' ! i) = [\<lparr>ex_start = bp_next_region p, ex_size = region_slots cfg, ex_used = 0\<rparr>])"
proof (cases "bp_bucket_indices p bucket")
  case (Some j)
  then have "p' = p" "df' = df" "i = j" using b by (simp_all add: BucketPlacement_bucket_index_def)
  then show ?thesis
    using Some core s sane df_grow_refl [OF ok] by (auto simp: bucket_core_def bucket_slots_def bucket_sane_def GRANT_MAX_def)
next
  case None
  let ?i = "length (bp_states p)"
  let ?p0 = "p\<lparr>bp_states := bp_states p @ [\<lparr>bs_id = bucket, bs_data = [], bs_slots = []\<rparr>],
    bp_bucket_indices := (bp_bucket_indices p)(bucket \<mapsto> ?i)\<rparr>"
  obtain io1 p1 df1 reg1 where g1: "BucketPlacement_grant_extent D io cfg ?p0 df reg ?i need = (Inr (), io1, p1, df1, reg1)"
    and g2: "BucketPlacement_grant_region D io1 cfg p1 df1 reg1 ?i = (Inr (), io', p', df', reg')" and i: "i = ?i"
    using b None by (auto simp: BucketPlacement_bucket_index_def Let_def elim!: and_then_Inr)
  have p0: "data_ext ?p0 = data_ext p" "slot_ext ?p0 = slot_ext p" by (simp_all add: extents_of_def)
  have core0: "bucket_core cfg ?p0 df" using core unfolding bucket_core_def p0 by (auto simp: less_SucI)
  have rsl: "unat (region_slots cfg) \<le> ID_MAX" using core by (simp add: bucket_core_def)
  have count: "unat (bp_extent_grant_count ?p0) < 9223372036854775808" "length (bp_states ?p0) \<le> 2305843009213693952"
    using sane by (simp_all add: bucket_sane_def)
  have "?i < length (bp_states ?p0)" by simp
  note e = grant_extent_Inr [OF g1 core0 ok need count this, unfolded p0]
  then have gf: "grant_frame ?p0 p1" by blast
  then have "map bs_slots (bp_states p1) = map bs_slots (bp_states p @ [\<lparr>bs_id = bucket, bs_data = [], bs_slots = []\<rparr>])"
    by (simp add: grant_frame_def)
  from nth_map_frame [OF this] have empty: "bs_slots (bp_states p1 ! ?i) = []" by simp
  have fr: "length (bp_states p1) = Suc ?i" "slot_ext p1 = slot_ext p" "bp_next_region p1 = bp_next_region p"
    using grant_frameD [OF gf] p0(2) by simp_all
  have s1: "bucket_slots (2 * OFF_MAX) p1" using s rsl by (simp add: bucket_slots_def fr)
  have n1: "unat (bp_next_region p1) + unat (region_slots cfg) \<le> 2 * OFF_MAX"
    using s rsl by (simp add: bucket_slots_def fr)
  have "?i < length (bp_states p1)" by (simp add: fr(1))
  note r = grant_region_Inr [OF g2 s1 n1 this, unfolded fr empty]
  have core': "bucket_core cfg p' df'" using e r region_frameD(3) by metis
  have "unat (bp_extent_grant_count p') \<le> GRANT_MAX + 1"
    using e r region_frameD(4) [of p1 p'] sane by (simp add: bucket_sane_def GRANT_MAX_def)
  moreover have "bucket_slots (ID_MAX + 2 * unat (region_slots cfg)) p'"
  proof -
    have "all_ok 0 (unat (bp_next_region p')) (slot_ext p')" using r unfolding bucket_slots_def by blast
    moreover have "unat (bp_next_region p') \<le> ID_MAX + 2 * unat (region_slots cfg)"
      using r s unfolding bucket_slots_def by linarith
    ultimately show ?thesis by (simp add: bucket_slots_def)
  qed
  moreover have "used_by (data_ext p') = used_by (data_ext p)" "i < length (bp_states p')" "length (bp_states p') \<le> Suc ?i"
    using e r region_frameD(1,2) [of p1 p'] fr(1) i by simp_all
  ultimately show ?thesis using e r core' i by simp
qed

lemma alloc_steps:
  assumes "BucketPlacement_alloc D io cfg p df reg bucket total_len = (Inr (off, rid), io', p', df', reg')"
  obtains r0 i io1 p1 df1 r1 io2 p2 df2 r2 r3 where
    "BucketPlacement_bucket_index D io cfg p df r0 bucket (required_extent_size cfg total_len) = (Inr i, io1, p1, df1, r1)"
    "BucketPlacement_place_bytes D io1 cfg p1 df1 r1 i total_len = (Inr off, io2, p2, df2, r2)"
    "BucketPlacement_place_id D io2 cfg p2 df2 r2 i = (Inr rid, io', p', df', r3)"
  using assms
  by (auto simp: BucketPlacement_alloc_def with_registry_def split: option.splits prod.splits elim!: and_then_Inr)

lemma bucket_alloc_Inr:
  assumes a: "BucketPlacement_alloc D io cfg p df reg bucket total_len = (Inr (off, rid), io', p', df', reg')"
    and good: "bucket_good cfg p df" and ok: "pf_ok (df_paged_file df)"
    and total_len: "0 < unat total_len" "unat total_len \<le> OFF_MAX" and rid: "unat rid < ID_MAX" and sane: "bucket_sane p'"
  shows "bucket_good cfg p' df' \<and> df_grow df df' \<and> 4096 \<le> unat off \<and> unat off + unat total_len \<le> OFF_MAX \<and>
    span off total_len \<inter> bucket_owned p = {} \<and> bucket_owned p' = bucket_owned p \<union> span off total_len \<and>
    unat rid \<notin> bucket_taken p \<and> bucket_taken p' = insert (unat rid) (bucket_taken p)"
proof -
  obtain r0 i io1 p1 df1 r1 io2 p2 df2 r2 r3 where
    s1: "BucketPlacement_bucket_index D io cfg p df r0 bucket (required_extent_size cfg total_len) = (Inr i, io1, p1, df1, r1)"
    and s2: "BucketPlacement_place_bytes D io1 cfg p1 df1 r1 i total_len = (Inr off, io2, p2, df2, r2)"
    and s3: "BucketPlacement_place_id D io2 cfg p2 df2 r2 i = (Inr rid, io', p', df', r3)"
    using a by (rule alloc_steps)
  have g: "bucket_core cfg p df" "bucket_slots (ID_MAX + unat (region_slots cfg)) p" "bucket_sane p"
    using good by (simp_all add: bucket_good_def)
  have rs: "0 < region_slots cfg" "unat (region_slots cfg) \<le> ID_MAX" using g(1) by (simp_all add: bucket_core_def)
  note need = required_extent_bounds [OF total_len(2,1) g(1)]
  note b1 = bucket_index_Inr [OF s1 g(1) ok need(2,3) g(2,3)]
  have len1: "length (bp_states p1) \<le> 2305843009213693952"
    using b1 g(3) by (auto simp: bucket_sane_def)
  have b2: "bucket_core cfg p2 df2 \<and> df_grow df1 df2 \<and> grant_frame p1 p2 \<and> 4096 \<le> unat off \<and> unat off + unat total_len \<le> OFF_MAX \<and>
      span off total_len \<inter> used_by (data_ext p1) = {} \<and> used_by (data_ext p2) = used_by (data_ext p1) \<union> span off total_len"
    using b1 len1 total_len by (intro place_bytes_Inr [OF s2]) (auto simp: GRANT_MAX_def dest: df_growD)
  note fr = grant_frameD [OF b2 [THEN conjunct2, THEN conjunct2, THEN conjunct1]]
  have slots2: "bucket_slots (2 * OFF_MAX) p2" "unat (bp_next_region p2) + unat (region_slots cfg) \<le> 2 * OFF_MAX"
    using b1 rs(2) by (auto simp: bucket_slots_def fr)
  have "i < length (bp_states p2)" using b1 fr(1) by simp
  note b3 = place_id_Inr [OF s3 slots2 this rs(1)]
  have core': "bucket_core cfg p' df'" using b2 b3 region_frameD(3) by metis
  have data: "data_ext p' = data_ext p2" using b3 region_frameD(2) by metis
  have "unat (bp_next_region p') \<le> ID_MAX + unat (region_slots cfg)"
  proof (cases "bp_next_region p' = bp_next_region p2")
    case False
    then show ?thesis using b3 rid fr(4) by (auto split: if_splits)
  next
    case True
    show ?thesis
    proof (cases "p1 = p")
      case True
      then show ?thesis using \<open>bp_next_region p' = bp_next_region p2\<close> fr(4) g(2) by (simp add: bucket_slots_def)
    next
      case False
      have "bs_slots (bp_states p2 ! i) = bs_slots (bp_states p1 ! i)"
        using b1 b2 fr(1) by (metis grant_frame_def nth_map)
      with False b1 b3 True have "rid = bp_next_region p" by (auto split: if_splits)
      with False b1 True rid fr(4) show ?thesis by auto
    qed
  qed
  moreover have "all_ok 0 (unat (bp_next_region p')) (slot_ext p')" using b3 by (simp add: bucket_slots_def)
  ultimately have "bucket_good cfg p' df'" using core' sane by (simp add: bucket_good_def bucket_slots_def)
  moreover have "df_grow df df'" using b1 b2 b3 by (auto intro: df_grow_trans)
  ultimately show ?thesis
    using b1 b2 b3 fr(2) by (simp add: bucket_owned_def bucket_taken_def data)
qed

lemma bucket_alloc_update_Inr:
  assumes a: "BucketPlacement_alloc_update D io cfg p df reg bucket total_len = (Inr off, io', p', df', reg')"
    and good: "bucket_good cfg p df" and ok: "pf_ok (df_paged_file df)"
    and total_len: "0 < unat total_len" "unat total_len \<le> OFF_MAX" and sane: "bucket_sane p'"
  shows "bucket_good cfg p' df' \<and> df_grow df df' \<and> 4096 \<le> unat off \<and> unat off + unat total_len \<le> OFF_MAX \<and>
    span off total_len \<inter> bucket_owned p = {} \<and> bucket_owned p' = bucket_owned p \<union> span off total_len \<and>
    bucket_taken p' = bucket_taken p"
proof -
  obtain r0 i r1 where i: "bp_bucket_indices p bucket = Some i"
    and s: "BucketPlacement_place_bytes D io cfg p df r0 i total_len = (Inr off, io', p', df', r1)"
    using a by (auto simp: BucketPlacement_alloc_update_def with_registry_def split: option.splits prod.splits)
  have g: "bucket_core cfg p df" "bucket_slots (ID_MAX + unat (region_slots cfg)) p" "bucket_sane p"
    using good by (simp_all add: bucket_good_def)
  have "i < length (bp_states p)" using i g(1) by (simp add: bucket_core_def)
  then have b: "bucket_core cfg p' df' \<and> df_grow df df' \<and> grant_frame p p' \<and> 4096 \<le> unat off \<and> unat off + unat total_len \<le> OFF_MAX \<and>
      span off total_len \<inter> used_by (data_ext p) = {} \<and> used_by (data_ext p') = used_by (data_ext p) \<union> span off total_len"
    using g(3) by (intro place_bytes_Inr [OF s g(1) ok total_len]) (simp_all add: bucket_sane_def)
  note fr = grant_frameD [OF b [THEN conjunct2, THEN conjunct2, THEN conjunct1]]
  from b g(2) sane show ?thesis
    by (simp add: bucket_good_def bucket_slots_def bucket_owned_def bucket_taken_def fr)
qed

text \<open>A bucket whose last extent and last region have space takes a record without any grant.\<close>

definition bucket_room :: "HeapConfig \<Rightarrow> BucketPlacement \<Rightarrow> DataFile \<Rightarrow> PagedFile option \<Rightarrow> u64 \<Rightarrow> u64 \<Rightarrow> bool" where
  "bucket_room cfg p df reg bucket total_len \<longleftrightarrow> reg \<noteq> None \<and>
     (case bp_bucket_indices p bucket of
        None \<Rightarrow> False
      | Some i \<Rightarrow>
          bs_data (bp_states p ! i) \<noteq> [] \<and> bs_slots (bp_states p ! i) \<noteq> [] \<and>
          (let e = last (bs_data (bp_states p ! i)); r = last (bs_slots (bp_states p ! i)) in
           ex_used e + total_len \<le> ex_size e \<and> ex_used r < ex_size r \<and> unat (ex_start r) + unat (ex_used r) < ID_MAX))"

lemma bucket_alloc_room:
  assumes good: "bucket_good cfg p df" and room: "bucket_room cfg p df reg bucket total_len"
  shows "\<exists>off rid p' df' reg'. BucketPlacement_alloc D io cfg p df reg bucket total_len = (Inr (off, rid), io, p', df', reg') \<and>
    unat rid < ID_MAX \<and> bucket_sane p'"
proof -
  obtain i r where i: "bp_bucket_indices p bucket = Some i" and r: "reg = Some r"
    using room by (auto simp: bucket_room_def split: option.splits)
  have len: "i < length (bp_states p)" using good i by (auto simp: bucket_good_def bucket_core_def)
  let ?e = "last (bs_data (bp_states p ! i))" and ?r = "last (bs_slots (bp_states p ! i))"
  have e: "bs_data (bp_states p ! i) \<noteq> []" "ex_used ?e + total_len \<le> ex_size ?e"
    and sl: "bs_slots (bp_states p ! i) \<noteq> []" "ex_used ?r < ex_size ?r" "unat (ex_start ?r) + unat (ex_used ?r) < ID_MAX"
    using room i by (simp_all add: bucket_room_def Let_def)
  let ?p1 = "put_data p i (set_last (bs_data (bp_states p ! i)) (?e\<lparr>ex_used := ex_used ?e + total_len\<rparr>))"
  have b: "BucketPlacement_place_bytes D io cfg p df r i total_len = (Inr (ex_start ?e + ex_used ?e), io, ?p1, df, r)"
    using e by (simp add: BucketPlacement_place_bytes_def Let_def)
  have s1: "bs_slots (bp_states ?p1 ! i) = bs_slots (bp_states p ! i)" using len by (simp add: put_data_def)
  let ?p2 = "put_slots ?p1 i (set_last (bs_slots (bp_states p ! i)) (?r\<lparr>ex_used := ex_used ?r + 1\<rparr>))"
  have d: "BucketPlacement_place_id D io cfg ?p1 df r i = (Inr (ex_start ?r + ex_used ?r), io, ?p2, df, r)"
    using sl by (simp add: BucketPlacement_place_id_def Let_def s1)
  have "BucketPlacement_alloc D io cfg p df reg bucket total_len =
      (Inr (ex_start ?e + ex_used ?e, ex_start ?r + ex_used ?r), io, ?p2, df, Some r)"
    by (simp add: BucketPlacement_alloc_def with_registry_def r BucketPlacement_bucket_index_def i b d)
  moreover have "unat (ex_start ?r + ex_used ?r) < ID_MAX"
    using sl(3) by (subst unat_add_nowrap) simp_all
  moreover have "bucket_sane ?p2"
    using good by (simp add: bucket_good_def bucket_sane_def put_data_def put_slots_def)
  ultimately show ?thesis by blast
qed

text \<open>A device without failures stays one.\<close>

definition device_stays :: "('io \<Rightarrow> bool) \<Rightarrow> ('io, 'a) granted \<Rightarrow> bool" where
  "device_stays ok x \<longleftrightarrow> ok (fst (snd x))"

lemma device_stays_simps [simp]: "device_stays ok (r, io, s) \<longleftrightarrow> ok io"
  by (simp add: device_stays_def)

lemma device_stays_and_then:
  "device_stays ok x \<Longrightarrow> (\<And>a io s. ok io \<Longrightarrow> device_stays ok (f a (io, s))) \<Longrightarrow> device_stays ok (and_then x f)"
  by (cases x) (auto simp: device_stays_def and_then_def split: sum.split)

context block_io
begin

lemma grants_stay:
  assumes "steady io"
  shows "device_stays steady (BucketPlacement_push_row D io p df reg row)"
    "device_stays steady (BucketPlacement_grant_extent D io cfg p df reg i need)"
    "device_stays steady (BucketPlacement_grant_region D io cfg p df reg i)"
proof -
  have row: "device_stays steady (BucketPlacement_push_row D io p df reg row)" for p df reg row
    using stage_steady [OF assms, of reg "bp_registry_end p" "[RegistryRow_encode row (replicate REGISTRY_ROW_SIZE 0)]"]
    by (auto simp: BucketPlacement_push_row_def Let_def)
  then show "device_stays steady (BucketPlacement_push_row D io p df reg row)" .
  show "device_stays steady (BucketPlacement_grant_extent D io cfg p df reg i need)"
    using assms by (auto simp: BucketPlacement_grant_extent_def Let_def intro!: device_stays_and_then row split: prod.split sum.split)
  show "device_stays steady (BucketPlacement_grant_region D io cfg p df reg i)"
    by (auto simp: BucketPlacement_grant_region_def Let_def intro!: device_stays_and_then row)
qed

lemma bucket_steps_stay:
  assumes "steady io"
  shows "device_stays steady (BucketPlacement_bucket_index D io cfg p df reg bucket need)"
    "device_stays steady (BucketPlacement_place_bytes D io cfg p df reg i total_len)"
    "device_stays steady (BucketPlacement_place_id D io cfg p df reg i)"
  using assms
  by (auto simp: BucketPlacement_bucket_index_def BucketPlacement_place_bytes_def BucketPlacement_place_id_def Let_def
      intro!: device_stays_and_then grants_stay split: option.split)

lemma bucket_alloc_stays:
  assumes "steady io"
  shows "BucketPlacement_alloc D io cfg p df reg bucket total_len = (r, io', p', df', reg') \<Longrightarrow> steady io'"
    "BucketPlacement_alloc_update D io cfg p df reg bucket total_len = (q, io', p', df', reg') \<Longrightarrow> steady io'"
proof -
  have "device_stays steady (and_then (BucketPlacement_bucket_index D io cfg p df r0 bucket (required_extent_size cfg total_len))
      (\<lambda>bucket_index (io, p, df, registry).
       and_then (BucketPlacement_place_bytes D io cfg p df registry bucket_index total_len)
         (\<lambda>offset (io, p, df, registry).
       and_then (BucketPlacement_place_id D io cfg p df registry bucket_index)
         (\<lambda>rid s. (Inr (offset, rid), s)))))" for r0
    using assms by (auto intro!: device_stays_and_then bucket_steps_stay)
  note stays = this
  show "steady io'" if a: "BucketPlacement_alloc D io cfg p df reg bucket total_len = (r, io', p', df', reg')"
  proof (cases reg)
    case None
    with a assms show ?thesis by (simp add: BucketPlacement_alloc_def with_registry_def)
  next
    case (Some r0)
    from a stays [of r0] show ?thesis by (auto simp: Some BucketPlacement_alloc_def with_registry_def split: prod.splits)
  qed
  show "steady io'" if a: "BucketPlacement_alloc_update D io cfg p df reg bucket total_len = (q, io', p', df', reg')"
  proof (cases "reg = None \<or> bp_bucket_indices p bucket = None")
    case True
    with a assms show ?thesis by (auto simp: BucketPlacement_alloc_update_def with_registry_def split: option.splits)
  next
    case False
    then obtain r0 i where "reg = Some r0" "bp_bucket_indices p bucket = Some i" by auto
    with a bucket_steps_stay(2) [OF assms, of cfg p df r0 i total_len] show ?thesis
      by (auto simp: BucketPlacement_alloc_update_def with_registry_def split: prod.splits)
  qed
qed

end

lemma bucket_placement_simps:
  "pl_alloc bucket_placement = BucketPlacement_alloc" "pl_update_alloc bucket_placement = BucketPlacement_alloc_update"
  by (simp_all add: bucket_placement_def)

text \<open>The contract holds on every device.\<close>

lemma bucket_placing:
  assumes "block_io D steady"
  shows "placing D steady bucket_placement bucket_good bucket_sane bucket_owned bucket_taken bucket_room"
proof (intro placing.intro placing_axioms.intro assms, unfold bucket_placement_simps, goal_cases)
  case 1
  then show ?case by (intro bucket_alloc_Inr)
next
  case 2
  then show ?case by (intro bucket_alloc_update_Inr)
next
  case 3
  then show ?case by (simp add: bucket_good_def bucket_core_def pf_room_def pf_extent_def)
next
  case 4
  then show ?case using bucket_alloc_room by metis
next
  case 5
  then show ?case by (rule block_io.bucket_alloc_stays(1) [OF assms])
next
  case 6
  then show ?case by (rule block_io.bucket_alloc_stays(2) [OF assms])
qed

interpretation bucketing: placing sync_block_io healthy bucket_placement bucket_good bucket_sane bucket_owned bucket_taken bucket_room
  by (rule bucket_placing [OF blocking.block_io_axioms])

section \<open>Grants that fail\<close>

text \<open>The case in which the loop goes round again.\<close>

definition grant_skips :: "BucketPlacement \<Rightarrow> u64 \<Rightarrow> bool" where
  "grant_skips p need \<longleftrightarrow>
     (let g = bp_extent_grant_count p; i = unat (g - section_base g); v = last (bs_data (bp_states p ! i)) in
      g \<noteq> 0 \<and> i < length (bp_states p) \<and> bs_data (bp_states p ! i) \<noteq> [] \<and>
      \<not> need \<le> saturating_sub (ex_size v) (page_up (ex_used v)))"

abbreviation next_grant :: "BucketPlacement \<Rightarrow> BucketPlacement" where
  "next_grant p \<equiv> p\<lparr>bp_extent_grant_count := bp_extent_grant_count p + 1\<rparr>"

lemma grant_loop_skip: "grant_skips p need \<Longrightarrow> grant_loop cfg p df need = grant_loop cfg (next_grant p) df need"
  by (simp add: grant_loop.simps [of cfg p df need] grant_skips_def Let_def)

lemma grant_induct:
  assumes "\<And>p. (grant_skips p need \<Longrightarrow> Q (next_grant p)) \<Longrightarrow> Q p"
  shows "Q p"
proof (induction "unat (- bp_extent_grant_count p)" arbitrary: p rule: less_induct)
  case less
  show ?case
  proof (rule assms)
    assume "grant_skips p need"
    then have "bp_extent_grant_count p \<noteq> 0" by (simp add: grant_skips_def Let_def)
    then show "Q (next_grant p)" by (intro less) (simp add: unat_neg_less)
  qed
qed

text \<open>A bucket without an extent is not given one by the loop itself.\<close>

lemma grant_loop_keeps_empty:
  "grant_loop cfg p df need = (r, p', df') \<Longrightarrow> i < length (bp_states p) \<Longrightarrow> bs_data (bp_states p ! i) = [] \<Longrightarrow>
     bs_data (bp_states p' ! i) = [] \<and> bp_bucket_indices p' = bp_bucket_indices p"
proof (induction p rule: grant_induct [of need])
  case (1 p)
  show ?case
  proof (cases "grant_skips p need")
    case True
    from "1.IH" [OF True] "1.prems" show ?thesis by (simp add: grant_loop_skip [OF True])
  next
    case False
    let ?j = "unat (bp_extent_grant_count p - section_base (bp_extent_grant_count p))"
    from False "1.prems" show ?thesis
      by (cases "?j = i") (auto simp: grant_skips_def grant_loop.simps [of cfg p df need] Let_def put_data_def
          split: if_splits prod.splits sum.splits)
  qed
qed

lemma grant_extent_Inl:
  assumes g: "BucketPlacement_grant_extent D io cfg p df reg i need = (Inl e, io', p', df', reg')"
    and i: "i < length (bp_states p)" "bs_data (bp_states p ! i) = []"
  shows "bs_data (bp_states p' ! i) = [] \<and> bp_bucket_indices p' = bp_bucket_indices p"
proof -
  obtain r p1 df1 where l: "grant_loop cfg p df need = (r, p1, df1)" by (metis prod_cases3)
  have "bp_states p' = bp_states p1 \<and> bp_bucket_indices p' = bp_bucket_indices p1"
    using g l by (auto simp: BucketPlacement_grant_extent_def BucketPlacement_push_row_def and_then_def Let_def
        split: sum.splits prod.splits)
  with grant_loop_keeps_empty [OF l i] show ?thesis by simp
qed

lemma alloc_empty_bucket:
  assumes "bp_bucket_indices p bucket = Some i" and "bs_data (bp_states p ! i) = []"
  shows "BucketPlacement_alloc D io cfg p df (Some reg) bucket total_len = (Inl (Panic ''bucket without extent''), io, p, df, Some reg)"
  using assms by (simp add: BucketPlacement_alloc_def with_registry_def BucketPlacement_bucket_index_def BucketPlacement_place_bytes_def)

section \<open>Properties\<close>

text \<open>A store with one bucket that owns the whole data file, for the witnesses.\<close>

definition example_bucket :: BucketPlacement where
  "example_bucket =
     \<lparr>bp_states = [\<lparr>bs_id = 5, bs_data = [\<lparr>ex_start = 4096, ex_size = 61440, ex_used = 0\<rparr>],
                    bs_slots = [\<lparr>ex_start = 0, ex_size = 4096, ex_used = 0\<rparr>]\<rparr>],
      bp_bucket_indices = [5 \<mapsto> 0], bp_extent_grant_count = 1, bp_file_size = 65536, bp_next_region = 4096,
      bp_registry_end = 4224\<rparr>"

lemma example_bucket_good: "bucket_good example_config example_bucket (example_store wb)"
  by (auto simp: bucket_good_def bucket_core_def bucket_slots_def bucket_sane_def example_bucket_def example_store_ok
      example_config_simps all_ok_def ex_ok_def extents_of_def split: if_splits)

lemma example_bucket_room: "bucket_room example_config example_bucket df (Some reg) 5 100"
  by (simp add: bucket_room_def example_bucket_def)

text \<open>
  C21: a successful allocation of bucket placement, whether it uses the bucket's extent, splits another
  bucket's or grows the file, keeps all extents and all regions disjoint; the bytes overlap nothing
  handed out before and the identifier was never handed out before.
\<close>

theorem bucket_alloc_fresh:
  assumes "bucket_good cfg p df" and "pf_ok (df_paged_file df)" and "0 < unat total_len" and "unat total_len \<le> OFF_MAX"
    and "BucketPlacement_alloc D io cfg p df reg bucket total_len = (Inr (off, rid), io', p', df', reg')"
    and "unat rid < ID_MAX" and "bucket_sane p'"
  shows "bucket_good cfg p' df' \<and> df_view df' = df_view df \<and> 4096 \<le> unat off \<and>
    span off total_len \<inter> bucket_owned p = {} \<and> bucket_owned p' = bucket_owned p \<union> span off total_len \<and>
    unat rid \<notin> bucket_taken p \<and> bucket_taken p' = insert (unat rid) (bucket_taken p)"
  using bucket_alloc_Inr [OF assms(5,1-4,6,7)] df_growD(2) by simp

theorem bucket_alloc_fresh_witness:
  "\<exists>off rid p' df' reg'. BucketPlacement_alloc sync_block_io SyncIo_new example_config example_bucket (example_store True) (Some example_pf) 5 100 =
       (Inr (off, rid), SyncIo_new, p', df', reg') \<and> bucket_owned p' = bucket_owned example_bucket \<union> span off 100"
proof -
  have room: "bucket_room example_config example_bucket (example_store True) (Some example_pf) 5 100" by (rule example_bucket_room)
  obtain off rid p' df' reg' where a: "BucketPlacement_alloc sync_block_io SyncIo_new example_config example_bucket (example_store True) (Some example_pf) 5 100 =
      (Inr (off, rid), SyncIo_new, p', df', reg')" and more: "unat rid < ID_MAX" "bucket_sane p'"
    using bucket_alloc_room [OF example_bucket_good room, of sync_block_io SyncIo_new] by blast
  have "0 < unat (100 :: u64)" "unat (100 :: u64) \<le> OFF_MAX" by simp_all
  from bucket_alloc_fresh [OF example_bucket_good example_store_ok(1) this a more] a show ?thesis by blast
qed

text \<open>
  C34: an extent that the grant loop grants lies in the file, has no used byte and overlaps no extent of
  any bucket, no used byte changes hands, and the extent is at least as long as was asked for, unless it
  is the very first grant, which takes the whole file as it is.
\<close>

theorem grant_extent_fresh:
  assumes "bucket_core cfg p df" and "pf_ok (df_paged_file df)" and "0 < unat need" and "unat need \<le> OFF_MAX" and "bucket_sane p"
    and "grant_loop cfg p df need = (Inr e, p', df')"
  shows "all_ok 4096 (unat (bp_file_size p')) (e # data_ext p') \<and> ex_used e = 0 \<and>
    (bp_extent_grant_count p \<noteq> 0 \<longrightarrow> need \<le> ex_size e) \<and> used_by (data_ext p') = used_by (data_ext p) \<and>
    unat (bp_file_size p') \<le> unat (allocated_end (df_paged_file df'))"
  using grant_loop_Inr [OF assms(6,1-4)] assms(5) by (simp add: grant_post_def bucket_sane_def bucket_core_def)

theorem grant_extent_fresh_witness:
  "\<exists>e p' df'. grant_loop example_config example_bucket (example_store True) 8192 = (Inr e, p', df') \<and>
     8192 \<le> ex_size e \<and> all_ok 4096 (unat (bp_file_size p')) (e # data_ext p')"
proof -
  have base: "section_base 1 = 1" by (simp add: section_base_def leading_zeros_def upt_rec)
  obtain e p' df' where g: "grant_loop example_config example_bucket (example_store True) 8192 = (Inr e, p', df')"
    by (simp add: grant_loop.simps example_bucket_def base saturating_sub_def page_up_def PAGE_SIZE_U64_eq Let_def)
  have core: "bucket_core example_config example_bucket (example_store True)" "bucket_sane example_bucket"
    using example_bucket_good by (simp_all add: bucket_good_def)
  have "0 < unat (8192 :: u64)" "unat (8192 :: u64) \<le> OFF_MAX" by simp_all
  from grant_extent_fresh [OF core(1) example_store_ok(1) this core(2) g] g show ?thesis
    by (auto simp: example_bucket_def)
qed

text \<open>
  C35: a record for a new bucket can make the allocator panic. While there is one bucket, exactly one extent
  has been granted so far and the free part of that bucket's last extent is smaller than the new bucket
  needs, the loop comes to the new bucket itself, which has no extent yet.
\<close>

theorem new_bucket_panics:
  assumes "bp_states p = [s]" and "bs_data s \<noteq> []" and "bp_extent_grant_count p = 1" and "bp_bucket_indices p bucket = None"
    and "saturating_sub (ex_size (last (bs_data s))) (page_up (ex_used (last (bs_data s)))) < required_extent_size cfg total_len"
  shows "fst (BucketPlacement_alloc D io cfg p df (Some reg) bucket total_len) = Inl (Panic ''bucket without extent'')"
proof -
  have base: "section_base 1 = 1" "section_base 2 = 2" "section_base 3 = 2"
    by (simp_all add: section_base_def leading_zeros_def upt_rec)
  let ?p = "p\<lparr>bp_states := [s, \<lparr>bs_id = bucket, bs_data = [], bs_slots = []\<rparr>], bp_bucket_indices := (bp_bucket_indices p)(bucket \<mapsto> 1)\<rparr>"
  let ?need = "required_extent_size cfg total_len"
  have step: "grant_loop cfg (?p\<lparr>bp_extent_grant_count := c\<rparr>) df ?need = grant_loop cfg (?p\<lparr>bp_extent_grant_count := c + 1\<rparr>) df ?need"
    if "c = 1 \<or> c = 2" for c
    using grant_loop_skip [of "?p\<lparr>bp_extent_grant_count := c\<rparr>" ?need cfg df] that assms(2,5)
    by (auto simp: grant_skips_def base not_le)
  have "?p\<lparr>bp_extent_grant_count := 1\<rparr> = ?p" using assms(3) by (cases p) simp
  then have "grant_loop cfg ?p df ?need = grant_loop cfg (?p\<lparr>bp_extent_grant_count := 1\<rparr>) df ?need" by simp
  also have "\<dots> = grant_loop cfg (?p\<lparr>bp_extent_grant_count := 3\<rparr>) df ?need" using step [of 1] step [of 2] by simp
  also have "\<dots> = (Inl (Panic ''bucket without extent''), ?p\<lparr>bp_extent_grant_count := 4\<rparr>, df)"
    by (subst grant_loop.simps) (simp add: base Let_def)
  finally show ?thesis
    using assms(1,4) by (simp add: BucketPlacement_alloc_def with_registry_def BucketPlacement_bucket_index_def
        BucketPlacement_grant_extent_def Let_def)
qed

theorem new_bucket_panics_witness:
  "fst (BucketPlacement_alloc sync_block_io SyncIo_new example_config example_bucket (example_store True) (Some example_pf) 6 65536) =
     Inl (Panic ''bucket without extent'')"
  by (rule new_bucket_panics [where s = "hd (bp_states example_bucket)"])
    (simp_all add: example_bucket_def saturating_sub_def required_extent_size_def page_up_def PAGE_SIZE_U64_eq example_config_simps)

text \<open>
  C36: when the first extent of a new bucket cannot be granted (a full device, an error of the registry
  write), the insertion returns the error, but the bucket stays known without an extent and every
  later insertion into it panics.
\<close>

theorem failed_grant_poisons_bucket:
  assumes "bp_bucket_indices p bucket = None"
    and "BucketPlacement_grant_extent D io cfg (p\<lparr>bp_states := bp_states p @ [\<lparr>bs_id = bucket, bs_data = [], bs_slots = []\<rparr>],
        bp_bucket_indices := (bp_bucket_indices p)(bucket \<mapsto> length (bp_states p))\<rparr>) df reg (length (bp_states p))
        (required_extent_size cfg total_len) = (Inl e, io', p', df', reg')"
  shows "BucketPlacement_alloc D io cfg p df (Some reg) bucket total_len = (Inl e, io', p', df', Some reg') \<and>
    BucketPlacement_alloc D io2 cfg p' df' (Some reg') bucket total_len2 =
      (Inl (Panic ''bucket without extent''), io2, p', df', Some reg')"
proof -
  have "BucketPlacement_alloc D io cfg p df (Some reg) bucket total_len = (Inl e, io', p', df', Some reg')"
    using assms by (simp add: BucketPlacement_alloc_def with_registry_def BucketPlacement_bucket_index_def Let_def)
  moreover have "bp_bucket_indices p' bucket = Some (length (bp_states p))" "bs_data (bp_states p' ! length (bp_states p)) = []"
    using grant_extent_Inl [OF assms(2)] by simp_all
  ultimately show ?thesis by (simp add: alloc_empty_bucket)
qed

theorem failed_grant_poisons_bucket_witness:
  "\<exists>e io' p' df' reg'. BucketPlacement_alloc sync_block_io SyncIo_new example_config (example_bucket\<lparr>bp_extent_grant_count := 7\<rparr>)
       (example_store True) (Some example_pf) 6 1048576 = (Inl e, io', p', df', Some reg') \<and>
     e = Err (Io (OsError 28)) \<and>
     BucketPlacement_alloc sync_block_io io' example_config p' df' (Some reg') 6 1 = (Inl (Panic ''bucket without extent''), io', p', df', Some reg')"
proof -
  let ?p = "example_bucket\<lparr>bp_extent_grant_count := 7\<rparr>"
  let ?p1 = "?p\<lparr>bp_states := bp_states ?p @ [\<lparr>bs_id = 6, bs_data = [], bs_slots = []\<rparr>], bp_bucket_indices := (bp_bucket_indices ?p)(6 \<mapsto> length (bp_states ?p))\<rparr>"
  have base: "section_base 7 = 4" by (simp add: section_base_def leading_zeros_def upt_rec)
  have need: "required_extent_size example_config 1048576 = 1048576"
    by (simp add: required_extent_size_def page_up_def PAGE_SIZE_U64_eq example_config_simps)
  have al: "PagedFile_ensure_alloc (df_paged_file (example_store True)) 1114112 1048576 =
      (Inl (Err (Io (OsError 28))), df_paged_file (example_store True))"
    by (simp add: PagedFile_ensure_alloc_def example_store_ok Let_def page_up_def PAGE_SIZE_U64_eq fallocate_def)
  obtain p' df' where "BucketPlacement_grant_extent sync_block_io SyncIo_new example_config ?p1 (example_store True) example_pf (length (bp_states ?p))
      (required_extent_size example_config 1048576) = (Inl (Err (Io (OsError 28))), SyncIo_new, p', df', example_pf)"
    unfolding need by (simp add: BucketPlacement_grant_extent_def grant_loop.simps base example_bucket_def Let_def example_config_simps al)
  moreover have "bp_bucket_indices ?p 6 = None" by (simp add: example_bucket_def)
  ultimately show ?thesis using failed_grant_poisons_bucket [of ?p 6 sync_block_io SyncIo_new example_config "example_store True" example_pf 1048576] by blast
qed

end
