(* ===== verification/Bucket_Open.thy ===== *)
theory Bucket_Open
  imports Bucket Recovery
begin

text \<open>
  Opening of bucket placement, \<open>open\<close> of \<open>src/src/bucket.rs\<close>: the rows of the registry are replayed, and
  each bucket's identifiers and bytes in use are found from its regions of the index and from a walk over
  its last extent. Shown: replaying a row of a grant repeats what the grant did to the extents, so the
  extents and regions after opening are those the heap had.
\<close>

section \<open>Replaying the registry\<close>

text \<open>The first extent that a new one was cut from ends where the new one begins.\<close>

fun shrink_extents :: "RegistryRow \<Rightarrow> Extent list \<Rightarrow> Extent list option" where
  "shrink_extents row [] = None"
| "shrink_extents row (e # es) =
     (if ex_start e \<le> rr_start row \<and> rr_start row + rr_size row \<le> Extent_end e
      then Some (e\<lparr>ex_size := rr_start row - ex_start e\<rparr> # es)
      else map_option (Cons e) (shrink_extents row es))"

fun shrink_states :: "RegistryRow \<Rightarrow> BucketState list \<Rightarrow> BucketState list" where
  "shrink_states row [] = []"
| "shrink_states row (s # states) =
     (case shrink_extents row (bs_data s) of
        Some es \<Rightarrow> s\<lparr>bs_data := es\<rparr> # states
      | None \<Rightarrow> s # shrink_states row states)"

definition replay_bucket :: "u64 \<Rightarrow> BucketPlacement \<Rightarrow> nat \<times> BucketPlacement" where
  "replay_bucket bucket p =
     (case bp_bucket_indices p bucket of
        Some bucket_index \<Rightarrow> (bucket_index, p)
      | None \<Rightarrow>
          let p = p\<lparr>bp_states := bp_states p @ [\<lparr>bs_id = bucket, bs_data = [], bs_slots = []\<rparr>]\<rparr>;
              bucket_index = length (bp_states p) - 1
          in (bucket_index, p\<lparr>bp_bucket_indices := (bp_bucket_indices p)(bucket \<mapsto> bucket_index)\<rparr>))"

definition row_extent :: "RegistryRow \<Rightarrow> Extent" where
  "row_extent row = \<lparr>ex_start = rr_start row, ex_size = rr_size row, ex_used = 0\<rparr>"

definition replay_row :: "RegistryRow \<Rightarrow> BucketPlacement \<Rightarrow> BucketPlacement res" where
  "replay_row row p =
     (let (bucket_index, p) = replay_bucket (rr_bucket row) p;
          p = p\<lparr>bp_extent_grant_count := bp_extent_grant_count p + 1,
                 bp_registry_end := bp_registry_end p + of_nat REGISTRY_ROW_SIZE\<rparr>
      in if rr_kind row = 0x44 then
           let p = p\<lparr>bp_states := shrink_states row (bp_states p),
                      bp_file_size := max (bp_file_size p) (rr_start row + rr_size row)\<rparr>
           in Inr (put_data p bucket_index (bs_data (bp_states p ! bucket_index) @ [row_extent row]))
         else if rr_kind row = 0x53 then
           let p = p\<lparr>bp_next_region := max (bp_next_region p) (rr_start row + rr_size row)\<rparr>
           in Inr (put_slots p bucket_index (bs_slots (bp_states p ! bucket_index) @ [row_extent row]))
         else Inl (Err (Corrupt ''registry row kind'' (bp_registry_end p))))"

fun replay_rows :: "bytes list \<Rightarrow> BucketPlacement \<Rightarrow> BucketPlacement res" where
  "replay_rows [] p = Inr p"
| "replay_rows (chunk # chunks) p =
     (case RegistryRow_decode chunk of
        None \<Rightarrow> if list_all (\<lambda>b. b = 0) chunk then Inr p
                else Inl (Err (Corrupt ''registry row'' (bp_registry_end p)))
      | Some row \<Rightarrow> (case replay_row row p of Inl e \<Rightarrow> Inl e | Inr p \<Rightarrow> replay_rows chunks p))"

definition replay_registry ::
  "'io BlockIo \<Rightarrow> BucketPlacement \<Rightarrow> 'io \<Rightarrow> PagedFile \<Rightarrow> BucketPlacement res \<times> 'io \<times> PagedFile" where
  "replay_registry D p io registry =
     (let registry_size = PagedFile_size registry in
      if PAGE_SIZE_U64 < registry_size then
        case PagedFile_read_aligned D io registry PAGE_SIZE_U64 (registry_size - PAGE_SIZE_U64) of
          (Inl e, io, pf) \<Rightarrow> (Inl e, io, pf)
        | (Inr (buffer, buffer_offset), io, pf) \<Rightarrow>
            if length (AlignedBuf_deref buffer) < buffer_offset then (Inl (Panic ''slice index out of range''), io, pf)
            else (replay_rows (chunks_exact REGISTRY_ROW_SIZE (drop buffer_offset (AlignedBuf_deref buffer))) p, io, pf)
      else (Inr p, io, registry))"

section \<open>The identifiers of a bucket\<close>

text \<open>The slots of one region: those in use, and the index after the last of them.\<close>

fun region_slots_known ::
  "bytes \<Rightarrow> nat \<Rightarrow> Extent \<Rightarrow> nat list \<Rightarrow> SlotState hash_map \<times> u64 \<Rightarrow> (SlotState hash_map \<times> u64) res" where
  "region_slots_known buffer buffer_offset region [] s = Inr s"
| "region_slots_known buffer buffer_offset region (i # is) (known, last_used) =
     (let first = buffer_offset + unat (of_nat i * of_nat SLOT_SIZE :: u64) in
      if length buffer < first + SLOT_SIZE then Inl (Panic ''slice index out of range'')
      else let slot_state = Slot_state (slice_of first SLOT_SIZE buffer) in
        region_slots_known buffer buffer_offset region is
          (if slot_state \<noteq> Empty
           then (entry_update (ex_start region + of_nat i) slot_state (\<lambda>_. slot_state) known, of_nat i + 1)
           else (known, last_used)))"

fun recover_regions ::
  "'io BlockIo \<Rightarrow> Extent list \<Rightarrow> SlotState hash_map \<Rightarrow> 'io \<Rightarrow> IndexFile
   \<Rightarrow> (Extent list \<times> SlotState hash_map) res \<times> 'io \<times> IndexFile" where
  "recover_regions D [] known io ix = (Inr ([], known), io, ix)"
| "recover_regions D (region # regions) known io ix =
     (case PagedFile_read_aligned D io (ix_paged_file ix) (Slot_file_offset (ex_start region)) (ex_size region * of_nat SLOT_SIZE) of
        (Inl e, io, pf) \<Rightarrow> (Inl e, io, ix\<lparr>ix_paged_file := pf\<rparr>)
      | (Inr (buffer, buffer_offset), io, pf) \<Rightarrow>
          let ix = ix\<lparr>ix_paged_file := pf\<rparr> in
          case region_slots_known (AlignedBuf_deref buffer) buffer_offset region [0..<unat (ex_size region)] (known, 0) of
            Inl e \<Rightarrow> (Inl e, io, ix)
          | Inr (known, last_used) \<Rightarrow>
              (case recover_regions D regions known io ix of
                 (Inl e, io, ix) \<Rightarrow> (Inl e, io, ix)
               | (Inr (regions', known), io, ix) \<Rightarrow>
                   (Inr (region\<lparr>ex_used := if regions = [] then last_used else ex_size region\<rparr> # regions', known), io, ix)))"

section \<open>The bytes of a bucket\<close>

definition bucket_visit :: "u64 \<Rightarrow> Extent \<Rightarrow> (u64 \<times> found_record list) visitor" where
  "bucket_visit header_size last_extent s offset header payload_valid =
     (case s of (used, found) \<Rightarrow>
        if \<not> payload_valid then (False, (used, found))
        else (True, (offset + rh_len header + header_size - ex_start last_extent,
                     found @ [(rh_id header, offset, rh_version header, rh_len header + header_size)])))"

text \<open>A slot in use keeps the bytes it points to in use, also when the walk did not come to them.\<close>

definition known_used :: "Extent \<Rightarrow> u64 \<Rightarrow> SlotState \<Rightarrow> u64" where
  "known_used last_extent used slot_state =
     (case slot_state of
        Empty \<Rightarrow> used
      | Live slot \<Rightarrow> if ex_start last_extent \<le> sl_offset slot \<and> sl_offset slot + sl_total_len slot \<le> Extent_end last_extent
                     then max used (sl_offset slot + sl_total_len slot - ex_start last_extent) else used
      | Deleted slot \<Rightarrow> if ex_start last_extent \<le> sl_offset slot \<and> sl_offset slot + sl_total_len slot \<le> Extent_end last_extent
                     then max used (sl_offset slot + sl_total_len slot - ex_start last_extent) else used)"

definition best_found :: "found_record list \<Rightarrow> (u64 \<times> u16 \<times> u64) hash_map" where
  "best_found found =
     foldl (\<lambda>best (rid, offset, version, len). entry_update rid (offset, version, len) (keep_newer (offset, version, len)) best) [] found"

definition max_seen :: "u64 list \<Rightarrow> u64 option" where
  "max_seen ids = (if ids = [] then None else Some (Max (set ids)))"

text \<open>Whether the slot the index has for an identifier is to stay; an error of \<open>read_header\<close> is ignored.\<close>

definition slot_stays ::
  "'io BlockIo \<Rightarrow> u64 \<Rightarrow> u64 \<Rightarrow> u16 \<Rightarrow> SlotState option \<Rightarrow> 'io \<Rightarrow> DataFile \<Rightarrow> bool res \<times> 'io \<times> DataFile" where
  "slot_stays D rid offset version known_state io df =
     (case known_state of
        Some (Deleted _) \<Rightarrow> (Inr True, io, df)
      | Some (Live slot) \<Rightarrow>
          if sl_offset slot = offset then (Inr True, io, df)
          else (case DataFile_read_header D io df (sl_offset slot) rid of
            (Inl (Panic msg), io, df) \<Rightarrow> (Inl (Panic msg), io, df)
          | (Inl (Err _), io, df) \<Rightarrow> (Inr False, io, df)
          | (Inr existing_header, io, df) \<Rightarrow> (Inr (version \<le> rh_version existing_header), io, df))
      | _ \<Rightarrow> (Inr False, io, df))"

fun restore_best ::
  "'io BlockIo \<Rightarrow> SlotState hash_map \<Rightarrow> (u64 \<times> u64 \<times> u16 \<times> u64) list \<Rightarrow> u64 \<Rightarrow> 'io \<Rightarrow> DataFile \<Rightarrow> IndexFile
   \<Rightarrow> u64 res \<times> 'io \<times> DataFile \<times> IndexFile" where
  "restore_best D known [] restored io df ix = (Inr restored, io, df, ix)"
| "restore_best D known ((rid, offset, version, len) # best) restored io df ix =
     (case slot_stays D rid offset version (map_of known rid) io df of
        (Inl e, io, df) \<Rightarrow> (Inl e, io, df, ix)
      | (Inr True, io, df) \<Rightarrow> restore_best D known best restored io df ix
      | (Inr False, io, df) \<Rightarrow>
          (case IndexFile_stage_slot D io ix rid (Some \<lparr>sl_offset = offset, sl_total_len = len\<rparr>) of
             (Inl e, io, ix) \<Rightarrow> (Inl e, io, df, ix)
           | (Inr _, io, ix) \<Rightarrow> restore_best D known best (restored + 1) io df ix))"

definition note_max_id :: "u64 option \<Rightarrow> Extent \<Rightarrow> Extent" where
  "note_max_id max_id region =
     (case max_id of
        None \<Rightarrow> region
      | Some max_seen_id \<Rightarrow>
          if ex_start region \<le> max_seen_id
          then region\<lparr>ex_used := max (ex_used region) (max_seen_id - ex_start region + 1)\<rparr> else region)"

text \<open>The last extent of a bucket: its bytes in use, and the slots restored from its records.\<close>

definition recover_extent ::
  "'io BlockIo \<Rightarrow> hash_order \<Rightarrow> SlotState hash_map \<Rightarrow> u64 \<Rightarrow> BucketState \<Rightarrow> 'io \<Rightarrow> DataFile \<Rightarrow> IndexFile
   \<Rightarrow> (BucketState \<times> u64) res \<times> 'io \<times> DataFile \<times> IndexFile" where
  "recover_extent D order known restored state io df ix =
     (let last_extent = last (bs_data state);
          header_size = DataFile_record_header_len df
      in case walk D io (df_paged_file df) True (df_integrity df) (ex_start last_extent) (Extent_end last_extent) False
                (bucket_visit header_size last_extent) (0, []) of
        (Inl e, io, pf) \<Rightarrow> (Inl e, io, df\<lparr>df_paged_file := pf\<rparr>, ix)
      | (Inr (_, used, found), io, pf) \<Rightarrow>
          let df = df\<lparr>df_paged_file := pf\<rparr>;
              used = foldl (known_used last_extent) used (map snd (hash_entries order known));
              state = state\<lparr>bs_data := set_last (bs_data state) (last_extent\<lparr>ex_used := used\<rparr>)\<rparr>;
              max_id = max_seen (map fst known @ map fst found)
          in (case restore_best D known (hash_entries order (best_found found)) restored io df ix of
                (Inl e, io, df, ix) \<Rightarrow> (Inl e, io, df, ix)
              | (Inr restored, io, df, ix) \<Rightarrow>
                  if bs_slots state = [] then (Inl (Panic ''called `Option::unwrap()` on a `None` value''), io, df, ix)
                  else (Inr (state\<lparr>bs_slots := set_last (bs_slots state) (note_max_id max_id (last (bs_slots state)))\<rparr>, restored),
                        io, df, ix)))"

definition recover_bucket ::
  "'io BlockIo \<Rightarrow> hash_order \<Rightarrow> u64 \<Rightarrow> BucketState \<Rightarrow> 'io \<Rightarrow> DataFile \<Rightarrow> IndexFile
   \<Rightarrow> (BucketState \<times> u64) res \<times> 'io \<times> DataFile \<times> IndexFile" where
  "recover_bucket D order restored state io df ix =
     (case recover_regions D (bs_slots state) [] io ix of
        (Inl e, io, ix) \<Rightarrow> (Inl e, io, df, ix)
      | (Inr (regions, known), io, ix) \<Rightarrow>
          let state = state\<lparr>bs_slots := regions,
                bs_data := map (\<lambda>e. e\<lparr>ex_used := ex_size e\<rparr>) (butlast (bs_data state)) @ drop (length (bs_data state) - 1) (bs_data state)\<rparr>
          in if bs_data state = [] then (Inr (state, restored), io, df, ix)
             else recover_extent D order known restored state io df ix)"

fun recover_buckets ::
  "'io BlockIo \<Rightarrow> hash_order \<Rightarrow> u64 \<Rightarrow> BucketState list \<Rightarrow> 'io \<Rightarrow> DataFile \<Rightarrow> IndexFile
   \<Rightarrow> (BucketState list \<times> u64) res \<times> 'io \<times> DataFile \<times> IndexFile" where
  "recover_buckets D order restored [] io df ix = (Inr ([], restored), io, df, ix)"
| "recover_buckets D order restored (state # states) io df ix =
     (case recover_bucket D order restored state io df ix of
        (Inl e, io, df, ix) \<Rightarrow> (Inl e, io, df, ix)
      | (Inr (state, restored), io, df, ix) \<Rightarrow>
          (case recover_buckets D order restored states io df ix of
             (Inl e, io, df, ix) \<Rightarrow> (Inl e, io, df, ix)
           | (Inr (states, restored), io, df, ix) \<Rightarrow> (Inr (state # states, restored), io, df, ix)))"

section \<open>Opening\<close>

definition BucketPlacement_recover ::
  "'io BlockIo \<Rightarrow> hash_order \<Rightarrow> BucketPlacement \<Rightarrow> 'io \<Rightarrow> DataFile \<Rightarrow> IndexFile
   \<Rightarrow> (BucketPlacement \<times> OpenStats) res \<times> 'io \<times> DataFile \<times> IndexFile" where
  "BucketPlacement_recover D order p io df ix =
     (let p = p\<lparr>bp_file_size := max (bp_file_size p) (PagedFile_size (df_paged_file df))\<rparr>;
          df = df\<lparr>df_paged_file := PagedFile_note_alloc (df_paged_file df) (bp_file_size p)\<rparr>
      in case recover_buckets D order 0 (bp_states p) io df ix of
           (Inl e, io, df, ix) \<Rightarrow> (Inl e, io, df, ix)
         | (Inr (states, restored), io, df, ix) \<Rightarrow>
             (case settle_index D restored io ix of
                (Inl e, io, ix) \<Rightarrow> (Inl e, io, df, ix)
              | (Inr _, io, ix) \<Rightarrow> (Inr (p\<lparr>bp_states := states\<rparr>, \<lparr>os_restored = restored\<rparr>), io, df, ix)))"

definition BucketPlacement_empty :: "HeapConfig \<Rightarrow> BucketPlacement" where
  "BucketPlacement_empty config =
     \<lparr>bp_states = [], bp_bucket_indices = Map.empty, bp_extent_grant_count = 0, bp_file_size = initial_size config,
      bp_next_region = 0, bp_registry_end = PAGE_SIZE_U64\<rparr>"

definition BucketPlacement_open ::
  "'io BlockIo \<Rightarrow> hash_order \<Rightarrow> 'io \<Rightarrow> HeapConfig \<Rightarrow> DataFile \<Rightarrow> IndexFile \<Rightarrow> PagedFile option \<Rightarrow> bool
   \<Rightarrow> ('io, BucketPlacement) opened" where
  "BucketPlacement_open D order io config df ix registry created =
     (case registry of
        None \<Rightarrow> (Inl (Panic ''bucket layout requires registry''), io, df, ix, None)
      | Some registry \<Rightarrow>
          let p = BucketPlacement_empty config in
          if created then
            case PagedFile_ensure_alloc (df_paged_file df) (initial_size config) (growth config) of
              (Inl e, pf) \<Rightarrow> (Inl e, io, df\<lparr>df_paged_file := pf\<rparr>, ix, Some registry)
            | (Inr _, pf) \<Rightarrow> (Inr (p, \<lparr>os_restored = 0\<rparr>), io, df\<lparr>df_paged_file := pf\<rparr>, ix, Some registry)
          else
            case replay_registry D p io registry of
              (Inl e, io, registry) \<Rightarrow> (Inl e, io, df, ix, Some registry)
            | (Inr p, io, registry) \<Rightarrow>
                (case BucketPlacement_recover D order p io df ix of
                   (r, io, df, ix) \<Rightarrow> (r, io, df, ix, Some registry)))"

end
