(* ===== verification/Rebuild.thy ===== *)
theory Rebuild
  imports Recovery
begin

text \<open>
  Rebuilding of the index and the registry from the records of the data file, \<open>rebuild\<close> of
  \<open>src/src/recovery.rs\<close>, for a heap that lost them. The files of a heap are named in a directory. Shown:
  the newest version of every identifier wins, and on a device that does not fail the new index has
  exactly the slots of these records.
\<close>

section \<open>A directory\<close>

text \<open>
  The files by name, and the size a new one may grow to. \<open>open_direct\<close> finds a file or, when it may,
  creates an empty one; what is written through a handle is in the directory when the handle is left.
\<close>

record Dir =
  dr_files :: "string \<rightharpoonup> File"
  dr_capacity :: nat

definition open_direct :: "Dir \<Rightarrow> string \<Rightarrow> bool \<Rightarrow> File res" where
  "open_direct dir name may_create =
     (case dr_files dir name of
        Some f \<Rightarrow> Inr f
      | None \<Rightarrow> if may_create then Inr \<lparr>f_content = [], f_durable = [], f_limit = dr_capacity dir\<rparr>
                else Inl (Err (Io (OsError 2))))"

definition dir_put :: "Dir \<Rightarrow> string \<Rightarrow> File \<Rightarrow> Dir" where
  "dir_put dir name f = dir\<lparr>dr_files := (dr_files dir)(name \<mapsto> f)\<rparr>"

text \<open>\<open>PagedFile::create\<close> and \<open>PagedFile::open\<close> on a path of the directory.\<close>

definition create_in :: "'io BlockIo \<Rightarrow> Dir \<Rightarrow> string \<Rightarrow> u8 \<Rightarrow> u8 \<Rightarrow> 'io \<Rightarrow> PagedFile res \<times> 'io \<times> Dir" where
  "create_in D dir name kind layout io =
     (case open_direct dir name True of
        Inl e \<Rightarrow> (Inl e, io, dir)
      | Inr f \<Rightarrow> (case PagedFile_create D io f kind layout of (r, io, f) \<Rightarrow> (r, io, dir_put dir name f)))"

definition open_in :: "'io BlockIo \<Rightarrow> Dir \<Rightarrow> string \<Rightarrow> u8 \<Rightarrow> u8 \<Rightarrow> 'io \<Rightarrow> PagedFile res \<times> 'io" where
  "open_in D dir name kind layout io =
     (case open_direct dir name False of
        Inl e \<Rightarrow> (Inl e, io)
      | Inr f \<Rightarrow> PagedFile_open D io f kind layout)"

section \<open>Gathering records\<close>

text \<open>Of each identifier the offset, length, version and bucket of the newest record; and the runs of a bucket's records.\<close>

type_synonym latest = "(u64 \<times> u64 \<times> u16 \<times> u64) hash_map"
type_synonym runs = "(u64 \<times> u64 \<times> u64) list"

definition extend_runs :: "runs \<Rightarrow> u64 \<Rightarrow> u64 \<Rightarrow> u64 \<Rightarrow> runs" where
  "extend_runs runs bucket offset len =
     (if runs \<noteq> [] \<and> fst (last runs) = bucket \<and> snd (snd (last runs)) = offset
      then butlast runs @ [(fst (last runs), fst (snd (last runs)), offset + len)]
      else runs @ [(bucket, offset, offset + len)])"

definition newest :: "u64 \<times> u64 \<times> u16 \<times> u64 \<Rightarrow> u64 \<times> u64 \<times> u16 \<times> u64 \<Rightarrow> u64 \<times> u64 \<times> u16 \<times> u64" where
  "newest r entry = (if fst (snd (snd entry)) \<le> fst (snd (snd r)) then r else entry)"

definition rebuild_visit :: "u64 \<Rightarrow> (latest \<times> runs) visitor" where
  "rebuild_visit header_size s offset header payload_valid =
     (case s of (latest, runs) \<Rightarrow>
        if \<not> payload_valid then (True, (latest, runs))
        else let record_len = header_size + rh_len header;
                 r = (offset, record_len, rh_version header, rh_bucket header)
          in (True, (entry_update (rh_id header) r (newest r) latest, extend_runs runs (rh_bucket header) offset record_len)))"

section \<open>Writing the index\<close>

fun rebuild_slots :: "'io BlockIo \<Rightarrow> latest \<Rightarrow> u64 list \<Rightarrow> 'io \<Rightarrow> IndexFile \<Rightarrow> unit res \<times> 'io \<times> IndexFile" where
  "rebuild_slots D latest [] io ix = (Inr (), io, ix)"
| "rebuild_slots D latest (rid # ids) io ix =
     (case the (map_of latest rid) of (offset, len, _, _) \<Rightarrow>
      case IndexFile_stage_slot D io ix rid (Some \<lparr>sl_offset = offset, sl_total_len = len\<rparr>) of
        (Inl e, io, ix) \<Rightarrow> (Inl e, io, ix)
      | (Inr _, io, ix) \<Rightarrow>
          (case flush_if (4194304 < pending_bytes (ix_paged_file ix)) D io (ix_paged_file ix) of
             (Inl e, io, pf) \<Rightarrow> (Inl e, io, ix\<lparr>ix_paged_file := pf\<rparr>)
           | (Inr _, io, pf) \<Rightarrow> rebuild_slots D latest ids io (ix\<lparr>ix_paged_file := pf\<rparr>)))"

text \<open>\<open>flush(io)?\<close> and \<open>io.sync(&file)?\<close> on a paged file.\<close>

definition flush_and_sync :: "'io BlockIo \<Rightarrow> 'io \<Rightarrow> PagedFile \<Rightarrow> unit res \<times> 'io \<times> PagedFile" where
  "flush_and_sync D io pf =
     (case PagedFile_flush D io pf of
        (Inl e, io, pf) \<Rightarrow> (Inl e, io, pf)
      | (Inr _, io, pf) \<Rightarrow> (case sync D io (pf_file pf) of (r, io, f) \<Rightarrow> (r, io, pf\<lparr>pf_file := f\<rparr>)))"

definition rebuild_index :: "'io BlockIo \<Rightarrow> Dir \<Rightarrow> u8 \<Rightarrow> latest \<Rightarrow> 'io \<Rightarrow> unit res \<times> 'io \<times> Dir" where
  "rebuild_index D dir layout latest io =
     (case create_in D dir ''index.hs'' 0x49 layout io of
        (Inl e, io, dir) \<Rightarrow> (Inl e, io, dir)
      | (Inr pf, io, dir) \<Rightarrow>
          (case rebuild_slots D latest (sort (map fst latest)) io \<lparr>ix_paged_file = pf\<rparr> of
             (Inl e, io, ix) \<Rightarrow> (Inl e, io, dir_put dir ''index.hs'' (pf_file (ix_paged_file ix)))
           | (Inr _, io, ix) \<Rightarrow>
               (case flush_and_sync D io (ix_paged_file ix) of
                  (r, io, pf) \<Rightarrow> (r, io, dir_put dir ''index.hs'' (pf_file pf)))))"

section \<open>Writing the registry\<close>

fun stage_rows :: "'io BlockIo \<Rightarrow> RegistryRow list \<Rightarrow> u64 \<Rightarrow> 'io \<Rightarrow> PagedFile \<Rightarrow> unit res \<times> 'io \<times> PagedFile" where
  "stage_rows D [] registry_end io pf = (Inr (), io, pf)"
| "stage_rows D (row # rows) registry_end io pf =
     (case PagedFile_stage D io pf registry_end [RegistryRow_encode row (replicate REGISTRY_ROW_SIZE 0)] of
        (Inl e, io, pf) \<Rightarrow> (Inl e, io, pf)
      | (Inr _, io, pf) \<Rightarrow> stage_rows D rows (registry_end + of_nat REGISTRY_ROW_SIZE) io pf)"

definition data_rows :: "runs \<Rightarrow> RegistryRow list" where
  "data_rows runs = map (\<lambda>(bucket, start, run_end).
     \<lparr>rr_kind = 0x44, rr_bucket = bucket, rr_start = page_down start, rr_size = page_up run_end - page_down start\<rparr>) runs"

text \<open>The region of an identifier belongs to the bucket of the first of its records that iteration comes to.\<close>

definition region_buckets :: "hash_order \<Rightarrow> u64 \<Rightarrow> latest \<Rightarrow> u64 hash_map" where
  "region_buckets order slots latest =
     foldl (\<lambda>regions (rid, _, _, _, bucket). entry_update (rid div slots * slots) bucket (\<lambda>b. b) regions) []
       (hash_entries order latest)"

text \<open>The keys of a map are distinct, so sorting its entries is sorting them by key.\<close>

definition region_rows :: "u64 \<Rightarrow> u64 hash_map \<Rightarrow> RegistryRow list" where
  "region_rows slots regions = map (\<lambda>(region_start, bucket).
     \<lparr>rr_kind = 0x53, rr_bucket = bucket, rr_start = region_start, rr_size = slots\<rparr>) (sort_key fst regions)"

definition rebuild_registry ::
  "'io BlockIo \<Rightarrow> hash_order \<Rightarrow> Dir \<Rightarrow> u8 \<Rightarrow> HeapConfig \<Rightarrow> latest \<Rightarrow> runs \<Rightarrow> 'io \<Rightarrow> unit res \<times> 'io \<times> Dir" where
  "rebuild_registry D order dir layout config latest runs io =
     (case create_in D dir ''registry.hs'' 0x52 layout io of
        (Inl e, io, dir) \<Rightarrow> (Inl e, io, dir)
      | (Inr pf, io, dir) \<Rightarrow>
          let put = (\<lambda>pf. dir_put dir ''registry.hs'' (pf_file pf)) in
          (case stage_rows D (data_rows runs) PAGE_SIZE_U64 io pf of
             (Inl e, io, pf) \<Rightarrow> (Inl e, io, put pf)
           | (Inr _, io, pf) \<Rightarrow>
               if region_slots config = 0 \<and> latest \<noteq> [] then (Inl (Panic ''attempt to divide by zero''), io, put pf)
               else case stage_rows D (region_rows (region_slots config) (region_buckets order (region_slots config) latest))
                      (PAGE_SIZE_U64 + of_nat (length runs * REGISTRY_ROW_SIZE)) io pf of
                 (Inl e, io, pf) \<Rightarrow> (Inl e, io, put pf)
               | (Inr _, io, pf) \<Rightarrow> (case flush_and_sync D io pf of (r, io, pf) \<Rightarrow> (r, io, put pf))))"

section \<open>Rebuilding\<close>

definition rebuild ::
  "'io BlockIo \<Rightarrow> hash_order \<Rightarrow> Dir \<Rightarrow> 'io \<Rightarrow> u8 \<Rightarrow> bool \<Rightarrow> HeapConfig \<Rightarrow> WalkStats res \<times> 'io \<times> Dir" where
  "rebuild D order dir io layout checked config =
     (let with_bucket = (layout = LAYOUT_BUCKET) in
      case open_in D dir ''data.hs'' 0x44 layout io of
        (Inl e, io) \<Rightarrow> (Inl e, io, dir)
      | (Inr data_file, io) \<Rightarrow>
          (case walk D io data_file with_bucket checked PAGE_SIZE_U64 (PagedFile_size data_file) True
                  (rebuild_visit (of_nat (header_len with_bucket))) ([], []) of
             (Inl e, io, pf) \<Rightarrow> (Inl e, io, dir_put dir ''data.hs'' (pf_file pf))
           | (Inr (stats, latest, runs), io, pf) \<Rightarrow>
               (case rebuild_index D (dir_put dir ''data.hs'' (pf_file pf)) layout latest io of
                  (Inl e, io, dir) \<Rightarrow> (Inl e, io, dir)
                | (Inr _, io, dir) \<Rightarrow>
                    if with_bucket then
                      (case rebuild_registry D order dir layout config latest runs io of
                         (Inl e, io, dir) \<Rightarrow> (Inl e, io, dir)
                       | (Inr _, io, dir) \<Rightarrow> (Inr stats, io, dir))
                    else (Inr stats, io, dir))))"

section \<open>The records a walk with resynchronisation finds\<close>

function all_records :: "bool \<Rightarrow> bool \<Rightarrow> (nat \<Rightarrow> u8) \<Rightarrow> nat \<Rightarrow> nat \<Rightarrow> (nat \<times> RecordHeader) list" where
  "all_records wb checked h e p =
     (if e < p + header_len wb then []
      else case record_at wb h e p of
        Some header \<Rightarrow>
          (if payload_intact wb checked h p header then [(p, header)] else []) @
          all_records wb checked h e (p + (header_len wb + unat (rh_len header)))
      | None \<Rightarrow> (case next_magic h (p + 1) e of None \<Rightarrow> [] | Some q \<Rightarrow> all_records wb checked h e q))"
  by pat_completeness auto
termination
  by (relation "measure (\<lambda>(wb, checked, h, e, p). e - p)")
    (auto simp: header_len_def dest!: next_magic_bounds split: if_splits)

declare all_records.simps [simp del]

lemma scan_all_records:
  assumes "\<And>v p header. visitor v p header True = (True, step v p header)" and "\<And>v p header. visitor v p header False = (True, v)"
  shows "snd (scan wb checked h e True visitor p stats v) =
    foldl (\<lambda>v (p, header). step v (of_nat p) header) v (all_records wb checked h e p)"
proof (induction wb checked h e p arbitrary: stats v rule: all_records.induct)
  case (1 wb checked h e p)
  note unfold = scan.simps [of wb checked h e True visitor p] all_records.simps [of wb checked h e p] Let_def
  show ?case
  proof (cases "e < p + header_len wb")
    case True
    then show ?thesis by (simp add: unfold)
  next
    case False
    show ?thesis
    proof (cases "record_at wb h e p")
      case None
      with False "1.IH"(1) [OF False None] show ?thesis by (simp add: unfold split: option.split)
    next
      case (Some header)
      with False "1.IH"(2) [OF False Some] assms show ?thesis
        by (cases "payload_intact wb checked h p header") (simp_all add: unfold)
    qed
  qed
qed

lemma all_records_sorted:
  "sorted_wrt (\<lambda>a b. fst a < fst b) (all_records wb checked h e p) \<and>
   (\<forall>(q, header) \<in> set (all_records wb checked h e p). p \<le> q \<and> q + header_len wb + unat (rh_len header) \<le> e \<and>
      header_at wb h q = Some header \<and> payload_intact wb checked h q header)"
proof (induction wb checked h e p rule: all_records.induct)
  case (1 wb checked h e p)
  note unfold = all_records.simps [of wb checked h e p]
  show ?case
  proof (cases "e < p + header_len wb")
    case True
    then show ?thesis by (simp add: unfold)
  next
    case False
    show ?thesis
    proof (cases "record_at wb h e p")
      case None
      show ?thesis
      proof (cases "next_magic h (p + 1) e")
        case (Some q)
        with False None "1.IH"(1) [OF False None Some] next_magic_bounds [OF Some] show ?thesis by (fastforce simp: unfold)
      qed (use False None in \<open>simp add: unfold\<close>)
    next
      case (Some header)
      then have "header_at wb h p = Some header" "p + header_len wb + unat (rh_len header) \<le> e"
        by (auto simp: record_at_def split: option.splits if_splits)
      moreover have "p < q" if "p + (header_len wb + n) \<le> q" for n q
        using that by (cases wb) (simp_all add: header_len_def)
      ultimately show ?thesis
        using False Some "1.IH"(2) [OF False Some] by (auto simp: unfold)
    qed
  qed
qed

section \<open>The newest version wins\<close>

definition newest_of :: "(nat \<times> RecordHeader) list \<Rightarrow> u64 \<Rightarrow> nat \<times> RecordHeader \<Rightarrow> bool" where
  "newest_of records rid r \<longleftrightarrow> r \<in> set records \<and> rh_id (snd r) = rid \<and>
     (\<forall>q \<in> set records. rh_id (snd q) = rid \<longrightarrow> rh_version (snd q) \<le> rh_version (snd r) \<and>
        (rh_version (snd q) = rh_version (snd r) \<longrightarrow> fst q \<le> fst r))"

definition latest_of :: "u64 \<Rightarrow> nat \<times> RecordHeader \<Rightarrow> u64 \<times> u64 \<times> u16 \<times> u64" where
  "latest_of header_size r = (of_nat (fst r), header_size + rh_len (snd r), rh_version (snd r), rh_bucket (snd r))"

definition gather :: "u64 \<Rightarrow> (nat \<times> RecordHeader) list \<Rightarrow> latest" where
  "gather header_size records =
     foldl (\<lambda>latest r. entry_update (rh_id (snd r)) (latest_of header_size r) (newest (latest_of header_size r)) latest) [] records"

lemma gather_snoc:
  "gather hs (records @ [r]) = entry_update (rh_id (snd r)) (latest_of hs r) (newest (latest_of hs r)) (gather hs records)"
  by (simp add: gather_def)

lemma distinct_gather: "distinct (map fst (gather hs records))"
  by (induction records rule: rev_induct) (simp_all add: gather_snoc distinct_entry_update, simp add: gather_def)

lemma gather_newest:
  assumes "sorted_wrt (\<lambda>a b. fst a < fst b) records"
  shows "case map_of (gather hs records) rid of
      None \<Rightarrow> \<forall>r \<in> set records. rh_id (snd r) \<noteq> rid
    | Some l \<Rightarrow> \<exists>r. newest_of records rid r \<and> l = latest_of hs r"
  using assms
proof (induction records rule: rev_induct)
  case Nil
  then show ?case by (simp add: gather_def)
next
  case (snoc r records)
  have last: "fst q < fst r" if "q \<in> set records" for q using snoc.prems that by (auto simp: sorted_wrt_append)
  have IH: "case map_of (gather hs records) rid of
      None \<Rightarrow> \<forall>r \<in> set records. rh_id (snd r) \<noteq> rid
    | Some l \<Rightarrow> \<exists>r. newest_of records rid r \<and> l = latest_of hs r"
    using snoc by (simp add: sorted_wrt_append)
  show ?case
  proof (cases "rh_id (snd r) = rid")
    case False
    with IH show ?thesis
      by (auto simp: gather_snoc map_of_entry_update newest_of_def split: option.splits)
  next
    case True
    show ?thesis
    proof (cases "map_of (gather hs records) rid")
      case None
      with IH True have "newest_of (records @ [r]) rid r" by (auto simp: newest_of_def)
      with None True show ?thesis
        by (auto simp: gather_snoc map_of_entry_update newest_def simp del: split_paired_Ex)
    next
      case (Some l)
      with IH obtain q where q: "newest_of records rid q" "l = latest_of hs q" by auto
      let ?new = "rh_version (snd q) \<le> rh_version (snd r)"
      have "newest_of (records @ [r]) rid (if ?new then r else q)"
        using q(1) True last by (auto simp: newest_of_def dest: order_trans less_imp_le)
      moreover have "map_of (gather hs (records @ [r])) rid = Some (latest_of hs (if ?new then r else q))"
        using Some True q(2) by (simp add: gather_snoc map_of_entry_update newest_def latest_of_def)
      ultimately show ?thesis by (auto simp del: split_paired_Ex)
    qed
  qed
qed

section \<open>The rebuilt index\<close>

definition latest_slot :: "u64 \<times> u64 \<times> u16 \<times> u64 \<Rightarrow> Slot" where
  "latest_slot l = \<lparr>sl_offset = fst l, sl_total_len = fst (snd l)\<rparr>"

lemma gather_visit:
  "fst (foldl (\<lambda>v (p, header). snd (rebuild_visit hs v (of_nat p) header True)) ([], runs) records) = gather hs records"
proof -
  have "fst (foldl (\<lambda>v (p, header). snd (rebuild_visit hs v (of_nat p) header True)) (l, runs) records) =
      foldl (\<lambda>latest r. entry_update (rh_id (snd r)) (latest_of hs r) (newest (latest_of hs r)) latest) l records" for l runs
    by (induction records arbitrary: l runs) (auto simp: rebuild_visit_def latest_of_def Let_def)
  then show ?thesis by (simp add: gather_def)
qed

context block_io
begin

lemma flush_if_ok:
  assumes "pf_ok pf" and "steady io"
  obtains io' pf' where "flush_if b D io pf = (Inr (), io', pf')" "steady io'" "pf_ok pf'" "pf_view pf' = pf_view pf"
proof (cases b)
  case True
  obtain io' pf' where fl: "PagedFile_flush D io pf = (Inr (), io', pf')" "steady io'" using flush_steady [OF assms(2)] by blast
  have "pf_settled (pf_view pf) pf'" using flush_Inr [OF fl(1) assms(1)] by simp
  from that [OF _ fl(2)] True fl(1) pf_settledD [OF this] show ?thesis by (simp add: flush_if_def)
qed (use assms that in \<open>simp add: flush_if_def\<close>)

lemma flush_and_sync_ok:
  assumes "pf_ok pf" and "steady io"
  obtains io' pf' where "flush_and_sync D io pf = (Inr (), io', pf')" "steady io'" "pf_ok pf'" "pf_view pf' = pf_view pf"
    "byte_at (f_content (pf_file pf')) = pf_view pf" "f_durable (pf_file pf') = f_content (pf_file pf')"
proof -
  obtain io1 pf1 where fl: "PagedFile_flush D io pf = (Inr (), io1, pf1)" "steady io1" using flush_steady [OF assms(2)] by blast
  obtain io2 f where sy: "sync D io1 (pf_file pf1) = (Inr (), io2, f)" "steady io2" using sync_steady [OF fl(2)] by blast
  have f: "f = (pf_file pf1)\<lparr>f_durable := f_content (pf_file pf1)\<rparr>" using sync_Inr [OF sy(1)] .
  have s: "pf_settled (pf_view pf) pf1" using flush_Inr [OF fl(1) assms(1)] by simp
  then have t: "pf_settled (pf_view pf) (pf1\<lparr>pf_file := f\<rparr>)" by (simp add: pf_settled_def f)
  have "flush_and_sync D io pf = (Inr (), io2, pf1\<lparr>pf_file := f\<rparr>)" using fl(1) sy(1) by (simp add: flush_and_sync_def)
  moreover have "byte_at (f_content f) = pf_view pf" "f_durable f = f_content f" using s by (simp_all add: f pf_settled_def)
  ultimately show ?thesis using that [OF _ sy(2)] pf_settledD [OF t] by simp
qed

lemma rebuild_slots_ok:
  assumes "pf_ok (ix_paged_file ix)" and "steady io"
    and "\<forall>rid \<in> set ids. unat rid < ID_MAX \<and> (\<exists>offset len v b. map_of latest rid = Some (offset, len, v, b) \<and>
      offset \<noteq> 0 \<and> unat offset < 9223372036854775808)"
  shows "\<exists>io' ix'. rebuild_slots D latest ids io ix = (Inr (), io', ix') \<and> steady io' \<and> pf_ok (ix_paged_file ix') \<and>
    (\<forall>rid. ix_slot ix' rid = (if rid \<in> set ids then Live (latest_slot (the (map_of latest rid))) else ix_slot ix rid))"
  using assms
proof (induction ids arbitrary: io ix)
  case (Cons rid ids)
  obtain offset len v b where l: "unat rid < ID_MAX" "map_of latest rid = Some (offset, len, v, b)" "offset \<noteq> 0"
      "unat offset < 9223372036854775808"
    using Cons.prems(3) by auto
  let ?slot = "\<lparr>sl_offset = offset, sl_total_len = len\<rparr>"
  obtain io1 ix1 where s: "IndexFile_stage_slot D io ix rid (Some ?slot) = (Inr (), io1, ix1)" "steady io1"
    using stage_slot_steady(1) [OF Cons.prems(2)] by blast
  have s1: "pf_ok (ix_paged_file ix1)" "ix_slot ix1 = (ix_slot ix)(rid := Live ?slot)"
    using stage_slot_Inr [OF s(1) Cons.prems(1) l(1)] l(3,4) by simp_all
  obtain io2 pf where f: "flush_if (4194304 < pending_bytes (ix_paged_file ix1)) D io1 (ix_paged_file ix1) = (Inr (), io2, pf)"
      "steady io2" "pf_ok pf" "pf_view pf = pf_view (ix_paged_file ix1)"
    using flush_if_ok [OF s1(1) s(2)] by blast
  have "ix_slot (ix1\<lparr>ix_paged_file := pf\<rparr>) = ix_slot ix1" using f(4) by (intro ext) (simp add: ix_slot_def)
  with Cons.IH [of "ix1\<lparr>ix_paged_file := pf\<rparr>" io2] f(1-3) Cons.prems(3) l(2) s(1) s1(2) show ?case by (auto simp: latest_slot_def)
qed simp

lemma create_in_ok:
  assumes "steady io"
  obtains pf io' dir' where "create_in D dir name kind layout io = (Inr pf, io', dir')" "steady io'" "pf_ok pf"
    "pf_view pf = byte_at (header_page kind layout)" "dr_files dir' = (dr_files dir)(name \<mapsto> pf_file pf)" "dr_capacity dir' = dr_capacity dir"
proof -
  obtain f where f: "open_direct dir name True = Inr f" by (cases "dr_files dir name") (auto simp: open_direct_def)
  obtain pf io' f' where c: "PagedFile_create D io f kind layout = (Inr pf, io', f')" "steady io'" using create_steady [OF assms] by blast
  note facts = create_Inr [OF c(1)]
  have "pf_file pf = f'" using facts by (simp add: PagedFile_handle_def)
  moreover have "pf_ok pf" "pf_view pf = byte_at (header_page kind layout)"
    using facts by (simp_all add: pf_ok_handle pf_view_handle)
  ultimately show ?thesis using that f c by (simp add: create_in_def dir_put_def)
qed

lemma rebuild_index_ok:
  assumes st: "steady io"
    and latest: "\<And>rid l. map_of latest rid = Some l \<Longrightarrow> unat rid < ID_MAX \<and> fst l \<noteq> 0 \<and> unat (fst l) < 9223372036854775808"
  shows "\<exists>io' dir' f. rebuild_index D dir layout latest io = (Inr (), io', dir') \<and> steady io' \<and>
    dr_files dir' = (dr_files dir)(''index.hs'' \<mapsto> f) \<and> f_durable f = f_content f \<and>
    (\<forall>rid. ix_slot \<lparr>ix_paged_file = PagedFile_handle f\<rparr> rid = (case map_of latest rid of None \<Rightarrow> Empty
      | Some l \<Rightarrow> Live (latest_slot l)))"
proof -
  obtain pf io1 dir1 where c: "create_in D dir ''index.hs'' 0x49 layout io = (Inr pf, io1, dir1)" "steady io1" "pf_ok pf"
      "pf_view pf = byte_at (header_page 0x49 layout)" "dr_files dir1 = (dr_files dir)(''index.hs'' \<mapsto> pf_file pf)"
    using create_in_ok [OF st] by blast
  let ?ix = "\<lparr>ix_paged_file = pf\<rparr>" and ?ids = "sort (map fst latest)"
  have ids: "rid \<in> set ?ids \<longleftrightarrow> map_of latest rid \<noteq> None" for rid by (simp add: map_of_eq_None_iff)
  have "\<forall>rid \<in> set ?ids. unat rid < ID_MAX \<and> (\<exists>offset len v b. map_of latest rid = Some (offset, len, v, b) \<and>
      offset \<noteq> 0 \<and> unat offset < 9223372036854775808)"
    using latest ids by (metis (no_types, lifting) fst_conv not_None_eq prod_cases4)
  then obtain io2 ix2 where s: "rebuild_slots D latest ?ids io1 ?ix = (Inr (), io2, ix2)" "steady io2" "pf_ok (ix_paged_file ix2)"
      "\<And>rid. ix_slot ix2 rid = (if rid \<in> set ?ids then Live (latest_slot (the (map_of latest rid))) else ix_slot ?ix rid)"
    using rebuild_slots_ok [of ?ix io1 ?ids latest] c(2,3) by auto
  obtain io3 pf3 where f: "flush_and_sync D io2 (ix_paged_file ix2) = (Inr (), io3, pf3)" "steady io3" "pf_view pf3 = pf_view (ix_paged_file ix2)"
      "byte_at (f_content (pf_file pf3)) = pf_view (ix_paged_file ix2)" "f_durable (pf_file pf3) = f_content (pf_file pf3)"
    using flush_and_sync_ok [OF s(3,2)] by blast
  have "ix_slot ?ix rid = Empty" for rid
    using ix_slot_zeros [of ?ix "header_page 0x49 layout" 0 rid] c(4) header_page_facts(1) by simp
  moreover have "ix_slot \<lparr>ix_paged_file = PagedFile_handle (pf_file pf3)\<rparr> = ix_slot ix2"
    using f(4) by (intro ext) (simp add: ix_slot_def pf_view_handle)
  ultimately have "ix_slot \<lparr>ix_paged_file = PagedFile_handle (pf_file pf3)\<rparr> rid = (case map_of latest rid of None \<Rightarrow> Empty
      | Some l \<Rightarrow> Live (latest_slot l))" for rid
    using s(4) [of rid] ids [of rid] by (auto split: option.splits)
  with c(1,5) s(1) f(1,2,5) show ?thesis by (auto simp: rebuild_index_def dir_put_def)
qed

end

section \<open>A rebuild succeeds\<close>

context block_io
begin

lemma stage_rows_steady:
  "steady io \<Longrightarrow> \<exists>io' pf'. stage_rows D rows start io pf = (Inr (), io', pf') \<and> steady io'"
proof (induction rows arbitrary: start io pf)
  case (Cons row rows)
  obtain io1 pf1 where "PagedFile_stage D io pf start [RegistryRow_encode row (replicate REGISTRY_ROW_SIZE 0)] = (Inr (), io1, pf1)" "steady io1"
    using stage_steady [OF Cons.prems] by blast
  with Cons.IH show ?case by simp
qed simp

lemma flush_and_sync_steady:
  assumes "steady io"
  obtains io' pf' where "flush_and_sync D io pf = (Inr (), io', pf')" "steady io'" "f_durable (pf_file pf') = f_content (pf_file pf')"
proof -
  obtain io1 pf1 where fl: "PagedFile_flush D io pf = (Inr (), io1, pf1)" "steady io1" using flush_steady [OF assms] by blast
  obtain io2 f where sy: "sync D io1 (pf_file pf1) = (Inr (), io2, f)" "steady io2" using sync_steady [OF fl(2)] by blast
  with that [of io2 "pf1\<lparr>pf_file := f\<rparr>"] fl(1) sync_Inr [OF sy(1)] show ?thesis by (simp add: flush_and_sync_def)
qed

lemma rebuild_registry_steady:
  assumes "steady io" and "region_slots config \<noteq> 0"
  shows "\<exists>io' dir' f. rebuild_registry D order dir layout config latest runs io = (Inr (), io', dir') \<and> steady io' \<and>
    dr_files dir' = (dr_files dir)(''registry.hs'' \<mapsto> f) \<and> f_durable f = f_content f"
proof -
  obtain pf io1 dir1 where c: "create_in D dir ''registry.hs'' 0x52 layout io = (Inr pf, io1, dir1)" "steady io1"
      "dr_files dir1 = (dr_files dir)(''registry.hs'' \<mapsto> pf_file pf)"
    using create_in_ok [OF assms(1)] by blast
  obtain io2 pf2 where r: "stage_rows D (data_rows runs) PAGE_SIZE_U64 io1 pf = (Inr (), io2, pf2)" "steady io2"
    using stage_rows_steady [OF c(2)] by blast
  let ?rows = "region_rows (region_slots config) (region_buckets order (region_slots config) latest)"
  obtain io3 pf3 where s: "stage_rows D ?rows (PAGE_SIZE_U64 + of_nat (length runs * REGISTRY_ROW_SIZE)) io2 pf2 = (Inr (), io3, pf3)" "steady io3"
    using stage_rows_steady [OF r(2)] by blast
  obtain io4 pf4 where "flush_and_sync D io3 pf3 = (Inr (), io4, pf4)" "steady io4" "f_durable (pf_file pf4) = f_content (pf_file pf4)"
    using flush_and_sync_steady [OF s(2)] by blast
  with c(1,3) r(1) s(1) assms(2) show ?thesis by (auto simp: rebuild_registry_def dir_put_def Let_def)
qed

lemma open_in_ok:
  assumes "steady io" and "dr_files dir name = Some f"
    and "FileHeader_decode (read_zeros (f_content f) 0 4096) = Some \<lparr>fh_kind = kind, fh_layout = layout\<rparr>"
  obtains io' where "open_in D dir name kind layout io = (Inr (PagedFile_handle f), io')" "steady io'"
  using open_steady [OF assms(1), of f kind layout] assms(2,3) that by (auto simp: open_in_def open_direct_def)

text \<open>The newest version of each identifier gets its slot; nothing else has one.\<close>

lemma rebuild_written:
  assumes st: "steady io" and data: "dr_files dir ''data.hs'' = Some f"
    and header: "FileHeader_decode (read_zeros (f_content f) 0 4096) = Some \<lparr>fh_kind = 0x44, fh_layout = layout\<rparr>"
    and wb: "wb \<longleftrightarrow> layout = LAYOUT_BUCKET" and slots: "wb \<longrightarrow> region_slots config \<noteq> 0"
    and len: "length (f_content f) \<le> OFF_MAX" and sane: "lengths_sane wb (byte_at (f_content f)) (length (f_content f)) True 4096"
    and records: "records = all_records wb checked (byte_at (f_content f)) (length (f_content f)) 4096"
    and ids: "\<forall>(p, header) \<in> set records. unat (rh_id header) < ID_MAX"
  shows "\<exists>stats io' dir' g. rebuild D order dir io layout checked config = (Inr stats, io', dir') \<and> steady io' \<and>
    dr_files dir' ''data.hs'' = Some f \<and> dr_files dir' ''index.hs'' = Some g \<and> f_durable g = f_content g \<and>
    (\<exists>dir0 latest io0 io1 dir1. rebuild_index D dir0 layout latest io0 = (Inr (), io1, dir1) \<and> steady io0 \<and>
      (\<forall>l \<in> set latest. unat (fst l) < ID_MAX) \<and> dr_files dir1 ''index.hs'' = Some g) \<and>
    (\<forall>rid. (\<exists>r. newest_of records rid r \<and> ix_slot \<lparr>ix_paged_file = PagedFile_handle g\<rparr> rid =
        Live \<lparr>sl_offset = of_nat (fst r), sl_total_len = of_nat (header_len wb) + rh_len (snd r)\<rparr>) \<or>
      (\<forall>r \<in> set records. rh_id (snd r) \<noteq> rid) \<and> ix_slot \<lparr>ix_paged_file = PagedFile_handle g\<rparr> rid = Empty)"
proof -
  let ?hs = "of_nat (header_len wb) :: u64" and ?pf = "PagedFile_handle f" and ?h = "byte_at (f_content f)"
  obtain io1 where o: "open_in D dir ''data.hs'' 0x44 layout io = (Inr ?pf, io1)" "steady io1"
    using open_in_ok [OF st data header] by blast
  have size: "unat (PagedFile_size ?pf) = length (f_content f)"
    using len by (simp add: PagedFile_size_def PagedFile_handle_def file_len_def unat_of_nat_nowrap)
  let ?s = "WalkStats_default\<lparr>ws_last_end := PAGE_SIZE_U64\<rparr>"
  have b: "unat PAGE_SIZE_U64 \<le> OFF_MAX" "unat (PagedFile_size ?pf) \<le> OFF_MAX" "lengths_sane wb (pf_view ?pf) (unat (PagedFile_size ?pf)) True (unat PAGE_SIZE_U64)"
    using sane len unfolding size pf_view_handle by (simp_all add: PAGE_SIZE_U64_eq)
  obtain io2 pf2 where w: "walk D io1 ?pf wb checked PAGE_SIZE_U64 (PagedFile_size ?pf) True (rebuild_visit ?hs) ([], []) =
      (Inr (scan wb checked ?h (length (f_content f)) True (rebuild_visit ?hs) 4096 ?s ([], [])), io2, pf2)"
      "steady io2" "pf_still ?pf pf2"
    using walk_scan [OF pf_ok_handle o(2) b, of checked "rebuild_visit ?hs" "([], [])"]
    unfolding size pf_view_handle PAGE_SIZE_U64_eq by auto
  have "fst (snd (scan wb checked ?h (length (f_content f)) True (rebuild_visit ?hs) 4096 ?s ([], []))) = gather ?hs records"
    using gather_visit [of ?hs "[]" records] unfolding records
    by (subst scan_all_records [where step = "\<lambda>v p header. snd (rebuild_visit ?hs v p header True)"])
      (auto simp: rebuild_visit_def Let_def)
  then obtain stats runs where sc: "scan wb checked ?h (length (f_content f)) True (rebuild_visit ?hs) 4096 ?s ([], []) = (stats, gather ?hs records, runs)"
    by (metis prod.collapse)
  have file2: "pf_file pf2 = f" using w(3) by (simp add: pf_still_def PagedFile_handle_def)
  have sorted: "sorted_wrt (\<lambda>a b. fst a < fst b) records"
      "\<And>r. r \<in> set records \<Longrightarrow> 4096 \<le> fst r \<and> fst r \<le> OFF_MAX \<and> unat (rh_id (snd r)) < ID_MAX"
    using all_records_sorted [of wb checked ?h "length (f_content f)" 4096] len ids unfolding records by fastforce+
  note newest = gather_newest [OF sorted(1), where hs = ?hs]
  have l: "unat rid < ID_MAX \<and> fst l \<noteq> 0 \<and> unat (fst l) < 9223372036854775808" if some: "map_of (gather ?hs records) rid = Some l" for rid l
  proof -
    obtain r where r: "newest_of records rid r" "l = latest_of ?hs r" using newest [of rid] some by auto
    have "unat (of_nat (fst r) :: u64) = fst r" using sorted(2) [of r] r(1) by (intro unat_of_nat_nowrap) (auto simp: newest_of_def)
    with sorted(2) [of r] r show ?thesis by (auto simp: newest_of_def latest_of_def)
  qed
  obtain io3 dir3 g where ix: "rebuild_index D (dir_put dir ''data.hs'' f) layout (gather ?hs records) io2 = (Inr (), io3, dir3)" "steady io3"
      "dr_files dir3 = (dr_files (dir_put dir ''data.hs'' f))(''index.hs'' \<mapsto> g)" "f_durable g = f_content g"
      "\<And>rid. ix_slot \<lparr>ix_paged_file = PagedFile_handle g\<rparr> rid = (case map_of (gather ?hs records) rid of None \<Rightarrow> Empty | Some l \<Rightarrow> Live (latest_slot l))"
    using rebuild_index_ok [OF w(2) l, where dir = "dir_put dir ''data.hs'' f" and layout = layout] by blast
  have slot: "(\<exists>r. newest_of records rid r \<and> ix_slot \<lparr>ix_paged_file = PagedFile_handle g\<rparr> rid =
        Live \<lparr>sl_offset = of_nat (fst r), sl_total_len = ?hs + rh_len (snd r)\<rparr>) \<or>
      (\<forall>r \<in> set records. rh_id (snd r) \<noteq> rid) \<and> ix_slot \<lparr>ix_paged_file = PagedFile_handle g\<rparr> rid = Empty" for rid
    using newest [of rid] ix(5) [of rid] by (auto simp: latest_slot_def latest_of_def split: option.splits simp del: split_paired_Ex)
  have "\<forall>l \<in> set (gather ?hs records). unat (fst l) < ID_MAX"
    using l map_of_is_SomeI [OF distinct_gather [of ?hs records]] by (metis prod.collapse)
  then have made: "\<exists>dir0 latest io0 io1 dir1. rebuild_index D dir0 layout latest io0 = (Inr (), io1, dir1) \<and> steady io0 \<and>
      (\<forall>l \<in> set latest. unat (fst l) < ID_MAX) \<and> dr_files dir1 ''index.hs'' = Some g"
    using ix(1,3) w(2) by (metis fun_upd_same)
  note steps = o(1) w(1) sc file2 ix(1-4) made
  show ?thesis
  proof (cases wb)
    case False
    with wb steps slot show ?thesis by (simp add: rebuild_def dir_put_def)
  next
    case True
    obtain io4 dir4 k where "rebuild_registry D order dir3 layout config (gather ?hs records) runs io3 = (Inr (), io4, dir4)" "steady io4"
        "dr_files dir4 = (dr_files dir3)(''registry.hs'' \<mapsto> k)"
      using rebuild_registry_steady [OF ix(2)] slots True by blast
    with True wb steps slot show ?thesis by (simp add: rebuild_def dir_put_def)
  qed
qed

lemma rebuild_ok:
  assumes st: "steady io" and data: "dr_files dir ''data.hs'' = Some f"
    and header: "FileHeader_decode (read_zeros (f_content f) 0 4096) = Some \<lparr>fh_kind = 0x44, fh_layout = layout\<rparr>"
    and wb: "wb \<longleftrightarrow> layout = LAYOUT_BUCKET" and slots: "wb \<longrightarrow> region_slots config \<noteq> 0"
    and len: "length (f_content f) \<le> OFF_MAX" and sane: "lengths_sane wb (byte_at (f_content f)) (length (f_content f)) True 4096"
    and records: "records = all_records wb checked (byte_at (f_content f)) (length (f_content f)) 4096"
    and ids: "\<forall>(p, header) \<in> set records. unat (rh_id header) < ID_MAX"
  shows "\<exists>stats io' dir' g. rebuild D order dir io layout checked config = (Inr stats, io', dir') \<and> steady io' \<and>
    dr_files dir' ''data.hs'' = Some f \<and> dr_files dir' ''index.hs'' = Some g \<and> f_durable g = f_content g \<and>
    (\<forall>rid. (\<exists>r. newest_of records rid r \<and> ix_slot \<lparr>ix_paged_file = PagedFile_handle g\<rparr> rid =
        Live \<lparr>sl_offset = of_nat (fst r), sl_total_len = of_nat (header_len wb) + rh_len (snd r)\<rparr>) \<or>
      (\<forall>r \<in> set records. rh_id (snd r) \<noteq> rid) \<and> ix_slot \<lparr>ix_paged_file = PagedFile_handle g\<rparr> rid = Empty)"
  using rebuild_written [OF assms] by blast

end

text \<open>A data file that is a log and nothing else.\<close>

lemma all_records_log:
  assumes "log_at wb checked h p log" and "log_end wb p log = e" and "e \<le> OFF_MAX"
  shows "all_records wb checked h e p = log_visits wb checked p log \<and> lengths_sane wb h e True p"
  using assms
proof (induction wb checked h p log rule: log_at.induct)
  case (1 wb checked h p)
  then have "p = e" by simp
  then show ?case by (simp add: all_records.simps [of wb checked h e e] lengths_sane.simps [of wb h e True e] header_len_def)
next
  case (2 wb checked h p bucket rid version payload log)
  let ?q = "p + (header_len wb + length payload)"
  have q: "?q \<le> e" using "2.prems"(2) log_end_ge [of ?q wb log] by simp
  have "holds_at h p (record_bytes wb checked bucket rid version payload)" using "2.prems"(1) by simp
  note rec = record_at_holds [OF this q "2.prems"(3)]
  have "length_sane wb h p"
    using rec(1,3) q "2.prems"(3) by (auto simp: length_sane_def record_at_def split: option.splits if_splits)
  then show ?case
    using "2.prems" "2.IH" q rec by (simp add: all_records.simps [of wb checked h e p] lengths_sane.simps [of wb h e True p])
qed

text \<open>
  C13: on a device that does not fail, a rebuild makes an index from the data file alone. It gives each
  identifier of an intact record the slot of its record with the highest version, the last one in the
  file among equals, whatever lies between the records; no other identifier has a slot, and the index is
  durable. No bytes may pass for a header whose length wraps around (\<open>lengths_sane\<close>), and a bucket heap
  needs a region of at least one slot.
\<close>

theorem rebuild_newest_wins:
  assumes "healthy io" and "dr_files dir ''data.hs'' = Some f"
    and "FileHeader_decode (read_zeros (f_content f) 0 4096) = Some \<lparr>fh_kind = 0x44, fh_layout = layout\<rparr>"
    and "wb \<longleftrightarrow> layout = LAYOUT_BUCKET" and "wb \<longrightarrow> region_slots config \<noteq> 0"
    and "length (f_content f) \<le> OFF_MAX" and "lengths_sane wb (byte_at (f_content f)) (length (f_content f)) True 4096"
    and "records = all_records wb checked (byte_at (f_content f)) (length (f_content f)) 4096"
    and "\<forall>(p, header) \<in> set records. unat (rh_id header) < ID_MAX"
  shows "\<exists>stats io' dir' g. rebuild sync_block_io order dir io layout checked config = (Inr stats, io', dir') \<and>
    dr_files dir' ''data.hs'' = Some f \<and> dr_files dir' ''index.hs'' = Some g \<and> f_durable g = f_content g \<and>
    (\<forall>rid. (\<exists>r. newest_of records rid r \<and> ix_slot \<lparr>ix_paged_file = PagedFile_handle g\<rparr> rid =
        Live \<lparr>sl_offset = of_nat (fst r), sl_total_len = of_nat (header_len wb) + rh_len (snd r)\<rparr>) \<or>
      (\<forall>r \<in> set records. rh_id (snd r) \<noteq> rid) \<and> ix_slot \<lparr>ix_paged_file = PagedFile_handle g\<rparr> rid = Empty)"
  using blocking.rebuild_ok [OF assms] by blast

definition example_versions :: File where
  "example_versions = \<lparr>f_content = header_page 0x44 LAYOUT_APPEND @ record_bytes False True 0 9 1 [1, 2, 3] @ record_bytes False True 0 9 2 [4],
     f_durable = [], f_limit = 1048576\<rparr>"

lemma example_versions_log:
  "log_at False True (byte_at (f_content example_versions)) 4096 [(0, 9, 1, [1, 2, 3]), (0, 9, 2, [4])]"
  "length (f_content example_versions) = 4160"
  "FileHeader_decode (read_zeros (f_content example_versions) 0 4096) = Some \<lparr>fh_kind = 0x44, fh_layout = LAYOUT_APPEND\<rparr>"
  by (auto simp: example_versions_def header_page_facts holds_at_nth byte_at_def nth_append header_len_def read_zeros_header
      header_page_facts(2) [where rest = "[]", simplified])

theorem rebuild_newest_wins_witness:
  "\<exists>stats io' dir' g. rebuild sync_block_io id \<lparr>dr_files = [''data.hs'' \<mapsto> example_versions], dr_capacity = 1048576\<rparr> SyncIo_new LAYOUT_APPEND True HeapConfig_default =
     (Inr stats, io', dir') \<and> dr_files dir' ''index.hs'' = Some g \<and>
     ix_slot \<lparr>ix_paged_file = PagedFile_handle g\<rparr> 9 = Live \<lparr>sl_offset = 4129, sl_total_len = 31\<rparr>"
proof -
  let ?dir = "\<lparr>dr_files = [''data.hs'' \<mapsto> example_versions], dr_capacity = 1048576\<rparr>" and ?h = "byte_at (f_content example_versions)"
  let ?h1 = "stored_header False True 0 9 1 [1, 2, 3]" and ?h2 = "stored_header False True 0 9 2 [4]"
  have a: "all_records False True ?h 4160 4096 = [(4096, ?h1), (4129, ?h2)]" "lengths_sane False ?h 4160 True 4096"
    using all_records_log [OF example_versions_log(1), of 4160] by (simp_all add: header_len_def)
  have ids: "rh_id ?h1 = 9" "rh_id ?h2 = 9" "rh_version ?h1 = 1" "rh_version ?h2 = 2" "rh_len ?h2 = 1"
    by (simp_all add: stored_header_def record_header_def)
  obtain stats io' dir' g where r: "rebuild sync_block_io id ?dir SyncIo_new LAYOUT_APPEND True HeapConfig_default = (Inr stats, io', dir')"
      "dr_files dir' ''index.hs'' = Some g"
    and slots: "\<And>rid. (\<exists>r. newest_of [(4096, ?h1), (4129, ?h2)] rid r \<and> ix_slot \<lparr>ix_paged_file = PagedFile_handle g\<rparr> rid =
        Live \<lparr>sl_offset = of_nat (fst r), sl_total_len = of_nat (header_len False) + rh_len (snd r)\<rparr>) \<or>
      (\<forall>r \<in> set [(4096, ?h1), (4129, ?h2)]. rh_id (snd r) \<noteq> rid) \<and> ix_slot \<lparr>ix_paged_file = PagedFile_handle g\<rparr> rid = Empty"
    using rebuild_newest_wins [OF SyncIo_new_healthy, of ?dir example_versions LAYOUT_APPEND False HeapConfig_default "[(4096, ?h1), (4129, ?h2)]" True id]
    by (auto simp: example_versions_log a ids LAYOUT_APPEND_def LAYOUT_BUCKET_def)
  have "newest_of [(4096, ?h1), (4129, ?h2)] 9 r \<longleftrightarrow> r = (4129, ?h2)" for r
    using word_less_nat_alt [of 1 "2 :: u16"] by (auto simp: newest_of_def ids not_le [symmetric])
  with slots [of 9] have "ix_slot \<lparr>ix_paged_file = PagedFile_handle g\<rparr> 9 = Live \<lparr>sl_offset = 4129, sl_total_len = 31\<rparr>"
    by (simp add: ids header_len_def)
  with r show ?thesis by blast
qed

end
