(* ===== verification/Heap.thy ===== *)
theory Heap
  imports Append Bucket
begin

text \<open>
  The heap of \<open>src/src/heap.rs\<close>: records inserted, read, updated and deleted by identifier over a data
  file, an index and an optional registry, with flushes and the sync policy. Generic in the device
  and in the placement. Shown, for every placement that meets its contract: the heap is a map from
  identifiers to payloads, each operation is the map operation it should be, and after a flush the
  whole map is on durable storage.
\<close>

section \<open>State\<close>

record HeapStats =
  data_file_bytes :: u64
  data_used_bytes :: u64
  index_file_bytes :: u64
  registry_file_bytes :: u64

record ('io, 'p) Heap =
  h_io :: 'io
  h_placement :: 'p
  h_data :: DataFile
  h_index :: IndexFile
  h_registry :: "PagedFile option"
  h_config :: HeapConfig
  h_dir :: string
  operations_since_sync :: u32
  armed :: bool

section \<open>Flushing and syncing the files\<close>

definition Heap_flush_data :: "'io BlockIo \<Rightarrow> ('io, 'p) Heap \<Rightarrow> unit res \<times> ('io, 'p) Heap" where
  "Heap_flush_data D h =
     (case PagedFile_flush D (h_io h) (df_paged_file (h_data h)) of
        (r, io, pf) \<Rightarrow> (r, h\<lparr>h_io := io, h_data := (h_data h)\<lparr>df_paged_file := pf\<rparr>\<rparr>))"

definition Heap_sync_data :: "'io BlockIo \<Rightarrow> ('io, 'p) Heap \<Rightarrow> unit res \<times> ('io, 'p) Heap" where
  "Heap_sync_data D h =
     (let pf = df_paged_file (h_data h) in
      case sync D (h_io h) (pf_file pf) of
        (r, io, f) \<Rightarrow> (r, h\<lparr>h_io := io, h_data := (h_data h)\<lparr>df_paged_file := pf\<lparr>pf_file := f\<rparr>\<rparr>\<rparr>))"

definition Heap_flush_index :: "'io BlockIo \<Rightarrow> ('io, 'p) Heap \<Rightarrow> unit res \<times> ('io, 'p) Heap" where
  "Heap_flush_index D h =
     (case PagedFile_flush D (h_io h) (ix_paged_file (h_index h)) of
        (r, io, pf) \<Rightarrow> (r, h\<lparr>h_io := io, h_index := (h_index h)\<lparr>ix_paged_file := pf\<rparr>\<rparr>))"

definition Heap_sync_index :: "'io BlockIo \<Rightarrow> ('io, 'p) Heap \<Rightarrow> unit res \<times> ('io, 'p) Heap" where
  "Heap_sync_index D h =
     (let pf = ix_paged_file (h_index h) in
      case sync D (h_io h) (pf_file pf) of
        (r, io, f) \<Rightarrow> (r, h\<lparr>h_io := io, h_index := (h_index h)\<lparr>ix_paged_file := pf\<lparr>pf_file := f\<rparr>\<rparr>\<rparr>))"

definition Heap_flush_registry :: "'io BlockIo \<Rightarrow> ('io, 'p) Heap \<Rightarrow> unit res \<times> ('io, 'p) Heap" where
  "Heap_flush_registry D h =
     (case h_registry h of
        None \<Rightarrow> (Inr (), h)
      | Some pf \<Rightarrow>
          (case PagedFile_flush D (h_io h) pf of
             (r, io, pf) \<Rightarrow> (r, h\<lparr>h_io := io, h_registry := Some pf\<rparr>)))"

definition Heap_sync_registry :: "'io BlockIo \<Rightarrow> ('io, 'p) Heap \<Rightarrow> unit res \<times> ('io, 'p) Heap" where
  "Heap_sync_registry D h =
     (case h_registry h of
        None \<Rightarrow> (Inr (), h)
      | Some pf \<Rightarrow>
          (case sync D (h_io h) (pf_file pf) of
             (r, io, f) \<Rightarrow> (r, h\<lparr>h_io := io, h_registry := Some (pf\<lparr>pf_file := f\<rparr>)\<rparr>)))"

definition Heap_registry_pending :: "('io, 'p) Heap \<Rightarrow> bool" where
  "Heap_registry_pending h \<longleftrightarrow> (case h_registry h of None \<Rightarrow> False | Some pf \<Rightarrow> PagedFile_has_pending pf)"

definition Heap_commit_registry :: "'io BlockIo \<Rightarrow> ('io, 'p) Heap \<Rightarrow> unit res \<times> ('io, 'p) Heap" where
  "Heap_commit_registry D h =
     (if Heap_registry_pending h then and_then (Heap_flush_registry D h) (\<lambda>_. Heap_sync_registry D)
      else (Inr (), h))"

definition Heap_commit :: "'io BlockIo \<Rightarrow> ('io, 'p) Heap \<Rightarrow> unit res \<times> ('io, 'p) Heap" where
  "Heap_commit D h =
     and_then (Heap_commit_registry D h) (\<lambda>_ h.
     and_then (Heap_flush_data D h) (\<lambda>_ h.
     and_then (Heap_sync_data D h) (\<lambda>_ h.
     Heap_flush_index D h)))"

definition Heap_flush :: "'io BlockIo \<Rightarrow> ('io, 'p) Heap \<Rightarrow> unit res \<times> ('io, 'p) Heap" where
  "Heap_flush D h =
     and_then (Heap_commit D h) (\<lambda>_ h.
     and_then (Heap_flush_index D h) (\<lambda>_ h.
     and_then (Heap_sync_index D h) (\<lambda>_ h.
     Heap_sync_registry D h)))"

definition Heap_after_write :: "'io BlockIo \<Rightarrow> ('io, 'p) Heap \<Rightarrow> unit res \<times> ('io, 'p) Heap" where
  "Heap_after_write D h =
     (let h = h\<lparr>operations_since_sync := operations_since_sync h + 1\<rparr>;
          due = (case sync_policy (h_config h) of
                   EveryN sync_interval \<Rightarrow> 0 < sync_interval \<and> operations_since_sync h mod sync_interval = 0
                 | SyncNone \<Rightarrow> False)
      in if due then Heap_commit D h
         else if pending_limit (h_config h) <
                 pending_bytes (df_paged_file (h_data h)) + pending_bytes (ix_paged_file (h_index h))
         then Heap_commit D h
         else (Inr (), h))"

section \<open>Operations on records\<close>

definition Heap_alloc ::
  "'io BlockIo \<Rightarrow> ('io, 'p) Placement \<Rightarrow> ('io, 'p) Heap \<Rightarrow> u64 \<Rightarrow> u64 \<Rightarrow> (u64 \<times> u64) res \<times> ('io, 'p) Heap" where
  "Heap_alloc D P h bucket total_len =
     (case pl_alloc P D (h_io h) (h_config h) (h_placement h) (h_data h) (h_registry h) bucket total_len of
        (r, io, p, df, reg) \<Rightarrow> (r, h\<lparr>h_io := io, h_placement := p, h_data := df, h_registry := reg\<rparr>))"

definition Heap_alloc_update ::
  "'io BlockIo \<Rightarrow> ('io, 'p) Placement \<Rightarrow> ('io, 'p) Heap \<Rightarrow> u64 \<Rightarrow> u64 \<Rightarrow> u64 res \<times> ('io, 'p) Heap" where
  "Heap_alloc_update D P h bucket total_len =
     (case pl_update_alloc P D (h_io h) (h_config h) (h_placement h) (h_data h) (h_registry h) bucket total_len of
        (r, io, p, df, reg) \<Rightarrow> (r, h\<lparr>h_io := io, h_placement := p, h_data := df, h_registry := reg\<rparr>))"

definition Heap_stage_record ::
  "'io BlockIo \<Rightarrow> ('io, 'p) Heap \<Rightarrow> u64 \<Rightarrow> u64 \<Rightarrow> u64 \<Rightarrow> u16 \<Rightarrow> bytes \<Rightarrow> unit res \<times> ('io, 'p) Heap" where
  "Heap_stage_record D h off bucket rid version payload =
     (case DataFile_stage_record D (h_io h) (h_data h) off bucket rid version payload of
        (r, io, df) \<Rightarrow> (r, h\<lparr>h_io := io, h_data := df\<rparr>))"

definition Heap_stage_slot ::
  "'io BlockIo \<Rightarrow> ('io, 'p) Heap \<Rightarrow> u64 \<Rightarrow> Slot option \<Rightarrow> unit res \<times> ('io, 'p) Heap" where
  "Heap_stage_slot D h rid slot =
     (case IndexFile_stage_slot D (h_io h) (h_index h) rid slot of
        (r, io, ix) \<Rightarrow> (r, h\<lparr>h_io := io, h_index := ix\<rparr>))"

text \<open>\<open>index.read_slot(..)?.ok_or(NotFound(id))?\<close>.\<close>

definition Heap_find_slot :: "'io BlockIo \<Rightarrow> ('io, 'p) Heap \<Rightarrow> u64 \<Rightarrow> Slot res \<times> ('io, 'p) Heap" where
  "Heap_find_slot D h rid =
     (case IndexFile_read_slot D (h_io h) (h_index h) rid of
        (Inl e, io, ix) \<Rightarrow> (Inl e, h\<lparr>h_io := io, h_index := ix\<rparr>)
      | (Inr None, io, ix) \<Rightarrow> (Inl (Err (NotFound rid)), h\<lparr>h_io := io, h_index := ix\<rparr>)
      | (Inr (Some slot), io, ix) \<Rightarrow> (Inr slot, h\<lparr>h_io := io, h_index := ix\<rparr>))"

definition Heap_insert_into ::
  "'io BlockIo \<Rightarrow> ('io, 'p) Placement \<Rightarrow> ('io, 'p) Heap \<Rightarrow> u64 \<Rightarrow> bytes \<Rightarrow> u64 res \<times> ('io, 'p) Heap" where
  "Heap_insert_into D P h bucket payload =
     (let total_len = DataFile_record_header_len (h_data h) + of_nat (length payload) in
      and_then (Heap_alloc D P h bucket total_len) (\<lambda>(off, rid) h.
      and_then (Heap_stage_record D h off bucket rid 1 payload) (\<lambda>_ h.
      and_then (Heap_stage_slot D h rid (Some \<lparr>sl_offset = off, sl_total_len = total_len\<rparr>)) (\<lambda>_ h.
      and_then (Heap_after_write D h) (\<lambda>_ h.
      (Inr rid, h))))))"

definition Heap_insert ::
  "'io BlockIo \<Rightarrow> ('io, 'p) Placement \<Rightarrow> ('io, 'p) Heap \<Rightarrow> bytes \<Rightarrow> u64 res \<times> ('io, 'p) Heap" where
  "Heap_insert D P h payload = Heap_insert_into D P h 0 payload"

definition Heap_read_record :: "'io BlockIo \<Rightarrow> ('io, 'p) Heap \<Rightarrow> Slot \<Rightarrow> u64 \<Rightarrow> bytes res \<times> ('io, 'p) Heap" where
  "Heap_read_record D h slot rid =
     (case DataFile_read_record D (h_io h) (h_data h) (sl_offset slot) (sl_total_len slot) rid of
        (Inl e, io, df) \<Rightarrow> (Inl e, h\<lparr>h_io := io, h_data := df\<rparr>)
      | (Inr (_, out), io, df) \<Rightarrow> (Inr out, h\<lparr>h_io := io, h_data := df\<rparr>))"

definition Heap_read :: "'io BlockIo \<Rightarrow> ('io, 'p) Heap \<Rightarrow> u64 \<Rightarrow> bytes res \<times> ('io, 'p) Heap" where
  "Heap_read D h rid =
     and_then (Heap_find_slot D h rid) (\<lambda>slot h. Heap_read_record D h slot rid)"

fun batch_items :: "u64 list \<Rightarrow> Slot option list \<Rightarrow> item list res" where
  "batch_items (rid # ids) (slot # slots) =
     (case slot of
        None \<Rightarrow> Inl (Err (NotFound rid))
      | Some slot \<Rightarrow>
          (case batch_items ids slots of
             Inl e \<Rightarrow> Inl e
           | Inr items \<Rightarrow> Inr ((sl_offset slot, sl_total_len slot, rid) # items)))"
| "batch_items _ _ = Inr []"

definition Heap_read_batch :: "'io BlockIo \<Rightarrow> ('io, 'p) Heap \<Rightarrow> u64 list \<Rightarrow> bytes list res \<times> ('io, 'p) Heap" where
  "Heap_read_batch D h ids =
     (case IndexFile_read_slots D (h_io h) (h_index h) ids of
        (Inl e, io, ix) \<Rightarrow> (Inl e, h\<lparr>h_io := io, h_index := ix\<rparr>)
      | (Inr slots, io, ix) \<Rightarrow>
          let h = h\<lparr>h_io := io, h_index := ix\<rparr> in
          case batch_items ids slots of
            Inl e \<Rightarrow> (Inl e, h)
          | Inr items \<Rightarrow>
              (case DataFile_read_many D (h_io h) (h_data h) items of
                 (r, io, df) \<Rightarrow> (r, h\<lparr>h_io := io, h_data := df\<rparr>)))"

definition Heap_read_header :: "'io BlockIo \<Rightarrow> ('io, 'p) Heap \<Rightarrow> Slot \<Rightarrow> u64 \<Rightarrow> RecordHeader res \<times> ('io, 'p) Heap" where
  "Heap_read_header D h slot rid =
     (case DataFile_read_header D (h_io h) (h_data h) (sl_offset slot) rid of
        (r, io, df) \<Rightarrow> (r, h\<lparr>h_io := io, h_data := df\<rparr>))"

definition Heap_update ::
  "'io BlockIo \<Rightarrow> ('io, 'p) Placement \<Rightarrow> ('io, 'p) Heap \<Rightarrow> u64 \<Rightarrow> bytes \<Rightarrow> unit res \<times> ('io, 'p) Heap" where
  "Heap_update D P h rid payload =
     and_then (Heap_find_slot D h rid) (\<lambda>slot h.
     and_then (Heap_read_header D h slot rid) (\<lambda>old h.
     let total_len = DataFile_record_header_len (h_data h) + of_nat (length payload) in
     and_then (Heap_alloc_update D P h (rh_bucket old) total_len) (\<lambda>off h.
     and_then (Heap_stage_record D h off (rh_bucket old) rid (rh_version old + 1) payload) (\<lambda>_ h.
     and_then (Heap_stage_slot D h rid (Some \<lparr>sl_offset = off, sl_total_len = total_len\<rparr>)) (\<lambda>_ h.
     Heap_after_write D h)))))"

definition Heap_stage_tombstone :: "'io BlockIo \<Rightarrow> ('io, 'p) Heap \<Rightarrow> u64 \<Rightarrow> Slot \<Rightarrow> unit res \<times> ('io, 'p) Heap" where
  "Heap_stage_tombstone D h rid old =
     (case IndexFile_stage_tombstone D (h_io h) (h_index h) rid old of
        (r, io, ix) \<Rightarrow> (r, h\<lparr>h_io := io, h_index := ix\<rparr>))"

definition Heap_delete :: "'io BlockIo \<Rightarrow> ('io, 'p) Heap \<Rightarrow> u64 \<Rightarrow> unit res \<times> ('io, 'p) Heap" where
  "Heap_delete D h rid =
     and_then (Heap_find_slot D h rid) (\<lambda>old h.
     and_then (Heap_stage_tombstone D h rid old) (\<lambda>_ h.
     Heap_after_write D h))"

section \<open>Counters, statistics and the end of a heap\<close>

definition Heap_io_counters :: "'io BlockIo \<Rightarrow> ('io, 'p) Heap \<Rightarrow> IoCounters" where
  "Heap_io_counters D h = counters D (h_io h)"

definition Heap_reset_io_counters :: "'io BlockIo \<Rightarrow> ('io, 'p) Heap \<Rightarrow> ('io, 'p) Heap" where
  "Heap_reset_io_counters D h = h\<lparr>h_io := reset_counters D (h_io h)\<rparr>"

definition Heap_stats :: "('io, 'p) Placement \<Rightarrow> ('io, 'p) Heap \<Rightarrow> HeapStats" where
  "Heap_stats P h =
     \<lparr>data_file_bytes = PagedFile_size (df_paged_file (h_data h)),
      data_used_bytes = pl_used_bytes P (h_placement h),
      index_file_bytes = PagedFile_size (ix_paged_file (h_index h)),
      registry_file_bytes = (case h_registry h of None \<Rightarrow> 0 | Some pf \<Rightarrow> PagedFile_size pf)\<rparr>"

text \<open>Dropping a heap flushes it, and ignores a failure to do so, unless it was told to crash.\<close>

definition Heap_drop :: "'io BlockIo \<Rightarrow> ('io, 'p) Heap \<Rightarrow> ('io, 'p) Heap" where
  "Heap_drop D h = (if armed h then snd (Heap_flush D h) else h)"

definition Heap_simulate_crash :: "'io BlockIo \<Rightarrow> ('io, 'p) Heap \<Rightarrow> ('io, 'p) Heap" where
  "Heap_simulate_crash D h = Heap_drop D (h\<lparr>armed := False\<rparr>)"

section \<open>The map a heap stands for\<close>

definition slot_payload :: "DataFile \<Rightarrow> Slot \<Rightarrow> bytes" where
  "slot_payload df slot =
     map (\<lambda>k. df_view df (unat (sl_offset slot) + header_len (df_with_bucket df) + k))
       [0..<unat (sl_total_len slot) - header_len (df_with_bucket df)]"

definition heap_map :: "('io, 'p) Heap \<Rightarrow> u64 \<rightharpoonup> bytes" where
  "heap_map h rid =
     (case ix_slot (h_index h) rid of Live slot \<Rightarrow> Some (slot_payload (h_data h) slot) | _ \<Rightarrow> None)"

text \<open>
  A live slot points to an intact record of its identifier that lies in bytes the placement has
  handed out; only identifiers handed out have a slot.
\<close>

definition slot_record :: "nat set \<Rightarrow> DataFile \<Rightarrow> u64 \<Rightarrow> Slot \<Rightarrow> bytes \<Rightarrow> bool" where
  "slot_record own df rid slot payload \<longleftrightarrow>
     4096 \<le> unat (sl_offset slot) \<and> sl_total_len slot = of_nat (record_len df payload) \<and>
     (\<exists>bucket version. df_record df (unat (sl_offset slot)) bucket rid version payload) \<and>
     {unat (sl_offset slot)..<unat (sl_offset slot) + record_len df payload} \<subseteq> own"

definition heap_ok ::
  "(HeapConfig \<Rightarrow> 'p \<Rightarrow> DataFile \<Rightarrow> bool) \<Rightarrow> ('p \<Rightarrow> nat set) \<Rightarrow> ('p \<Rightarrow> nat set) \<Rightarrow> ('io, 'p) Heap \<Rightarrow> bool" where
  "heap_ok good owned taken h \<longleftrightarrow>
     good (h_config h) (h_placement h) (h_data h) \<and> pf_ok (df_paged_file (h_data h)) \<and> pf_ok (ix_paged_file (h_index h)) \<and>
     (\<forall>rid. unat rid \<notin> taken (h_placement h) \<longrightarrow> ix_slot (h_index h) rid = Empty) \<and>
     (\<forall>rid slot. ix_slot (h_index h) rid = Live slot \<longrightarrow>
        (\<exists>payload. slot_record (owned (h_placement h)) (h_data h) rid slot payload))"

lemma slot_record_payload:
  assumes "slot_record own df rid slot payload"
  shows "slot_payload df slot = payload"
proof -
  obtain bucket version where r: "df_record df (unat (sl_offset slot)) bucket rid version payload"
    using assms by (auto simp: slot_record_def)
  let ?hl = "header_len (df_with_bucket df)"
  have len: "unat (sl_total_len slot) - ?hl = length payload"
    using assms df_recordD(3) [OF r] by (simp add: slot_record_def record_len_def)
  show ?thesis
  proof (rule nth_equalityI)
    show "length (slot_payload df slot) = length payload" by (simp add: slot_payload_def len)
    fix k
    assume "k < length (slot_payload df slot)"
    then have k: "k < length payload" by (simp add: slot_payload_def len)
    then have "df_view df (unat (sl_offset slot) + (?hl + k)) = payload ! k"
      using df_recordD(2) [OF r] by (auto simp: holds_at_nth record_bytes_def nth_append)
    with k show "slot_payload df slot ! k = payload ! k" by (simp add: slot_payload_def len add.assoc)
  qed
qed

lemma ix_slot_view: "pf_view (ix_paged_file ix') = pf_view (ix_paged_file ix) \<Longrightarrow> ix_slot ix' = ix_slot ix"
  by (rule ext) (simp add: ix_slot_def)

text \<open>What steps leave that change no record.\<close>

definition df_stay :: "DataFile \<Rightarrow> DataFile \<Rightarrow> bool" where
  "df_stay df df' \<longleftrightarrow> df_with_bucket df' = df_with_bucket df \<and> df_integrity df' = df_integrity df \<and>
     pf_ok (df_paged_file df') \<and> df_view df' = df_view df \<and> pf_extent (df_paged_file df) (df_paged_file df')"

definition heap_stay :: "('io, 'p) Heap \<Rightarrow> ('io, 'p) Heap \<Rightarrow> bool" where
  "heap_stay h h' \<longleftrightarrow> h_placement h' = h_placement h \<and> h_config h' = h_config h \<and> df_stay (h_data h) (h_data h') \<and>
     pf_ok (ix_paged_file (h_index h')) \<and> ix_slot (h_index h') = ix_slot (h_index h)"

lemma pf_extent_trans: "pf_extent a b \<Longrightarrow> pf_extent b d \<Longrightarrow> pf_extent a d"
  by (simp add: pf_extent_def)

lemma heap_stay_refl: "pf_ok (df_paged_file (h_data h)) \<Longrightarrow> pf_ok (ix_paged_file (h_index h)) \<Longrightarrow> heap_stay h h"
  by (simp add: heap_stay_def df_stay_def pf_extent_def)

lemma heap_stay_trans: "heap_stay a b \<Longrightarrow> heap_stay b d \<Longrightarrow> heap_stay a d"
  by (auto simp: heap_stay_def df_stay_def intro: pf_extent_trans)

lemma heap_stay_ok:
  assumes "heap_stay h h'"
  shows "pf_ok (df_paged_file (h_data h'))" "pf_ok (ix_paged_file (h_index h'))"
  using assms by (simp_all add: heap_stay_def df_stay_def)

lemma heap_stay_map: "heap_stay h h' \<Longrightarrow> heap_map h' = heap_map h"
  by (rule ext) (simp add: heap_map_def heap_stay_def df_stay_def slot_payload_def split: SlotState.split)

lemma slot_record_view:
  assumes "slot_record own df rid slot payload" and "df_with_bucket df' = df_with_bucket df"
    and "df_integrity df' = df_integrity df" and "df_view df' = df_view df" and "own \<subseteq> own'"
  shows "slot_record own' df' rid slot payload"
  using assms by (auto simp: slot_record_def df_record_def record_len_def)

lemma df_keep_stay: "df_keep df df' \<Longrightarrow> df_stay df df'"
  by (simp add: df_stay_def df_keepD pf_same_extent)

lemma heap_okD:
  assumes "heap_ok good owned taken h"
  shows "good (h_config h) (h_placement h) (h_data h)" "pf_ok (df_paged_file (h_data h))"
    "pf_ok (ix_paged_file (h_index h))" "unat rid \<notin> taken (h_placement h) \<Longrightarrow> ix_slot (h_index h) rid = Empty"
    "ix_slot (h_index h) rid = Live slot \<Longrightarrow> \<exists>payload. slot_record (owned (h_placement h)) (h_data h) rid slot payload"
  using assms by (auto simp: heap_ok_def)

context block_io
begin

lemma sync_stay:
  assumes "sync D io (pf_file pf) = (Inr u, io', f')" and "pf_ok pf"
  shows "pf_ok (pf\<lparr>pf_file := f'\<rparr>)" "pf_view (pf\<lparr>pf_file := f'\<rparr>) = pf_view pf" "pf_extent pf (pf\<lparr>pf_file := f'\<rparr>)"
    "f_durable f' = f_content (pf_file pf)" "f_content f' = f_content (pf_file pf)"
proof -
  have f': "f' = (pf_file pf)\<lparr>f_durable := f_content (pf_file pf)\<rparr>" using sync_Inr [OF assms(1)] .
  show "pf_ok (pf\<lparr>pf_file := f'\<rparr>)" "pf_view (pf\<lparr>pf_file := f'\<rparr>) = pf_view pf" "pf_extent pf (pf\<lparr>pf_file := f'\<rparr>)"
    "f_durable f' = f_content (pf_file pf)" "f_content f' = f_content (pf_file pf)"
    using assms(2) by (simp_all add: f' pf_ok_def pf_view_def pf_extent_def fun_eq_iff split: option.split)
qed

lemma Heap_flush_data_Inr:
  assumes f: "Heap_flush_data D h = (Inr u, h')" and ok: "pf_ok (df_paged_file (h_data h))" "pf_ok (ix_paged_file (h_index h))"
  shows "heap_stay h h' \<and> pf_settled (df_view (h_data h)) (df_paged_file (h_data h'))"
proof -
  obtain io pf where fl: "PagedFile_flush D (h_io h) (df_paged_file (h_data h)) = (Inr u, io, pf)"
    and h': "h' = h\<lparr>h_io := io, h_data := (h_data h)\<lparr>df_paged_file := pf\<rparr>\<rparr>"
    using f by (auto simp: Heap_flush_data_def split: prod.splits)
  note r = flush_Inr [OF fl ok(1)]
  with ok(2) pf_settledD [of "df_view (h_data h)" pf] show ?thesis
    by (simp add: h' heap_stay_def df_stay_def pf_same_extent)
qed

lemma Heap_sync_data_Inr:
  assumes f: "Heap_sync_data D h = (Inr u, h')" and ok: "pf_ok (df_paged_file (h_data h))" "pf_ok (ix_paged_file (h_index h))"
  shows "heap_stay h h' \<and> f_durable (pf_file (df_paged_file (h_data h'))) = f_content (pf_file (df_paged_file (h_data h)))"
proof -
  let ?pf = "df_paged_file (h_data h)"
  obtain io f' where sy: "sync D (h_io h) (pf_file ?pf) = (Inr u, io, f')"
    and h': "h' = h\<lparr>h_io := io, h_data := (h_data h)\<lparr>df_paged_file := ?pf\<lparr>pf_file := f'\<rparr>\<rparr>\<rparr>"
    using f by (auto simp: Heap_sync_data_def Let_def split: prod.splits)
  from sync_stay [OF sy ok(1)] ok(2) show ?thesis by (simp add: h' heap_stay_def df_stay_def)
qed

lemma Heap_flush_index_Inr:
  assumes f: "Heap_flush_index D h = (Inr u, h')" and ok: "pf_ok (df_paged_file (h_data h))" "pf_ok (ix_paged_file (h_index h))"
  shows "heap_stay h h' \<and> pf_settled (pf_view (ix_paged_file (h_index h))) (ix_paged_file (h_index h')) \<and>
    h_data h' = h_data h"
proof -
  obtain io pf where fl: "PagedFile_flush D (h_io h) (ix_paged_file (h_index h)) = (Inr u, io, pf)"
    and h': "h' = h\<lparr>h_io := io, h_index := (h_index h)\<lparr>ix_paged_file := pf\<rparr>\<rparr>"
    using f by (auto simp: Heap_flush_index_def split: prod.splits)
  note r = flush_Inr [OF fl ok(2)]
  with ok(1) pf_settledD [of "pf_view (ix_paged_file (h_index h))" pf] show ?thesis
    by (auto simp: h' heap_stay_def df_stay_def pf_extent_def intro: ix_slot_view)
qed

lemma Heap_sync_index_Inr:
  assumes f: "Heap_sync_index D h = (Inr u, h')" and ok: "pf_ok (df_paged_file (h_data h))" "pf_ok (ix_paged_file (h_index h))"
  shows "heap_stay h h' \<and> f_durable (pf_file (ix_paged_file (h_index h'))) = f_content (pf_file (ix_paged_file (h_index h))) \<and>
    h_data h' = h_data h \<and> pf_view (ix_paged_file (h_index h')) = pf_view (ix_paged_file (h_index h))"
proof -
  let ?pf = "ix_paged_file (h_index h)"
  obtain io f' where sy: "sync D (h_io h) (pf_file ?pf) = (Inr u, io, f')"
    and h': "h' = h\<lparr>h_io := io, h_index := (h_index h)\<lparr>ix_paged_file := ?pf\<lparr>pf_file := f'\<rparr>\<rparr>\<rparr>"
    using f by (auto simp: Heap_sync_index_def Let_def split: prod.splits)
  from sync_stay [OF sy ok(2)] ok(1) show ?thesis
    by (auto simp: h' heap_stay_def df_stay_def pf_extent_def intro: ix_slot_view)
qed

lemma Heap_registry_steps:
  assumes "Heap_flush_registry D h = (r, h') \<or> Heap_sync_registry D h = (r, h') \<or> Heap_commit_registry D h = (r, h')"
  shows "h_data h' = h_data h \<and> h_index h' = h_index h \<and> h_placement h' = h_placement h \<and> h_config h' = h_config h"
  using assms
  by (auto simp: Heap_commit_registry_def Heap_flush_registry_def Heap_sync_registry_def and_then_def
      split: option.splits prod.splits sum.splits if_splits)

text \<open>None of these steps, failing ones included, changes the placement.\<close>

lemma Heap_file_steps_placement:
  "Heap_flush_data D h = (r, h') \<Longrightarrow> h_placement h' = h_placement h"
  "Heap_sync_data D h = (r, h') \<Longrightarrow> h_placement h' = h_placement h"
  "Heap_flush_index D h = (r, h') \<Longrightarrow> h_placement h' = h_placement h"
  "Heap_stage_record D h off bucket rid version payload = (r, h') \<Longrightarrow> h_placement h' = h_placement h"
  "Heap_stage_slot D h rid slot = (r, h') \<Longrightarrow> h_placement h' = h_placement h"
  by (auto simp: Heap_flush_data_def Heap_sync_data_def Heap_flush_index_def Heap_stage_record_def
      Heap_stage_slot_def Let_def split: prod.splits)

lemma Heap_commit_placement: "Heap_commit D h = (Inr u, h') \<Longrightarrow> h_placement h' = h_placement h"
  by (auto simp: Heap_commit_def Heap_file_steps_placement dest: Heap_registry_steps [OF disjI2 [OF disjI2]] elim!: and_then_Inr)

lemma Heap_after_write_placement: "Heap_after_write D h = (Inr u, h') \<Longrightarrow> h_placement h' = h_placement h"
  by (auto simp: Heap_after_write_def Let_def dest: Heap_commit_placement split: if_splits)

lemma Heap_write_placement:
  assumes "Heap_stage_record D h off bucket rid version payload = (r1, h1)" and "Heap_stage_slot D h1 rid slot = (r2, h2)"
    and "Heap_after_write D h2 = (Inr u, h3)"
  shows "h_placement h3 = h_placement h"
  using Heap_file_steps_placement(4) [OF assms(1)] Heap_file_steps_placement(5) [OF assms(2)]
    Heap_after_write_placement [OF assms(3)] by simp

lemma Heap_commit_Inr:
  assumes c: "Heap_commit D h = (Inr u, h')" and ok: "pf_ok (df_paged_file (h_data h))" "pf_ok (ix_paged_file (h_index h))"
  shows "heap_stay h h' \<and> byte_at (f_durable (pf_file (df_paged_file (h_data h')))) = df_view (h_data h) \<and>
    pf_settled (pf_view (ix_paged_file (h_index h'))) (ix_paged_file (h_index h'))"
proof -
  obtain h1 h2 h3 where s1: "Heap_commit_registry D h = (Inr (), h1)" and s2: "Heap_flush_data D h1 = (Inr (), h2)"
    and s3: "Heap_sync_data D h2 = (Inr (), h3)" and s4: "Heap_flush_index D h3 = (Inr u, h')"
    using c by (auto simp: Heap_commit_def elim!: and_then_Inr)
  have a1: "h_data h1 = h_data h" "heap_stay h h1"
    using Heap_registry_steps [of h "Inr ()" h1] s1 ok by (auto simp: heap_stay_def df_stay_def pf_extent_def)
  then have ok1: "pf_ok (df_paged_file (h_data h1))" "pf_ok (ix_paged_file (h_index h1))"
    by (blast dest: heap_stay_ok)+
  note a2 = Heap_flush_data_Inr [OF s2 ok1]
  then have ok2: "pf_ok (df_paged_file (h_data h2))" "pf_ok (ix_paged_file (h_index h2))"
    by (blast dest: heap_stay_ok)+
  note a3 = Heap_sync_data_Inr [OF s3 ok2]
  then have ok3: "pf_ok (df_paged_file (h_data h3))" "pf_ok (ix_paged_file (h_index h3))"
    by (blast dest: heap_stay_ok)+
  note a4 = Heap_flush_index_Inr [OF s4 ok3]
  have "heap_stay h h'" using a1(2) a2 a3 a4 by (blast intro: heap_stay_trans)
  moreover have "byte_at (f_durable (pf_file (df_paged_file (h_data h')))) = df_view (h_data h)"
    using a1(1) a2 a3 a4 by (simp add: pf_settled_def)
  moreover have "pf_settled (pf_view (ix_paged_file (h_index h'))) (ix_paged_file (h_index h'))"
    using a4 pf_settledD(2) by metis
  ultimately show ?thesis by simp
qed

lemma Heap_after_write_Inr:
  assumes c: "Heap_after_write D h = (Inr u, h')" and ok: "pf_ok (df_paged_file (h_data h))" "pf_ok (ix_paged_file (h_index h))"
  shows "heap_stay h h'"
proof -
  let ?h = "h\<lparr>operations_since_sync := operations_since_sync h + 1\<rparr>"
  have "heap_stay h ?h" using ok by (simp add: heap_stay_def df_stay_def pf_extent_def)
  moreover have "heap_stay ?h h'"
    using c Heap_commit_Inr [of ?h u h'] ok heap_stay_refl [of ?h]
    by (auto simp: Heap_after_write_def Let_def split: if_splits SyncPolicy.splits)
  ultimately show ?thesis by (rule heap_stay_trans)
qed

lemma Heap_flush_Inr:
  assumes c: "Heap_flush D h = (Inr u, h')" and ok: "pf_ok (df_paged_file (h_data h))" "pf_ok (ix_paged_file (h_index h))"
  shows "heap_stay h h' \<and> byte_at (f_durable (pf_file (df_paged_file (h_data h')))) = df_view (h_data h) \<and>
    byte_at (f_durable (pf_file (ix_paged_file (h_index h')))) = pf_view (ix_paged_file (h_index h'))"
proof -
  obtain h1 h2 h3 where s1: "Heap_commit D h = (Inr (), h1)" and s2: "Heap_flush_index D h1 = (Inr (), h2)"
    and s3: "Heap_sync_index D h2 = (Inr (), h3)" and s4: "Heap_sync_registry D h3 = (Inr u, h')"
    using c by (auto simp: Heap_flush_def elim!: and_then_Inr)
  note a1 = Heap_commit_Inr [OF s1 ok]
  then have ok1: "pf_ok (df_paged_file (h_data h1))" "pf_ok (ix_paged_file (h_index h1))"
    by (blast dest: heap_stay_ok)+
  note a2 = Heap_flush_index_Inr [OF s2 ok1]
  then have ok2: "pf_ok (df_paged_file (h_data h2))" "pf_ok (ix_paged_file (h_index h2))"
    by (blast dest: heap_stay_ok)+
  note a3 = Heap_sync_index_Inr [OF s3 ok2]
  have a4: "h_data h' = h_data h3" "h_index h' = h_index h3" "heap_stay h3 h'"
    using Heap_registry_steps [of h3 "Inr u" h'] s4 a3 by (auto simp: heap_stay_def df_stay_def pf_extent_def)
  have "byte_at (f_durable (pf_file (ix_paged_file (h_index h')))) = pf_view (ix_paged_file (h_index h'))"
    using a2 a3 a4 pf_settledD(2,4) by metis
  then show ?thesis using a1 a2 a3 a4 by (auto intro: heap_stay_trans)
qed

end

section \<open>Writing a record\<close>

text \<open>Records in bytes already handed out are not touched by a write elsewhere.\<close>

lemma interval_disjoint:
  assumes "{a..<a + n} \<inter> {b..<b + m :: nat} = {}"
  shows "a + n \<le> b \<or> b + m \<le> a \<or> m = 0 \<or> n = 0"
proof (rule ccontr)
  assume "\<not> ?thesis"
  then have "max a b \<in> {a..<a + n} \<inter> {b..<b + m}" by auto
  with assms show False by blast
qed

lemma slot_record_overlay:
  assumes rec: "slot_record own df rid slot payload" and view: "pf_view pf = overlay (df_view df) off bs"
    and free: "{off..<off + length bs} \<inter> own = {}" and sub: "own \<subseteq> own'"
  shows "slot_record own' (df\<lparr>df_paged_file := pf\<rparr>) rid slot payload"
proof -
  let ?so = "unat (sl_offset slot)" and ?df = "df\<lparr>df_paged_file := pf\<rparr>"
  obtain bucket version where r: "df_record df ?so bucket rid version payload"
    using rec by (auto simp: slot_record_def)
  let ?rb = "record_bytes (df_with_bucket df) (df_integrity df) bucket rid version payload"
  have mine: "{?so..<?so + record_len df payload} \<subseteq> own" using rec by (simp add: slot_record_def)
  have "{?so..<?so + record_len df payload} \<inter> {off..<off + length bs} \<subseteq> own \<inter> {off..<off + length bs}"
    using mine by (rule Int_mono) simp
  then have apart: "{?so..<?so + record_len df payload} \<inter> {off..<off + length bs} = {}"
    by (simp only: Int_commute [of own] free subset_empty)
  have "length ?rb \<noteq> 0" unfolding length_record by (simp add: record_len_def header_len_def)
  with interval_disjoint [OF apart, folded length_record [of df "df_integrity df" bucket rid version payload]]
  have cases: "?so + length ?rb \<le> off \<or> off + length bs \<le> ?so \<or> length bs = 0" by blast
  have same: "overlay (df_view df) off bs = df_view df" if "length bs = 0"
    using that by (intro ext) (auto simp: overlay_def)
  have "holds_at (pf_view pf) ?so ?rb"
    using cases df_recordD(2) [OF r] same unfolding view by (metis holds_at_overlay_apart)
  then have "df_record ?df ?so bucket rid version payload"
    using r by (simp add: df_record_def)
  with rec sub show ?thesis by (auto simp: slot_record_def record_len_def)
qed

lemma slot_record_new:
  assumes view: "pf_view pf = overlay (df_view df) (unat off)
      (record_bytes (df_with_bucket df) (df_integrity df) bucket rid version payload)"
    and off: "4096 \<le> unat off" "unat off + record_len df payload \<le> OFF_MAX"
    and sub: "{unat off..<unat off + record_len df payload} \<subseteq> own"
  shows "slot_record own (df\<lparr>df_paged_file := pf\<rparr>) rid \<lparr>sl_offset = off, sl_total_len = of_nat (record_len df payload)\<rparr> payload"
proof -
  have "df_record (df\<lparr>df_paged_file := pf\<rparr>) (unat off) bucket rid version payload"
    using holds_at_overlay off(2) by (simp add: df_record_def view record_len_def)
  with off(1) sub show ?thesis by (auto simp: slot_record_def record_len_def)
qed

context placing
begin

lemma heap_ok_stay:
  assumes ok: "heap_ok good owned taken h" and st: "heap_stay h h'"
  shows "heap_ok good owned taken h'"
proof -
  have eq: "h_placement h' = h_placement h" "h_config h' = h_config h" "ix_slot (h_index h') = ix_slot (h_index h)"
    and df: "df_stay (h_data h) (h_data h')" using st by (simp_all add: heap_stay_def)
  have "good (h_config h') (h_placement h') (h_data h')"
    using good_extent [OF heap_okD(1) [OF ok]] df by (simp add: eq df_stay_def)
  moreover have "\<exists>payload. slot_record (owned (h_placement h')) (h_data h') rid slot payload"
    if "ix_slot (h_index h') rid = Live slot" for rid slot
    using heap_okD(5) [OF ok that [unfolded eq]] df unfolding eq df_stay_def
    by (meson order_refl slot_record_view)
  ultimately show ?thesis
    using heap_stay_ok [OF st] heap_okD(4) [OF ok] by (simp add: heap_ok_def eq)
qed

text \<open>
  The last three steps of an insertion or an update, from a state in which the bytes have been handed
  out but no slot points to them.
\<close>

lemma write_record_Inr:
  assumes s1: "Heap_stage_record D h off bucket rid version payload = (Inr u1, h1)"
    and s2: "Heap_stage_slot D h1 rid (Some \<lparr>sl_offset = off, sl_total_len = of_nat (record_len (h_data h) payload)\<rparr>) = (Inr u2, h2)"
    and s3: "Heap_after_write D h2 = (Inr u3, h3)"
    and g: "good (h_config h) (h_placement h) (h_data h)" "pf_ok (df_paged_file (h_data h))" "pf_ok (ix_paged_file (h_index h))"
    and off: "4096 \<le> unat off" "unat off + record_len (h_data h) payload \<le> OFF_MAX"
    and rid: "unat rid < ID_MAX" "unat rid \<in> taken (h_placement h)"
    and own: "{unat off..<unat off + record_len (h_data h) payload} \<inter> own = {}"
      "owned (h_placement h) = own \<union> {unat off..<unat off + record_len (h_data h) payload}"
    and empty: "\<And>i. unat i \<notin> taken (h_placement h) \<Longrightarrow> ix_slot (h_index h) i = Empty"
    and live: "\<And>i slot. ix_slot (h_index h) i = Live slot \<Longrightarrow> \<exists>p. slot_record own (h_data h) i slot p"
  shows "heap_ok good owned taken h3 \<and> heap_map h3 = (heap_map h)(rid \<mapsto> payload)"
proof -
  let ?df = "h_data h" and ?slot = "\<lparr>sl_offset = off, sl_total_len = of_nat (record_len (h_data h) payload)\<rparr>"
  obtain io1 df1 where d: "DataFile_stage_record D (h_io h) ?df off bucket rid version payload = (Inr u1, io1, df1)"
    and h1: "h1 = h\<lparr>h_io := io1, h_data := df1\<rparr>"
    using s1 by (auto simp: Heap_stage_record_def split: prod.splits)
  obtain pf1 where df1: "df1 = ?df\<lparr>df_paged_file := pf1\<rparr>" and pf1: "pf_ok pf1" "pf_same (df_paged_file ?df) pf1"
    and view: "pf_view pf1 = overlay (df_view ?df) (unat off) (record_bytes (df_with_bucket ?df) (df_integrity ?df) bucket rid version payload)"
    using stage_record_Inr [OF d g(2) off(2)] by blast
  obtain io2 ix2 where i: "IndexFile_stage_slot D (h_io h1) (h_index h1) rid (Some ?slot) = (Inr u2, io2, ix2)"
    and h2: "h2 = h1\<lparr>h_io := io2, h_index := ix2\<rparr>"
    using s2 by (auto simp: Heap_stage_slot_def split: prod.splits)
  have "sl_offset ?slot \<noteq> 0" "unat (sl_offset ?slot) < 9223372036854775808"
    using off by (auto simp: word_unat_eq_iff)
  then have ix2: "pf_ok (ix_paged_file ix2)" "ix_slot ix2 = (ix_slot (h_index h))(rid := Live ?slot)"
    using stage_slot_Inr [OF i _ rid(1)] g(3) by (simp_all add: h1)
  have old: "slot_record (owned (h_placement h)) df1 j slot p" if "slot_record own ?df j slot p" for j slot p
    unfolding df1 using that view own by (intro slot_record_overlay) (auto simp: record_len_def)
  have new: "slot_record (owned (h_placement h)) df1 rid ?slot payload"
    unfolding df1 using view off own(2) by (intro slot_record_new) auto
  have h2eq: "h_placement h2 = h_placement h" "h_config h2 = h_config h" "h_data h2 = df1" "h_index h2 = ix2"
    by (simp_all add: h2 h1)
  have g2: "good (h_config h2) (h_placement h2) (h_data h2)"
    unfolding h2eq by (rule good_extent [OF g(1)]) (simp add: df1 pf1(2) pf_same_extent)
  have live2: "\<exists>p. slot_record (owned (h_placement h2)) (h_data h2) j slot p"
    if "ix_slot (h_index h2) j = Live slot" for j slot
    using that old live new unfolding h2eq ix2(2) by (fastforce split: if_splits)
  have empty2: "ix_slot (h_index h2) j = Empty" if "unat j \<notin> taken (h_placement h2)" for j
    using that empty [of j] rid(2) unfolding h2eq ix2(2) by auto
  have ok2: "heap_ok good owned taken h2"
    using g2 live2 empty2 pf1(1) ix2(1) by (simp add: heap_ok_def h2eq df1)
  have "heap_map h2 j = ((heap_map h)(rid \<mapsto> payload)) j" for j
  proof (cases "ix_slot (h_index h) j")
    case (Live slot)
    then obtain p where p: "slot_record own ?df j slot p" using live by blast
    show ?thesis
      using Live slot_record_payload [OF p] slot_record_payload [OF old [OF p]] slot_record_payload [OF new]
      by (simp add: heap_map_def h2eq ix2(2))
  qed (use slot_record_payload [OF new] in \<open>simp_all add: heap_map_def h2eq ix2(2)\<close>)
  moreover have "heap_stay h2 h3"
    using Heap_after_write_Inr [OF s3] heap_okD(2,3) [OF ok2] by blast
  ultimately show ?thesis using heap_ok_stay [OF ok2] heap_stay_map by (metis ext)
qed

end

section \<open>The operations are map operations\<close>

lemma total_len_record: "DataFile_record_header_len df + of_nat (length payload) = of_nat (record_len df payload)"
  by (simp add: DataFile_record_header_len_def record_len_def)

lemma unat_total_len:
  assumes "record_len df payload \<le> OFF_MAX"
  shows "unat (of_nat (record_len df payload) :: u64) = record_len df payload"
  using assms by (intro unat_of_nat_nowrap) simp

lemma record_len_pos: "0 < record_len df payload"
  by (simp add: record_len_def header_len_def)

lemma record_len_cong: "df_with_bucket df' = df_with_bucket df \<Longrightarrow> record_len df' payload = record_len df payload"
  by (simp add: record_len_def)

context block_io
begin

lemma find_slot_Inr:
  assumes f: "Heap_find_slot D h rid = (r, h')" and rid: "unat rid < ID_MAX"
    and ok: "pf_ok (df_paged_file (h_data h))" "pf_ok (ix_paged_file (h_index h))"
  shows "r = Inr slot \<Longrightarrow> heap_stay h h' \<and> h_data h' = h_data h \<and> ix_slot (h_index h) rid = Live slot"
    and "steady (h_io h) \<Longrightarrow> heap_stay h h' \<and> steady (h_io h') \<and> h_data h' = h_data h \<and>
      r = (case ix_slot (h_index h) rid of Live slot \<Rightarrow> Inr slot | _ \<Rightarrow> Inl (Err (NotFound rid)))"
proof -
  have stay: "heap_stay h (h\<lparr>h_io := io, h_index := ix\<rparr>)" if "ix_keep (h_index h) ix" for io ix
    using that ok by (simp add: heap_stay_def df_stay_def pf_extent_def ix_keepD)
  { assume "r = Inr slot"
    then obtain io ix where rd: "IndexFile_read_slot D (h_io h) (h_index h) rid = (Inr (Some slot), io, ix)"
      and h': "h' = h\<lparr>h_io := io, h_index := ix\<rparr>"
      using f by (auto simp: Heap_find_slot_def split: prod.splits sum.splits option.splits)
    from read_slot_Inr [OF rd ok(2) rid] stay h'
    show "heap_stay h h' \<and> h_data h' = h_data h \<and> ix_slot (h_index h) rid = Live slot"
      by (simp add: ix_live_iff [symmetric]) }
  assume "steady (h_io h)"
  then obtain s io ix where rd: "IndexFile_read_slot D (h_io h) (h_index h) rid = (Inr s, io, ix)" "steady io"
    using read_slot_steady by blast
  with f have h': "h' = h\<lparr>h_io := io, h_index := ix\<rparr>" "r = (case s of Some slot \<Rightarrow> Inr slot | None \<Rightarrow> Inl (Err (NotFound rid)))"
    by (auto simp: Heap_find_slot_def split: option.splits)
  have "s = ix_live (h_index h) rid" "ix_keep (h_index h) ix" using read_slot_Inr [OF rd(1) ok(2) rid] by simp_all
  with stay h' rd(2) show "heap_stay h h' \<and> steady (h_io h') \<and> h_data h' = h_data h \<and>
      r = (case ix_slot (h_index h) rid of Live slot \<Rightarrow> Inr slot | _ \<Rightarrow> Inl (Err (NotFound rid)))"
    by (simp add: ix_slot_def Slot_decode_def split: SlotState.split)
qed

end

context block_io
begin

lemma Heap_read_record_Inr:
  assumes c: "Heap_read_record D h slot rid = (r, h')" and rec: "slot_record own (h_data h) rid slot payload"
    and ok: "pf_ok (df_paged_file (h_data h))" "pf_ok (ix_paged_file (h_index h))"
  shows "r = Inr out \<Longrightarrow> out = payload \<and> heap_stay h h'"
    and "steady (h_io h) \<Longrightarrow> (\<exists>x. r = Inr x) \<and> steady (h_io h')"
proof -
  obtain rr io df where rd: "DataFile_read_record D (h_io h) (h_data h) (sl_offset slot) (sl_total_len slot) rid = (rr, io, df)"
    by (metis prod_cases3)
  have res: "h' = h\<lparr>h_io := io, h_data := df\<rparr>" "r = (case rr of Inl e \<Rightarrow> Inl e | Inr (_, out) \<Rightarrow> Inr out)"
    using c rd by (auto simp: Heap_read_record_def split: sum.splits)
  obtain bucket version where dr: "df_record (h_data h) (unat (sl_offset slot)) bucket rid version payload"
    and tl: "sl_total_len slot = of_nat (record_len (h_data h) payload)"
    using rec by (auto simp: slot_record_def)
  note rr = read_record_Inr [OF rd [unfolded tl] ok(1) dr]
  show "r = Inr out \<Longrightarrow> out = payload \<and> heap_stay h h'"
    using rr(1) res ok(2) by (auto simp: heap_stay_def df_keep_stay split: sum.splits)
  show "steady (h_io h) \<Longrightarrow> (\<exists>x. r = Inr x) \<and> steady (h_io h')"
    using rr(2) res by auto
qed

lemma Heap_read_header_Inr:
  assumes c: "Heap_read_header D h slot rid = (r, h')" and rec: "slot_record own (h_data h) rid slot payload"
    and ok: "pf_ok (df_paged_file (h_data h))" "pf_ok (ix_paged_file (h_index h))"
  shows "r = Inr header \<Longrightarrow> heap_stay h h'"
    and "steady (h_io h) \<Longrightarrow> (\<exists>x. r = Inr x) \<and> steady (h_io h')"
proof -
  obtain rr io df where rd: "DataFile_read_header D (h_io h) (h_data h) (sl_offset slot) rid = (rr, io, df)"
    by (metis prod_cases3)
  have res: "h' = h\<lparr>h_io := io, h_data := df\<rparr>" "r = rr" using c rd by (auto simp: Heap_read_header_def)
  obtain bucket version where dr: "df_record (h_data h) (unat (sl_offset slot)) bucket rid version payload"
    using rec by (auto simp: slot_record_def)
  note rr = read_header_Inr [OF rd ok(1) dr]
  show "r = Inr header \<Longrightarrow> heap_stay h h'"
    using rr(1) res ok(2) by (auto simp: heap_stay_def df_keep_stay)
  show "steady (h_io h) \<Longrightarrow> (\<exists>x. r = Inr x) \<and> steady (h_io h')"
    using rr(2) res by auto
qed

end

lemma heap_ok_find:
  assumes "heap_ok good owned taken h" and "ix_slot (h_index h) rid = Live slot"
  obtains payload where "slot_record (owned (h_placement h)) (h_data h) rid slot payload" "heap_map h rid = Some payload"
proof -
  obtain payload where p: "slot_record (owned (h_placement h)) (h_data h) rid slot payload"
    using heap_okD(5) [OF assms] by blast
  with slot_record_payload [OF p] assms(2) show thesis by (intro that) (simp_all add: heap_map_def)
qed

lemma batch_items_Inr:
  assumes "batch_items ids (map (ix_live ix) ids) = Inr items" and "\<And>rid slot. ix_slot ix rid = Live slot \<Longrightarrow>
      \<exists>payload. slot_record own df rid slot payload"
  shows "list_all2 (item_record df) items (map (\<lambda>rid. slot_payload df (the (ix_live ix rid))) ids) \<and>
    (\<forall>rid \<in> set ids. ix_live ix rid \<noteq> None)"
  using assms(1)
proof (induction ids arbitrary: items)
  case Nil
  then show ?case by simp
next
  case (Cons rid ids)
  obtain slot items' where slot: "ix_live ix rid = Some slot" and rest: "batch_items ids (map (ix_live ix) ids) = Inr items'"
    "items = (sl_offset slot, sl_total_len slot, rid) # items'"
    using Cons.prems by (auto split: option.splits sum.splits)
  obtain payload where p: "slot_record own df rid slot payload"
    using assms(2) slot by (auto simp: ix_live_iff)
  then have "item_record df (sl_offset slot, sl_total_len slot, rid) (slot_payload df slot)"
    using slot_record_payload [OF p] by (auto simp: item_record_def slot_record_def)
  with Cons.IH [OF rest(1)] slot rest(2) show ?case by simp
qed

lemma heap_map_live:
  assumes "ix_live (h_index h) rid \<noteq> None"
  shows "heap_map h rid = Some (slot_payload (h_data h) (the (ix_live (h_index h) rid)))"
proof -
  obtain slot where slot: "ix_live (h_index h) rid = Some slot" using assms by blast
  then have "ix_slot (h_index h) rid = Live slot" by (simp only: ix_live_iff)
  with slot show ?thesis by (simp add: heap_map_def)
qed

text \<open>The first identifier without a live slot fails a batch.\<close>

lemma batch_items_missing:
  "batch_items ids (map f ids) = Inl e \<Longrightarrow> \<exists>rid. find (\<lambda>rid. f rid = None) ids = Some rid \<and> e = Err (NotFound rid)"
  by (induction ids) (auto split: option.splits sum.splits)

lemma batch_items_found:
  "batch_items ids (map f ids) = Inr items \<Longrightarrow> find (\<lambda>rid. f rid = None) ids = None"
  by (induction ids arbitrary: items) (auto split: option.splits sum.splits)

lemma heap_map_None: "heap_map h rid = None \<longleftrightarrow> ix_live (h_index h) rid = None"
  by (simp add: heap_map_def ix_slot_def Slot_decode_def split: SlotState.split)

context block_io
begin

lemma read_Inr:
  assumes c: "Heap_read D h rid = (r, h')" and ok: "heap_ok good owned taken h" and rid: "unat rid < ID_MAX"
  shows "r = Inr out \<Longrightarrow> heap_map h rid = Some out \<and> heap_stay h h'"
    and "steady (h_io h) \<Longrightarrow> steady (h_io h') \<and> heap_stay h h' \<and>
      r = (case heap_map h rid of Some out \<Rightarrow> Inr out | None \<Rightarrow> Inl (Err (NotFound rid)))"
proof -
  obtain fr h1 where fs: "Heap_find_slot D h rid = (fr, h1)" by fastforce
  note find = find_slot_Inr [OF fs rid heap_okD(2,3) [OF ok]]
  have read: "(r = Inr out' \<longrightarrow> heap_map h rid = Some out' \<and> heap_stay h h') \<and>
      (steady (h_io h1) \<longrightarrow> (\<exists>x. r = Inr x) \<and> steady (h_io h'))"
    if fr: "fr = Inr slot" for slot out'
  proof -
    have st: "heap_stay h h1" and d: "h_data h1 = h_data h" and live: "ix_slot (h_index h) rid = Live slot"
      using find(1) [OF fr] by simp_all
    obtain p where p: "slot_record (owned (h_placement h)) (h_data h1) rid slot p" "heap_map h rid = Some p"
      using heap_ok_find [OF ok live] d by metis
    have "Heap_read_record D h1 slot rid = (r, h')" using c fs fr by (simp add: Heap_read_def)
    from Heap_read_record_Inr [OF this p(1) heap_stay_ok [OF st]] p(2) st show ?thesis
      by (auto intro: heap_stay_trans)
  qed
  { assume "r = Inr out"
    then obtain slot where "fr = Inr slot" using c fs by (cases fr) (auto simp: Heap_read_def)
    from read [OF this] \<open>r = Inr out\<close> show "heap_map h rid = Some out \<and> heap_stay h h'" by blast }
  assume st: "steady (h_io h)"
  show "steady (h_io h') \<and> heap_stay h h' \<and>
      r = (case heap_map h rid of Some out \<Rightarrow> Inr out | None \<Rightarrow> Inl (Err (NotFound rid)))"
  proof (cases "\<exists>slot. ix_slot (h_index h) rid = Live slot")
    case True
    then obtain slot where fr: "fr = Inr slot" using find(2) [OF st] by auto
    then obtain x where "r = Inr x" "steady (h_io h')" using read [OF fr] find(2) [OF st] by blast
    with read [OF fr, of x] show ?thesis by simp
  next
    case False
    then have "fr = Inl (Err (NotFound rid))" "heap_map h rid = None"
      using find(2) [OF st] by (auto simp: heap_map_def split: SlotState.splits)
    with c fs find(2) [OF st] show ?thesis by (simp add: Heap_read_def)
  qed
qed

lemma read_batch_Inr:
  assumes c: "Heap_read_batch D h ids = (Inr out, h')" and ok: "heap_ok good owned taken h"
    and ids: "\<forall>rid \<in> set ids. unat rid < ID_MAX"
  shows "map (heap_map h) ids = map Some out \<and> heap_stay h h'"
proof -
  obtain slots io ix items io' df where rs: "IndexFile_read_slots D (h_io h) (h_index h) ids = (Inr slots, io, ix)"
    and bi: "batch_items ids slots = Inr items"
    and rm: "DataFile_read_many D io (h_data h) items = (Inr out, io', df)"
    and h': "h' = h\<lparr>h_io := io', h_index := ix, h_data := df\<rparr>"
    using c by (auto simp: Heap_read_batch_def Let_def split: prod.splits sum.splits)
  have slots: "slots = map (ix_live (h_index h)) ids" "ix_keep (h_index h) ix"
    using read_slots_Inr(1) [OF rs heap_okD(3) [OF ok] ids refl] by simp_all
  note b = batch_items_Inr [OF bi [unfolded slots(1)] heap_okD(5) [OF ok]]
  note m = read_many_Inr(1) [OF rm heap_okD(2) [OF ok] conjunct1 [OF b] refl]
  have "map (heap_map h) ids = map Some out"
    using b m by (auto intro!: map_cong simp: heap_map_live comp_def)
  moreover have "heap_stay h h'"
    using m slots(2) by (simp add: h' heap_stay_def df_keep_stay ix_keepD)
  ultimately show ?thesis by simp
qed

lemma read_batch_steady:
  assumes st: "steady (h_io h)" and ok: "heap_ok good owned taken h" and ids: "\<forall>rid \<in> set ids. unat rid < ID_MAX"
  shows "\<exists>r h'. Heap_read_batch D h ids = (r, h') \<and> steady (h_io h') \<and> heap_stay h h' \<and>
    r = (case find (\<lambda>rid. heap_map h rid = None) ids of
           Some rid \<Rightarrow> Inl (Err (NotFound rid)) | None \<Rightarrow> Inr (map (\<lambda>rid. the (heap_map h rid)) ids))"
proof -
  obtain rs io ix where sl0: "IndexFile_read_slots D (h_io h) (h_index h) ids = (rs, io, ix)" by (metis prod_cases3)
  then obtain slots where sl: "IndexFile_read_slots D (h_io h) (h_index h) ids = (Inr slots, io, ix)" "steady io"
    using read_slots_Inr(2) [OF sl0 heap_okD(3) [OF ok] ids st] by blast
  have slots: "slots = map (ix_live (h_index h)) ids" "ix_keep (h_index h) ix"
    using read_slots_Inr(1) [OF sl(1) heap_okD(3) [OF ok] ids refl] by simp_all
  have keep: "heap_stay h (h\<lparr>h_io := io, h_index := ix\<rparr>)"
    using slots(2) heap_okD(2) [OF ok] by (simp add: heap_stay_def df_stay_def pf_extent_def ix_keepD)
  show ?thesis
  proof (cases "batch_items ids slots")
    case (Inl e)
    then obtain rid where "find (\<lambda>rid. heap_map h rid = None) ids = Some rid" "e = Err (NotFound rid)"
      using batch_items_missing [of ids "ix_live (h_index h)" e] slots(1) by (auto simp: heap_map_None)
    with Inl sl keep show ?thesis by (auto simp: Heap_read_batch_def Let_def)
  next
    case (Inr items)
    note b = batch_items_Inr [OF Inr [unfolded slots(1)] heap_okD(5) [OF ok]]
    obtain rr io' df where rm: "DataFile_read_many D io (h_data h) items = (rr, io', df)" by (metis prod_cases3)
    then obtain out where out: "rr = Inr out" "steady io'"
      using read_many_Inr(2) [OF rm heap_okD(2) [OF ok] conjunct1 [OF b] sl(2)] by blast
    have res: "Heap_read_batch D h ids = (Inr out, h\<lparr>h_io := io', h_index := ix, h_data := df\<rparr>)"
      using sl Inr rm out by (simp add: Heap_read_batch_def Let_def)
    have none: "find (\<lambda>rid. heap_map h rid = None) ids = None"
      using batch_items_found [OF Inr [unfolded slots(1)]] by (simp add: heap_map_None)
    note m = read_batch_Inr [OF res ok ids]
    then have "out = map (\<lambda>rid. the (heap_map h rid)) ids"
      by (metis (no_types, lifting) list.map_comp list.map_id option.sel comp_apply map_idI map_eq_conv)
    with res none m out show ?thesis by simp
  qed
qed

end

context placing
begin

text \<open>From the allocation on, an insertion and an update are the same.\<close>

lemma place_record_Inr:
  assumes ok: "heap_ok good owned taken h" and h1: "h1 = h\<lparr>h_io := io, h_placement := p, h_data := df, h_registry := reg\<rparr>"
    and al: "good (h_config h) p df" "df_grow (h_data h) df" "4096 \<le> unat off"
      "unat off + record_len (h_data h) payload \<le> OFF_MAX"
      "{unat off..<unat off + record_len (h_data h) payload} \<inter> owned (h_placement h) = {}"
      "owned p = owned (h_placement h) \<union> {unat off..<unat off + record_len (h_data h) payload}"
      "taken p = insert (unat rid) (taken (h_placement h))"
    and rid: "unat rid < ID_MAX"
    and s1: "Heap_stage_record D h1 off bucket rid version payload = (Inr u1, h2)"
    and s2: "Heap_stage_slot D h2 rid (Some \<lparr>sl_offset = off, sl_total_len = of_nat (record_len (h_data h) payload)\<rparr>) = (Inr u2, h3)"
    and s3: "Heap_after_write D h3 = (Inr u3, h')"
  shows "heap_ok good owned taken h' \<and> heap_map h' = (heap_map h)(rid \<mapsto> payload)"
proof -
  have df: "df_with_bucket df = df_with_bucket (h_data h)" "df_integrity df = df_integrity (h_data h)"
    "df_view df = df_view (h_data h)" "pf_ok (df_paged_file df)"
    using df_growD [OF al(2)] by simp_all
  have rl: "record_len (h_data h1) payload = record_len (h_data h) payload"
    using df by (simp add: h1 record_len_def)
  have map1: "heap_map h1 = heap_map h"
    using df by (intro ext) (simp add: heap_map_def h1 slot_payload_def split: SlotState.split)
  have "heap_ok good owned taken h' \<and> heap_map h' = (heap_map h1)(rid \<mapsto> payload)"
  proof (rule write_record_Inr [OF s1 s2 [folded rl] s3, where own = "owned (h_placement h)"])
    show "ix_slot (h_index h1) i = Empty" if "unat i \<notin> taken (h_placement h1)" for i
      using that al heap_okD(4) [OF ok, of i] by (simp add: h1)
    show "\<exists>p. slot_record (owned (h_placement h)) (h_data h1) i slot p" if "ix_slot (h_index h1) i = Live slot" for i slot
      using that heap_okD(5) [OF ok, of i slot] df by (auto simp: h1 intro: slot_record_view)
  qed (use al df rid heap_okD(3) [OF ok] rl in \<open>simp_all add: h1\<close>)
  then show ?thesis by (simp add: map1)
qed

theorem insert_into_Inr:
  assumes c: "Heap_insert_into D P h bucket payload = (Inr rid, h')" and ok: "heap_ok good owned taken h"
    and len: "record_len (h_data h) payload \<le> OFF_MAX" and rid: "unat rid < ID_MAX" and sane: "sane (h_placement h')"
  shows "heap_ok good owned taken h' \<and> heap_map h rid = None \<and> heap_map h' = (heap_map h)(rid \<mapsto> payload)"
proof -
  let ?total = "of_nat (record_len (h_data h) payload) :: u64"
  obtain off h1 h2 h3 where a: "Heap_alloc D P h bucket ?total = (Inr (off, rid), h1)"
    and s1: "Heap_stage_record D h1 off bucket rid 1 payload = (Inr (), h2)"
    and s2: "Heap_stage_slot D h2 rid (Some \<lparr>sl_offset = off, sl_total_len = ?total\<rparr>) = (Inr (), h3)"
    and s3: "Heap_after_write D h3 = (Inr (), h')"
    using c by (auto simp: Heap_insert_into_def Let_def total_len_record elim!: and_then_Inr)
  obtain io p df reg where al: "pl_alloc P D (h_io h) (h_config h) (h_placement h) (h_data h) (h_registry h) bucket ?total =
      (Inr (off, rid), io, p, df, reg)" and h1: "h1 = h\<lparr>h_io := io, h_placement := p, h_data := df, h_registry := reg\<rparr>"
    using a by (auto simp: Heap_alloc_def split: prod.splits)
  have ul: "unat ?total = record_len (h_data h) payload" by (rule unat_total_len [OF len])
  have "sane p" using sane Heap_write_placement [OF s1 s2 s3] by (simp add: h1)
  note al = alloc_Inr [OF al heap_okD(1,2) [OF ok] _ _ rid this, unfolded ul, OF record_len_pos len]
  have "heap_ok good owned taken h' \<and> heap_map h' = (heap_map h)(rid \<mapsto> payload)"
    using al by (intro place_record_Inr [OF ok h1 _ _ _ _ _ _ _ rid s1 s2 s3]) simp_all
  moreover have "heap_map h rid = None"
    using al heap_okD(4) [OF ok, of rid] by (simp add: heap_map_def)
  ultimately show ?thesis by simp
qed

theorem update_Inr:
  assumes c: "Heap_update D P h rid payload = (Inr u, h')" and ok: "heap_ok good owned taken h"
    and len: "record_len (h_data h) payload \<le> OFF_MAX" and rid: "unat rid < ID_MAX" and sane: "sane (h_placement h')"
  shows "heap_ok good owned taken h' \<and> heap_map h rid \<noteq> None \<and> heap_map h' = (heap_map h)(rid \<mapsto> payload)"
proof -
  obtain slot h1 old h2 off h3 h4 h5 where fs: "Heap_find_slot D h rid = (Inr slot, h1)"
    and rh: "Heap_read_header D h1 slot rid = (Inr old, h2)"
    and a: "Heap_alloc_update D P h2 (rh_bucket old) (of_nat (record_len (h_data h2) payload)) = (Inr off, h3)"
    and s1: "Heap_stage_record D h3 off (rh_bucket old) rid (rh_version old + 1) payload = (Inr (), h4)"
    and s2: "Heap_stage_slot D h4 rid (Some \<lparr>sl_offset = off, sl_total_len = of_nat (record_len (h_data h2) payload)\<rparr>) = (Inr (), h5)"
    and s3: "Heap_after_write D h5 = (Inr u, h')"
    using c by (auto simp: Heap_update_def Let_def total_len_record elim!: and_then_Inr)
  note find = find_slot_Inr(1) [OF fs rid heap_okD(2,3) [OF ok] refl]
  then have st1: "heap_stay h h1" and d1: "h_data h1 = h_data h" and live: "ix_slot (h_index h) rid = Live slot" by simp_all
  obtain p where p: "slot_record (owned (h_placement h)) (h_data h1) rid slot p" "heap_map h rid = Some p"
    using heap_ok_find [OF ok live] d1 by metis
  have st2: "heap_stay h h2"
    using st1 Heap_read_header_Inr(1) [OF rh p(1) heap_stay_ok [OF st1] refl] by (rule heap_stay_trans)
  note ok2 = heap_ok_stay [OF ok st2]
  let ?total = "of_nat (record_len (h_data h2) payload) :: u64"
  have len2: "record_len (h_data h2) payload \<le> OFF_MAX"
    using len st2 by (simp add: heap_stay_def df_stay_def record_len_def)
  obtain io q df reg where al: "pl_update_alloc P D (h_io h2) (h_config h2) (h_placement h2) (h_data h2) (h_registry h2) (rh_bucket old) ?total =
      (Inr off, io, q, df, reg)" and h3: "h3 = h2\<lparr>h_io := io, h_placement := q, h_data := df, h_registry := reg\<rparr>"
    using a by (auto simp: Heap_alloc_update_def split: prod.splits)
  have ul: "unat ?total = record_len (h_data h2) payload" by (rule unat_total_len [OF len2])
  have "sane q" using sane Heap_write_placement [OF s1 s2 s3] by (simp add: h3)
  note al = alloc_update_Inr [OF al heap_okD(1,2) [OF ok2] _ _ this, unfolded ul, OF record_len_pos len2]
  have "ix_slot (h_index h2) rid = Live slot" using st2 live by (simp add: heap_stay_def)
  then have "unat rid \<in> taken (h_placement h2)" using heap_okD(4) [OF ok2, of rid] by fastforce
  with al have "heap_ok good owned taken h' \<and> heap_map h' = (heap_map h2)(rid \<mapsto> payload)"
    by (intro place_record_Inr [OF ok2 h3 _ _ _ _ _ _ _ rid s1 s2 s3]) (simp_all add: insert_absorb)
  then show ?thesis using heap_stay_map [OF st2] p(2) by simp
qed

theorem delete_Inr:
  assumes c: "Heap_delete D h rid = (Inr u, h')" and ok: "heap_ok good owned taken h" and rid: "unat rid < ID_MAX"
  shows "heap_ok good owned taken h' \<and> heap_map h rid \<noteq> None \<and> heap_map h' = (heap_map h)(rid := None)"
proof -
  obtain slot h1 h2 where fs: "Heap_find_slot D h rid = (Inr slot, h1)"
    and ts: "Heap_stage_tombstone D h1 rid slot = (Inr (), h2)" and aw: "Heap_after_write D h2 = (Inr u, h')"
    using c by (auto simp: Heap_delete_def elim!: and_then_Inr)
  note find = find_slot_Inr(1) [OF fs rid heap_okD(2,3) [OF ok] refl]
  then have st: "heap_stay h h1" and live: "ix_slot (h_index h) rid = Live slot" by simp_all
  note ok1 = heap_ok_stay [OF ok st]
  obtain p where p: "slot_record (owned (h_placement h)) (h_data h) rid slot p" "heap_map h rid = Some p"
    using heap_ok_find [OF ok live] by metis
  have "unat (sl_offset slot) < 9223372036854775808"
    using p(1) by (auto simp: slot_record_def df_record_def)
  moreover obtain io ix where "IndexFile_stage_tombstone D (h_io h1) (h_index h1) rid slot = (Inr (), io, ix)"
    and h2: "h2 = h1\<lparr>h_io := io, h_index := ix\<rparr>"
    using ts by (auto simp: Heap_stage_tombstone_def split: prod.splits)
  ultimately have ix: "pf_ok (ix_paged_file ix)" "ix_slot ix = (ix_slot (h_index h1))(rid := Deleted slot)"
    using stage_tombstone_Inr [OF _ heap_okD(3) [OF ok1] rid] by blast+
  have "ix_slot (h_index h1) rid = Live slot" using st live by (simp add: heap_stay_def)
  then have "unat rid \<in> taken (h_placement h1)" using heap_okD(4) [OF ok1, of rid] by fastforce
  then have ok2: "heap_ok good owned taken h2"
    using ok1 ix by (auto simp: heap_ok_def h2 split: if_splits)
  have "heap_map h2 = (heap_map h1)(rid := None)"
    by (rule ext) (simp add: heap_map_def h2 ix(2) split: SlotState.split)
  moreover have "heap_stay h2 h'" using Heap_after_write_Inr [OF aw heap_okD(2,3) [OF ok2]] .
  ultimately show ?thesis
    using heap_ok_stay [OF ok2] heap_stay_map [OF st] heap_stay_map [of h2 h'] p(2) by simp
qed


end

section \<open>On a device that does not fail, operations complete\<close>

text \<open>An operation that succeeds and leaves the device without failures.\<close>

definition completes :: "('io \<Rightarrow> bool) \<Rightarrow> 'a res \<times> ('io, 'p) Heap \<Rightarrow> bool" where
  "completes ok x \<longleftrightarrow> (\<exists>a h. x = (Inr a, h) \<and> ok (h_io h))"

lemma completes_and_then:
  "completes ok x \<Longrightarrow> (\<And>a h. x = (Inr a, h) \<Longrightarrow> ok (h_io h) \<Longrightarrow> completes ok (f a h)) \<Longrightarrow> completes ok (and_then x f)"
  by (auto simp: completes_def)

lemma completes_unit: "completes ok (x :: unit res \<times> ('io, 'p) Heap) \<longleftrightarrow> (\<exists>h. x = (Inr (), h) \<and> ok (h_io h))"
  by (simp add: completes_def)

context block_io
begin

lemma file_steps_complete:
  assumes "steady (h_io h)"
  shows "completes steady (Heap_flush_data D h)" "completes steady (Heap_sync_data D h)"
    "completes steady (Heap_flush_index D h)" "completes steady (Heap_sync_index D h)"
    "completes steady (Heap_flush_registry D h)" "completes steady (Heap_sync_registry D h)"
  using flush_steady [OF assms, of "df_paged_file (h_data h)"] flush_steady [OF assms, of "ix_paged_file (h_index h)"]
    flush_steady [OF assms, of "the (h_registry h)"] sync_steady [OF assms, of "pf_file (df_paged_file (h_data h))"]
    sync_steady [OF assms, of "pf_file (ix_paged_file (h_index h))"] sync_steady [OF assms, of "pf_file (the (h_registry h))"] assms
  by (auto simp: completes_def Heap_flush_data_def Heap_sync_data_def Heap_flush_index_def Heap_sync_index_def
      Heap_flush_registry_def Heap_sync_registry_def Let_def split: option.split)

lemma commit_registry_completes: "steady (h_io h) \<Longrightarrow> completes steady (Heap_commit_registry D h)"
proof (cases "Heap_registry_pending h")
  case True
  assume "steady (h_io h)"
  then have "completes steady (and_then (Heap_flush_registry D h) (\<lambda>_. Heap_sync_registry D))"
    by (intro completes_and_then file_steps_complete)
  with True show ?thesis by (simp add: Heap_commit_registry_def)
qed (simp add: Heap_commit_registry_def completes_def)

lemma commit_completes: "steady (h_io h) \<Longrightarrow> completes steady (Heap_commit D h)"
  unfolding Heap_commit_def by (intro completes_and_then commit_registry_completes file_steps_complete)

lemma flush_completes: "steady (h_io h) \<Longrightarrow> completes steady (Heap_flush D h)"
  unfolding Heap_flush_def by (intro completes_and_then commit_completes file_steps_complete)

lemma after_write_completes: "steady (h_io h) \<Longrightarrow> completes steady (Heap_after_write D h)"
  using commit_completes [of "h\<lparr>operations_since_sync := operations_since_sync h + 1\<rparr>"]
  by (auto simp: Heap_after_write_def Let_def completes_unit)

lemma stage_steps_complete:
  assumes "steady (h_io h)"
  shows "completes steady (Heap_stage_record D h off bucket rid version payload)"
    "completes steady (Heap_stage_slot D h rid slot)" "completes steady (Heap_stage_tombstone D h rid old)"
  using stage_record_steady [OF assms, of "h_data h" off bucket rid version payload]
    stage_slot_steady(1) [OF assms, of "h_index h" rid slot] stage_slot_steady(2) [OF assms, of "h_index h" rid old]
  by (auto simp: completes_unit Heap_stage_record_def Heap_stage_slot_def Heap_stage_tombstone_def)

end

context placing
begin

theorem insert_into_completes:
  assumes st: "steady (h_io h)" and ok: "heap_ok good owned taken h"
    and len: "record_len (h_data h) payload \<le> OFF_MAX"
    and rm: "room (h_config h) (h_placement h) (h_data h) (h_registry h) bucket (of_nat (record_len (h_data h) payload))"
  shows "\<exists>rid h'. Heap_insert_into D P h bucket payload = (Inr rid, h') \<and> unat rid < ID_MAX \<and> steady (h_io h') \<and>
    heap_ok good owned taken h' \<and> heap_map h rid = None \<and> heap_map h' = (heap_map h)(rid \<mapsto> payload) \<and> sane (h_placement h')"
proof -
  let ?total = "of_nat (record_len (h_data h) payload) :: u64"
  obtain off rid io p df reg where "pl_alloc P D (h_io h) (h_config h) (h_placement h) (h_data h) (h_registry h) bucket ?total =
      (Inr (off, rid), io, p, df, reg)" and io: "steady io" and rid: "unat rid < ID_MAX" and p: "sane p"
    using alloc_room [OF st heap_okD(1) [OF ok] rm] by blast
  then have al: "Heap_alloc D P h bucket ?total = (Inr (off, rid), h\<lparr>h_io := io, h_placement := p, h_data := df, h_registry := reg\<rparr>)"
    by (simp add: Heap_alloc_def)
  have "completes steady (Heap_insert_into D P h bucket payload)"
    unfolding Heap_insert_into_def Let_def total_len_record al and_then_simps prod.case
    using io by (intro completes_and_then stage_steps_complete after_write_completes) (simp_all add: completes_def)
  then obtain rid' h' where c: "Heap_insert_into D P h bucket payload = (Inr rid', h')" "steady (h_io h')"
    by (auto simp: completes_def)
  moreover from c(1) al have "rid' = rid" "h_placement h' = p"
    by (auto simp: Heap_insert_into_def Let_def total_len_record Heap_write_placement elim!: and_then_Inr)
  ultimately show ?thesis using insert_into_Inr [OF c(1) ok len] rid p by blast
qed

theorem delete_completes:
  assumes st: "steady (h_io h)" and ok: "heap_ok good owned taken h" and rid: "unat rid < ID_MAX"
  shows "if heap_map h rid = None
    then \<exists>h'. Heap_delete D h rid = (Inl (Err (NotFound rid)), h') \<and> heap_stay h h' \<and> steady (h_io h')
    else completes steady (Heap_delete D h rid)"
proof -
  obtain fr h1 where fs: "Heap_find_slot D h rid = (fr, h1)" by fastforce
  note find = find_slot_Inr(2) [OF fs rid heap_okD(2,3) [OF ok] st]
  show ?thesis
  proof (cases "\<exists>slot. ix_slot (h_index h) rid = Live slot")
    case False
    then have "fr = Inl (Err (NotFound rid))" "heap_map h rid = None"
      using find by (auto simp: heap_map_def split: SlotState.splits)
    with fs find show ?thesis by (simp add: Heap_delete_def)
  next
    case True
    then obtain slot where slot: "ix_slot (h_index h) rid = Live slot" by blast
    then have "fr = Inr slot" "heap_map h rid \<noteq> None" using find by (simp_all add: heap_map_def)
    moreover have "completes steady (and_then (Heap_stage_tombstone D h1 rid slot) (\<lambda>_ h. Heap_after_write D h))"
      using find by (intro completes_and_then stage_steps_complete after_write_completes) simp_all
    ultimately show ?thesis using fs by (auto simp: Heap_delete_def)
  qed
qed

end

end
