(* ===== verification/Heap_Runs.thy ===== *)
theory Heap_Runs
  imports Heap
begin

text \<open>
  A heap in use: the operations of \<open>src/src/heap.rs\<close> as the steps of a state machine whose
  specification is a map from identifiers to payloads. Shown, for every placement that meets its
  contract: every run of operations, failed lookups included, is a run of the map; what a crash
  leaves after a flush is the whole map.
\<close>

section \<open>Operations and results\<close>

datatype heap_op =
    Insert u64 bytes
  | Read u64
  | ReadBatch "u64 list"
  | Update u64 bytes
  | Delete u64
  | Flush

datatype heap_ret = Done | Id u64 | Payload bytes | Payloads "bytes list" | Missing u64

definition ret_of :: "('a \<Rightarrow> heap_ret) \<Rightarrow> 'a res \<times> ('io, 'p) Heap \<Rightarrow> heap_ret res \<times> ('io, 'p) Heap" where
  "ret_of f x = (map_sum id f (fst x), snd x)"

fun heap_exec ::
  "'io BlockIo \<Rightarrow> ('io, 'p) Placement \<Rightarrow> ('io, 'p) Heap \<Rightarrow> heap_op \<Rightarrow> heap_ret res \<times> ('io, 'p) Heap" where
  "heap_exec D P h (Insert bucket payload) = ret_of Id (Heap_insert_into D P h bucket payload)"
| "heap_exec D P h (Read rid) = ret_of Payload (Heap_read D h rid)"
| "heap_exec D P h (ReadBatch ids) = ret_of Payloads (Heap_read_batch D h ids)"
| "heap_exec D P h (Update rid payload) = ret_of (\<lambda>_. Done) (Heap_update D P h rid payload)"
| "heap_exec D P h (Delete rid) = ret_of (\<lambda>_. Done) (Heap_delete D h rid)"
| "heap_exec D P h Flush = ret_of (\<lambda>_. Done) (Heap_flush D h)"

lemma ret_of_eq: "ret_of f x = (r, h) \<longleftrightarrow> (\<exists>q. x = (q, h) \<and> r = map_sum id f q)"
  by (cases x) (auto simp: ret_of_def)

lemma map_sum_Inr: "map_sum id f q = Inr r \<longleftrightarrow> (\<exists>a. q = Inr a \<and> r = f a)" "Inr r = map_sum id f q \<longleftrightarrow> (\<exists>a. q = Inr a \<and> r = f a)"
  by (cases q; auto)+

section \<open>The specification\<close>

text \<open>
  What an operation may answer and what it does to the map. Looking up an identifier that is not in
  the map answers so and changes nothing.
\<close>

type_synonym store = "u64 \<rightharpoonup> bytes"

inductive map_step :: "store \<Rightarrow> heap_op \<Rightarrow> heap_ret \<Rightarrow> store \<Rightarrow> bool" where
  map_insert: "m rid = None \<Longrightarrow> map_step m (Insert bucket payload) (Id rid) (m(rid \<mapsto> payload))"
| map_read: "m rid = Some payload \<Longrightarrow> map_step m (Read rid) (Payload payload) m"
| map_read_batch: "map m ids = map Some payloads \<Longrightarrow> map_step m (ReadBatch ids) (Payloads payloads) m"
| map_update: "m rid = Some old \<Longrightarrow> map_step m (Update rid payload) Done (m(rid \<mapsto> payload))"
| map_delete: "m rid = Some old \<Longrightarrow> map_step m (Delete rid) Done (m(rid := None))"
| map_flush: "map_step m Flush Done m"
| map_read_missing: "m rid = None \<Longrightarrow> map_step m (Read rid) (Missing rid) m"
| map_update_missing: "m rid = None \<Longrightarrow> map_step m (Update rid payload) (Missing rid) m"
| map_delete_missing: "m rid = None \<Longrightarrow> map_step m (Delete rid) (Missing rid) m"
| map_batch_missing: "find (\<lambda>rid. m rid = None) ids = Some rid \<Longrightarrow> map_step m (ReadBatch ids) (Missing rid) m"

inductive_simps map_step_simps:
  "map_step m (Insert bucket payload) r m'" "map_step m (Read rid) r m'" "map_step m (ReadBatch ids) r m'"
  "map_step m (Update rid payload) r m'" "map_step m (Delete rid) r m'" "map_step m Flush r m'"

inductive map_run :: "store \<Rightarrow> (heap_op \<times> heap_ret) list \<Rightarrow> store \<Rightarrow> bool" where
  map_run_nil: "map_run m [] m"
| map_run_step: "map_run m tr m1 \<Longrightarrow> map_step m1 op r m2 \<Longrightarrow> map_run m (tr @ [(op, r)]) m2"

section \<open>Runs of a heap\<close>

text \<open>
  Identifiers and lengths that keep every offset below \<open>2 ^ 62\<close>; the largest file a device can hold is
  far smaller.
\<close>

fun op_fits :: "('io, 'p) Heap \<Rightarrow> heap_op \<Rightarrow> bool" where
  "op_fits h (Insert bucket payload) = (record_len (h_data h) payload \<le> OFF_MAX)"
| "op_fits h (Read rid) = (unat rid < ID_MAX)"
| "op_fits h (ReadBatch ids) = (\<forall>rid \<in> set ids. unat rid < ID_MAX)"
| "op_fits h (Update rid payload) = (record_len (h_data h) payload \<le> OFF_MAX \<and> unat rid < ID_MAX)"
| "op_fits h (Delete rid) = (unat rid < ID_MAX)"
| "op_fits h Flush = True"

fun ret_fits :: "heap_ret \<Rightarrow> bool" where
  "ret_fits (Id rid) = (unat rid < ID_MAX)"
| "ret_fits _ = True"

text \<open>
  A run from a heap: operations that succeed, and lookups of identifiers the index has no live slot
  for, which are answered by \<open>NotFound\<close>. An operation that fails otherwise (the device is full) ends the
  run.
\<close>

definition looks_up :: "('io, 'p) Heap \<Rightarrow> heap_op \<Rightarrow> u64 \<Rightarrow> bool" where
  "looks_up h op rid \<longleftrightarrow> (op = Read rid \<or> (\<exists>payload. op = Update rid payload) \<or> op = Delete rid \<or>
     (\<exists>ids. op = ReadBatch ids \<and> find (\<lambda>rid. heap_map h rid = None) ids = Some rid))"

inductive heap_run ::
  "'io BlockIo \<Rightarrow> ('io, 'p) Placement \<Rightarrow> ('p \<Rightarrow> bool) \<Rightarrow> ('io, 'p) Heap \<Rightarrow> (heap_op \<times> heap_ret) list \<Rightarrow> ('io, 'p) Heap \<Rightarrow> bool"
  for D P ok where
  run_nil: "heap_run D P ok h [] h"
| run_step: "heap_run D P ok h tr h1 \<Longrightarrow> op_fits h1 op \<Longrightarrow> heap_exec D P h1 op = (Inr r, h2) \<Longrightarrow> ret_fits r \<Longrightarrow>
    ok (h_placement h2) \<Longrightarrow> heap_run D P ok h (tr @ [(op, r)]) h2"
| run_missing: "heap_run D P ok h tr h1 \<Longrightarrow> op_fits h1 op \<Longrightarrow> looks_up h1 op rid \<Longrightarrow> heap_map h1 rid = None \<Longrightarrow>
    heap_exec D P h1 op = (Inl (Err (NotFound rid)), h2) \<Longrightarrow> heap_run D P ok h (tr @ [(op, Missing rid)]) h2"

section \<open>Runs refine the map\<close>

text \<open>The device stays without failures through any operation.\<close>

definition io_stays :: "('io \<Rightarrow> bool) \<Rightarrow> 'a res \<times> ('io, 'p) Heap \<Rightarrow> bool" where
  "io_stays ok x \<longleftrightarrow> ok (h_io (snd x))"

lemma io_stays_and_then:
  "io_stays ok x \<Longrightarrow> (\<And>a h. ok (h_io h) \<Longrightarrow> io_stays ok (f a h)) \<Longrightarrow> io_stays ok (and_then x f)"
  by (cases x) (auto simp: io_stays_def and_then_def split: sum.split)

lemma completes_stays: "completes ok x \<Longrightarrow> io_stays ok x"
  by (auto simp: completes_def io_stays_def)

lemma io_stays_simps [simp]: "io_stays ok (r, h) \<longleftrightarrow> ok (h_io h)"
  by (simp add: io_stays_def)

context block_io
begin

lemma find_slot_stays: "steady (h_io h) \<Longrightarrow> io_stays steady (Heap_find_slot D h rid)"
  using read_slot_steady [of "h_io h" "h_index h" rid] by (auto simp: Heap_find_slot_def split: option.split)

lemma read_header_stays: "steady (h_io h) \<Longrightarrow> io_stays steady (Heap_read_header D h slot rid)"
proof -
  assume st: "steady (h_io h)"
  let ?len = "DataFile_record_header_len (h_data h)"
  obtain b n io pf where "PagedFile_read_aligned D (h_io h) (df_paged_file (h_data h)) (sl_offset slot) ?len = (Inr (b, n), io, pf)" "steady io"
    using read_aligned_steady [OF st, of "df_paged_file (h_data h)" "sl_offset slot" ?len] by auto
  then show ?thesis by (simp add: Heap_read_header_def DataFile_read_header_def Let_def split: option.split)
qed

lemma delete_stays: "steady (h_io h) \<Longrightarrow> io_stays steady (Heap_delete D h rid)"
  unfolding Heap_delete_def
  by (intro io_stays_and_then find_slot_stays completes_stays stage_steps_complete after_write_completes)

text \<open>An update of an identifier without a live slot stops at the lookup.\<close>

lemma update_missing:
  assumes st: "steady (h_io h)" and ok: "heap_ok good owned taken h" and rid: "unat rid < ID_MAX" and m: "heap_map h rid = None"
    and u: "Heap_update D P h rid payload = (r, h')"
  shows "r = Inl (Err (NotFound rid)) \<and> heap_stay h h'"
proof -
  obtain fr h1 where fs: "Heap_find_slot D h rid = (fr, h1)" by fastforce
  have "fr = Inl (Err (NotFound rid)) \<and> heap_stay h h1"
    using find_slot_Inr(2) [OF fs rid heap_okD(2,3) [OF ok] st] m by (auto simp: heap_map_def split: SlotState.splits)
  with u fs show ?thesis by (simp add: Heap_update_def)
qed

lemma delete_missing:
  assumes st: "steady (h_io h)" and ok: "heap_ok good owned taken h" and rid: "unat rid < ID_MAX" and m: "heap_map h rid = None"
    and u: "Heap_delete D h rid = (r, h')"
  shows "r = Inl (Err (NotFound rid)) \<and> heap_stay h h'"
proof -
  obtain fr h1 where fs: "Heap_find_slot D h rid = (fr, h1)" by fastforce
  have "fr = Inl (Err (NotFound rid)) \<and> heap_stay h h1"
    using find_slot_Inr(2) [OF fs rid heap_okD(2,3) [OF ok] st] m by (auto simp: heap_map_def split: SlotState.splits)
  with u fs show ?thesis by (simp add: Heap_delete_def)
qed

text \<open>So does every operation that looks up an identifier that is not there.\<close>

lemma exec_missing:
  assumes st: "steady (h_io h)" and ok: "heap_ok good owned taken h" and fits: "op_fits h op" and l: "looks_up h op rid"
    and m: "heap_map h rid = None" and e: "heap_exec D P h op = (r, h')"
  shows "r = Inl (Err (NotFound rid)) \<and> heap_stay h h' \<and> map_step (heap_map h) op (Missing rid) (heap_map h)"
proof (cases op)
  case (Read rid')
  with l have [simp]: "rid' = rid" by (simp add: looks_up_def)
  obtain q where "Heap_read D h rid = (q, h')" "r = map_sum id Payload q"
    using e Read by (auto simp: ret_of_eq)
  with read_Inr(2) [OF this(1) ok _ st] fits m Read show ?thesis by (simp add: map_step_simps)
next
  case (ReadBatch ids)
  with l have f: "find (\<lambda>rid. heap_map h rid = None) ids = Some rid" by (simp add: looks_up_def)
  obtain q where "Heap_read_batch D h ids = (q, h')" "r = map_sum id Payloads q"
    using e ReadBatch by (auto simp: ret_of_eq)
  with read_batch_steady [OF st ok, of ids] fits f ReadBatch show ?thesis by (auto simp: map_step_simps)
next
  case (Update rid' payload)
  with l have [simp]: "rid' = rid" by (simp add: looks_up_def)
  obtain q where "Heap_update D P h rid payload = (q, h')" "r = map_sum id (\<lambda>_. Done) q"
    using e Update by (auto simp: ret_of_eq)
  with update_missing [OF st ok _ m this(1)] fits m Update show ?thesis by (simp add: map_step_simps)
next
  case (Delete rid')
  with l have [simp]: "rid' = rid" by (simp add: looks_up_def)
  obtain q where "Heap_delete D h rid = (q, h')" "r = map_sum id (\<lambda>_. Done) q"
    using e Delete by (auto simp: ret_of_eq)
  with delete_missing [OF st ok _ m this(1)] fits m Delete show ?thesis by (simp add: map_step_simps)
qed (use l in \<open>simp_all add: looks_up_def\<close>)

end

context placing
begin

lemma exec_step:
  assumes ok: "heap_ok good owned taken h" and fits: "op_fits h op" and e: "heap_exec D P h op = (Inr r, h')"
    and r: "ret_fits r" and sane: "sane (h_placement h')"
  shows "heap_ok good owned taken h' \<and> map_step (heap_map h) op r (heap_map h')"
proof (cases op)
  case (Insert bucket payload)
  obtain rid where "Heap_insert_into D P h bucket payload = (Inr rid, h')" "r = Id rid"
    using e Insert by (auto simp: ret_of_eq map_sum_Inr)
  with insert_into_Inr [OF this(1) ok] fits r sane Insert show ?thesis by (auto simp: map_step_simps)
next
  case (Read rid)
  obtain out where c: "Heap_read D h rid = (Inr out, h')" "r = Payload out"
    using e Read by (auto simp: ret_of_eq map_sum_Inr)
  with read_Inr(1) [OF c(1) ok _ refl] fits Read have "heap_map h rid = Some out" "heap_stay h h'" by simp_all
  with c(2) Read heap_ok_stay [OF ok] heap_stay_map show ?thesis by (auto simp: map_step_simps)
next
  case (ReadBatch ids)
  obtain out where c: "Heap_read_batch D h ids = (Inr out, h')" "r = Payloads out"
    using e ReadBatch by (auto simp: ret_of_eq map_sum_Inr)
  with read_batch_Inr [OF c(1) ok] fits ReadBatch have "map (heap_map h) ids = map Some out" "heap_stay h h'" by simp_all
  with c(2) ReadBatch heap_ok_stay [OF ok] heap_stay_map show ?thesis by (auto simp: map_step_simps)
next
  case (Update rid payload)
  obtain u where "Heap_update D P h rid payload = (Inr u, h')" "r = Done"
    using e Update by (auto simp: ret_of_eq map_sum_Inr)
  with update_Inr [OF this(1) ok] fits sane Update show ?thesis by (auto simp: map_step_simps)
next
  case (Delete rid)
  obtain u where "Heap_delete D h rid = (Inr u, h')" "r = Done"
    using e Delete by (auto simp: ret_of_eq map_sum_Inr)
  with delete_Inr [OF this(1) ok] fits Delete show ?thesis by (auto simp: map_step_simps)
next
  case Flush
  obtain u where c: "Heap_flush D h = (Inr u, h')" "r = Done"
    using e Flush by (auto simp: ret_of_eq map_sum_Inr)
  with Heap_flush_Inr [OF c(1) heap_okD(2,3) [OF ok]] Flush heap_ok_stay [OF ok] heap_stay_map
  show ?thesis by (auto simp: map_step_simps)
qed

lemma alloc_stays:
  assumes "steady (h_io h)"
  shows "io_stays steady (Heap_alloc D P h bucket total_len)" "io_stays steady (Heap_alloc_update D P h bucket total_len)"
  using alloc_steady [OF assms] alloc_update_steady [OF assms]
  by (auto simp: Heap_alloc_def Heap_alloc_update_def split: prod.split)

lemma exec_stays:
  assumes st: "steady (h_io h)" and ok: "heap_ok good owned taken h" and fits: "op_fits h op" and e: "heap_exec D P h op = (r, h')"
  shows "steady (h_io h')"
proof -
  have "io_stays steady (heap_exec D P h op)"
  proof (cases op)
    case (Insert bucket payload)
    have "io_stays steady (Heap_insert_into D P h bucket payload)"
      unfolding Heap_insert_into_def Let_def using st
      by (auto intro!: io_stays_and_then alloc_stays completes_stays [OF stage_steps_complete(1)]
          completes_stays [OF stage_steps_complete(2)] completes_stays [OF after_write_completes])
    then show ?thesis by (simp add: Insert ret_of_def io_stays_def)
  next
    case (Read rid)
    obtain q h1 where "Heap_read D h rid = (q, h1)" by fastforce
    with read_Inr(2) [OF this ok _ st] fits show ?thesis by (simp add: Read ret_of_def)
  next
    case (ReadBatch ids)
    with read_batch_steady [OF st ok, of ids] fits show ?thesis by (auto simp: ret_of_def)
  next
    case (Update rid payload)
    have "io_stays steady (Heap_update D P h rid payload)"
      unfolding Heap_update_def Let_def using st
      by (intro io_stays_and_then find_slot_stays read_header_stays alloc_stays completes_stays stage_steps_complete after_write_completes)
    then show ?thesis by (simp add: Update ret_of_def io_stays_def)
  next
    case (Delete rid)
    with delete_stays [OF st] show ?thesis by (simp add: ret_of_def io_stays_def)
  next
    case Flush
    with completes_stays [OF flush_completes [OF st]] show ?thesis by (simp add: ret_of_def io_stays_def)
  qed
  with e show ?thesis by simp
qed

theorem run_refines:
  assumes "heap_run D P sane h tr h'" and "steady (h_io h)" and "heap_ok good owned taken h"
  shows "heap_ok good owned taken h' \<and> steady (h_io h') \<and> map_run (heap_map h) tr (heap_map h')"
  using assms
proof (induction rule: heap_run.induct)
  case (run_nil h)
  then show ?case by (simp add: map_run_nil)
next
  case (run_step h tr h1 op r h2)
  then have i: "heap_ok good owned taken h1" "steady (h_io h1)" "map_run (heap_map h) tr (heap_map h1)" by simp_all
  from exec_step [OF i(1) run_step.hyps(2,3,4,5)] exec_stays [OF i(2,1) run_step.hyps(2,3)] i(3)
  show ?case by (auto intro: map_run_step)
next
  case (run_missing h tr h1 op rid h2)
  then have i: "heap_ok good owned taken h1" "steady (h_io h1)" "map_run (heap_map h) tr (heap_map h1)" by simp_all
  note m = exec_missing [OF i(2,1) run_missing.hyps(2,3,4,5)]
  then have "heap_map h2 = heap_map h1" "heap_ok good owned taken h2" using heap_ok_stay [OF i(1)] heap_stay_map by blast+
  with m exec_stays [OF i(2,1) run_missing.hyps(2,5)] i(3) show ?case by (auto intro: map_run_step)
qed

end

section \<open>Crashes\<close>

text \<open>What a crash leaves of a heap: its files hold what was durable, and nothing is staged or kept in memory.\<close>

definition crashed_file :: "PagedFile \<Rightarrow> PagedFile" where
  "crashed_file pf = PagedFile_handle ((pf_file pf)\<lparr>f_content := f_durable (pf_file pf)\<rparr>)"

definition heap_crash :: "('io, 'p) Heap \<Rightarrow> ('io, 'p) Heap" where
  "heap_crash h = h\<lparr>h_data := (h_data h)\<lparr>df_paged_file := crashed_file (df_paged_file (h_data h))\<rparr>,
     h_index := (h_index h)\<lparr>ix_paged_file := crashed_file (ix_paged_file (h_index h))\<rparr>\<rparr>"

lemma crashed_file_view: "pf_view (crashed_file pf) = byte_at (f_durable (pf_file pf))"
  by (simp add: crashed_file_def pf_view_handle)

text \<open>A heap whose durable bytes are the bytes it is seen to hold loses nothing in a crash.\<close>

lemma heap_crash_map:
  assumes "byte_at (f_durable (pf_file (df_paged_file (h_data h)))) = df_view (h_data h)"
    and "byte_at (f_durable (pf_file (ix_paged_file (h_index h)))) = pf_view (ix_paged_file (h_index h))"
  shows "heap_map (heap_crash h) = heap_map h"
  using assms
  by (intro ext) (simp add: heap_map_def heap_crash_def slot_payload_def ix_slot_def crashed_file_view split: SlotState.split)

context block_io
begin

lemma flush_crash:
  assumes f: "Heap_flush D h = (Inr u, h')" and ok: "pf_ok (df_paged_file (h_data h))" "pf_ok (ix_paged_file (h_index h))"
  shows "heap_map (heap_crash h') = heap_map h"
proof -
  note d = Heap_flush_Inr [OF f ok]
  then have "df_view (h_data h') = df_view (h_data h)" by (simp add: heap_stay_def df_stay_def)
  with d heap_crash_map [of h'] heap_stay_map [of h h'] show ?thesis by simp
qed

end

end
