(* ===== verification/Whole_Files.thy ===== *)
theory Whole_Files
  imports Heap_Open
begin

text \<open>
  The length of the files of a heap. A paged file is written in whole pages, so its length is a multiple
  of the page size whatever operations run on it; opening a heap depends on this, because it finds the
  identifiers in use from the length of the index file. Shown for every operation of an append heap.
\<close>

section \<open>Paged files\<close>

text \<open>
  A file of whole pages, long enough for what was allocated, and not longer than \<open>B\<close>, also after what is
  staged has been written.
\<close>

definition pf_whole :: "nat \<Rightarrow> PagedFile \<Rightarrow> bool" where
  "pf_whole B pf \<longleftrightarrow> (let n = length (f_content (pf_file pf)) in
     4096 dvd n \<and> 4096 \<le> n \<and> n \<le> B \<and> B \<le> OFF_MAX \<and> unat (allocated_end pf) \<le> n \<and> 4096 dvd unat (allocated_end pf) \<and>
     (\<forall>w \<in> set (staged_writes pf). sw_up w \<le> B))"

text \<open>The header a file is seen to have.\<close>

definition pf_header :: "PagedFile \<Rightarrow> FileHeader option" where
  "pf_header pf = FileHeader_decode (view_bytes (pf_view pf) 0 4096)"

definition pf_fine :: "FileHeader \<Rightarrow> nat \<Rightarrow> nat \<Rightarrow> PagedFile \<Rightarrow> bool" where
  "pf_fine hdr lim B pf \<longleftrightarrow> pf_ok pf \<and> pf_whole B pf \<and> pf_header pf = Some hdr \<and> f_limit (pf_file pf) = lim"

lemma pf_fineD: "pf_fine hdr lim B pf \<Longrightarrow> pf_ok pf" "pf_fine hdr lim B pf \<Longrightarrow> pf_whole B pf" "pf_fine hdr lim B pf \<Longrightarrow> pf_header pf = Some hdr"
    "pf_fine hdr lim B pf \<Longrightarrow> f_limit (pf_file pf) = lim"
  by (simp_all add: pf_fine_def)

lemma pf_header_view: "pf_view pf' = pf_view pf \<Longrightarrow> pf_header pf' = pf_header pf"
  by (simp add: pf_header_def)

lemma pf_header_overlay: "pf_view pf' = overlay (pf_view pf) off bs \<Longrightarrow> 4096 \<le> off \<Longrightarrow> pf_header pf' = pf_header pf"
  by (auto simp: pf_header_def view_bytes_def overlay_def intro!: arg_cong [of _ _ FileHeader_decode])

text \<open>The invariant depends on the bytes, the staged writes, the kept pages and the allocated end.\<close>

lemma pf_fine_cong:
  assumes "f_content (pf_file pf') = f_content (pf_file pf)" and "f_limit (pf_file pf') = f_limit (pf_file pf)" and "staged_writes pf' = staged_writes pf"
    and "tail_pages pf' = tail_pages pf" and "allocated_end pf' = allocated_end pf"
  shows "pf_fine hdr lim B pf' = pf_fine hdr lim B pf"
proof -
  have "pf_view pf' = pf_view pf" by (rule ext) (simp add: pf_view_def assms split: option.split)
  with assms show ?thesis by (simp add: pf_fine_def pf_ok_def pf_whole_def pf_header_def)
qed

lemma sw_up_le:
  assumes "sw_hi w \<le> n" and "4096 dvd n"
  shows "sw_up w \<le> n"
proof -
  obtain k where "n = 4096 * k" using assms(2) by (rule dvdE)
  with assms(1) show ?thesis by (simp add: sw_up_def)
qed

lemma length_pwrite_page:
  assumes "4096 dvd length c" and "length c \<le> B" and "sw_ok c0 w" and "sw_up w \<le> B"
  defines "c' \<equiv> pwrite c (unat (StagedWrite_base w)) (sw_image c0 w)"
  shows "4096 dvd length c'" "length c \<le> length c'" "length c' \<le> B"
proof -
  have "sw_lo w \<le> sw_up w" using sw_bounds [of w] by linarith
  then have "length c' = length c \<or> length c' = max (length c) (sw_up w)"
    using assms(3) by (auto simp: c'_def length_pwrite sw_lo_base)
  then show "4096 dvd length c'" "length c \<le> length c'" "length c' \<le> B"
    using assms(1,2,4) sw_dvd(2) [of w] by (auto simp: max_def)
qed

lemma length_writes_pages:
  assumes "4096 dvd length c" and "length c \<le> B" and "\<forall>w \<in> set ws. sw_ok c0 w \<and> sw_up w \<le> B"
  shows "4096 dvd length (writes_to c (map (\<lambda>w. (StagedWrite_base w, sw_image c0 w)) ws)) \<and>
    length c \<le> length (writes_to c (map (\<lambda>w. (StagedWrite_base w, sw_image c0 w)) ws)) \<and>
    length (writes_to c (map (\<lambda>w. (StagedWrite_base w, sw_image c0 w)) ws)) \<le> B"
  using assms
proof (induction ws arbitrary: c)
  case (Cons w ws)
  note one = length_pwrite_page [OF Cons.prems(1,2), of c0 w]
  from Cons.IH [OF one(1,3)] one(2) Cons.prems(3) show ?case by (auto simp: writes_to_def)
qed (simp add: writes_to_def)

lemma ensure_alloc_fine:
  assumes e: "PagedFile_ensure_alloc pf up_to chunk = (Inr u, pf')" and fine: "pf_fine hdr lim lim pf" and room: "pf_room pf"
    and small: "unat up_to \<le> 2 * OFF_MAX" "unat chunk \<le> OFF_MAX"
  shows "pf_fine hdr lim lim pf'"
proof (cases "up_to \<le> allocated_end pf")
  case True
  with e fine show ?thesis by (simp add: PagedFile_ensure_alloc_def)
next
  case False
  let ?up = "page_up (max up_to (allocated_end pf + chunk))" and ?c = "f_content (pf_file pf)" and ?a = "allocated_end pf"
  have lim: "unat ?a \<le> OFF_MAX" "f_limit (pf_file pf) \<le> OFF_MAX" using room by (simp_all add: pf_room_def)
  have m: "unat (max up_to (?a + chunk)) \<le> 2 * OFF_MAX" using small lim by (simp add: max_def unat_add_nowrap)
  then have up: "unat ?up = (unat (max up_to (?a + chunk)) + 4095) div 4096 * 4096" by (intro unat_page_up) linarith
  have "unat ?a \<le> unat (max up_to (?a + chunk))" using False by (auto simp: max_def word_le_nat_alt not_le)
  with m have a: "unat ?a \<le> unat ?up" using page_up_ge [of "max up_to (?a + chunk)"] by linarith
  then have len: "unat ?a + unat (?up - ?a) = unat ?up" by (subst unat_sub_nowrap) simp_all
  obtain f where f: "fallocate (pf_file pf) ?a (?up - ?a) = (Inr (), f)" "pf' = pf\<lparr>pf_file := f, allocated_end := ?up\<rparr>"
    using e False by (auto simp: PagedFile_ensure_alloc_def Let_def split: prod.splits sum.splits)
  then have "f_content f = ?c @ replicate (unat ?up - length ?c) 0" "unat ?up \<le> f_limit (pf_file pf)"
    unfolding fallocate_def len by (auto split: if_splits)
  moreover have "pf_ok pf'" "pf_header pf' = Some hdr" "f_limit (pf_file pf') = lim" "staged_writes pf' = staged_writes pf"
    using pf_fineD(4) [OF fine] ensure_alloc_facts [OF e pf_fineD(1) [OF fine]] pf_fineD(3) [OF fine] pf_header_view [of pf' pf] by simp_all
  moreover have "4096 dvd unat ?up" unfolding up by simp
  ultimately show ?thesis
    using pf_fineD(2,4) [OF fine] f(2) lim by (auto simp: pf_fine_def pf_whole_def Let_def max_def nat_le_iff_add [of "length _"])
qed

lemma stage_continue_file:
  "stage_continue pf off parts = Some pf' \<Longrightarrow> pf_file pf' = pf_file pf \<and> allocated_end pf' = allocated_end pf"
  by (auto simp: stage_continue_def Let_def split: option.splits if_splits)

lemma take_buffer_file:
  "PagedFile_take_buffer pf = (buf, pf') \<Longrightarrow> pf_file pf' = pf_file pf \<and> allocated_end pf' = allocated_end pf"
  by (auto simp: PagedFile_take_buffer_def split: if_splits list.splits)

lemma stage_push_file:
  "stage_push D io pf off parts = (r, io', pf') \<Longrightarrow> pf_file pf' = pf_file pf \<and> allocated_end pf' = allocated_end pf"
  by (auto simp: stage_push_def Let_def dest: take_buffer_file split: prod.splits sum.splits)

context block_io
begin

lemma flush_fine:
  assumes f: "PagedFile_flush D io pf = (Inr u, io', pf')" and fine: "pf_fine hdr lim B pf"
  shows "pf_fine hdr lim B pf'"
proof (cases "staged_writes pf = []")
  case True
  with f fine show ?thesis by (simp add: PagedFile_flush_def)
next
  case False
  let ?c = "f_content (pf_file pf)"
  have "\<forall>w \<in> set (staged_writes pf). sw_ok ?c w \<and> sw_up w \<le> B"
    using pf_fineD(1,2) [OF fine] by (simp add: pf_ok_def pf_whole_def Let_def)
  note len = length_writes_pages [OF _ _ this]
  have "pf_whole B pf'"
    by (rule flush_steps [OF f pf_fineD(1) [OF fine] False refl])
      (use pf_fineD(2) [OF fine] len [of ?c] in \<open>auto simp: pf_whole_def Let_def\<close>)
  with pf_settledD(1,2) flush_Inr [OF f pf_fineD(1) [OF fine]] pf_fineD(3,4) [OF fine] show ?thesis
    by (auto simp: pf_fine_def pf_header_def pf_same_def)
qed

lemma flush_if_fine: "flush_if b D io pf = (Inr u, io', pf') \<Longrightarrow> pf_fine hdr lim B pf \<Longrightarrow> pf_fine hdr lim B pf'"
  using flush_fine by (auto simp: flush_if_def split: if_splits)

lemma stage_file:
  assumes s: "PagedFile_stage D io pf off parts = (Inr u, io', pf')" and fine: "pf_fine hdr lim B pf"
  obtains pf2 where "pf_fine hdr lim B pf2" "pf_file pf' = pf_file pf2" "allocated_end pf' = allocated_end pf2"
proof (cases "stage_continue pf off parts")
  case (Some pf1)
  with s have "pf' = pf1" by (simp add: PagedFile_stage_def)
  with that [of pf] stage_continue_file [OF Some] fine show thesis by simp
next
  case None
  then obtain io1 pf1 io2 pf2 where f: "flush_if (MAX_STAGED_WRITES \<le> length (staged_writes pf)) D io pf = (Inr (), io1, pf1)"
      "flush_if (stage_overlaps pf1 off (parts_len parts)) D io1 pf1 = (Inr (), io2, pf2)" "stage_push D io2 pf2 off parts = (Inr u, io', pf')"
    using s by (auto simp: PagedFile_stage_def split: prod.splits sum.splits)
  from that [OF flush_if_fine [OF f(2) flush_if_fine [OF f(1) fine]]] stage_push_file [OF f(3)] show thesis by simp
qed

lemma stage_fine:
  assumes s: "PagedFile_stage D io pf off parts = (Inr u, io', pf')" and fine: "pf_fine hdr lim B pf"
    and off: "4096 \<le> unat off" "unat off + parts_len parts \<le> n" and n: "4096 dvd n" "n \<le> B"
  shows "pf_fine hdr lim B pf'"
proof -
  have B: "B \<le> OFF_MAX" "\<forall>w \<in> set (staged_writes pf). sw_up w \<le> B" using pf_fineD(2) [OF fine] by (simp_all add: pf_whole_def Let_def)
  have "unat off + parts_len parts \<le> OFF_MAX" using off(2) n(2) B(1) by linarith
  note st = stage_Inr [OF s pf_fineD(1) [OF fine] this]
  have "\<forall>w \<in> set (staged_writes pf'). sw_up w \<le> B"
  proof
    fix w
    assume "w \<in> set (staged_writes pf')"
    with st consider "w \<in> set (staged_writes pf)" | "sw_hi w = unat off + parts_len parts" by blast
    then show "sw_up w \<le> B"
    proof cases
      case 2
      then have "sw_up w \<le> n" using off(2) n(1) by (intro sw_up_le) simp_all
      with n(2) show ?thesis by simp
    qed (use B in simp)
  qed
  moreover obtain pf2 where "pf_fine hdr lim B pf2" "pf_file pf' = pf_file pf2" "allocated_end pf' = allocated_end pf2"
    using stage_file [OF s fine] .
  ultimately show ?thesis
    using st pf_fineD(3) [OF fine] pf_header_overlay [OF _ off(1), of pf' pf "concat parts"]
    by (auto simp: pf_fine_def pf_whole_def Let_def)
qed

lemma read_aligned_fine:
  assumes r: "PagedFile_read_aligned D io pf off len = (Inr x, io', pf')" and fine: "pf_fine hdr lim B pf"
  shows "pf_fine hdr lim B pf'" "pf_fine hdr lim B (PagedFile_recycle pf' b)"
proof -
  obtain io1 pf1 where f: "PagedFile_flush D io pf = (Inr (), io1, pf1)" and p: "pf_file pf' = pf_file pf1" "allocated_end pf' = allocated_end pf1"
      "staged_writes pf' = staged_writes pf1" "tail_pages pf' = tail_pages pf1"
    using r by (auto simp: PagedFile_read_aligned_def PagedFile_take_buffer_def Let_def split: prod.splits sum.splits if_splits list.splits)
  have "pf_fine hdr lim B pf' = pf_fine hdr lim B pf1" "pf_fine hdr lim B (PagedFile_recycle pf' b) = pf_fine hdr lim B pf1"
    by (rule pf_fine_cong; simp add: p)+
  with flush_fine [OF f fine] show "pf_fine hdr lim B pf'" "pf_fine hdr lim B (PagedFile_recycle pf' b)" by simp_all
qed

lemma sync_fine:
  assumes "sync D io (pf_file pf) = (Inr u, io', f)" and "pf_fine hdr lim B pf"
  shows "pf_fine hdr lim B (pf\<lparr>pf_file := f\<rparr>)"
proof -
  have "pf_fine hdr lim B (pf\<lparr>pf_file := f\<rparr>) = pf_fine hdr lim B pf" by (rule pf_fine_cong) (simp_all add: sync_Inr [OF assms(1)])
  with assms(2) show ?thesis by simp
qed

end

section \<open>The files of a heap\<close>

text \<open>An append heap on a device that does not fail, with files of whole pages under their headers.\<close>

abbreviation data_head :: FileHeader where
  "data_head \<equiv> \<lparr>fh_kind = 0x44, fh_layout = LAYOUT_APPEND\<rparr>"

abbreviation index_head :: FileHeader where
  "index_head \<equiv> \<lparr>fh_kind = 0x49, fh_layout = LAYOUT_APPEND\<rparr>"

definition sound :: "('io \<Rightarrow> bool) \<Rightarrow> nat \<Rightarrow> nat \<Rightarrow> ('io, 'p) Heap \<Rightarrow> bool" where
  "sound ok lim ilim h \<longleftrightarrow> ok (h_io h) \<and> pf_fine data_head lim lim (df_paged_file (h_data h)) \<and> pf_fine index_head ilim OFF_MAX (ix_paged_file (h_index h))"

definition sound_after :: "('io \<Rightarrow> bool) \<Rightarrow> nat \<Rightarrow> nat \<Rightarrow> 'a res \<times> ('io, 'p) Heap \<Rightarrow> bool" where
  "sound_after ok lim ilim x \<longleftrightarrow> sound ok lim ilim (snd x)"

lemma sound_after_simps [simp]: "sound_after ok lim ilim (r, h) \<longleftrightarrow> sound ok lim ilim h"
  by (simp add: sound_after_def)

lemma sound_after_and_then:
  "sound_after ok lim ilim x \<Longrightarrow> (\<And>a h. x = (Inr a, h) \<Longrightarrow> sound ok lim ilim h \<Longrightarrow> sound_after ok lim ilim (f a h)) \<Longrightarrow> sound_after ok lim ilim (and_then x f)"
  by (cases x) (auto simp: sound_after_def and_then_def split: sum.split)

context block_io
begin

lemma file_steps_sound:
  assumes "sound steady lim ilim h"
  shows "sound_after steady lim ilim (Heap_flush_data D h)" "sound_after steady lim ilim (Heap_sync_data D h)"
    "sound_after steady lim ilim (Heap_flush_index D h)" "sound_after steady lim ilim (Heap_sync_index D h)"
    "sound_after steady lim ilim (Heap_flush_registry D h)" "sound_after steady lim ilim (Heap_sync_registry D h)"
proof -
  let ?df = "df_paged_file (h_data h)" and ?ix = "ix_paged_file (h_index h)"
  have h: "steady (h_io h)" "pf_fine data_head lim lim ?df" "pf_fine index_head ilim OFF_MAX ?ix" using assms by (simp_all add: sound_def)
  note c = file_steps_complete [OF h(1)]
  show "sound_after steady lim ilim (Heap_flush_data D h)" "sound_after steady lim ilim (Heap_flush_index D h)"
    using flush_steady [OF h(1), of ?df] flush_steady [OF h(1), of ?ix] h
    by (auto simp: Heap_flush_data_def Heap_flush_index_def sound_def dest: flush_fine)
  show "sound_after steady lim ilim (Heap_sync_data D h)" "sound_after steady lim ilim (Heap_sync_index D h)"
    using sync_steady [OF h(1), of "pf_file ?df"] sync_steady [OF h(1), of "pf_file ?ix"] h
    by (auto simp: Heap_sync_data_def Heap_sync_index_def sound_def Let_def dest: sync_fine)
  show "sound_after steady lim ilim (Heap_flush_registry D h)" "sound_after steady lim ilim (Heap_sync_registry D h)"
    using flush_steady [OF h(1), of "the (h_registry h)"] sync_steady [OF h(1), of "pf_file (the (h_registry h))"] h
    by (auto simp: Heap_flush_registry_def Heap_sync_registry_def sound_def split: option.split)
qed

lemma commit_sound: "sound steady lim ilim h \<Longrightarrow> sound_after steady lim ilim (Heap_commit D h)"
  unfolding Heap_commit_def Heap_commit_registry_def
  by (intro sound_after_and_then file_steps_sound) (auto intro!: sound_after_and_then file_steps_sound)

lemma after_write_sound: "sound steady lim ilim h \<Longrightarrow> sound_after steady lim ilim (Heap_after_write D h)"
  using commit_sound [where h = "h\<lparr>operations_since_sync := operations_since_sync h + 1\<rparr>"]
  by (auto simp: Heap_after_write_def Let_def sound_def sound_after_def split: SlotState.split)

lemma flush_sound: "sound steady lim ilim h \<Longrightarrow> sound_after steady lim ilim (Heap_flush D h)"
  unfolding Heap_flush_def by (intro sound_after_and_then commit_sound file_steps_sound)

lemma read_slot_bytes_fine:
  assumes "IndexFile_read_slot_bytes D io ix rid = (Inr bs, io', ix')" and "pf_fine hdr lim B (ix_paged_file ix)"
  shows "pf_fine hdr lim B (ix_paged_file ix')"
  using assms by (auto simp: IndexFile_read_slot_bytes_def dest: read_aligned_fine(2) split: prod.splits sum.splits)

lemma find_slot_sound: "sound steady lim ilim h \<Longrightarrow> sound_after steady lim ilim (Heap_find_slot D h rid)"
  using read_slot_bytes_steady [of "h_io h" "h_index h" rid]
  by (auto simp: sound_def Heap_find_slot_def IndexFile_read_slot_def dest: read_slot_bytes_fine split: option.split)

lemma read_record_sound: "sound steady lim ilim h \<Longrightarrow> sound_after steady lim ilim (Heap_read_record D h slot rid)"
  using read_aligned_steady [of "h_io h" "df_paged_file (h_data h)" "sl_offset slot" "sl_total_len slot"]
  by (auto simp: sound_def Heap_read_record_def DataFile_read_record_def dest: read_aligned_fine(2) split: sum.split)

lemma read_header_sound: "sound steady lim ilim h \<Longrightarrow> sound_after steady lim ilim (Heap_read_header D h slot rid)"
  using read_aligned_steady [of "h_io h" "df_paged_file (h_data h)" "sl_offset slot" "DataFile_record_header_len (h_data h)"]
  by (auto simp: sound_def Heap_read_header_def DataFile_read_header_def Let_def dest: read_aligned_fine(2) split: option.split)

end

lemma pf_fine_pool: "pf_fine hdr lim B (pf\<lparr>pool := q\<rparr>) = pf_fine hdr lim B pf"
  by (rule pf_fine_cong) simp_all

lemma pf_fine_recycle: "pf_fine hdr lim B (PagedFile_recycle pf b) = pf_fine hdr lim B pf" "pf_fine hdr lim B (foldl PagedFile_recycle pf bs) = pf_fine hdr lim B pf"
proof -
  show "pf_fine hdr lim B (PagedFile_recycle pf b) = pf_fine hdr lim B pf" for pf b by (simp add: PagedFile_recycle_def pf_fine_pool)
  then show "pf_fine hdr lim B (foldl PagedFile_recycle pf bs) = pf_fine hdr lim B pf" by (induction bs arbitrary: pf) simp_all
qed

lemma take_sized_all_fine: "take_sized_all pf lens = (bs, pf') \<Longrightarrow> pf_fine hdr lim B pf' = pf_fine hdr lim B pf"
  using take_sized_all_facts [of pf lens bs pf'] by (auto simp: pf_fine_pool)

context block_io
begin

lemma read_slots_fine:
  assumes "steady io" and "pf_fine hdr lim B (ix_paged_file ix)"
  obtains r io' ix' where "IndexFile_read_slots D io ix ids = (r, io', ix')" "steady io'" "pf_fine hdr lim B (ix_paged_file ix')"
proof -
  obtain io1 pf1 where f: "PagedFile_flush D io (ix_paged_file ix) = (Inr (), io1, pf1)" "steady io1" using flush_steady [OF assms(1)] by blast
  obtain bs pf2 where t: "take_sized_all pf1 (map (\<lambda>(gs, ge). unat (ge - gs)) (slot_groups ids)) = (bs, pf2)" by fastforce
  obtain filled io2 where r: "read_vec D io1 (pf_file pf2) (map2 (\<lambda>(gs, _) buffer. (gs, AlignedBuf_deref buffer)) (slot_groups ids) bs) = (Inr filled, io2)" "steady io2"
    using read_vec_steady [OF f(2)] by blast
  have "pf_fine hdr lim B pf2" using take_sized_all_fine [OF t] flush_fine [OF f(1) assms(2)] by simp
  with that f t r show ?thesis
    by (cases "slots_in_groups (slot_groups ids) (map AlignedBuf_deref (fill_buffers bs filled)) ids")
      (simp_all add: IndexFile_read_slots_def Let_def pf_fine_recycle)
qed

lemma read_many_fine:
  assumes "steady io" and "pf_fine hdr lim B (df_paged_file df)"
  obtains r io' df' where "DataFile_read_many D io df items = (r, io', df')" "steady io'" "pf_fine hdr lim B (df_paged_file df')"
proof -
  let ?groups = "read_groups items"
  obtain io1 pf1 where f: "PagedFile_flush D io (df_paged_file df) = (Inr (), io1, pf1)" "steady io1" using flush_steady [OF assms(1)] by blast
  obtain bs pf2 where t: "take_sized_all pf1 (map (\<lambda>(gs, ge, _). unat (ge - gs)) ?groups) = (bs, pf2)" by fastforce
  obtain filled io2 where r: "read_vec D io1 (pf_file pf2) (map2 (\<lambda>(gs, _, _) buffer. (gs, AlignedBuf_deref buffer)) ?groups bs) = (Inr filled, io2)" "steady io2"
    using read_vec_steady [OF f(2)] by blast
  have "pf_fine hdr lim B pf2" using take_sized_all_fine [OF t] flush_fine [OF f(1) assms(2)] by simp
  with that f t r show ?thesis
    by (cases "parse_groups df items (zip ?groups (map AlignedBuf_deref (fill_buffers bs filled))) (replicate (length items) [])")
      (simp_all add: DataFile_read_many_def Let_def pf_fine_recycle)
qed

lemma read_batch_sound:
  assumes "sound steady lim ilim h"
  shows "sound_after steady lim ilim (Heap_read_batch D h ids)"
proof -
  have h: "steady (h_io h)" "pf_fine data_head lim lim (df_paged_file (h_data h))" "pf_fine index_head ilim OFF_MAX (ix_paged_file (h_index h))"
    using assms by (simp_all add: sound_def)
  obtain r io ix where s: "IndexFile_read_slots D (h_io h) (h_index h) ids = (r, io, ix)" "steady io" "pf_fine index_head ilim OFF_MAX (ix_paged_file ix)"
    using read_slots_fine [OF h(1,3)] .
  show ?thesis
  proof (cases "\<exists>slots items. r = Inr slots \<and> batch_items ids slots = Inr items")
    case True
    then obtain slots items where i: "r = Inr slots" "batch_items ids slots = Inr items" by blast
    obtain r' io' df where "DataFile_read_many D io (h_data h) items = (r', io', df)" "steady io'" "pf_fine data_head lim lim (df_paged_file df)"
      using read_many_fine [OF s(2) h(2)] .
    with s i show ?thesis by (simp add: Heap_read_batch_def Let_def sound_def)
  next
    case False
    with s h show ?thesis by (auto simp: Heap_read_batch_def Let_def sound_def split: sum.split)
  qed
qed

lemma read_sound: "sound steady lim ilim h \<Longrightarrow> sound_after steady lim ilim (Heap_read D h rid)"
  unfolding Heap_read_def by (intro sound_after_and_then find_slot_sound read_record_sound)

lemma stage_record_sound:
  assumes h: "sound steady lim ilim h" and off: "4096 \<le> unat off" "unat off + record_len (h_data h) payload \<le> n" and n: "4096 dvd n" "n \<le> lim"
  shows "sound_after steady lim ilim (Heap_stage_record D h off bucket rid version payload)"
proof -
  let ?df = "h_data h"
  let ?parts = "[header_bytes (record_header (df_integrity ?df) bucket rid version payload) (df_with_bucket ?df), payload]"
  have f: "steady (h_io h)" "pf_fine data_head lim lim (df_paged_file ?df)" using h by (simp_all add: sound_def)
  obtain io pf where s: "PagedFile_stage D (h_io h) (df_paged_file ?df) off ?parts = (Inr (), io, pf)" "steady io"
    using stage_steady [OF f(1)] by blast
  have "pf_fine data_head lim lim pf" using stage_fine [OF s(1) f(2) off(1) _ n] off(2) by (simp add: parts_len_def record_len_def)
  moreover have "DataFile_stage_record D (h_io h) ?df off bucket rid version payload = (Inr (), io, ?df\<lparr>df_paged_file := pf\<rparr>)"
    using s(1) unfolding DataFile_stage_record_def Let_def encode_record_header record_header_def [symmetric] by simp
  ultimately show ?thesis using s(2) h by (simp add: Heap_stage_record_def sound_def)
qed

lemma stage_slot_sound:
  assumes h: "sound steady lim ilim h" and rid: "unat rid < ID_MAX"
  shows "sound_after steady lim ilim (Heap_stage_slot D h rid slot)" "sound_after steady lim ilim (Heap_stage_tombstone D h rid old)"
proof -
  have f: "steady (h_io h)" "pf_fine index_head ilim OFF_MAX (ix_paged_file (h_index h))" using h by (simp_all add: sound_def)
  have "\<exists>io pf. PagedFile_stage D (h_io h) (ix_paged_file (h_index h)) (Slot_file_offset rid) [bs] = (Inr (), io, pf) \<and> steady io \<and>
      pf_fine index_head ilim OFF_MAX pf" if "length bs = 16" for bs
    using stage_steady [OF f(1), of "ix_paged_file (h_index h)" "Slot_file_offset rid" "[bs]"] stage_fine [OF _ f(2), where n = OFF_MAX] rid that
    by (fastforce simp: slot_offset parts_len_def)
  note st = this
  show "sound_after steady lim ilim (Heap_stage_slot D h rid slot)"
    using st [of "case slot of Some slot \<Rightarrow> Slot_encode slot (replicate SLOT_SIZE 0) | None \<Rightarrow> replicate SLOT_SIZE 0"] h
    by (auto simp: Heap_stage_slot_def IndexFile_stage_slot_def sound_def Slot_encode_eq SLOT_SIZE_def Let_def split: option.splits)
  show "sound_after steady lim ilim (Heap_stage_tombstone D h rid old)"
    using st [of "Slot_encode \<lparr>sl_offset = sl_offset old OR TOMBSTONE_BIT, sl_total_len = sl_total_len old\<rparr> (replicate SLOT_SIZE 0)"] h
    by (auto simp: Heap_stage_tombstone_def IndexFile_stage_tombstone_def sound_def Slot_encode_eq SLOT_SIZE_def)
qed

end

end
