(* ===== verification/Reopen.thy ===== *)
theory Reopen
  imports Whole_Files
begin

text \<open>
  Append heaps over their whole life: what each operation does to the slots of the index and to the
  bytes of the data file, the invariant that opening depends on, and that a heap which was flushed and
  then lost is found again by \<open>open\<close>, as often as this happens.
\<close>

section \<open>What a write changes\<close>

definition record_written :: "('io, 'p) Heap \<Rightarrow> u64 \<Rightarrow> u64 \<Rightarrow> u64 \<Rightarrow> u16 \<Rightarrow> bytes \<Rightarrow> ('io, 'p) Heap \<Rightarrow> bool" where
  "record_written h off bucket rid version payload h' \<longleftrightarrow>
     h_config h' = h_config h \<and> df_with_bucket (h_data h') = df_with_bucket (h_data h) \<and> df_integrity (h_data h') = df_integrity (h_data h) \<and>
     ix_slot (h_index h') = (ix_slot (h_index h))(rid := Live \<lparr>sl_offset = off, sl_total_len = of_nat (record_len (h_data h) payload)\<rparr>) \<and>
     df_view (h_data h') = overlay (df_view (h_data h)) (unat off)
       (record_bytes (df_with_bucket (h_data h)) (df_integrity (h_data h)) bucket rid version payload)"

context block_io
begin

lemma write_record_written:
  assumes s1: "Heap_stage_record D h off bucket rid version payload = (Inr u1, h1)"
    and s2: "Heap_stage_slot D h1 rid (Some \<lparr>sl_offset = off, sl_total_len = of_nat (record_len (h_data h) payload)\<rparr>) = (Inr u2, h2)"
    and s3: "Heap_after_write D h2 = (Inr u3, h3)"
    and ok: "pf_ok (df_paged_file (h_data h))" "pf_ok (ix_paged_file (h_index h))"
    and off: "4096 \<le> unat off" "unat off + record_len (h_data h) payload \<le> OFF_MAX" and rid: "unat rid < ID_MAX"
  shows "record_written h off bucket rid version payload h3"
proof -
  let ?df = "h_data h" and ?slot = "\<lparr>sl_offset = off, sl_total_len = of_nat (record_len (h_data h) payload)\<rparr>"
  obtain io1 df1 where d: "DataFile_stage_record D (h_io h) ?df off bucket rid version payload = (Inr u1, io1, df1)"
    and h1: "h1 = h\<lparr>h_io := io1, h_data := df1\<rparr>"
    using s1 by (auto simp: Heap_stage_record_def split: prod.splits)
  obtain pf1 where df1: "df1 = ?df\<lparr>df_paged_file := pf1\<rparr>" "pf_ok pf1"
      "pf_view pf1 = overlay (df_view ?df) (unat off) (record_bytes (df_with_bucket ?df) (df_integrity ?df) bucket rid version payload)"
    using stage_record_Inr [OF d ok(1) off(2)] by blast
  obtain io2 ix2 where i: "IndexFile_stage_slot D (h_io h1) (h_index h1) rid (Some ?slot) = (Inr u2, io2, ix2)"
    and h2: "h2 = h1\<lparr>h_io := io2, h_index := ix2\<rparr>"
    using s2 by (auto simp: Heap_stage_slot_def split: prod.splits)
  have "sl_offset ?slot \<noteq> 0" "unat (sl_offset ?slot) < 9223372036854775808" using off by (auto simp: word_unat_eq_iff)
  then have ix2: "pf_ok (ix_paged_file ix2)" "ix_slot ix2 = (ix_slot (h_index h))(rid := Live ?slot)"
    using stage_slot_Inr [OF i _ rid] ok(2) by (simp_all add: h1)
  then have "heap_stay h2 h3" using Heap_after_write_Inr [OF s3] df1 by (simp add: h2 h1)
  then show ?thesis using ix2(2) df1 by (simp add: record_written_def heap_stay_def df_stay_def h2 h1)
qed

end

section \<open>What opening depends on\<close>

text \<open>
  The index knows the identifiers and the end of the records, and the data file holds zeros from there on.
\<close>

definition append_tidy :: "('io, AppendPlacement) Heap \<Rightarrow> bool" where
  "append_tidy h \<longleftrightarrow> heap_ok append_good append_owned append_taken h \<and>
     index_upto (ix_slot (h_index h)) (unat (ap_next_id (h_placement h))) (unat (ap_cursor (h_placement h))) \<and>
     (\<forall>i \<ge> unat (ap_cursor (h_placement h)). df_view (h_data h) i = 0) \<and>
     \<not> df_with_bucket (h_data h) \<and> df_integrity (h_data h) = integrity (h_config h)"

lemma append_tidyD:
  assumes "append_tidy h"
  shows "heap_ok append_good append_owned append_taken h"
    "index_upto (ix_slot (h_index h)) (unat (ap_next_id (h_placement h))) (unat (ap_cursor (h_placement h)))"
    "unat (ap_cursor (h_placement h)) \<le> i \<Longrightarrow> df_view (h_data h) i = 0"
    "\<not> df_with_bucket (h_data h)" "df_integrity (h_data h) = integrity (h_config h)"
  using assms by (auto simp: append_tidy_def)

lemma index_upto_cong:
  assumes "\<And>i. slot_of (st' i) = slot_of (st i)"
  shows "index_upto st' N E = index_upto st N E"
proof -
  have "st' i = Empty \<longleftrightarrow> st i = Empty" for i using assms [of i] slot_of_None by metis
  then show ?thesis unfolding index_upto_def assms by simp
qed

lemma index_upto_write:
  assumes u: "index_upto st N E" and rid: "unat rid < N'" and N': "N' = N \<or> N' = Suc N \<and> unat rid = N" "N' \<le> ID_MAX"
    and slot: "slot_end slot = E'" "E \<le> E'" "E' \<le> OFF_MAX"
  shows "index_upto (st(rid := Live slot)) N' E'"
proof -
  have "st (of_nat (N' - 1)) \<noteq> Empty \<or> of_nat (N' - 1) = rid"
  proof (cases "N' = N")
    case True
    with u rid show ?thesis by (auto simp: index_upto_def)
  next
    case False
    with N'(1) show ?thesis by auto
  qed
  moreover have "slot_of (Live slot) = Some slot" by (simp add: slot_of_def)
  moreover have "\<forall>i. N' \<le> unat i \<longrightarrow> (st(rid := Live slot)) i = Empty" using u rid N'(1) by (auto simp: index_upto_def)
  moreover have "4096 \<le> E'" using u slot(2) by (simp add: index_upto_def)
  moreover have "\<forall>i slot'. slot_of ((st(rid := Live slot)) i) = Some slot' \<longrightarrow> slot_end slot' \<le> E'"
  proof (intro allI impI)
    fix i slot'
    assume "slot_of ((st(rid := Live slot)) i) = Some slot'"
    then have "slot' = slot \<or> slot_of (st i) = Some slot'" by (auto simp: slot_of_def split: if_splits)
    then show "slot_end slot' \<le> E'" using u slot unfolding index_upto_def by (meson order_trans order_refl)
  qed
  moreover have "\<exists>i slot'. slot_of ((st(rid := Live slot)) i) = Some slot' \<and> slot_end slot' = E'"
    using slot(1) by (intro exI [of _ rid] exI [of _ slot]) (simp add: slot_of_def)
  ultimately show ?thesis using N'(2) slot(3) unfolding index_upto_def by auto
qed

section \<open>Operations keep a heap tidy\<close>

context block_io
begin

lemma append_tidy_stay:
  assumes t: "append_tidy (h :: ('io, AppendPlacement) Heap)" and st: "heap_stay h h'"
  shows "append_tidy h'"
proof -
  have "heap_ok append_good append_owned append_taken h'"
    by (rule placing.heap_ok_stay [OF append_placing [OF block_io_axioms] append_tidyD(1) [OF t] st])
  then show ?thesis using t st by (simp add: append_tidy_def heap_stay_def df_stay_def)
qed

lemma sound_result: "sound_after steady lim ilim x \<Longrightarrow> x = (r, h') \<Longrightarrow> sound steady lim ilim h'"
  by simp

end

text \<open>What an operation does to the files of an append heap: a record goes to the cursor, which moves past it.\<close>

definition wrote ::
  "('io, AppendPlacement) Heap \<Rightarrow> u64 \<Rightarrow> u64 \<Rightarrow> u16 \<Rightarrow> bytes \<Rightarrow> ('io, AppendPlacement) Heap \<Rightarrow> bool" where
  "wrote h bucket rid version payload h' \<longleftrightarrow> record_written h (ap_cursor (h_placement h)) bucket rid version payload h' \<and>
     unat (ap_cursor (h_placement h')) = unat (ap_cursor (h_placement h)) + record_len (h_data h) payload \<and>
     ap_next_id (h_placement h') = (if rid = ap_next_id (h_placement h) then rid + 1 else ap_next_id (h_placement h))"

definition effect :: "('io, AppendPlacement) Heap \<Rightarrow> heap_op \<Rightarrow> heap_ret \<Rightarrow> ('io, AppendPlacement) Heap \<Rightarrow> bool" where
  "effect h op r h' = (case op of
     Insert bucket payload \<Rightarrow> r = Id (ap_next_id (h_placement h)) \<and> wrote h bucket (ap_next_id (h_placement h)) 1 payload h'
   | Update rid payload \<Rightarrow> (\<exists>bucket slot old. ix_slot (h_index h) rid = Live slot \<and> version_at (h_data h) (sl_offset slot) rid old \<and>
       wrote h bucket rid (old + 1) payload h')
   | Delete rid \<Rightarrow> (\<exists>slot. ix_slot (h_index h) rid = Live slot \<and> ix_slot (h_index h') = (ix_slot (h_index h))(rid := Deleted slot) \<and>
       h_placement h' = h_placement h \<and> h_config h' = h_config h \<and> df_stay (h_data h) (h_data h'))
   | _ \<Rightarrow> heap_stay h h')"

lemma effect_reads [simp]:
  "effect h (Read rid) r h' = heap_stay h h'" "effect h (ReadBatch ids) r h' = heap_stay h h'" "effect h Flush r h' = heap_stay h h'"
  by (simp_all add: effect_def)

lemma df_stay_trans: "df_stay a b \<Longrightarrow> df_stay b d \<Longrightarrow> df_stay a d"
  by (auto simp: df_stay_def intro: pf_extent_trans)

lemma wrote_stay:
  assumes "heap_stay h0 h" and "wrote h bucket rid version payload h'"
  shows "wrote h0 bucket rid version payload h'"
  using assms by (auto simp: wrote_def record_written_def heap_stay_def df_stay_def record_len_def)

context block_io
begin

lemma place_tidy:
  assumes tidy: "append_tidy h" and snd: "sound steady lim ilim h" and len: "record_len (h_data h) payload \<le> OFF_MAX"
    and p: "p = h_placement h" and rl: "rl = of_nat (record_len (h_data h) payload)"
    and e: "PagedFile_ensure_alloc (df_paged_file (h_data h)) (ap_cursor p + rl) (growth (h_config h)) = (Inr (), pf)"
    and h1: "h1 = h\<lparr>h_placement := \<lparr>ap_cursor = ap_cursor p + rl, ap_next_id = next_id\<rparr>, h_data := (h_data h)\<lparr>df_paged_file := pf\<rparr>\<rparr>"
    and s1: "Heap_stage_record D h1 (ap_cursor p) bucket rid version payload = (Inr (), h2)"
    and s2: "Heap_stage_slot D h2 rid (Some \<lparr>sl_offset = ap_cursor p, sl_total_len = rl\<rparr>) = (Inr (), h3)"
    and s3: "Heap_after_write D h3 = (Inr (), h')"
    and rid: "unat rid < ID_MAX" "unat rid < unat next_id" "next_id = ap_next_id p \<or> next_id = ap_next_id p + 1 \<and> rid = ap_next_id p"
    and ok': "heap_ok append_good append_owned append_taken h'"
  shows "append_tidy h' \<and> sound steady lim ilim h' \<and> wrote h bucket rid version payload h'"
proof -
  let ?df = "h_data h" and ?df1 = "(h_data h)\<lparr>df_paged_file := pf\<rparr>" and ?n = "unat (allocated_end pf)"
  let ?rb = "record_bytes (df_with_bucket ?df) (df_integrity ?df) bucket rid version payload"
  have ok: "append_good (h_config h) p ?df" "pf_ok (df_paged_file ?df)" "pf_ok (ix_paged_file (h_index h))"
    using heap_okD(1-3) [OF append_tidyD(1) [OF tidy]] p by simp_all
  have url: "unat rl = record_len ?df payload" unfolding rl by (rule unat_total_len [OF len])
  note step = append_step [OF e ok(1,2), unfolded url, OF len]
  have grow: "pf_ok pf" "pf_view pf = df_view ?df" using df_growD(1,2) [OF step(2)] by simp_all
  have cur: "unat (ap_cursor p + rl) = unat (ap_cursor p) + record_len ?df payload"
    using step(4) url by (simp add: unat_add_nowrap)
  have room: "pf_room (df_paged_file ?df)" "unat (ap_cursor p) \<le> OFF_MAX" "unat (growth (h_config h)) \<le> OFF_MAX"
    using ok(1) by (auto simp: append_good_def pf_room_def)
  have fine: "pf_fine data_head lim lim pf"
    using ensure_alloc_fine [OF e _ room(1) _ room(3)] snd cur room(2) len by (simp add: sound_def)
  have snd1: "sound steady lim ilim h1" using snd fine by (simp add: sound_def h1)
  have rl1: "record_len (h_data h1) payload = record_len ?df payload" by (simp add: h1 record_len_def)
  have "unat (ap_cursor p) + record_len ?df payload \<le> ?n" "4096 dvd ?n" "?n \<le> lim"
    using step(1) [of next_id] cur pf_fineD(2) [OF fine] by (auto simp: append_good_def pf_whole_def Let_def)
  then have snd2: "sound steady lim ilim h2"
    using stage_record_sound [OF snd1 step(3), of payload ?n bucket rid version] rl1 s1 by simp
  have snd3: "sound steady lim ilim h3" using stage_slot_sound(1) [OF snd2 rid(1)] s2 sound_result by blast
  have sound': "sound steady lim ilim h'" using after_write_sound [OF snd3] s3 sound_result by blast
  have s2': "Heap_stage_slot D h2 rid (Some \<lparr>sl_offset = ap_cursor p, sl_total_len = of_nat (record_len (h_data h1) payload)\<rparr>) = (Inr (), h3)"
    using s2 unfolding rl rl1 .
  have w: "record_written h1 (ap_cursor p) bucket rid version payload h'"
    by (rule write_record_written [OF s1 s2' s3 _ _ step(3) _ rid(1)]) (use grow ok(3) step(4) rl1 in \<open>simp_all add: h1\<close>)
  have place: "h_placement h' = \<lparr>ap_cursor = ap_cursor p + rl, ap_next_id = next_id\<rparr>"
    using Heap_write_placement [OF s1 s2 s3] by (simp add: h1)
  let ?slot = "\<lparr>sl_offset = ap_cursor p, sl_total_len = rl\<rparr>"
  have st: "ix_slot (h_index h') = (ix_slot (h_index h))(rid := Live ?slot)"
    using w rl1 by (simp add: record_written_def h1 rl)
  have N: "unat next_id = unat (ap_next_id p) \<or> unat next_id = Suc (unat (ap_next_id p)) \<and> unat rid = unat (ap_next_id p)" "unat next_id \<le> ID_MAX"
  proof -
    have "index_upto (ix_slot (h_index h)) (unat (ap_next_id p)) (unat (ap_cursor p))" using append_tidyD(2) [OF tidy] p by simp
    then have "unat (ap_next_id p) \<le> ID_MAX" by (simp add: index_upto_def)
    then show "unat next_id = unat (ap_next_id p) \<or> unat next_id = Suc (unat (ap_next_id p)) \<and> unat rid = unat (ap_next_id p)" "unat next_id \<le> ID_MAX"
      using rid by (auto simp: unat_add_nowrap)
  qed
  have "index_upto (ix_slot (h_index h')) (unat next_id) (unat (ap_cursor p + rl))"
    unfolding st
  proof (rule index_upto_write [OF _ rid(2) N])
    show "index_upto (ix_slot (h_index h)) (unat (ap_next_id p)) (unat (ap_cursor p))" using append_tidyD(2) [OF tidy] p by simp
    show "unat (ap_cursor p) \<le> unat (ap_cursor p + rl)" "unat (ap_cursor p + rl) \<le> OFF_MAX" "slot_end ?slot = unat (ap_cursor p + rl)"
      using step(4) url unfolding cur by simp_all
  qed
  moreover have "\<forall>i \<ge> unat (ap_cursor p + rl). df_view (h_data h') i = 0"
    using w append_tidyD(3) [OF tidy] grow(2) cur by (auto simp: record_written_def h1 overlay_def record_len_def p)
  moreover have "\<not> df_with_bucket (h_data h')" "df_integrity (h_data h') = integrity (h_config h')"
    using w append_tidyD(4,5) [OF tidy] by (simp_all add: record_written_def h1)
  moreover have "wrote h bucket rid version payload h'"
    using w rl1 grow(2) cur url rid by (auto simp: wrote_def record_written_def place p h1)
  ultimately show ?thesis using ok' sound' by (simp add: append_tidy_def place)
qed

end

lemma append_alloc_eq:
  assumes "AppendPlacement_alloc D io cfg p df reg bucket len = (Inr (off, rid), io', p', df', reg')"
  obtains pf where "PagedFile_ensure_alloc (df_paged_file df) (ap_cursor p + len) (growth cfg) = (Inr (), pf)" "off = ap_cursor p" "rid = ap_next_id p"
    "io' = io" "reg' = reg" "df' = df\<lparr>df_paged_file := pf\<rparr>" "p' = \<lparr>ap_cursor = ap_cursor p + len, ap_next_id = ap_next_id p + 1\<rparr>"
  using assms by (auto simp: AppendPlacement_alloc_def Let_def split: prod.splits sum.splits)

lemma append_alloc_update_eq:
  assumes "AppendPlacement_alloc_update D io cfg p df reg bucket len = (Inr off, io', p', df', reg')"
  obtains pf where "PagedFile_ensure_alloc (df_paged_file df) (ap_cursor p + len) (growth cfg) = (Inr (), pf)" "off = ap_cursor p"
    "io' = io" "reg' = reg" "df' = df\<lparr>df_paged_file := pf\<rparr>" "p' = \<lparr>ap_cursor = ap_cursor p + len, ap_next_id = ap_next_id p\<rparr>"
  using assms by (auto simp: AppendPlacement_alloc_update_def Let_def split: prod.splits sum.splits)

context block_io
begin

lemma insert_tidy:
  assumes tidy: "append_tidy h" and snd: "sound steady lim ilim h" and len: "record_len (h_data h) payload \<le> OFF_MAX"
    and c: "Heap_insert_into D append_placement h bucket payload = (Inr rid, h')" and rid: "unat rid < ID_MAX"
  shows "append_tidy h' \<and> sound steady lim ilim h' \<and> effect h (Insert bucket payload) (Id rid) h'"
proof -
  let ?total = "of_nat (record_len (h_data h) payload) :: u64" and ?p = "h_placement h"
  obtain off h1 h2 h3 where a: "Heap_alloc D append_placement h bucket ?total = (Inr (off, rid), h1)"
    and s1: "Heap_stage_record D h1 off bucket rid 1 payload = (Inr (), h2)"
    and s2: "Heap_stage_slot D h2 rid (Some \<lparr>sl_offset = off, sl_total_len = ?total\<rparr>) = (Inr (), h3)"
    and s3: "Heap_after_write D h3 = (Inr (), h')"
    using c by (auto simp: Heap_insert_into_def Let_def total_len_record elim!: and_then_Inr)
  obtain io p df reg where al: "AppendPlacement_alloc D (h_io h) (h_config h) ?p (h_data h) (h_registry h) bucket ?total =
      (Inr (off, rid), io, p, df, reg)" and h1: "h1 = h\<lparr>h_io := io, h_placement := p, h_data := df, h_registry := reg\<rparr>"
    using a by (auto simp: Heap_alloc_def append_placement_simps split: prod.splits)
  obtain pf where
    e: "PagedFile_ensure_alloc (df_paged_file (h_data h)) (ap_cursor ?p + ?total) (growth (h_config h)) = (Inr (), pf)"
    and r: "off = ap_cursor ?p" "rid = ap_next_id ?p" "io = h_io h" "reg = h_registry h" "df = (h_data h)\<lparr>df_paged_file := pf\<rparr>"
      "p = \<lparr>ap_cursor = ap_cursor ?p + ?total, ap_next_id = ap_next_id ?p + 1\<rparr>"
    using append_alloc_eq [OF al] by blast
  have h1': "h1 = h\<lparr>h_placement := \<lparr>ap_cursor = ap_cursor ?p + ?total, ap_next_id = ap_next_id ?p + 1\<rparr>, h_data := (h_data h)\<lparr>df_paged_file := pf\<rparr>\<rparr>"
    unfolding h1 r(3-6) by (cases h) simp
  have ok': "heap_ok append_good append_owned append_taken h'"
    using placing.insert_into_Inr [OF append_placing [OF block_io_axioms] c append_tidyD(1) [OF tidy] len rid]
    by (simp add: append_sane_def)
  have "unat rid < unat (ap_next_id ?p + 1)" using rid r(2) by (simp add: unat_add_nowrap)
  from place_tidy [OF tidy snd len refl refl e h1' s1 [unfolded r(1)] s2 [unfolded r(1)] s3 rid this _ ok'] show ?thesis
    by (simp add: r(2) effect_def)
qed

end

context block_io
begin

lemma update_tidy:
  assumes tidy: "append_tidy h" and snd: "sound steady lim ilim h" and len: "record_len (h_data h) payload \<le> OFF_MAX"
    and c: "Heap_update D append_placement h rid payload = (Inr u, h')" and rid: "unat rid < ID_MAX"
  shows "append_tidy h' \<and> sound steady lim ilim h' \<and> effect h (Update rid payload) Done h'"
proof -
  note ok = append_tidyD(1) [OF tidy]
  obtain slot h1 old h2 off h3 h4 h5 where fs: "Heap_find_slot D h rid = (Inr slot, h1)"
    and rh: "Heap_read_header D h1 slot rid = (Inr old, h2)"
    and a: "Heap_alloc_update D append_placement h2 (rh_bucket old) (of_nat (record_len (h_data h2) payload)) = (Inr off, h3)"
    and s1: "Heap_stage_record D h3 off (rh_bucket old) rid (rh_version old + 1) payload = (Inr (), h4)"
    and s2: "Heap_stage_slot D h4 rid (Some \<lparr>sl_offset = off, sl_total_len = of_nat (record_len (h_data h2) payload)\<rparr>) = (Inr (), h5)"
    and s3: "Heap_after_write D h5 = (Inr (), h')"
    using c by (auto simp: Heap_update_def Let_def total_len_record elim!: and_then_Inr)
  note find = find_slot_Inr(1) [OF fs rid heap_okD(2,3) [OF ok] refl]
  then have st1: "heap_stay h h1" and d1: "h_data h1 = h_data h" and live: "ix_slot (h_index h) rid = Live slot" by simp_all
  obtain q where q: "slot_record (append_owned (h_placement h)) (h_data h1) rid slot q"
    using heap_ok_find [OF ok live] d1 by metis
  have st2: "heap_stay h h2"
    using st1 Heap_read_header_Inr(1) [OF rh q heap_stay_ok [OF st1] refl] by (rule heap_stay_trans)
  have snd1: "sound steady lim ilim h1" using find_slot_sound [OF snd] fs sound_result by blast
  have snd2: "sound steady lim ilim h2" using read_header_sound [OF snd1] rh sound_result by blast
  let ?p = "h_placement h2" and ?total = "of_nat (record_len (h_data h2) payload) :: u64"
  have len2: "record_len (h_data h2) payload \<le> OFF_MAX"
    using len st2 by (simp add: heap_stay_def df_stay_def record_len_def)
  obtain io p df reg where al: "AppendPlacement_alloc_update D (h_io h2) (h_config h2) ?p (h_data h2) (h_registry h2) (rh_bucket old) ?total =
      (Inr off, io, p, df, reg)" and h3: "h3 = h2\<lparr>h_io := io, h_placement := p, h_data := df, h_registry := reg\<rparr>"
    using a by (auto simp: Heap_alloc_update_def append_placement_simps split: prod.splits)
  obtain pf where
    e: "PagedFile_ensure_alloc (df_paged_file (h_data h2)) (ap_cursor ?p + ?total) (growth (h_config h2)) = (Inr (), pf)"
    and r: "off = ap_cursor ?p" "io = h_io h2" "reg = h_registry h2" "df = (h_data h2)\<lparr>df_paged_file := pf\<rparr>"
      "p = \<lparr>ap_cursor = ap_cursor ?p + ?total, ap_next_id = ap_next_id ?p\<rparr>"
    using append_alloc_update_eq [OF al] by blast
  have h3': "h3 = h2\<lparr>h_placement := \<lparr>ap_cursor = ap_cursor ?p + ?total, ap_next_id = ap_next_id ?p\<rparr>, h_data := (h_data h2)\<lparr>df_paged_file := pf\<rparr>\<rparr>"
    unfolding h3 r(2-5) by (cases h2) simp
  have ok': "heap_ok append_good append_owned append_taken h'"
    using placing.update_Inr [OF append_placing [OF block_io_axioms] c ok len rid] by (simp add: append_sane_def)
  have "unat rid \<in> append_taken (h_placement h)" using heap_okD(4) [OF ok, of rid] live by fastforce
  then have "unat rid < unat (ap_next_id ?p)" using st2 by (simp add: append_taken_def heap_stay_def)
  from place_tidy [OF append_tidy_stay [OF tidy st2] snd2 len2 refl refl e h3' s1 [unfolded r(1)] s2 [unfolded r(1)] s3 rid this _ ok']
  have placed: "append_tidy h'" "sound steady lim ilim h'" "wrote h2 (rh_bucket old) rid (rh_version old + 1) payload h'" by simp_all
  obtain bucket version where dr: "df_record (h_data h) (unat (sl_offset slot)) bucket rid version q" "4096 \<le> unat (sl_offset slot)"
    using q d1 by (auto simp: slot_record_def)
  obtain io0 df0 where dh: "DataFile_read_header D (h_io h1) (h_data h) (sl_offset slot) rid = (Inr old, io0, df0)"
    using rh d1 by (auto simp: Heap_read_header_def split: prod.splits)
  have "rh_version old = version"
    using read_header_Inr(1) [OF dh heap_okD(2) [OF ok] dr(1) refl] by (simp add: stored_header_def record_header_def)
  with dr have "version_at (h_data h) (sl_offset slot) rid (rh_version old)" by (auto simp: version_at_def)
  with placed(1,2) wrote_stay [OF st2 placed(3)] live show ?thesis unfolding effect_def heap_op.case by blast
qed

lemma delete_tidy:
  assumes tidy: "append_tidy h" and snd: "sound steady lim ilim h"
    and c: "Heap_delete D h rid = (Inr u, h')" and rid: "unat rid < ID_MAX"
  shows "append_tidy h' \<and> sound steady lim ilim h' \<and> effect h (Delete rid) Done h'"
proof -
  note ok = append_tidyD(1) [OF tidy]
  obtain slot h1 h2 where fs: "Heap_find_slot D h rid = (Inr slot, h1)"
    and ts: "Heap_stage_tombstone D h1 rid slot = (Inr (), h2)" and aw: "Heap_after_write D h2 = (Inr u, h')"
    using c by (auto simp: Heap_delete_def elim!: and_then_Inr)
  note find = find_slot_Inr(1) [OF fs rid heap_okD(2,3) [OF ok] refl]
  then have st: "heap_stay h h1" and live: "ix_slot (h_index h) rid = Live slot" by simp_all
  note ok1 = heap_okD(2,3) [OF append_tidyD(1) [OF append_tidy_stay [OF tidy st]]]
  obtain q where "slot_record (append_owned (h_placement h)) (h_data h) rid slot q" using heap_ok_find [OF ok live] by metis
  then have "unat (sl_offset slot) < 9223372036854775808" by (auto simp: slot_record_def df_record_def)
  moreover obtain io ix where t: "IndexFile_stage_tombstone D (h_io h1) (h_index h1) rid slot = (Inr (), io, ix)"
    and h2: "h2 = h1\<lparr>h_io := io, h_index := ix\<rparr>"
    using ts by (auto simp: Heap_stage_tombstone_def split: prod.splits)
  ultimately have ix: "pf_ok (ix_paged_file ix)" "ix_slot ix = (ix_slot (h_index h1))(rid := Deleted slot)"
    using stage_tombstone_Inr [OF _ ok1(2) rid] by blast+
  have stay2: "heap_stay h2 h'" using Heap_after_write_Inr [OF aw] ok1(1) ix(1) by (simp add: h2)
  have st': "ix_slot (h_index h') = (ix_slot (h_index h))(rid := Deleted slot)" "h_placement h' = h_placement h" "h_config h' = h_config h"
    using stay2 st ix(2) by (simp_all add: heap_stay_def h2)
  have "index_upto (ix_slot (h_index h')) N E = index_upto (ix_slot (h_index h)) N E" for N E
    by (rule index_upto_cong) (simp add: st' live slot_of_def)
  moreover have "df_view (h_data h') = df_view (h_data h)" "df_with_bucket (h_data h') = df_with_bucket (h_data h)"
    "df_integrity (h_data h') = df_integrity (h_data h)"
    using stay2 st by (simp_all add: heap_stay_def df_stay_def h2)
  moreover have "heap_ok append_good append_owned append_taken h'"
    using placing.delete_Inr [OF append_placing [OF block_io_axioms] c ok rid] by simp
  ultimately have "append_tidy h'" using tidy by (simp add: append_tidy_def st')
  moreover have "sound steady lim ilim h1" using find_slot_sound [OF snd] fs sound_result by blast
  then have "sound steady lim ilim h2" using stage_slot_sound(2) [OF _ rid] ts sound_result by blast
  then have "sound steady lim ilim h'" using after_write_sound aw sound_result by blast
  moreover have "df_stay (h_data h) (h_data h')" using stay2 df_stay_trans st by (auto simp: heap_stay_def h2)
  ultimately show ?thesis using st' live by (simp add: effect_def)
qed

text \<open>Runs.\<close>

lemma exec_tidy:
  assumes tidy: "append_tidy h" and snd: "sound steady lim ilim h" and fits: "op_fits h op"
    and e: "heap_exec D append_placement h op = (Inr r, h')" and r: "ret_fits r"
  shows "append_tidy h' \<and> sound steady lim ilim h' \<and> effect h op r h'"
proof (cases op)
  case (Insert bucket payload)
  with e fits r insert_tidy [OF tidy snd] show ?thesis by (auto simp: ret_of_eq map_sum_Inr)
next
  case (Read rid)
  with e obtain out where c: "Heap_read D h rid = (Inr out, h')" by (auto simp: ret_of_eq map_sum_Inr)
  have "heap_stay h h'" using read_Inr(1) [OF c append_tidyD(1) [OF tidy] _ refl] fits Read by simp
  then show ?thesis using append_tidy_stay [OF tidy] sound_result [OF read_sound [OF snd] c] Read by simp
next
  case (ReadBatch ids)
  with e obtain out where c: "Heap_read_batch D h ids = (Inr out, h')" by (auto simp: ret_of_eq map_sum_Inr)
  have "heap_stay h h'" using read_batch_Inr [OF c append_tidyD(1) [OF tidy]] fits ReadBatch by simp
  then show ?thesis using append_tidy_stay [OF tidy] sound_result [OF read_batch_sound [OF snd] c] ReadBatch by simp
next
  case (Update rid payload)
  with e fits update_tidy [OF tidy snd] show ?thesis by (auto simp: ret_of_eq map_sum_Inr)
next
  case (Delete rid)
  with e fits delete_tidy [OF tidy snd] show ?thesis by (auto simp: ret_of_eq map_sum_Inr)
next
  case Flush
  with e obtain u where c: "Heap_flush D h = (Inr u, h')" by (auto simp: ret_of_eq map_sum_Inr)
  have "heap_stay h h'" using Heap_flush_Inr [OF c heap_okD(2,3) [OF append_tidyD(1) [OF tidy]]] Flush by simp
  then show ?thesis using append_tidy_stay [OF tidy] sound_result [OF flush_sound [OF snd] c] Flush by simp
qed

lemma missing_sound:
  assumes snd: "sound steady lim ilim h" and ok: "heap_ok good owned taken h" and fits: "op_fits h op" and l: "looks_up h op rid"
    and m: "heap_map h rid = None" and e: "heap_exec D P h op = (r, h')"
  shows "sound steady lim ilim h'"
proof -
  have steady: "steady (h_io h)" using snd by (simp add: sound_def)
  obtain fr h1 where fs: "Heap_find_slot D h rid = (fr, h1)" by fastforce
  have h1: "sound steady lim ilim h1" using find_slot_sound [OF snd] fs sound_result by blast
  have gone: "fr = Inl (Err (NotFound rid))" if "unat rid < ID_MAX"
    using find_slot_Inr(2) [OF fs that heap_okD(2,3) [OF ok] steady] m by (auto simp: heap_map_def split: SlotState.splits)
  show ?thesis
  proof (cases op)
    case (Read rid')
    obtain q where "Heap_read D h rid' = (q, h')" using e Read by (auto simp: ret_of_eq)
    with read_sound [OF snd] sound_result show ?thesis by blast
  next
    case (ReadBatch ids)
    obtain q where "Heap_read_batch D h ids = (q, h')" using e ReadBatch by (auto simp: ret_of_eq)
    with read_batch_sound [OF snd] sound_result show ?thesis by blast
  next
    case (Update rid' payload)
    with l e fits gone fs h1 show ?thesis by (auto simp: looks_up_def ret_of_eq Heap_update_def)
  next
    case (Delete rid')
    with l e fits gone fs h1 show ?thesis by (auto simp: looks_up_def ret_of_eq Heap_delete_def)
  qed (use l in \<open>simp_all add: looks_up_def\<close>)
qed

lemma run_tidy:
  assumes "heap_run D append_placement append_sane h tr h'" and "append_tidy h" and "sound steady lim ilim h"
  shows "append_tidy h' \<and> sound steady lim ilim h'"
  using assms
proof (induction tr h' rule: heap_run.induct)
  case (run_step h tr h1 op r h2)
  then show ?case using exec_tidy by blast
next
  case (run_missing h tr h1 op rid h2)
  then have t: "append_tidy h1" "sound steady lim ilim h1" by simp_all
  then have "steady (h_io h1)" by (simp add: sound_def)
  from exec_missing [OF this append_tidyD(1) [OF t(1)] run_missing.hyps(2-5)] append_tidy_stay [OF t(1)]
    missing_sound [OF t(2) append_tidyD(1) [OF t(1)] run_missing.hyps(2-5)]
  show ?case by blast
qed simp

end

section \<open>The heap that a log adds to\<close>

definition slots_map :: "DataFile \<Rightarrow> (u64 \<Rightarrow> SlotState) \<Rightarrow> store" where
  "slots_map df st rid = (case st rid of Live slot \<Rightarrow> Some (slot_payload df slot) | _ \<Rightarrow> None)"

fun log_map :: "entry list \<Rightarrow> store \<Rightarrow> store" where
  "log_map [] m = m"
| "log_map ((bucket, rid, version, payload) # log) m = log_map log (m(rid \<mapsto> payload))"

definition slots_ok :: "DataFile \<Rightarrow> (u64 \<Rightarrow> SlotState) \<Rightarrow> nat \<Rightarrow> bool" where
  "slots_ok df st E \<longleftrightarrow> (\<forall>rid slot. st rid = Live slot \<longrightarrow> (\<exists>payload. slot_record {4096..<E} df rid slot payload))"

lemma heap_map_slots: "heap_map h = slots_map (h_data h) (ix_slot (h_index h))"
  by (rule ext) (simp add: heap_map_def slots_map_def)

lemma slots_map_cong:
  assumes "df_view df' = df_view df" and "df_with_bucket df' = df_with_bucket df"
  shows "slots_map df' st = slots_map df st"
  by (rule ext) (simp add: slots_map_def slot_payload_def assms split: SlotState.split)

lemma slots_ok_mono: "slots_ok df st E \<Longrightarrow> E \<le> E' \<Longrightarrow> slots_ok df st E'"
proof (unfold slots_ok_def, intro allI impI)
  fix rid slot
  assume E: "E \<le> E'" and "\<forall>rid slot. st rid = Live slot \<longrightarrow> (\<exists>payload. slot_record {4096..<E} df rid slot payload)" "st rid = Live slot"
  then obtain payload where "slot_record {4096..<E} df rid slot payload" by blast
  then have "slot_record {4096..<E'} df rid slot payload" by (rule slot_record_view) (use E in auto)
  then show "\<exists>payload. slot_record {4096..<E'} df rid slot payload" by blast
qed

lemma slots_ok_cong:
  assumes "df_view df' = df_view df" and "df_with_bucket df' = df_with_bucket df" and "df_integrity df' = df_integrity df"
  shows "slots_ok df' st E = slots_ok df st E"
proof -
  have "slot_record own df' rid slot payload = slot_record own df rid slot payload" for own rid slot payload
    by (auto simp: slot_record_def df_record_def record_len_def assms)
  then show ?thesis by (simp add: slots_ok_def)
qed

text \<open>One more record of the log.\<close>

lemma entry_slots:
  assumes rec: "holds_at (df_view df) p (record_bytes False (df_integrity df) bucket rid version payload)"
    and p: "4096 \<le> p" "p + (header_len False + length payload) \<le> OFF_MAX" and wb: "\<not> df_with_bucket df" and ok: "slots_ok df st p"
  defines "st' \<equiv> st(rid := Live (entry_slot p False payload))"
  shows "slots_ok df st' (p + (header_len False + length payload))" "slots_map df st' = (slots_map df st)(rid \<mapsto> payload)"
proof -
  let ?E = "p + (header_len False + length payload)"
  have up: "unat (of_nat p :: u64) = p" using p(2) by (intro unat_of_nat_nowrap) simp
  have new: "slot_record {4096..<?E} df rid (entry_slot p False payload) payload"
    using rec p wb by (auto simp: slot_record_def entry_slot_def df_record_def record_len_def up)
  have "slots_ok df st ?E" by (rule slots_ok_mono [OF ok]) simp
  with new show "slots_ok df st' ?E" by (auto simp: slots_ok_def st'_def)
  show "slots_map df st' = (slots_map df st)(rid \<mapsto> payload)"
    using slot_record_payload [OF new] by (auto simp: slots_map_def st'_def fun_eq_iff)
qed

lemma log_slots_map:
  assumes "log_at False (df_integrity df) (df_view df) p log" and "4096 \<le> p" and "log_end False p log \<le> OFF_MAX"
    and "\<not> df_with_bucket df" and "slots_ok df st p"
  shows "slots_ok df (log_slots False p log st) (log_end False p log) \<and>
    slots_map df (log_slots False p log st) = log_map log (slots_map df st)"
  using assms
proof (induction False p log st rule: log_slots.induct)
  case (2 p bucket rid version payload log st)
  let ?q = "p + (header_len False + length payload)"
  have q: "?q \<le> OFF_MAX" using "2.prems"(3) log_end_ge [of ?q False log] by simp
  have "holds_at (df_view df) p (record_bytes False (df_integrity df) bucket rid version payload)" using "2.prems"(1) by simp
  note new = entry_slots [OF this "2.prems"(2) q "2.prems"(4,5)]
  from "2.hyps" [OF _ _ _ "2.prems"(4) new(1)] "2.prems" show ?case by (simp add: new(2))
qed simp

lemma log_next_bounds: "log_ok vers N log \<Longrightarrow> N \<le> log_next N log \<and> log_next N log \<le> ID_MAX"
  by (induction vers N log rule: log_ok.induct) (auto split: if_splits)

lemma log_index_upto:
  assumes "log_ok vers N log" and "index_upto st N p" and "log_end False p log \<le> OFF_MAX"
  shows "index_upto (log_slots False p log st) (log_next N log) (log_end False p log)"
  using assms
proof (induction vers N log arbitrary: p st rule: log_ok.induct)
  case (2 vers N bucket rid version payload log)
  let ?q = "p + (header_len False + length payload)" and ?N = "if unat rid = N then N + 1 else N"
  have q: "?q \<le> OFF_MAX" using "2.prems"(3) log_end_ge [of ?q False log] by simp
  have next_ok: "log_ok (vers(rid \<mapsto> version)) ?N log" "unat rid < ?N" using "2.prems"(1) by (auto split: if_splits)
  have u: "unat (of_nat n :: u64) = n" if "n \<le> OFF_MAX" for n using that by (intro unat_of_nat_nowrap) simp
  have "unat (of_nat (header_len False + length payload) :: u64) = header_len False + length payload" "unat (of_nat p :: u64) = p"
    by (rule u; use q in simp)+
  then have slot: "slot_end (entry_slot p False payload) = ?q" by (simp only: entry_slot_def Slot.select_convs)
  have "index_upto (st(rid := Live (entry_slot p False payload))) ?N ?q"
    using next_ok log_next_bounds [OF next_ok(1)] slot q by (intro index_upto_write [OF "2.prems"(2)]) auto
  note step = this
  have past: "log_end False ?q log \<le> OFF_MAX" using "2.prems"(3) by simp
  show ?case
  proof (cases "unat rid = N")
    case True
    with "2.IH"(1) [OF True, where p = ?q] step past next_ok(1) show ?thesis by (simp del: fun_upd_apply)
  next
    case False
    with "2.IH"(2) [OF False, where p = ?q] step past next_ok(1) show ?thesis by (simp del: fun_upd_apply)
  qed
qed simp

section \<open>Opening an append heap\<close>

lemma append_open_placement_simps:
  "pl_open append_open_placement = AppendPlacement_open" "pl_layout append_open_placement = LAYOUT_APPEND"
  "pl_with_bucket append_open_placement = False"
  by (simp_all add: append_open_placement_def append_placement_def Placement.defs)

abbreviation data_handle :: "HeapConfig \<Rightarrow> File \<Rightarrow> DataFile" where
  "data_handle config f \<equiv> \<lparr>df_paged_file = PagedFile_handle f, df_with_bucket = False, df_integrity = integrity config\<rparr>"

abbreviation index_handle :: "File \<Rightarrow> IndexFile" where
  "index_handle f \<equiv> \<lparr>ix_paged_file = PagedFile_handle f\<rparr>"

text \<open>The files of an append heap as they are found: whole, under their headers, with a log to restore.\<close>

definition append_files :: "Dir \<Rightarrow> HeapConfig \<Rightarrow> File \<Rightarrow> File \<Rightarrow> (u64 \<rightharpoonup> u16) \<Rightarrow> nat \<Rightarrow> nat \<Rightarrow> entry list \<Rightarrow> bool" where
  "append_files dir config f g vers N E log \<longleftrightarrow>
     dr_files dir ''data.hs'' = Some f \<and> dr_files dir ''index.hs'' = Some g \<and>
     pf_fine data_head (f_limit f) (f_limit f) (PagedFile_handle f) \<and> pf_fine index_head (f_limit g) OFF_MAX (PagedFile_handle g) \<and>
     append_tail (data_handle config f) (ix_slot (index_handle g)) vers N E log \<and>
     slots_ok (data_handle config f) (ix_slot (index_handle g)) E \<and> unat (growth config) \<le> OFF_MAX"

lemma handle_fields:
  "pf_file (PagedFile_handle f) = f" "staged_writes (PagedFile_handle f) = []" "allocated_end (PagedFile_handle f) = 0"
  by (simp_all add: PagedFile_handle_def)

lemma pf_fine_handle:
  assumes "pf_fine hdr lim B (PagedFile_handle f)"
  shows "FileHeader_decode (read_zeros (f_content f) 0 4096) = Some hdr" "f_limit f = lim"
    "4096 dvd length (f_content f)" "4096 \<le> length (f_content f)" "length (f_content f) \<le> B" "B \<le> OFF_MAX"
  using assms by (auto simp: pf_fine_def pf_whole_def Let_def pf_header_def pf_view_handle view_bytes_def read_zeros_map)
    (simp_all add: PagedFile_handle_def)

context block_io
begin

text \<open>Opening keeps the index a file of whole pages.\<close>

lemma still_fine:
  "pf_fine hdr lim B pf \<Longrightarrow> pf_keep pf pf' \<Longrightarrow> pf_still pf pf' \<Longrightarrow> staged_writes pf = [] \<Longrightarrow> pf_fine hdr lim B pf'"
  by (auto simp: pf_fine_def pf_whole_def pf_keep_def pf_still_def pf_same_def pf_header_def)

lemma stage_slot_fine:
  assumes "IndexFile_stage_slot D io ix rid (Some slot) = (Inr u, io', ix')" and "pf_fine hdr lim OFF_MAX (ix_paged_file ix)" and "unat rid < ID_MAX"
  shows "pf_fine hdr lim OFF_MAX (ix_paged_file ix')"
proof -
  obtain pf where "PagedFile_stage D io (ix_paged_file ix) (Slot_file_offset rid) [Slot_encode slot (replicate SLOT_SIZE 0)] = (Inr u, io', pf)"
      "ix' = ix\<lparr>ix_paged_file := pf\<rparr>"
    using assms(1) by (auto simp: IndexFile_stage_slot_def split: prod.splits)
  with stage_fine [OF this(1) assms(2), where n = OFF_MAX] assms(3) show ?thesis
    by (simp add: slot_offset parts_len_def Slot_encode_eq SLOT_SIZE_def)
qed

lemma restore_tail_fine:
  assumes "restore_tail D found s io ix = (Inr (n, restored, updates), io', ix')" and "pf_fine hdr lim OFF_MAX (ix_paged_file ix)"
    and "\<forall>r \<in> set found. unat (fst r) < ID_MAX" and "\<forall>rid \<in> set (map fst (snd (snd s))). unat rid < ID_MAX"
    and "distinct (map fst (snd (snd s)))"
  shows "pf_fine hdr lim OFF_MAX (ix_paged_file ix') \<and> (\<forall>rid \<in> set (map fst updates). unat rid < ID_MAX) \<and> distinct (map fst updates)"
  using assms
proof (induction found arbitrary: s io ix)
  case Nil
  then show ?case by (cases s) auto
next
  case (Cons r found)
  obtain rid offset version len where r: "r = (rid, offset, version, len)" by (cases r)
  obtain next_id rs ups where s: "s = (next_id, rs, ups)" by (cases s)
  consider (fresh) "rid = next_id" | (update) "rid \<noteq> next_id" "rid < next_id" | (stop) "rid \<noteq> next_id" "\<not> rid < next_id" by blast
  then show ?case
  proof cases
    case fresh
    then obtain io1 ix1 where one: "IndexFile_stage_slot D io ix rid (Some \<lparr>sl_offset = offset, sl_total_len = len\<rparr>) = (Inr (), io1, ix1)"
        "restore_tail D found (next_id + 1, rs + 1, ups) io1 ix1 = (Inr (n, restored, updates), io', ix')"
      using Cons.prems(1) by (auto simp: r s split: prod.splits sum.splits)
    from Cons.IH [OF one(2) stage_slot_fine [OF one(1) Cons.prems(2)]] Cons.prems(3-5) show ?thesis by (simp add: r s)
  next
    case update
    then have "restore_tail D found (next_id, rs, entry_update rid (offset, version, len) (keep_newer (offset, version, len)) ups) io ix =
        (Inr (n, restored, updates), io', ix')" using Cons.prems(1) by (simp add: r s)
    from Cons.IH [OF this Cons.prems(2)] Cons.prems(3-5) distinct_entry_update [of ups rid "(offset, version, len)" "keep_newer (offset, version, len)"] show ?thesis
      by (simp add: r s keys_entry_update [unfolded set_map])
  next
    case stop
    with Cons.prems show ?thesis by (auto simp: r s)
  qed
qed

lemma restore_updates_fine:
  assumes "restore_updates D updates restored io df ix = (Inr x, io', df', ix')" and "pf_fine hdr lim OFF_MAX (ix_paged_file ix)"
    and "\<forall>u \<in> set updates. unat (fst u) < ID_MAX"
  shows "pf_fine hdr lim OFF_MAX (ix_paged_file ix')"
  using assms
proof (induction updates arbitrary: restored io df ix)
  case (Cons u updates)
  obtain rid offset version len where u: "u = (rid, offset, version, len)" by (cases u)
  obtain state io1 ix1 where rd: "IndexFile_read_slot_state D io ix rid = (Inr state, io1, ix1)"
    using Cons.prems(1) by (auto simp: u split: prod.splits sum.splits)
  then have f1: "pf_fine hdr lim OFF_MAX (ix_paged_file ix1)"
    using read_slot_bytes_fine Cons.prems(2) by (auto simp: IndexFile_read_slot_state_def split: prod.splits sum.splits)
  obtain skip io2 df2 where sk: "update_skipped D rid offset version state io1 df = (Inr skip, io2, df2)"
    using Cons.prems(1) rd by (auto simp: u split: prod.splits sum.splits)
  show ?case
  proof (cases skip)
    case True
    then have "restore_updates D updates restored io2 df2 ix1 = (Inr x, io', df', ix')" using Cons.prems(1) rd sk by (simp add: u)
    from Cons.IH [OF this f1] Cons.prems(3) show ?thesis by simp
  next
    case False
    then obtain io3 ix3 where one: "IndexFile_stage_slot D io2 ix1 rid (Some \<lparr>sl_offset = offset, sl_total_len = len\<rparr>) = (Inr (), io3, ix3)"
        "restore_updates D updates (restored + 1) io3 df2 ix3 = (Inr x, io', df', ix')"
      using Cons.prems(1) rd sk by (auto simp: u split: prod.splits sum.splits)
    from Cons.IH [OF one(2) stage_slot_fine [OF one(1) f1]] Cons.prems(3) show ?thesis by (simp add: u)
  qed
qed simp

lemma settle_fine:
  assumes "settle_index D restored io ix = (Inr u, io', ix')" and "pf_fine hdr lim B (ix_paged_file ix)"
  shows "pf_fine hdr lim B (ix_paged_file ix')"
proof (cases "0 < restored")
  case True
  then obtain io1 pf f where "PagedFile_flush D io (ix_paged_file ix) = (Inr (), io1, pf)" "sync D io1 (pf_file pf) = (Inr (), io', f)"
      "ix' = ix\<lparr>ix_paged_file := pf\<lparr>pf_file := f\<rparr>\<rparr>"
    using assms(1) by (auto simp: settle_index_def split: prod.splits sum.splits)
  with sync_fine [OF this(2) flush_fine [OF this(1) assms(2)]] show ?thesis by simp
qed (use assms in \<open>simp add: settle_index_def\<close>)

lemma recover_index_fine:
  assumes r: "AppendPlacement_recover D order (of_nat N, of_nat E) io df ix = (Inr x, io', df', ix')" and df: "pf_ok (df_paged_file df)"
    and st: "steady io" and order: "order_ok order" and t: "append_tail df slots vers N E log" and fine: "pf_fine hdr lim OFF_MAX (ix_paged_file ix)"
  shows "pf_fine hdr lim OFF_MAX (ix_paged_file ix')"
proof -
  obtain stats io1 pf1 where w: "walk D io (df_paged_file df) False (df_integrity df) (of_nat E) (PagedFile_size (df_paged_file df)) False
      (append_visit (DataFile_record_header_len df)) ([], of_nat E) = (Inr (stats, log_found False E log, of_nat (log_end False E log)), io1, pf1)"
    using walk_log [OF df st t] by blast
  obtain n rs updates io2 ix2 where tl: "restore_tail D (log_found False E log) (of_nat N, 0, []) io1 ix = (Inr (n, rs, updates), io2, ix2)"
    using r w by (auto simp: AppendPlacement_recover_def Let_def split: prod.splits sum.splits)
  obtain y io3 df3 ix3 where up: "restore_updates D (hash_entries order updates) rs io2 (df\<lparr>df_paged_file := pf1\<rparr>) ix2 = (Inr y, io3, df3, ix3)"
    using r w tl by (auto simp: AppendPlacement_recover_def Let_def split: prod.splits sum.splits)
  have se: "settle_index D y io3 ix3 = (Inr (), io', ix')"
    using r w tl up by (auto simp: AppendPlacement_recover_def Let_def split: prod.splits sum.splits)
  have "log_ok vers N log" using t by (simp add: append_tail_def Let_def)
  then have "\<forall>r \<in> set (log_found False p log). unat (fst r) < ID_MAX" for p
  proof (induction vers N log arbitrary: p rule: log_ok.induct)
    case (2 vers N bucket rid version payload log)
    then show ?case using log_next_bounds by (cases "unat rid = N") (fastforce dest: log_next_bounds)+
  qed simp
  from restore_tail_fine [OF tl fine this] have f2: "pf_fine hdr lim OFF_MAX (ix_paged_file ix2)"
    and keys: "\<forall>rid \<in> set (map fst updates). unat rid < ID_MAX" "distinct (map fst updates)" by simp_all
  have "set (map fst (hash_entries order updates)) = set (map fst updates)"
    using keys(2) order by (simp add: hash_entries_def order_ok_def comp_def)
  then have "\<forall>u \<in> set (hash_entries order updates). unat (fst u) < ID_MAX" using keys(1) by (metis (no_types, lifting) image_eqI list.set_map)
  from settle_fine [OF se restore_updates_fine [OF up f2 this]] show ?thesis .
qed

end

context block_io
begin

lemma append_files_open:
  assumes files: "append_files dir config f g vers N E log" and st: "steady io3" and order: "order_ok order"
  shows "\<exists>s io4 df' ix' h. AppendPlacement_open D order io3 config (data_handle config f) (index_handle g) None False =
      (Inr s, io4, df', ix', None) \<and>
    (\<forall>report. Heap_opened name config report s io4 df' ix' None = (h, report\<lparr>rp_restored_slots := os_restored (snd s)\<rparr>)) \<and>
    steady io4 \<and> h_config h = config \<and> sound steady (f_limit f) (f_limit g) h \<and>
    heap_ok append_good append_owned append_taken h \<and>
    index_upto (ix_slot (h_index h)) (unat (ap_next_id (h_placement h))) (unat (ap_cursor (h_placement h))) \<and>
    unat (ap_cursor (h_placement h)) = log_end False E log \<and>
    ix_slot (h_index h) = log_slots False E log (ix_slot (index_handle g)) \<and>
    df_view (h_data h) = byte_at (f_content f) \<and> \<not> df_with_bucket (h_data h) \<and> df_integrity (h_data h) = integrity config \<and>
    heap_map h = log_map log (slots_map (data_handle config f) (ix_slot (index_handle g)))"
proof -
  let ?df = "data_handle config f" and ?ix = "index_handle g" and ?E = "log_end False E log" and ?N = "log_next N log"
  have dir: "dr_files dir ''data.hs'' = Some f" "dr_files dir ''index.hs'' = Some g"
    and fine: "pf_fine data_head (f_limit f) (f_limit f) (PagedFile_handle f)" "pf_fine index_head (f_limit g) OFF_MAX (PagedFile_handle g)"
    and tail: "append_tail ?df (ix_slot ?ix) vers N E log" and slots: "slots_ok ?df (ix_slot ?ix) E" and growth: "unat (growth config) \<le> OFF_MAX"
    using files by (simp_all add: append_files_def)
  note ff = pf_fine_handle [OF fine(1)] and gf = pf_fine_handle [OF fine(2)]
  have h: "log_ok vers N log" "index_upto (ix_slot ?ix) N E" "log_at False (integrity config) (byte_at (f_content f)) E log"
      "?E \<le> length (f_content f)" "4096 \<le> E"
  proof -
    have "unat (PagedFile_size (PagedFile_handle f)) = length (f_content f)"
      using ff(5,6) by (simp add: PagedFile_size_def file_len_def handle_fields unat_of_nat_nowrap)
    then show "log_ok vers N log" "index_upto (ix_slot ?ix) N E" "log_at False (integrity config) (byte_at (f_content f)) E log"
      "?E \<le> length (f_content f)" "4096 \<le> E"
      using tail by (simp_all add: append_tail_def Let_def pf_view_handle index_upto_def)
  qed
  have E: "?E \<le> OFF_MAX" using h(4) ff(5,6) by linarith
  have still: "pf_ok (PagedFile_handle f)" "pf_ok (PagedFile_handle g)" by (rule pf_ok_handle)+
  have idx: "f_content g = f_content (pf_file (ix_paged_file ?ix))" "staged_writes (ix_paged_file ?ix) = []" "16 dvd length (f_content g)"
    using gf(3) by (auto simp: handle_fields elim: dvd_trans [rotated])
  have glen: "length (f_content g) \<le> OFF_MAX" using gf(5) .
  obtain restored io4 df' ix' where op: "AppendPlacement_open D order io3 config ?df ?ix None False =
      (Inr (\<lparr>ap_cursor = of_nat ?E, ap_next_id = of_nat ?N\<rparr>, \<lparr>os_restored = restored\<rparr>), io4, df', ix', None)" "steady io4"
    and df': "pf_ok (df_paged_file df')" "df_view df' = df_view ?df" "df_with_bucket df' = df_with_bucket ?df" "df_integrity df' = df_integrity ?df"
      "pf_file (df_paged_file df') = f" "staged_writes (df_paged_file df') = []"
      "allocated_end (df_paged_file df') = max 0 (PagedFile_size (PagedFile_handle f))"
    and ix': "ix_slot ix' = log_slots False E log (ix_slot ?ix)"
    using append_open_ok [of ?df ?ix "f_content g" io3 order vers N E log config None, OF _ _ idx(2,1) gf(4) idx(3) glen st order tail] still
    by (simp add: handle_fields) blast
  obtain io5 ix5 where s: "AppendPlacement_open D order io3 config ?df ?ix None False =
      (case AppendPlacement_recover D order (of_nat N, of_nat E) io5 ?df ix5 of (r, io, df, ix) \<Rightarrow> (r, io, df, ix, None))"
    "steady io5" "ix_keep ?ix ix5" "pf_still (ix_paged_file ?ix) (ix_paged_file ix5)"
    using open_reads_index [of ?ix "f_content g" io3 N E order config ?df None] still(2) idx gf(4) glen st h(2) by auto
  have "pf_fine index_head (f_limit g) OFF_MAX (ix_paged_file ix5)"
    using still_fine [OF _ _ s(4)] fine(2) s(3) idx(2) by (simp add: ix_keep_def)
  then have ixfine: "pf_fine index_head (f_limit g) OFF_MAX (ix_paged_file ix')"
    using recover_index_fine [OF _ _ s(2) order tail, where io' = io4 and df' = df' and ix' = ix'] s(1) op(1) still(1) by (auto split: prod.splits)
  have size: "unat (PagedFile_size (PagedFile_handle f)) = length (f_content f)"
    using ff(5,6) by (simp add: PagedFile_size_def file_len_def handle_fields unat_of_nat_nowrap)
  have datafine: "pf_fine data_head (f_limit f) (f_limit f) (df_paged_file df')"
    using df' fine(1) size by (auto simp: pf_fine_def pf_whole_def Let_def pf_header_def max_def handle_fields)
  let ?h = "\<lparr>h_io = io4, h_placement = \<lparr>ap_cursor = of_nat ?E, ap_next_id = of_nat ?N\<rparr>, h_data = df', h_index = ix', h_registry = None,
    h_config = config, h_dir = name, operations_since_sync = 0, armed = True\<rparr> :: ('io, AppendPlacement) Heap"
  have opened: "Heap_opened name config report (\<lparr>ap_cursor = of_nat ?E, ap_next_id = of_nat ?N\<rparr>, \<lparr>os_restored = restored\<rparr>) io4 df' ix' None =
      (?h, report\<lparr>rp_restored_slots := restored\<rparr>)" for report
    by (simp add: Heap_opened_def)
  have N: "?N \<le> ID_MAX" using log_next_bounds [OF h(1)] by simp
  have u: "unat (of_nat ?E :: u64) = ?E" "unat (of_nat ?N :: u64) = ?N" using E N by (simp_all add: unat_of_nat_nowrap)
  note upto = log_index_upto [OF h(1,2) E]
  have "log_at False (df_integrity ?df) (df_view ?df) E log" using h(3) by (simp add: pf_view_handle)
  from log_slots_map [OF this h(5) E _ slots] have m: "slots_ok ?df (ix_slot ix') ?E"
    "slots_map ?df (ix_slot ix') = log_map log (slots_map ?df (ix_slot ?ix))" by (simp_all add: ix')
  have good: "append_good config \<lparr>ap_cursor = of_nat ?E, ap_next_id = of_nat ?N\<rparr> df'"
    using df' size ff(5,6) h(4,5) growth u(1) log_end_ge [of E False log] by (simp add: append_good_def pf_room_def)
  have live: "\<exists>payload. slot_record {4096..<?E} df' rid slot payload" if "ix_slot ix' rid = Live slot" for rid slot
    using m(1) [folded slots_ok_cong [OF df'(2-4)]] that by (simp add: slots_ok_def)
  have empty: "ix_slot ix' rid = Empty" if "\<not> unat rid < ?N" for rid
    using upto that by (simp add: ix' index_upto_def)
  have "heap_ok append_good append_owned append_taken ?h"
    using good df'(1) ixfine live empty by (simp add: heap_ok_def append_owned_def append_taken_def u pf_fine_def)
  moreover have "heap_map ?h = log_map log (slots_map ?df (ix_slot ?ix))"
    using m(2) slots_map_cong [OF df'(2,3)] by (simp add: heap_map_slots)
  moreover have "sound steady (f_limit f) (f_limit g) ?h" using op(2) datafine ixfine by (simp add: sound_def)
  moreover have "index_upto (ix_slot (h_index ?h)) (unat (ap_next_id (h_placement ?h))) (unat (ap_cursor (h_placement ?h)))"
      "unat (ap_cursor (h_placement ?h)) = ?E" "ix_slot (h_index ?h) = log_slots False E log (ix_slot ?ix)" "h_config ?h = config"
    using upto by (simp_all add: u ix')
  moreover have "df_view (h_data ?h) = byte_at (f_content f)" "\<not> df_with_bucket (h_data ?h)" "df_integrity (h_data ?h) = integrity config"
    using df'(2-4) by (simp_all add: pf_view_handle)
  ultimately show ?thesis
    using op opened by (intro exI [of _ "(\<lparr>ap_cursor = of_nat ?E, ap_next_id = of_nat ?N\<rparr>, \<lparr>os_restored = restored\<rparr>)"]
        exI [of _ io4] exI [of _ df'] exI [of _ ix'] exI [of _ ?h]) simp
qed

lemma append_heap_opens:
  assumes files: "append_files dir config f g vers N E log" and st: "steady io" and order: "order_ok order"
  shows "\<exists>h report io' dir'. Heap_open D append_open_placement order name dir io config = (Inr (h, report), io', dir') \<and> steady io' \<and>
    \<not> rp_rebuilt report \<and> h_config h = config \<and> sound steady (f_limit f) (f_limit g) h \<and>
    heap_ok append_good append_owned append_taken h \<and>
    index_upto (ix_slot (h_index h)) (unat (ap_next_id (h_placement h))) (unat (ap_cursor (h_placement h))) \<and>
    unat (ap_cursor (h_placement h)) = log_end False E log \<and>
    ix_slot (h_index h) = log_slots False E log (ix_slot (index_handle g)) \<and>
    df_view (h_data h) = byte_at (f_content f) \<and> \<not> df_with_bucket (h_data h) \<and> df_integrity (h_data h) = integrity config \<and>
    heap_map h = log_map log (slots_map (data_handle config f) (ix_slot (index_handle g)))"
proof -
  have dir: "dr_files dir ''data.hs'' = Some f" "dr_files dir ''index.hs'' = Some g"
    and fine: "pf_fine data_head (f_limit f) (f_limit f) (PagedFile_handle f)" "pf_fine index_head (f_limit g) OFF_MAX (PagedFile_handle g)"
    using files by (simp_all add: append_files_def)
  note ff = pf_fine_handle [OF fine(1)] and gf = pf_fine_handle [OF fine(2)]
  obtain io1 where o1: "open_in D dir ''index.hs'' 0x49 LAYOUT_APPEND io = (Inr (PagedFile_handle g), io1)" "steady io1"
    using open_in_ok [OF st dir(2)] gf(1) by blast
  obtain io2 where o2: "open_in D dir ''data.hs'' 0x44 LAYOUT_APPEND io1 = (Inr (PagedFile_handle f), io2)" "steady io2"
    using open_in_ok [OF o1(2) dir(1)] ff(1) by blast
  obtain io3 where o3: "open_in D dir ''index.hs'' 0x49 LAYOUT_APPEND io2 = (Inr (PagedFile_handle g), io3)" "steady io3"
    using open_in_ok [OF o2(2) dir(2)] gf(1) by blast
  have fs: "Heap_files D append_open_placement order config False io dir =
      (Inr ((PagedFile_handle f, PagedFile_handle g, None), RecoveryReport_default), io3, dir)"
    using o1(1) o2(1) o3(1) dir
    by (simp add: Heap_files_def Heap_metadata_broken_def metadata_is_broken_def Heap_open_files_def append_open_placement_simps)
  show ?thesis
    using append_files_open [OF files o3(2) order, of name] fs dir
    by (auto simp: Heap_open_def append_open_placement_simps RecoveryReport_default_def)
qed

end

end
