(* ===== verification/Heap_Life.thy ===== *)
theory Heap_Life
  imports Reopen
begin

text \<open>
  The life of an append heap: it is created in an empty directory, used, flushed and lost, and opened
  again, as often as one likes. Shown: what it answers in all its lives together is what one map from
  identifiers to payloads answers.
\<close>

section \<open>What a flush leaves on the device\<close>

context block_io
begin

lemma flush_synced:
  assumes c: "Heap_flush D h = (Inr u, h')" and ok: "pf_ok (df_paged_file (h_data h))" "pf_ok (ix_paged_file (h_index h))"
  shows "f_durable (pf_file (df_paged_file (h_data h'))) = f_content (pf_file (df_paged_file (h_data h')))"
    "f_durable (pf_file (ix_paged_file (h_index h'))) = f_content (pf_file (ix_paged_file (h_index h')))"
    "staged_writes (df_paged_file (h_data h')) = []" "staged_writes (ix_paged_file (h_index h')) = []"
proof -
  obtain a0 a1 a2 a3 h1 h2 h3 where s: "Heap_commit_registry D h = (Inr a0, a1)" "Heap_flush_data D a1 = (Inr (), a2)"
      "Heap_sync_data D a2 = (Inr (), a3)" "Heap_flush_index D a3 = (Inr (), h1)" "Heap_flush_index D h1 = (Inr (), h2)"
      "Heap_sync_index D h2 = (Inr (), h3)" "Heap_sync_registry D h3 = (Inr u, h')"
    using c by (auto simp: Heap_flush_def Heap_commit_def elim!: and_then_Inr)
  have ok1: "pf_ok (df_paged_file (h_data a1))" "pf_ok (ix_paged_file (h_index a1))"
    using Heap_registry_steps [of h "Inr a0" a1] s(1) ok by simp_all
  note f1 = Heap_flush_data_Inr [OF s(2) ok1]
  have e1: "h_data h1 = h_data a3" "h_data h2 = h_data h1" "h_data h3 = h_data h2" "h_data h' = h_data h3" "h_index h' = h_index h3"
    using s(4-7) Heap_registry_steps [of h3 "Inr u" h']
    by (auto simp: Heap_flush_index_def Heap_sync_index_def Let_def split: prod.splits)
  obtain io f where d: "sync D (h_io a2) (pf_file (df_paged_file (h_data a2))) = (Inr (), io, f)"
      "h_data a3 = (h_data a2)\<lparr>df_paged_file := (df_paged_file (h_data a2))\<lparr>pf_file := f\<rparr>\<rparr>"
    using s(3) by (auto simp: Heap_sync_data_def Let_def split: prod.splits)
  obtain io' g where i: "sync D (h_io h2) (pf_file (ix_paged_file (h_index h2))) = (Inr (), io', g)"
      "h_index h3 = (h_index h2)\<lparr>ix_paged_file := (ix_paged_file (h_index h2))\<lparr>pf_file := g\<rparr>\<rparr>"
    using s(6) by (auto simp: Heap_sync_index_def Let_def split: prod.splits)
  have ix: "h_index a3 = h_index a1"
    using s(2,3) by (auto simp: Heap_flush_data_def Heap_sync_data_def Let_def split: prod.splits)
  obtain io1 pf1 where i1: "PagedFile_flush D (h_io a3) (ix_paged_file (h_index a3)) = (Inr (), io1, pf1)" "ix_paged_file (h_index h1) = pf1"
    using s(4) by (auto simp: Heap_flush_index_def split: prod.splits)
  have "pf_settled (pf_view (ix_paged_file (h_index a3))) pf1" using flush_Inr [OF i1(1)] ok1(2) ix by simp
  moreover obtain io2 where "PagedFile_flush D (h_io h1) pf1 = (Inr (), io2, ix_paged_file (h_index h2))"
    using s(5) i1(2) by (auto simp: Heap_flush_index_def split: prod.splits)
  ultimately have "staged_writes (ix_paged_file (h_index h2)) = []" by (simp add: pf_settled_def PagedFile_flush_def)
  then show "f_durable (pf_file (df_paged_file (h_data h'))) = f_content (pf_file (df_paged_file (h_data h')))"
    "f_durable (pf_file (ix_paged_file (h_index h'))) = f_content (pf_file (ix_paged_file (h_index h')))"
    "staged_writes (df_paged_file (h_data h')) = []" "staged_writes (ix_paged_file (h_index h')) = []"
    using e1 d(2) i(2) f1 sync_Inr [OF d(1)] sync_Inr [OF i(1)] by (simp_all add: pf_settled_def)
qed

end

text \<open>The directory that is found after a crash: of each file the bytes that were durable.\<close>

definition lost :: "File \<Rightarrow> File" where
  "lost f = f\<lparr>f_content := f_durable f\<rparr>"

definition crash_dir :: "('io, 'p) Heap \<Rightarrow> nat \<Rightarrow> Dir" where
  "crash_dir h capacity = \<lparr>dr_files = [''data.hs'' \<mapsto> lost (pf_file (df_paged_file (h_data h))),
     ''index.hs'' \<mapsto> lost (pf_file (ix_paged_file (h_index h)))], dr_capacity = capacity\<rparr>"

lemma lost_synced: "f_durable f = f_content f \<Longrightarrow> lost f = f"
  by (cases f) (simp add: lost_def)

section \<open>Nothing follows the last record\<close>

lemma no_header_in_zeros:
  assumes "\<forall>i \<ge> p. h i = 0"
  shows "header_at wb h p = None"
proof -
  have "view_bytes h p (header_len wb) = replicate (header_len wb) 0"
    by (rule nth_equalityI) (use assms in \<open>auto simp: view_bytes_def\<close>)
  moreover have "take 4 (replicate (header_len wb) (0 :: u8)) = replicate 4 0" by (simp add: header_len_def)
  moreover have "from_le_bytes (replicate n 0) = (0 :: u32)" for n by (induction n) simp_all
  ultimately have "from_le_bytes (take 4 (view_bytes h p (header_len wb))) \<noteq> RECORD_MAGIC" by (simp add: RECORD_MAGIC_def)
  then show ?thesis by (simp add: header_at_def RecordHeader_decode_def Let_def)
qed

lemma no_log_in_zeros:
  assumes "\<forall>i \<ge> p. h i = 0"
  shows "tail_records wb checked h e p = []" "lengths_sane wb h e False p"
  using no_header_in_zeros [OF assms, of wb]
  by (simp_all add: tail_records.simps [of wb checked h e p] lengths_sane.simps [of wb h e False p] record_at_def length_sane_def)

section \<open>Creation, loss and recovery\<close>

text \<open>A heap on a device that does not fail whose files are as opening expects them.\<close>

definition lasting :: "('io \<Rightarrow> bool) \<Rightarrow> ('io, AppendPlacement) Heap \<Rightarrow> bool" where
  "lasting ok h \<longleftrightarrow> append_tidy h \<and> (\<exists>lim ilim. sound ok lim ilim h)"

text \<open>
  What a crash leaves of a file is the file as it is seen: the whole data file up to the cursor, the
  whole index.
\<close>

definition data_synced :: "('io, AppendPlacement) Heap \<Rightarrow> bool" where
  "data_synced h \<longleftrightarrow> (let f = pf_file (df_paged_file (h_data h)); n = length (f_durable f) in
     byte_at (f_durable f) = df_view (h_data h) \<and> 4096 dvd n \<and> 4096 \<le> n \<and> n \<le> f_limit f \<and> unat (ap_cursor (h_placement h)) \<le> n)"

definition index_synced :: "('io, 'p) Heap \<Rightarrow> bool" where
  "index_synced h \<longleftrightarrow> (let pf = ix_paged_file (h_index h); n = length (f_durable (pf_file pf)) in
     byte_at (f_durable (pf_file pf)) = pf_view pf \<and> 4096 dvd n \<and> 4096 \<le> n \<and> n \<le> OFF_MAX)"

lemma synced_data:
  assumes "append_tidy h" and "sound ok lim ilim h"
    and "f_durable (pf_file (df_paged_file (h_data h))) = f_content (pf_file (df_paged_file (h_data h)))" "staged_writes (df_paged_file (h_data h)) = []"
  shows "data_synced h"
proof -
  have "append_good (h_config h) (h_placement h) (h_data h)" by (rule heap_okD(1) [OF append_tidyD(1) [OF assms(1)]])
  moreover have "pf_fine data_head lim lim (df_paged_file (h_data h))" using assms(2) by (simp add: sound_def)
  ultimately show ?thesis
    using assms(3,4) by (simp add: data_synced_def append_good_def pf_fine_def pf_whole_def Let_def pf_view_Nil)
qed

lemma synced_index:
  assumes "sound ok lim ilim h"
    and "f_durable (pf_file (ix_paged_file (h_index h))) = f_content (pf_file (ix_paged_file (h_index h)))" "staged_writes (ix_paged_file (h_index h)) = []"
  shows "index_synced h"
  using assms by (simp add: sound_def index_synced_def pf_fine_def pf_whole_def Let_def pf_view_Nil)

text \<open>A configuration that fits the files of a heap.\<close>

definition fits_config :: "('io, 'p) Heap \<Rightarrow> HeapConfig \<Rightarrow> bool" where
  "fits_config h config \<longleftrightarrow> integrity config = integrity (h_config h) \<and> unat (growth config) \<le> OFF_MAX"

text \<open>A file that is found with the bytes that a paged file was seen to hold.\<close>

definition shows_view :: "nat \<Rightarrow> nat \<Rightarrow> (nat \<Rightarrow> u8) \<Rightarrow> File \<Rightarrow> bool" where
  "shows_view lim B view f \<longleftrightarrow> f_limit f = lim \<and> byte_at (f_content f) = view \<and>
     4096 dvd length (f_content f) \<and> 4096 \<le> length (f_content f) \<and> length (f_content f) \<le> B"

lemma settled_shows_view: "pf_fine hdr lim B pf \<Longrightarrow> staged_writes pf = [] \<Longrightarrow> shows_view lim B (pf_view pf) (pf_file pf)"
  by (simp add: shows_view_def pf_fine_def pf_whole_def Let_def pf_view_Nil)

definition found :: "('io, AppendPlacement) Heap \<Rightarrow> Dir \<Rightarrow> File \<Rightarrow> File \<Rightarrow> bool" where
  "found h dir f g \<longleftrightarrow> dr_files dir ''data.hs'' = Some f \<and> dr_files dir ''index.hs'' = Some g \<and>
     shows_view (f_limit (pf_file (df_paged_file (h_data h)))) (f_limit (pf_file (df_paged_file (h_data h)))) (df_view (h_data h)) f \<and>
     shows_view (f_limit (pf_file (ix_paged_file (h_index h)))) OFF_MAX (pf_view (ix_paged_file (h_index h))) g \<and>
     unat (ap_cursor (h_placement h)) \<le> length (f_content f)"

lemma found_files:
  assumes tidy: "append_tidy h" and snd: "sound ok lim ilim h" and config: "fits_config h config" and found: "found h dir f g"
  defines "N \<equiv> unat (ap_next_id (h_placement h))" and "E \<equiv> unat (ap_cursor (h_placement h))"
  shows "append_files dir config f g Map.empty N E []"
    "slots_map (data_handle config f) (ix_slot (h_index h)) = heap_map h" "ix_slot (index_handle g) = ix_slot (h_index h)" "byte_at (f_content f) = df_view (h_data h)"
    "f_limit f = lim" "f_limit g = ilim"
proof -
  have fine: "pf_fine data_head lim lim (df_paged_file (h_data h))" "pf_fine index_head ilim OFF_MAX (ix_paged_file (h_index h))"
    using snd by (simp_all add: sound_def)
  have data: "shows_view lim lim (df_view (h_data h)) f" and index: "shows_view ilim OFF_MAX (pf_view (ix_paged_file (h_index h))) g"
    and E: "E \<le> length (f_content f)"
    using found pf_fineD(4) [OF fine(1)] pf_fineD(4) [OF fine(2)] by (simp_all add: found_def E_def)
  show limits: "f_limit f = lim" "f_limit g = ilim" using data index by (simp_all add: shows_view_def)
  show view: "byte_at (f_content f) = df_view (h_data h)" using data by (simp add: shows_view_def)
  have iview: "pf_view (PagedFile_handle g) = pf_view (ix_paged_file (h_index h))" using index by (simp add: shows_view_def pf_view_handle)
  then show slot: "ix_slot (index_handle g) = ix_slot (h_index h)" by (intro ix_slot_view) simp
  have handles: "pf_fine data_head lim lim (PagedFile_handle f)" "pf_fine index_head ilim OFF_MAX (PagedFile_handle g)"
    using fine view iview data index
    by (simp_all add: pf_fine_def pf_whole_def Let_def pf_header_def pf_ok_handle pf_view_handle handle_fields shows_view_def)
  note len = pf_fine_handle [OF handles(1)]
  have flags: "df_with_bucket (data_handle config f) = df_with_bucket (h_data h)" "df_integrity (data_handle config f) = df_integrity (h_data h)"
    "df_view (data_handle config f) = df_view (h_data h)"
    using append_tidyD(4,5) [OF tidy] config view by (simp_all add: fits_config_def pf_view_handle)
  have zeros: "\<forall>i \<ge> E. df_view (data_handle config f) i = 0" using append_tidyD(3) [OF tidy] flags(3) by (simp add: E_def)
  have size: "unat (PagedFile_size (PagedFile_handle f)) = length (f_content f)"
    using len(5,6) by (simp add: PagedFile_size_def file_len_def handle_fields unat_of_nat_nowrap)
  note good = heap_okD(1,5) [OF append_tidyD(1) [OF tidy]]
  have upto: "index_upto (ix_slot (index_handle g)) N E" using append_tidyD(2) [OF tidy] slot by (simp add: N_def E_def)
  then have "append_tail (data_handle config f) (ix_slot (index_handle g)) Map.empty N E []"
    using no_log_in_zeros [OF zeros] size len(5,6) E by (simp add: append_tail_def Let_def index_upto_def)
  moreover have "slots_ok (h_data h) (ix_slot (index_handle g)) E"
    using good(2) by (simp add: slots_ok_def slot append_owned_def E_def)
  then have "slots_ok (data_handle config f) (ix_slot (index_handle g)) E"
    using slots_ok_cong [OF flags(3,1,2)] by simp
  ultimately show "append_files dir config f g Map.empty N E []"
    using found handles limits config by (simp add: append_files_def found_def fits_config_def)
  show "slots_map (data_handle config f) (ix_slot (h_index h)) = heap_map h"
    using slots_map_cong [OF flags(3,1)] by (simp add: heap_map_slots slot)
qed

text \<open>A flushed heap is found as it is seen.\<close>

lemma flushed_found:
  assumes tidy: "append_tidy h" and snd: "sound ok lim ilim h"
    and data: "f_durable (pf_file (df_paged_file (h_data h))) = f_content (pf_file (df_paged_file (h_data h)))" "staged_writes (df_paged_file (h_data h)) = []"
    and index: "f_durable (pf_file (ix_paged_file (h_index h))) = f_content (pf_file (ix_paged_file (h_index h)))" "staged_writes (ix_paged_file (h_index h)) = []"
  shows "found h (crash_dir h c) (pf_file (df_paged_file (h_data h))) (pf_file (ix_paged_file (h_index h)))"
proof -
  have fine: "pf_fine data_head lim lim (df_paged_file (h_data h))" "pf_fine index_head ilim OFF_MAX (ix_paged_file (h_index h))"
    using snd by (simp_all add: sound_def)
  have "unat (ap_cursor (h_placement h)) \<le> length (f_content (pf_file (df_paged_file (h_data h))))"
    using heap_okD(1) [OF append_tidyD(1) [OF tidy]] fine(1) by (simp add: append_good_def pf_fine_def pf_whole_def Let_def)
  with settled_shows_view [OF fine(1) data(2)] settled_shows_view [OF fine(2) index(2)] show ?thesis
    using pf_fineD(4) [OF fine(1)] pf_fineD(4) [OF fine(2)] by (simp add: found_def crash_dir_def lost_synced [OF data(1)] lost_synced [OF index(1)])
qed

context block_io
begin

text \<open>Opening a directory in which a heap is found as it was seen.\<close>

lemma found_reopens:
  assumes t1: "append_tidy h1" "sound steady lim ilim h1" and config: "fits_config h1 config" and found: "found h1 dir f g"
    and st: "steady io" and order: "order_ok order"
  shows "\<exists>h2 report io' dir'. Heap_open D append_open_placement order name dir io config = (Inr (h2, report), io', dir') \<and>
    lasting steady h2 \<and> heap_map h2 = heap_map h1 \<and> \<not> rp_rebuilt report \<and> ix_slot (h_index h2) = ix_slot (h_index h1) \<and>
    df_view (h_data h2) = df_view (h_data h1) \<and> df_with_bucket (h_data h2) = df_with_bucket (h_data h1) \<and>
    df_integrity (h_data h2) = df_integrity (h_data h1)"
proof -
  let ?E = "unat (ap_cursor (h_placement h1))"
  note ff = found_files [OF t1 config found]
  obtain h2 report io' dir' where
    o: "Heap_open D append_open_placement order name dir io config = (Inr (h2, report), io', dir')"
    and r: "\<not> rp_rebuilt report" "h_config h2 = config" "sound steady lim ilim h2" "heap_ok append_good append_owned append_taken h2"
      "index_upto (ix_slot (h_index h2)) (unat (ap_next_id (h_placement h2))) (unat (ap_cursor (h_placement h2)))"
      "unat (ap_cursor (h_placement h2)) = ?E" "ix_slot (h_index h2) = ix_slot (h_index h1)" "df_view (h_data h2) = df_view (h_data h1)" "\<not> df_with_bucket (h_data h2)"
      "df_integrity (h_data h2) = integrity config" "heap_map h2 = heap_map h1"
    using append_heap_opens [OF ff(1) st order, of name, unfolded ff(2-6) log_map.simps log_end.simps log_slots.simps] by blast
  from r have "append_tidy h2" using append_tidyD(3) [OF t1(1)] by (simp add: append_tidy_def)
  moreover have "df_with_bucket (h_data h1) \<longleftrightarrow> False" "df_integrity (h_data h1) = integrity config"
    using append_tidyD(4,5) [OF t1(1)] config by (simp_all add: fits_config_def)
  ultimately show ?thesis using o r by (simp add: lasting_def) blast
qed

lemma flush_and_reopen:
  assumes last: "lasting steady h" and c: "Heap_flush D h = (Inr u, h1)" and config: "fits_config h config"
    and st: "steady io" and order: "order_ok order"
  shows "\<exists>h2 report io' dir'. Heap_open D append_open_placement order name (crash_dir h1 c) io config = (Inr (h2, report), io', dir') \<and>
    lasting steady h2 \<and> heap_map h2 = heap_map h \<and> \<not> rp_rebuilt report \<and> ix_slot (h_index h2) = ix_slot (h_index h) \<and>
    df_view (h_data h2) = df_view (h_data h) \<and> df_with_bucket (h_data h2) = df_with_bucket (h_data h) \<and>
    df_integrity (h_data h2) = df_integrity (h_data h)"
proof -
  obtain lim ilim where t: "append_tidy h" "sound steady lim ilim h" using last by (auto simp: lasting_def)
  note ok = heap_okD(2,3) [OF append_tidyD(1) [OF t(1)]]
  have stay: "heap_stay h h1" using Heap_flush_Inr [OF c ok] by simp
  have t1: "append_tidy h1" "sound steady lim ilim h1"
    using append_tidy_stay [OF t(1) stay] flush_sound [OF t(2)] c sound_result by blast+
  have config1: "fits_config h1 config" using config stay by (simp add: fits_config_def heap_stay_def)
  have same: "ix_slot (h_index h1) = ix_slot (h_index h)" "df_view (h_data h1) = df_view (h_data h)"
      "df_with_bucket (h_data h1) = df_with_bucket (h_data h)" "df_integrity (h_data h1) = df_integrity (h_data h)"
    using stay by (simp_all add: heap_stay_def df_stay_def)
  from found_reopens [OF t1 config1 flushed_found [OF t1 flush_synced(1,3,2,4) [OF c ok]] st order]
  show ?thesis unfolding same heap_stay_map [OF stay] by blast
qed

lemma create_in_fine:
  assumes st: "steady io" and B: "4096 \<le> B" "B \<le> OFF_MAX"
  obtains pf io' dir' where "create_in D dir name kind layout io = (Inr pf, io', dir')" "steady io'"
    "pf_fine \<lparr>fh_kind = kind, fh_layout = layout\<rparr> (case dr_files dir name of Some f \<Rightarrow> f_limit f | None \<Rightarrow> dr_capacity dir) B pf"
    "pf_view pf = byte_at (header_page kind layout)" "allocated_end pf = 4096" "f_durable (pf_file pf) = header_page kind layout"
    "dr_files dir' = (dr_files dir)(name \<mapsto> pf_file pf)" "dr_capacity dir' = dr_capacity dir" "staged_writes pf = []"
proof -
  obtain f where f: "open_direct dir name True = Inr f" "f_limit f = (case dr_files dir name of Some f \<Rightarrow> f_limit f | None \<Rightarrow> dr_capacity dir)"
    by (cases "dr_files dir name") (auto simp: open_direct_def)
  obtain pf io' f' where c: "PagedFile_create D io f kind layout = (Inr pf, io', f')" "steady io'" using create_steady [OF st] by blast
  let ?page = "header_page kind layout"
  have f': "f' = f\<lparr>f_content := ?page, f_durable := ?page\<rparr>" and pf: "pf = (PagedFile_handle f')\<lparr>allocated_end := PAGE_SIZE_U64\<rparr>"
    using create_Inr [OF c(1)] by simp_all
  have view: "pf_view pf = byte_at ?page" by (simp add: pf pf_view_handle f')
  have "view_bytes (byte_at ?page) 0 4096 = ?page"
    using header_page_facts(1) [of kind layout] by (intro nth_equalityI) (auto simp: view_bytes_def byte_at_def)
  then have "FileHeader_decode (view_bytes (byte_at ?page) 0 4096) = Some \<lparr>fh_kind = kind, fh_layout = layout\<rparr>"
    using header_page_facts(2) [of kind layout "[]"] by simp
  then have "pf_fine \<lparr>fh_kind = kind, fh_layout = layout\<rparr> (f_limit f) B pf"
    using B header_page_facts(1) view unfolding pf_fine_def pf_header_def view
    by (simp add: pf_whole_def Let_def pf pf_ok_handle handle_fields f' PAGE_SIZE_U64_eq)
  moreover have "f_durable f' = ?page" by (simp add: f')
  ultimately show thesis
    using f view c by (intro that [of pf io' "dir_put dir name f'"])
      (simp_all add: create_in_def dir_put_def pf handle_fields PAGE_SIZE_U64_eq)
qed

lemma ensure_alloc_upper:
  assumes e: "PagedFile_ensure_alloc pf up_to chunk = (Inr u, pf')" and room: "pf_room pf"
    and small: "unat up_to \<le> 2 * OFF_MAX" "unat chunk \<le> OFF_MAX"
  shows "unat (allocated_end pf') \<le> unat up_to + unat (allocated_end pf) + unat chunk + 4095"
proof (cases "up_to \<le> allocated_end pf")
  case True
  with e show ?thesis by (simp add: PagedFile_ensure_alloc_def)
next
  case False
  let ?a = "allocated_end pf" and ?m = "max up_to (allocated_end pf + chunk)"
  have "unat ?a \<le> OFF_MAX" using room by (simp add: pf_room_def)
  then have m: "unat ?m \<le> unat up_to + unat ?a + unat chunk" "unat ?m \<le> 2 * OFF_MAX"
    using small by (auto simp: max_def unat_add_nowrap)
  have "unat (page_up ?m) = (unat ?m + 4095) div 4096 * 4096" using m(2) by (intro unat_page_up) linarith
  moreover have "allocated_end pf' = page_up ?m" using e False by (auto simp: PagedFile_ensure_alloc_def Let_def split: prod.splits sum.splits)
  moreover have "(unat ?m + 4095) div 4096 * 4096 \<le> unat ?m + 4095" by simp
  ultimately have "unat (allocated_end pf') \<le> unat ?m + 4095" by metis
  with m(1) show ?thesis by linarith
qed

lemma create_heap:
  assumes st: "steady io" and new: "dr_files dir ''data.hs'' = None"
    and size: "unat (initial_size config) + unat (growth config) + 8192 \<le> dr_capacity dir" "dr_capacity dir \<le> OFF_MAX"
  shows "\<exists>h report io' dir'. Heap_open D append_open_placement order name dir io config = (Inr (h, report), io', dir') \<and>
    lasting steady h \<and> h_config h = config \<and> heap_map h = Map.empty \<and> \<not> rp_rebuilt report \<and>
    h_placement h = \<lparr>ap_cursor = PAGE_SIZE_U64, ap_next_id = 0\<rparr> \<and> f_limit (pf_file (df_paged_file (h_data h))) = dr_capacity dir \<and>
    unat (allocated_end (df_paged_file (h_data h))) \<le> unat (initial_size config) + unat (growth config) + 8192 \<and>
    data_synced h \<and> index_synced h \<and> operations_since_sync h = 0 \<and>
    staged_writes (df_paged_file (h_data h)) = [] \<and> staged_writes (ix_paged_file (h_index h)) = []"
proof -
  let ?lim = "dr_capacity dir"
  obtain df io1 dir1 where c1: "create_in D dir ''data.hs'' 0x44 LAYOUT_APPEND io = (Inr df, io1, dir1)" "steady io1"
      "pf_fine data_head ?lim ?lim df" "pf_view df = byte_at (header_page 0x44 LAYOUT_APPEND)" "allocated_end df = 4096"
      "f_durable (pf_file df) = header_page 0x44 LAYOUT_APPEND"
      "dr_files dir1 = (dr_files dir)(''data.hs'' \<mapsto> pf_file df)" "dr_capacity dir1 = ?lim" "staged_writes df = []"
    using create_in_fine [OF st, where B = ?lim and dir = dir and name = "''data.hs''" and kind = "0x44" and layout = LAYOUT_APPEND] size new by auto
  let ?ilim = "case dr_files dir1 ''index.hs'' of Some f \<Rightarrow> f_limit f | None \<Rightarrow> dr_capacity dir1"
  obtain ix io2 dir2 where c2: "create_in D dir1 ''index.hs'' 0x49 LAYOUT_APPEND io1 = (Inr ix, io2, dir2)" "steady io2"
      "pf_fine index_head ?ilim OFF_MAX ix" "pf_view ix = byte_at (header_page 0x49 LAYOUT_APPEND)"
      "f_durable (pf_file ix) = header_page 0x49 LAYOUT_APPEND" "staged_writes ix = []"
    using create_in_fine [OF c1(2), where B = OFF_MAX and dir = dir1 and name = "''index.hs''" and kind = "0x49" and layout = LAYOUT_APPEND]
    by simp blast
  have fs: "Heap_files D append_open_placement order config True io dir = (Inr ((df, ix, None), RecoveryReport_default), io2, dir2)"
    using c1(1) c2(1) by (simp add: Heap_files_def Heap_create_files_def append_open_placement_simps)
  have room: "pf_room df" using c1(3,5) size by (simp add: pf_room_def pf_fineD(4))
  obtain pf where e: "PagedFile_ensure_alloc df (initial_size config) (growth config) = (Inr (), pf)"
    using ensure_alloc_succeeds [OF room, of "initial_size config" "unat (initial_size config)" "growth config"] c1(5) size pf_fineD(4) [OF c1(3)]
    by auto
  have small: "unat (initial_size config) \<le> 2 * OFF_MAX" "unat (growth config) \<le> OFF_MAX" using size by linarith+
  have pf: "pf_fine data_head ?lim ?lim pf" "pf_view pf = byte_at (header_page 0x44 LAYOUT_APPEND)" "pf_room pf" "4096 \<le> unat (allocated_end pf)"
      "f_durable (pf_file pf) = header_page 0x44 LAYOUT_APPEND" "staged_writes pf = []"
    using ensure_alloc_fine [OF e c1(3) room small] ensure_alloc_facts [OF e pf_fineD(1) [OF c1(3)]] c1(4-6,9) ensure_alloc_bound [OF e room small]
    by (simp_all add: word_le_nat_alt)
  let ?df = "\<lparr>df_paged_file = pf, df_with_bucket = False, df_integrity = integrity config\<rparr>" and ?ix = "\<lparr>ix_paged_file = ix\<rparr>"
  let ?h = "\<lparr>h_io = io2, h_placement = \<lparr>ap_cursor = PAGE_SIZE_U64, ap_next_id = 0\<rparr>, h_data = ?df, h_index = ?ix, h_registry = None,
    h_config = config, h_dir = name, operations_since_sync = 0, armed = True\<rparr> :: ('io, AppendPlacement) Heap"
  have "Heap_open D append_open_placement order name dir io config =
      (Inr (?h, RecoveryReport_default\<lparr>rp_restored_slots := 0\<rparr>), io2, dir_files dir2 ?df ?ix None)"
    using fs e new by (simp add: Heap_open_def Heap_opened_def append_open_placement_simps AppendPlacement_open_def)
  moreover have empty: "ix_slot ?ix rid = Empty" for rid
    using ix_slot_zeros [of ?ix "header_page 0x49 LAYOUT_APPEND" 0 rid] c2(4) header_page_facts(1) by simp
  then have "heap_map ?h = Map.empty" by (simp add: heap_map_def fun_eq_iff)
  moreover have "append_tidy ?h"
    using pf c2(3) small empty header_page_facts(1)
    by (auto simp: append_tidy_def heap_ok_def append_good_def PAGE_SIZE_U64_eq index_upto_def slot_of_def byte_at_def pf_fineD(1))
  moreover have "sound steady ?lim ?ilim ?h" using c2(2,3) pf(1) by (simp add: sound_def)
  moreover have "unat (allocated_end pf) \<le> unat (initial_size config) + unat (growth config) + 8192"
    using ensure_alloc_upper [OF e room small] c1(5) by simp
  moreover have "data_synced ?h" "index_synced ?h"
    using pf(2,5) c2(4,5) pf_fineD(4) [OF pf(1)] size header_page_facts(1) by (simp_all add: data_synced_def index_synced_def PAGE_SIZE_U64_eq)
  ultimately show ?thesis using pf_fineD(4) [OF pf(1)] pf(6) c2(6) by (auto simp: lasting_def RecoveryReport_default_def)
qed

end

section \<open>One life after another\<close>

text \<open>
  The heaps one comes to hold, with all operations and answers so far: a heap is created where there is
  none, used, and flushed, lost and opened again.
\<close>

inductive append_life ::
  "'io BlockIo \<Rightarrow> ('io \<Rightarrow> bool) \<Rightarrow> (u64 list \<Rightarrow> u64 list) \<Rightarrow> ('io, AppendPlacement) Heap \<Rightarrow> (heap_op \<times> heap_ret) list \<Rightarrow> bool"
  for D ok order where
  life_created: "ok io \<Longrightarrow> dr_files dir ''data.hs'' = None \<Longrightarrow>
    unat (initial_size config) + unat (growth config) + 8192 \<le> dr_capacity dir \<Longrightarrow> dr_capacity dir \<le> OFF_MAX \<Longrightarrow>
    Heap_open D append_open_placement order name dir io config = (Inr (h, report), io', dir') \<Longrightarrow> append_life D ok order h []"
| life_used: "append_life D ok order h tr \<Longrightarrow> heap_run D append_placement append_sane h tr2 h' \<Longrightarrow> append_life D ok order h' (tr @ tr2)"
| life_restarted: "append_life D ok order h tr \<Longrightarrow> Heap_flush D h = (Inr (), h1) \<Longrightarrow> fits_config h1 config \<Longrightarrow> ok io \<Longrightarrow>
    Heap_open D append_open_placement order name (crash_dir h1 capacity) io config = (Inr (h2, report), io', dir') \<Longrightarrow>
    append_life D ok order h2 tr"

lemma map_run_trans: "map_run m1 tr2 m2 \<Longrightarrow> map_run m tr1 m1 \<Longrightarrow> map_run m (tr1 @ tr2) m2"
  by (induction rule: map_run.induct) (auto simp: append_assoc [symmetric] simp del: append_assoc intro: map_run.intros)

context block_io
begin

lemma life_refines:
  assumes "append_life D steady order h tr" and order: "order_ok order"
  shows "lasting steady h \<and> map_run Map.empty tr (heap_map h)"
  using assms(1)
proof (induction rule: append_life.induct)
  case (life_created io dir config name h report io' dir')
  with create_heap [OF life_created.hyps(1-4), of order name] show ?case by (auto simp: map_run_nil)
next
  case (life_used h tr tr2 h')
  then obtain lim ilim where t: "append_tidy h" "sound steady lim ilim h" and m: "map_run Map.empty tr (heap_map h)"
    by (auto simp: lasting_def)
  have "lasting steady h'" using run_tidy [OF life_used.hyps(2) t] by (auto simp: lasting_def)
  moreover have "map_run (heap_map h) tr2 (heap_map h')"
    using placing.run_refines [OF append_placing [OF block_io_axioms] life_used.hyps(2)] t append_tidyD(1) by (auto simp: sound_def)
  ultimately show ?case using map_run_trans m by blast
next
  case (life_restarted h tr h1 config io name capacity h2 report io' dir')
  have last: "lasting steady h" and m: "map_run Map.empty tr (heap_map h)" using life_restarted.IH by simp_all
  have ok: "heap_ok append_good append_owned append_taken h" using last append_tidyD(1) by (auto simp: lasting_def)
  have stay: "heap_stay h h1" using Heap_flush_Inr [OF life_restarted.hyps(2) heap_okD(2,3) [OF ok]] by simp
  then have "fits_config h config" using life_restarted.hyps(3) by (simp add: fits_config_def heap_stay_def)
  from flush_and_reopen [OF last life_restarted.hyps(2) this life_restarted.hyps(4) order, of name capacity] life_restarted.hyps(5) m
  show ?case by auto
qed

end

text \<open>
  C3: an append heap that is created on a device that does not fail, used by operations that succeed and
  by lookups of absent records, and restarted any number of times answers what one map answers, holds
  exactly what that map holds after all operations of all lives, and is well formed. A restart is a flush, a
  crash right after it that leaves of each file what is durable, and an opening of these files, on a
  device and with a configuration that may be others. A crash without a flush is not a restart: what it
  leaves is the subject of \<open>Heap_Log\<close> and \<open>Power_Loss\<close>.
\<close>

theorem append_lives_refine_map:
  assumes "append_life sync_block_io healthy order h tr" and "order_ok order"
  shows "heap_ok append_good append_owned append_taken h \<and> map_run Map.empty tr (heap_map h)"
proof -
  from blocking.life_refines [OF assms] have "lasting healthy h" "map_run Map.empty tr (heap_map h)" by simp_all
  moreover from this(1) have "append_tidy h" unfolding lasting_def by simp
  ultimately show ?thesis using append_tidyD(1) by blast
qed

text \<open>An empty device, on which a heap is created and used.\<close>

definition example_dir :: Dir where
  "example_dir = \<lparr>dr_files = Map.empty, dr_capacity = 1048576\<rparr>"

abbreviation room_for :: "('io, AppendPlacement) Heap \<Rightarrow> nat \<Rightarrow> bool" where
  "room_for h n \<equiv> append_room (h_config h) (h_placement h) (h_data h) (h_registry h) 0 (of_nat n)"

context block_io
begin

lemma example_created:
  assumes io: "steady io"
  obtains h where "append_life D steady id h []" "lasting steady h" "h_config h = example_config" "room_for h 33"
proof -
  have size: "unat (initial_size example_config) + unat (growth example_config) + 8192 \<le> dr_capacity example_dir"
    "dr_capacity example_dir \<le> OFF_MAX" "dr_files example_dir ''data.hs'' = None"
    by (simp_all add: example_dir_def example_config_def)
  obtain h report io' dir where o: "Heap_open D append_open_placement id ''store'' example_dir io example_config = (Inr (h, report), io', dir)"
    and h: "lasting steady h" "h_config h = example_config" "heap_map h = Map.empty" "h_placement h = \<lparr>ap_cursor = PAGE_SIZE_U64, ap_next_id = 0\<rparr>"
      "f_limit (pf_file (df_paged_file (h_data h))) = dr_capacity example_dir"
      "unat (allocated_end (df_paged_file (h_data h))) \<le> unat (initial_size example_config) + unat (growth example_config) + 8192"
    using create_heap [OF io size(3,1,2), of id "''store''"] by blast
  have "append_life D steady id h []"
    by (rule life_created [OF _ size(3,1,2) o]) (rule io)
  moreover have "room_for h 33"
    using h(5,6) by (simp add: append_room_def h(2,4) example_config_def example_dir_def)
  ultimately show thesis using h(1,2) by (intro that)
qed

lemma example_insert:
  assumes h: "lasting steady h" and room: "room_for h 33"
  obtains rid h' where "heap_run D append_placement append_sane h [(Insert 0 [1, 2, 3], Id rid)] h'" "lasting steady h'"
    "h_config h' = h_config h" "heap_map h' = (heap_map h)(rid \<mapsto> [1, 2, 3])" "unat rid < ID_MAX"
proof -
  obtain lim ilim where snd: "append_tidy h" "sound steady lim ilim h" using h by (auto simp: lasting_def)
  have tidy: "append_tidy h" "steady (h_io h)" using snd by (auto simp: sound_def)
  have len: "record_len (h_data h) [1, 2, 3] = 33" using append_tidyD(4) [OF tidy(1)] by (simp add: record_len_def header_len_def)
  obtain rid h' where i: "Heap_insert_into D append_placement h 0 [1, 2, 3] = (Inr rid, h')" "unat rid < ID_MAX"
      "heap_map h' = (heap_map h)(rid \<mapsto> [1, 2, 3])"
    using placing.insert_into_completes [OF append_placing [OF block_io_axioms] tidy(2) append_tidyD(1) [OF tidy(1)], of "[1, 2, 3]" 0] room by (auto simp: len)
  have "heap_run D append_placement append_sane h ([] @ [(Insert 0 [1, 2, 3], Id rid)]) h'"
    by (rule run_step [OF run_nil]) (use i len in \<open>simp_all add: ret_of_def append_sane_def\<close>)
  moreover have "append_tidy h' \<and> sound steady lim ilim h' \<and> effect h (Insert 0 [1, 2, 3]) (Id rid) h'"
    by (rule insert_tidy [OF tidy(1) snd(2) _ i(1,2)]) (simp add: len)
  then have "lasting steady h'" "h_config h' = h_config h" by (auto simp: lasting_def effect_def wrote_def record_written_def)
  ultimately show thesis using i by (intro that [of rid h']) simp_all
qed

end

theorem append_lives_refine_map_witness:
  "\<exists>(h1 :: (SyncIo, AppendPlacement) Heap) h2 rid report io dir. Heap_open sync_block_io append_open_placement id ''store'' (crash_dir h1 1048576) SyncIo_new example_config =
       (Inr (h2, report), io, dir) \<and> map_run Map.empty [(Insert 0 [1, 2, 3], Id rid)] (heap_map h2)"
proof -
  obtain h0 where h0: "append_life sync_block_io healthy id h0 []" "lasting healthy h0" "h_config h0 = example_config" "room_for h0 33"
    by (rule blocking.example_created [OF SyncIo_new_healthy])
  obtain rid h where run: "heap_run sync_block_io append_placement append_sane h0 [(Insert 0 [1, 2, 3], Id rid)] h"
    and h: "lasting healthy h" "h_config h = example_config"
    using blocking.example_insert [OF h0(2,4)] h0(3) by metis
  have life: "append_life sync_block_io healthy id h [(Insert 0 [1, 2, 3], Id rid)]" using life_used [OF h0(1) run] by simp
  have order: "order_ok id" by (simp add: order_ok_def)
  have tidy: "append_tidy h" "healthy (h_io h)" using h(1) by (auto simp: lasting_def sound_def)
  obtain h1 where f: "Heap_flush sync_block_io h = (Inr (), h1)"
    using blocking.flush_completes [OF tidy(2)] by (auto simp: completes_unit)
  have fits: "fits_config h example_config" by (simp add: fits_config_def h(2) example_config_simps)
  obtain h2 report io dir where o: "Heap_open sync_block_io append_open_placement id ''store'' (crash_dir h1 1048576) SyncIo_new example_config =
      (Inr (h2, report), io, dir)"
    using blocking.flush_and_reopen [OF h(1) f fits SyncIo_new_healthy order] by blast
  have "heap_stay h h1" using blocking.Heap_flush_Inr [OF f heap_okD(2,3) [OF append_tidyD(1) [OF tidy(1)]]] by simp
  then have "fits_config h1 example_config" using fits by (simp add: fits_config_def heap_stay_def)
  from append_lives_refine_map [OF life_restarted [OF life f this SyncIo_new_healthy o] order] o show ?thesis by blast
qed

text \<open>
  C20: In every state an append heap comes to by creation, operations that succeed or look up absent
  records, and restarts (flush, crash, opening) on devices that do not fail, its files are whole pages
  under a header of the right kind and layout, every live slot leads to an intact record below the
  cursor, no identifier from the next one on has a slot, and nothing but zeros follows the last
  record. States after a failed operation or after a crash without a flush are not among these.
\<close>

theorem append_lives_well_formed:
  assumes "append_life sync_block_io healthy order h tr" and "order_ok order"
  shows "\<exists>lim ilim. pf_fine data_head lim lim (df_paged_file (h_data h)) \<and> pf_fine index_head ilim OFF_MAX (ix_paged_file (h_index h)) \<and>
    heap_ok append_good append_owned append_taken h \<and>
    index_upto (ix_slot (h_index h)) (unat (ap_next_id (h_placement h))) (unat (ap_cursor (h_placement h))) \<and>
    (\<forall>i \<ge> unat (ap_cursor (h_placement h)). df_view (h_data h) i = 0)"
proof -
  have "lasting healthy h" using blocking.life_refines [OF assms] by simp
  then obtain lim ilim where "append_tidy h" "sound healthy lim ilim h" by (auto simp: lasting_def)
  then show ?thesis using append_tidyD(1-3) by (auto simp: sound_def)
qed

theorem append_lives_well_formed_witness:
  "\<exists>(h :: (SyncIo, AppendPlacement) Heap) rid slot payload. append_life sync_block_io healthy id h [(Insert 0 [1, 2, 3], Id rid)] \<and>
     ix_slot (h_index h) rid = Live slot \<and> slot_record (append_owned (h_placement h)) (h_data h) rid slot payload \<and>
     (\<forall>i \<ge> unat (ap_cursor (h_placement h)). df_view (h_data h) i = 0)"
proof -
  obtain h0 where h0: "append_life sync_block_io healthy id h0 []" "lasting healthy h0" "room_for h0 33"
    by (rule blocking.example_created [OF SyncIo_new_healthy])
  obtain rid h where run: "heap_run sync_block_io append_placement append_sane h0 [(Insert 0 [1, 2, 3], Id rid)] h"
    and map: "heap_map h = (heap_map h0)(rid \<mapsto> [1, 2, 3])"
    using blocking.example_insert [OF h0(2,3)] by metis
  have life: "append_life sync_block_io healthy id h [(Insert 0 [1, 2, 3], Id rid)]" using life_used [OF h0(1) run] by simp
  have ok: "heap_ok append_good append_owned append_taken h" "\<forall>i \<ge> unat (ap_cursor (h_placement h)). df_view (h_data h) i = 0"
    using append_lives_well_formed [OF life] by (auto simp: order_ok_def)
  obtain slot where live: "ix_slot (h_index h) rid = Live slot" using fun_cong [OF map, of rid] by (auto simp: heap_map_def split: SlotState.splits)
  with heap_ok_find [OF ok(1) live] life ok(2) show ?thesis by metis
qed

end
