(* ===== verification/Uring_Heap.thy ===== *)
theory Uring_Heap
  imports Uring Heap_Life
begin

text \<open>
  Heaps on the asynchronous device: what is proved for any device that keeps the contract of the trait,
  put together with the proof that this one does.
\<close>

interpretation asynchronous: block_io "uring_block_io script_enter default_conf" "uring_fine script_fine"
  by (rule scripted.uring_block_io_contract [OF default_conf_ok])

section \<open>Properties\<close>

text \<open>
  C4: an append heap on the asynchronous device, of any depth within its queue and any chunk from 1 to
  \<open>2 ^ 32 - 1\<close> bytes, on any kernel that keeps its contract and does not fail, whatever the order and the
  parts in which it completes its operations: created, used by operations that succeed and by lookups of
  absent records, and restarted any number of times (flushed, lost in a crash right after the flush,
  opened again), the heap answers what one map from identifiers to payloads answers, and holds what that
  map holds.
\<close>

theorem append_lives_on_uring_refine_map:
  assumes "uring_kernel enter patience calm" and "conf_ok c" and "append_life (uring_block_io enter c) (uring_fine calm) order h tr"
    and "order_ok order"
  shows "heap_ok append_good append_owned append_taken h \<and> map_run Map.empty tr (heap_map h)"
proof -
  from block_io.life_refines [OF uring_kernel.uring_block_io_contract [OF assms(1,2)] assms(3,4)]
  have "lasting (uring_fine calm) h" "map_run Map.empty tr (heap_map h)" by simp_all
  moreover from this(1) have "append_tidy h" unfolding lasting_def by simp
  ultimately show ?thesis using append_tidyD(1) by blast
qed

definition shuffled_uring :: "submission list UringIo" where
  "shuffled_uring =
     \<lparr>ur_kernel = [Submit_err EINTR, Submit_ok [(1, Sys_ok 100)], Submit_ok [(3, Sys_ok 7), (0, Sys_ok 4096)]], ur_sync_script = [],
      ur_counters = IoCounters_default\<rparr>"

theorem append_lives_on_uring_refine_map_witness:
  "\<exists>(h0 :: (submission list UringIo, AppendPlacement) Heap) rid h. heap_run (uring_block_io script_enter default_conf) append_placement append_sane h0 [(Insert 0 [1, 2, 3], Id rid)] h \<and>
     append_life (uring_block_io script_enter default_conf) (uring_fine script_fine) id h0 [] \<and> map_run Map.empty [(Insert 0 [1, 2, 3], Id rid)] (heap_map h)"
proof -
  have io: "uring_fine script_fine shuffled_uring" by (simp add: uring_fine_def shuffled_uring_def choices_fine_def)
  obtain h0 where h0: "append_life (uring_block_io script_enter default_conf) (uring_fine script_fine) id h0 []" "lasting (uring_fine script_fine) h0" "room_for h0 33"
    by (rule asynchronous.example_created [OF io])
  obtain rid h where run: "heap_run (uring_block_io script_enter default_conf) append_placement append_sane h0 [(Insert 0 [1, 2, 3], Id rid)] h"
    using asynchronous.example_insert [OF h0(2,3)] by metis
  have "append_life (uring_block_io script_enter default_conf) (uring_fine script_fine) id h [(Insert 0 [1, 2, 3], Id rid)]" using life_used [OF h0(1) run] by simp
  from append_lives_on_uring_refine_map [OF scripted.uring_kernel_axioms default_conf_ok this] have "map_run Map.empty [(Insert 0 [1, 2, 3], Id rid)] (heap_map h)"
    by (simp add: order_ok_def)
  with h0(1) run show ?thesis by blast
qed

end
