(* ===== verification/Heap_Log.thy ===== *)
theory Heap_Log
  imports Heap_Life
begin

text \<open>
  What a commit keeps. A commit makes the data file durable and only writes the index; a crash may take
  back every page of the index that was written since the last flush. Shown: opening the heap then finds
  all insertions and updates of the committed operations again in the records after the last one the
  index knows; the deletions, which leave no record, are undone.
\<close>

section \<open>Only a flush makes the index durable\<close>

definition index_kept :: "('io, 'p) Heap \<Rightarrow> ('io, 'p) Heap \<Rightarrow> bool" where
  "index_kept h h' \<longleftrightarrow> (pf_ok (ix_paged_file (h_index h)) \<longrightarrow>
     pf_ok (ix_paged_file (h_index h')) \<and> pf_same (ix_paged_file (h_index h)) (ix_paged_file (h_index h')))"

lemma index_kept_same: "h_index h' = h_index h \<Longrightarrow> index_kept h h'"
  and index_kept_trans: "index_kept a b \<Longrightarrow> index_kept b d \<Longrightarrow> index_kept a d"
  and index_kept_keep: "pf_keep (ix_paged_file (h_index h)) (ix_paged_file (h_index h')) \<Longrightarrow> index_kept h h'"
  by (auto simp: index_kept_def pf_keep_def intro: pf_same_trans)

context block_io
begin

lemma find_slot_kept:
  assumes f: "Heap_find_slot D h rid = (r, h')" and st: "steady (h_io h) \<or> (\<exists>slot. r = Inr slot)" and rid: "unat rid < ID_MAX"
  shows "index_kept h h'"
proof (cases "pf_ok (ix_paged_file (h_index h))")
  case True
  obtain slot io ix where rd: "IndexFile_read_slot D (h_io h) (h_index h) rid = (Inr slot, io, ix)"
    using st read_slot_steady f by (fastforce simp: Heap_find_slot_def split: prod.splits sum.splits)
  with f have "h_index h' = ix" by (auto simp: Heap_find_slot_def split: option.splits)
  with read_slot_Inr [OF rd True rid] show ?thesis by (simp add: ix_keep_def index_kept_keep)
qed (simp add: index_kept_def)

lemma flush_index_kept: "Heap_flush_index D h = (Inr u, h') \<Longrightarrow> index_kept h h'"
  using flush_Inr pf_settledD(1) by (fastforce simp: Heap_flush_index_def index_kept_def split: prod.splits)

lemma commit_kept:
  assumes "Heap_commit D h = (Inr u, h')"
  shows "index_kept h h'"
proof -
  obtain a0 a1 a2 a3 where s: "Heap_commit_registry D h = (Inr a0, a1)" "Heap_flush_data D a1 = (Inr (), a2)"
      "Heap_sync_data D a2 = (Inr (), a3)" "Heap_flush_index D a3 = (Inr u, h')"
    using assms by (auto simp: Heap_commit_def elim!: and_then_Inr)
  have "h_index a1 = h_index h" "h_index a2 = h_index a1" "h_index a3 = h_index a2"
    using Heap_registry_steps [of h "Inr a0" a1] s(1-3)
    by (auto simp: Heap_flush_data_def Heap_sync_data_def Let_def split: prod.splits)
  with flush_index_kept [OF s(4)] show ?thesis by (simp add: index_kept_def)
qed

lemma after_write_kept: "Heap_after_write D h = (Inr u, h') \<Longrightarrow> index_kept h h'"
  using commit_kept [of "h\<lparr>operations_since_sync := operations_since_sync h + 1\<rparr>"]
  by (auto simp: Heap_after_write_def Let_def index_kept_def split: if_splits)

lemma stage_slot_kept:
  assumes "Heap_stage_slot D h rid slot = (Inr u, h') \<or> Heap_stage_tombstone D h rid old = (Inr u, h')" and rid: "unat rid < ID_MAX"
  shows "index_kept h h'"
proof (cases "pf_ok (ix_paged_file (h_index h))")
  case True
  obtain bs io pf where s: "PagedFile_stage D (h_io h) (ix_paged_file (h_index h)) (Slot_file_offset rid) [bs] = (Inr u, io, pf)"
    and bs: "length bs = 16" and h': "h_index h' = (h_index h)\<lparr>ix_paged_file := pf\<rparr>"
    using assms(1) by (auto simp: Heap_stage_slot_def Heap_stage_tombstone_def IndexFile_stage_slot_def IndexFile_stage_tombstone_def
        Let_def Slot_encode_eq SLOT_SIZE_def split: prod.splits option.splits)
  from stage_slot_bytes [OF s True rid bs] h' show ?thesis by (simp add: index_kept_def)
qed (simp add: index_kept_def)

lemma exec_kept:
  assumes e: "heap_exec D append_placement h op = (Inr r, h')" and op: "op \<noteq> Flush" and fits: "op_fits h op" "ret_fits r"
  shows "index_kept h h'"
proof (cases op)
  case (Insert bucket payload)
  then obtain rid where c: "Heap_insert_into D append_placement h bucket payload = (Inr rid, h')" "r = Id rid"
    using e by (auto simp: ret_of_eq map_sum_Inr)
  then obtain off total h1 h2 h3 where s: "Heap_alloc D append_placement h bucket total = (Inr (off, rid), h1)"
      "Heap_stage_record D h1 off bucket rid 1 payload = (Inr (), h2)"
      "Heap_stage_slot D h2 rid (Some \<lparr>sl_offset = off, sl_total_len = total\<rparr>) = (Inr (), h3)" "Heap_after_write D h3 = (Inr (), h')"
    by (auto simp: Heap_insert_into_def Let_def elim!: and_then_Inr)
  have "h_index h2 = h_index h" using s(1,2) by (auto simp: Heap_alloc_def Heap_stage_record_def split: prod.splits)
  moreover have "index_kept h2 h3" by (rule stage_slot_kept [OF disjI1 [OF s(3)]]) (use fits(2) c(2) in simp)
  ultimately show ?thesis using after_write_kept [OF s(4)] index_kept_same index_kept_trans by blast
next
  case (Update rid payload)
  then obtain u where "Heap_update D append_placement h rid payload = (Inr u, h')" using e by (auto simp: ret_of_eq map_sum_Inr)
  then obtain slot h1 old h2 off total h3 h4 h5 where s: "Heap_find_slot D h rid = (Inr slot, h1)" "Heap_read_header D h1 slot rid = (Inr old, h2)"
      "Heap_alloc_update D append_placement h2 (rh_bucket old) total = (Inr off, h3)"
      "Heap_stage_record D h3 off (rh_bucket old) rid (rh_version old + 1) payload = (Inr (), h4)"
      "Heap_stage_slot D h4 rid (Some \<lparr>sl_offset = off, sl_total_len = total\<rparr>) = (Inr (), h5)" "Heap_after_write D h5 = (Inr u, h')"
    by (auto simp: Heap_update_def Let_def elim!: and_then_Inr)
  then have "h_index h4 = h_index h1"
    by (auto simp: Heap_read_header_def Heap_alloc_update_def Heap_stage_record_def split: prod.splits)
  moreover have rid: "unat rid < ID_MAX" using fits(1) Update by simp
  moreover have "index_kept h h1" using find_slot_kept [OF s(1) _ rid] by simp
  moreover have "index_kept h4 h5" by (rule stage_slot_kept [OF disjI1 [OF s(5)] rid])
  ultimately show ?thesis using after_write_kept [OF s(6)] index_kept_same [of h4 h1] index_kept_trans by blast
next
  case (Delete rid)
  then obtain u where "Heap_delete D h rid = (Inr u, h')" using e by (auto simp: ret_of_eq map_sum_Inr)
  then obtain slot h1 h2 where s: "Heap_find_slot D h rid = (Inr slot, h1)" "Heap_stage_tombstone D h1 rid slot = (Inr (), h2)"
      "Heap_after_write D h2 = (Inr u, h')"
    by (auto simp: Heap_delete_def elim!: and_then_Inr)
  have rid: "unat rid < ID_MAX" using fits(1) Delete by simp
  have "index_kept h h1" using find_slot_kept [OF s(1) _ rid] by simp
  moreover have "index_kept h1 h2" by (rule stage_slot_kept [OF disjI2 [OF s(2)] rid])
  ultimately show ?thesis using after_write_kept [OF s(3)] index_kept_trans by blast
next
  case (Read rid)
  then obtain q where "Heap_read D h rid = (Inr q, h')" using e by (auto simp: ret_of_eq map_sum_Inr)
  then obtain slot h1 where s: "Heap_find_slot D h rid = (Inr slot, h1)" "Heap_read_record D h1 slot rid = (Inr q, h')"
    by (auto simp: Heap_read_def elim!: and_then_Inr)
  moreover have "index_kept h h1" using find_slot_kept [OF s(1)] fits(1) Read by simp
  moreover have "h_index h' = h_index h1" using s(2) by (auto simp: Heap_read_record_def split: prod.splits sum.splits)
  ultimately show ?thesis by (simp add: index_kept_def)
next
  case (ReadBatch ids)
  then obtain q where "Heap_read_batch D h ids = (Inr q, h')" using e by (auto simp: ret_of_eq map_sum_Inr)
  then obtain slots io ix where rd: "IndexFile_read_slots D (h_io h) (h_index h) ids = (Inr slots, io, ix)" and h': "h_index h' = ix"
    by (auto simp: Heap_read_batch_def Let_def split: prod.splits sum.splits)
  show ?thesis
    using read_slots_Inr(1) [OF rd] fits(1) ReadBatch h' by (simp add: index_kept_def ix_keep_def pf_keep_def)
qed (use op in simp)

lemma missing_kept:
  assumes e: "heap_exec D P h op = (r, h')" and st: "steady (h_io h)" and fits: "op_fits h op" and l: "looks_up h op rid"
    and ok: "pf_ok (df_paged_file (h_data h))" "pf_ok (ix_paged_file (h_index h))" and m: "heap_map h rid = None"
  shows "index_kept h h'"
proof -
  obtain fr h1 where fs: "Heap_find_slot D h rid = (fr, h1)" by fastforce
  have gone: "fr = Inl (Err (NotFound rid)) \<and> index_kept h h1" if "unat rid < ID_MAX"
    using find_slot_Inr(2) [OF fs that ok st] find_slot_kept [OF fs _ that] st m by (auto simp: heap_map_def split: SlotState.splits)
  show ?thesis
  proof (cases op)
    case (ReadBatch ids)
    obtain q where q: "Heap_read_batch D h ids = (q, h')" using e ReadBatch by (auto simp: ret_of_eq)
    obtain x io ix where rd: "IndexFile_read_slots D (h_io h) (h_index h) ids = (x, io, ix)" by (metis prod_cases3)
    have ids: "\<forall>rid \<in> set ids. unat rid < ID_MAX" using fits ReadBatch by simp
    obtain slots where "x = Inr slots" using read_slots_Inr(2) [OF rd ok(2) ids] st by auto
    with q rd read_slots_Inr(1) [OF rd ok(2) ids] show ?thesis
      by (auto simp: Heap_read_batch_def Let_def index_kept_def ix_keep_def pf_keep_def split: prod.splits sum.splits)
  qed (use l e fits gone fs in \<open>auto simp: looks_up_def ret_of_eq Heap_read_def Heap_update_def Heap_delete_def\<close>)
qed

end

section \<open>Logs that grow\<close>

fun log_vers :: "(u64 \<rightharpoonup> u16) \<Rightarrow> entry list \<Rightarrow> (u64 \<rightharpoonup> u16)" where
  "log_vers vers [] = vers"
| "log_vers vers ((bucket, rid, version, payload) # log) = log_vers (vers(rid \<mapsto> version)) log"

lemma log_snoc:
  "log_end wb p (log @ [(bucket, rid, version, payload)]) = log_end wb p log + (header_len wb + length payload)"
  "log_next N (log @ [(bucket, rid, version, payload)]) = (if unat rid = log_next N log then log_next N log + 1 else log_next N log)"
  "log_slots wb p (log @ [(bucket, rid, version, payload)]) st =
     (log_slots wb p log st)(rid := Live (entry_slot (log_end wb p log) wb payload))"
  "log_vers vers (log @ [(bucket, rid, version, payload)]) = (log_vers vers log)(rid \<mapsto> version)"
proof -
  show "log_end wb p (log @ [(bucket, rid, version, payload)]) = log_end wb p log + (header_len wb + length payload)"
    by (induction wb p log rule: log_end.induct) simp_all
  show "log_next N (log @ [(bucket, rid, version, payload)]) = (if unat rid = log_next N log then log_next N log + 1 else log_next N log)"
    by (induction N log rule: log_next.induct) simp_all
  show "log_slots wb p (log @ [(bucket, rid, version, payload)]) st =
     (log_slots wb p log st)(rid := Live (entry_slot (log_end wb p log) wb payload))"
    by (induction wb p log st rule: log_slots.induct) (simp_all del: fun_upd_apply)
  show "log_vers vers (log @ [(bucket, rid, version, payload)]) = (log_vers vers log)(rid \<mapsto> version)"
    by (induction vers log rule: log_vers.induct) (simp_all del: fun_upd_apply)
qed

lemma log_at_snoc:
  "log_at wb checked h p (log @ [(bucket, rid, version, payload)]) \<longleftrightarrow>
     log_at wb checked h p log \<and> holds_at h (log_end wb p log) (record_bytes wb checked bucket rid version payload)"
  by (induction wb checked h p log rule: log_at.induct) auto

lemma log_ok_snoc:
  "log_ok vers N (log @ [(bucket, rid, version, payload)]) \<longleftrightarrow> log_ok vers N log \<and>
     (if unat rid = log_next N log then log_next N log + 1 \<le> ID_MAX
      else unat rid < log_next N log \<and> (\<exists>old. log_vers vers log rid = Some old \<and> old < version))"
proof (induction vers N log rule: log_ok.induct)
  case (1 vers N)
  then show ?case by (auto split: option.splits)
next
  case (2 vers N bucket' rid' version' payload' log)
  then show ?case by (cases "unat rid' = N") (simp_all del: fun_upd_apply)
qed

lemma holds_at_agree:
  assumes "\<And>i. off \<le> i \<Longrightarrow> i < off + length bs \<Longrightarrow> h' i = h i"
  shows "holds_at h' off bs = holds_at h off bs"
proof -
  have "map (\<lambda>k. h' (off + k)) [0..<length bs] = map (\<lambda>k. h (off + k)) [0..<length bs]"
    by (rule map_cong) (use assms in simp_all)
  then show ?thesis unfolding holds_at_def by (rule arg_cong)
qed

lemma log_at_agree:
  assumes "\<And>i. i < log_end wb p log \<Longrightarrow> h' i = h i"
  shows "log_at wb checked h' p log = log_at wb checked h p log"
  using assms
proof (induction wb checked h p log rule: log_at.induct)
  case (2 wb checked h p bucket rid version payload log)
  let ?q = "p + (header_len wb + length payload)"
  have "?q \<le> log_end wb ?q log" by (rule log_end_ge)
  with "2.prems" have "h' i = h i" if "i < ?q" for i using that by simp
  then have "holds_at h' p (record_bytes wb checked bucket rid version payload) = holds_at h p (record_bytes wb checked bucket rid version payload)"
    by (intro holds_at_agree) (simp add: length_record_bytes)
  with "2.IH" "2.prems" show ?case by simp
qed simp

text \<open>Records and slots below an end depend on the bytes below it only.\<close>

lemma df_record_agree:
  assumes "df_record df off bucket rid version payload" and "off + record_len df payload \<le> E"
    and "\<And>i. i < E \<Longrightarrow> df_view df' i = df_view df i" and "df_with_bucket df' = df_with_bucket df" and "df_integrity df' = df_integrity df"
  shows "df_record df' off bucket rid version payload"
proof -
  have "holds_at (df_view df') off bs = holds_at (df_view df) off bs" if "length bs = record_len df payload" for bs
    using assms(2,3) that by (intro holds_at_agree) simp
  with assms(1,4,5) show ?thesis by (simp add: df_record_def length_record_bytes record_len_def)
qed

lemma slot_record_agree:
  assumes "slot_record {4096..<E} df rid slot payload"
    and "\<And>i. i < E \<Longrightarrow> df_view df' i = df_view df i" and "df_with_bucket df' = df_with_bucket df" and "df_integrity df' = df_integrity df"
  shows "slot_record {4096..<E} df' rid slot payload"
proof -
  obtain bucket version where r: "df_record df (unat (sl_offset slot)) bucket rid version payload"
    and own: "{unat (sl_offset slot)..<unat (sl_offset slot) + record_len df payload} \<subseteq> {4096..<E}"
    using assms(1) by (auto simp: slot_record_def)
  have "0 < record_len df payload" by (simp add: record_len_def header_len_def)
  with own have "unat (sl_offset slot) + record_len df payload \<le> E" by (simp add: ivl_subset)
  from df_record_agree [OF r this assms(2-4)] assms(1,3) show ?thesis by (auto simp: slot_record_def record_len_def)
qed

lemma df_record_version:
  assumes "df_record df off bucket rid version payload" and "df_record df off bucket' rid' version' payload'"
  shows "version' = version"
proof -
  let ?wb = "df_with_bucket df" and ?checked = "df_integrity df"
  note one = record_at_holds(1) [of "df_view df" off ?wb ?checked bucket rid version payload OFF_MAX]
  note two = record_at_holds(1) [of "df_view df" off ?wb ?checked bucket' rid' version' payload' OFF_MAX]
  have "stored_header ?wb ?checked bucket rid version payload = stored_header ?wb ?checked bucket' rid' version' payload'"
    using one two assms by (simp add: df_record_def)
  then show ?thesis by (simp add: stored_header_def record_header_def)
qed

lemma slots_agree:
  assumes ok: "slots_ok df st E" and "\<And>i. i < E \<Longrightarrow> df_view df' i = df_view df i" and "df_with_bucket df' = df_with_bucket df"
    and "df_integrity df' = df_integrity df"
  shows "slots_ok df' st E" "slots_map df' st = slots_map df st"
proof -
  have rec: "\<exists>payload. slot_record {4096..<E} df rid slot payload \<and> slot_record {4096..<E} df' rid slot payload" if "st rid = Live slot" for rid slot
    using ok that slot_record_agree [OF _ assms(2-4)] unfolding slots_ok_def by blast
  then show "slots_ok df' st E" unfolding slots_ok_def by blast
  show "slots_map df' st = slots_map df st"
  proof (rule ext)
    fix rid
    show "slots_map df' st rid = slots_map df st rid"
      using rec [of rid] slot_record_payload by (fastforce simp: slots_map_def split: SlotState.split)
  qed
qed

section \<open>A run writes a log\<close>

text \<open>The operations that raise a version.\<close>

fun is_update :: "heap_op \<times> heap_ret \<Rightarrow> bool" where
  "is_update (Update _ _, _) = True"
| "is_update _ = False"

definition updates :: "(heap_op \<times> heap_ret) list \<Rightarrow> nat" where
  "updates tr = length (filter is_update tr)"

lemma updates_simps [simp]:
  "updates [] = 0" "updates (x # tr) = (if is_update x then Suc (updates tr) else updates tr)" "updates (tr @ tr') = updates tr + updates tr'"
  by (simp_all add: updates_def)

text \<open>What operations write: the payloads of insertions and updates under their identifiers.\<close>

fun op_writes :: "heap_op \<times> heap_ret \<Rightarrow> (u64 \<times> bytes) list" where
  "op_writes (Insert _ payload, Id rid) = [(rid, payload)]"
| "op_writes (Update rid payload, Done) = [(rid, payload)]"
| "op_writes _ = []"

definition trace_writes :: "(heap_op \<times> heap_ret) list \<Rightarrow> (u64 \<times> bytes) list" where
  "trace_writes tr = concat (map op_writes tr)"

lemma trace_writes_simps [simp]: "trace_writes [] = []" "trace_writes (tr @ tr') = trace_writes tr @ trace_writes tr'" "trace_writes [x] = op_writes x"
  by (simp_all add: trace_writes_def)

definition written :: "store \<Rightarrow> (u64 \<times> bytes) list \<Rightarrow> store" where
  "written m ws = fold (\<lambda>(rid, payload) m. m(rid \<mapsto> payload)) ws m"

lemma written_simps [simp]:
  "written m [] = m" "written m ((rid, payload) # ws) = written (m(rid \<mapsto> payload)) ws"
  "written m (ws @ ws') = written (written m ws) ws'"
  by (simp_all add: written_def)

fun entry_write :: "entry \<Rightarrow> u64 \<times> bytes" where
  "entry_write (bucket, rid, version, payload) = (rid, payload)"

fun entry_version :: "entry \<Rightarrow> u16" where
  "entry_version (bucket, rid, version, payload) = version"

lemma log_map_written: "log_map log m = written m (map entry_write log)"
  by (induction log m rule: log_map.induct) (simp_all del: fun_upd_apply)

definition keeps_index :: "(heap_op \<times> heap_ret) list \<Rightarrow> bool" where
  "keeps_index tr \<longleftrightarrow> (\<forall>(op, r) \<in> set tr. op \<noteq> Flush)"

text \<open>
  What a heap \<open>h\<close> is after the operations \<open>tr\<close> on \<open>h0\<close>: its files hold what they held, followed by a log of
  the insertions and updates, and its slots are those of the log, but for the deleted ones. No version
  exceeds \<open>M\<close> by more than the number of operations. Without a flush what is durable of the index stays.
\<close>

definition versions_upto :: "nat \<Rightarrow> (u64 \<rightharpoonup> u16) \<Rightarrow> DataFile \<Rightarrow> (u64 \<Rightarrow> SlotState) \<Rightarrow> bool" where
  "versions_upto M vers df st \<longleftrightarrow> (\<forall>rid slot. st rid = Live slot \<longrightarrow>
     (\<exists>version. vers rid = Some version \<and> unat version \<le> Suc M \<and> version_at df (sl_offset slot) rid version))"

definition logged ::
  "('io, AppendPlacement) Heap \<Rightarrow> (u64 \<rightharpoonup> u16) \<Rightarrow> nat \<Rightarrow> (heap_op \<times> heap_ret) list \<Rightarrow> entry list \<Rightarrow> ('io, AppendPlacement) Heap \<Rightarrow> bool" where
  "logged h0 vers M tr log h \<longleftrightarrow>
     (let N = unat (ap_next_id (h_placement h0)); E = unat (ap_cursor (h_placement h0)); st = log_slots False E log (ix_slot (h_index h0)) in
      (keeps_index tr \<longrightarrow> index_kept h0 h) \<and> h_config h = h_config h0 \<and> map entry_write log = trace_writes tr \<and>
      (\<forall>e \<in> set log. unat (entry_version e) \<le> Suc (M + updates tr)) \<and> log_ok vers N log \<and> log_next N log = unat (ap_next_id (h_placement h)) \<and>
      log_end False E log = unat (ap_cursor (h_placement h)) \<and> log_at False (df_integrity (h_data h)) (df_view (h_data h)) E log \<and>
      (\<forall>i < E. df_view (h_data h) i = df_view (h_data h0) i) \<and>
      (\<forall>rid. if (Delete rid, Done) \<in> set tr then (\<exists>slot. st rid = Live slot \<and> ix_slot (h_index h) rid = Deleted slot)
             else ix_slot (h_index h) rid = st rid) \<and>
      versions_upto (M + updates tr) (log_vers vers log) (h_data h) (ix_slot (h_index h)))"

lemma loggedD:
  assumes "logged h0 vers M tr log h"
  defines "N \<equiv> unat (ap_next_id (h_placement h0))" and "E \<equiv> unat (ap_cursor (h_placement h0))"
    and "st \<equiv> log_slots False (unat (ap_cursor (h_placement h0))) log (ix_slot (h_index h0))"
  shows "keeps_index tr \<Longrightarrow> index_kept h0 h" "h_config h = h_config h0" "log_ok vers N log" "log_next N log = unat (ap_next_id (h_placement h))"
    "log_end False E log = unat (ap_cursor (h_placement h))" "log_at False (df_integrity (h_data h)) (df_view (h_data h)) E log"
    "i < E \<Longrightarrow> df_view (h_data h) i = df_view (h_data h0) i"
    "(Delete rid, Done) \<in> set tr \<Longrightarrow> \<exists>slot. st rid = Live slot \<and> ix_slot (h_index h) rid = Deleted slot"
    "(Delete rid, Done) \<notin> set tr \<Longrightarrow> ix_slot (h_index h) rid = st rid"
    "versions_upto (M + updates tr) (log_vers vers log) (h_data h) (ix_slot (h_index h))" "map entry_write log = trace_writes tr"
    "\<forall>e \<in> set log. unat (entry_version e) \<le> Suc (M + updates tr)"
  using assms(1) unfolding logged_def Let_def N_def E_def st_def by presburger+

lemma version_at_agree:
  assumes tidy: "append_tidy h" and live: "ix_slot (h_index h) rid = Live slot" and v: "version_at (h_data h) (sl_offset slot) rid version"
    and df: "\<And>i. i < unat (ap_cursor (h_placement h)) \<Longrightarrow> df_view df i = df_view (h_data h) i" "df_with_bucket df = df_with_bucket (h_data h)"
      "df_integrity df = df_integrity (h_data h)"
  shows "version_at df (sl_offset slot) rid version"
proof -
  obtain payload where "slot_record {4096..<unat (ap_cursor (h_placement h))} (h_data h) rid slot payload"
    using heap_okD(5) [OF append_tidyD(1) [OF tidy] live] by (auto simp: append_owned_def)
  then obtain bucket version' where r: "df_record (h_data h) (unat (sl_offset slot)) bucket rid version' payload"
    and own: "{unat (sl_offset slot)..<unat (sl_offset slot) + record_len (h_data h) payload} \<subseteq> {4096..<unat (ap_cursor (h_placement h))}"
    by (auto simp: slot_record_def)
  have "0 < record_len (h_data h) payload" by (simp add: record_len_def header_len_def)
  with own have "unat (sl_offset slot) + record_len (h_data h) payload \<le> unat (ap_cursor (h_placement h))" by (simp add: ivl_subset)
  from df_record_agree [OF r this df] have "df_record df (unat (sl_offset slot)) bucket rid version' payload" .
  moreover have "version' = version" using df_record_version [OF _ r] v by (auto simp: version_at_def)
  ultimately show ?thesis using v by (auto simp: version_at_def)
qed

lemma version_at_same: "version_at df off rid v \<Longrightarrow> version_at df off rid v' \<Longrightarrow> v' = v"
  using df_record_version by (auto simp: version_at_def)

lemma versions_upto_agree:
  assumes vu: "versions_upto M vers (h_data h) (ix_slot (h_index h))" and tidy: "append_tidy h" and M: "M \<le> M'"
    and df: "\<And>i. i < unat (ap_cursor (h_placement h)) \<Longrightarrow> df_view df i = df_view (h_data h) i" "df_with_bucket df = df_with_bucket (h_data h)"
      "df_integrity df = df_integrity (h_data h)"
  shows "versions_upto M' vers df (ix_slot (h_index h))"
  unfolding versions_upto_def
proof (intro allI impI)
  fix rid slot
  assume live: "ix_slot (h_index h) rid = Live slot"
  then obtain version where v: "vers rid = Some version" "unat version \<le> Suc M" "version_at (h_data h) (sl_offset slot) rid version"
    using vu by (auto simp: versions_upto_def)
  with version_at_agree [OF tidy live v(3) df] M show "\<exists>version. vers rid = Some version \<and> unat version \<le> Suc M' \<and> version_at df (sl_offset slot) rid version"
    by auto
qed

text \<open>Operations keep the versions and add to them at most one that is one higher.\<close>

lemma versions_stay:
  assumes vu: "versions_upto M vers (h_data h) (ix_slot (h_index h))" and tidy: "append_tidy h" and M: "M \<le> M'"
    and df: "df_stay (h_data h) (h_data h')" and live: "\<And>rid slot. ix_slot (h_index h') rid = Live slot \<Longrightarrow> ix_slot (h_index h) rid = Live slot"
  shows "versions_upto M' vers (h_data h') (ix_slot (h_index h'))"
proof -
  have "versions_upto M' vers (h_data h') (ix_slot (h_index h))"
    by (rule versions_upto_agree [OF vu tidy M]) (use df in \<open>simp_all add: df_stay_def\<close>)
  with live show ?thesis by (auto simp: versions_upto_def)
qed

lemma versions_heap_stay:
  "versions_upto M vers (h_data h) (ix_slot (h_index h)) \<Longrightarrow> append_tidy h \<Longrightarrow> M \<le> M' \<Longrightarrow> heap_stay h h' \<Longrightarrow>
    versions_upto M' vers (h_data h') (ix_slot (h_index h'))"
  by (rule versions_stay) (simp_all add: heap_stay_def)

lemma versions_write:
  assumes vu: "versions_upto M vers (h_data h) (ix_slot (h_index h))" and tidy: "append_tidy h" "append_tidy h'"
    and w: "wrote h bucket rid version payload h'" and version: "M \<le> M'" "unat version \<le> Suc M'"
  shows "versions_upto M' (vers(rid \<mapsto> version)) (h_data h') (ix_slot (h_index h'))"
proof -
  let ?c = "unat (ap_cursor (h_placement h))" and ?df = "h_data h" and ?df' = "h_data h'"
  let ?bs = "record_bytes False (df_integrity ?df) bucket rid version payload"
  have wb: "\<not> df_with_bucket ?df" using append_tidyD(4) [OF tidy(1)] .
  have rw: "df_with_bucket ?df' = df_with_bucket ?df" "df_integrity ?df' = df_integrity ?df"
      "ix_slot (h_index h') = (ix_slot (h_index h))(rid := Live \<lparr>sl_offset = ap_cursor (h_placement h), sl_total_len = of_nat (record_len ?df payload)\<rparr>)"
      "df_view ?df' = overlay (df_view ?df) ?c ?bs" "unat (ap_cursor (h_placement h')) = ?c + record_len ?df payload"
    using w wb by (simp_all add: wrote_def record_written_def)
  have "versions_upto M' vers ?df' (ix_slot (h_index h))"
    by (rule versions_upto_agree [OF vu tidy(1) version(1)]) (simp_all add: rw overlay_def)
  moreover have "unat (ap_cursor (h_placement h')) \<le> OFF_MAX" "4096 \<le> ?c"
    using append_tidyD(2) [OF tidy(1)] append_tidyD(2) [OF tidy(2)] by (simp_all add: index_upto_def)
  then have "df_record ?df' ?c bucket rid version payload"
    using wb rw(5) by (simp add: df_record_def rw(1,2,4) holds_at_overlay record_len_def)
  ultimately show ?thesis using version(2) \<open>4096 \<le> ?c\<close> by (auto simp: versions_upto_def rw(3) version_at_def)
qed

lemma versions_step:
  assumes vu: "versions_upto M vers (h_data h) (ix_slot (h_index h))" and tidy: "append_tidy h" "append_tidy h'" and eff: "effect h op r h'"
  shows "\<exists>vers'. versions_upto (M + updates [(op, r)]) vers' (h_data h') (ix_slot (h_index h'))"
proof (cases op)
  case (Insert bucket payload)
  then have "wrote h bucket (ap_next_id (h_placement h)) 1 payload h'" using eff by (simp add: effect_def)
  from versions_write [OF vu tidy this, of M] Insert show ?thesis by auto
next
  case (Update rid payload)
  then obtain bucket slot old where u: "ix_slot (h_index h) rid = Live slot" "version_at (h_data h) (sl_offset slot) rid old"
      "wrote h bucket rid (old + 1) payload h'"
    using eff by (auto simp: effect_def)
  then obtain v where "vers rid = Some v" "unat v \<le> Suc M" "version_at (h_data h) (sl_offset slot) rid v" using vu by (auto simp: versions_upto_def)
  with version_at_same u(2) have "unat old \<le> Suc M" by blast
  then have "unat (old + 1) \<le> Suc (Suc M)" by (simp add: unat_word_ariths)
  from versions_write [OF vu tidy u(3) _ this] Update show ?thesis by auto
next
  case (Delete rid)
  then obtain slot where d: "ix_slot (h_index h') = (ix_slot (h_index h))(rid := Deleted slot)" "df_stay (h_data h) (h_data h')"
    using eff by (auto simp: effect_def)
  have "versions_upto M vers (h_data h') (ix_slot (h_index h'))"
    by (rule versions_stay [OF vu tidy(1) _ d(2)]) (auto simp: d(1) split: if_splits)
  with Delete show ?thesis by auto
qed (use versions_heap_stay [OF vu tidy(1), of M] eff in \<open>simp; blast\<close>)+

lemma keeps_index_snoc [simp]: "keeps_index (tr @ [(op, r)]) \<longleftrightarrow> keeps_index tr \<and> op \<noteq> Flush"
  by (auto simp: keeps_index_def)

lemma logged_same:
  assumes l: "logged h0 vers M tr log h" and tidy: "append_tidy h" and stay: "heap_stay h h'"
    and tr: "trace_writes tr' = trace_writes tr" "updates tr \<le> updates tr'" "\<And>rid. (Delete rid, Done) \<in> set tr' \<longleftrightarrow> (Delete rid, Done) \<in> set tr"
    and kept: "keeps_index tr' \<Longrightarrow> keeps_index tr \<and> index_kept h h'"
  shows "logged h0 vers M tr' log h'"
proof -
  have same: "df_view (h_data h') = df_view (h_data h)" "df_integrity (h_data h') = df_integrity (h_data h)" "df_stay (h_data h) (h_data h')"
    "h_placement h' = h_placement h" "h_config h' = h_config h" "ix_slot (h_index h') = ix_slot (h_index h)"
    using stay by (simp_all add: heap_stay_def df_stay_def)
  have "versions_upto (M + updates tr') (log_vers vers log) (h_data h') (ix_slot (h_index h'))"
    by (rule versions_stay [OF loggedD(10) [OF l] tidy _ same(3)]) (use tr(2) in \<open>simp_all add: same\<close>)
  moreover have "keeps_index tr' \<longrightarrow> index_kept h0 h'" using loggedD(1) [OF l] kept index_kept_trans by blast
  moreover have "\<forall>e \<in> set log. unat (entry_version e) \<le> Suc (M + updates tr')" using loggedD(12) [OF l] tr(2) by fastforce
  ultimately show ?thesis using l by (simp add: logged_def Let_def same tr)
qed

lemma logged_cong: "logged h0 vers M tr log h \<Longrightarrow> append_tidy h \<Longrightarrow> heap_stay h h' \<Longrightarrow> index_kept h h' \<Longrightarrow> logged h0 vers M tr log h'"
  by (rule logged_same) simp_all

lemma logged_stay:
  assumes "logged h0 vers M tr log h" and "append_tidy h" and "heap_stay h h'" and "op \<noteq> Flush \<Longrightarrow> index_kept h h'"
    and op: "op_writes (op, r) = []" "\<And>rid. (op, r) \<noteq> (Delete rid, Done)"
  shows "logged h0 vers M (tr @ [(op, r)]) log h'"
  by (rule logged_same [OF assms(1-3)]) (use assms(4) op in auto)

lemma logged_delete:
  assumes l: "logged h0 vers M tr log h" and tidy: "append_tidy h" and kept: "index_kept h h'"
    and eff: "effect h (Delete rid) Done h'"
  shows "logged h0 vers M (tr @ [(Delete rid, Done)]) log h'"
proof -
  obtain slot where s: "ix_slot (h_index h) rid = Live slot" "ix_slot (h_index h') = (ix_slot (h_index h))(rid := Deleted slot)"
      "h_placement h' = h_placement h" "h_config h' = h_config h" "df_stay (h_data h) (h_data h')"
    using eff by (auto simp: effect_def)
  then have same: "df_view (h_data h') = df_view (h_data h)" "df_with_bucket (h_data h') = df_with_bucket (h_data h)" "df_integrity (h_data h') = df_integrity (h_data h)"
    by (simp_all add: df_stay_def)
  have v: "versions_upto (M + updates (tr @ [(Delete rid, Done)])) (log_vers vers log) (h_data h') (ix_slot (h_index h'))"
    by (rule versions_stay [OF loggedD(10) [OF l] tidy _ s(5)]) (auto simp: s(2) split: if_splits)
  let ?st = "log_slots False (unat (ap_cursor (h_placement h0))) log (ix_slot (h_index h0))"
  have slots: "if (Delete i, Done) \<in> set (tr @ [(Delete rid, Done)]) then (\<exists>slot. ?st i = Live slot \<and> ix_slot (h_index h') i = Deleted slot)
      else ix_slot (h_index h') i = ?st i" for i
  proof -
    have "if (Delete i, Done) \<in> set tr then (\<exists>slot. ?st i = Live slot \<and> ix_slot (h_index h) i = Deleted slot) else ix_slot (h_index h) i = ?st i"
      using l by (simp add: logged_def Let_def)
    then show ?thesis using s(1,2) by (cases "i = rid") (auto split: if_splits)
  qed
  have "keeps_index (tr @ [(Delete rid, Done)]) \<longrightarrow> index_kept h0 h'" using loggedD(1) [OF l] kept index_kept_trans by auto
  with l v slots show ?thesis unfolding logged_def Let_def s(3,4) same by simp
qed

lemma logged_write:
  assumes l: "logged h0 vers M tr log h" and tidy: "append_tidy h" "append_tidy h'" and kept: "index_kept h h'"
    and w: "wrote h bucket rid version payload h'" and new: "(Delete rid, Done) \<notin> set tr"
    and rid: "rid = ap_next_id (h_placement h) \<or>
      (\<exists>old. log_vers vers log rid = Some old \<and> old < version \<and> unat rid < unat (ap_next_id (h_placement h)))"
    and version: "unat version \<le> Suc (M + updates (tr @ [(op, r)]))" and op: "op_writes (op, r) = [(rid, payload)]" "op \<noteq> Flush" "\<And>rid. (op, r) \<noteq> (Delete rid, Done)"
  shows "logged h0 vers M (tr @ [(op, r)]) (log @ [(bucket, rid, version, payload)]) h'"
proof -
  let ?c = "unat (ap_cursor (h_placement h))" and ?E = "unat (ap_cursor (h_placement h0))" and ?df = "h_data h" and ?df' = "h_data h'"
  let ?bs = "record_bytes False (df_integrity ?df) bucket rid version payload"
  note D = loggedD [OF l]
  have wb: "\<not> df_with_bucket ?df" using append_tidyD(4) [OF tidy(1)] .
  have rw: "h_config h' = h_config h" "df_with_bucket ?df' = df_with_bucket ?df" "df_integrity ?df' = df_integrity ?df"
      "ix_slot (h_index h') = (ix_slot (h_index h))(rid := Live \<lparr>sl_offset = ap_cursor (h_placement h), sl_total_len = of_nat (record_len ?df payload)\<rparr>)"
      "df_view ?df' = overlay (df_view ?df) ?c ?bs"
    using w wb by (simp_all add: wrote_def record_written_def)
  have place: "unat (ap_cursor (h_placement h')) = ?c + (header_len False + length payload)"
      "ap_next_id (h_placement h') = (if rid = ap_next_id (h_placement h) then rid + 1 else ap_next_id (h_placement h))"
    using w wb by (simp_all add: wrote_def record_len_def)
  have slot: "\<lparr>sl_offset = ap_cursor (h_placement h), sl_total_len = of_nat (record_len ?df payload)\<rparr> = entry_slot ?c False payload"
    using wb by (simp add: entry_slot_def record_len_def)
  have below: "df_view ?df' i = df_view ?df i" if "i < ?c" for i using that by (simp add: rw(5) overlay_def)
  have holds: "holds_at (df_view ?df') ?c ?bs" by (simp add: rw(5) holds_at_overlay)
  have upto: "unat (ap_next_id (h_placement h)) \<le> ID_MAX" "unat (ap_next_id (h_placement h')) \<le> ID_MAX" "unat (ap_cursor (h_placement h')) \<le> OFF_MAX"
    using append_tidyD(2) [OF tidy(1)] append_tidyD(2) [OF tidy(2)] by (simp_all add: index_upto_def)
  have "log_ok vers (unat (ap_next_id (h_placement h0))) (log @ [(bucket, rid, version, payload)])"
    using rid upto place(2) D(3,4) by (auto simp: log_ok_snoc unat_add_nowrap word_unat_eq_iff split: if_splits)
  moreover have "log_next (unat (ap_next_id (h_placement h0))) (log @ [(bucket, rid, version, payload)]) = unat (ap_next_id (h_placement h'))"
    using upto place(2) D(4) by (auto simp: log_snoc unat_add_nowrap word_unat_eq_iff)
  moreover have "log_end False ?E (log @ [(bucket, rid, version, payload)]) = unat (ap_cursor (h_placement h'))"
    using D(5) place(1) by (simp add: log_snoc)
  moreover have "log_at False (df_integrity ?df') (df_view ?df') ?E log"
    using D(6) log_at_agree [of False ?E log "df_view ?df'" "df_view ?df"] below D(5) rw(3) by simp
  then have "log_at False (df_integrity ?df') (df_view ?df') ?E (log @ [(bucket, rid, version, payload)])"
    using holds D(5) rw(3) by (simp add: log_at_snoc)
  moreover have "df_view ?df' i = df_view (h_data h0) i" if "i < ?E" for i
    using that D(5,7) below log_end_ge [of ?E False log] by simp
  moreover have "if (Delete i, Done) \<in> set (tr @ [(op, r)])
      then (\<exists>slot. log_slots False ?E (log @ [(bucket, rid, version, payload)]) (ix_slot (h_index h0)) i = Live slot \<and> ix_slot (h_index h') i = Deleted slot)
      else ix_slot (h_index h') i = log_slots False ?E (log @ [(bucket, rid, version, payload)]) (ix_slot (h_index h0)) i" for i
    using D(8,9) [of i] op(3) [of i] new by (auto simp: log_snoc rw(4) slot D(5))
  moreover have "versions_upto (M + updates (tr @ [(op, r)])) (log_vers vers (log @ [(bucket, rid, version, payload)])) ?df' (ix_slot (h_index h'))"
    unfolding log_snoc by (rule versions_write [OF D(10) tidy w]) (use version in simp_all)
  moreover have "keeps_index (tr @ [(op, r)]) \<longrightarrow> index_kept h0 h'" using D(1) kept index_kept_trans by auto
  moreover have "map entry_write (log @ [(bucket, rid, version, payload)]) = trace_writes (tr @ [(op, r)])" using D(11) op(1) by simp
  moreover have "\<forall>e \<in> set (log @ [(bucket, rid, version, payload)]). unat (entry_version e) \<le> Suc (M + updates (tr @ [(op, r)]))"
    using D(12) version by fastforce
  moreover have "h_config h' = h_config h0" using D(2) rw(1) by simp
  ultimately show ?thesis unfolding logged_def Let_def by blast
qed

lemma logged_step:
  assumes l: "logged h0 vers M tr log h" and tidy: "append_tidy h" "append_tidy h'" and kept: "op \<noteq> Flush \<Longrightarrow> index_kept h h'"
    and eff: "effect h op r h'" and op: "(\<exists>rid. op = Delete rid) \<or> (\<exists>rid payload. op = Update rid payload) \<longrightarrow> r = Done" and bound: "M + updates (tr @ [(op, r)]) \<le> 65534"
  shows "\<exists>log'. logged h0 vers M (tr @ [(op, r)]) log' h'"
proof -
  have gone: "(Delete rid, Done) \<notin> set tr" if "\<forall>slot. ix_slot (h_index h) rid \<noteq> Deleted slot" for rid
    using loggedD(8) [OF l] that by metis
  have upto: "index_upto (ix_slot (h_index h)) (unat (ap_next_id (h_placement h))) (unat (ap_cursor (h_placement h)))"
    using append_tidyD(2) [OF tidy(1)] .
  show ?thesis
  proof (cases op)
    case (Insert bucket payload)
    let ?rid = "ap_next_id (h_placement h)"
    have "ix_slot (h_index h) ?rid = Empty" using upto by (simp add: index_upto_def)
    then have "(Delete ?rid, Done) \<notin> set tr" by (intro gone) simp
    moreover have "r = Id ?rid" "wrote h bucket ?rid 1 payload h'" using eff Insert by (simp_all add: effect_def)
    ultimately have "logged h0 vers M (tr @ [(op, r)]) (log @ [(bucket, ?rid, 1, payload)]) h'"
      using Insert by (intro logged_write [OF l tidy kept]) simp_all
    then show ?thesis by blast
  next
    case (Update rid payload)
    then obtain bucket slot old where u: "ix_slot (h_index h) rid = Live slot" "version_at (h_data h) (sl_offset slot) rid old"
        "wrote h bucket rid (old + 1) payload h'"
      using eff by (auto simp: effect_def)
    obtain v where v: "log_vers vers log rid = Some v" "unat v \<le> Suc (M + updates tr)" "version_at (h_data h) (sl_offset slot) rid v"
      using loggedD(10) [OF l] u(1) by (auto simp: versions_upto_def)
    have "v = old" using version_at_same [OF u(2) v(3)] .
    moreover have wrap: "unat (old + 1) = unat old + 1" using v(2) bound \<open>v = old\<close> Update by (simp add: unat_add_nowrap)
    moreover have "unat rid < unat (ap_next_id (h_placement h))"
      using upto u(1) unfolding index_upto_def by (metis SlotState.distinct(3) not_less)
    ultimately have "\<exists>old'. log_vers vers log rid = Some old' \<and> old' < old + 1 \<and> unat rid < unat (ap_next_id (h_placement h))"
      using v(1) by (simp add: word_less_nat_alt)
    moreover have "(Delete rid, Done) \<notin> set tr" by (rule gone) (simp add: u(1))
    ultimately have "logged h0 vers M (tr @ [(op, r)]) (log @ [(bucket, rid, old + 1, payload)]) h'"
      using wrap v(2) \<open>v = old\<close> Update op by (intro logged_write [OF l tidy kept u(3)]) auto
    then show ?thesis by blast
  next
    case (Delete rid)
    then show ?thesis using logged_delete [OF l tidy(1) kept] eff op by auto
  qed (rule exI [of _ log], rule logged_stay [OF l tidy(1) _ kept], use eff in simp_all)+
qed

context block_io
begin

lemma run_logged:
  assumes "heap_run D append_placement append_sane h tr h'" and "append_tidy h" and "sound steady lim ilim h"
    and "logged h vers M [] [] h" and "M + updates tr \<le> 65534"
  shows "append_tidy h' \<and> sound steady lim ilim h' \<and> (\<exists>log. logged h vers M tr log h')"
  using assms
proof (induction tr h' rule: heap_run.induct)
  case (run_step h tr h1 op r h2)
  then obtain log where t: "append_tidy h1" "sound steady lim ilim h1" and l: "logged h vers M tr log h1" by auto
  note e = exec_tidy [OF t run_step.hyps(2-4)]
  have kept: "op \<noteq> Flush \<Longrightarrow> index_kept h1 h2" using exec_kept [OF run_step.hyps(3) _ run_step.hyps(2,4)] by simp
  have "(\<exists>rid. op = Delete rid) \<or> (\<exists>rid payload. op = Update rid payload) \<longrightarrow> r = Done" using run_step.hyps(3) by (auto simp: ret_of_eq map_sum_Inr)
  then have "\<exists>log'. logged h vers M (tr @ [(op, r)]) log' h2"
    using logged_step [OF l t(1) _ kept] e run_step.prems(4) by simp
  with e show ?case by blast
next
  case (run_missing h tr h1 op rid h2)
  then obtain log where t: "append_tidy h1" "sound steady lim ilim h1" and l: "logged h vers M tr log h1" by auto
  have st: "steady (h_io h1)" using t(2) by (simp add: sound_def)
  note ok = append_tidyD(1) [OF t(1)]
  have stay: "heap_stay h1 h2" using exec_missing [OF st ok run_missing.hyps(2-5)] by simp
  have kept: "index_kept h1 h2"
    by (rule missing_kept [OF run_missing.hyps(5) st run_missing.hyps(2,3) heap_okD(2,3) [OF ok] run_missing.hyps(4)])
  have "logged h vers M (tr @ [(op, Missing rid)]) log h2" by (rule logged_stay [OF l t(1) stay kept]) simp_all
  with append_tidy_stay [OF t(1) stay] missing_sound [OF t(2) ok run_missing.hyps(2-5)] show ?case by blast
qed blast

end

section \<open>The versions of a log\<close>

lemma slot_version_mono:
  assumes "versions_upto M vers df st"
  shows "M \<le> M' \<Longrightarrow> versions_upto M' vers df st"
  using assms by (fastforce simp: versions_upto_def)

lemma log_slots_versions:
  assumes "log_at False (df_integrity df) (df_view df) p log" and "4096 \<le> p" and "log_end False p log \<le> OFF_MAX"
    and "\<not> df_with_bucket df" and "versions_upto M vers df st" and "\<forall>e \<in> set log. unat (entry_version e) \<le> Suc M"
  shows "versions_upto M (log_vers vers log) df (log_slots False p log st)"
  using assms
proof (induction False p log st arbitrary: vers rule: log_slots.induct)
  case (2 p bucket rid version payload log st)
  let ?q = "p + (header_len False + length payload)"
  have q: "?q \<le> OFF_MAX" using "2.prems"(3) log_end_ge [of ?q False log] by simp
  have "holds_at (df_view df) p (record_bytes False (df_integrity df) bucket rid version payload)" using "2.prems"(1) by simp
  then have "df_record df p bucket rid version payload" using "2.prems"(2,4) q by (simp add: df_record_def record_len_def)
  moreover have up: "unat (of_nat p :: u64) = p" using q by (intro unat_of_nat_nowrap) simp
  ultimately have "version_at df (sl_offset (entry_slot p False payload)) rid version"
    using "2.prems"(2) by (auto simp: version_at_def entry_slot_def)
  then have "versions_upto M (vers(rid \<mapsto> version)) df (st(rid := Live (entry_slot p False payload)))"
    using "2.prems"(5,6) by (auto simp: versions_upto_def)
  from "2.hyps" [OF _ _ _ "2.prems"(4) this] "2.prems" show ?case by simp
qed simp

section \<open>What a commit leaves on the device\<close>

context block_io
begin

lemma commit_synced:
  assumes c: "Heap_commit D h = (Inr u, h')" and ok: "pf_ok (df_paged_file (h_data h))" "pf_ok (ix_paged_file (h_index h))"
  shows "f_durable (pf_file (df_paged_file (h_data h'))) = f_content (pf_file (df_paged_file (h_data h')))"
    "staged_writes (df_paged_file (h_data h')) = []"
proof -
  obtain a0 a1 a2 a3 where s: "Heap_commit_registry D h = (Inr a0, a1)" "Heap_flush_data D a1 = (Inr (), a2)"
      "Heap_sync_data D a2 = (Inr (), a3)" "Heap_flush_index D a3 = (Inr u, h')"
    using c by (auto simp: Heap_commit_def elim!: and_then_Inr)
  have ok1: "pf_ok (df_paged_file (h_data a1))" "pf_ok (ix_paged_file (h_index a1))"
    using Heap_registry_steps [of h "Inr a0" a1] s(1) ok by simp_all
  note f1 = Heap_flush_data_Inr [OF s(2) ok1]
  obtain io f where d: "sync D (h_io a2) (pf_file (df_paged_file (h_data a2))) = (Inr (), io, f)"
      "h_data a3 = (h_data a2)\<lparr>df_paged_file := (df_paged_file (h_data a2))\<lparr>pf_file := f\<rparr>\<rparr>"
    using s(3) by (auto simp: Heap_sync_data_def Let_def split: prod.splits)
  have "h_data h' = h_data a3" using s(4) by (auto simp: Heap_flush_index_def split: prod.splits)
  then show "f_durable (pf_file (df_paged_file (h_data h'))) = f_content (pf_file (df_paged_file (h_data h')))"
    "staged_writes (df_paged_file (h_data h')) = []"
    using d(2) f1 sync_Inr [OF d(1)] by (simp_all add: pf_settled_def)
qed

end

lemma logged_start:
  assumes "append_tidy h" and vu: "versions_upto M vers (h_data h) (ix_slot (h_index h))"
  shows "logged h vers M [] [] h"
  using assms append_tidyD(2) [OF assms(1)] by (simp add: logged_def Let_def keeps_index_def index_kept_def index_upto_def)

lemma committed_files:
  assumes tidy: "append_tidy h1" "append_tidy h" and snd: "sound ok lim ilim h1" "sound ok lim ilim h" and config: "fits_config h config"
    and l: "logged h1 vers M tr log h" and unflushed: "keeps_index tr"
    and vers: "\<forall>rid version. vers rid = Some version \<longrightarrow> (\<exists>slot. ix_slot (h_index h1) rid = Live slot \<and> version_at (h_data h1) (sl_offset slot) rid version)"
    and data: "data_synced h" and index: "index_synced h1"
  defines "f \<equiv> lost (pf_file (df_paged_file (h_data h)))" and "g \<equiv> lost (pf_file (ix_paged_file (h_index h)))"
    and "N \<equiv> unat (ap_next_id (h_placement h1))" and "E \<equiv> unat (ap_cursor (h_placement h1))"
  shows "append_files (crash_dir h c) config f g vers N E log" "ix_slot (index_handle g) = ix_slot (h_index h1)"
    "byte_at (f_content f) = df_view (h_data h)" "f_limit f = lim" "f_limit g = ilim"
proof -
  note L = loggedD [OF l, folded N_def E_def]
  have fine: "pf_fine data_head lim lim (df_paged_file (h_data h))" "pf_fine index_head ilim OFF_MAX (ix_paged_file (h_index h1))"
    using snd by (simp_all add: sound_def)
  have g: "f_content g = f_durable (pf_file (ix_paged_file (h_index h1)))" "f_limit g = ilim"
    using L(1) [OF unflushed] pf_fineD(1,4) [OF fine(2)] by (simp_all add: index_kept_def pf_same_def g_def lost_def)
  then show limits: "f_limit f = lim" "f_limit g = ilim" using fine by (simp_all add: pf_fine_def f_def lost_def)
  note synced = data [unfolded data_synced_def Let_def] index [unfolded index_synced_def Let_def]
  show view: "byte_at (f_content f) = df_view (h_data h)" using synced(1) by (simp add: f_def lost_def)
  have iview: "pf_view (PagedFile_handle g) = pf_view (ix_paged_file (h_index h1))" using synced(2) by (simp add: pf_view_handle g)
  then show slot: "ix_slot (index_handle g) = ix_slot (h_index h1)" by (intro ix_slot_view) simp
  have limit: "f_limit (pf_file (df_paged_file (h_data h))) = lim" "lim \<le> OFF_MAX"
    using fine(1) by (simp_all add: pf_fine_def pf_whole_def Let_def)
  have handles: "pf_fine data_head lim lim (PagedFile_handle f)" "pf_fine index_head ilim OFF_MAX (PagedFile_handle g)"
    using fine view iview synced g limit
    by (simp_all add: pf_fine_def pf_whole_def Let_def pf_header_def pf_ok_handle pf_view_handle handle_fields f_def lost_def)
  note len = pf_fine_handle [OF handles(1)]
  let ?df = "data_handle config f"
  have flags: "df_with_bucket ?df = df_with_bucket (h_data h1)" "df_integrity ?df = df_integrity (h_data h1)" "df_view ?df = df_view (h_data h)"
      "df_integrity (h_data h) = df_integrity (h_data h1)"
    using append_tidyD(4,5) [OF tidy(1)] append_tidyD(5) [OF tidy(2)] config L(2) view by (simp_all add: fits_config_def pf_view_handle)
  have zeros: "\<forall>i \<ge> log_end False E log. df_view ?df i = 0" using append_tidyD(3) [OF tidy(2)] flags(3) L(5) by simp
  have size: "unat (PagedFile_size (PagedFile_handle f)) = length (f_content f)"
    using len(5,6) by (simp add: PagedFile_size_def file_len_def handle_fields unat_of_nat_nowrap)
  have upto: "index_upto (ix_slot (index_handle g)) N E" using append_tidyD(2) [OF tidy(1)] slot by (simp add: N_def E_def)
  have E: "log_end False E log \<le> length (f_content f)" using synced(1) L(5) by (simp add: f_def lost_def)
  have vers': "unat rid < N \<and> (\<exists>slot. ix_slot (index_handle g) rid = Live slot \<and> version_at ?df (sl_offset slot) rid version)"
    if "vers rid = Some version" for rid version
  proof -
    from vers that obtain slot where s: "ix_slot (h_index h1) rid = Live slot" "version_at (h_data h1) (sl_offset slot) rid version" by blast
    have "version_at ?df (sl_offset slot) rid version"
      by (rule version_at_agree [OF tidy(1) s]) (use L(7) flags in \<open>simp_all add: E_def\<close>)
    moreover have "unat rid < N" using upto s(1) slot unfolding index_upto_def by (metis SlotState.distinct(3) not_less)
    ultimately show ?thesis using s(1) slot by auto
  qed
  have "append_tail ?df (ix_slot (index_handle g)) vers N E log"
    using no_log_in_zeros [OF zeros] size len(5,6) E upto vers' L(3,6) flags(2,3,4) by (simp add: append_tail_def Let_def)
  moreover have "slots_ok (h_data h1) (ix_slot (index_handle g)) E"
    using heap_okD(5) [OF append_tidyD(1) [OF tidy(1)]] by (simp add: slots_ok_def slot append_owned_def E_def)
  then have "slots_ok ?df (ix_slot (index_handle g)) E"
    by (rule slots_agree(1)) (use L(7) flags in simp_all)
  ultimately show "append_files (crash_dir h c) config f g vers N E log"
    using handles limits config by (simp add: append_files_def crash_dir_def fits_config_def f_def g_def)
qed

text \<open>
  Opening finds a log that followed what the index knew again, with the versions cut down to the
  identifiers that were live.
\<close>

abbreviation live_vers :: "(u64 \<rightharpoonup> u16) \<Rightarrow> ('io, 'p) Heap \<Rightarrow> u64 \<rightharpoonup> u16" where
  "live_vers vers h \<equiv> vers |` {rid. \<exists>slot. ix_slot (h_index h) rid = Live slot}"

lemma live_versions:
  assumes "versions_upto M vers (h_data h) (ix_slot (h_index h))"
  shows "versions_upto M (live_vers vers h) (h_data h) (ix_slot (h_index h))"
    "\<forall>rid version. live_vers vers h rid = Some version \<longrightarrow>
       (\<exists>slot. ix_slot (h_index h) rid = Live slot \<and> version_at (h_data h) (sl_offset slot) rid version)"
proof -
  show vu: "versions_upto M (live_vers vers h) (h_data h) (ix_slot (h_index h))"
    using assms by (fastforce simp: versions_upto_def restrict_map_def)
  show "\<forall>rid version. live_vers vers h rid = Some version \<longrightarrow>
       (\<exists>slot. ix_slot (h_index h) rid = Live slot \<and> version_at (h_data h) (sl_offset slot) rid version)"
  proof (intro allI impI)
    fix rid version
    assume that: "live_vers vers h rid = Some version"
    then obtain slot where slot: "ix_slot (h_index h) rid = Live slot" by (auto simp: restrict_map_def split: if_splits)
    then obtain v where "live_vers vers h rid = Some v" "version_at (h_data h) (sl_offset slot) rid v" using vu unfolding versions_upto_def by blast
    with slot that show "\<exists>slot. ix_slot (h_index h) rid = Live slot \<and> version_at (h_data h) (sl_offset slot) rid version" by auto
  qed
qed

context block_io
begin

lemma logged_reopens:
  assumes tidy: "append_tidy h1" "append_tidy h" and snd: "sound steady lim ilim h1" "sound steady lim ilim h"
    and vu: "versions_upto M vers (h_data h1) (ix_slot (h_index h1))" and l: "logged h1 (live_vers vers h1) M tr log h" and unflushed: "keeps_index tr"
    and synced: "data_synced h" "index_synced h1" and config: "fits_config h config" and st: "steady io" and order: "order_ok order"
  shows "\<exists>h' report io' dir'. Heap_open D append_open_placement order name (crash_dir h c) io config = (Inr (h', report), io', dir') \<and>
    lasting steady h' \<and> \<not> rp_rebuilt report \<and> h_config h' = config \<and>
    ix_slot (h_index h') = log_slots False (unat (ap_cursor (h_placement h1))) log (ix_slot (h_index h1)) \<and>
    df_view (h_data h') = df_view (h_data h) \<and> df_with_bucket (h_data h') = df_with_bucket (h_data h) \<and>
    df_integrity (h_data h') = df_integrity (h_data h)"
proof -
  note cf = committed_files [OF tidy snd config l unflushed live_versions(2) [OF vu] synced]
  obtain h' report io' dir' where
    o: "Heap_open D append_open_placement order name (crash_dir h c) io config = (Inr (h', report), io', dir')"
    and r: "\<not> rp_rebuilt report" "h_config h' = config" "sound steady lim ilim h'" "heap_ok append_good append_owned append_taken h'"
      "index_upto (ix_slot (h_index h')) (unat (ap_next_id (h_placement h'))) (unat (ap_cursor (h_placement h')))"
      "unat (ap_cursor (h_placement h')) = unat (ap_cursor (h_placement h))"
      "ix_slot (h_index h') = log_slots False (unat (ap_cursor (h_placement h1))) log (ix_slot (h_index h1))"
      "df_view (h_data h') = df_view (h_data h)" "\<not> df_with_bucket (h_data h')" "df_integrity (h_data h') = integrity config"
    using append_heap_opens [OF cf(1) [where c = c] st order, of name, unfolded cf(2-5) loggedD(5) [OF l]] by blast
  have "append_tidy h'" using r append_tidyD(3) [OF tidy(2)] by (simp add: append_tidy_def)
  then have "lasting steady h'" using r(3) by (auto simp: lasting_def)
  moreover have "df_with_bucket (h_data h') = df_with_bucket (h_data h)" "df_integrity (h_data h') = df_integrity (h_data h)"
    using r(9,10) append_tidyD(4,5) [OF tidy(2)] config by (simp_all add: fits_config_def)
  ultimately show ?thesis using o r by blast
qed

lemma commit_and_reopen:
  assumes last: "lasting steady h0" and flush: "Heap_flush D h0 = (Inr u, h1)"
    and run: "heap_run D append_placement append_sane h1 tr h2" and ops: "\<forall>(op, r) \<in> set tr. op \<noteq> Flush"
    and vu: "versions_upto M vers0 (h_data h0) (ix_slot (h_index h0))" and bound: "M + updates tr \<le> 65534"
    and commit: "Heap_commit D h2 = (Inr u', h)" and config: "fits_config h config" and st: "steady io" and order: "order_ok order"
  shows "\<exists>h' report io' dir'. Heap_open D append_open_placement order name (crash_dir h c) io config = (Inr (h', report), io', dir') \<and>
    lasting steady h' \<and> \<not> rp_rebuilt report \<and>
    (\<forall>rid. if (Delete rid, Done) \<in> set tr then heap_map h' rid \<noteq> None \<and> heap_map h2 rid = None
      else heap_map h' rid = heap_map h2 rid)"
proof -
  obtain lim ilim where t0: "append_tidy h0" "sound steady lim ilim h0" using last by (auto simp: lasting_def)
  note ok0 = heap_okD(2,3) [OF append_tidyD(1) [OF t0(1)]]
  have stay: "heap_stay h0 h1" using Heap_flush_Inr [OF flush ok0] by simp
  have t1: "append_tidy h1" "sound steady lim ilim h1"
    using append_tidy_stay [OF t0(1) stay] flush_sound [OF t0(2)] flush sound_result by blast+
  have vu1: "versions_upto M vers0 (h_data h1) (ix_slot (h_index h1))" by (rule versions_heap_stay [OF vu t0(1) order_refl stay])
  obtain log where t2: "append_tidy h2" "sound steady lim ilim h2" and l2: "logged h1 (live_vers vers0 h1) M tr log h2"
    using run_logged [OF run t1 logged_start [OF t1(1) live_versions(1) [OF vu1]] bound] by blast
  note ok2 = heap_okD(2,3) [OF append_tidyD(1) [OF t2(1)]]
  have stay2: "heap_stay h2 h" using Heap_commit_Inr [OF commit ok2] by simp
  have t: "append_tidy h" "sound steady lim ilim h"
    using append_tidy_stay [OF t2(1) stay2] commit_sound [OF t2(2)] commit sound_result by blast+
  note l = logged_cong [OF l2 t2(1) stay2 commit_kept [OF commit]]
  let ?st = "log_slots False (unat (ap_cursor (h_placement h1))) log (ix_slot (h_index h1))"
  obtain h' report io' dir' where
    o: "Heap_open D append_open_placement order name (crash_dir h c) io config = (Inr (h', report), io', dir')"
    and r: "lasting steady h'" "\<not> rp_rebuilt report" "ix_slot (h_index h') = ?st" "df_view (h_data h') = df_view (h_data h)"
      "df_with_bucket (h_data h') = df_with_bucket (h_data h)"
    using logged_reopens [OF t1(1) t(1) t1(2) t(2) vu1 l ops [folded keeps_index_def] synced_data [OF t commit_synced [OF commit ok2]]
        synced_index [OF t1(2) flush_synced(2,4) [OF flush ok0]] config st order, of name c] by blast
  have "if (Delete rid, Done) \<in> set tr then heap_map h' rid \<noteq> None \<and> heap_map h2 rid = None
      else heap_map h' rid = heap_map h2 rid" for rid
  proof -
    have same: "heap_map h' rid = heap_map h rid" if "ix_slot (h_index h) rid = ?st rid"
      using that r(3-5) by (simp add: heap_map_def slot_payload_def split: SlotState.split)
    have "heap_map h' rid \<noteq> None" if "?st rid = Live slot" for slot using that r(3) by (simp add: heap_map_def)
    moreover have "heap_map h rid = None" if "ix_slot (h_index h) rid = Deleted slot" for slot using that by (simp add: heap_map_def)
    ultimately show ?thesis using same loggedD(8,9) [OF l, of rid] heap_stay_map [OF stay2] by fastforce
  qed
  then show ?thesis using o r(1,2) by blast
qed

text \<open>In all its lives a heap never reaches a version above the number of its operations.\<close>

lemma run_versions:
  assumes "heap_run D append_placement append_sane h tr h'" and "append_tidy h" and "sound steady lim ilim h"
    and "versions_upto M vers (h_data h) (ix_slot (h_index h))"
  shows "append_tidy h' \<and> sound steady lim ilim h' \<and> (\<exists>vers'. versions_upto (M + updates tr) vers' (h_data h') (ix_slot (h_index h')))"
  using assms
proof (induction tr h' rule: heap_run.induct)
  case (run_step h tr h1 op r h2)
  then obtain vers' where t: "append_tidy h1" "sound steady lim ilim h1" and v: "versions_upto (M + updates tr) vers' (h_data h1) (ix_slot (h_index h1))"
    by blast
  note e = exec_tidy [OF t run_step.hyps(2-4)]
  with versions_step [OF v t(1)] show ?case by fastforce
next
  case (run_missing h tr h1 op rid h2)
  then obtain vers' where t: "append_tidy h1" "sound steady lim ilim h1" and v: "versions_upto (M + updates tr) vers' (h_data h1) (ix_slot (h_index h1))"
    by blast
  have st: "steady (h_io h1)" using t(2) by (simp add: sound_def)
  note ok = append_tidyD(1) [OF t(1)]
  have stay: "heap_stay h1 h2" using exec_missing [OF st ok run_missing.hyps(2-5)] by simp
  from versions_heap_stay [OF v t(1) _ stay, of "M + updates (tr @ [(op, Missing rid)])"] append_tidy_stay [OF t(1) stay]
    missing_sound [OF t(2) ok run_missing.hyps(2-5)]
  show ?case by auto
qed auto

lemma life_versions:
  assumes "append_life D steady order h tr" and order: "order_ok order"
  shows "\<exists>vers. versions_upto (updates tr) vers (h_data h) (ix_slot (h_index h))"
  using assms(1)
proof (induction rule: append_life.induct)
  case (life_created io dir config name h report io' dir')
  with create_heap [OF life_created.hyps(1-4), of order name] have "heap_map h = Map.empty" by auto
  then have "ix_slot (h_index h) rid \<noteq> Live slot" for rid slot by (auto simp: heap_map_def fun_eq_iff split: SlotState.splits)
  then show ?case by (simp add: versions_upto_def)
next
  case (life_used h tr tr2 h')
  then obtain vers where v: "versions_upto (updates tr) vers (h_data h) (ix_slot (h_index h))" by blast
  obtain lim ilim where "append_tidy h" "sound steady lim ilim h"
    using life_refines [OF life_used.hyps(1) order] by (auto simp: lasting_def)
  from run_versions [OF life_used.hyps(2) this v] show ?case by simp
next
  case (life_restarted h tr h1 config io name capacity h2 report io' dir')
  then obtain vers where v: "versions_upto (updates tr) vers (h_data h) (ix_slot (h_index h))" by blast
  have last: "lasting steady h" using life_refines [OF life_restarted.hyps(1) order] by simp
  then have ok: "heap_ok append_good append_owned append_taken h" using append_tidyD(1) by (auto simp: lasting_def)
  have stay: "heap_stay h h1" using Heap_flush_Inr [OF life_restarted.hyps(2) heap_okD(2,3) [OF ok]] by simp
  then have "fits_config h config" using life_restarted.hyps(3) by (simp add: fits_config_def heap_stay_def)
  from flush_and_reopen [OF last life_restarted.hyps(2) this life_restarted.hyps(4) order, of name capacity] life_restarted.hyps(5)
  have "ix_slot (h_index h2) = ix_slot (h_index h)" "df_view (h_data h2) = df_view (h_data h)" "df_with_bucket (h_data h2) = df_with_bucket (h_data h)"
    "df_integrity (h_data h2) = df_integrity (h_data h)" by auto
  then have "versions_upto (updates tr) vers (h_data h2) (ix_slot (h_index h2))"
    using v by (simp add: versions_upto_def version_at_def df_record_def)
  then show ?case by blast
qed

end

section \<open>What survives a crash after a commit\<close>

text \<open>
  C5: on a device that does not fail, what a commit acknowledged survives a crash that takes back
  everything written to the index since the last flush. If insertions, updates and reads follow the
  flush, the heap opened after the crash holds exactly what the heap held when it was committed, without a
  rebuild. Fewer than 65535 updates in all keep the record versions from wrapping.
\<close>

theorem commit_survives_crash:
  assumes "append_life sync_block_io healthy order h0 tr0" and "order_ok order" and "Heap_flush sync_block_io h0 = (Inr (), h1)"
    and "heap_run sync_block_io append_placement append_sane h1 tr h2" and "\<forall>(op, r) \<in> set tr. op \<noteq> Flush \<and> (\<forall>rid. op \<noteq> Delete rid)"
    and "updates tr0 + updates tr \<le> 65534" and "Heap_commit sync_block_io h2 = (Inr (), h)" and "fits_config h config" and "healthy io"
  shows "\<exists>h' report io' dir'. Heap_open sync_block_io append_open_placement order name (crash_dir h capacity) io config =
      (Inr (h', report), io', dir') \<and> \<not> rp_rebuilt report \<and> heap_map h' = heap_map h2"
proof -
  note life = blocking.life_refines [OF assms(1,2)] blocking.life_versions [OF assms(1,2)]
  obtain vers where v: "versions_upto (updates tr0) vers (h_data h0) (ix_slot (h_index h0))" using life(2) by blast
  have ops: "\<forall>(op, r) \<in> set tr. op \<noteq> Flush" "(Delete rid, Done) \<notin> set tr" for rid using assms(5) by auto
  show ?thesis
    using blocking.commit_and_reopen [OF conjunct1 [OF life(1)] assms(3,4) ops(1) v assms(6-9,2), of name capacity] ops(2)
    by (auto simp: fun_eq_iff)
qed

lemma example_commit:
  assumes "healthy (h_io h2)" and "h_config h2 = example_config" and "lasting healthy h2"
  obtains h where "Heap_commit sync_block_io h2 = (Inr (), h)" "fits_config h example_config"
proof -
  obtain h where c: "Heap_commit sync_block_io h2 = (Inr (), h)"
    using blocking.commit_completes [OF assms(1)] by (auto simp: completes_unit)
  have ok: "heap_ok append_good append_owned append_taken h2" using assms(3) append_tidyD(1) by (auto simp: lasting_def)
  have "heap_stay h2 h" using blocking.Heap_commit_Inr [OF c heap_okD(2,3) [OF ok]] by simp
  then have "fits_config h example_config" by (simp add: fits_config_def heap_stay_def assms(2) example_config_simps)
  with c show thesis by (rule that)
qed

lemma example_flushed:
  obtains h0 h1 where "append_life sync_block_io healthy id h0 []" "Heap_flush sync_block_io h0 = (Inr (), h1)" "lasting healthy h1"
    "h_config h1 = example_config" "room_for h1 33" "heap_map h1 = Map.empty"
proof -
  obtain h0 where h0: "append_life sync_block_io healthy id h0 []" "lasting healthy h0" "h_config h0 = example_config" "room_for h0 33"
    by (rule blocking.example_created [OF SyncIo_new_healthy])
  obtain lim ilim where t: "append_tidy h0" "sound healthy lim ilim h0" using h0(2) by (auto simp: lasting_def)
  then have io: "healthy (h_io h0)" by (simp add: sound_def)
  obtain h1 where f: "Heap_flush sync_block_io h0 = (Inr (), h1)"
    using blocking.flush_completes [OF io] by (auto simp: completes_unit)
  have stay: "heap_stay h0 h1" using blocking.Heap_flush_Inr [OF f heap_okD(2,3) [OF append_tidyD(1) [OF t(1)]]] by simp
  have "lasting healthy h1"
    using blocking.append_tidy_stay [OF t(1) stay] blocking.sound_result [OF blocking.flush_sound [OF t(2)] f] by (auto simp: lasting_def)
  moreover have "room_for h1 33" using h0(4) stay by (simp add: append_room_def heap_stay_def df_stay_def pf_extent_def)
  moreover have "order_ok id" by (simp add: order_ok_def)
  then have "map_run Map.empty [] (heap_map h0)" using blocking.life_refines [OF h0(1)] by simp
  then have "heap_map h1 = Map.empty" using heap_stay_map [OF stay] by (auto elim: map_run.cases)
  ultimately show thesis using h0(1,3) f stay by (intro that) (simp_all add: heap_stay_def)
qed

theorem commit_survives_crash_witness:
  "\<exists>(h :: (SyncIo, AppendPlacement) Heap) h' rid report io dir.
     Heap_open sync_block_io append_open_placement id ''store'' (crash_dir h 1048576) SyncIo_new example_config = (Inr (h', report), io, dir) \<and>
     heap_map h' = [rid \<mapsto> [1, 2, 3]]"
proof -
  obtain h0 h1 where h1: "append_life sync_block_io healthy id h0 []" "Heap_flush sync_block_io h0 = (Inr (), h1)" "lasting healthy h1"
    "h_config h1 = example_config" "room_for h1 33" "heap_map h1 = Map.empty" by (rule example_flushed)
  obtain rid h2 where h2: "heap_run sync_block_io append_placement append_sane h1 [(Insert 0 [1, 2, 3], Id rid)] h2" "lasting healthy h2"
    "h_config h2 = h_config h1" "heap_map h2 = (heap_map h1)(rid \<mapsto> [1, 2, 3])" using blocking.example_insert [OF h1(3,5)] by metis
  have "healthy (h_io h2)" using h2(2) by (auto simp: lasting_def sound_def)
  then obtain h where h: "Heap_commit sync_block_io h2 = (Inr (), h)" "fits_config h example_config"
    using example_commit h2(2,3) h1(4) by metis
  have order: "order_ok id" by (simp add: order_ok_def)
  have "\<exists>h' report io' dir'. Heap_open sync_block_io append_open_placement id ''store'' (crash_dir h 1048576) SyncIo_new example_config =
      (Inr (h', report), io', dir') \<and> \<not> rp_rebuilt report \<and> heap_map h' = heap_map h2"
    by (rule commit_survives_crash [OF h1(1) order h1(2) h2(1) _ _ h SyncIo_new_healthy]) simp_all
  then show ?thesis unfolding h2(4) h1(6) by blast
qed

text \<open>
  C38: a deletion does not survive such a crash, committed or not: it writes no record, and its tombstone
  is in the index only. The heap opened after the crash holds a payload again under every identifier that
  was deleted since the last flush.
\<close>

theorem committed_delete_undone:
  assumes "append_life sync_block_io healthy order h0 tr0" and "order_ok order" and "Heap_flush sync_block_io h0 = (Inr (), h1)"
    and "heap_run sync_block_io append_placement append_sane h1 tr h2" and "\<forall>(op, r) \<in> set tr. op \<noteq> Flush" and "(Delete rid, Done) \<in> set tr"
    and "updates tr0 + updates tr \<le> 65534" and "Heap_commit sync_block_io h2 = (Inr (), h)" and "fits_config h config" and "healthy io"
  shows "heap_map h2 rid = None \<and>
    (\<exists>h' report io' dir'. Heap_open sync_block_io append_open_placement order name (crash_dir h capacity) io config =
      (Inr (h', report), io', dir') \<and> heap_map h' rid \<noteq> None)"
proof -
  note life = blocking.life_refines [OF assms(1,2)] blocking.life_versions [OF assms(1,2)]
  obtain vers where v: "versions_upto (updates tr0) vers (h_data h0) (ix_slot (h_index h0))" using life(2) by blast
  show ?thesis
    using blocking.commit_and_reopen [OF conjunct1 [OF life(1)] assms(3-5) v assms(7-10,2), of name capacity] assms(6) by metis
qed

theorem committed_delete_undone_witness:
  "\<exists>(h2 :: (SyncIo, AppendPlacement) Heap) (h :: (SyncIo, AppendPlacement) Heap) h' rid report io dir. heap_map h2 rid = None \<and>
     Heap_commit sync_block_io h2 = (Inr (), h) \<and>
     Heap_open sync_block_io append_open_placement id ''store'' (crash_dir h 1048576) SyncIo_new example_config = (Inr (h', report), io, dir) \<and>
     heap_map h' rid \<noteq> None"
proof -
  obtain h0 h1 where h1: "append_life sync_block_io healthy id h0 []" "Heap_flush sync_block_io h0 = (Inr (), h1)" "lasting healthy h1"
    "h_config h1 = example_config" "room_for h1 33" "heap_map h1 = Map.empty" by (rule example_flushed)
  obtain rid h2 where h2: "heap_run sync_block_io append_placement append_sane h1 [(Insert 0 [1, 2, 3], Id rid)] h2" "lasting healthy h2"
    "h_config h2 = h_config h1" "heap_map h2 = (heap_map h1)(rid \<mapsto> [1, 2, 3])" "unat rid < ID_MAX" using blocking.example_insert [OF h1(3,5)] by metis
  obtain lim ilim where t2: "append_tidy h2" "sound healthy lim ilim h2" using h2(2) by (auto simp: lasting_def)
  then have io: "healthy (h_io h2)" by (simp add: sound_def)
  obtain h3 where d: "Heap_delete sync_block_io h2 rid = (Inr (), h3)"
    using appending.delete_completes [OF io append_tidyD(1) [OF t2(1)] h2(5)] h2(4) by (auto simp: completes_unit)
  have "heap_run sync_block_io append_placement append_sane h1 ([(Insert 0 [1, 2, 3], Id rid)] @ [(Delete rid, Done)]) h3"
    by (rule run_step [OF h2(1)]) (use d h2(5) in \<open>simp_all add: ret_of_def append_sane_def\<close>)
  then have run: "heap_run sync_block_io append_placement append_sane h1 [(Insert 0 [1, 2, 3], Id rid), (Delete rid, Done)] h3" by simp
  have t3: "append_tidy h3 \<and> sound healthy lim ilim h3 \<and> effect h2 (Delete rid) Done h3" by (rule blocking.delete_tidy [OF t2 d h2(5)])
  then have "lasting healthy h3" "healthy (h_io h3)" "h_config h3 = example_config"
    using h2(3) h1(4) by (auto simp: lasting_def sound_def effect_def)
  then obtain h where h: "Heap_commit sync_block_io h3 = (Inr (), h)" "fits_config h example_config"
    using example_commit by metis
  have order: "order_ok id" by (simp add: order_ok_def)
  have "heap_map h3 rid = None \<and> (\<exists>h' report io' dir'. Heap_open sync_block_io append_open_placement id ''store'' (crash_dir h 1048576)
      SyncIo_new example_config = (Inr (h', report), io', dir') \<and> heap_map h' rid \<noteq> None)"
    by (rule committed_delete_undone [OF h1(1) order h1(2) run _ _ _ h SyncIo_new_healthy]) simp_all
  with h(1) show ?thesis by blast
qed

end
