(* ===== verification/Workload.thy ===== *)
theory Workload
  imports Prelude
begin

text \<open>
  What the benchmark and crash-test programs under \<open>src/src/bin\<close> do alike: failures that end them, and
  loops that fill a store.
\<close>

text \<open>\<open>expect\<close> and \<open>unwrap\<close>: an error becomes a panic.\<close>

definition expect :: "string \<Rightarrow> 'a res \<Rightarrow> 'a res" where
  "expect message r = (case r of Inl (Err _) \<Rightarrow> Inl (Panic message) | _ \<Rightarrow> r)"

definition unwrap_failed :: "'a res" where
  "unwrap_failed = Inl (Panic ''called Result::unwrap() on an Err value'')"

definition unwrap :: "'a res \<Rightarrow> 'a res" where
  "unwrap r = (case r of Inl (Err _) \<Rightarrow> unwrap_failed | _ \<Rightarrow> r)"

text \<open>\<open>xs[i]\<close>\<close>

definition at_index :: "'a list \<Rightarrow> nat \<Rightarrow> 'a res" where
  "at_index xs i = (if i < length xs then Inr (xs ! i) else Inl (Panic ''index out of bounds''))"

text \<open>One payload, inserted into one bucket after the other; the identifiers come back.\<close>

fun insert_all :: "('h \<Rightarrow> u64 \<Rightarrow> bytes \<Rightarrow> u64 res \<times> 'h) \<Rightarrow> 'h \<Rightarrow> bytes \<Rightarrow> u64 list \<Rightarrow> u64 list res \<times> 'h" where
  "insert_all ins h payload [] = (Inr [], h)"
| "insert_all ins h payload (bucket # buckets) =
     and_then (ins h bucket payload) (\<lambda>rid h.
     and_then (insert_all ins h payload buckets) (\<lambda>rids h. (Inr (rid # rids), h)))"

end
