(* ===== verification/Damage.thy ===== *)
theory Damage
  imports Rebuild Workload
begin

text \<open>
  The damage that the corruption test of \<open>src/src/bin/crash.rs\<close> does to the files of a store. Shown: when
  a byte of a payload is flipped, the recovery still finds every other record where it was, refuses the
  damaged one, and the index it rebuilds is the one of the records that are left.
\<close>

section \<open>Damaging files\<close>

text \<open>Seeking to an offset and reading exactly some bytes.\<close>

definition read_exact_at :: "File \<Rightarrow> u64 \<Rightarrow> nat \<Rightarrow> bytes res" where
  "read_exact_at f offset n =
     (if unat offset + n \<le> length (f_content f) then Inr (take n (drop (unat offset) (f_content f))) else unwrap_failed)"

definition raw_slot :: "Dir \<Rightarrow> u64 \<Rightarrow> Slot res" where
  "raw_slot dir rid =
     (case dr_files dir ''index.hs'' of
        None \<Rightarrow> unwrap_failed
      | Some f \<Rightarrow>
          (case read_exact_at f (Slot_file_offset rid) 16 of
             Inl e \<Rightarrow> Inl e
           | Inr bytes \<Rightarrow> (case Slot_decode bytes of None \<Rightarrow> Inl (Panic ''slot'') | Some slot \<Rightarrow> Inr slot)))"

text \<open>The byte is written back complemented, and the file is synced.\<close>

definition flip :: "Dir \<Rightarrow> u64 \<Rightarrow> Dir res" where
  "flip dir offset =
     (case dr_files dir ''data.hs'' of
        None \<Rightarrow> unwrap_failed
      | Some f \<Rightarrow>
          (case read_exact_at f offset 1 of
             Inl e \<Rightarrow> Inl e
           | Inr bytes \<Rightarrow>
               let content = (f_content f)[unat offset := (bytes ! 0) XOR 0xFF]
               in Inr (dir_put dir ''data.hs'' (f\<lparr>f_content := content, f_durable := content\<rparr>))))"

definition set_len :: "Dir \<Rightarrow> u64 \<Rightarrow> Dir res" where
  "set_len dir len =
     (case dr_files dir ''data.hs'' of
        None \<Rightarrow> unwrap_failed
      | Some f \<Rightarrow>
          Inr (dir_put dir ''data.hs''
            (f\<lparr>f_content := take (unat len) (f_content f @ replicate (unat len - length (f_content f)) 0)\<rparr>)))"

definition remove_file :: "Dir \<Rightarrow> string \<Rightarrow> Dir" where
  "remove_file dir name = dir\<lparr>dr_files := (dr_files dir)(name := None)\<rparr>"

text \<open>The four scenarios, on the store whose records have the identifiers \<open>ids\<close>.\<close>

definition damage :: "string \<Rightarrow> string \<Rightarrow> u64 list \<Rightarrow> Dir \<Rightarrow> Dir res" where
  "damage layout scenario ids dir =
     (let header_size = (if layout = ''bucket'' then 38 else 30) in
      if scenario = ''payload-flip'' then
        (case at_index ids 2500 of Inl e \<Rightarrow> Inl e | Inr rid \<Rightarrow>
           (case raw_slot dir rid of Inl e \<Rightarrow> Inl e | Inr slot \<Rightarrow> flip dir (sl_offset slot + header_size + 500)))
      else if scenario = ''header-flip'' then
        (case at_index ids 2500 of Inl e \<Rightarrow> Inl e | Inr rid \<Rightarrow>
           (case raw_slot dir rid of Inl e \<Rightarrow> Inl e | Inr slot \<Rightarrow> flip dir (sl_offset slot)))
      else if scenario = ''truncate'' then
        (if ids = [] then Inl (Panic ''called Option::unwrap() on a None value'')
         else case raw_slot dir (last ids) of Inl e \<Rightarrow> Inl e | Inr slot \<Rightarrow> set_len dir (sl_offset slot + sl_total_len slot div 2))
      else if dr_files dir ''index.hs'' = None then unwrap_failed
      else
        (let dir = remove_file dir ''index.hs''
         in Inr (if layout = ''bucket'' then remove_file dir ''registry.hs'' else dir)))"

section \<open>A walk over changed bytes\<close>

lemma view_bytes_cong:
  assumes "\<And>i. p \<le> i \<Longrightarrow> i < p + n \<Longrightarrow> h' i = h i"
  shows "view_bytes h' p n = view_bytes h p n"
  using assms by (simp add: view_bytes_def)

lemma record_at_cong:
  assumes "\<And>i. p \<le> i \<Longrightarrow> i < p + header_len wb \<Longrightarrow> h' i = h i"
  shows "header_at wb h' p = header_at wb h p" "record_at wb h' e p = record_at wb h e p"
    "length_sane wb h' p = length_sane wb h p"
  using view_bytes_cong [of p "header_len wb" h' h, OF assms]
  by (simp_all add: header_at_def record_at_def length_sane_def)

lemma payload_intact_cong:
  assumes "\<And>i. p \<le> i \<Longrightarrow> i < p + header_len wb + unat (rh_len header) \<Longrightarrow> h' i = h i"
  shows "payload_intact wb checked h' p header = payload_intact wb checked h p header"
  using view_bytes_cong [of "p + header_len wb" "unat (rh_len header)" h' h] assms by (simp add: payload_intact_def)

lemma find_cong_first:
  assumes "find P xs = Some x" and "sorted xs" and "\<And>y. y \<le> x \<Longrightarrow> y \<in> set xs \<Longrightarrow> Q y = P y"
  shows "find Q xs = Some (x :: nat)"
  using assms
proof (induction xs)
  case (Cons y ys)
  show ?case
  proof (cases "P y")
    case True
    with Cons.prems show ?thesis by simp
  next
    case False
    with Cons.prems(1) have f: "find P ys = Some x" by simp
    then have "x \<in> set ys" by (auto simp: find_Some_iff)
    with Cons.prems(2) have "y \<le> x" by simp
    with Cons.prems(3) False have "\<not> Q y" by simp
    with Cons.IH [OF f] Cons.prems show ?thesis by simp
  qed
qed simp

lemma next_magic_cong:
  assumes "next_magic h p e = Some q" and "\<And>i. p \<le> i \<Longrightarrow> i < q + 4 \<Longrightarrow> h' i = h i"
  shows "next_magic h' p e = Some q"
proof -
  have "(view_bytes h' i 4 = to_le_bytes 4 RECORD_MAGIC) = (view_bytes h i 4 = to_le_bytes 4 RECORD_MAGIC)"
    if "i \<le> q" "i \<in> set [p..<e - 3]" for i
  proof -
    have "view_bytes h' i 4 = view_bytes h i 4" by (rule view_bytes_cong) (use assms(2) that in simp)
    then show ?thesis by simp
  qed
  then show ?thesis unfolding next_magic_def
    by (rule find_cong_first [OF assms(1) [unfolded next_magic_def] sorted_upt])
qed

lemma next_magic_agree:
  assumes "\<And>i. p \<le> i \<Longrightarrow> h' i = h i"
  shows "next_magic h' p e = next_magic h p e"
proof -
  have v: "view_bytes h' i 4 = view_bytes h i 4" if "p \<le> i" for i
    by (rule view_bytes_cong, rule assms) (use that in simp)
  have "find (\<lambda>i. view_bytes h' i 4 = to_le_bytes 4 RECORD_MAGIC) [p..<n] = find (\<lambda>i. view_bytes h i 4 = to_le_bytes 4 RECORD_MAGIC) [p..<n]" for n
    by (intro find_cong refl) (simp add: v)
  then show ?thesis by (simp add: next_magic_def)
qed

lemma all_records_agree:
  assumes "\<And>i. p \<le> i \<Longrightarrow> h' i = h i"
  shows "all_records wb checked h' e p = all_records wb checked h e p \<and> lengths_sane wb h' e True p = lengths_sane wb h e True p"
  using assms
proof (induction wb checked h e p rule: all_records.induct)
  case (1 wb checked h e p)
  note unfold = all_records.simps [of wb checked _ e p] lengths_sane.simps [of wb _ e True p]
  note same = record_at_cong [of p wb h' h, OF "1.prems"] next_magic_agree [of "Suc p" h' h e, OF "1.prems"]
  show ?case
  proof (cases "e < p + header_len wb")
    case False
    show ?thesis
    proof (cases "record_at wb h e p")
      case None
      show ?thesis
      proof (cases "next_magic h (p + 1) e")
        case (Some q)
        with "1.IH"(1) [OF False None Some] "1.prems" next_magic_bounds [OF Some] False None show ?thesis
          by (simp add: unfold same)
      qed (use False None in \<open>simp add: unfold same\<close>)
    next
      case (Some header)
      with "1.IH"(2) [OF False Some] "1.prems" False payload_intact_cong [of p wb header h' h] show ?thesis
        by (simp add: unfold same)
    qed
  qed (simp add: unfold)
qed

section \<open>One damaged payload\<close>

text \<open>
  One byte \<open>x\<close> of the payload of the record at \<open>p\<close> has changed, and its checksum has noticed.
\<close>

lemma flipped_walk:
  assumes "\<And>i. i \<noteq> x \<Longrightarrow> h' i = h i" and "p + header_len wb \<le> x" and "x < p + header_len wb + unat (rh_len header)"
    and "\<not> payload_intact wb checked h' p header" and "(p, header) \<in> set (all_records wb checked h e s)"
  shows "all_records wb checked h' e s = filter (\<lambda>r. fst r \<noteq> p) (all_records wb checked h e s) \<and>
    lengths_sane wb h' e True s = lengths_sane wb h e True s"
  using assms
proof (induction wb checked h e s rule: all_records.induct)
  case (1 wb checked h e s)
  note unfold = all_records.simps [of wb checked _ e s] lengths_sane.simps [of wb _ e True s]
  have room: "\<not> e < s + header_len wb" using "1.prems"(5) by (auto simp: unfold)
  have at: "s \<le> p" "header_at wb h p = Some header" "p + header_len wb + unat (rh_len header) \<le> e"
    using all_records_sorted [of wb checked h e s] "1.prems"(5) by auto
  have same: "record_at wb h' e s = record_at wb h e s" "length_sane wb h' s = length_sane wb h s"
    using record_at_cong [of s wb h' h] "1.prems"(1,2) at(1) by simp_all
  show ?case
  proof (cases "record_at wb h e s")
    case None
    then obtain q where q: "next_magic h (s + 1) e = Some q" "(p, header) \<in> set (all_records wb checked h e q)"
      using "1.prems"(5) room by (cases "next_magic h (s + 1) e") (auto simp: unfold)
    then have "q \<le> p" using all_records_sorted [of wb checked h e q] by auto
    then have "q + 4 \<le> x" using "1.prems"(2) by (cases wb) (simp_all add: header_len_def)
    then have "next_magic h' (s + 1) e = Some q" using next_magic_cong [OF q(1), of h'] "1.prems"(1) by simp
    with "1.IH"(1) [OF room None q(1) "1.prems"(1-4) q(2)] q(1) None room show ?thesis by (simp add: unfold same)
  next
    case (Some hd)
    let ?q = "s + (header_len wb + unat (rh_len hd))"
    have later: "\<forall>r \<in> set (all_records wb checked h e ?q). ?q \<le> fst r" using all_records_sorted [of wb checked h e ?q] by auto
    have pos: "s < ?q" by (cases wb) (simp_all add: header_len_def)
    show ?thesis
    proof (cases "s = p")
      case True
      then have hd: "hd = header" using Some at(2) by (auto simp: record_at_def split: option.splits if_splits)
      have tail: "all_records wb checked h' e ?q = all_records wb checked h e ?q \<and>
          lengths_sane wb h' e True ?q = lengths_sane wb h e True ?q"
        by (rule all_records_agree, rule "1.prems"(1)) (use "1.prems"(3) True hd in simp)
      have "filter (\<lambda>r. fst r \<noteq> p) (all_records wb checked h e ?q) = all_records wb checked h e ?q"
      proof (intro filter_True ballI)
        fix r assume "r \<in> set (all_records wb checked h e ?q)"
        with later have "?q \<le> fst r" by blast
        with pos True show "fst r \<noteq> p" by linarith
      qed
      with tail Some hd room "1.prems"(4) show ?thesis unfolding True by (simp add: unfold [unfolded True] same [unfolded True])
    next
      case False
      then have mem: "(p, header) \<in> set (all_records wb checked h e ?q)"
        using "1.prems"(5) Some room by (auto simp: unfold split: if_splits)
      with later have "?q \<le> p" by auto
      then have "payload_intact wb checked h' s hd = payload_intact wb checked h s hd"
        using "1.prems"(1,2) by (intro payload_intact_cong) auto
      with "1.IH"(2) [OF room Some "1.prems"(1-4) mem] Some False room show ?thesis by (simp add: unfold same)
    qed
  qed
qed

lemma flipped_payload:
  assumes "p + header_len wb \<le> x" and "x < p + header_len wb + unat (rh_len header)"
    and "payload_intact wb True h p header" and "b \<noteq> h x"
  shows "\<not> payload_intact wb True (h(x := b)) p header"
proof -
  let ?n = "unat (rh_len header)" and ?o = "p + header_len wb"
  have "view_bytes (h(x := b)) ?o ?n = (view_bytes h ?o ?n)[x - ?o := b]"
    using assms(1,2) by (intro nth_equalityI) (auto simp: nth_list_update)
  moreover have "crc32c ((view_bytes h ?o ?n)[x - ?o := b]) \<noteq> crc32c (view_bytes h ?o ?n)"
    using assms by (intro crc32c_update_differs) auto
  ultimately show ?thesis using assms(3) by (simp add: payload_intact_def)
qed

lemma flip_file:
  assumes "dr_files dir ''data.hs'' = Some f" and "unat offset < length (f_content f)"
  defines "b \<equiv> byte_at (f_content f) (unat offset) XOR 0xFF"
  shows "flip dir offset = Inr (dir_put dir ''data.hs''
      (f\<lparr>f_content := (f_content f)[unat offset := b], f_durable := (f_content f)[unat offset := b]\<rparr>))"
    and "byte_at ((f_content f)[unat offset := b]) = (byte_at (f_content f))(unat offset := b)"
    and "b \<noteq> byte_at (f_content f) (unat offset)"
proof -
  have "take 1 (drop (unat offset) (f_content f)) ! 0 = byte_at (f_content f) (unat offset)"
    using assms(2) by (simp add: byte_at_def)
  then show "flip dir offset = Inr (dir_put dir ''data.hs''
      (f\<lparr>f_content := (f_content f)[unat offset := b], f_durable := (f_content f)[unat offset := b]\<rparr>))"
    using assms(1,2) by (simp add: flip_def read_exact_at_def b_def Let_def)
  show "byte_at ((f_content f)[unat offset := b]) = (byte_at (f_content f))(unat offset := b)"
    using assms(2) by (auto simp: byte_at_def fun_eq_iff)
  show "b \<noteq> byte_at (f_content f) (unat offset)"
    unfolding b_def using xor_cancel_left [of "byte_at (f_content f) (unat offset)" "0xFF" 0] by simp
qed

section \<open>Properties\<close>

text \<open>
  C14: The payload flip of the corruption test costs one record: when a byte in the payload of an intact
  record is flipped, a rebuild that checks checksums finds every other record where it was, and gives
  each identifier the slot of its newest record among them. Nothing but the damaged record is lost, and
  no slot leads to it. As in the rebuild, no bytes pass for a header whose length wraps around.
\<close>

theorem flip_costs_one_record:
  assumes "healthy io" and "dr_files dir ''data.hs'' = Some f"
    and "FileHeader_decode (read_zeros (f_content f) 0 4096) = Some \<lparr>fh_kind = 0x44, fh_layout = layout\<rparr>"
    and "wb \<longleftrightarrow> layout = LAYOUT_BUCKET" and "wb \<longrightarrow> region_slots config \<noteq> 0"
    and "length (f_content f) \<le> OFF_MAX" and "lengths_sane wb (byte_at (f_content f)) (length (f_content f)) True 4096"
    and "records = all_records wb True (byte_at (f_content f)) (length (f_content f)) 4096"
    and "\<forall>(p, header) \<in> set records. unat (rh_id header) < ID_MAX"
    and "(p, header) \<in> set records" and "j < unat (rh_len header)" and "offset = of_nat (p + header_len wb + j)"
  defines "rest \<equiv> filter (\<lambda>r. fst r \<noteq> p) records"
  shows "\<exists>damaged stats io' dir' g. flip dir offset = Inr damaged \<and>
    rebuild sync_block_io order damaged io layout True config = (Inr stats, io', dir') \<and> dr_files dir' ''index.hs'' = Some g \<and>
    (\<forall>rid. (\<exists>r. newest_of rest rid r \<and> ix_slot \<lparr>ix_paged_file = PagedFile_handle g\<rparr> rid =
        Live \<lparr>sl_offset = of_nat (fst r), sl_total_len = of_nat (header_len wb) + rh_len (snd r)\<rparr>) \<or>
      (\<forall>r \<in> set rest. rh_id (snd r) \<noteq> rid) \<and> ix_slot \<lparr>ix_paged_file = PagedFile_handle g\<rparr> rid = Empty)"
proof -
  let ?h = "byte_at (f_content f)" and ?x = "p + header_len wb + j"
  have p: "4096 \<le> p" "p + header_len wb + unat (rh_len header) \<le> length (f_content f)" "payload_intact wb True ?h p header"
    using all_records_sorted [of wb True ?h "length (f_content f)" 4096] assms(8,10) by auto
  have in_file: "?x < length (f_content f)" using p(2) assms(11) by simp
  have "unat (of_nat ?x :: u64) = ?x" by (rule unat_of_nat_nowrap) (use in_file assms(6) in simp)
  then have x: "unat offset = ?x" "unat offset < length (f_content f)" using in_file by (simp_all only: assms(12))
  define b where "b = ?h (unat offset) XOR 0xFF"
  define f' where "f' = f\<lparr>f_content := (f_content f)[unat offset := b], f_durable := (f_content f)[unat offset := b]\<rparr>"
  note ff = flip_file [OF assms(2) x(2), folded b_def, folded f'_def]
  have h': "byte_at (f_content f') = ?h(?x := b)" "length (f_content f') = length (f_content f)"
    using ff(2) x(1) by (simp_all add: f'_def)
  have bad: "\<not> payload_intact wb True (?h(?x := b)) p header"
    using flipped_payload [of p wb ?x header ?h b] p(3) assms(11) ff(3) x(1) by simp
  have walk: "all_records wb True (byte_at (f_content f')) (length (f_content f')) 4096 = rest"
      "lengths_sane wb (byte_at (f_content f')) (length (f_content f')) True 4096"
    using flipped_walk [of ?x "?h(?x := b)" ?h p wb header True "length (f_content f)" 4096] bad assms(7,8,10,11)
    unfolding h' rest_def by auto
  have head: "read_zeros (f_content f') 0 4096 = read_zeros (f_content f) 0 4096"
    using p(1) by (simp add: read_zeros_def h'(1))
  let ?damaged = "dir_put dir ''data.hs'' f'"
  have data: "dr_files ?damaged ''data.hs'' = Some f'" by (simp add: dir_put_def)
  have ids: "\<forall>(p, header) \<in> set rest. unat (rh_id header) < ID_MAX" using assms(9) by (auto simp: rest_def)
  have "\<exists>stats io' dir' g. rebuild sync_block_io order ?damaged io layout True config = (Inr stats, io', dir') \<and> healthy io' \<and>
    dr_files dir' ''data.hs'' = Some f' \<and> dr_files dir' ''index.hs'' = Some g \<and> f_durable g = f_content g \<and>
    (\<forall>rid. (\<exists>r. newest_of rest rid r \<and> ix_slot \<lparr>ix_paged_file = PagedFile_handle g\<rparr> rid =
        Live \<lparr>sl_offset = of_nat (fst r), sl_total_len = of_nat (header_len wb) + rh_len (snd r)\<rparr>) \<or>
      (\<forall>r \<in> set rest. rh_id (snd r) \<noteq> rid) \<and> ix_slot \<lparr>ix_paged_file = PagedFile_handle g\<rparr> rid = Empty)"
    by (rule blocking.rebuild_ok [OF assms(1) data _ assms(4,5) _ walk(2) walk(1) [symmetric] ids])
      (use head assms(3,6) h'(2) in simp_all)
  with ff(1) show ?thesis by blast
qed

theorem flip_costs_one_record_witness:
  "\<exists>damaged stats io' dir' g. flip \<lparr>dr_files = [''data.hs'' \<mapsto> example_versions], dr_capacity = 1048576\<rparr> 4159 = Inr damaged \<and>
     rebuild sync_block_io id damaged SyncIo_new LAYOUT_APPEND True HeapConfig_default = (Inr stats, io', dir') \<and>
     dr_files dir' ''index.hs'' = Some g \<and>
     ix_slot \<lparr>ix_paged_file = PagedFile_handle g\<rparr> 9 = Live \<lparr>sl_offset = 4096, sl_total_len = 33\<rparr>"
proof -
  let ?dir = "\<lparr>dr_files = [''data.hs'' \<mapsto> example_versions], dr_capacity = 1048576\<rparr>" and ?h = "byte_at (f_content example_versions)"
  let ?h1 = "stored_header False True 0 9 1 [1, 2, 3]" and ?h2 = "stored_header False True 0 9 2 [4]"
  have a: "all_records False True ?h 4160 4096 = [(4096, ?h1), (4129, ?h2)]" "lengths_sane False ?h 4160 True 4096"
    using all_records_log [OF example_versions_log(1), of 4160] by (simp_all add: header_len_def)
  have ids: "rh_id ?h1 = 9" "rh_id ?h2 = 9" "rh_len ?h1 = 3" "rh_len ?h2 = 1"
    by (simp_all add: stored_header_def record_header_def)
  have rest: "filter (\<lambda>r. fst r \<noteq> (4129 :: nat)) [(4096, ?h1), (4129, ?h2)] = [(4096, ?h1)]" by simp
  obtain damaged stats io' dir' g where r: "flip ?dir 4159 = Inr damaged"
      "rebuild sync_block_io id damaged SyncIo_new LAYOUT_APPEND True HeapConfig_default = (Inr stats, io', dir')"
      "dr_files dir' ''index.hs'' = Some g"
    and slots: "\<And>rid. (\<exists>r. newest_of [(4096, ?h1)] rid r \<and> ix_slot \<lparr>ix_paged_file = PagedFile_handle g\<rparr> rid =
        Live \<lparr>sl_offset = of_nat (fst r), sl_total_len = of_nat (header_len False) + rh_len (snd r)\<rparr>) \<or>
      (\<forall>r \<in> set [(4096, ?h1)]. rh_id (snd r) \<noteq> rid) \<and> ix_slot \<lparr>ix_paged_file = PagedFile_handle g\<rparr> rid = Empty"
    using flip_costs_one_record [OF SyncIo_new_healthy, of ?dir example_versions LAYOUT_APPEND False HeapConfig_default
        "[(4096, ?h1), (4129, ?h2)]" 4129 ?h2 0 4159 id, unfolded rest]
    by (auto simp: example_versions_log a ids header_len_def LAYOUT_APPEND_def LAYOUT_BUCKET_def)
  from slots [of 9] have "ix_slot \<lparr>ix_paged_file = PagedFile_handle g\<rparr> 9 = Live \<lparr>sl_offset = 4096, sl_total_len = 33\<rparr>"
    by (auto simp: ids header_len_def newest_of_def)
  with r show ?thesis by blast
qed

end
