(* ===== verification/Lost_Index.thy ===== *)
theory Lost_Index
  imports Heap_Log Damage
begin

text \<open>
  Opening an append heap whose index file is gone, which is the scenario \<open>drop-index\<close> of
  \<open>src/src/bin/crash.rs\<close>: the index is made again from the data file. Shown: the heap holds what it held.
\<close>

section \<open>The newest records of a log\<close>

lemma log_visits_snoc:
  "log_visits wb checked p (log @ [(bucket, rid, version, payload)]) =
     log_visits wb checked p log @ [(log_end wb p log, stored_header wb checked bucket rid version payload)]"
  by (induction wb checked p log rule: log_visits.induct) simp_all

lemma log_visits_before: "r \<in> set (log_visits wb checked p log) \<Longrightarrow> fst r < log_end wb p log"
proof (induction wb checked p log rule: log_visits.induct)
  case (2 wb checked p bucket rid version payload log)
  have "p < p + (header_len wb + length payload)" by (cases wb) (simp_all add: header_len_def)
  with log_end_ge [of "p + (header_len wb + length payload)" wb log] have "p < log_end wb (p + (header_len wb + length payload)) log" by linarith
  with 2 show ?case by auto
qed simp

lemma stored_header_fields [simp]:
  "rh_id (stored_header wb checked bucket rid version payload) = rid"
  "rh_version (stored_header wb checked bucket rid version payload) = version"
  "rh_len (stored_header wb checked bucket rid version payload) = of_nat (length payload)"
  by (simp_all add: stored_header_def record_header_def)

definition slot_of_visit :: "bool \<Rightarrow> nat \<times> RecordHeader \<Rightarrow> Slot" where
  "slot_of_visit wb r = \<lparr>sl_offset = of_nat (fst r), sl_total_len = of_nat (header_len wb) + rh_len (snd r)\<rparr>"

text \<open>Where versions increase, the slots of a log are those of its newest records.\<close>

lemma log_newest:
  assumes "log_ok Map.empty 0 log"
  shows "(case log_vers Map.empty log rid of
      None \<Rightarrow> log_slots wb p log (\<lambda>_. Empty) rid = Empty \<and> (\<forall>r \<in> set (log_visits wb checked p log). rh_id (snd r) \<noteq> rid)
    | Some v \<Rightarrow> unat rid < log_next 0 log \<and> (\<exists>r. newest_of (log_visits wb checked p log) rid r \<and> rh_version (snd r) = v \<and>
        log_slots wb p log (\<lambda>_. Empty) rid = Live (slot_of_visit wb r)))"
  using assms
proof (induction log arbitrary: rid rule: rev_induct)
  case (snoc e log)
  obtain bucket i version payload where e: "e = (bucket, i, version, payload)" by (cases e)
  let ?visits = "log_visits wb checked p log" and ?r = "(log_end wb p log, stored_header wb checked bucket i version payload)"
  note prem = snoc.prems [unfolded e log_ok_snoc]
  note ok = conjunct1 [OF prem] and new = conjunct2 [OF prem]
  note IH = snoc.IH [OF ok]
  note snoc_eqs = log_snoc log_visits_snoc
  show ?case
  proof (cases "rid = i")
    case False
    have "newest_of (?visits @ [?r]) rid r = newest_of ?visits rid r" for r using False by (auto simp: newest_of_def)
    with IH [of rid] False show ?thesis by (auto simp: e snoc_eqs split: option.splits)
  next
    case True
    have before: "fst q < fst ?r" if "q \<in> set ?visits" for q using log_visits_before that by simp
    have older: "rh_version (snd q) < version" if q: "q \<in> set ?visits" "rh_id (snd q) = i" for q
    proof -
      have "log_vers Map.empty log i \<noteq> None" using IH [of i] q by (auto split: option.splits)
      then obtain v r where v: "log_vers Map.empty log i = Some v" "newest_of ?visits i r" "rh_version (snd r) = v" "unat i < log_next 0 log"
        using IH [of i] by (auto split: option.splits)
      then have "rh_version (snd q) \<le> v" using q by (auto simp: newest_of_def)
      with new v show ?thesis by auto
    qed
    have "newest_of (?visits @ [?r]) i ?r"
      using before older by (fastforce simp: newest_of_def)
    then have "\<exists>r. newest_of (?visits @ [?r]) i r \<and> rh_version (snd r) = version \<and>
        Live (entry_slot (log_end wb p log) wb payload) = Live (slot_of_visit wb r)"
      by (intro exI [of _ ?r]) (simp add: entry_slot_def slot_of_visit_def)
    moreover have "unat i < log_next 0 (log @ [e])" using new by (auto simp: e snoc_eqs split: if_splits)
    ultimately show ?thesis using True by (simp add: e snoc_eqs)
  qed
qed simp

lemma newest_of_unique:
  assumes "newest_of records rid r" and "newest_of records rid q" and "sorted_wrt (\<lambda>a b. fst a < fst b) records"
  shows "q = r"
proof -
  have "fst q = fst r" "q \<in> set records" "r \<in> set records" using assms(1,2) by (fastforce simp: newest_of_def)+
  moreover have "distinct (map fst records)"
    using assms(3) strict_sorted_iff [of "map fst records"] by (simp add: sorted_wrt_map)
  ultimately show ?thesis by (metis distinct_map inj_onD)
qed

section \<open>A log and zeros\<close>

lemma no_magic_in_zeros:
  assumes "\<forall>i \<ge> p. h i = 0"
  shows "next_magic h p e = None"
proof -
  have "view_bytes h i 4 \<noteq> to_le_bytes 4 RECORD_MAGIC" if "p \<le> i" for i
  proof
    assume "view_bytes h i 4 = to_le_bytes 4 RECORD_MAGIC"
    moreover have "view_bytes h i 4 = replicate 4 0"
      by (rule nth_equalityI) (use assms that in \<open>auto simp: view_bytes_def\<close>)
    moreover have "from_le_bytes (to_le_bytes 4 RECORD_MAGIC) = RECORD_MAGIC" by simp
    ultimately have "from_le_bytes (replicate 4 (0 :: u8)) = RECORD_MAGIC" by simp
    moreover have "from_le_bytes (replicate n 0) = (0 :: u32)" for n by (induction n) simp_all
    ultimately show False by (simp add: RECORD_MAGIC_def)
  qed
  then show ?thesis by (auto simp: next_magic_def find_None_iff)
qed

lemma all_records_log_zeros:
  assumes "log_at wb checked h p log" and "log_end wb p log \<le> e" and "e \<le> OFF_MAX" and "\<forall>i \<ge> log_end wb p log. h i = 0"
  shows "all_records wb checked h e p = log_visits wb checked p log \<and> lengths_sane wb h e True p"
  using assms
proof (induction wb checked h p log rule: log_at.induct)
  case (1 wb checked h p)
  then have z: "\<forall>i \<ge> p. h i = 0" by simp
  have n: "next_magic h (Suc p) e = None" by (rule no_magic_in_zeros) (use z in simp)
  show ?case
    using no_header_in_zeros [OF z, of wb] n
    by (simp add: all_records.simps [of wb checked h e p] lengths_sane.simps [of wb h e True p] record_at_def length_sane_def)
next
  case (2 wb checked h p bucket rid version payload log)
  let ?q = "p + (header_len wb + length payload)"
  have q: "?q \<le> e" using "2.prems"(2) log_end_ge [of ?q wb log] by simp
  have "holds_at h p (record_bytes wb checked bucket rid version payload)" using "2.prems"(1) by simp
  note rec = record_at_holds [OF this q "2.prems"(3)]
  have "length_sane wb h p"
    using rec(1,3) q "2.prems"(3) by (auto simp: length_sane_def record_at_def split: option.splits if_splits)
  then show ?case
    using "2.prems" "2.IH" q rec by (simp add: all_records.simps [of wb checked h e p] lengths_sane.simps [of wb h e True p])
qed

section \<open>The rebuilt index is an index\<close>

lemma settled_handle_fine:
  assumes "pf_fine hdr lim B pf" and "staged_writes pf = []"
  shows "pf_fine hdr lim B (PagedFile_handle (pf_file pf))"
proof -
  have "pf_view (PagedFile_handle (pf_file pf)) = pf_view pf" by (simp add: pf_view_Nil [OF assms(2)] pf_view_handle)
  then show ?thesis
    using assms by (simp add: pf_fine_def pf_whole_def Let_def pf_header_def pf_ok_handle handle_fields)
qed

context block_io
begin

lemma rebuild_slots_fine:
  assumes "rebuild_slots D latest rids io ix = (Inr u, io', ix')" and "pf_fine hdr lim OFF_MAX (ix_paged_file ix)"
    and "\<forall>rid \<in> set rids. unat rid < ID_MAX"
  shows "pf_fine hdr lim OFF_MAX (ix_paged_file ix')"
  using assms
proof (induction rids arbitrary: io ix)
  case (Cons rid rids)
  obtain slot io1 ix1 io2 pf2 where s: "IndexFile_stage_slot D io ix rid (Some slot) = (Inr (), io1, ix1)"
      "flush_if (4194304 < pending_bytes (ix_paged_file ix1)) D io1 (ix_paged_file ix1) = (Inr (), io2, pf2)"
      "rebuild_slots D latest rids io2 (ix1\<lparr>ix_paged_file := pf2\<rparr>) = (Inr u, io', ix')"
    using Cons.prems(1) by (auto split: prod.splits sum.splits)
  have "pf_fine hdr lim OFF_MAX (ix_paged_file ix1)" by (rule stage_slot_fine [OF s(1) Cons.prems(2)]) (use Cons.prems(3) in simp)
  from flush_if_fine [OF s(2) this] have "pf_fine hdr lim OFF_MAX (ix_paged_file (ix1\<lparr>ix_paged_file := pf2\<rparr>))" by simp
  from Cons.IH [OF s(3) this] Cons.prems(3) show ?case by simp
qed simp

lemma rebuild_index_fine:
  assumes "rebuild_index D dir layout latest io = (Inr u, io', dir')" and "steady io" and "\<forall>l \<in> set latest. unat (fst l) < ID_MAX"
    and "dr_files dir' ''index.hs'' = Some g"
  shows "pf_fine \<lparr>fh_kind = 0x49, fh_layout = layout\<rparr> (f_limit g) OFF_MAX (PagedFile_handle g)"
proof -
  let ?hdr = "\<lparr>fh_kind = 0x49, fh_layout = layout\<rparr>"
  obtain pf io1 dir1 lim where c: "create_in D dir ''index.hs'' 0x49 layout io = (Inr pf, io1, dir1)" "pf_fine ?hdr lim OFF_MAX pf"
    by (rule create_in_fine [OF assms(2), of OFF_MAX dir "''index.hs''" "0x49" layout]) (simp_all add: that)
  obtain io2 ix where s: "rebuild_slots D latest (sort (map fst latest)) io1 \<lparr>ix_paged_file = pf\<rparr> = (Inr (), io2, ix)"
    using assms(1) c(1) by (auto simp: rebuild_index_def split: prod.splits sum.splits)
  have f: "pf_fine ?hdr lim OFF_MAX (ix_paged_file ix)"
    by (rule rebuild_slots_fine [OF s]) (use c(2) assms(3) in auto)
  obtain io3 pf3 f3 where fl: "PagedFile_flush D io2 (ix_paged_file ix) = (Inr (), io3, pf3)"
      "sync D io3 (pf_file pf3) = (Inr u, io', f3)" "dir' = dir_put dir1 ''index.hs'' f3"
    using assms(1) c(1) s by (auto simp: rebuild_index_def flush_and_sync_def split: prod.splits sum.splits)
  have settled: "staged_writes pf3 = []" using flush_Inr [OF fl(1) pf_fineD(1) [OF f]] by (simp add: pf_settled_def)
  have fine: "pf_fine ?hdr lim OFF_MAX (pf3\<lparr>pf_file := f3\<rparr>)" by (rule sync_fine [OF fl(2) flush_fine [OF fl(1) f]])
  have "g = f3" using assms(4) fl(3) by (simp add: dir_put_def)
  have "pf_fine ?hdr lim OFF_MAX (PagedFile_handle f3)" using settled_handle_fine [OF fine] settled by simp
  with pf_fine_handle(2) [OF this] \<open>g = f3\<close> show ?thesis by simp
qed

text \<open>What a rebuild that succeeds makes of the records, with the index as opening expects it.\<close>

lemma rebuild_append_fine:
  assumes st: "steady io" and data: "dr_files dir ''data.hs'' = Some f"
    and header: "FileHeader_decode (read_zeros (f_content f) 0 4096) = Some data_head"
    and len: "length (f_content f) \<le> OFF_MAX" and sane: "lengths_sane False (byte_at (f_content f)) (length (f_content f)) True 4096"
    and records: "records = all_records False checked (byte_at (f_content f)) (length (f_content f)) 4096"
    and ids: "\<forall>(p, header) \<in> set records. unat (rh_id header) < ID_MAX"
  shows "\<exists>stats io' dir' g. rebuild D order dir io LAYOUT_APPEND checked config = (Inr stats, io', dir') \<and> steady io' \<and>
    dr_files dir' ''data.hs'' = Some f \<and> dr_files dir' ''index.hs'' = Some g \<and>
    pf_fine index_head (f_limit g) OFF_MAX (PagedFile_handle g) \<and>
    (\<forall>rid. (\<exists>r. newest_of records rid r \<and> ix_slot (index_handle g) rid = Live (slot_of_visit False r)) \<or>
      (\<forall>r \<in> set records. rh_id (snd r) \<noteq> rid) \<and> ix_slot (index_handle g) rid = Empty)"
proof -
  have "\<exists>stats io' dir' g. rebuild D order dir io LAYOUT_APPEND checked config = (Inr stats, io', dir') \<and> steady io' \<and>
    dr_files dir' ''data.hs'' = Some f \<and> dr_files dir' ''index.hs'' = Some g \<and> f_durable g = f_content g \<and>
    (\<exists>dir0 latest io0 io1 dir1. rebuild_index D dir0 LAYOUT_APPEND latest io0 = (Inr (), io1, dir1) \<and> steady io0 \<and>
      (\<forall>l \<in> set latest. unat (fst l) < ID_MAX) \<and> dr_files dir1 ''index.hs'' = Some g) \<and>
    (\<forall>rid. (\<exists>r. newest_of records rid r \<and> ix_slot (index_handle g) rid =
        Live \<lparr>sl_offset = of_nat (fst r), sl_total_len = of_nat (header_len False) + rh_len (snd r)\<rparr>) \<or>
      (\<forall>r \<in> set records. rh_id (snd r) \<noteq> rid) \<and> ix_slot (index_handle g) rid = Empty)"
    by (rule rebuild_written [OF st data header _ _ len sane records ids]) (simp_all add: LAYOUT_APPEND_def LAYOUT_BUCKET_def)
  then show ?thesis unfolding slot_of_visit_def by (meson rebuild_index_fine)
qed

end

section \<open>Opening without an index\<close>

context block_io
begin

lemma rebuilt_log:
  assumes data: "dr_files dir ''data.hs'' = Some f" and fine: "pf_fine data_head lim lim (PagedFile_handle f)" and st: "steady io"
    and log: "log_ok Map.empty 0 log" "log_at False checked (byte_at (f_content f)) 4096 log"
    and past: "log_end False 4096 log \<le> length (f_content f)" "\<forall>i \<ge> log_end False 4096 log. byte_at (f_content f) i = 0"
  shows "\<exists>stats io' dir' g. rebuild D order dir io LAYOUT_APPEND checked config = (Inr stats, io', dir') \<and> steady io' \<and>
    dr_files dir' ''data.hs'' = Some f \<and> dr_files dir' ''index.hs'' = Some g \<and>
    pf_fine index_head (f_limit g) OFF_MAX (PagedFile_handle g) \<and>
    ix_slot (index_handle g) = log_slots False 4096 log (\<lambda>_. Empty)"
proof -
  let ?h = "byte_at (f_content f)" and ?visits = "log_visits False checked 4096 log"
  note ff = pf_fine_handle [OF fine]
  have len: "length (f_content f) \<le> OFF_MAX" using ff(5,6) by linarith
  note rec = all_records_log_zeros [OF log(2) past(1) len past(2)]
  have bound: "unat (rh_id (snd r)) < ID_MAX" if "r \<in> set ?visits" for r
    using log_newest [OF log(1), where rid = "rh_id (snd r)" and wb = False and p = 4096 and checked = checked] that log_next_bounds [OF log(1)] by (auto split: option.splits)
  then have ids: "\<forall>(p, header) \<in> set ?visits. unat (rh_id header) < ID_MAX" by fastforce
  obtain stats io' dir' g where r: "rebuild D order dir io LAYOUT_APPEND checked config = (Inr stats, io', dir')" "steady io'"
      "dr_files dir' ''data.hs'' = Some f" "dr_files dir' ''index.hs'' = Some g"
      "pf_fine index_head (f_limit g) OFF_MAX (PagedFile_handle g)"
    and slots: "\<And>rid. (\<exists>r. newest_of ?visits rid r \<and> ix_slot (index_handle g) rid = Live (slot_of_visit False r)) \<or>
      (\<forall>r \<in> set ?visits. rh_id (snd r) \<noteq> rid) \<and> ix_slot (index_handle g) rid = Empty"
    using rebuild_append_fine [OF st data ff(1) len conjunct2 [OF rec] conjunct1 [OF rec, symmetric] ids, of order config] by blast
  have sorted: "sorted_wrt (\<lambda>a b. fst a < fst b) ?visits"
    using all_records_sorted [of False checked ?h "length (f_content f)" 4096] rec by simp
  have "ix_slot (index_handle g) rid = log_slots False 4096 log (\<lambda>_. Empty) rid" for rid
  proof (cases "log_vers Map.empty log rid")
    case None
    with log_newest [OF log(1), where rid = rid and wb = False and p = 4096 and checked = checked] have "\<forall>r \<in> set ?visits. rh_id (snd r) \<noteq> rid"
      "log_slots False 4096 log (\<lambda>_. Empty) rid = Empty" by simp_all
    with slots [of rid] show ?thesis by (metis newest_of_def)
  next
    case (Some v)
    with log_newest [OF log(1), where rid = rid and wb = False and p = 4096 and checked = checked] obtain r where
      r: "newest_of ?visits rid r" "log_slots False 4096 log (\<lambda>_. Empty) rid = Live (slot_of_visit False r)" by auto
    have "r \<in> set ?visits \<and> rh_id (snd r) = rid" using r(1) by (simp add: newest_of_def)
    then obtain q where q: "newest_of ?visits rid q" "ix_slot (index_handle g) rid = Live (slot_of_visit False q)" using slots [of rid] by blast
    from newest_of_unique [OF r(1) q(1) sorted] q(2) r(2) show ?thesis by simp
  qed
  with r show ?thesis by blast
qed

text \<open>A log from the first page on gives an index, a table of intact records, and a map.\<close>

lemma log_from_start:
  assumes log: "log_ok Map.empty 0 log" "log_at False (df_integrity df) (df_view df) 4096 log" "log_end False 4096 log \<le> OFF_MAX"
    and wb: "\<not> df_with_bucket df"
  defines "st \<equiv> log_slots False 4096 log (\<lambda>_. Empty)"
  shows "index_upto st (log_next 0 log) (log_end False 4096 log)" "slots_ok df st (log_end False 4096 log)"
    "slots_map df st = written Map.empty (map entry_write log)"
proof -
  have "index_upto (\<lambda>_. Empty) 0 4096" by (simp add: index_upto_def slot_of_def)
  from log_index_upto [OF log(1) this log(3)] show "index_upto st (log_next 0 log) (log_end False 4096 log)" by (simp add: st_def)
  have "slots_ok df (\<lambda>_. Empty) 4096" by (simp add: slots_ok_def)
  note m = log_slots_map [OF log(2) order_refl log(3) wb this]
  then show "slots_ok df st (log_end False 4096 log)" by (simp add: st_def)
  have "slots_map df (\<lambda>_. Empty) = Map.empty" by (simp add: slots_map_def fun_eq_iff)
  with m show "slots_map df st = written Map.empty (map entry_write log)" by (simp add: st_def log_map_written)
qed

lemma lost_index_reopens:
  assumes tidy: "append_tidy h" and snd: "sound ok lim ilim h" and config: "fits_config h config" and st: "steady io" and order: "order_ok order"
    and data: "f_durable (pf_file (df_paged_file (h_data h))) = f_content (pf_file (df_paged_file (h_data h)))" "staged_writes (df_paged_file (h_data h)) = []"
    and index: "f_durable (pf_file (ix_paged_file (h_index h))) = f_content (pf_file (ix_paged_file (h_index h)))" "staged_writes (ix_paged_file (h_index h)) = []"
    and log: "log_ok Map.empty 0 log" "log_at False (integrity config) (df_view (h_data h)) 4096 log"
      "log_end False 4096 log = unat (ap_cursor (h_placement h))"
    and dir: "dr_files dir ''data.hs'' = Some (pf_file (df_paged_file (h_data h)))" "dr_files dir ''index.hs'' = None"
  shows "\<exists>h2 report io' dir'. Heap_open D append_open_placement order name dir io config = (Inr (h2, report), io', dir') \<and>
    lasting steady h2 \<and> rp_rebuilt report \<and> heap_map h2 = written Map.empty (map entry_write log) \<and> h_config h2 = config"
proof -
  let ?f = "pf_file (df_paged_file (h_data h))" and ?E = "unat (ap_cursor (h_placement h))"
  let ?df = "data_handle config ?f" and ?st = "log_slots False 4096 log (\<lambda>_. Empty)" and ?N = "log_next 0 log"
  note fo = flushed_found [OF tidy snd data index, of 0]
  note ff = found_files [OF tidy snd config fo]
  have fine: "pf_fine data_head (f_limit ?f) (f_limit ?f) (PagedFile_handle ?f)" and growth_ok: "unat (growth config) \<le> OFF_MAX"
    and view: "df_view ?df = df_view (h_data h)" and E: "?E \<le> length (f_content ?f)"
    using ff(1,4) fo by (auto simp: append_files_def found_def pf_view_handle)
  have zeros: "\<forall>i \<ge> ?E. byte_at (f_content ?f) i = 0" using append_tidyD(3) [OF tidy] ff(4) by simp
  obtain stats io1 dir1 g where r: "rebuild D order dir io LAYOUT_APPEND (integrity config) config = (Inr stats, io1, dir1)" "steady io1"
      "dr_files dir1 ''data.hs'' = Some ?f" "dr_files dir1 ''index.hs'' = Some g" "pf_fine index_head (f_limit g) OFF_MAX (PagedFile_handle g)"
      "ix_slot (index_handle g) = ?st"
    using rebuilt_log [OF dir(1) fine st log(1), of "integrity config" order config] log(2,3) E zeros ff(4) by auto
  have at: "log_at False (df_integrity ?df) (df_view ?df) 4096 log" using log(2) view by simp
  have "?E \<le> OFF_MAX" using append_tidyD(2) [OF tidy] by (simp add: index_upto_def)
  then have past: "log_end False 4096 log \<le> OFF_MAX" using log(3) by simp
  have wb: "\<not> df_with_bucket ?df" by simp
  note L = log_from_start [OF log(1) at past wb, unfolded log(3)]
  note len = pf_fine_handle [OF fine]
  have size: "unat (PagedFile_size (PagedFile_handle ?f)) = length (f_content ?f)"
    using len(5,6) by (simp add: PagedFile_size_def file_len_def handle_fields unat_of_nat_nowrap)
  have z: "\<forall>i \<ge> ?E. df_view ?df i = 0" using zeros by (simp add: pf_view_handle)
  have "append_tail ?df (ix_slot (index_handle g)) Map.empty ?N ?E []"
    using no_log_in_zeros [OF z] size len(5,6) E L(1) r(6) by (simp add: append_tail_def Let_def index_upto_def)
  then have files: "append_files dir1 config ?f g Map.empty ?N ?E []"
    using r(3-6) fine L(2) growth_ok by (simp add: append_files_def)
  obtain io2 where o2: "open_in D dir1 ''data.hs'' 0x44 LAYOUT_APPEND io1 = (Inr (PagedFile_handle ?f), io2)" "steady io2"
    using open_in_ok [OF r(2,3)] pf_fine_handle(1) [OF fine] by blast
  obtain io3 where o3: "open_in D dir1 ''index.hs'' 0x49 LAYOUT_APPEND io2 = (Inr (PagedFile_handle g), io3)" "steady io3"
    using open_in_ok [OF o2(2) r(4)] pf_fine_handle(1) [OF r(5)] by blast
  have fs: "Heap_files D append_open_placement order config False io dir = (Inr ((PagedFile_handle ?f, PagedFile_handle g, None),
      RecoveryReport_default\<lparr>rp_rebuilt := True, rp_rebuild := stats\<rparr>), io3, dir1)"
    using r(1) o2(1) o3(1) dir(2)
    by (simp add: Heap_files_def Heap_metadata_broken_def metadata_is_broken_def Heap_rebuild_def Heap_open_files_def append_open_placement_simps)
  obtain s io4 df' ix' h2 where op: "AppendPlacement_open D order io3 config ?df (index_handle g) None False = (Inr s, io4, df', ix', None)"
      "\<And>report. Heap_opened name config report s io4 df' ix' None = (h2, report\<lparr>rp_restored_slots := os_restored (snd s)\<rparr>)"
    and h2: "h_config h2 = config" "sound steady (f_limit ?f) (f_limit g) h2" "heap_ok append_good append_owned append_taken h2"
      "index_upto (ix_slot (h_index h2)) (unat (ap_next_id (h_placement h2))) (unat (ap_cursor (h_placement h2)))"
      "unat (ap_cursor (h_placement h2)) = ?E" "df_view (h_data h2) = byte_at (f_content ?f)" "\<not> df_with_bucket (h_data h2)"
      "df_integrity (h_data h2) = integrity config" "heap_map h2 = slots_map ?df (ix_slot (index_handle g))"
    using append_files_open [OF files o3(2) order, of name] by auto
  have "Heap_open D append_open_placement order name dir io config =
      (Inr (h2, RecoveryReport_default\<lparr>rp_rebuilt := True, rp_rebuild := stats\<rparr>\<lparr>rp_restored_slots := os_restored (snd s)\<rparr>), io4, dir_files dir1 df' ix' None)"
    using fs op dir by (simp add: Heap_open_def append_open_placement_simps)
  moreover have "append_tidy h2" using h2 zeros by (simp add: append_tidy_def)
  ultimately show ?thesis using h2(1,2,9) r(6) L(3) by (auto simp: lasting_def)
qed

text \<open>A run on a new heap leaves a log from the first page on.\<close>

lemma run_is_log:
  assumes tidy: "append_tidy h0" "sound steady lim ilim h0" and start: "h_placement h0 = \<lparr>ap_cursor = PAGE_SIZE_U64, ap_next_id = 0\<rparr>"
    and run: "heap_run D append_placement append_sane h0 tr h" and bound: "updates tr \<le> 65534"
  obtains log where "append_tidy h" "sound steady lim ilim h" "log_ok Map.empty 0 log"
    "log_at False (df_integrity (h_data h)) (df_view (h_data h)) 4096 log" "log_end False 4096 log = unat (ap_cursor (h_placement h))"
    "map entry_write log = trace_writes tr"
    "\<And>rid. if (Delete rid, Done) \<in> set tr then heap_map h rid = None \<and> written Map.empty (trace_writes tr) rid \<noteq> None
      else written Map.empty (trace_writes tr) rid = heap_map h rid"
proof -
  have empty: "ix_slot (h_index h0) = (\<lambda>_. Empty)"
    using append_tidyD(2) [OF tidy(1)] start by (auto simp: index_upto_def)
  then have "versions_upto 0 Map.empty (h_data h0) (ix_slot (h_index h0))" by (simp add: versions_upto_def)
  from logged_start [OF tidy(1) this] have l0: "logged h0 Map.empty 0 [] [] h0" .
  obtain log where t: "append_tidy h" "sound steady lim ilim h" and l: "logged h0 Map.empty 0 tr log h"
    using run_logged [OF run tidy l0] bound by auto
  note L = loggedD [OF l, unfolded empty]
  let ?st = "log_slots False 4096 log (\<lambda>_. Empty)"
  have at: "log_at False (df_integrity (h_data h)) (df_view (h_data h)) 4096 log" and log_end: "log_end False 4096 log = unat (ap_cursor (h_placement h))"
    using L(5,6) start by (simp_all add: PAGE_SIZE_U64_eq)
  have "log_ok Map.empty 0 log" using L(3) start by simp
  moreover have "log_end False 4096 log \<le> OFF_MAX" using append_tidyD(2) [OF t(1)] log_end by (simp add: index_upto_def)
  ultimately have map: "slots_map (h_data h) ?st = written Map.empty (trace_writes tr)"
    using log_from_start(3) [OF _ at] append_tidyD(4) [OF t(1)] L(11) by simp
  have "if (Delete rid, Done) \<in> set tr then heap_map h rid = None \<and> written Map.empty (trace_writes tr) rid \<noteq> None
      else written Map.empty (trace_writes tr) rid = heap_map h rid" for rid
    using L(8,9) [of rid] start unfolding map [symmetric] by (auto simp: PAGE_SIZE_U64_eq slots_map_def heap_map_def)
  with that t L(3,11) start at log_end show thesis by simp
qed

end

section \<open>Properties\<close>

text \<open>
  C8: An append heap is created on a device that does not fail, used in any way (insertions, updates, deletions,
  reads, flushes), flushed, and its index file is removed. It then opens by a rebuild and holds the newest
  payload of every identifier that was ever inserted: every record that was not deleted is what it was, in
  spite of older versions that are still in the data file, and every record that was deleted is back, since
  a deletion leaves no trace in the data file. Fewer than 65535 updates keep the record versions from
  wrapping.
\<close>

theorem lost_index_is_rebuilt:
  assumes "healthy io" and "dr_files dir ''data.hs'' = None"
    and "unat (initial_size config) + unat (growth config) + 8192 \<le> dr_capacity dir" and "dr_capacity dir \<le> OFF_MAX"
    and "Heap_open sync_block_io append_open_placement order name dir io config = (Inr (h0, report0), io0, dir0)"
    and "heap_run sync_block_io append_placement append_sane h0 tr h"
    and "updates tr \<le> 65534" and "Heap_flush sync_block_io h = (Inr (), h1)" and "fits_config h1 config'"
    and "healthy io'" and "order_ok order"
  shows "\<exists>h2 report io2 dir2. Heap_open sync_block_io append_open_placement order name
      (remove_file (crash_dir h1 capacity) ''index.hs'') io' config' = (Inr (h2, report), io2, dir2) \<and>
    rp_rebuilt report \<and> lasting healthy h2 \<and> heap_map h2 = written Map.empty (trace_writes tr) \<and>
    (\<forall>rid. if (Delete rid, Done) \<in> set tr then heap_map h rid = None \<and> heap_map h2 rid \<noteq> None else heap_map h2 rid = heap_map h rid)"
proof -
  from blocking.create_heap [OF assms(1-4), of order name] assms(5) have h0: "lasting healthy h0"
      "h_placement h0 = \<lparr>ap_cursor = PAGE_SIZE_U64, ap_next_id = 0\<rparr>" by auto
  obtain lim ilim where t0: "append_tidy h0" "sound healthy lim ilim h0" using h0(1) by (auto simp: lasting_def)
  obtain log where t: "append_tidy h" "sound healthy lim ilim h" and log: "log_ok Map.empty 0 log"
    "log_at False (df_integrity (h_data h)) (df_view (h_data h)) 4096 log" "log_end False 4096 log = unat (ap_cursor (h_placement h))"
    "map entry_write log = trace_writes tr"
    and deleted: "\<And>rid. if (Delete rid, Done) \<in> set tr then heap_map h rid = None \<and> written Map.empty (trace_writes tr) rid \<noteq> None
      else written Map.empty (trace_writes tr) rid = heap_map h rid"
    using blocking.run_is_log [OF t0 h0(2) assms(6,7)] by blast
  note ok = heap_okD(2,3) [OF append_tidyD(1) [OF t(1)]]
  have stay: "heap_stay h h1" using blocking.Heap_flush_Inr [OF assms(8) ok] by simp
  have t1: "append_tidy h1" "sound healthy lim ilim h1"
    using blocking.append_tidy_stay [OF t(1) stay] blocking.sound_result [OF blocking.flush_sound [OF t(2)] assms(8)] by blast+
  note fl = blocking.flush_synced [OF assms(8) ok]
  have same: "df_view (h_data h1) = df_view (h_data h)" "df_integrity (h_data h1) = df_integrity (h_data h)"
      "ap_cursor (h_placement h1) = ap_cursor (h_placement h)"
    using stay by (simp_all add: heap_stay_def df_stay_def)
  have "integrity config' = df_integrity (h_data h)" using append_tidyD(5) [OF t1(1)] assms(9) same(2) by (simp add: fits_config_def)
  then have log1: "log_at False (integrity config') (df_view (h_data h1)) 4096 log" using log(2) same(1) by simp
  let ?dir = "remove_file (crash_dir h1 capacity) ''index.hs''"
  have dir: "dr_files ?dir ''data.hs'' = Some (pf_file (df_paged_file (h_data h1)))" "dr_files ?dir ''index.hs'' = None"
    using lost_synced [OF fl(1)] by (simp_all add: remove_file_def crash_dir_def)
  have log2: "log_end False 4096 log = unat (ap_cursor (h_placement h1))" using log(3) same by simp
  from blocking.lost_index_reopens [OF t1 assms(9-11) fl(1,3,2,4) log(1) log1 log2 dir, of name] obtain h2 report io2 dir2 where
    h2: "Heap_open sync_block_io append_open_placement order name ?dir io' config' = (Inr (h2, report), io2, dir2)" "rp_rebuilt report"
      "lasting healthy h2" "heap_map h2 = written Map.empty (trace_writes tr)"
    unfolding log(4) by blast
  then show ?thesis using deleted by (metis (lifting))
qed

text \<open>A record that was deleted before the flush is back.\<close>

theorem lost_index_is_rebuilt_witness:
  "\<exists>(h :: (SyncIo, AppendPlacement) Heap) (h1 :: (SyncIo, AppendPlacement) Heap) h2 rid report io dir. heap_map h rid = None \<and>
     Heap_flush sync_block_io h = (Inr (), h1) \<and>
     Heap_open sync_block_io append_open_placement id ''store'' (remove_file (crash_dir h1 1048576) ''index.hs'') SyncIo_new example_config =
       (Inr (h2, report), io, dir) \<and>
     rp_rebuilt report \<and> heap_map h2 = [rid \<mapsto> [1, 2, 3]]"
proof -
  have size: "unat (initial_size example_config) + unat (growth example_config) + 8192 \<le> dr_capacity example_dir"
    "dr_capacity example_dir \<le> OFF_MAX" "dr_files example_dir ''data.hs'' = None"
    by (simp_all add: example_dir_def example_config_def)
  obtain h0 report0 io0 dir0 where o: "Heap_open sync_block_io append_open_placement id ''store'' example_dir SyncIo_new example_config = (Inr (h0, report0), io0, dir0)"
    and h0: "lasting healthy h0" "h_config h0 = example_config" "h_placement h0 = \<lparr>ap_cursor = PAGE_SIZE_U64, ap_next_id = 0\<rparr>"
      "f_limit (pf_file (df_paged_file (h_data h0))) = dr_capacity example_dir"
      "unat (allocated_end (df_paged_file (h_data h0))) \<le> unat (initial_size example_config) + unat (growth example_config) + 8192"
    using blocking.create_heap [OF SyncIo_new_healthy size(3,1,2), of id "''store''"] by blast
  have "room_for h0 33" using h0(4,5) by (simp add: append_room_def h0(2,3) example_config_def example_dir_def)
  then obtain rid ha where a: "heap_run sync_block_io append_placement append_sane h0 [(Insert 0 [1, 2, 3], Id rid)] ha"
      "lasting healthy ha" "h_config ha = example_config" "heap_map ha = (heap_map h0)(rid \<mapsto> [1, 2, 3])" "unat rid < ID_MAX"
    using blocking.example_insert [OF h0(1)] h0(2) by metis
  obtain lim ilim where ta: "append_tidy ha" "sound healthy lim ilim ha" using a(2) by (auto simp: lasting_def)
  then have ioa: "healthy (h_io ha)" by (simp add: sound_def)
  obtain h where d: "Heap_delete sync_block_io ha rid = (Inr (), h)"
    using appending.delete_completes [OF ioa append_tidyD(1) [OF ta(1)] a(5)] a(4) by (auto simp: completes_unit)
  have run: "heap_run sync_block_io append_placement append_sane h0 ([(Insert 0 [1, 2, 3], Id rid)] @ [(Delete rid, Done)]) h"
    by (rule run_step [OF a(1)]) (use d a(5) in \<open>simp_all add: ret_of_def append_sane_def\<close>)
  have t: "append_tidy h \<and> sound healthy lim ilim h \<and> effect ha (Delete rid) Done h" by (rule blocking.delete_tidy [OF ta d a(5)])
  then have io: "healthy (h_io h)" and config: "h_config h = example_config" using a(3) by (auto simp: sound_def effect_def)
  obtain h1 where f: "Heap_flush sync_block_io h = (Inr (), h1)"
    using blocking.flush_completes [OF io] by (auto simp: completes_unit)
  have "heap_stay h h1" using blocking.Heap_flush_Inr [OF f] heap_okD(2,3) append_tidyD(1) t by blast
  then have fits: "fits_config h1 example_config" by (simp add: fits_config_def heap_stay_def config example_config_simps)
  have few: "updates ([(Insert 0 [1, 2, 3], Id rid)] @ [(Delete rid, Done)]) \<le> 65534" by simp
  have order: "order_ok id" by (simp add: order_ok_def)
  obtain h2 report io2 dir2 where h2: "Heap_open sync_block_io append_open_placement id ''store''
      (remove_file (crash_dir h1 1048576) ''index.hs'') SyncIo_new example_config = (Inr (h2, report), io2, dir2)" "rp_rebuilt report"
      "heap_map h2 = written Map.empty (trace_writes ([(Insert 0 [1, 2, 3], Id rid)] @ [(Delete rid, Done)]))" "heap_map h rid = None"
    using lost_index_is_rebuilt [OF SyncIo_new_healthy size(3,1,2) o run few f fits SyncIo_new_healthy order, of 1048576] by auto
  have "heap_map h2 = [rid \<mapsto> [1, 2, 3]]" unfolding h2(3) trace_writes_simps op_writes.simps by simp
  with h2 f show ?thesis by blast
qed

end
