(* ===== verification/Power_Loss.thy ===== *)
theory Power_Loss
  imports Heap_Log
begin

text \<open>
  Power failures between operations, which take back all that was not synced. Shown: whatever an append
  heap has done since its last flush, the heap opened after the power has failed holds the insertions
  and updates of a prefix of these operations; under the policy to sync every \<open>n\<close> operations fewer than
  \<open>n\<close> writes are missing from the prefix.
\<close>

section \<open>Writes that are not yet durable\<close>

fun is_write :: "heap_op \<times> heap_ret \<Rightarrow> bool" where
  "is_write (_, Missing _) = False"
| "is_write (Insert _ _, _) = True"
| "is_write (Update _ _, _) = True"
| "is_write (Delete _, _) = True"
| "is_write _ = False"

definition data_durable :: "('io, 'p) Heap \<Rightarrow> bytes" where
  "data_durable h = f_durable (pf_file (df_paged_file (h_data h)))"

text \<open>The counter of the policy, and whether it makes a write due to be synced.\<close>

definition due :: "HeapConfig \<Rightarrow> u32 \<Rightarrow> bool" where
  "due config c \<longleftrightarrow> (\<exists>n. sync_policy config = EveryN n \<and> 0 < n \<and> c mod n = 0)"

text \<open>An operation leaves what is durable as it was, or makes all of it durable.\<close>

definition unsynced :: "('io, 'p) Heap \<Rightarrow> bool \<Rightarrow> ('io, 'p) Heap \<Rightarrow> bool" where
  "unsynced h writes h' \<longleftrightarrow> data_durable h' = data_durable h \<and>
     operations_since_sync h' = (if writes then operations_since_sync h + 1 else operations_since_sync h) \<and>
     (writes \<longrightarrow> \<not> due (h_config h) (operations_since_sync h'))"

definition synced :: "('io, 'p) Heap \<Rightarrow> bool" where
  "synced h \<longleftrightarrow> data_durable h = f_content (pf_file (df_paged_file (h_data h))) \<and> staged_writes (df_paged_file (h_data h)) = []"

lemma unsynced_trans:
  "unsynced h False h1 \<Longrightarrow> h_config h1 = h_config h \<Longrightarrow> unsynced h1 writes h2 \<Longrightarrow> unsynced h writes h2"
  by (auto simp: unsynced_def)

lemma unsynced_same:
  "h_data h' = h_data h \<Longrightarrow> operations_since_sync h' = operations_since_sync h \<Longrightarrow> unsynced h False h'"
  by (simp add: unsynced_def data_durable_def)

lemma after_write_cases:
  assumes "Heap_after_write D h = (Inr u, h')"
  defines "h1 \<equiv> h\<lparr>operations_since_sync := operations_since_sync h + 1\<rparr>"
  shows "h' = h1 \<and> \<not> due (h_config h) (operations_since_sync h + 1) \<or> Heap_commit D h1 = (Inr u, h')"
proof -
  have "Heap_after_write D h = (if due (h_config h) (operations_since_sync h + 1) then Heap_commit D h1
      else if pending_limit (h_config h) < pending_bytes (df_paged_file (h_data h)) + pending_bytes (ix_paged_file (h_index h))
      then Heap_commit D h1 else (Inr (), h1))"
    by (cases "sync_policy (h_config h)") (simp_all add: Heap_after_write_def Let_def due_def h1_def)
  with assms(1) show ?thesis by (auto split: if_splits)
qed

context block_io
begin

lemma find_slot_unsynced: "Heap_find_slot D h rid = (r, h') \<Longrightarrow> unsynced h False h' \<and> h_config h' = h_config h"
  by (auto simp: Heap_find_slot_def unsynced_same split: prod.splits sum.splits option.splits)

lemma df_keep_unsynced:
  "df_keep (h_data h) df \<Longrightarrow> unsynced h False (h\<lparr>h_io := io, h_data := df\<rparr>)"
  by (auto simp: df_keep_def pf_keep_def pf_same_def unsynced_def data_durable_def)

text \<open>Staging a record and its slot makes nothing durable; what follows makes all durable or nothing.\<close>

lemma write_unsynced:
  assumes s1: "Heap_stage_record D h off bucket rid version payload = (Inr u1, h1)"
    and s2: "Heap_stage_slot D h1 rid slot = (Inr u2, h2)" and s3: "Heap_after_write D h2 = (Inr u3, h3)"
    and ok: "pf_ok (df_paged_file (h_data h))" "pf_ok (ix_paged_file (h_index h))"
    and off: "unat off + record_len (h_data h) payload \<le> OFF_MAX" and rid: "unat rid < ID_MAX"
  shows "unsynced h True h3 \<or> synced h3"
proof -
  obtain io1 df1 where d: "DataFile_stage_record D (h_io h) (h_data h) off bucket rid version payload = (Inr u1, io1, df1)"
    and h1: "h1 = h\<lparr>h_io := io1, h_data := df1\<rparr>"
    using s1 by (auto simp: Heap_stage_record_def split: prod.splits)
  have h2: "h_data h2 = df1" "h_config h2 = h_config h" "operations_since_sync h2 = operations_since_sync h"
    using s2 by (auto simp: Heap_stage_slot_def h1 split: prod.splits)
  have df1: "pf_ok (df_paged_file df1)" "f_durable (pf_file (df_paged_file df1)) = data_durable h"
    using stage_record_Inr [OF d ok(1) off] by (auto simp: pf_same_def data_durable_def)
  have "pf_ok (ix_paged_file (h_index h2))"
    using stage_slot_kept [OF disjI1 [OF s2] rid] ok(2) by (simp add: index_kept_def h1)
  with df1 h2 have "synced h3" if "Heap_commit D (h2\<lparr>operations_since_sync := operations_since_sync h2 + 1\<rparr>) = (Inr u3, h3)"
    using commit_synced [OF that] by (simp add: synced_def data_durable_def)
  with after_write_cases [OF s3] h2 df1 show ?thesis by (auto simp: unsynced_def data_durable_def)
qed

end

context block_io
begin

lemma alloc_unsynced:
  assumes e: "PagedFile_ensure_alloc (df_paged_file (h_data h)) (ap_cursor (h_placement h) + of_nat (record_len (h_data h) payload)) (growth (h_config h)) = (Inr (), pf)"
    and ok: "append_good (h_config h) (h_placement h) (h_data h)" "pf_ok (df_paged_file (h_data h))" and len: "record_len (h_data h) payload \<le> OFF_MAX"
  shows "pf_ok pf" "f_durable (pf_file pf) = data_durable h"
    "unat (ap_cursor (h_placement h)) + record_len ((h_data h)\<lparr>df_paged_file := pf\<rparr>) payload \<le> OFF_MAX"
proof -
  have "unat (of_nat (record_len (h_data h) payload) :: u64) = record_len (h_data h) payload" by (rule unat_total_len [OF len])
  with append_step(4) [OF e ok] len show "unat (ap_cursor (h_placement h)) + record_len ((h_data h)\<lparr>df_paged_file := pf\<rparr>) payload \<le> OFF_MAX"
    by (simp add: record_len_def)
  show "pf_ok pf" "f_durable (pf_file pf) = data_durable h"
    using ensure_alloc_facts [OF e ok(2)] by (simp_all add: data_durable_def)
qed

lemma insert_unsynced:
  assumes tidy: "append_tidy h" and len: "record_len (h_data h) payload \<le> OFF_MAX"
    and c: "Heap_insert_into D append_placement h bucket payload = (Inr rid, h')" and rid: "unat rid < ID_MAX"
  shows "unsynced h True h' \<or> synced h'"
proof -
  let ?total = "of_nat (record_len (h_data h) payload) :: u64" and ?p = "h_placement h"
  obtain off h1 h2 h3 where a: "Heap_alloc D append_placement h bucket ?total = (Inr (off, rid), h1)"
    and s: "Heap_stage_record D h1 off bucket rid 1 payload = (Inr (), h2)"
      "Heap_stage_slot D h2 rid (Some \<lparr>sl_offset = off, sl_total_len = ?total\<rparr>) = (Inr (), h3)" "Heap_after_write D h3 = (Inr (), h')"
    using c by (auto simp: Heap_insert_into_def Let_def total_len_record elim!: and_then_Inr)
  obtain io p df reg where al: "AppendPlacement_alloc D (h_io h) (h_config h) ?p (h_data h) (h_registry h) bucket ?total =
      (Inr (off, rid), io, p, df, reg)" and h1: "h1 = h\<lparr>h_io := io, h_placement := p, h_data := df, h_registry := reg\<rparr>"
    using a by (auto simp: Heap_alloc_def append_placement_simps split: prod.splits)
  obtain pf where e: "PagedFile_ensure_alloc (df_paged_file (h_data h)) (ap_cursor ?p + ?total) (growth (h_config h)) = (Inr (), pf)"
    and r: "off = ap_cursor ?p" "df = (h_data h)\<lparr>df_paged_file := pf\<rparr>"
    using append_alloc_eq [OF al] by blast
  note ok = heap_okD(1-3) [OF append_tidyD(1) [OF tidy]]
  note al = alloc_unsynced [OF e ok(1,2) len]
  have "unsynced h1 True h' \<or> synced h'"
    by (rule write_unsynced [OF s]) (use al ok(3) r rid in \<open>simp_all add: h1\<close>)
  then show ?thesis using al(2) by (simp add: unsynced_def data_durable_def h1 r)
qed

lemma update_unsynced:
  assumes tidy: "append_tidy h" and len: "record_len (h_data h) payload \<le> OFF_MAX"
    and c: "Heap_update D append_placement h rid payload = (Inr u, h')" and rid: "unat rid < ID_MAX"
  shows "unsynced h True h' \<or> synced h'"
proof -
  note ok = append_tidyD(1) [OF tidy]
  obtain slot h1 old h2 off h3 h4 h5 where fs: "Heap_find_slot D h rid = (Inr slot, h1)"
    and rh: "Heap_read_header D h1 slot rid = (Inr old, h2)"
    and a: "Heap_alloc_update D append_placement h2 (rh_bucket old) (of_nat (record_len (h_data h2) payload)) = (Inr off, h3)"
    and s: "Heap_stage_record D h3 off (rh_bucket old) rid (rh_version old + 1) payload = (Inr (), h4)"
      "Heap_stage_slot D h4 rid (Some \<lparr>sl_offset = off, sl_total_len = of_nat (record_len (h_data h2) payload)\<rparr>) = (Inr (), h5)"
      "Heap_after_write D h5 = (Inr (), h')"
    using c by (auto simp: Heap_update_def Let_def total_len_record elim!: and_then_Inr)
  note find = find_slot_Inr(1) [OF fs rid heap_okD(2,3) [OF ok] refl]
  then have st1: "heap_stay h h1" and d1: "h_data h1 = h_data h" and live: "ix_slot (h_index h) rid = Live slot" by simp_all
  obtain q where q: "slot_record (append_owned (h_placement h)) (h_data h1) rid slot q" using heap_ok_find [OF ok live] d1 by metis
  then obtain bucket version where dr: "df_record (h_data h1) (unat (sl_offset slot)) bucket rid version q" by (auto simp: slot_record_def)
  have st2: "heap_stay h h2" using st1 Heap_read_header_Inr(1) [OF rh q heap_stay_ok [OF st1] refl] by (rule heap_stay_trans)
  obtain io0 df0 where dh: "DataFile_read_header D (h_io h1) (h_data h1) (sl_offset slot) rid = (Inr old, io0, df0)"
    and h2: "h2 = h1\<lparr>h_io := io0, h_data := df0\<rparr>"
    using rh by (auto simp: Heap_read_header_def split: prod.splits)
  have "pf_ok (df_paged_file (h_data h1))" using heap_stay_ok [OF st1] by simp
  from read_header_Inr(1) [OF dh this dr refl] have "unsynced h1 False h2" unfolding h2 by (intro df_keep_unsynced) simp
  moreover have "h_config h1 = h_config h" "h_config h2 = h_config h" using st1 st2 by (simp_all add: heap_stay_def)
  ultimately have h12: "unsynced h False h2" using find_slot_unsynced [OF fs] unsynced_trans by blast
  let ?p = "h_placement h2" and ?total = "of_nat (record_len (h_data h2) payload) :: u64"
  have len2: "record_len (h_data h2) payload \<le> OFF_MAX" using len st2 by (simp add: heap_stay_def df_stay_def record_len_def)
  obtain io p df reg where al: "AppendPlacement_alloc_update D (h_io h2) (h_config h2) ?p (h_data h2) (h_registry h2) (rh_bucket old) ?total =
      (Inr off, io, p, df, reg)" and h3: "h3 = h2\<lparr>h_io := io, h_placement := p, h_data := df, h_registry := reg\<rparr>"
    using a by (auto simp: Heap_alloc_update_def append_placement_simps split: prod.splits)
  obtain pf where e: "PagedFile_ensure_alloc (df_paged_file (h_data h2)) (ap_cursor ?p + ?total) (growth (h_config h2)) = (Inr (), pf)"
    and r: "off = ap_cursor ?p" "df = (h_data h2)\<lparr>df_paged_file := pf\<rparr>"
    using append_alloc_update_eq [OF al] by blast
  note ok2 = heap_okD(1-3) [OF append_tidyD(1) [OF append_tidy_stay [OF tidy st2]]]
  note al = alloc_unsynced [OF e ok2(1,2) len2]
  have "unsynced h3 True h' \<or> synced h'"
    by (rule write_unsynced [OF s]) (use al ok2(3) r rid in \<open>simp_all add: h3\<close>)
  then have "unsynced h2 True h' \<or> synced h'" using al(2) by (simp add: unsynced_def data_durable_def h3 r)
  with unsynced_trans [OF h12] \<open>h_config h2 = h_config h\<close> show ?thesis by blast
qed

end

context block_io
begin

lemma read_unsynced:
  assumes c: "Heap_read D h rid = (Inr out, h')" and ok: "heap_ok good owned taken h" and rid: "unat rid < ID_MAX"
  shows "unsynced h False h'"
proof -
  obtain slot h1 where fs: "Heap_find_slot D h rid = (Inr slot, h1)" and rr: "Heap_read_record D h1 slot rid = (Inr out, h')"
    using c by (auto simp: Heap_read_def elim!: and_then_Inr)
  note find = find_slot_Inr(1) [OF fs rid heap_okD(2,3) [OF ok] refl]
  then have st: "heap_stay h h1" and d: "h_data h1 = h_data h" and live: "ix_slot (h_index h) rid = Live slot" by simp_all
  obtain p where p: "slot_record (owned (h_placement h)) (h_data h1) rid slot p" using heap_ok_find [OF ok live] d by metis
  then obtain bucket version where dr: "df_record (h_data h1) (unat (sl_offset slot)) bucket rid version p"
    and tl: "sl_total_len slot = of_nat (record_len (h_data h1) p)" by (auto simp: slot_record_def)
  obtain header io df where rd: "DataFile_read_record D (h_io h1) (h_data h1) (sl_offset slot) (sl_total_len slot) rid = (Inr (header, out), io, df)"
    and h': "h' = h1\<lparr>h_io := io, h_data := df\<rparr>"
    using rr by (auto simp: Heap_read_record_def split: prod.splits sum.splits)
  have "pf_ok (df_paged_file (h_data h1))" using heap_stay_ok [OF st] by simp
  from read_record_Inr(1) [OF rd [unfolded tl] this dr refl] have "unsynced h1 False h'" unfolding h' by (intro df_keep_unsynced) simp
  with find_slot_unsynced [OF fs] show ?thesis using unsynced_trans by blast
qed

lemma read_batch_unsynced:
  assumes c: "Heap_read_batch D h ids = (Inr out, h')" and ok: "heap_ok good owned taken h" and ids: "\<forall>rid \<in> set ids. unat rid < ID_MAX"
  shows "unsynced h False h'"
proof -
  obtain slots io ix items io' df where rs: "IndexFile_read_slots D (h_io h) (h_index h) ids = (Inr slots, io, ix)"
    and bi: "batch_items ids slots = Inr items" and rm: "DataFile_read_many D io (h_data h) items = (Inr out, io', df)"
    and h': "h' = h\<lparr>h_io := io', h_index := ix, h_data := df\<rparr>"
    using c by (auto simp: Heap_read_batch_def Let_def split: prod.splits sum.splits)
  have slots: "slots = map (ix_live (h_index h)) ids" using read_slots_Inr(1) [OF rs heap_okD(3) [OF ok] ids refl] by simp
  note b = batch_items_Inr [OF bi [unfolded slots] heap_okD(5) [OF ok]]
  from read_many_Inr(1) [OF rm heap_okD(2) [OF ok] conjunct1 [OF b] refl] show ?thesis
    by (auto simp: h' df_keep_def pf_keep_def pf_same_def unsynced_def data_durable_def)
qed

lemma delete_unsynced:
  assumes tidy: "append_tidy h" and c: "Heap_delete D h rid = (Inr u, h')" and rid: "unat rid < ID_MAX"
  shows "unsynced h True h' \<or> synced h'"
proof -
  note ok = append_tidyD(1) [OF tidy]
  obtain slot h1 h2 where fs: "Heap_find_slot D h rid = (Inr slot, h1)" and t: "Heap_stage_tombstone D h1 rid slot = (Inr (), h2)"
    and a: "Heap_after_write D h2 = (Inr u, h')"
    using c by (auto simp: Heap_delete_def elim!: and_then_Inr)
  note find = find_slot_Inr(1) [OF fs rid heap_okD(2,3) [OF ok] refl]
  have h2: "h_data h2 = h_data h1" "h_config h2 = h_config h1" "operations_since_sync h2 = operations_since_sync h1"
    using t by (auto simp: Heap_stage_tombstone_def split: prod.splits)
  have pf: "pf_ok (df_paged_file (h_data h2))" "pf_ok (ix_paged_file (h_index h1))"
    using find heap_okD(2) [OF ok] h2(1) by (simp_all add: heap_stay_def)
  then have "pf_ok (ix_paged_file (h_index h2))" using stage_slot_kept [OF disjI2 [OF t] rid] by (simp add: index_kept_def)
  with pf(1) have "synced h'" if "Heap_commit D (h2\<lparr>operations_since_sync := operations_since_sync h2 + 1\<rparr>) = (Inr u, h')"
    using commit_synced [OF that] by (simp add: synced_def data_durable_def)
  with after_write_cases [OF a] h2 have "unsynced h1 True h' \<or> synced h'" by (auto simp: unsynced_def data_durable_def)
  with find_slot_unsynced [OF fs] unsynced_trans show ?thesis by blast
qed

lemma exec_unsynced:
  assumes tidy: "append_tidy h" and e: "heap_exec D append_placement h op = (Inr r, h')" and fits: "op_fits h op" "ret_fits r"
    and op: "op \<noteq> Flush"
  shows "unsynced h (is_write (op, r)) h' \<or> synced h'"
proof (cases op)
  case (Insert bucket payload)
  then obtain rid where "Heap_insert_into D append_placement h bucket payload = (Inr rid, h')" "r = Id rid"
    using e by (auto simp: ret_of_eq map_sum_Inr)
  with insert_unsynced [OF tidy _ this(1)] fits Insert show ?thesis by simp
next
  case (Update rid payload)
  then obtain u where "Heap_update D append_placement h rid payload = (Inr u, h')" "r = Done"
    using e by (auto simp: ret_of_eq map_sum_Inr)
  with update_unsynced [OF tidy _ this(1)] fits Update show ?thesis by simp
next
  case (Delete rid)
  then obtain u where "Heap_delete D h rid = (Inr u, h')" "r = Done"
    using e by (auto simp: ret_of_eq map_sum_Inr)
  with delete_unsynced [OF tidy this(1)] fits Delete show ?thesis by simp
next
  case (Read rid)
  with e fits read_unsynced [OF _ append_tidyD(1) [OF tidy]] show ?thesis by (auto simp: ret_of_eq map_sum_Inr)
next
  case (ReadBatch ids)
  with e fits read_batch_unsynced [OF _ append_tidyD(1) [OF tidy]] show ?thesis by (auto simp: ret_of_eq map_sum_Inr)
qed (use op in simp_all)

lemma missing_unsynced:
  assumes e: "heap_exec D P h op = (r, h')" and st: "steady (h_io h)" and fits: "op_fits h op" and l: "looks_up h op rid"
    and ok: "pf_ok (df_paged_file (h_data h))" "pf_ok (ix_paged_file (h_index h))" and m: "heap_map h rid = None"
  shows "unsynced h False h'"
proof -
  obtain fr h1 where fs: "Heap_find_slot D h rid = (fr, h1)" by fastforce
  have gone: "fr = Inl (Err (NotFound rid))" if "unat rid < ID_MAX"
    using find_slot_Inr(2) [OF fs that ok st] m by (auto simp: heap_map_def split: SlotState.splits)
  note h1 = conjunct1 [OF find_slot_unsynced [OF fs]]
  show ?thesis
  proof (cases op)
    case (ReadBatch ids)
    obtain q where q: "Heap_read_batch D h ids = (q, h')" using e ReadBatch by (auto simp: ret_of_eq)
    obtain x io ix where rd: "IndexFile_read_slots D (h_io h) (h_index h) ids = (x, io, ix)" by (metis prod_cases3)
    have ids: "\<forall>rid \<in> set ids. unat rid < ID_MAX" using fits ReadBatch by simp
    obtain slots where x: "x = Inr slots" using read_slots_Inr(2) [OF rd ok(2) ids] st by auto
    have slots: "slots = map (ix_live (h_index h)) ids" using read_slots_Inr(1) [OF rd ok(2) ids x] by simp
    have "batch_items ids slots \<noteq> Inr items" for items
      using l ReadBatch batch_items_found [of ids "ix_live (h_index h)" items] slots by (auto simp: looks_up_def heap_map_None)
    then show ?thesis using q rd x
      by (auto simp: Heap_read_batch_def Let_def unsynced_same split: prod.splits sum.splits)
  qed (use l e fits gone fs h1 in \<open>auto simp: looks_up_def ret_of_eq Heap_read_def Heap_update_def Heap_delete_def\<close>)
qed

end

section \<open>How far behind the device is\<close>

definition lags :: "HeapConfig \<Rightarrow> nat \<Rightarrow> u32 \<Rightarrow> bool" where
  "lags config n c \<longleftrightarrow> (\<forall>k. sync_policy config = EveryN k \<and> 0 < k \<longrightarrow> n \<le> unat (c mod k))"

lemma lags_0: "lags config 0 c"
  by (simp add: lags_def)

lemma lags_next:
  assumes "lags config n c" and "\<not> due config (c + 1)"
  shows "lags config (Suc n) (c + 1)"
  unfolding lags_def
proof (intro allI impI)
  fix k
  assume k: "sync_policy config = EveryN k \<and> 0 < k"
  then have n: "n \<le> unat c mod unat k" and m: "(c + 1) mod k \<noteq> 0" using assms by (auto simp: lags_def due_def unat_mod)
  have "c + 1 \<noteq> 0" using m by auto
  moreover have "unat c < 4294967296" using unsigned_less [of c] by simp
  ultimately have u: "unat (c + 1) = Suc (unat c)" by (auto simp: unat_plus_if' word_unat_eq_iff split: if_splits)
  have "unat (c + 1) mod unat k \<noteq> 0" using m by (metis unat_mod unat_eq_zero)
  with n u show "Suc n \<le> unat ((c + 1) mod k)" by (simp add: unat_mod mod_Suc split: if_splits)
qed

lemma lags_few:
  assumes "lags config n c" and "sync_policy config = EveryN k" and "0 < k"
  shows "n < unat k"
proof -
  have "c mod k < k" using assms(3) by (simp add: word_mod_less_divisor)
  then show ?thesis using assms by (auto simp: lags_def word_less_nat_alt)
qed

lemma effect_config: "effect h op r h' \<Longrightarrow> h_config h' = h_config h"
  by (auto simp: effect_def wrote_def record_written_def heap_stay_def split: heap_op.splits)

context block_io
begin

lemma run_prefix:
  assumes "heap_run D append_placement append_sane h1 tr h2" and "append_tidy h1" and "sound steady lim ilim h1" and "data_synced h1"
    and "keeps_index tr"
  shows "append_tidy h2 \<and> sound steady lim ilim h2 \<and> h_config h2 = h_config h1 \<and>
    (\<exists>tr1 tr2 hm. tr = tr1 @ tr2 \<and> heap_run D append_placement append_sane h1 tr1 hm \<and> append_tidy hm \<and> sound steady lim ilim hm \<and>
      data_synced hm \<and> data_durable h2 = data_durable hm \<and> h_config hm = h_config h1 \<and>
      lags (h_config h1) (length (filter is_write tr2)) (operations_since_sync h2))"
  using assms
proof (induction tr h2 rule: heap_run.induct)
  case (run_nil h)
  then show ?case using lags_0 by (intro conjI exI [of _ "[]"] exI [of _ h]) (auto intro: heap_run.run_nil)
next
  case (run_step h tr h2 op r h3)
  then obtain tr1 tr2 hm where t: "append_tidy h2" "sound steady lim ilim h2" "h_config h2 = h_config h"
    and m: "tr = tr1 @ tr2" "heap_run D append_placement append_sane h tr1 hm" "append_tidy hm" "sound steady lim ilim hm" "data_synced hm"
      "data_durable h2 = data_durable hm" "h_config hm = h_config h" "lags (h_config h) (length (filter is_write tr2)) (operations_since_sync h2)"
    by auto
  note e = exec_tidy [OF t(1,2) run_step.hyps(2-4)]
  then have c: "h_config h3 = h_config h" using effect_config t(3) by metis
  have "unsynced h2 (is_write (op, r)) h3 \<or> synced h3"
    using exec_unsynced [OF t(1) run_step.hyps(3,2,4)] run_step.prems(4) by simp
  then show ?case
  proof
    assume "synced h3"
    then have "data_synced h3" using synced_data e by (auto simp: synced_def data_durable_def)
    moreover have "heap_run D append_placement append_sane h (tr @ [(op, r)]) h3" using heap_run.run_step run_step.hyps by metis
    ultimately show ?thesis using e c lags_0 by (intro conjI exI [of _ "tr @ [(op, r)]"] exI [of _ "[]"] exI [of _ h3]) auto
  next
    assume u: "unsynced h2 (is_write (op, r)) h3"
    then have "lags (h_config h) (length (filter is_write (tr2 @ [(op, r)]))) (operations_since_sync h3)"
      using m(8) t(3) lags_next by (auto simp: unsynced_def)
    then show ?thesis using e c m u by (intro conjI exI [of _ tr1] exI [of _ "tr2 @ [(op, r)]"] exI [of _ hm]) (auto simp: unsynced_def)
  qed
next
  case (run_missing h tr h2 op rid h3)
  then obtain tr1 tr2 hm where t: "append_tidy h2" "sound steady lim ilim h2" "h_config h2 = h_config h"
    and m: "tr = tr1 @ tr2" "heap_run D append_placement append_sane h tr1 hm" "append_tidy hm" "sound steady lim ilim hm" "data_synced hm"
      "data_durable h2 = data_durable hm" "h_config hm = h_config h" "lags (h_config h) (length (filter is_write tr2)) (operations_since_sync h2)"
    by auto
  have st: "steady (h_io h2)" using t(2) by (simp add: sound_def)
  note ok = append_tidyD(1) [OF t(1)]
  have stay: "heap_stay h2 h3" using exec_missing [OF st ok run_missing.hyps(2-5)] by simp
  have u: "unsynced h2 False h3"
    by (rule missing_unsynced [OF run_missing.hyps(5) st run_missing.hyps(2,3) heap_okD(2,3) [OF ok] run_missing.hyps(4)])
  have "append_tidy h3" "sound steady lim ilim h3" "h_config h3 = h_config h"
    using append_tidy_stay [OF t(1) stay] missing_sound [OF t(2) ok run_missing.hyps(2-5)] stay t(3) by (simp_all add: heap_stay_def)
  then show ?case using m u
    by (intro conjI exI [of _ tr1] exI [of _ "tr2 @ [(op, Missing rid)]"] exI [of _ hm]) (auto simp: unsynced_def)
qed

end

section \<open>The heap found after a power failure\<close>

lemma lost_same: "f_durable f = f_durable g \<Longrightarrow> f_limit f = f_limit g \<Longrightarrow> lost f = lost g"
  by (cases f; cases g) (simp add: lost_def)

lemma crash_dir_same:
  assumes "data_durable h = data_durable hm" and "index_kept h1 h" "index_kept h1 hm" and "pf_ok (ix_paged_file (h_index h1))"
    and "sound ok lim ilim h" "sound ok lim ilim hm"
  shows "crash_dir h c = crash_dir hm c"
proof -
  have "lost (pf_file (df_paged_file (h_data h))) = lost (pf_file (df_paged_file (h_data hm)))"
    by (rule lost_same) (use assms(1,5,6) in \<open>simp_all add: sound_def pf_fine_def data_durable_def\<close>)
  moreover have "lost (pf_file (ix_paged_file (h_index h))) = lost (pf_file (ix_paged_file (h_index hm)))"
    by (rule lost_same) (use assms(2-4) in \<open>simp_all add: index_kept_def pf_same_def\<close>)
  ultimately show ?thesis by (simp add: crash_dir_def)
qed

context block_io
begin

lemma power_fails:
  assumes t1: "append_tidy h1" "sound steady lim ilim h1" and base: "data_synced h1" "index_synced h1"
    and vu: "versions_upto M vers (h_data h1) (ix_slot (h_index h1))"
    and run: "heap_run D append_placement append_sane h1 tr h2" and ops: "keeps_index tr"
    and bound: "M + updates tr \<le> 65534" and config: "fits_config h2 config" and st: "steady io" and order: "order_ok order"
  shows "\<exists>tr1 tr2 h' report io' dir' vers'. tr = tr1 @ tr2 \<and>
    lags (h_config h1) (length (filter is_write tr2)) (operations_since_sync h2) \<and>
    Heap_open D append_open_placement order name (crash_dir h2 c) io config = (Inr (h', report), io', dir') \<and>
    lasting steady h' \<and> \<not> rp_rebuilt report \<and> heap_map h' = written (heap_map h1) (trace_writes tr1) \<and>
    versions_upto (M + updates tr) vers' (h_data h') (ix_slot (h_index h'))"
proof -
  let ?E = "unat (ap_cursor (h_placement h1))" and ?st1 = "ix_slot (h_index h1)"
  obtain tr1 tr2 hm where t2: "append_tidy h2" "sound steady lim ilim h2" "h_config h2 = h_config h1"
    and m: "tr = tr1 @ tr2" "heap_run D append_placement append_sane h1 tr1 hm" "append_tidy hm" "sound steady lim ilim hm"
      "data_synced hm" "data_durable h2 = data_durable hm" "h_config hm = h_config h1"
      "lags (h_config h1) (length (filter is_write tr2)) (operations_since_sync h2)"
    using run_prefix [OF run t1 base(1) ops] by blast
  have ops1: "keeps_index tr1" and bound1: "M + updates tr1 \<le> 65534" using ops bound m(1) by (auto simp: keeps_index_def)
  note live = live_versions [OF vu] and start = logged_start [OF t1(1) live_versions(1) [OF vu]]
  obtain log where l: "logged h1 (live_vers vers h1) M tr1 log hm" using run_logged [OF m(2) t1 start bound1] by blast
  obtain log2 where l2: "logged h1 (live_vers vers h1) M tr log2 h2" using run_logged [OF run t1 start bound] by blast
  have same: "crash_dir h2 c = crash_dir hm c"
    by (rule crash_dir_same [OF m(6) loggedD(1) [OF l2 ops] loggedD(1) [OF l ops1] heap_okD(3) [OF append_tidyD(1) [OF t1(1)]] t2(2) m(4)])
  have config': "fits_config hm config" using config t2(3) m(7) by (simp add: fits_config_def)
  let ?st = "log_slots False ?E log ?st1"
  obtain h' report io' dir' where
    o: "Heap_open D append_open_placement order name (crash_dir h2 c) io config = (Inr (h', report), io', dir')"
    and r: "lasting steady h'" "\<not> rp_rebuilt report" "ix_slot (h_index h') = ?st"
      "df_view (h_data h') = df_view (h_data hm)" "df_with_bucket (h_data h') = df_with_bucket (h_data hm)"
      "df_integrity (h_data h') = df_integrity (h_data hm)"
    using logged_reopens [OF t1(1) m(3) t1(2) m(4) vu l ops1 m(5) base(2) config' st order, of name c] unfolding same by blast
  have flags: "df_with_bucket (h_data hm) = df_with_bucket (h_data h1)" "df_integrity (h_data hm) = df_integrity (h_data h1)"
      "\<not> df_with_bucket (h_data hm)"
    using append_tidyD(4,5) [OF t1(1)] append_tidyD(4,5) [OF m(3)] m(7) by simp_all
  have "4096 \<le> ?E" "log_end False ?E log \<le> OFF_MAX"
    using append_tidyD(2) [OF t1(1)] append_tidyD(2) [OF m(3)] loggedD(5) [OF l] by (simp_all add: index_upto_def)
  note log = loggedD(6) [OF l] this flags(3)
  have "slots_ok (h_data h1) ?st1 ?E"
    using heap_okD(5) [OF append_tidyD(1) [OF t1(1)]] by (simp add: slots_ok_def append_owned_def)
  note old = slots_agree [OF this loggedD(7) [OF l] flags(1,2)]
  have "heap_map h' = slots_map (h_data hm) ?st" using slots_map_cong [OF r(4,5)] r(3) by (simp add: heap_map_slots)
  also have "\<dots> = log_map log (heap_map h1)" using log_slots_map [OF log old(1)] old(2) by (simp add: heap_map_slots)
  finally have map: "heap_map h' = written (heap_map h1) (trace_writes tr1)" using loggedD(11) [OF l] by (simp add: log_map_written)
  have "versions_upto (M + updates tr1) (live_vers vers h1) (h_data hm) ?st1"
    by (rule versions_upto_agree [OF live(1) t1(1)]) (use loggedD(7) [OF l] flags in simp_all)
  then have "versions_upto (M + updates tr1) (log_vers (live_vers vers h1) log) (h_data hm) ?st"
    using log_slots_versions [OF log] loggedD(12) [OF l] by simp
  then have "versions_upto (M + updates tr) (log_vers (live_vers vers h1) log) (h_data h') (ix_slot (h_index h'))"
    unfolding versions_upto_def r(3) using r(4-6) m(1) by (fastforce simp: version_at_def df_record_def)
  with m o r(1,2) map show ?thesis by blast
qed

end

section \<open>Lives with power failures\<close>

text \<open>
  What happens to a heap: it is used; or it is flushed (or has just been created), used further, the power
  fails, and it is opened again.
\<close>

datatype power_event = Used "(heap_op \<times> heap_ret) list" | Power_lost SyncPolicy "(heap_op \<times> heap_ret) list"

fun event_updates :: "power_event list \<Rightarrow> nat" where
  "event_updates [] = 0"
| "event_updates (Used tr # evs) = updates tr + event_updates evs"
| "event_updates (Power_lost _ tr # evs) = updates tr + event_updates evs"

lemma event_updates_append [simp]: "event_updates (evs @ evs') = event_updates evs + event_updates evs'"
  by (induction evs rule: event_updates.induct) simp_all

inductive power_life ::
  "'io BlockIo \<Rightarrow> ('io \<Rightarrow> bool) \<Rightarrow> (u64 list \<Rightarrow> u64 list) \<Rightarrow> ('io, AppendPlacement) Heap \<Rightarrow> power_event list \<Rightarrow> bool"
  for D ok order where
  power_created: "append_life D ok order h [] \<Longrightarrow> power_life D ok order h []"
| power_used: "power_life D ok order h evs \<Longrightarrow> heap_run D append_placement append_sane h tr h' \<Longrightarrow> power_life D ok order h' (evs @ [Used tr])"
| power_lost: "power_life D ok order h evs \<Longrightarrow> Heap_flush D h = (Inr (), h1) \<Longrightarrow>
    heap_run D append_placement append_sane h1 tr h2 \<Longrightarrow> keeps_index tr \<Longrightarrow> fits_config h2 config \<Longrightarrow> ok io \<Longrightarrow>
    Heap_open D append_open_placement order name (crash_dir h2 capacity) io config = (Inr (h3, report), io', dir') \<Longrightarrow>
    power_life D ok order h3 (evs @ [Power_lost (sync_policy (h_config h1)) tr])"

text \<open>
  What the map may be after such a life. All operations answer what one map answers. After a power
  failure the map is that of the last flush with the insertions and updates of a prefix of the operations
  since then written over it; the prefix misses fewer than \<open>n\<close> writes if every \<open>n\<close>-th one is synced. Deletions
  since the flush are undone.
\<close>

inductive survives :: "power_event list \<Rightarrow> (u64 \<rightharpoonup> bytes) \<Rightarrow> bool" where
  survives_nothing: "survives [] Map.empty"
| survives_used: "survives evs m \<Longrightarrow> map_run m tr m' \<Longrightarrow> survives (evs @ [Used tr]) m'"
| survives_lost: "survives evs m \<Longrightarrow> map_run m (tr1 @ tr2) m' \<Longrightarrow>
    (\<forall>n. policy = EveryN n \<and> 0 < n \<longrightarrow> length (filter is_write tr2) < unat n) \<Longrightarrow>
    survives (evs @ [Power_lost policy (tr1 @ tr2)]) (written m (trace_writes tr1))"

context block_io
begin

lemma loss_survived:
  assumes last: "lasting steady h" and s: "survives evs (heap_map h)" and v: "versions_upto M vers (h_data h) (ix_slot (h_index h))"
    and flush: "Heap_flush D h = (Inr (), h1)" and run: "heap_run D append_placement append_sane h1 tr h2" and ops: "keeps_index tr"
    and bound: "M + updates tr \<le> 65534" and config: "fits_config h2 config" and st: "steady io" and order: "order_ok order"
  shows "\<exists>h3 report io' dir' vers'. Heap_open D append_open_placement order name (crash_dir h2 capacity) io config = (Inr (h3, report), io', dir') \<and>
    \<not> rp_rebuilt report \<and> lasting steady h3 \<and> survives (evs @ [Power_lost (sync_policy (h_config h1)) tr]) (heap_map h3) \<and>
    versions_upto (M + updates tr) vers' (h_data h3) (ix_slot (h_index h3))"
proof -
  obtain lim ilim where t: "append_tidy h" "sound steady lim ilim h" using last by (auto simp: lasting_def)
  note ok = heap_okD(2,3) [OF append_tidyD(1) [OF t(1)]]
  have stay: "heap_stay h h1" using Heap_flush_Inr [OF flush ok] by simp
  have t1: "append_tidy h1" "sound steady lim ilim h1"
    using append_tidy_stay [OF t(1) stay] flush_sound [OF t(2)] flush sound_result by blast+
  note synced = flush_synced [OF flush ok]
  have v1: "versions_upto M vers (h_data h1) (ix_slot (h_index h1))" by (rule versions_heap_stay [OF v t(1) order_refl stay])
  obtain tr1 tr2 h3 report io' dir' vers' where m: "tr = tr1 @ tr2" "lags (h_config h1) (length (filter is_write tr2)) (operations_since_sync h2)"
    and o: "Heap_open D append_open_placement order name (crash_dir h2 capacity) io config = (Inr (h3, report), io', dir')" "\<not> rp_rebuilt report"
    and h3: "lasting steady h3" "heap_map h3 = written (heap_map h1) (trace_writes tr1)" "versions_upto (M + updates tr) vers' (h_data h3) (ix_slot (h_index h3))"
    using power_fails [OF t1 synced_data [OF t1 synced(1,3)] synced_index [OF t1(2) synced(2,4)] v1 run ops bound config st order, of name capacity] by blast
  have "map_run (heap_map h1) tr (heap_map h2)"
    using placing.run_refines [OF append_placing [OF block_io_axioms] run] t1 append_tidyD(1) by (auto simp: sound_def)
  then have "map_run (heap_map h) (tr1 @ tr2) (heap_map h2)" using heap_stay_map [OF stay] m(1) by simp
  from survives_lost [OF s this, of "sync_policy (h_config h1)"] lags_few [OF m(2)] m(1) o h3 heap_stay_map [OF stay] show ?thesis by auto
qed

lemma power_survives:
  assumes "power_life D steady order h evs" and order: "order_ok order" and "event_updates evs \<le> 65534"
  shows "lasting steady h \<and> survives evs (heap_map h) \<and> (\<exists>vers. versions_upto (event_updates evs) vers (h_data h) (ix_slot (h_index h)))"
  using assms(1,3)
proof (induction rule: power_life.induct)
  case (power_created h)
  have "lasting steady h" "map_run Map.empty [] (heap_map h)" using life_refines [OF power_created.hyps order] by simp_all
  moreover from this(2) have "heap_map h = Map.empty" by (cases rule: map_run.cases) simp_all
  ultimately show ?case using life_versions [OF power_created.hyps order] survives_nothing by simp
next
  case (power_used h evs tr h')
  then obtain lim ilim vers where t: "append_tidy h" "sound steady lim ilim h" and s: "survives evs (heap_map h)"
    and v: "versions_upto (event_updates evs) vers (h_data h) (ix_slot (h_index h))"
    by (auto simp: lasting_def)
  have "map_run (heap_map h) tr (heap_map h')"
    using placing.run_refines [OF append_placing [OF block_io_axioms] power_used.hyps(2)] t append_tidyD(1) by (auto simp: sound_def)
  with survives_used [OF s] run_versions [OF power_used.hyps(2) t v] show ?case by (auto simp: lasting_def)
next
  case (power_lost h evs h1 tr h2 config io name capacity h3 report io' dir')
  then obtain vers where "lasting steady h" "survives evs (heap_map h)" "versions_upto (event_updates evs) vers (h_data h) (ix_slot (h_index h))" by auto
  from loss_survived [OF this power_lost.hyps(2-4) _ power_lost.hyps(5,6) order, of name capacity] power_lost.prems power_lost.hyps(7)
  show ?case by auto
qed

end

section \<open>Properties\<close>

text \<open>
  C6: the power fails between two operations of an append heap, some time after a flush, and takes back
  every write that was not synced, of both files. Then opening the heap succeeds without a rebuild, and it
  holds what it held at the flush with the insertions and updates of a prefix of the operations since then
  written over it (deletions since the flush are undone). Under the policy to sync every \<open>n\<close> operations
  the prefix misses fewer than \<open>n\<close> insertions, updates and deletions. This holds however often the heap has
  been used, flushed and lost its power in this way before. Fewer than 65535 updates in all keep the record versions from
  wrapping. A failure in the middle of an operation, and one that keeps some of the unsynced pages, are
  not covered.
\<close>

theorem power_failure_keeps_prefix:
  assumes "power_life sync_block_io healthy order h evs" and "order_ok order" and "Heap_flush sync_block_io h = (Inr (), h1)"
    and "heap_run sync_block_io append_placement append_sane h1 tr h2" and "keeps_index tr"
    and "event_updates evs + updates tr \<le> 65534" and "fits_config h2 config" and "healthy io"
  shows "\<exists>h3 report io' dir'. Heap_open sync_block_io append_open_placement order name (crash_dir h2 capacity) io config = (Inr (h3, report), io', dir') \<and>
    \<not> rp_rebuilt report \<and> heap_ok append_good append_owned append_taken h3 \<and>
    survives (evs @ [Power_lost (sync_policy (h_config h1)) tr]) (heap_map h3)"
proof -
  obtain vers where l: "lasting healthy h" "survives evs (heap_map h)" "versions_upto (event_updates evs) vers (h_data h) (ix_slot (h_index h))"
    using blocking.power_survives [OF assms(1,2)] assms(6) by auto
  obtain h3 report io' dir' where o: "Heap_open sync_block_io append_open_placement order name (crash_dir h2 capacity) io config = (Inr (h3, report), io', dir')"
    "\<not> rp_rebuilt report" and h3: "lasting healthy h3" "survives (evs @ [Power_lost (sync_policy (h_config h1)) tr]) (heap_map h3)"
    using blocking.loss_survived [OF l assms(3-8,2), of name capacity] by blast
  have "append_tidy h3" using h3(1) by (auto simp: lasting_def)
  with o h3(2) show ?thesis using append_tidyD(1) by blast
qed

theorem power_failure_keeps_prefix_witness:
  "\<exists>(h2 :: (SyncIo, AppendPlacement) Heap) h3 rid report io dir.
     Heap_open sync_block_io append_open_placement id ''store'' (crash_dir h2 1048576) SyncIo_new example_config = (Inr (h3, report), io, dir) \<and>
     survives [Power_lost (sync_policy example_config) [(Insert 0 [1, 2, 3], Id rid)]] (heap_map h3)"
proof -
  obtain h0 h1 where h1: "append_life sync_block_io healthy id h0 []" "Heap_flush sync_block_io h0 = (Inr (), h1)" "lasting healthy h1"
    "h_config h1 = example_config" "room_for h1 33" by (rule example_flushed)
  obtain rid h2 where h2: "heap_run sync_block_io append_placement append_sane h1 [(Insert 0 [1, 2, 3], Id rid)] h2" "h_config h2 = h_config h1"
    using blocking.example_insert [OF h1(3,5)] by metis
  have fits: "fits_config h2 example_config" by (simp add: fits_config_def h2(2) h1(4) example_config_simps)
  have order: "order_ok id" by (simp add: order_ok_def)
  obtain h3 report io dir where "Heap_open sync_block_io append_open_placement id ''store'' (crash_dir h2 1048576) SyncIo_new example_config = (Inr (h3, report), io, dir)"
    "survives [Power_lost (sync_policy example_config) [(Insert 0 [1, 2, 3], Id rid)]] (heap_map h3)"
    using power_failure_keeps_prefix [OF power_created [OF h1(1)] order h1(2) h2(1) _ _ fits SyncIo_new_healthy, of "''store''" 1048576]
    unfolding h1(4) by (auto simp: keeps_index_def)
  then show ?thesis by blast
qed

end
