(* ===== verification/Killed.thy ===== *)
theory Killed
  imports Power_Loss
begin

text \<open>
  What a killed process leaves. The files keep what was written to them, synced or not; what was staged in
  memory is gone. Shown: insertions into an append heap write to its files in commits only, so that a
  process that is killed between two of them leaves the heap as it was at its last commit.
\<close>

section \<open>The files of a killed process\<close>

definition left_dir :: "('io, 'p) Heap \<Rightarrow> nat \<Rightarrow> Dir" where
  "left_dir h capacity = \<lparr>dr_files = [''data.hs'' \<mapsto> pf_file (df_paged_file (h_data h)),
     ''index.hs'' \<mapsto> pf_file (ix_paged_file (h_index h))], dr_capacity = capacity\<rparr>"

abbreviation left_as :: "('io, AppendPlacement) Heap \<Rightarrow> ('io, AppendPlacement) Heap \<Rightarrow> bool" where
  "left_as h hm \<equiv> found hm (left_dir h 0) (pf_file (df_paged_file (h_data h))) (pf_file (ix_paged_file (h_index h)))"

lemma left_any: "left_as h hm \<Longrightarrow> found hm (left_dir h c) (pf_file (df_paged_file (h_data h))) (pf_file (ix_paged_file (h_index h)))"
  by (simp add: found_def left_dir_def)

lemma settled_left:
  assumes tidy: "append_tidy h" and snd: "sound ok lim ilim h"
    and "staged_writes (df_paged_file (h_data h)) = []" and "staged_writes (ix_paged_file (h_index h)) = []"
  shows "left_as h h"
proof -
  have fine: "pf_fine data_head lim lim (df_paged_file (h_data h))" "pf_fine index_head ilim OFF_MAX (ix_paged_file (h_index h))"
    using snd by (simp_all add: sound_def)
  have "unat (ap_cursor (h_placement h)) \<le> length (f_content (pf_file (df_paged_file (h_data h))))"
    using heap_okD(1) [OF append_tidyD(1) [OF tidy]] fine(1) by (simp add: append_good_def pf_fine_def pf_whole_def Let_def)
  with settled_shows_view [OF fine(1) assms(3)] settled_shows_view [OF fine(2) assms(4)] show ?thesis
    using pf_fineD(4) [OF fine(1)] pf_fineD(4) [OF fine(2)] by (simp add: found_def left_dir_def)
qed

section \<open>Staging behind the last staged byte\<close>

text \<open>At most one write is staged, and it ends at \<open>p\<close>.\<close>

definition trailing :: "PagedFile \<Rightarrow> nat \<Rightarrow> bool" where
  "trailing pf p \<longleftrightarrow> staged_writes pf = [] \<or> (\<exists>w. staged_writes pf = [w] \<and> sw_hi w = p)"

lemma trailing_Nil: "staged_writes pf = [] \<Longrightarrow> trailing pf p"
  by (simp add: trailing_def)

context block_io
begin

lemma stage_trailing:
  assumes s: "PagedFile_stage D io pf off parts = (Inr u, io', pf')" and ok: "pf_ok pf"
    and len: "unat off + parts_len parts \<le> OFF_MAX" and t: "trailing pf (unat off)"
  shows "pf_file pf' = pf_file pf \<and> trailing pf' (unat off + parts_len parts)"
proof (cases "staged_writes pf")
  case Nil
  then have free: "\<not> stage_overlaps pf off (parts_len parts)" "stage_continue pf off parts = None"
    by (simp_all add: stage_overlaps_def Let_def stage_continue_def)
  then have p: "stage_push D io pf off parts = (Inr u, io', pf')"
    using s Nil by (simp add: PagedFile_stage_def flush_if_def MAX_STAGED_WRITES_def)
  have same: "pf_file pf' = pf_file pf"
    using p by (auto simp: stage_push_def Let_def PagedFile_take_buffer_def split: prod.splits sum.splits if_splits)
  have st: "length (staged_writes pf') = Suc 0" "\<forall>w \<in> set (staged_writes pf'). sw_hi w = unat off + parts_len parts"
    using stage_push_Inr [OF p ok len free(1)] Nil by simp_all
  then obtain w where "staged_writes pf' = [w]" by (auto simp: length_Suc_conv)
  with same st(2) show ?thesis by (simp add: trailing_def)
next
  case (Cons w ws)
  then have w: "staged_writes pf = [w]" "sw_hi w = unat off" using t by (auto simp: trailing_def)
  have wok: "sw_ok (f_content (pf_file pf)) w" using ok w(1) by (simp add: pf_ok_def)
  have "sw_hi w \<le> OFF_MAX" using w(2) len by simp
  from sw_hi_end [OF this] have "StagedWrite_end w = off" using w(2) by (simp add: word_unat_eq_iff)
  then have "stage_continue pf off parts = Some (pf\<lparr>staged_writes := [sw_extend w parts], pending_bytes := pending_bytes pf + parts_len parts\<rparr>)"
    using w(1) by (simp add: stage_continue_def Let_def sw_extend_def enumerate_simps)
  then have "pf' = pf\<lparr>staged_writes := [sw_extend w parts], pending_bytes := pending_bytes pf + parts_len parts\<rparr>"
    using s by (simp add: PagedFile_stage_def)
  then show ?thesis
    using sw_extend_facts(1) [OF wok, of parts] w(2) by (simp add: trailing_def parts_len_def length_concat)
qed

end

lemma ensure_alloc_longer:
  assumes "PagedFile_ensure_alloc pf up_to chunk = (Inr u, pf')"
  shows "staged_writes pf' = staged_writes pf \<and> byte_at (f_content (pf_file pf')) = byte_at (f_content (pf_file pf)) \<and>
    length (f_content (pf_file pf)) \<le> length (f_content (pf_file pf')) \<and> f_limit (pf_file pf') = f_limit (pf_file pf)"
  using assms
  by (auto simp: PagedFile_ensure_alloc_def Let_def fallocate_def fun_eq_iff split: prod.splits sum.splits if_splits)

section \<open>Insertions and commits\<close>

text \<open>What an append heap has staged is the end of its data file and of its index.\<close>

definition quiet :: "('io, AppendPlacement) Heap \<Rightarrow> bool" where
  "quiet h \<longleftrightarrow> trailing (df_paged_file (h_data h)) (unat (ap_cursor (h_placement h))) \<and>
     trailing (ix_paged_file (h_index h)) (unat (Slot_file_offset (ap_next_id (h_placement h))))"

lemma left_longer:
  assumes l: "left_as h hm" and snd: "sound ok lim ilim h'" "sound ok' lim ilim h" "sound ok'' lim ilim hm"
    and data: "byte_at (f_content (pf_file (df_paged_file (h_data h')))) = byte_at (f_content (pf_file (df_paged_file (h_data h))))"
      "length (f_content (pf_file (df_paged_file (h_data h)))) \<le> length (f_content (pf_file (df_paged_file (h_data h'))))"
    and index: "pf_file (ix_paged_file (h_index h')) = pf_file (ix_paged_file (h_index h))"
  shows "left_as h' hm"
proof -
  have fine: "pf_fine data_head lim lim (df_paged_file (h_data h'))" "pf_fine data_head lim lim (df_paged_file (h_data h))"
      "pf_fine data_head lim lim (df_paged_file (h_data hm))"
    using snd by (simp_all add: sound_def)
  then show ?thesis
    using l data index by (auto simp: found_def left_dir_def shows_view_def pf_fine_def pf_whole_def Let_def)
qed

lemma commit_counter: "Heap_commit D h = (r, h') \<Longrightarrow> operations_since_sync h' = operations_since_sync h"
  by (auto simp: Heap_commit_def Heap_commit_registry_def Heap_flush_registry_def Heap_sync_registry_def Heap_flush_data_def Heap_sync_data_def
      Heap_flush_index_def and_then_def Let_def split: prod.splits sum.splits if_splits option.splits)

context block_io
begin

lemma commit_settles:
  assumes "Heap_commit D h = (Inr u, h')" and ok: "pf_ok (df_paged_file (h_data h))" "pf_ok (ix_paged_file (h_index h))"
  shows "staged_writes (df_paged_file (h_data h')) = []" "staged_writes (ix_paged_file (h_index h')) = []"
proof -
  show "staged_writes (df_paged_file (h_data h')) = []" by (rule commit_synced [OF assms])
  obtain a0 a1 a2 a3 where s: "Heap_commit_registry D h = (Inr a0, a1)" "Heap_flush_data D a1 = (Inr (), a2)"
      "Heap_sync_data D a2 = (Inr (), a3)" "Heap_flush_index D a3 = (Inr u, h')"
    using assms(1) by (auto simp: Heap_commit_def elim!: and_then_Inr)
  have "h_index a1 = h_index h" "h_index a2 = h_index a1" "h_index a3 = h_index a2"
    using Heap_registry_steps [of h "Inr a0" a1] s(1-3)
    by (auto simp: Heap_flush_data_def Heap_sync_data_def Let_def split: prod.splits)
  then show "staged_writes (ix_paged_file (h_index h')) = []"
    using s(4) ok(2) flush_Inr pf_settledD(3) by (fastforce simp: Heap_flush_index_def split: prod.splits)
qed

lemma insert_left:
  assumes t: "append_tidy h" "sound steady lim ilim h" and q: "quiet h" and left: "left_as h hm" "sound steady lim ilim hm"
    and len: "record_len (h_data h) payload \<le> OFF_MAX"
    and c: "Heap_insert_into D append_placement h bucket payload = (Inr rid, h')" and rid: "unat rid < ID_MAX"
  shows "quiet h' \<and> operations_since_sync h' = operations_since_sync h + 1 \<and>
    (left_as h' h' \<or> left_as h' hm \<and> \<not> due (h_config h) (operations_since_sync h'))"
proof -
  let ?total = "of_nat (record_len (h_data h) payload) :: u64" and ?p = "h_placement h"
  note t' = insert_tidy [OF t len c rid]
  obtain off h1 h2 h3 where a: "Heap_alloc D append_placement h bucket ?total = (Inr (off, rid), h1)"
    and s: "Heap_stage_record D h1 off bucket rid 1 payload = (Inr (), h2)"
      "Heap_stage_slot D h2 rid (Some \<lparr>sl_offset = off, sl_total_len = ?total\<rparr>) = (Inr (), h3)" "Heap_after_write D h3 = (Inr (), h')"
    using c by (auto simp: Heap_insert_into_def Let_def total_len_record elim!: and_then_Inr)
  obtain io p df reg where al: "AppendPlacement_alloc D (h_io h) (h_config h) ?p (h_data h) (h_registry h) bucket ?total =
      (Inr (off, rid), io, p, df, reg)" and h1: "h1 = h\<lparr>h_io := io, h_placement := p, h_data := df, h_registry := reg\<rparr>"
    using a by (auto simp: Heap_alloc_def append_placement_simps split: prod.splits)
  obtain pf where e: "PagedFile_ensure_alloc (df_paged_file (h_data h)) (ap_cursor ?p + ?total) (growth (h_config h)) = (Inr (), pf)"
    and r: "off = ap_cursor ?p" "rid = ap_next_id ?p" "df = (h_data h)\<lparr>df_paged_file := pf\<rparr>"
    using append_alloc_eq [OF al] by blast
  note ok = heap_okD(1-3) [OF append_tidyD(1) [OF t(1)]]
  note alloc = alloc_unsynced [OF e ok(1,2) len] and longer = ensure_alloc_longer [OF e]
  \<comment> \<open>the record is staged behind what is staged\<close>
  let ?parts = "[header_bytes (record_header (df_integrity df) bucket rid 1 payload) (df_with_bucket df), payload]"
  obtain io2 pf2 where d: "PagedFile_stage D io pf off ?parts = (Inr (), io2, pf2)" and h2: "h2 = h1\<lparr>h_io := io2, h_data := df\<lparr>df_paged_file := pf2\<rparr>\<rparr>"
    using s(1) unfolding Heap_stage_record_def DataFile_stage_record_def Let_def encode_record_header record_header_def [symmetric]
    by (auto simp: h1 r(3) split: prod.splits)
  have plen: "parts_len ?parts = record_len (h_data h) payload" by (simp add: parts_len_def record_len_def r(3))
  have "trailing pf (unat off)" using q longer by (simp add: quiet_def trailing_def r(1))
  have dlen: "unat off + parts_len ?parts \<le> OFF_MAX" using alloc(3) r(1) plen by (simp add: record_len_def)
  from stage_trailing [OF d alloc(1) dlen \<open>trailing pf (unat off)\<close>] have data: "pf_file pf2 = pf_file pf" "trailing pf2 (unat off + record_len (h_data h) payload)"
    unfolding plen by simp_all
  \<comment> \<open>and so is its slot\<close>
  obtain bs io3 pf3 where i: "PagedFile_stage D io2 (ix_paged_file (h_index h)) (Slot_file_offset rid) [bs] = (Inr (), io3, pf3)"
    and bs: "length bs = 16" and h3: "h3 = h2\<lparr>h_io := io3, h_index := (h_index h)\<lparr>ix_paged_file := pf3\<rparr>\<rparr>"
    using s(2) by (auto simp: Heap_stage_slot_def IndexFile_stage_slot_def Let_def Slot_encode_eq SLOT_SIZE_def h2 h1 split: prod.splits)
  have so: "unat (Slot_file_offset rid) = 4096 + unat rid * 16" by (rule unat_Slot_file_offset) (use rid in simp)
  have "trailing (ix_paged_file (h_index h)) (unat (Slot_file_offset rid))" using q by (simp add: quiet_def r(2))
  have ilen: "unat (Slot_file_offset rid) + parts_len [bs] \<le> OFF_MAX" using rid so bs by (simp add: parts_len_def)
  from stage_trailing [OF i ok(3) ilen \<open>trailing (ix_paged_file (h_index h)) (unat (Slot_file_offset rid))\<close>] have index: "pf_file pf3 = pf_file (ix_paged_file (h_index h))" "trailing pf3 (unat (Slot_file_offset rid) + 16)"
    using bs by (simp_all add: parts_len_def)
  have place: "unat (ap_cursor (h_placement h')) = unat off + record_len (h_data h) payload" "ap_next_id (h_placement h') = rid + 1"
    using t' r by (simp_all add: effect_def wrote_def)
  have "unat (rid + 1) = unat rid + 1" using rid by (simp add: unat_add_nowrap)
  then have so': "unat (Slot_file_offset (rid + 1)) = unat (Slot_file_offset rid) + 16"
    using rid so unat_Slot_file_offset [of "rid + 1"] by simp
  have h3': "h_data h3 = df\<lparr>df_paged_file := pf2\<rparr>" "ix_paged_file (h_index h3) = pf3" "h_config h3 = h_config h"
      "operations_since_sync h3 = operations_since_sync h"
    by (simp_all add: h3 h2 h1)
  let ?h = "h3\<lparr>operations_since_sync := operations_since_sync h3 + 1\<rparr>"
  show ?thesis
    using after_write_cases [OF s(3)]
  proof
    assume n: "h' = ?h \<and> \<not> due (h_config h3) (operations_since_sync h3 + 1)"
    then have h': "h_data h' = df\<lparr>df_paged_file := pf2\<rparr>" "ix_paged_file (h_index h') = pf3" using h3' by simp_all
    then have "quiet h'" using data(2) index(2) place so' by (simp add: quiet_def)
    moreover have "left_as h' hm"
      by (rule left_longer [OF left(1) _ t(2) left(2)]) (use t' longer data(1) index(1) h' in auto)
    ultimately show ?thesis using n h3' by simp
  next
    assume cm: "Heap_commit D ?h = (Inr (), h')"
    have "pf_ok (df_paged_file (h_data ?h))" "pf_ok (ix_paged_file (h_index ?h))"
      using stage_Inr [OF d alloc(1) dlen] stage_Inr [OF i ok(3) ilen] by (simp_all add: h3')
    note st = commit_settles [OF cm this]
    then have "quiet h'" "left_as h' h'" using t' settled_left by (auto simp: quiet_def trailing_Nil)
    moreover have "operations_since_sync h' = operations_since_sync h + 1" using commit_counter [OF cm] h3' by simp
    ultimately show ?thesis by blast
  qed
qed

end

end
