(* ===== verification/Kill_Log.thy ===== *)
theory Kill_Log
  imports Prelude
begin

text \<open>
  The log of \<open>src/src/bin/crash.rs\<close>: lines of decimal numbers that its child process writes and that
  the parent reads back after it has killed the child, with what both use of the standard library
  (\<open>to_string\<close>, \<open>parse\<close>, \<open>lines\<close>, \<open>split_whitespace\<close>). The log is ASCII. Shown: the parent finds exactly
  the pairs that the child has confirmed, in order, and the pairs that follow the last confirmation.
\<close>

section \<open>Decimal numbers\<close>

definition digit :: "nat \<Rightarrow> char" where
  "digit d = char_of (48 + d)"

fun show_nat :: "nat \<Rightarrow> string" where
  "show_nat n = (if n < 10 then [digit n] else show_nat (n div 10) @ [digit (n mod 10)])"

declare show_nat.simps [simp del]

definition show_u64 :: "u64 \<Rightarrow> string" where
  "show_u64 w = show_nat (unat w)"

definition is_digit :: "char \<Rightarrow> bool" where
  "is_digit c \<longleftrightarrow> 48 \<le> (of_char c :: nat) \<and> (of_char c :: nat) \<le> 57"

definition digits_value :: "string \<Rightarrow> nat" where
  "digits_value s = foldl (\<lambda>n c. n * 10 + (of_char c - 48)) 0 s"

text \<open>\<open>str::parse::<u64>\<close>: a sign, digits, and no overflow.\<close>

definition parse_u64 :: "string \<Rightarrow> u64 option" where
  "parse_u64 s =
     (let ds = (case s of c # cs \<Rightarrow> if c = CHR ''+'' then cs else s | [] \<Rightarrow> [])
      in if ds = [] \<or> \<not> list_all is_digit ds then None
         else if digits_value ds < 2 ^ 64 then Some (of_nat (digits_value ds)) else None)"

section \<open>Lines and fields\<close>

definition newline :: char where
  "newline = CHR 0x0A"

text \<open>\<open>BufRead::lines\<close>: a line ends with a line feed, and a carriage return before it is dropped.\<close>

definition drop_cr :: "string \<Rightarrow> string" where
  "drop_cr s = (if s \<noteq> [] \<and> last s = CHR 0x0D then butlast s else s)"

function lines_of :: "string \<Rightarrow> string list" where
  "lines_of s =
     (if s = [] then []
      else let line = takeWhile (\<lambda>c. c \<noteq> newline) s; rest = dropWhile (\<lambda>c. c \<noteq> newline) s
        in (if rest = [] then [line] else drop_cr line # lines_of (tl rest)))"
  by pat_completeness auto
termination
proof (relation "measure length")
  fix s rest line :: string
  assume "s \<noteq> []" and "rest = dropWhile (\<lambda>c. c \<noteq> newline) s" and "rest \<noteq> []"
  then have "length (tl rest) < length rest" "length rest \<le> length s" using length_dropWhile_le by auto
  then show "(tl rest, s) \<in> measure length" by simp
qed simp

declare lines_of.simps [simp del]

definition is_whitespace :: "char \<Rightarrow> bool" where
  "is_whitespace c \<longleftrightarrow> c = CHR '' '' \<or> 9 \<le> (of_char c :: nat) \<and> (of_char c :: nat) \<le> 13"

function words_of :: "string \<Rightarrow> string list" where
  "words_of s =
     (let s = dropWhile is_whitespace s
      in if s = [] then [] else takeWhile (\<lambda>c. \<not> is_whitespace c) s # words_of (dropWhile (\<lambda>c. \<not> is_whitespace c) s))"
  by pat_completeness auto
termination
proof (relation "measure length")
  fix s t :: string
  assume t: "t = dropWhile is_whitespace s" "t \<noteq> []"
  then have "\<not> is_whitespace (hd t)" using hd_dropWhile by metis
  with t(2) have "length (dropWhile (\<lambda>c. \<not> is_whitespace c) t) < length t"
    by (cases t) (auto simp: le_imp_less_Suc length_dropWhile_le)
  also have "\<dots> \<le> length s" using t(1) length_dropWhile_le by simp
  finally show "(dropWhile (\<lambda>c. \<not> is_whitespace c) t, s) \<in> measure length" by simp
qed simp

declare words_of.simps [simp del]

section \<open>Writing and reading the log\<close>

text \<open>\<open>format!("{key} {id}\n")\<close> and \<open>format!("C {key}\n")\<close>.\<close>

definition log_line :: "u64 \<Rightarrow> u64 \<Rightarrow> string" where
  "log_line key rid = show_u64 key @ '' '' @ show_u64 rid @ [newline]"

definition confirm_line :: "u64 \<Rightarrow> string" where
  "confirm_line key = ''C '' @ show_u64 key @ [newline]"

text \<open>The confirmed pairs and the ones after the last confirmation, with one more line.\<close>

definition read_line :: "(u64 \<times> u64) list \<times> (u64 \<times> u64) list \<Rightarrow> string \<Rightarrow> (u64 \<times> u64) list \<times> (u64 \<times> u64) list" where
  "read_line p line =
     (let (confirmed, tail) = p in
      case words_of line of
        [a, b] \<Rightarrow>
          if a = ''C'' then (confirmed @ tail, [])
          else (case (parse_u64 a, parse_u64 b) of (Some key, Some rid) \<Rightarrow> (confirmed, tail @ [(key, rid)]) | _ \<Rightarrow> (confirmed, tail))
      | _ \<Rightarrow> (confirmed, tail))"

definition read_log :: "string option \<Rightarrow> (u64 \<times> u64) list \<times> (u64 \<times> u64) list" where
  "read_log contents = (case contents of None \<Rightarrow> ([], []) | Some text \<Rightarrow> foldl read_line ([], []) (lines_of text))"

section \<open>Numbers come back\<close>

lemma of_char_digit: "d < 10 \<Longrightarrow> of_char (digit d) = 48 + d"
  by (simp add: digit_def)

lemma digits_value_snoc: "digits_value (s @ [c]) = digits_value s * 10 + (of_char c - 48)"
  by (simp add: digits_value_def)

lemma show_nat_digits: "show_nat n \<noteq> []" "list_all is_digit (show_nat n)" "digits_value (show_nat n) = n"
proof (induction n rule: show_nat.induct)
  case (1 n)
  { case 1 show ?case by (simp add: show_nat.simps [of n]) next
    case 2
    have "n mod 10 \<le> 9" by presburger
    then show ?case using "1.IH"(2) by (simp add: show_nat.simps [of n] is_digit_def of_char_digit) next
    case 3 show ?case using "1.IH"(3)
      by (cases "n < 10") (simp_all add: show_nat.simps [of n] digits_value_snoc of_char_digit digits_value_def) }
qed

lemma digit_no_space: "is_digit c \<Longrightarrow> \<not> is_whitespace c \<and> c \<noteq> newline \<and> c \<noteq> CHR ''+'' \<and> c \<noteq> CHR 0x0D \<and> c \<noteq> CHR ''C''"
  by (auto simp: is_digit_def is_whitespace_def newline_def)

lemma show_u64_digits: "show_u64 w \<noteq> []" "\<forall>c \<in> set (show_u64 w). is_digit c"
  using show_nat_digits [of "unat w"] by (simp_all add: show_u64_def list_all_iff)

lemma parse_show_u64: "parse_u64 (show_u64 w) = Some w"
proof -
  obtain c cs where s: "show_u64 w = c # cs" using show_u64_digits(1) by (cases "show_u64 w") auto
  then have "c \<noteq> CHR ''+''" using show_u64_digits(2) [of w] digit_no_space by auto
  then show ?thesis
    using s show_nat_digits [of "unat w"] by (simp add: parse_u64_def Let_def show_u64_def word_unat_eq_iff unat_of_nat_nowrap)
qed

section \<open>Lines come back\<close>

lemma lines_of_line:
  assumes "newline \<notin> set l" and "CHR 0x0D \<notin> set l"
  shows "lines_of (l @ newline # rest) = l # lines_of rest"
proof -
  have "takeWhile (\<lambda>c. c \<noteq> newline) (l @ newline # rest) = l" "dropWhile (\<lambda>c. c \<noteq> newline) (l @ newline # rest) = newline # rest"
    using assms(1) by (auto simp: takeWhile_append dropWhile_append)
  moreover have "drop_cr l = l" using assms(2) last_in_set [of l] by (metis drop_cr_def)
  ultimately show ?thesis by (simp add: lines_of.simps [of "l @ newline # rest"])
qed

lemma words_of_space: "list_all is_whitespace s \<Longrightarrow> words_of s = []"
  by (auto simp: words_of.simps [of s] Let_def dropWhile_eq_Nil_conv list_all_iff)

lemma words_of_word:
  assumes "s \<noteq> []" and "list_all (\<lambda>c. \<not> is_whitespace c) s" and "rest = [] \<or> is_whitespace (hd rest)"
  shows "words_of (s @ rest) = s # words_of rest"
proof -
  have "dropWhile is_whitespace (s @ rest) = s @ rest" using assms(1,2) by (cases s) auto
  moreover have "takeWhile (\<lambda>c. \<not> is_whitespace c) (s @ rest) = s" "dropWhile (\<lambda>c. \<not> is_whitespace c) (s @ rest) = rest"
    using assms(2,3) by (cases rest; auto simp: takeWhile_append dropWhile_append list_all_iff)+
  ultimately show ?thesis using assms(1) by (simp add: words_of.simps [of "s @ rest"] Let_def)
qed

lemma words_of_skip: "is_whitespace c \<Longrightarrow> words_of (c # s) = words_of s"
  by (simp add: words_of.simps [of "c # s"] words_of.simps [of s])

lemma space: "is_whitespace (CHR '' '')"
  by (simp add: is_whitespace_def)

lemma words_of_two:
  assumes "a \<noteq> []" "b \<noteq> []" and "list_all (\<lambda>c. \<not> is_whitespace c) a" "list_all (\<lambda>c. \<not> is_whitespace c) b"
  shows "words_of (a @ CHR '' '' # b) = [a, b]"
  using words_of_word [OF assms(1,3), of "CHR '' '' # b"] words_of_word [OF assms(2,4), of "[]"] space
  by (simp add: words_of_skip words_of_space)

lemma show_u64_word: "list_all (\<lambda>c. \<not> is_whitespace c) (show_u64 w)" "newline \<notin> set (show_u64 w)" "CHR 0x0D \<notin> set (show_u64 w)"
  using show_u64_digits(2) [of w] digit_no_space by (auto simp: list_all_iff)

lemma newline_other [simp]: "newline \<noteq> CHR '' ''" "newline \<noteq> CHR ''C''"
  by (simp_all add: newline_def)

lemma lines_of_log_line: "lines_of (log_line key rid @ rest) = (show_u64 key @ CHR '' '' # show_u64 rid) # lines_of rest"
proof -
  let ?l = "show_u64 key @ CHR '' '' # show_u64 rid"
  have "newline \<notin> set ?l" "CHR 0x0D \<notin> set ?l" using show_u64_word by simp_all
  from lines_of_line [OF this] show ?thesis by (simp add: log_line_def)
qed

lemma lines_of_confirm_line: "lines_of (confirm_line key @ rest) = (CHR ''C'' # CHR '' '' # show_u64 key) # lines_of rest"
proof -
  let ?l = "CHR ''C'' # CHR '' '' # show_u64 key"
  have "newline \<notin> set ?l" "CHR 0x0D \<notin> set ?l" using show_u64_word by simp_all
  from lines_of_line [OF this] show ?thesis by (simp add: confirm_line_def)
qed

lemma read_log_line: "read_line (confirmed, tail) (show_u64 key @ CHR '' '' # show_u64 rid) = (confirmed, tail @ [(key, rid)])"
proof -
  have "show_u64 key \<noteq> ''C''" using show_u64_digits(2) [of key] digit_no_space by (metis list.set_intros(1))
  moreover have "words_of (show_u64 key @ CHR '' '' # show_u64 rid) = [show_u64 key, show_u64 rid]"
    using show_u64_digits(1) show_u64_word(1) by (intro words_of_two)
  ultimately show ?thesis by (simp add: read_line_def parse_show_u64)
qed

lemma read_confirm_line: "read_line (confirmed, tail) (CHR ''C'' # CHR '' '' # show_u64 key) = (confirmed @ tail, [])"
proof -
  have "words_of (''C'' @ CHR '' '' # show_u64 key) = [''C'', show_u64 key]"
    using show_u64_digits(1) show_u64_word(1) by (intro words_of_two) (simp_all add: is_whitespace_def)
  then show ?thesis by (simp add: read_line_def)
qed

text \<open>What the child writes: the lines of the pairs of one batch, and its confirmation.\<close>

definition log_lines :: "(u64 \<times> u64) list \<Rightarrow> string" where
  "log_lines pairs = concat (map (\<lambda>(key, rid). log_line key rid) pairs)"

lemma log_lines_simps [simp]:
  "log_lines [] = []" "log_lines (p # pairs) = log_line (fst p) (snd p) @ log_lines pairs" "log_lines (pairs @ pairs') = log_lines pairs @ log_lines pairs'"
  by (simp_all add: log_lines_def split: prod.split)

lemma read_log_lines:
  "foldl read_line (confirmed, tail) (lines_of (log_lines pairs @ rest)) = foldl read_line (confirmed, tail @ pairs) (lines_of rest)"
  by (induction pairs arbitrary: tail) (simp_all add: lines_of_log_line read_log_line)

lemma read_batch_lines:
  "foldl read_line (confirmed, []) (lines_of (log_lines pairs @ confirm_line key @ rest)) = foldl read_line (confirmed @ pairs, []) (lines_of rest)"
  by (simp add: read_log_lines lines_of_confirm_line read_confirm_line)

definition batch_lines :: "((u64 \<times> u64) list \<times> u64) list \<Rightarrow> string" where
  "batch_lines batches = concat (map (\<lambda>(pairs, key). log_lines pairs @ confirm_line key) batches)"

lemma read_batches:
  "foldl read_line (confirmed, []) (lines_of (batch_lines batches @ rest)) = foldl read_line (confirmed @ concat (map fst batches), []) (lines_of rest)"
  by (induction batches arbitrary: confirmed) (auto simp: batch_lines_def read_batch_lines)

lemma lines_of_Nil [simp]: "lines_of [] = []"
  by (simp add: lines_of.simps)

section \<open>A log that is cut off\<close>

lemma set_lines_of: "l \<in> set (lines_of s) \<Longrightarrow> set l \<subseteq> set s"
proof (induction s rule: lines_of.induct)
  case (1 s)
  let ?line = "takeWhile (\<lambda>c. c \<noteq> newline) s" and ?rest = "dropWhile (\<lambda>c. c \<noteq> newline) s"
  have line: "set ?line \<subseteq> set s" "set (drop_cr ?line) \<subseteq> set ?line"
    by (meson set_takeWhileD subsetI) (simp add: drop_cr_def subset_iff in_set_butlastD)
  have "set ?rest \<subseteq> set s" by (meson set_dropWhileD subsetI)
  moreover have "set (tl r) \<subseteq> set r" for r :: string by (cases r) auto
  ultimately have rest: "set (tl ?rest) \<subseteq> set s" by blast
  show ?case
  proof (cases "s = [] \<or> ?rest = []")
    case True
    with 1(2) line(1) show ?thesis by (auto simp: lines_of.simps [of s] split: if_splits)
  next
    case False
    with 1(2) have "l = drop_cr ?line \<or> l \<in> set (lines_of (tl ?rest))" by (auto simp: lines_of.simps [of s] Let_def split: if_splits)
    then show ?thesis using line rest 1(1) [OF _ refl refl] False by blast
  qed
qed

lemma set_words_of: "w \<in> set (words_of s) \<Longrightarrow> set w \<subseteq> set s"
proof (induction s rule: words_of.induct)
  case (1 s)
  let ?s = "dropWhile is_whitespace s"
  have "set ?s \<subseteq> set s" using set_dropWhileD by fastforce
  moreover have "w = takeWhile (\<lambda>c. \<not> is_whitespace c) ?s \<or> w \<in> set (words_of (dropWhile (\<lambda>c. \<not> is_whitespace c) ?s))" "?s \<noteq> []"
    using 1(2) by (auto simp: words_of.simps [of s] Let_def split: if_splits)
  ultimately show ?case using 1(1) [OF refl] by (fastforce dest: set_takeWhileD set_dropWhileD)
qed

text \<open>Without a letter C nothing is confirmed.\<close>

lemma read_line_no_C: "CHR ''C'' \<notin> set l \<Longrightarrow> fst (read_line p l) = fst p"
proof -
  assume "CHR ''C'' \<notin> set l"
  then have "''C'' \<notin> set (words_of l)" using set_words_of [of "''C''" l] by auto
  then show ?thesis by (auto simp: read_line_def split: prod.split list.split option.split)
qed

lemma read_lines_no_C: "\<forall>l \<in> set ls. CHR ''C'' \<notin> set l \<Longrightarrow> fst (foldl read_line p ls) = fst p"
  by (induction ls arbitrary: p) (simp_all add: read_line_no_C)

lemma log_lines_no_C: "CHR ''C'' \<notin> set (log_lines pairs)"
proof -
  have "CHR ''C'' \<notin> set (log_line key rid)" for key rid
    using show_u64_digits(2) digit_no_space by (fastforce simp: log_line_def newline_def)
  then show ?thesis by (auto simp: log_lines_def)
qed

lemma confirm_cut:
  "read_line (confirmed, tail) (take j (CHR ''C'' # CHR '' '' # show_u64 key)) \<in> {(confirmed, tail), (confirmed @ tail, [])}"
proof -
  let ?w = "show_u64 key"
  have C: "list_all (\<lambda>c. \<not> is_whitespace c) ''C''" by (simp add: is_whitespace_def)
  have one: "words_of (''C'' @ s) = [''C'']" if "s = [] \<or> s = '' ''" for s
    using words_of_word [OF _ C, of s] that space by (auto simp: words_of_skip words_of_space)
  consider "j = 0" | "j = 1" | k where "j = Suc (Suc k)" by (metis One_nat_def not0_implies_Suc)
  then show ?thesis
  proof cases
    case (3 k)
    show ?thesis
    proof (cases "take k ?w = []")
      case True
      with 3 have "take j (CHR ''C'' # CHR '' '' # ?w) = ''C'' @ '' ''" by simp
      then show ?thesis using one [of "'' ''"] by (simp add: read_line_def)
    next
      case False
      have "list_all (\<lambda>c. \<not> is_whitespace c) (take k ?w)" using show_u64_word(1) [of key] by (auto simp: list_all_iff dest: in_set_takeD)
      from words_of_two [OF _ False C this] 3 show ?thesis by (simp add: read_line_def)
    qed
  qed (use one [of "[]"] in \<open>simp_all add: read_line_def words_of_space\<close>)
qed

lemma lines_of_last: "newline \<notin> set s \<Longrightarrow> lines_of s = (if s = [] then [] else [s])"
  by (auto simp: lines_of.simps [of s] Let_def takeWhile_eq_all_conv dropWhile_eq_Nil_conv)

lemma read_cut:
  "fst (foldl read_line (confirmed, []) (lines_of (take k (log_lines pairs @ confirm_line key)))) \<in> {confirmed, confirmed @ pairs}"
proof (cases "k \<le> length (log_lines pairs)")
  case True
  then have "CHR ''C'' \<notin> set (take k (log_lines pairs @ confirm_line key))"
    using log_lines_no_C by (auto dest: in_set_takeD)
  then have "\<forall>l \<in> set (lines_of (take k (log_lines pairs @ confirm_line key))). CHR ''C'' \<notin> set l" using set_lines_of by blast
  from read_lines_no_C [OF this] show ?thesis by simp
next
  case False
  let ?c = "CHR ''C'' # CHR '' '' # show_u64 key" and ?j = "k - length (log_lines pairs)"
  have "take k (log_lines pairs @ confirm_line key) = log_lines pairs @ take ?j (?c @ [newline])"
    using False by (simp add: confirm_line_def)
  then have "foldl read_line (confirmed, []) (lines_of (take k (log_lines pairs @ confirm_line key))) =
      foldl read_line (confirmed, pairs) (lines_of (take ?j (?c @ [newline])))"
    by (simp only: read_log_lines append_Nil)
  also have "\<dots> \<in> {(confirmed, pairs), (confirmed @ pairs, [])}"
  proof (cases "?j \<le> length ?c")
    case True
    then have cut: "take ?j (?c @ [newline]) = take ?j ?c" unfolding take_append by (simp only: diff_is_0_eq' take_0 append_Nil2)
    have "newline \<notin> set (take ?j ?c)" using show_u64_word(2) by (auto dest!: in_set_takeD)
    then show ?thesis unfolding cut using confirm_cut [of confirmed pairs ?j key] by (simp add: lines_of_last)
  next
    case False
    then have "take ?j (?c @ [newline]) = confirm_line key @ []" by (simp add: confirm_line_def)
    then show ?thesis by (simp only: lines_of_confirm_line) (simp add: read_confirm_line)
  qed
  finally show ?thesis by auto
qed

text \<open>A line that ends in the middle of a number gives a pair that was never logged.\<close>

lemma torn_number: "read_log (Some (take 5 (log_line 12 345))) = ([], [(12, 34)])"
proof -
  have shown: "show_u64 12 = [digit 1, digit 2]" "show_u64 34 = [digit 3, digit 4]" "show_u64 345 = [digit 3, digit 4, digit 5]"
    by (simp_all add: show_u64_def show_nat.simps)
  have "newline \<notin> set (show_u64 12)" "newline \<notin> set (show_u64 34)" using show_u64_word(2) by simp_all
  moreover have "take 5 (log_line 12 345) = show_u64 12 @ CHR '' '' # show_u64 34" by (simp add: log_line_def shown)
  ultimately have "lines_of (take 5 (log_line 12 345)) = [show_u64 12 @ CHR '' '' # show_u64 34]"
    by (simp add: lines_of_last newline_def)
  then show ?thesis by (simp add: read_log_def read_log_line)
qed

section \<open>Properties\<close>

text \<open>
  C30: from a complete log of the child the parent reads exactly the pairs of the confirmed batches, in
  order, and separately the pairs after the last confirmation. Where the last batch of the log is cut off
  anywhere, the pairs read as confirmed are exactly those of the earlier batches, or those and the whole
  of the last batch. Nothing is said of the tail of such a log: a number that is cut in two is read as a
  shorter one (\<open>torn_number\<close>).
\<close>

theorem log_roundtrip:
  "read_log (Some (batch_lines batches @ log_lines tail)) = (concat (map fst batches), tail) \<and>
   fst (read_log (Some (batch_lines batches @ take k (log_lines pairs @ confirm_line key)))) \<in>
     {concat (map fst batches), concat (map fst batches) @ pairs}"
proof
  show "read_log (Some (batch_lines batches @ log_lines tail)) = (concat (map fst batches), tail)"
    using read_batches [of "[]" batches "log_lines tail"] read_log_lines [of "concat (map fst batches)" "[]" tail "[]"]
    by (simp add: read_log_def)
  show "fst (read_log (Some (batch_lines batches @ take k (log_lines pairs @ confirm_line key)))) \<in>
     {concat (map fst batches), concat (map fst batches) @ pairs}"
    using read_batches [of "[]" batches "take k (log_lines pairs @ confirm_line key)"] read_cut [of "concat (map fst batches)" k pairs key]
    by (simp only: read_log_def option.case append_Nil)
qed

end
