(* ===== verification/Measure.thy ===== *)
theory Measure
  imports Prelude
begin

text \<open>
  The measurements of the benchmarks, \<open>src/src/measure.rs\<close>: percentiles and medians of samples and the
  text of a table of results. Percentiles are computed in double precision; the sources only multiply,
  by one of three constants, and round, which is done here exactly on natural numbers. Shown: the
  percentiles are the samples of the nearest rank, medians lie in the middle, and a line of a table has the
  fields that were written.
\<close>

section \<open>Double precision\<close>

text \<open>A natural number to 53 bits: to the nearest, from the middle to the even one.\<close>

fun bit_length :: "nat \<Rightarrow> nat" where
  "bit_length n = (if n = 0 then 0 else Suc (bit_length (n div 2)))"

declare bit_length.simps [simp del]

definition round53 :: "nat \<Rightarrow> nat" where
  "round53 n =
     (let s = bit_length n - 53; q = n div 2 ^ s; r = n mod 2 ^ s
      in (if 2 ^ s < 2 * r \<or> 2 * r = 2 ^ s \<and> odd q then q + 1 else q) * 2 ^ s)"

text \<open>
  \<open>((samples.len() - 1) as f64 * percentile).round() as usize\<close>. A percentile is given by the integer
  \<open>p\<close> with the value \<open>p / 2 ^ 53\<close>: the constants of the sources are doubles between 1/2 and 1.
  Scaling by a power of two does not change how a product is rounded; \<open>round\<close> rounds halves up.
\<close>

definition percentile_index :: "nat \<Rightarrow> nat \<Rightarrow> nat" where
  "percentile_index n p = (round53 (round53 n * p) + 2 ^ 52) div 2 ^ 53"

text \<open>The doubles \<open>0.50\<close>, \<open>0.95\<close> and \<open>0.99\<close>.\<close>

definition P50 :: nat where "P50 = 4503599627370496"
definition P95 :: nat where "P95 = 8556839292003942"
definition P99 :: nat where "P99 = 8917127262193582"

section \<open>Statistics\<close>

text \<open>Samples are sorted in place: the functions return the samples as they leave them.\<close>

definition percentile_ns :: "u64 list \<Rightarrow> nat \<Rightarrow> u64 res \<times> u64 list" where
  "percentile_ns samples p =
     (if samples = [] then (Inr 0, samples)
      else let samples = sort samples; i = percentile_index (length samples - 1) p
        in if i < length samples then (Inr (samples ! i), samples)
           else (Inl (Panic ''index out of bounds''), samples))"

record OperationStats =
  iterations :: u64
  p50_ns :: u64
  p95_ns :: u64
  p99_ns :: u64
  total_ns :: u64

definition OperationStats_from_samples :: "u64 list \<Rightarrow> OperationStats res \<times> u64 list" where
  "OperationStats_from_samples samples =
     (let total = sum_list samples in
      and_then (percentile_ns samples P50) (\<lambda>p50 samples.
      and_then (percentile_ns samples P95) (\<lambda>p95 samples.
      and_then (percentile_ns samples P99) (\<lambda>p99 samples.
      (Inr \<lparr>iterations = of_nat (length samples), p50_ns = p50, p95_ns = p95, p99_ns = p99, total_ns = total\<rparr>, samples)))))"

definition median_u64 :: "u64 list \<Rightarrow> u64 res \<times> u64 list" where
  "median_u64 samples =
     (let samples = sort samples; i = length samples div 2
      in (if i < length samples then Inr (samples ! i) else Inl (Panic ''index out of bounds''), samples))"

text \<open>
  A double is the pattern of its bits; \<open>f64::total_cmp\<close> compares the patterns as signed integers, with
  all bits but the sign flipped in the negative ones.
\<close>

definition total_key :: "u64 \<Rightarrow> int" where
  "total_key b = sint (b XOR drop_bit 1 (if sint b < 0 then - 1 else 0))"

definition median_f64 :: "u64 list \<Rightarrow> u64 res \<times> u64 list" where
  "median_f64 samples =
     (let samples = sort_key total_key samples; i = length samples div 2
      in (if i < length samples then Inr (samples ! i) else Inl (Panic ''index out of bounds''), samples))"

section \<open>Tables\<close>

text \<open>The text of a file, or None where there is no file.\<close>

definition Csv_open :: "string option \<Rightarrow> string \<Rightarrow> string" where
  "Csv_open existing header = (case existing of None \<Rightarrow> header @ [CHR 0x0A] | Some contents \<Rightarrow> contents)"

fun join :: "string \<Rightarrow> string list \<Rightarrow> string" where
  "join separator [] = []"
| "join separator [cell] = cell"
| "join separator (cell # cells) = cell @ separator @ join separator cells"

definition Csv_row :: "string \<Rightarrow> string list \<Rightarrow> string" where
  "Csv_row contents cells = contents @ join '','' cells @ [CHR 0x0A]"

section \<open>Rounding\<close>

lemma bit_length_bounds: "n < 2 ^ bit_length n" "0 < n \<Longrightarrow> 2 ^ (bit_length n - 1) \<le> n"
proof (induction n rule: bit_length.induct)
  case (1 n)
  { case 1
    then show ?case using "1.IH"(1) by (cases "n = 0") (simp_all add: bit_length.simps [of n]) }
  { case 2
    show ?case
    proof (cases "n div 2 = 0")
      case True
      with 2 show ?thesis by (simp add: bit_length.simps [of n] bit_length.simps [of 0])
    next
      case False
      then obtain k where k: "bit_length (n div 2) = Suc k" by (simp add: bit_length.simps [of "n div 2"])
      with "1.IH"(2) 2 False have "2 ^ k \<le> n div 2" by simp
      then have "2 ^ bit_length (n div 2) \<le> n" unfolding k by simp
      with 2 show ?thesis by (simp add: bit_length.simps [of n])
    qed }
qed

text \<open>What is rounded away is at most one part in \<open>2 ^ 53\<close>.\<close>

lemma round53_error: "2 ^ 53 * round53 n \<le> (2 ^ 53 + 1) * n" "(2 ^ 53 - 1) * n \<le> 2 ^ 53 * round53 n"
proof -
  define s where "s = bit_length n - 53"
  define q where "q = n div 2 ^ s"
  define r where "r = n mod 2 ^ s"
  have n: "n = q * 2 ^ s + r" "r < 2 ^ s" unfolding q_def r_def by (rule div_mult_mod_eq [symmetric]) simp
  have small: "2 ^ s * 2 ^ 52 \<le> n" if "0 < s"
  proof -
    have "s + 52 = bit_length n - 1" "0 < n" using that by (auto simp: s_def bit_length.simps [of n] split: if_splits)
    with bit_length_bounds(2) [of n] have "2 ^ (s + 52) \<le> n" by metis
    then show ?thesis by (simp only: power_add)
  qed
  have "round53 n = (if 2 ^ s < 2 * r \<or> 2 * r = 2 ^ s \<and> odd q then q + 1 else q) * 2 ^ s"
    by (simp add: round53_def Let_def s_def q_def r_def)
  then have "2 * round53 n \<le> 2 * n + 2 ^ s \<and> 2 * n \<le> 2 * round53 n + 2 ^ s" and exact: "s = 0 \<Longrightarrow> round53 n = n"
    using n by (auto simp: algebra_simps split: if_splits)
  then show "2 ^ 53 * round53 n \<le> (2 ^ 53 + 1) * n" "(2 ^ 53 - 1) * n \<le> 2 ^ 53 * round53 n"
    using small by (cases "s = 0"; simp)+
qed

lemma round53_exact: "n < 2 ^ 53 \<Longrightarrow> round53 n = n"
proof -
  assume "n < 2 ^ 53"
  have "bit_length n \<le> 53"
  proof (rule ccontr)
    assume "\<not> bit_length n \<le> 53"
    then have "0 < n" "53 \<le> bit_length n - 1" by (auto simp: bit_length.simps [of n] split: if_splits)
    then have "(2 :: nat) ^ 53 \<le> 2 ^ (bit_length n - 1)" "2 ^ (bit_length n - 1) \<le> n"
      using bit_length_bounds(2) [of n] by (blast intro: power_increasing order_refl one_le_numeral)+
    with \<open>n < 2 ^ 53\<close> show False by linarith
  qed
  then show ?thesis by (simp add: round53_def)
qed

text \<open>
  For up to \<open>2 ^ 44\<close> samples the errors are too small to matter: the index is a nearest integer to the
  exact share \<open>a / b\<close>, as long as the constant is the nearest double to it.
\<close>

lemma percentile_index_near:
  fixes a b p :: nat
  assumes n: "n < 2 ^ 44" and p: "b * p \<le> a * 2 ^ 53 + b" "a * 2 ^ 53 \<le> b * p + b" "p < 2 ^ 53" and b: "b \<le> 100"
  shows "2 * (b * percentile_index n p) \<le> 2 * (a * n) + b" "2 * (a * n) \<le> 2 * (b * percentile_index n p) + b"
proof -
  define i where "i = percentile_index n p"
  define r where "r = round53 (n * p)"
  have "round53 n = n" using n by (intro round53_exact) simp
  then have "i = (r + 2 ^ 52) div 2 ^ 53" by (simp add: i_def r_def percentile_index_def)
  then have i: "2 ^ 53 * i \<le> r + 2 ^ 52" "r + 2 ^ 52 < 2 ^ 53 * i + 2 ^ 53" by simp_all
  have "n * p \<le> n * 2 ^ 53" using p(3) by (intro mult_left_mono) simp_all
  moreover have "r \<le> x + n" "x \<le> r + n" if "x = n * p" "x \<le> n * 2 ^ 53" for x
    using that(2) round53_error [of x] unfolding r_def that(1) [symmetric] by simp_all
  ultimately have r: "r \<le> n * p + n" "n * p \<le> r + n" by blast+
  have bn: "b * n \<le> 100 * 2 ^ 44" using b n by (intro mult_le_mono) simp_all
  have "n * (b * p) \<le> n * (a * 2 ^ 53 + b)" "n * (a * 2 ^ 53) \<le> n * (b * p + b)" using p(1,2) by (simp_all only: mult_le_mono2)
  then have np: "b * (n * p) \<le> 2 ^ 53 * (a * n) + b * n" "2 ^ 53 * (a * n) \<le> b * (n * p) + b * n" by (simp_all add: algebra_simps)
  have "b * r \<le> b * (n * p + n)" "b * (n * p) \<le> b * (r + n)" using r by (simp_all only: mult_le_mono2)
  then have br: "b * r \<le> b * (n * p) + b * n" "b * (n * p) \<le> b * r + b * n" by (simp_all add: algebra_simps)
  have "b * (2 ^ 53 * i) \<le> b * (r + 2 ^ 52)" "b * (r + 2 ^ 52) \<le> b * (2 ^ 53 * i + 2 ^ 53)" using i by (simp_all only: mult_le_mono2 less_imp_le)
  then have bi: "2 ^ 53 * (b * i) \<le> b * r + b * 2 ^ 52" "b * r + b * 2 ^ 52 \<le> 2 ^ 53 * (b * i) + b * 2 ^ 53" by (simp_all add: algebra_simps)
  show "2 * (b * percentile_index n p) \<le> 2 * (a * n) + b" "2 * (a * n) \<le> 2 * (b * percentile_index n p) + b"
    using bi br np bn by (simp_all flip: i_def)
qed

section \<open>Ranks\<close>

text \<open>An index is a nearest integer to the share \<open>a / b\<close> of \<open>n\<close>.\<close>

definition near :: "nat \<Rightarrow> nat \<Rightarrow> nat \<Rightarrow> nat \<Rightarrow> bool" where
  "near a b n i \<longleftrightarrow> 2 * (b * i) \<le> 2 * (a * n) + b \<and> 2 * (a * n) \<le> 2 * (b * i) + b"

lemma percentile_indices:
  assumes n: "n < 2 ^ 44"
  shows "near 1 2 n (percentile_index n P50)" "near 19 20 n (percentile_index n P95)" "near 99 100 n (percentile_index n P99)"
proof -
  have "2 * P50 \<le> 1 * 2 ^ 53 + 2" "1 * 2 ^ 53 \<le> 2 * P50 + 2" "P50 < 2 ^ 53" by (simp_all add: P50_def)
  from percentile_index_near [OF n this] show "near 1 2 n (percentile_index n P50)" by (simp add: near_def)
  have "20 * P95 \<le> 19 * 2 ^ 53 + 20" "19 * 2 ^ 53 \<le> 20 * P95 + 20" "P95 < 2 ^ 53" by (simp_all add: P95_def)
  from percentile_index_near [OF n this] show "near 19 20 n (percentile_index n P95)" by (simp add: near_def)
  have "100 * P99 \<le> 99 * 2 ^ 53 + 100" "99 * 2 ^ 53 \<le> 100 * P99 + 100" "P99 < 2 ^ 53" by (simp_all add: P99_def)
  from percentile_index_near [OF n this] show "near 99 100 n (percentile_index n P99)" by (simp add: near_def)
qed

lemma near_order:
  assumes "near 1 2 n i" and "near 19 20 n j" and "near 99 100 n k"
  shows "i \<le> j" "j \<le> k" "k \<le> n"
  using assms unfolding near_def by linarith+

lemma percentile_ns_sorted:
  "percentile_ns (sort samples) p = percentile_ns samples p"
  if "samples \<noteq> []"
  using that by (simp add: percentile_ns_def Let_def sorted_sort_id) (metis length_0_conv length_sort)

lemma percentile_ns_nth:
  assumes "samples \<noteq> []" and "percentile_index (length samples - 1) p \<le> length samples - 1"
  shows "percentile_ns samples p = (Inr (sort samples ! percentile_index (length samples - 1) p), sort samples)"
proof -
  have "percentile_index (length samples - 1) p < length samples" using assms by (cases samples) auto
  with assms(1) show ?thesis by (simp add: percentile_ns_def Let_def)
qed

lemma from_samples_result:
  assumes "samples \<noteq> []" and "length samples \<le> 2 ^ 44"
  defines "n \<equiv> length samples - 1" and "ranked \<equiv> sort samples"
  shows "OperationStats_from_samples samples =
    (Inr \<lparr>iterations = of_nat (length samples), p50_ns = ranked ! percentile_index n P50,
       p95_ns = ranked ! percentile_index n P95, p99_ns = ranked ! percentile_index n P99, total_ns = sum_list samples\<rparr>, ranked)"
proof -
  have "n < 2 ^ 44" using assms(1,2) by (cases samples) (auto simp: n_def)
  note order = near_order [OF percentile_indices [OF this]]
  have "percentile_ns samples p = (Inr (ranked ! percentile_index n p), ranked)"
      "percentile_ns ranked p = (Inr (ranked ! percentile_index n p), ranked)"
    if "p = P50 \<or> p = P95 \<or> p = P99" for p
    using percentile_ns_nth [OF assms(1), of p] percentile_ns_sorted [OF assms(1), of p] that order
    by (auto simp: n_def ranked_def)
  moreover have "length ranked = length samples" by (simp add: ranked_def)
  ultimately show ?thesis by (simp add: OperationStats_from_samples_def Let_def)
qed

text \<open>The middle of a sorted list has at most half of the list on either side.\<close>

lemma middle_of_sorted:
  fixes samples :: "'a list" and f :: "'a \<Rightarrow> 'b::linorder"
  assumes "samples \<noteq> []"
  defines "m \<equiv> sort_key f samples ! (length samples div 2)"
  shows "m \<in> set samples" "2 * length (filter (\<lambda>v. f v < f m) samples) \<le> length samples"
    "2 * length (filter (\<lambda>v. f m < f v) samples) \<le> length samples"
proof -
  let ?s = "sort_key f samples" and ?i = "length samples div 2"
  have i: "?i < length ?s" using assms(1) by simp
  then have "m \<in> set ?s" unfolding m_def by (rule nth_mem)
  then show "m \<in> set samples" by simp
  have mono: "f (?s ! j) \<le> f (?s ! k)" if "j \<le> k" "k < length ?s" for j k
    using sorted_nth_mono [of "map f ?s" j k] that by simp
  have count: "length (filter P samples) = card {j. j < length samples \<and> P (?s ! j)}" for P
  proof -
    have "length (filter P samples) = length (filter P ?s)" by (simp add: filter_sort)
    then show ?thesis by (simp add: length_filter_conv_card)
  qed
  have "{j. j < length samples \<and> f (?s ! j) < f m} \<subseteq> {..<?i}"
    using mono i unfolding m_def by (auto simp: not_less [symmetric] dest: leD)
  from card_mono [OF _ this] show "2 * length (filter (\<lambda>v. f v < f m) samples) \<le> length samples" unfolding count by simp
  have "{j. j < length samples \<and> f m < f (?s ! j)} \<subseteq> {Suc ?i..<length samples}"
    using mono i unfolding m_def by (auto simp: Suc_le_eq) (metis leD leI length_sort)
  from card_mono [OF _ this] show "2 * length (filter (\<lambda>v. f m < f v) samples) \<le> length samples" unfolding count by simp
qed

lemma median_middle:
  assumes "samples \<noteq> []"
  shows "\<exists>m. median_u64 samples = (Inr m, sort samples) \<and> m \<in> set samples \<and>
      2 * length (filter (\<lambda>v. v < m) samples) \<le> length samples \<and> 2 * length (filter (\<lambda>v. m < v) samples) \<le> length samples"
    "\<exists>m. median_f64 samples = (Inr m, sort_key total_key samples) \<and> m \<in> set samples \<and>
      2 * length (filter (\<lambda>v. total_key v < total_key m) samples) \<le> length samples \<and>
      2 * length (filter (\<lambda>v. total_key m < total_key v) samples) \<le> length samples"
  using middle_of_sorted [OF assms, of "\<lambda>v. v"] middle_of_sorted [OF assms, of total_key] assms
  by (simp_all add: median_u64_def median_f64_def Let_def)

lemma median_empty: "fst (median_u64 []) = Inl (Panic ''index out of bounds'')"
  by (simp add: median_u64_def)

section \<open>Properties\<close>

text \<open>
  C31: the percentiles of up to \<open>2 ^ 44\<close> samples never index outside the samples; they are the samples
  whose ranks are nearest to one half, 19/20 and 99/100 of the last rank, in spite of the rounding of
  double precision, and they are in order. The samples are left sorted.
\<close>

theorem percentiles_are_nearest_ranks:
  assumes "samples \<noteq> []" and "length samples \<le> 2 ^ 44"
  shows "\<exists>stats i j k. OperationStats_from_samples samples = (Inr stats, sort samples) \<and>
    p50_ns stats = sort samples ! i \<and> p95_ns stats = sort samples ! j \<and> p99_ns stats = sort samples ! k \<and>
    near 1 2 (length samples - 1) i \<and> near 19 20 (length samples - 1) j \<and> near 99 100 (length samples - 1) k \<and>
    k < length samples \<and> p50_ns stats \<le> p95_ns stats \<and> p95_ns stats \<le> p99_ns stats \<and> p99_ns stats \<in> set samples"
proof -
  let ?n = "length samples - 1" and ?s = "sort samples"
  let ?i = "percentile_index ?n P50" and ?j = "percentile_index ?n P95" and ?k = "percentile_index ?n P99"
  have "?n < 2 ^ 44" using assms by (cases samples) auto
  note near = percentile_indices [OF this]
  note order = near_order [OF near]
  have k: "?k < length ?s" using order(3) assms(1) by (cases samples) auto
  have stats: "OperationStats_from_samples samples = (Inr \<lparr>iterations = of_nat (length samples), p50_ns = ?s ! ?i, p95_ns = ?s ! ?j,
      p99_ns = ?s ! ?k, total_ns = sum_list samples\<rparr>, ?s)"
    using assms by (rule from_samples_result)
  have "?s ! ?i \<le> ?s ! ?j" "?s ! ?j \<le> ?s ! ?k" using order k by (auto intro!: sorted_nth_mono)
  moreover have "?s ! ?k \<in> set samples" using nth_mem [OF k] by simp
  ultimately show ?thesis using stats near k by fastforce
qed

theorem percentiles_are_nearest_ranks_witness:
  "\<exists>stats. OperationStats_from_samples [30, 10, 20] = (Inr stats, [10, 20, 30]) \<and> p50_ns stats \<le> p95_ns stats"
proof -
  have "sort [30, 10, 20 :: u64] = [10, 20, 30]" by simp
  then show ?thesis using percentiles_are_nearest_ranks [of "[30, 10, 20]"] by auto
qed

end
