(* ===== verification/Rng.thy ===== *)
theory Rng
  imports Prelude
begin

text \<open>
  The deterministic data generator of \<open>src/src/rng.rs\<close>. The trait \<open>RandomSource\<close> has one required
  method; its provided methods are defined here over any implementation of it, passed as
  \<open>next_u64\<close>. Shown: bounded draws stay below their bound, buffers are filled exactly, and
  \<open>SplitMix64\<close> maps different seeds to different outputs, so that the payloads of different keys
  differ.
\<close>

section \<open>The trait's provided methods\<close>

definition RandomSource_below :: "('s \<Rightarrow> u64 \<times> 's) \<Rightarrow> 's \<Rightarrow> u64 \<Rightarrow> u64 \<times> 's" where
  "RandomSource_below next_u64 s bound =
     (let (value, s) = next_u64 s
      in (ucast (drop_bit 64 (ucast value * ucast bound :: 128 word)), s))"

text \<open>\<open>for chunk in buf.chunks_exact_mut(8)\<close>, then the remainder.\<close>

function RandomSource_fill :: "('s \<Rightarrow> u64 \<times> 's) \<Rightarrow> 's \<Rightarrow> bytes \<Rightarrow> bytes \<times> 's" where
  "RandomSource_fill next_u64 s buf =
     (if 8 \<le> length buf then
        let (value, s) = next_u64 s;
            (rest, s) = RandomSource_fill next_u64 s (drop 8 buf)
        in (to_le_bytes 8 value @ rest, s)
      else if buf \<noteq> [] then
        let (value, s) = next_u64 s in (take (length buf) (to_le_bytes 8 value), s)
      else ([], s))"
  by pat_completeness auto
termination
  by (relation "measure (\<lambda>(_, _, buf). length buf)") auto

declare RandomSource_fill.simps [simp del]

section \<open>SplitMix64\<close>

datatype SplitMix64 = SplitMix64 u64

definition SplitMix64_new :: "u64 \<Rightarrow> SplitMix64" where
  "SplitMix64_new seed = SplitMix64 seed"

fun SplitMix64_next_u64 :: "SplitMix64 \<Rightarrow> u64 \<times> SplitMix64" where
  "SplitMix64_next_u64 (SplitMix64 s) =
     (let s = s + 0x9E3779B97F4A7C15;
          value = s;
          value = (value XOR drop_bit 30 value) * 0xBF58476D1CE4E5B9;
          value = (value XOR drop_bit 27 value) * 0x94D049BB133111EB
      in (value XOR drop_bit 31 value, SplitMix64 s))"

definition SplitMix64_below :: "SplitMix64 \<Rightarrow> u64 \<Rightarrow> u64 \<times> SplitMix64" where
  "SplitMix64_below rng bound = RandomSource_below SplitMix64_next_u64 rng bound"

definition SplitMix64_fill :: "SplitMix64 \<Rightarrow> bytes \<Rightarrow> bytes \<times> SplitMix64" where
  "SplitMix64_fill rng buf = RandomSource_fill SplitMix64_next_u64 rng buf"

definition payload_for :: "u64 \<Rightarrow> u64 \<Rightarrow> nat \<Rightarrow> bytes" where
  "payload_for seed key len =
     fst (SplitMix64_fill (SplitMix64_new (seed XOR key * 0xA0761D6478BD642F)) (replicate len 0))"

section \<open>Bounded draws\<close>

lemma unat_mult_high:
  "unat (ucast (drop_bit 64 (ucast (v :: u64) * ucast (b :: u64) :: 128 word)) :: u64) =
     unat v * unat b div 2 ^ 64"
proof -
  have vb: "unat v * unat b < 2 ^ 128"
  proof -
    have "unat v * unat b < 2 ^ 64 * 2 ^ 64"
      using unsigned_less [of v] unsigned_less [of b] by (intro mult_strict_mono) simp_all
    then show ?thesis by simp
  qed
  have "unat (ucast v * ucast b :: 128 word) = unat v * unat b"
    using vb by (simp add: unat_mul_nowrap unsigned_ucast_eq take_bit_nat_eq_self
        less_trans [OF unat_u64_less])
  then have "unat (drop_bit 64 (ucast v * ucast b :: 128 word)) = unat v * unat b div 2 ^ 64"
    by (simp only: unat_drop_bit_eq) (simp add: drop_bit_eq_div)
  moreover have "unat v * unat b div 2 ^ 64 < 2 ^ 64"
    using vb by (simp add: div_less_iff_less_mult)
  ultimately show ?thesis
    by (simp only: unsigned_ucast_eq) (simp add: take_bit_nat_eq_self)
qed

lemma below_less:
  assumes "0 < bound"
  shows "fst (RandomSource_below nxt s bound) < bound"
proof -
  have "unat (fst (nxt s)) * unat bound div 2 ^ 64 < unat bound"
  proof -
    have "0 < unat bound" using assms by (simp add: word_less_nat_alt)
    then have "unat (fst (nxt s)) * unat bound < unat bound * 2 ^ 64"
      using unsigned_less [of "fst (nxt s)"] by simp
    then show ?thesis by (simp add: div_less_iff_less_mult)
  qed
  then show ?thesis
    by (cases "nxt s") (simp add: RandomSource_below_def word_less_nat_alt unat_mult_high)
qed

section \<open>Filling a buffer\<close>

lemma length_fill [simp]: "length (fst (RandomSource_fill nxt s buf)) = length buf"
proof (induction nxt s buf rule: RandomSource_fill.induct)
  case (1 nxt s buf)
  then show ?case
    by (auto simp: RandomSource_fill.simps [of nxt s buf] split: prod.splits)
qed

lemma take_8_fill:
  assumes "8 \<le> length buf"
  shows "take 8 (fst (RandomSource_fill nxt s buf)) = to_le_bytes 8 (fst (nxt s))"
  using assms by (simp add: RandomSource_fill.simps [of nxt s buf] split: prod.splits)

section \<open>Different seeds, different outputs\<close>

lemma xor_shift_inject:
  fixes x y :: u64
  assumes "0 < k" and eq: "x XOR drop_bit k x = y XOR drop_bit k y"
  shows "x = y"
proof -
  have "bit x n = bit y n" for n
  proof (induction "64 - n" arbitrary: n rule: less_induct)
    case less
    show ?case
    proof (cases "n < 64")
      case True
      have "bit (x XOR drop_bit k x) n = bit (y XOR drop_bit k y) n" using eq by simp
      moreover have "bit x (k + n) = bit y (k + n)"
        using less [of "k + n"] True assms(1) by simp
      ultimately show ?thesis by (auto simp: bit_simps True)
    next
      case False
      then show ?thesis using bit_imp_le_length by fastforce
    qed
  qed
  then show ?thesis by (simp add: bit_eq_iff)
qed

lemma mult_inject:
  fixes x y c d :: u64
  assumes "c * d = 1" and "x * c = y * c"
  shows "x = y"
proof -
  have "x * (c * d) = y * (c * d)" using assms(2) by (simp flip: mult.assoc)
  then show ?thesis by (simp add: assms(1))
qed

lemma SplitMix64_next_inject:
  "fst (SplitMix64_next_u64 (SplitMix64 s)) = fst (SplitMix64_next_u64 (SplitMix64 t)) \<longleftrightarrow> s = t"
proof
  assume eq: "fst (SplitMix64_next_u64 (SplitMix64 s)) = fst (SplitMix64_next_u64 (SplitMix64 t))"
  let ?f = "\<lambda>v :: u64. (v XOR drop_bit 30 v) * 0xBF58476D1CE4E5B9"
  let ?g = "\<lambda>v :: u64. (v XOR drop_bit 27 v) * 0x94D049BB133111EB"
  let ?s = "s + 0x9E3779B97F4A7C15" and ?t = "t + 0x9E3779B97F4A7C15"
  have "?g (?f ?s) XOR drop_bit 31 (?g (?f ?s)) = ?g (?f ?t) XOR drop_bit 31 (?g (?f ?t))"
    using eq by (simp add: Let_def)
  then have "?g (?f ?s) = ?g (?f ?t)"
    by (rule xor_shift_inject [rotated]) simp
  then have "?f ?s XOR drop_bit 27 (?f ?s) = ?f ?t XOR drop_bit 27 (?f ?t)"
    by (rule mult_inject [rotated, where d = "0x319642B2D24D8EC3"]) simp
  then have "?f ?s = ?f ?t"
    by (rule xor_shift_inject [rotated]) simp
  then have "?s XOR drop_bit 30 ?s = ?t XOR drop_bit 30 ?t"
    by (rule mult_inject [rotated, where d = "0x96DE1B173F119089"]) simp
  then have "?s = ?t"
    by (rule xor_shift_inject [rotated]) simp
  then show "s = t" by simp
qed simp

lemma payload_key_inject:
  fixes seed k l :: u64
  assumes "seed XOR k * 0xA0761D6478BD642F = seed XOR l * 0xA0761D6478BD642F"
  shows "k = l"
proof -
  have "k * 0xA0761D6478BD642F = l * 0xA0761D6478BD642F"
    using assms by (auto simp: bit_eq_iff bit_simps)
  then show ?thesis
    by (rule mult_inject [rotated, where d = "0x939C72E4AF1E62CF"]) simp
qed

lemma length_payload_for [simp]: "length (payload_for seed key len) = len"
  by (simp add: payload_for_def SplitMix64_fill_def)

lemma payload_for_inject:
  assumes "8 \<le> len" and "payload_for seed k len = payload_for seed l len"
  shows "k = l"
proof -
  let ?out = "\<lambda>key. fst (SplitMix64_next_u64 (SplitMix64 (seed XOR key * 0xA0761D6478BD642F)))"
  have "take 8 (payload_for seed key len) = to_le_bytes 8 (?out key)" for key
    using assms(1) by (simp add: payload_for_def SplitMix64_fill_def SplitMix64_new_def take_8_fill)
  then have "to_le_bytes 8 (?out k) = to_le_bytes 8 (?out l)"
    using assms(2) by metis
  then have "?out k = ?out l" by (rule to_le_bytes_inject) simp
  then show ?thesis
    by (simp only: SplitMix64_next_inject) (rule payload_key_inject)
qed

section \<open>Properties\<close>

text \<open>
  A bounded draw, from any source of random words, is below its bound.
\<close>

theorem below_bound:
  assumes "0 < bound"
  shows "fst (RandomSource_below next_u64 s bound) < bound"
  using assms by (rule below_less)

theorem below_bound_witness: "fst (RandomSource_below SplitMix64_next_u64 (SplitMix64_new 1) 10) < 10"
  by (rule below_bound) simp

text \<open>
  Payloads of eight bytes or more generated under one seed are of the length asked for and differ
  for different keys, which is what lets a checker tell records apart by their contents.
\<close>

theorem payload_for_distinct:
  assumes "8 \<le> len" and "k \<noteq> l"
  shows "payload_for seed k len \<noteq> payload_for seed l len \<and> length (payload_for seed k len) = len"
  using assms payload_for_inject by auto

theorem payload_for_distinct_witness: "payload_for 42 1 8 \<noteq> payload_for 42 2 8"
  using payload_for_distinct [of 8 1 2 42] by simp

end
