(* ===== verification/Kill_Test.thy ===== *)
theory Kill_Test
  imports Killed Workload Kill_Log Measure Rng
begin

text \<open>
  The crash test of \<open>src/src/bin/crash.rs\<close>: a child process inserts records for as long as it lives and
  logs the ones it takes for durable; its parent kills it, opens the heap again and counts what was
  lost or corrupted. What the child leaves behind is a directory and the text of its log. Shown for the
  append layout: if the child is killed, or the power fails, between two turns of the child or before it
  confirms a batch, the parent loses and finds corrupted nothing that was confirmed.
\<close>

section \<open>Configuration and payloads\<close>

definition SEED :: u64 where "SEED = 0xDEAD2026"
definition BUCKET_COUNT :: u64 where "BUCKET_COUNT = 8"

definition heap_config :: "SyncPolicy \<Rightarrow> bool \<Rightarrow> HeapConfig" where
  "heap_config policy checked =
     HeapConfig_default\<lparr>sync_policy := policy, integrity := checked, initial_size := push_bit 20 768, growth := push_bit 20 128\<rparr>"

definition make_payload :: "u64 \<Rightarrow> nat \<Rightarrow> bytes" where
  "make_payload key len = payload_for SEED key len"

section \<open>A heap of either layout\<close>

datatype LayoutHeap = Append "(SyncIo, AppendPlacement) Heap" | Bucket "(SyncIo, BucketPlacement) Heap"

definition LayoutHeap_open ::
  "hash_order \<Rightarrow> string \<Rightarrow> string \<Rightarrow> Dir \<Rightarrow> SyncIo \<Rightarrow> HeapConfig \<Rightarrow> (LayoutHeap \<times> RecoveryReport) res \<times> Dir" where
  "LayoutHeap_open order layout name dir io config =
     (if layout = ''append'' then
        (case Heap_open sync_block_io append_open_placement order name dir io config of
           (r, _, dir) \<Rightarrow> (expect ''open'' (map_sum id (map_prod Append id) r), dir))
      else
        (case Heap_open sync_block_io bucket_open_placement order name dir io config of
           (r, _, dir) \<Rightarrow> (expect ''open'' (map_sum id (map_prod Bucket id) r), dir)))"

fun LayoutHeap_insert_into :: "LayoutHeap \<Rightarrow> u64 \<Rightarrow> bytes \<Rightarrow> u64 res \<times> LayoutHeap" where
  "LayoutHeap_insert_into (Append h) bucket payload =
     map_prod (expect ''insert'') Append (Heap_insert_into sync_block_io append_placement h bucket payload)"
| "LayoutHeap_insert_into (Bucket h) bucket payload =
     map_prod (expect ''insert'') Bucket (Heap_insert_into sync_block_io bucket_placement h bucket payload)"

fun LayoutHeap_read :: "LayoutHeap \<Rightarrow> u64 \<Rightarrow> bytes res \<times> LayoutHeap" where
  "LayoutHeap_read (Append h) rid = map_prod id Append (Heap_read sync_block_io h rid)"
| "LayoutHeap_read (Bucket h) rid = map_prod id Bucket (Heap_read sync_block_io h rid)"

fun LayoutHeap_flush :: "LayoutHeap \<Rightarrow> unit res \<times> LayoutHeap" where
  "LayoutHeap_flush (Append h) = map_prod (expect ''flush'') Append (Heap_flush sync_block_io h)"
| "LayoutHeap_flush (Bucket h) = map_prod (expect ''flush'') Bucket (Heap_flush sync_block_io h)"

fun LayoutHeap_counters :: "LayoutHeap \<Rightarrow> IoCounters" where
  "LayoutHeap_counters (Append h) = Heap_io_counters sync_block_io h"
| "LayoutHeap_counters (Bucket h) = Heap_io_counters sync_block_io h"

fun LayoutHeap_reset_counters :: "LayoutHeap \<Rightarrow> LayoutHeap" where
  "LayoutHeap_reset_counters (Append h) = Append (Heap_reset_io_counters sync_block_io h)"
| "LayoutHeap_reset_counters (Bucket h) = Bucket (Heap_reset_io_counters sync_block_io h)"

section \<open>The child\<close>

text \<open>
  The child's log is written and synced as a whole batch; \<open>ch_log\<close> is its text. A log that cannot be
  written panics the child, which is as good as a kill.
\<close>

record Child =
  ch_heap :: LayoutHeap
  ch_log :: string
  ch_pending :: string
  ch_key :: u64

definition child_start :: "hash_order \<Rightarrow> string \<Rightarrow> u32 \<Rightarrow> string \<Rightarrow> Dir \<Rightarrow> SyncIo \<Rightarrow> Child res" where
  "child_start order layout policy name dir io =
     (case fst (LayoutHeap_open order layout name dir io (heap_config (EveryN policy) True)) of
        Inl e \<Rightarrow> Inl e
      | Inr (h, _) \<Rightarrow> Inr \<lparr>ch_heap = h, ch_log = [], ch_pending = [], ch_key = 0\<rparr>)"

text \<open>One turn of the loop: the insertion, and the confirmation of a full batch.\<close>

definition child_insert :: "Child \<Rightarrow> unit res \<times> Child" where
  "child_insert c =
     (case LayoutHeap_insert_into (ch_heap c) (ch_key c mod BUCKET_COUNT) (make_payload (ch_key c) 1024) of
        (Inl e, h) \<Rightarrow> (Inl e, c\<lparr>ch_heap := h\<rparr>)
      | (Inr rid, h) \<Rightarrow>
          (Inr (), c\<lparr>ch_heap := h, ch_pending := ch_pending c @ log_line (ch_key c) rid, ch_key := ch_key c + 1\<rparr>))"

definition is_multiple_of :: "u64 \<Rightarrow> u64 \<Rightarrow> bool" where
  "is_multiple_of a b \<longleftrightarrow> (if b = 0 then a = 0 else a mod b = 0)"

definition child_confirm :: "u32 \<Rightarrow> Child \<Rightarrow> Child" where
  "child_confirm policy c =
     (if is_multiple_of (ch_key c) (ucast policy) then
        let pending = ch_pending c @ confirm_line (ch_key c)
        in c\<lparr>ch_log := ch_log c @ pending, ch_pending := []\<rparr>
      else c)"

definition child_turn :: "u32 \<Rightarrow> Child \<Rightarrow> unit res \<times> Child" where
  "child_turn policy c = and_then (child_insert c) (\<lambda>_ c. (Inr (), child_confirm policy c))"

text \<open>The loop has no end: what it has done is given by the number of its turns.\<close>

fun child_turns :: "u32 \<Rightarrow> nat \<Rightarrow> Child \<Rightarrow> unit res \<times> Child" where
  "child_turns policy 0 c = (Inr (), c)"
| "child_turns policy (Suc n) c = and_then (child_turns policy n c) (\<lambda>_. child_turn policy)"

section \<open>The parent\<close>

text \<open>Reading a confirmed record: it is there, or corrupted, or lost; a panic ends the parent.\<close>

fun check_confirmed :: "LayoutHeap \<Rightarrow> (u64 \<times> u64) list \<Rightarrow> nat \<times> nat \<Rightarrow> (nat \<times> nat) res \<times> LayoutHeap" where
  "check_confirmed h [] counts = (Inr counts, h)"
| "check_confirmed h ((key, rid) # pairs) (missing, corrupted) =
     (case LayoutHeap_read h rid of
        (Inr out, h) \<Rightarrow> check_confirmed h pairs (if out = make_payload key 1024 then (missing, corrupted) else (missing, corrupted + 1))
      | (Inl (Err _), h) \<Rightarrow> check_confirmed h pairs (missing + 1, corrupted)
      | (Inl (Panic message), h) \<Rightarrow> (Inl (Panic message), h))"

fun check_tail :: "LayoutHeap \<Rightarrow> (u64 \<times> u64) list \<Rightarrow> nat \<Rightarrow> nat res \<times> LayoutHeap" where
  "check_tail h [] survivors = (Inr survivors, h)"
| "check_tail h ((key, rid) # pairs) survivors =
     (case LayoutHeap_read h rid of
        (Inr out, h) \<Rightarrow> check_tail h pairs (if out = make_payload key 1024 then survivors + 1 else survivors)
      | (Inl (Err _), h) \<Rightarrow> check_tail h pairs survivors
      | (Inl (Panic message), h) \<Rightarrow> (Inl (Panic message), h))"

record Verdict =
  vd_confirmed :: nat
  vd_lost :: nat
  vd_corrupted :: nat
  vd_tail :: nat
  vd_survivors :: nat
  vd_report :: RecoveryReport

text \<open>What a round of the test makes of the directory and the log that the killed child has left.\<close>

definition kill_round :: "hash_order \<Rightarrow> string \<Rightarrow> u32 \<Rightarrow> string \<Rightarrow> Dir \<Rightarrow> string option \<Rightarrow> SyncIo \<Rightarrow> Verdict res" where
  "kill_round order layout policy name dir contents io =
     (let (confirmed, tail) = read_log contents in
      case fst (LayoutHeap_open order layout name dir io (heap_config (EveryN policy) True)) of
        Inl e \<Rightarrow> Inl e
      | Inr (h, report) \<Rightarrow>
          (case check_confirmed h confirmed (0, 0) of
             (Inl e, _) \<Rightarrow> Inl e
           | (Inr (missing, corrupted), h) \<Rightarrow>
               (case check_tail h tail 0 of
                  (Inl e, _) \<Rightarrow> Inl e
                | (Inr survivors, _) \<Rightarrow>
                    Inr \<lparr>vd_confirmed = length confirmed, vd_lost = missing, vd_corrupted = corrupted, vd_tail = length tail,
                         vd_survivors = survivors, vd_report = report\<rparr>)))"

text \<open>The line of the table, and all rounds: \<open>left\<close> is what the child of each round leaves.\<close>

definition show_bool :: "bool \<Rightarrow> string" where
  "show_bool b = (if b then ''true'' else ''false'')"

definition kill_row :: "string \<Rightarrow> u32 \<Rightarrow> nat \<Rightarrow> Verdict \<Rightarrow> string list" where
  "kill_row layout policy round v =
     [layout, ''every'' @ show_nat (unat policy), show_nat round, show_nat (vd_confirmed v), show_nat (vd_lost v),
      show_nat (vd_corrupted v), show_nat (vd_tail v), show_nat (vd_survivors v),
      show_u64 (rp_restored_slots (vd_report v)), show_bool (rp_rebuilt (vd_report v))]"

fun kill_rounds ::
  "hash_order \<Rightarrow> string \<Rightarrow> u32 \<Rightarrow> string \<Rightarrow> (nat \<Rightarrow> Dir \<times> string option \<times> SyncIo) \<Rightarrow> nat list \<Rightarrow> string \<Rightarrow> unit res \<times> string" where
  "kill_rounds order layout policy name left [] csv = (Inr (), csv)"
| "kill_rounds order layout policy name left (round # rounds) csv =
     (case left round of
        (dir, contents, io) \<Rightarrow>
          (case kill_round order layout policy name dir contents io of
             Inl e \<Rightarrow> (Inl e, csv)
           | Inr v \<Rightarrow> kill_rounds order layout policy name left rounds (Csv_row csv (kill_row layout policy round v))))"

text \<open>How long the child of a round lives, in milliseconds.\<close>

definition kill_delay :: "u64 \<Rightarrow> u32 \<Rightarrow> u64" where
  "kill_delay round policy = 300 + fst (SplitMix64_below (SplitMix64_new (SEED XOR push_bit 8 round XOR ucast policy)) 900)"

section \<open>What the child has done after some turns\<close>

text \<open>The insertions of the first turns, and the pairs they log: keys and identifiers count up together.\<close>

definition child_op :: "nat \<Rightarrow> heap_op \<times> heap_ret" where
  "child_op k = (Insert (of_nat k mod BUCKET_COUNT) (make_payload (of_nat k) 1024), Id (of_nat k))"

definition child_pairs :: "nat \<Rightarrow> nat \<Rightarrow> (u64 \<times> u64) list" where
  "child_pairs i n = map (\<lambda>k. (of_nat k, of_nat k)) [i..<n]"

lemma length_make_payload [simp]: "length (make_payload key len) = len"
  by (simp add: make_payload_def payload_for_def SplitMix64_fill_def)

lemma insert_counter:
  assumes "Heap_insert_into D append_placement h bucket payload = (Inr rid, h')"
  shows "rid = ap_next_id (h_placement h)" "operations_since_sync h' = operations_since_sync h + 1"
proof -
  obtain off total h1 h2 h3 where s: "Heap_alloc D append_placement h bucket total = (Inr (off, rid), h1)"
      "Heap_stage_record D h1 off bucket rid 1 payload = (Inr (), h2)"
      "Heap_stage_slot D h2 rid (Some \<lparr>sl_offset = off, sl_total_len = total\<rparr>) = (Inr (), h3)" "Heap_after_write D h3 = (Inr (), h')"
    using assms by (auto simp: Heap_insert_into_def Let_def elim!: and_then_Inr)
  show "rid = ap_next_id (h_placement h)"
    using s(1) by (auto simp: Heap_alloc_def append_placement_simps AppendPlacement_alloc_def Let_def split: prod.splits sum.splits)
  have "operations_since_sync h3 = operations_since_sync h"
    using s(1-3) by (auto simp: Heap_alloc_def Heap_stage_record_def Heap_stage_slot_def split: prod.splits)
  with after_write_cases [OF s(4)] commit_counter show "operations_since_sync h' = operations_since_sync h + 1" by fastforce
qed

text \<open>The batches that are confirmed after \<open>n\<close> turns end with the last multiple of the policy.\<close>

definition child_at :: "nat \<Rightarrow> nat \<Rightarrow> u32 \<Rightarrow> (SyncIo, AppendPlacement) Heap \<Rightarrow> nat \<Rightarrow> (SyncIo, AppendPlacement) Heap \<Rightarrow> bool" where
  "child_at lim ilim policy h0 n h \<longleftrightarrow>
     heap_run sync_block_io append_placement append_sane h0 (map child_op [0..<n]) h \<and> append_tidy h \<and> sound healthy lim ilim h \<and>
     ap_next_id (h_placement h) = of_nat n \<and> operations_since_sync h = of_nat n \<and> h_config h = h_config h0"

lemma child_at_insert:
  assumes at: "child_at lim ilim policy h0 n h" and n: "n < 2 ^ 32"
    and c: "Heap_insert_into sync_block_io append_placement h (of_nat n mod BUCKET_COUNT) (make_payload (of_nat n) 1024) = (Inr rid, h')"
  shows "rid = of_nat n" "child_at lim ilim policy h0 (Suc n) h'"
proof -
  have run: "heap_run sync_block_io append_placement append_sane h0 (map child_op [0..<n]) h" and t: "append_tidy h" "sound healthy lim ilim h"
    and id: "ap_next_id (h_placement h) = of_nat n" "operations_since_sync h = of_nat n" "h_config h = h_config h0"
    using at by (simp_all add: child_at_def)
  show rid: "rid = of_nat n" using insert_counter(1) [OF c] id(1) by simp
  have fits: "unat rid < ID_MAX" using n by (simp add: rid unat_of_nat_nowrap)
  have len: "record_len (h_data h) (make_payload (of_nat n) 1024) \<le> OFF_MAX" by (simp add: record_len_def header_len_def)
  note p = blocking.insert_tidy [OF t len c fits]
  then have w: "wrote h (of_nat n mod BUCKET_COUNT) rid 1 (make_payload (of_nat n) 1024) h'" by (simp add: effect_def id(1) rid)
  have "heap_run sync_block_io append_placement append_sane h0 (map child_op [0..<n] @ [child_op n]) h'"
    unfolding child_op_def by (rule run_step [OF run [unfolded child_op_def]]) (use c fits len rid in \<open>simp_all add: ret_of_def append_sane_def\<close>)
  moreover have "ap_next_id (h_placement h') = of_nat (Suc n)" using w rid id(1) by (simp add: wrote_def)
  moreover have "h_config h' = h_config h0" using w id(3) by (simp add: wrote_def record_written_def)
  ultimately show "child_at lim ilim policy h0 (Suc n) h'"
    using p insert_counter(2) [OF c] id(2) by (simp add: child_at_def)
qed

text \<open>The last commit: no more turns ago than the policy allows, and what a kill leaves.\<close>

definition child_left :: "nat \<Rightarrow> nat \<Rightarrow> (SyncIo, AppendPlacement) Heap \<Rightarrow> nat \<Rightarrow> (SyncIo, AppendPlacement) Heap \<Rightarrow> bool" where
  "child_left lim ilim h0 n h \<longleftrightarrow> quiet h \<and>
     (\<exists>j hm. j \<le> n \<and> heap_run sync_block_io append_placement append_sane h0 (map child_op [0..<j]) hm \<and>
        append_tidy hm \<and> sound healthy lim ilim hm \<and> left_as h hm \<and> h_config hm = h_config h0 \<and>
        lags (h_config h0) (n - j) (operations_since_sync h))"

lemma child_left_insert:
  assumes at: "child_at lim ilim policy h0 n h" and n: "n < 2 ^ 32" and left: "child_left lim ilim h0 n h"
    and c: "Heap_insert_into sync_block_io append_placement h (of_nat n mod BUCKET_COUNT) (make_payload (of_nat n) 1024) = (Inr rid, h')"
  shows "child_left lim ilim h0 (Suc n) h'"
proof -
  have t: "append_tidy h" "sound healthy lim ilim h" "h_config h = h_config h0" using at by (simp_all add: child_at_def)
  obtain j hm where q: "quiet h" and j: "j \<le> n" "heap_run sync_block_io append_placement append_sane h0 (map child_op [0..<j]) hm"
    and hm: "append_tidy hm" "sound healthy lim ilim hm" "left_as h hm" "h_config hm = h_config h0" "lags (h_config h0) (n - j) (operations_since_sync h)"
    using left by (auto simp: child_left_def)
  note next_at = child_at_insert [OF at n c]
  have fits: "unat rid < ID_MAX" using n by (simp add: next_at(1) unat_of_nat_nowrap)
  have len: "record_len (h_data h) (make_payload (of_nat n) 1024) \<le> OFF_MAX" by (simp add: record_len_def header_len_def)
  have l: "quiet h'" "operations_since_sync h' = operations_since_sync h + 1"
    "left_as h' h' \<or> left_as h' hm \<and> \<not> due (h_config h0) (operations_since_sync h')"
    using blocking.insert_left [OF t(1,2) q hm(3,2) len c fits] unfolding t(3) by blast+
  show ?thesis
    using l(3)
  proof
    assume "left_as h' h'"
    then show ?thesis using l(1) next_at(2) lags_0 unfolding child_left_def child_at_def
      by (intro conjI exI [of _ "Suc n"] exI [of _ h']) simp_all
  next
    assume *: "left_as h' hm \<and> \<not> due (h_config h0) (operations_since_sync h')"
    then have "lags (h_config h0) (Suc n - j) (operations_since_sync h')"
      using lags_next [OF hm(5)] l(2) j(1) by (simp add: Suc_diff_le)
    with * l(1) j hm show ?thesis unfolding child_left_def
      by (intro conjI exI [of _ j] exI [of _ hm]) simp_all
  qed
qed

definition child_logged :: "u32 \<Rightarrow> nat \<Rightarrow> Child \<Rightarrow> bool" where
  "child_logged policy n c \<longleftrightarrow> ch_key c = of_nat n \<and>
     (let m = n - n mod unat policy in
      (\<exists>batches. ch_log c = batch_lines batches \<and> concat (map fst batches) = child_pairs 0 m) \<and> ch_pending c = log_lines (child_pairs m n))"

lemma child_pairs_append: "i \<le> m \<Longrightarrow> m \<le> n \<Longrightarrow> child_pairs i m @ child_pairs m n = child_pairs i n"
  using upt_add_eq_append [of i m "n - m"] by (simp add: child_pairs_def)

lemma child_pairs_Suc: "m \<le> n \<Longrightarrow> child_pairs m (Suc n) = child_pairs m n @ [(of_nat n, of_nat n)]"
  by (simp add: child_pairs_def)

lemma child_insert_step:
  assumes h: "ch_heap c = Append h" and at: "child_at lim ilim policy h0 n h" and left: "child_left lim ilim h0 n h" and n: "n < 2 ^ 32" and key: "ch_key c = of_nat n"
    and i: "child_insert c = (Inr u, c')"
  obtains h' where "child_at lim ilim policy h0 (Suc n) h'" "child_left lim ilim h0 (Suc n) h'"
    "c' = c\<lparr>ch_heap := Append h', ch_pending := ch_pending c @ log_line (of_nat n) (of_nat n), ch_key := of_nat n + 1\<rparr>"
proof -
  obtain r h' where c: "Heap_insert_into sync_block_io append_placement h (of_nat n mod BUCKET_COUNT) (make_payload (of_nat n) 1024) = (r, h')"
    by fastforce
  obtain rid where r: "r = Inr rid"
    using i h key c by (cases r) (auto simp: child_insert_def expect_def split: failure.splits sum.splits)
  from child_at_insert [OF at n c [unfolded r]] child_left_insert [OF at n left c [unfolded r]] i h key c r show thesis
    by (intro that [of h']) (auto simp: child_insert_def expect_def)
qed

lemma is_multiple_of_nat:
  assumes "n < 2 ^ 32" and "0 < policy"
  shows "is_multiple_of (of_nat n) (ucast (policy :: u32)) \<longleftrightarrow> n mod unat policy = 0"
proof -
  have "unat policy < 2 ^ 64" using unsigned_less [of policy] by (rule less_trans) simp
  then have p: "unat (ucast policy :: u64) = unat policy" by (simp add: unsigned_ucast_eq take_bit_nat_eq_self)
  have "(ucast policy :: u64) \<noteq> 0" using assms(2) p by (metis unat_eq_zero word_gt_0)
  moreover have "unat (of_nat n mod ucast policy :: u64) = n mod unat policy"
    using assms(1) p by (simp add: unat_mod unat_of_nat_nowrap)
  ultimately show ?thesis unfolding is_multiple_of_def by (metis unat_eq_zero)
qed

lemma child_confirm_logged:
  assumes l: "child_logged policy n c" and n: "Suc n < 2 ^ 32" and policy: "0 < policy"
    and c': "c' = c\<lparr>ch_heap := h, ch_pending := ch_pending c @ log_line (of_nat n) (of_nat n), ch_key := of_nat n + 1\<rparr>"
  shows "child_logged policy (Suc n) (child_confirm policy c')"
proof -
  let ?p = "unat policy" let ?m = "n - n mod unat policy"
  obtain batches where b: "ch_log c = batch_lines batches" "concat (map fst batches) = child_pairs 0 ?m"
    and pending: "ch_pending c' = log_lines (child_pairs ?m (Suc n))"
    using l c' by (auto simp: child_logged_def Let_def child_pairs_Suc)
  have key: "ch_key c' = of_nat (Suc n)" and log: "ch_log c' = batch_lines batches" using b(1) by (simp_all add: c')
  show ?thesis
  proof (cases "Suc n mod ?p = 0")
    case True
    then have "is_multiple_of (of_nat (Suc n)) (ucast policy)" using is_multiple_of_nat [OF n policy] by simp
    then have "child_confirm policy c' =
        c'\<lparr>ch_log := batch_lines (batches @ [(child_pairs ?m (Suc n), of_nat (Suc n))]), ch_pending := []\<rparr>"
      unfolding child_confirm_def key pending log by (simp add: batch_lines_def Let_def)
    moreover have "concat (map fst (batches @ [(child_pairs ?m (Suc n), of_nat (Suc n))])) = child_pairs 0 (Suc n)"
      using b(2) child_pairs_append [of 0 ?m "Suc n"] by simp
    moreover have "child_pairs (Suc n) (Suc n) = []" by (simp add: child_pairs_def)
    ultimately show ?thesis using True key
      by (simp add: child_logged_def) (rule exI [of _ "batches @ [(child_pairs ?m (Suc n), of_nat (Suc n))]"], simp)
  next
    case False
    then have "Suc n - Suc n mod ?p = ?m" by (simp add: mod_Suc split: if_splits)
    moreover have "child_confirm policy c' = c'" using False is_multiple_of_nat [OF n policy] unfolding child_confirm_def key by simp
    ultimately show ?thesis using key pending log b(2) by (auto simp: child_logged_def Let_def)
  qed
qed

lemma child_turns_at:
  assumes "child_turns policy n c0 = (Inr u, c)" and "n < 2 ^ 32" and "0 < policy"
    and "ch_heap c0 = Append h0" and "child_at lim ilim policy h0 0 h0" and "child_left lim ilim h0 0 h0" and "child_logged policy 0 c0"
  shows "\<exists>h. ch_heap c = Append h \<and> child_at lim ilim policy h0 n h \<and> child_left lim ilim h0 n h \<and> child_logged policy n c"
  using assms
proof (induction n arbitrary: u c)
  case 0
  then show ?case by auto
next
  case (Suc n)
  then obtain u1 c1 where c1: "child_turns policy n c0 = (Inr u1, c1)" "child_turn policy c1 = (Inr u, c)"
    by (auto elim!: and_then_Inr)
  with Suc obtain h where h: "ch_heap c1 = Append h" "child_at lim ilim policy h0 n h" "child_left lim ilim h0 n h" "child_logged policy n c1" by auto
  obtain u2 c2 where c2: "child_insert c1 = (Inr u2, c2)" "c = child_confirm policy c2"
    using c1(2) by (auto simp: child_turn_def elim!: and_then_Inr)
  have "ch_key c1 = of_nat n" using h(4) by (simp add: child_logged_def)
  then obtain h' where h': "child_at lim ilim policy h0 (Suc n) h'" "child_left lim ilim h0 (Suc n) h'"
    "c2 = c1\<lparr>ch_heap := Append h', ch_pending := ch_pending c1 @ log_line (of_nat n) (of_nat n), ch_key := of_nat n + 1\<rparr>"
    using child_insert_step [OF h(1-3) _ _ c2(1)] Suc.prems(2) by auto
  from child_confirm_logged [OF h(4) Suc.prems(2,3) h'(3)] have "child_logged policy (Suc n) c" by (simp add: c2(2))
  moreover have "ch_heap c = Append h'" using h'(3) by (simp add: c2(2) child_confirm_def Let_def)
  ultimately show ?case using h'(1,2) by blast
qed

section \<open>What the parent finds\<close>

lemma child_writes: "trace_writes (map child_op [0..<j]) = map (\<lambda>k. (of_nat k, make_payload (of_nat k) 1024)) [0..<j]"
  by (induction j) (simp_all add: child_op_def)

lemma child_written:
  assumes "j \<le> 2 ^ 32" and "k < j"
  shows "written m (trace_writes (map child_op [0..<j])) (of_nat k) = Some (make_payload (of_nat k) 1024)"
  using assms
proof (induction j)
  case (Suc j)
  have "(of_nat k :: u64) \<noteq> of_nat j" if "k \<noteq> j" using that Suc.prems by (simp add: word_unat_eq_iff unat_of_nat_nowrap)
  with Suc show ?case by (cases "k = j") (simp_all add: child_op_def)
qed simp

inductive_cases map_run_snoc: "map_run m (tr @ [(op, r)]) m'"
inductive_cases map_run_Nil: "map_run m [] m'"

lemma child_run_written:
  assumes "map_run m (map child_op [0..<j]) m'"
  shows "m' = written m (trace_writes (map child_op [0..<j]))"
  using assms
proof (induction j arbitrary: m')
  case (Suc j)
  then show ?case unfolding child_op_def by (auto elim!: map_run_snoc simp: map_step_simps)
qed (auto elim: map_run_Nil)

lemma read_stays:
  assumes "lasting healthy h" and "unat rid < ID_MAX" and "LayoutHeap_read (Append h) rid = (r, l)"
  obtains h' where "l = Append h'" "lasting healthy h'" "heap_map h' = heap_map h"
    "r = (case heap_map h rid of Some out \<Rightarrow> Inr out | None \<Rightarrow> Inl (Err (NotFound rid)))"
proof -
  obtain lim ilim where t: "append_tidy h" "sound healthy lim ilim h" using assms(1) by (auto simp: lasting_def)
  then have io: "healthy (h_io h)" by (simp add: sound_def)
  obtain h' where c: "Heap_read sync_block_io h rid = (r, h')" "l = Append h'" using assms(3) by (auto simp: map_prod_def split: prod.splits)
  have r: "heap_stay h h'" "r = (case heap_map h rid of Some out \<Rightarrow> Inr out | None \<Rightarrow> Inl (Err (NotFound rid)))"
    using blocking.read_Inr(2) [OF c(1) append_tidyD(1) [OF t(1)] assms(2) io] by simp_all
  moreover have "sound healthy lim ilim h'" by (rule blocking.sound_result [OF blocking.read_sound [OF t(2)] c(1)])
  ultimately show thesis using blocking.append_tidy_stay [OF t(1)] heap_stay_map c(2) by (intro that [of h']) (auto simp: lasting_def)
qed

lemma check_confirmed_all:
  assumes "lasting healthy h" and "\<forall>(key, rid) \<in> set pairs. unat rid < ID_MAX \<and> heap_map h rid = Some (make_payload key 1024)"
  shows "\<exists>h'. check_confirmed (Append h) pairs counts = (Inr counts, Append h') \<and> lasting healthy h'"
  using assms
proof (induction pairs arbitrary: h)
  case (Cons p pairs)
  obtain missing corrupted where counts: "counts = (missing, corrupted)" by fastforce
  obtain key rid where p: "p = (key, rid)" by fastforce
  obtain r l where rd: "LayoutHeap_read (Append h) rid = (r, l)" by fastforce
  have "unat rid < ID_MAX" using Cons.prems(2) p by simp
  from read_stays [OF Cons.prems(1) this rd] obtain h' where
    h': "l = Append h'" "lasting healthy h'" "heap_map h' = heap_map h" "r = (case heap_map h rid of Some out \<Rightarrow> Inr out | None \<Rightarrow> Inl (Err (NotFound rid)))" .
  have "r = Inr (make_payload key 1024)" using h'(4) Cons.prems(2) p by simp
  with Cons.IH [OF h'(2)] Cons.prems(2) h'(1,3) rd show ?case by (simp add: p counts)
qed auto

text \<open>A heap that opens with all confirmed records passes.\<close>

lemma kill_round_passes:
  assumes o: "Heap_open sync_block_io append_open_placement order name dir io (heap_config (EveryN policy) True) = (Inr (h', report), io', dir')"
    and h': "lasting healthy h'" "\<not> rp_rebuilt report" "heap_map h' = written m0 (trace_writes (map child_op [0..<j]))"
    and j: "m \<le> j" "j < 2 ^ 32" and batches: "contents = batch_lines batches" "concat (map fst batches) = child_pairs 0 m"
  shows "\<exists>v. kill_round order ''append'' policy name dir (Some contents) io = Inr v \<and> vd_confirmed v = m \<and>
    vd_lost v = 0 \<and> vd_corrupted v = 0 \<and> \<not> rp_rebuilt (vd_report v)"
proof -
  have "heap_map h' (of_nat k) = Some (make_payload (of_nat k) 1024)" if "k < m" for k
    unfolding h'(3) by (rule child_written) (use that j in simp_all)
  then have "\<forall>(key, rid) \<in> set (child_pairs 0 m). unat rid < ID_MAX \<and> heap_map h' rid = Some (make_payload key 1024)"
    using j by (auto simp: child_pairs_def unat_of_nat_nowrap)
  then obtain h'' where "check_confirmed (Append h') (child_pairs 0 m) (0, 0) = (Inr (0, 0), Append h'')"
    using check_confirmed_all [OF h'(1)] by blast
  moreover have "read_log (Some contents) = (child_pairs 0 m, [])" using log_roundtrip [of batches "[]"] batches by simp
  ultimately show ?thesis using o h'(2)
    by (simp add: kill_round_def LayoutHeap_open_def expect_def Let_def child_pairs_def)
qed

text \<open>The power has failed: what was synced is a prefix of the turns that holds every due batch.\<close>

lemma power_loss_kill_round:
  assumes at: "child_at lim ilim policy h0 N h" and N: "N < 2 ^ 32" and policy: "0 < policy"
    and h0: "append_tidy h0" "sound healthy lim ilim h0" "data_synced h0" "index_synced h0" "heap_map h0 = Map.empty"
      "h_config h0 = heap_config (EveryN policy) True"
    and batches: "contents = batch_lines batches" "concat (map fst batches) = child_pairs 0 m" and m: "m \<le> N - N mod unat policy"
    and io: "healthy io" and order: "order_ok order"
  shows "\<exists>v. kill_round order ''append'' policy name (crash_dir h capacity) (Some contents) io = Inr v \<and> vd_confirmed v = m \<and>
    vd_lost v = 0 \<and> vd_corrupted v = 0 \<and> \<not> rp_rebuilt (vd_report v)"
proof -
  let ?config = "heap_config (EveryN policy) True" and ?tr = "map child_op [0..<N]"
  have run: "heap_run sync_block_io append_placement append_sane h0 ?tr h" and count: "operations_since_sync h = of_nat N" "h_config h = ?config"
    using at h0(6) by (simp_all add: child_at_def)
  have "ix_slot (h_index h0) rid \<noteq> Live slot" for rid slot using h0(5) by (auto simp: heap_map_def fun_eq_iff split: SlotState.splits)
  then have vu: "versions_upto 0 Map.empty (h_data h0) (ix_slot (h_index h0))" by (simp add: versions_upto_def)
  have ops: "keeps_index ?tr" and updates: "updates ?tr = 0" and writes: "filter is_write (drop j ?tr) = drop j ?tr" for j
    by (auto simp: keeps_index_def child_op_def updates_def filter_empty_conv filter_id_conv drop_map)
  have fits: "fits_config h ?config" by (simp add: fits_config_def count(2)) (simp add: heap_config_def push_bit_eq_mult)
  obtain tr1 tr2 h' report io' dir' where tr: "?tr = tr1 @ tr2"
    and lags: "lags (h_config h0) (length (filter is_write tr2)) (operations_since_sync h)"
    and o: "Heap_open sync_block_io append_open_placement order name (crash_dir h capacity) io ?config = (Inr (h', report), io', dir')"
    and h': "lasting healthy h'" "\<not> rp_rebuilt report" "heap_map h' = written (heap_map h0) (trace_writes tr1)"
    using blocking.power_fails [OF h0(1-4) vu run ops _ fits io order, of name capacity] updates by auto
  define j where "j = length tr1"
  have "tr1 = take j ?tr" "tr2 = drop j ?tr" "j \<le> N" using tr by (simp_all add: j_def append_eq_conv_conj) (metis diff_zero le_add1 length_append length_map length_upt)
  then have tr1: "tr1 = map child_op [0..<j]" and len2: "length (filter is_write tr2) = N - j" using writes [of j] by (simp_all add: take_map drop_map)
  have "N - j \<le> N mod unat policy"
    using lags len2 policy N h0(6) count(1) by (auto simp: lags_def heap_config_def unat_mod unat_of_nat_nowrap)
  then have "m \<le> j" using m by simp
  from kill_round_passes [OF o h'(1,2) h'(3) [unfolded tr1] this _ batches] \<open>j \<le> N\<close> N show ?thesis by simp
qed

text \<open>The child was killed: what was written is what the last commit wrote.\<close>

lemma killed_kill_round:
  assumes at: "child_at lim ilim policy h0 N h" and left: "child_left lim ilim h0 N h" and N: "N < 2 ^ 32" and policy: "0 < policy"
    and h0: "append_tidy h0" "sound healthy lim ilim h0" "heap_map h0 = Map.empty" "h_config h0 = heap_config (EveryN policy) True"
    and batches: "contents = batch_lines batches" "concat (map fst batches) = child_pairs 0 m" and m: "m \<le> N - N mod unat policy"
    and io: "healthy io" and order: "order_ok order"
  shows "\<exists>v. kill_round order ''append'' policy name (left_dir h capacity) (Some contents) io = Inr v \<and> vd_confirmed v = m \<and>
    vd_lost v = 0 \<and> vd_corrupted v = 0 \<and> \<not> rp_rebuilt (vd_report v)"
proof -
  let ?config = "heap_config (EveryN policy) True"
  obtain j hm where j: "j \<le> N" and run: "heap_run sync_block_io append_placement append_sane h0 (map child_op [0..<j]) hm"
    and hm: "append_tidy hm" "sound healthy lim ilim hm" "left_as h hm" "h_config hm = h_config h0" "lags (h_config h0) (N - j) (operations_since_sync h)"
    using left by (auto simp: child_left_def)
  have fits: "fits_config hm ?config" using hm(4) h0(4) by (simp add: fits_config_def) (simp add: heap_config_def push_bit_eq_mult)
  obtain h' report io' dir' where
    o: "Heap_open sync_block_io append_open_placement order name (left_dir h capacity) io ?config = (Inr (h', report), io', dir')"
    and h': "lasting healthy h'" "heap_map h' = heap_map hm" "\<not> rp_rebuilt report"
    using blocking.found_reopens [OF hm(1,2) fits left_any [OF hm(3)] io order, of name capacity] by blast
  have "map_run (heap_map h0) (map child_op [0..<j]) (heap_map hm)"
    using placing.run_refines [OF append_placing [OF blocking.block_io_axioms] run] h0(1,2) append_tidyD(1) by (auto simp: sound_def)
  then have map: "heap_map h' = written (heap_map h0) (trace_writes (map child_op [0..<j]))" using child_run_written h'(2) by simp
  have "operations_since_sync h = of_nat N" using at by (simp add: child_at_def)
  then have "N - j \<le> N mod unat policy"
    using hm(5) policy N h0(4) by (auto simp: lags_def heap_config_def unat_mod unat_of_nat_nowrap)
  then have "m \<le> j" using m by simp
  from kill_round_passes [OF o h'(1,3) map this _ batches] j N show ?thesis by simp
qed

section \<open>Properties\<close>

text \<open>
  C7: the crash test of the append layout finds no loss, on a device without failures. After any number of
  turns of the child, or when it has inserted a record and not yet confirmed the batch, let it be killed,
  which keeps what was written to the files and loses what it had staged, or let the power fail, which
  keeps what was synced. Then in the directory and the log that are left the parent finds every record
  that was confirmed, with its payload: it counts nothing lost and nothing corrupted, the heap opens
  without a rebuild, and the confirmed records are those of all full batches. The child is not interrupted
  inside an insertion, and it makes fewer than \<open>2 ^ 32\<close> turns, after which the counter of the policy wraps.
\<close>

theorem kill_test_finds_no_loss:
  assumes "healthy io" and "dr_files dir ''data.hs'' = None" and "939532288 \<le> dr_capacity dir" and "dr_capacity dir \<le> OFF_MAX"
    and "child_start order ''append'' policy name dir io = Inr c0" and "child_turns policy n c0 = (Inr (), c)" and "0 < policy"
    and "n + 1 < 2 ^ 32" and "c' = c \<or> child_insert c = (Inr (), c')" and "ch_heap c' = Append h" and "healthy io'" and "order_ok order"
    and "left = left_dir h capacity \<or> left = crash_dir h capacity"
  shows "\<exists>v. kill_round order ''append'' policy name left (Some (ch_log c)) io' = Inr v \<and>
    vd_lost v = 0 \<and> vd_corrupted v = 0 \<and> vd_confirmed v = n - n mod unat policy \<and> \<not> rp_rebuilt (vd_report v)"
proof -
  let ?config = "heap_config (EveryN policy) True"
  have size: "unat (initial_size ?config) + unat (growth ?config) + 8192 \<le> dr_capacity dir"
    using assms(3) by (simp add: heap_config_def push_bit_eq_mult)
  obtain h0 report io1 dir1 where o: "Heap_open sync_block_io append_open_placement order name dir io ?config = (Inr (h0, report), io1, dir1)"
    and h0: "lasting healthy h0" "h_config h0 = ?config" "heap_map h0 = Map.empty" "h_placement h0 = \<lparr>ap_cursor = PAGE_SIZE_U64, ap_next_id = 0\<rparr>"
      "data_synced h0" "index_synced h0" "operations_since_sync h0 = 0"
      "staged_writes (df_paged_file (h_data h0)) = []" "staged_writes (ix_paged_file (h_index h0)) = []"
    using blocking.create_heap [OF assms(1,2) size assms(4), of order name] by blast
  then have c0: "c0 = \<lparr>ch_heap = Append h0, ch_log = [], ch_pending = [], ch_key = 0\<rparr>"
    using assms(5) by (simp add: child_start_def LayoutHeap_open_def expect_def)
  then have head: "ch_heap c0 = Append h0" by simp
  have n: "n < 2 ^ 32" using assms(8) by simp
  obtain lim ilim where t: "append_tidy h0" "sound healthy lim ilim h0" using h0(1) by (auto simp: lasting_def)
  have "child_at lim ilim policy h0 0 h0" using t h0(4,7) by (simp add: child_at_def heap_run.run_nil)
  moreover have "child_logged policy 0 c0" by (simp add: child_logged_def c0 child_pairs_def) (rule exI [of _ "[]"], simp add: batch_lines_def)
  moreover have "child_left lim ilim h0 0 h0"
    using t settled_left [OF t h0(8,9)] h0(8,9) lags_0 heap_run.run_nil [of sync_block_io append_placement append_sane h0]
    by (auto simp: child_left_def quiet_def trailing_Nil)
  ultimately obtain h1 where h1: "ch_heap c = Append h1" "child_at lim ilim policy h0 n h1" "child_left lim ilim h0 n h1" and l: "child_logged policy n c"
    using child_turns_at [OF assms(6) n assms(7) head] by blast
  have key: "ch_key c = of_nat n" using l by (simp add: child_logged_def)
  obtain batches where b: "ch_log c = batch_lines batches" "concat (map fst batches) = child_pairs 0 (n - n mod unat policy)"
    using l by (auto simp: child_logged_def Let_def)
  have "\<exists>N. child_at lim ilim policy h0 N h \<and> child_left lim ilim h0 N h \<and> N < 2 ^ 32 \<and> n - n mod unat policy \<le> N - N mod unat policy"
    using assms(9)
  proof
    assume "c' = c"
    then have "h1 = h" using h1(1) assms(10) by simp
    with h1(2,3) n show ?thesis by blast
  next
    assume "child_insert c = (Inr (), c')"
    from child_insert_step [OF h1 n key this] obtain h2 where "child_at lim ilim policy h0 (Suc n) h2" "child_left lim ilim h0 (Suc n) h2"
      "c' = c\<lparr>ch_heap := Append h2, ch_pending := ch_pending c @ log_line (of_nat n) (of_nat n), ch_key := of_nat n + 1\<rparr>" .
    then have "child_at lim ilim policy h0 (Suc n) h" "child_left lim ilim h0 (Suc n) h" using assms(10) by simp_all
    moreover have "n - n mod unat policy \<le> Suc n - Suc n mod unat policy"
      by (auto simp: mod_Suc intro: le_SucI [OF diff_le_self])
    moreover have "Suc n < 2 ^ 32" using assms(8) by simp
    ultimately show ?thesis by blast
  qed
  then obtain N where N: "child_at lim ilim policy h0 N h" "child_left lim ilim h0 N h" "N < 2 ^ 32"
    "n - n mod unat policy \<le> N - N mod unat policy" by blast
  from power_loss_kill_round [OF N(1,3) assms(7) t h0(5,6,3,2) b N(4) assms(11,12), of name capacity]
    killed_kill_round [OF N(1-3) assms(7) t h0(3,2) b N(4) assms(11,12), of name capacity] assms(13)
  show ?thesis by blast
qed

theorem kill_test_finds_no_loss_witness:
  "\<exists>c h v. child_turns 1 1 c = (Inr (), h) \<and> vd_lost v = 0 \<and> vd_confirmed v = 1 \<and>
     (\<exists>heap. ch_heap h = Append heap \<and> kill_round id ''append'' 1 ''store'' (left_dir heap 0) (Some (ch_log h)) SyncIo_new = Inr v)"
proof -
  let ?dir = "\<lparr>dr_files = Map.empty, dr_capacity = 1099511627776\<rparr> :: Dir" and ?config = "heap_config (EveryN 1) True"
  have size: "unat (initial_size ?config) = 805306368" "unat (growth ?config) = 134217728" by (simp_all add: heap_config_def push_bit_eq_mult)
  obtain h0 report io dir where o: "Heap_open sync_block_io append_open_placement id ''store'' ?dir SyncIo_new ?config = (Inr (h0, report), io, dir)"
    and h0: "lasting healthy h0" "h_config h0 = ?config" "h_placement h0 = \<lparr>ap_cursor = PAGE_SIZE_U64, ap_next_id = 0\<rparr>"
      "f_limit (pf_file (df_paged_file (h_data h0))) = 1099511627776" "unat (allocated_end (df_paged_file (h_data h0))) \<le> 939532288"
    using blocking.create_heap [OF SyncIo_new_healthy, of ?dir ?config id "''store''"] by (auto simp: size)
  then have start: "child_start id ''append'' 1 ''store'' ?dir SyncIo_new = Inr \<lparr>ch_heap = Append h0, ch_log = [], ch_pending = [], ch_key = 0\<rparr>"
    (is "_ = Inr ?c") by (simp add: child_start_def LayoutHeap_open_def expect_def)
  obtain lim ilim where t: "append_tidy h0" "healthy (h_io h0)" using h0(1) by (auto simp: lasting_def sound_def)
  have len: "record_len (h_data h0) (make_payload 0 1024) = 1054" using append_tidyD(4) [OF t(1)] by (simp add: record_len_def header_len_def)
  have "append_room (h_config h0) (h_placement h0) (h_data h0) (h_registry h0) 0 (of_nat 1054)"
    using h0(2-5) size by (simp add: append_room_def)
  then obtain rid h where i: "Heap_insert_into sync_block_io append_placement h0 0 (make_payload 0 1024) = (Inr rid, h)"
    using appending.insert_into_completes [OF t(2) append_tidyD(1) [OF t(1)], of "make_payload 0 1024" 0] len by auto
  have turn: "child_turns 1 1 ?c = (Inr (), child_confirm 1 (?c\<lparr>ch_heap := Append h, ch_pending := log_line 0 rid, ch_key := 1\<rparr>))"
    using i by (simp add: child_turn_def child_insert_def expect_def BUCKET_COUNT_def)
  have "\<exists>v. kill_round id ''append'' 1 ''store'' (left_dir h 0) (Some (ch_log (child_confirm 1 (?c\<lparr>ch_heap := Append h, ch_pending := log_line 0 rid, ch_key := 1\<rparr>)))) SyncIo_new =
      Inr v \<and> vd_lost v = 0 \<and> vd_corrupted v = 0 \<and> vd_confirmed v = 1 - 1 mod unat (1 :: u32) \<and> \<not> rp_rebuilt (vd_report v)"
    by (rule kill_test_finds_no_loss [OF SyncIo_new_healthy _ _ _ start turn _ _ disjI1 [OF refl] _ SyncIo_new_healthy _ disjI1 [OF refl]])
      (simp_all add: child_confirm_def Let_def order_ok_def)
  then obtain v where "kill_round id ''append'' 1 ''store'' (left_dir h 0) (Some (ch_log (child_confirm 1 (?c\<lparr>ch_heap := Append h, ch_pending := log_line 0 rid, ch_key := 1\<rparr>)))) SyncIo_new = Inr v"
    "vd_lost v = 0" "vd_confirmed v = 1" by auto
  moreover have "ch_heap (child_confirm 1 (?c\<lparr>ch_heap := Append h, ch_pending := log_line 0 rid, ch_key := 1\<rparr>)) = Append h"
    by (simp add: child_confirm_def Let_def)
  ultimately show ?thesis using turn by blast
qed

end
