(* ===== verification/Corrupt_Test.thy ===== *)
theory Corrupt_Test
  imports Kill_Test Damage
begin

text \<open>
  The corruption test of \<open>src/src/bin/crash.rs\<close>: a store is filled, its files are damaged (theory
  \<open>Damage\<close>), recovered, opened and read back; and the arguments and the choice of tests of the program.
  Time is a parameter, in milliseconds.
\<close>

section \<open>Filling the store\<close>

text \<open>The files a heap leaves when it is dropped, which flushes it.\<close>

fun LayoutHeap_dir :: "Dir \<Rightarrow> LayoutHeap \<Rightarrow> Dir" where
  "LayoutHeap_dir dir (Append h) = (let h = Heap_drop sync_block_io h in dir_files dir (h_data h) (h_index h) (h_registry h))"
| "LayoutHeap_dir dir (Bucket h) = (let h = Heap_drop sync_block_io h in dir_files dir (h_data h) (h_index h) (h_registry h))"

fun insert_keys :: "LayoutHeap \<Rightarrow> nat list \<Rightarrow> u64 list res \<times> LayoutHeap" where
  "insert_keys h [] = (Inr [], h)"
| "insert_keys h (key # keys) =
     and_then (LayoutHeap_insert_into h (of_nat key mod BUCKET_COUNT) (make_payload (of_nat key) 1024)) (\<lambda>rid h.
     and_then (insert_keys h keys) (\<lambda>rids h. (Inr (rid # rids), h)))"

definition corrupt_store :: "hash_order \<Rightarrow> string \<Rightarrow> nat \<Rightarrow> string \<Rightarrow> Dir \<Rightarrow> SyncIo \<Rightarrow> (u64 list \<times> Dir) res" where
  "corrupt_store order layout record_count name dir io =
     (case LayoutHeap_open order layout name (dir\<lparr>dr_files := Map.empty\<rparr>) io (heap_config SyncNone True) of
        (Inl e, _) \<Rightarrow> Inl e
      | (Inr (h, _), dir) \<Rightarrow>
          (case and_then (insert_keys h [0..<record_count]) (\<lambda>rids h. and_then (LayoutHeap_flush h) (\<lambda>_ h. (Inr rids, h))) of
             (Inl e, _) \<Rightarrow> Inl e
           | (Inr rids, h) \<Rightarrow> Inr (rids, LayoutHeap_dir dir h)))"

section \<open>Recovering it\<close>

text \<open>
  Recovery is asked for, except where opening cannot do without it; \<open>ios\<close> are the devices, one for each
  time the files are opened.
\<close>

definition recover_store :: "hash_order \<Rightarrow> string \<Rightarrow> string \<Rightarrow> string \<Rightarrow> Dir \<Rightarrow> SyncIo \<Rightarrow> (WalkStats \<times> Dir) res" where
  "recover_store order layout scenario name dir io =
     (if scenario \<noteq> ''drop-index'' then
        (case rebuild sync_block_io order dir io (if layout = ''bucket'' then LAYOUT_BUCKET else LAYOUT_APPEND) True
                (heap_config SyncNone True) of
           (r, _, dir) \<Rightarrow> map_sum id (\<lambda>stats. (stats, dir)) (unwrap r))
      else
        (case LayoutHeap_open order layout name dir io (heap_config SyncNone True) of
           (r, dir) \<Rightarrow> map_sum id (\<lambda>(h, report). (rp_rebuild report, LayoutHeap_dir dir h)) r))"

record Damage_Report =
  dg_lost :: nat
  dg_corrupted :: nat
  dg_stats :: WalkStats

definition corrupt_round ::
  "hash_order \<Rightarrow> string \<Rightarrow> string \<Rightarrow> nat \<Rightarrow> string \<Rightarrow> Dir \<Rightarrow> (nat \<Rightarrow> SyncIo) \<Rightarrow> Damage_Report res" where
  "corrupt_round order layout scenario record_count name dir ios =
     (case corrupt_store order layout record_count name dir (ios 0) of
        Inl e \<Rightarrow> Inl e
      | Inr (rids, dir) \<Rightarrow>
     (case damage layout scenario rids dir of
        Inl e \<Rightarrow> Inl e
      | Inr dir \<Rightarrow>
     (case recover_store order layout scenario name dir (ios 1) of
        Inl e \<Rightarrow> Inl e
      | Inr (stats, dir) \<Rightarrow>
     (case LayoutHeap_open order layout name dir (ios 2) (heap_config SyncNone True) of
        (Inl e, _) \<Rightarrow> Inl e
      | (Inr (h, _), dir) \<Rightarrow>
     (case check_confirmed h (zip (map of_nat [0..<length rids]) rids) (0, 0) of
        (Inl e, _) \<Rightarrow> Inl e
      | (Inr (missing, corrupted), h) \<Rightarrow>
          Inr \<lparr>dg_lost = missing, dg_corrupted = corrupted, dg_stats = stats\<rparr>)))))"

definition corrupt_row :: "string \<Rightarrow> string \<Rightarrow> nat \<Rightarrow> Damage_Report \<Rightarrow> nat \<Rightarrow> string list" where
  "corrupt_row layout scenario record_count r elapsed_ms =
     [layout, scenario, show_nat record_count, show_nat (dg_lost r), show_nat (dg_corrupted r), show_u64 (ws_resyncs (dg_stats r)),
      show_u64 (ws_records (dg_stats r)), show_nat elapsed_ms]"

fun corrupt_rounds ::
  "hash_order \<Rightarrow> string \<Rightarrow> Dir \<Rightarrow> (nat \<Rightarrow> nat \<Rightarrow> SyncIo) \<Rightarrow> (nat \<Rightarrow> nat) \<Rightarrow> nat \<Rightarrow> (string \<times> string) list \<Rightarrow> string \<Rightarrow> unit res \<times> string" where
  "corrupt_rounds order name dir ios elapsed_ms k [] csv = (Inr (), csv)"
| "corrupt_rounds order name dir ios elapsed_ms k ((layout, scenario) # tests) csv =
     (case corrupt_round order layout scenario 5000 name dir (ios k) of
        Inl e \<Rightarrow> (Inl e, csv)
      | Inr r \<Rightarrow>
          corrupt_rounds order name dir ios elapsed_ms (k + 1) tests
            (Csv_row csv (corrupt_row layout scenario 5000 r (elapsed_ms k))))"

definition corrupt ::
  "hash_order \<Rightarrow> string \<Rightarrow> Dir \<Rightarrow> (nat \<Rightarrow> nat \<Rightarrow> SyncIo) \<Rightarrow> (nat \<Rightarrow> nat) \<Rightarrow> string \<Rightarrow> unit res \<times> string" where
  "corrupt order name dir ios elapsed_ms csv =
     corrupt_rounds order name dir ios elapsed_ms 0
       (List.product [''append'', ''bucket''] [''payload-flip'', ''header-flip'', ''truncate'', ''drop-index'']) csv"

section \<open>Arguments\<close>

record Crash_Args =
  ca_data :: string
  ca_out :: string
  ca_layout :: string
  ca_policy :: u32
  ca_rounds :: u32

definition parse_u32 :: "string \<Rightarrow> u32 option" where
  "parse_u32 s = (case parse_u64 s of None \<Rightarrow> None | Some n \<Rightarrow> if n < 2 ^ 32 then Some (ucast n) else None)"

fun crash_parse_from :: "Crash_Args \<Rightarrow> string list \<Rightarrow> Crash_Args res" where
  "crash_parse_from args [] = Inr args"
| "crash_parse_from args [flag] = Inl (Panic (''unknown argument '' @ flag))"
| "crash_parse_from args (flag # arg # argv) =
     (if flag = ''--dir'' then crash_parse_from (args\<lparr>ca_data := arg\<rparr>) argv
      else if flag = ''--out'' then crash_parse_from (args\<lparr>ca_out := arg\<rparr>) argv
      else if flag = ''--layout'' then crash_parse_from (args\<lparr>ca_layout := arg\<rparr>) argv
      else if flag = ''--policy'' then
        (case parse_u32 arg of None \<Rightarrow> Inl (Panic ''policy'') | Some n \<Rightarrow> crash_parse_from (args\<lparr>ca_policy := n\<rparr>) argv)
      else if flag = ''--rounds'' then
        (case parse_u32 arg of None \<Rightarrow> Inl (Panic ''rounds'') | Some n \<Rightarrow> crash_parse_from (args\<lparr>ca_rounds := n\<rparr>) argv)
      else Inl (Panic (''unknown argument '' @ flag)))"

definition crash_parse :: "string list \<Rightarrow> (string \<times> Crash_Args) res" where
  "crash_parse argv =
     (let command = (case argv of c # _ \<Rightarrow> c | [] \<Rightarrow> ''help'');
          args = \<lparr>ca_data = ''.'', ca_out = ''metrics'', ca_layout = [], ca_policy = 1, ca_rounds = 3\<rparr>
      in map_sum id (Pair command) (crash_parse_from args (drop 1 argv)))"

text \<open>The kill tests that are run: of one layout or both, with two policies.\<close>

definition kill_plan :: "Crash_Args \<Rightarrow> (string \<times> u32) list" where
  "kill_plan args =
     List.product (if ca_layout args = [] then [''append'', ''bucket''] else [ca_layout args]) [1, 32]"

end
