(* ===== verification/Costs.thy ===== *)
theory Costs
  imports Corrupt_Test
begin

text \<open>
  \<open>src/src/bin/crash/costs.rs\<close>: the workloads whose costs are measured, for synchronisation, checksums,
  the checksum routine alone and recovery. Clocks are parameters, in nanoseconds; rates, which are
  doubles, are not computed. Shown: the loop against the clock ends with at most 30000 latencies, and the
  checksum that is printed is the one of the payload.
\<close>

section \<open>Synchronisation\<close>

definition warm_up :: "LayoutHeap \<Rightarrow> bytes \<Rightarrow> u64 \<Rightarrow> unit res \<times> LayoutHeap" where
  "warm_up h payload buckets =
     and_then (insert_all LayoutHeap_insert_into h payload (map (\<lambda>key. of_nat key mod buckets) [0..<64])) (\<lambda>_ h.
     and_then (LayoutHeap_flush h) (\<lambda>_ h. (Inr (), LayoutHeap_reset_counters h)))"

text \<open>Insertions for six seconds, 30000 at most; \<open>clock\<close> is the time that has passed before each.\<close>

function insert_while :: "(nat \<Rightarrow> nat) \<Rightarrow> (nat \<Rightarrow> u64) \<Rightarrow> bytes \<Rightarrow> u64 \<Rightarrow> u64 list \<Rightarrow> LayoutHeap \<Rightarrow> u64 list res \<times> LayoutHeap" where
  "insert_while clock took payload key latencies h =
     (let n = length latencies in
      if clock n < 6000000000 \<and> n < 30000 then
        and_then (LayoutHeap_insert_into h (key mod BUCKET_COUNT) payload) (\<lambda>_ h.
          insert_while clock took payload (key + 1) (latencies @ [took n]) h)
      else (Inr latencies, h))"
  by pat_completeness auto
termination
  by (relation "measure (\<lambda>(_, _, _, _, latencies, _). 30000 - length latencies)") auto

declare insert_while.simps [simp del]

definition cost_sync_run ::
  "hash_order \<Rightarrow> string \<Rightarrow> SyncPolicy \<Rightarrow> string \<Rightarrow> Dir \<Rightarrow> SyncIo \<Rightarrow> (nat \<Rightarrow> nat) \<Rightarrow> (nat \<Rightarrow> u64) \<Rightarrow> (OperationStats \<times> IoCounters) res" where
  "cost_sync_run order layout policy name dir io clock took =
     (case fst (LayoutHeap_open order layout name (dir\<lparr>dr_files := Map.empty\<rparr>) io (heap_config policy True)) of
        Inl e \<Rightarrow> Inl e
      | Inr (h, _) \<Rightarrow>
          let payload = make_payload 1 1024 in
          (case and_then (warm_up h payload BUCKET_COUNT) (\<lambda>_ h.
                and_then (insert_while clock took payload 64 [] h) (\<lambda>latencies h.
                and_then (LayoutHeap_flush h) (\<lambda>_ h. (Inr latencies, h)))) of
             (Inl e, _) \<Rightarrow> Inl e
           | (Inr latencies, h) \<Rightarrow>
               map_sum id (\<lambda>stats. (stats, LayoutHeap_counters h)) (fst (OperationStats_from_samples latencies))))"

definition cost_sync_plan :: "(string \<times> SyncPolicy \<times> string) list" where
  "cost_sync_plan = List.product [''append'', ''bucket'']
     [(SyncNone, ''none''), (EveryN 32, ''every32''), (EveryN 8, ''every8''), (EveryN 1, ''every1'')]"

definition sync_shape_run :: "hash_order \<Rightarrow> u64 \<Rightarrow> string \<Rightarrow> Dir \<Rightarrow> SyncIo \<Rightarrow> IoCounters res" where
  "sync_shape_run order regions name dir io =
     (case fst (LayoutHeap_open order ''bucket'' name (dir\<lparr>dr_files := Map.empty\<rparr>) io (heap_config (EveryN 8) True)) of
        Inl e \<Rightarrow> Inl e
      | Inr (h, _) \<Rightarrow>
          let payload = make_payload 1 1024 in
          (case and_then (warm_up h payload regions) (\<lambda>_ h.
                and_then (insert_all LayoutHeap_insert_into h payload (map (\<lambda>key. of_nat key mod regions) [64..<8064])) (\<lambda>_.
                LayoutHeap_flush)) of
             (Inl e, _) \<Rightarrow> Inl e
           | (Inr _, h) \<Rightarrow> Inr (LayoutHeap_counters h)))"

definition sync_shape_plan :: "u64 list" where
  "sync_shape_plan = [1, 2, 4, 8, 16]"

section \<open>Checksums\<close>

text \<open>Records chosen at random are read; a failed read ends the program.\<close>

fun read_chosen :: "u64 list \<Rightarrow> u64 \<Rightarrow> nat \<Rightarrow> SplitMix64 \<Rightarrow> LayoutHeap \<Rightarrow> unit res \<times> SplitMix64 \<times> LayoutHeap" where
  "read_chosen rids record_count 0 rng h = (Inr (), rng, h)"
| "read_chosen rids record_count (Suc n) rng h =
     (let (r, rng) = SplitMix64_below rng record_count in
      case at_index rids (unat r) of
        Inl e \<Rightarrow> (Inl e, rng, h)
      | Inr rid \<Rightarrow>
          (case LayoutHeap_read h rid of
             (Inl e, h) \<Rightarrow> (unwrap (Inl e), rng, h)
           | (Inr _, h) \<Rightarrow> read_chosen rids record_count n rng h))"

definition integrity_record_count :: "nat \<Rightarrow> nat" where
  "integrity_record_count len = (if 4096 < len then 3000 else 20000)"

definition cost_integrity_run :: "hash_order \<Rightarrow> string \<Rightarrow> nat \<Rightarrow> bool \<Rightarrow> string \<Rightarrow> Dir \<Rightarrow> SyncIo \<Rightarrow> LayoutHeap res" where
  "cost_integrity_run order layout len checked name dir io =
     (case fst (LayoutHeap_open order layout name (dir\<lparr>dr_files := Map.empty\<rparr>) io (heap_config SyncNone checked)) of
        Inl e \<Rightarrow> Inl e
      | Inr (h, _) \<Rightarrow>
          let record_count = integrity_record_count len; payload = make_payload 2 len in
          (case and_then (insert_all LayoutHeap_insert_into h payload (map (\<lambda>key. of_nat key mod BUCKET_COUNT) [0..<record_count])) (\<lambda>rids h.
                and_then (LayoutHeap_flush h) (\<lambda>_ h. (Inr rids, h))) of
             (Inl e, _) \<Rightarrow> Inl e
           | (Inr rids, h) \<Rightarrow>
               (case read_chosen rids (of_nat record_count) (min record_count 8000) (SplitMix64_new 5) h of
                  (Inl e, _) \<Rightarrow> Inl e
                | (Inr _, _, h) \<Rightarrow> Inr h)))"

text \<open>The checksum that is accumulated while the routine is timed.\<close>

definition crc_iterations :: "nat \<Rightarrow> nat" where
  "crc_iterations len = 2000000000 div len"

definition crc_accumulated :: "bytes \<Rightarrow> nat \<Rightarrow> u32" where
  "crc_accumulated payload n = ((\<lambda>checksum. checksum XOR crc32c payload) ^^ n) 0"

definition crc_speed_checksum :: "nat \<Rightarrow> u32" where
  "crc_speed_checksum len = crc_accumulated (make_payload 4 len) (crc_iterations len)"

section \<open>Recovery\<close>

text \<open>A store is filled and opened, and opened again after its index, and its registry, have been removed.\<close>

definition recovery_run ::
  "hash_order \<Rightarrow> string \<Rightarrow> nat \<Rightarrow> string \<Rightarrow> Dir \<Rightarrow> (nat \<Rightarrow> SyncIo) \<Rightarrow> RecoveryReport res" where
  "recovery_run order layout n name dir ios =
     (case LayoutHeap_open order layout name (dir\<lparr>dr_files := Map.empty\<rparr>) (ios 0) (heap_config SyncNone True) of
        (Inl e, _) \<Rightarrow> Inl e
      | (Inr (h, _), dir) \<Rightarrow>
     (case and_then (insert_all LayoutHeap_insert_into h (make_payload 3 1024) (map (\<lambda>key. of_nat key mod BUCKET_COUNT) [0..<n])) (\<lambda>_.
           LayoutHeap_flush) of
        (Inl e, _) \<Rightarrow> Inl e
      | (Inr _, h) \<Rightarrow>
     (case LayoutHeap_open order layout name (LayoutHeap_dir dir h) (ios 1) (heap_config SyncNone True) of
        (Inl e, _) \<Rightarrow> Inl e
      | (Inr (h, _), dir) \<Rightarrow>
     let dir = LayoutHeap_dir dir h in
     if dr_files dir ''index.hs'' = None then unwrap_failed
     else
       (let dir = remove_file dir ''index.hs'';
            dir = (if layout = ''bucket'' then remove_file dir ''registry.hs'' else dir)
        in map_sum id snd (fst (LayoutHeap_open order layout name dir (ios 2) (heap_config SyncNone True)))))))"

definition recovery_bytes :: "string \<Rightarrow> u64 \<Rightarrow> u64" where
  "recovery_bytes layout n = n * (1024 + (if layout = ''bucket'' then 38 else 30))"

section \<open>What is measured\<close>

lemma insert_while_length:
  assumes "insert_while clock took payload key latencies h = (Inr result, h')" and "length latencies \<le> 30000"
  shows "length latencies \<le> length result \<and> length result \<le> 30000 \<and>
    (length result < 30000 \<longrightarrow> 6000000000 \<le> clock (length result))"
  using assms
proof (induction clock took payload key latencies h rule: insert_while.induct)
  case (1 clock took payload key latencies h)
  show ?case
  proof (cases "clock (length latencies) < 6000000000 \<and> length latencies < 30000")
    case True
    with "1.prems"(1) obtain rid h1 where
      "insert_while clock took payload (key + 1) (latencies @ [took (length latencies)]) h1 = (Inr result, h')"
      by (auto simp: insert_while.simps [of clock took payload key latencies] Let_def elim!: and_then_Inr)
    from "1.IH" [OF refl True this] True show ?thesis by simp
  next
    case False
    with "1.prems" have "result = latencies" by (simp add: insert_while.simps [of clock took payload key latencies] Let_def)
    with False "1.prems"(2) show ?thesis by auto
  qed
qed

lemma crc_accumulated_parity: "crc_accumulated payload n = (if odd n then crc32c payload else 0)"
  by (induction n) (simp_all add: crc_accumulated_def)

text \<open>Both sizes are timed an odd number of times.\<close>

lemma crc_speed_prints_checksum:
  "crc_speed_checksum 1024 = crc32c (make_payload 4 1024)" "crc_speed_checksum 65536 = crc32c (make_payload 4 65536)"
  by (simp_all add: crc_speed_checksum_def crc_accumulated_parity crc_iterations_def)

end
