(* ===== verification/Bench.thy ===== *)
theory Bench
  imports Workload Measure Kill_Log Rng Heap_Open Uring_Io
begin

text \<open>
  \<open>src/src/bin/bench.rs\<close>: a heap of either layout on either device, the population of a store and the
  loop that repeats an operation. The clock is a parameter, in nanoseconds. Shown: the loop ends within
  its bounds.
\<close>

section \<open>Configuration\<close>

definition SIZES :: "(u64 \<times> string) list" where
  "SIZES = [(push_bit 10 1, ''1K''), (push_bit 10 5, ''5K''), (push_bit 10 18, ''18K''), (push_bit 10 64, ''64K''),
     (push_bit 10 512, ''512K''), (push_bit 20 2, ''2M''), (push_bit 20 7, ''7M'')]"

definition POPULATION_BUDGET :: u64 where "POPULATION_BUDGET = 1900000000"
definition LARGE_POPULATION_BUDGET :: u64 where "LARGE_POPULATION_BUDGET = 2100000000"
definition WRITE_BUDGET :: u64 where "WRITE_BUDGET = 2100000000"

definition config_for :: "u64 \<Rightarrow> SyncPolicy \<Rightarrow> HeapConfig" where
  "config_for payload_bytes policy =
     HeapConfig_default\<lparr>sync_policy := policy, initial_size := payload_bytes + payload_bytes div 8 + push_bit 20 96,
       growth := push_bit 20 256\<rparr>"

section \<open>A heap of either layout on either device\<close>

datatype 'k BenchmarkHeap =
    SyncAppend "(SyncIo, AppendPlacement) Heap"
  | SyncBucket "(SyncIo, BucketPlacement) Heap"
  | UringAppend "('k UringIo, AppendPlacement) Heap"
  | UringBucket "('k UringIo, BucketPlacement) Heap"

text \<open>
  \<open>UringIo::new(32, 512 << 10).expect("io_uring")\<close> for the uring devices; \<open>created\<close> says whether the
  kernel grants the ring.
\<close>

definition BenchmarkHeap_open ::
  "'k enter \<Rightarrow> (nat \<Rightarrow> int option) \<Rightarrow> hash_order \<Rightarrow> string \<Rightarrow> string \<Rightarrow> string \<Rightarrow> Dir \<Rightarrow> SyncIo \<Rightarrow> 'k UringIo \<Rightarrow> HeapConfig \<Rightarrow>
   'k BenchmarkHeap res \<times> Dir" where
  "BenchmarkHeap_open enter created order layout device name dir sio uio config =
     (let uring = expect ''io_uring'' (UringIo_new created 32 (push_bit 10 512))
      in if (layout, device) = (''append'', ''sync'') then
           map_prod (expect ''open'') id (case Heap_open sync_block_io append_open_placement order name dir sio config of
             (r, _, dir) \<Rightarrow> (map_sum id (SyncAppend \<circ> fst) r, dir))
         else if (layout, device) = (''bucket'', ''sync'') then
           map_prod (expect ''open'') id (case Heap_open sync_block_io bucket_open_placement order name dir sio config of
             (r, _, dir) \<Rightarrow> (map_sum id (SyncBucket \<circ> fst) r, dir))
         else if (layout, device) = (''append'', ''uring'') then
           (case uring of Inl e \<Rightarrow> (Inl e, dir)
            | Inr c \<Rightarrow> map_prod (expect ''open'') id (case Heap_open (uring_block_io enter c) append_open_placement order name dir uio config of
                (r, _, dir) \<Rightarrow> (map_sum id (UringAppend \<circ> fst) r, dir)))
         else if (layout, device) = (''bucket'', ''uring'') then
           (case uring of Inl e \<Rightarrow> (Inl e, dir)
            | Inr c \<Rightarrow> map_prod (expect ''open'') id (case Heap_open (uring_block_io enter c) bucket_open_placement order name dir uio config of
                (r, _, dir) \<Rightarrow> (map_sum id (UringBucket \<circ> fst) r, dir)))
         else (Inl (Panic (''unknown combo '' @ layout @ ''/'' @ device)), dir))"

text \<open>The operations; \<open>c\<close> is what the ring of a uring heap was created with.\<close>

fun BenchmarkHeap_insert_into :: "'k enter \<Rightarrow> UringConf \<Rightarrow> 'k BenchmarkHeap \<Rightarrow> u64 \<Rightarrow> bytes \<Rightarrow> u64 res \<times> 'k BenchmarkHeap" where
  "BenchmarkHeap_insert_into enter c (SyncAppend h) bucket payload =
     map_prod (expect ''insert'') SyncAppend (Heap_insert_into sync_block_io append_placement h bucket payload)"
| "BenchmarkHeap_insert_into enter c (SyncBucket h) bucket payload =
     map_prod (expect ''insert'') SyncBucket (Heap_insert_into sync_block_io bucket_placement h bucket payload)"
| "BenchmarkHeap_insert_into enter c (UringAppend h) bucket payload =
     map_prod (expect ''insert'') UringAppend (Heap_insert_into (uring_block_io enter c) append_placement h bucket payload)"
| "BenchmarkHeap_insert_into enter c (UringBucket h) bucket payload =
     map_prod (expect ''insert'') UringBucket (Heap_insert_into (uring_block_io enter c) bucket_placement h bucket payload)"

fun BenchmarkHeap_read :: "'k enter \<Rightarrow> UringConf \<Rightarrow> 'k BenchmarkHeap \<Rightarrow> u64 \<Rightarrow> bytes res \<times> 'k BenchmarkHeap" where
  "BenchmarkHeap_read enter c (SyncAppend h) rid = map_prod (expect ''read'') SyncAppend (Heap_read sync_block_io h rid)"
| "BenchmarkHeap_read enter c (SyncBucket h) rid = map_prod (expect ''read'') SyncBucket (Heap_read sync_block_io h rid)"
| "BenchmarkHeap_read enter c (UringAppend h) rid = map_prod (expect ''read'') UringAppend (Heap_read (uring_block_io enter c) h rid)"
| "BenchmarkHeap_read enter c (UringBucket h) rid = map_prod (expect ''read'') UringBucket (Heap_read (uring_block_io enter c) h rid)"

fun BenchmarkHeap_read_batch :: "'k enter \<Rightarrow> UringConf \<Rightarrow> 'k BenchmarkHeap \<Rightarrow> u64 list \<Rightarrow> bytes list res \<times> 'k BenchmarkHeap" where
  "BenchmarkHeap_read_batch enter c (SyncAppend h) ids = map_prod (expect ''read_batch'') SyncAppend (Heap_read_batch sync_block_io h ids)"
| "BenchmarkHeap_read_batch enter c (SyncBucket h) ids = map_prod (expect ''read_batch'') SyncBucket (Heap_read_batch sync_block_io h ids)"
| "BenchmarkHeap_read_batch enter c (UringAppend h) ids = map_prod (expect ''read_batch'') UringAppend (Heap_read_batch (uring_block_io enter c) h ids)"
| "BenchmarkHeap_read_batch enter c (UringBucket h) ids = map_prod (expect ''read_batch'') UringBucket (Heap_read_batch (uring_block_io enter c) h ids)"

fun BenchmarkHeap_update :: "'k enter \<Rightarrow> UringConf \<Rightarrow> 'k BenchmarkHeap \<Rightarrow> u64 \<Rightarrow> bytes \<Rightarrow> unit res \<times> 'k BenchmarkHeap" where
  "BenchmarkHeap_update enter c (SyncAppend h) rid payload =
     map_prod (expect ''update'') SyncAppend (Heap_update sync_block_io append_placement h rid payload)"
| "BenchmarkHeap_update enter c (SyncBucket h) rid payload =
     map_prod (expect ''update'') SyncBucket (Heap_update sync_block_io bucket_placement h rid payload)"
| "BenchmarkHeap_update enter c (UringAppend h) rid payload =
     map_prod (expect ''update'') UringAppend (Heap_update (uring_block_io enter c) append_placement h rid payload)"
| "BenchmarkHeap_update enter c (UringBucket h) rid payload =
     map_prod (expect ''update'') UringBucket (Heap_update (uring_block_io enter c) bucket_placement h rid payload)"

fun BenchmarkHeap_flush :: "'k enter \<Rightarrow> UringConf \<Rightarrow> 'k BenchmarkHeap \<Rightarrow> unit res \<times> 'k BenchmarkHeap" where
  "BenchmarkHeap_flush enter c (SyncAppend h) = map_prod (expect ''flush'') SyncAppend (Heap_flush sync_block_io h)"
| "BenchmarkHeap_flush enter c (SyncBucket h) = map_prod (expect ''flush'') SyncBucket (Heap_flush sync_block_io h)"
| "BenchmarkHeap_flush enter c (UringAppend h) = map_prod (expect ''flush'') UringAppend (Heap_flush (uring_block_io enter c) h)"
| "BenchmarkHeap_flush enter c (UringBucket h) = map_prod (expect ''flush'') UringBucket (Heap_flush (uring_block_io enter c) h)"

fun BenchmarkHeap_counters :: "'k enter \<Rightarrow> UringConf \<Rightarrow> 'k BenchmarkHeap \<Rightarrow> IoCounters" where
  "BenchmarkHeap_counters enter c (SyncAppend h) = Heap_io_counters sync_block_io h"
| "BenchmarkHeap_counters enter c (SyncBucket h) = Heap_io_counters sync_block_io h"
| "BenchmarkHeap_counters enter c (UringAppend h) = Heap_io_counters (uring_block_io enter c) h"
| "BenchmarkHeap_counters enter c (UringBucket h) = Heap_io_counters (uring_block_io enter c) h"

fun BenchmarkHeap_reset_counters :: "'k enter \<Rightarrow> UringConf \<Rightarrow> 'k BenchmarkHeap \<Rightarrow> 'k BenchmarkHeap" where
  "BenchmarkHeap_reset_counters enter c (SyncAppend h) = SyncAppend (Heap_reset_io_counters sync_block_io h)"
| "BenchmarkHeap_reset_counters enter c (SyncBucket h) = SyncBucket (Heap_reset_io_counters sync_block_io h)"
| "BenchmarkHeap_reset_counters enter c (UringAppend h) = UringAppend (Heap_reset_io_counters (uring_block_io enter c) h)"
| "BenchmarkHeap_reset_counters enter c (UringBucket h) = UringBucket (Heap_reset_io_counters (uring_block_io enter c) h)"

fun BenchmarkHeap_stats :: "'k BenchmarkHeap \<Rightarrow> HeapStats" where
  "BenchmarkHeap_stats (SyncAppend h) = Heap_stats append_placement h"
| "BenchmarkHeap_stats (SyncBucket h) = Heap_stats bucket_placement h"
| "BenchmarkHeap_stats (UringAppend h) = Heap_stats append_placement h"
| "BenchmarkHeap_stats (UringBucket h) = Heap_stats bucket_placement h"

section \<open>Populating a store\<close>

text \<open>The files a heap leaves when it is dropped, which flushes it.\<close>

fun BenchmarkHeap_dir :: "'k enter \<Rightarrow> UringConf \<Rightarrow> Dir \<Rightarrow> 'k BenchmarkHeap \<Rightarrow> Dir" where
  "BenchmarkHeap_dir enter c dir (SyncAppend h) =
     (let h = Heap_drop sync_block_io h in dir_files dir (h_data h) (h_index h) (h_registry h))"
| "BenchmarkHeap_dir enter c dir (SyncBucket h) =
     (let h = Heap_drop sync_block_io h in dir_files dir (h_data h) (h_index h) (h_registry h))"
| "BenchmarkHeap_dir enter c dir (UringAppend h) =
     (let h = Heap_drop (uring_block_io enter c) h in dir_files dir (h_data h) (h_index h) (h_registry h))"
| "BenchmarkHeap_dir enter c dir (UringBucket h) =
     (let h = Heap_drop (uring_block_io enter c) h in dir_files dir (h_data h) (h_index h) (h_registry h))"

text \<open>The identifiers of the records, and the directory the dropped heap leaves.\<close>

definition populate ::
  "'k enter \<Rightarrow> (nat \<Rightarrow> int option) \<Rightarrow> hash_order \<Rightarrow> string \<Rightarrow> string \<Rightarrow> Dir \<Rightarrow> SyncIo \<Rightarrow> 'k UringIo \<Rightarrow> UringConf \<Rightarrow> u64 \<Rightarrow> u64 \<Rightarrow> u64 \<Rightarrow>
   (u64 list \<times> Dir) res" where
  "populate enter created order layout name dir sio uio c sz cnt bucket_count =
     (let dir = dir\<lparr>dr_files := Map.empty\<rparr> in
      case BenchmarkHeap_open enter created order layout ''sync'' name dir sio uio (config_for (sz * cnt) SyncNone) of
        (Inl e, _) \<Rightarrow> Inl e
      | (Inr h, dir) \<Rightarrow>
          let payload = fst (SplitMix64_fill (SplitMix64_new 42) (replicate (unat sz) 0)) in
          (case insert_all (BenchmarkHeap_insert_into enter c) h payload (map (\<lambda>key. of_nat key mod bucket_count) [0..<unat cnt]) of
             (Inl e, _) \<Rightarrow> Inl e
           | (Inr rids, h) \<Rightarrow>
               (case BenchmarkHeap_flush enter c h of
                  (Inl e, _) \<Rightarrow> Inl e
                | (Inr _, h) \<Rightarrow> Inr (rids, BenchmarkHeap_dir enter c dir h))))"

section \<open>Repeating an operation\<close>

text \<open>
  The bounds of the loop: iterations and nanoseconds. The seconds of the sources are doubles; comparing
  them with the constants is comparing nanoseconds.
\<close>

record Limits =
  minimum_iterations :: nat
  target_time :: nat
  maximum_iterations :: nat
  maximum_time :: nat

definition repetition_limits :: "u64 \<Rightarrow> Limits" where
  "repetition_limits op_bytes =
     (if push_bit 20 256 \<le> op_bytes then
        \<lparr>minimum_iterations = 3, target_time = 6000000000, maximum_iterations = 6, maximum_time = 30000000000\<rparr>
      else \<lparr>minimum_iterations = 12, target_time = 400000000, maximum_iterations = 300, maximum_time = 20000000000\<rparr>)"

definition repetition_over :: "Limits \<Rightarrow> nat \<Rightarrow> nat \<Rightarrow> bool" where
  "repetition_over lim iteration elapsed \<longleftrightarrow>
     (minimum_iterations lim \<le> iteration \<and> target_time lim \<le> elapsed) \<or> maximum_iterations lim \<le> iteration \<or>
     maximum_time lim \<le> elapsed"

function repeat_from ::
  "Limits \<Rightarrow> ('s \<Rightarrow> nat \<Rightarrow> u64 res \<times> 's) \<Rightarrow> (nat \<Rightarrow> nat) \<Rightarrow> nat \<Rightarrow> u64 list \<Rightarrow> 's \<Rightarrow> u64 list res \<times> 's" where
  "repeat_from lim operation clock iteration latencies s =
     and_then (operation s iteration) (\<lambda>latency s.
       let latencies = latencies @ [latency]; iteration = iteration + 1
       in if repetition_over lim iteration (clock iteration) then (Inr latencies, s)
          else repeat_from lim operation clock iteration latencies s)"
  by pat_completeness auto
termination
  by (relation "measure (\<lambda>(lim, _, _, iteration, _). maximum_iterations lim - iteration)") (auto simp: repetition_over_def)

declare repeat_from.simps [simp del]

definition run_repetition :: "u64 \<Rightarrow> ('s \<Rightarrow> nat \<Rightarrow> u64 res \<times> 's) \<Rightarrow> (nat \<Rightarrow> nat) \<Rightarrow> 's \<Rightarrow> u64 list res \<times> 's" where
  "run_repetition op_bytes operation clock s = repeat_from (repetition_limits op_bytes) operation clock 0 [] s"

section \<open>Updating one record\<close>

text \<open>The operation of the update benchmark; \<open>took\<close> is how long the update took, by the clock.\<close>

definition update_operation ::
  "'k enter \<Rightarrow> UringConf \<Rightarrow> (nat \<Rightarrow> u64) \<Rightarrow> u64 list \<Rightarrow> u64 \<Rightarrow> bytes \<Rightarrow> SplitMix64 \<times> 'k BenchmarkHeap \<Rightarrow> nat \<Rightarrow>
   u64 res \<times> SplitMix64 \<times> 'k BenchmarkHeap" where
  "update_operation enter c took ids population payload s iteration =
     (let (rng, h) = s; (r, rng) = SplitMix64_below rng population
      in case at_index ids (unat r) of
           Inl e \<Rightarrow> (Inl e, rng, h)
         | Inr rid \<Rightarrow>
             (case BenchmarkHeap_update enter c h rid payload of
                (Inl e, h) \<Rightarrow> (Inl e, rng, h) | (Inr _, h) \<Rightarrow> (Inr (took iteration), rng, h)))"

section \<open>Results\<close>

type_synonym RepetitionResult = "OperationStats \<times> IoCounters"

text \<open>The integers of a row of results: iterations in all, and the medians of the percentiles.\<close>

definition summary_counts :: "RepetitionResult list \<Rightarrow> (u64 \<times> u64 \<times> u64 \<times> u64) res" where
  "summary_counts results =
     (let median_integer = (\<lambda>mapper. fst (median_u64 (map (\<lambda>result. mapper (fst result)) results))) in
      case median_integer p50_ns of
        Inl e \<Rightarrow> Inl e
      | Inr p50 \<Rightarrow>
          (case median_integer p95_ns of
             Inl e \<Rightarrow> Inl e
           | Inr p95 \<Rightarrow>
               map_sum id (\<lambda>p99. (sum_list (map (iterations \<circ> fst) results), p50, p95, p99)) (median_integer p99_ns)))"

text \<open>A repetition of the update benchmark.\<close>

definition update_repetition ::
  "'k enter \<Rightarrow> UringConf \<Rightarrow> (nat \<Rightarrow> nat) \<Rightarrow> (nat \<Rightarrow> u64) \<Rightarrow> u64 list \<Rightarrow> u64 \<Rightarrow> bytes \<Rightarrow> u64 \<Rightarrow> u64 \<Rightarrow> 'k BenchmarkHeap \<Rightarrow>
   (RepetitionResult \<times> 'k BenchmarkHeap) res" where
  "update_repetition enter c clock took rids population payload sz repetition h =
     (case run_repetition sz (update_operation enter c took rids population payload) clock
             (SplitMix64_new (100 + repetition), BenchmarkHeap_reset_counters enter c h) of
        (Inl e, _) \<Rightarrow> Inl e
      | (Inr latencies, _, h) \<Rightarrow>
          map_sum id (\<lambda>stats. ((stats, BenchmarkHeap_counters enter c h), h)) (fst (OperationStats_from_samples latencies)))"

section \<open>Space\<close>

text \<open>
  A phase flushes and reports; \<open>blocks\<close> are the blocks the three files take. The last column, a double,
  is not computed.
\<close>

definition space_phase ::
  "'k enter \<Rightarrow> UringConf \<Rightarrow> string \<Rightarrow> nat \<Rightarrow> string \<Rightarrow> u64 \<Rightarrow> u64 \<times> u64 \<times> u64 \<Rightarrow> 'k BenchmarkHeap \<Rightarrow> string list res \<times> 'k BenchmarkHeap" where
  "space_phase enter c layout n phase payload_bytes blocks h =
     (let (data_blocks, index_blocks, registry_blocks) = blocks in
      and_then (BenchmarkHeap_flush enter c h) (\<lambda>_ h.
      let stats = BenchmarkHeap_stats h
      in (Inr [layout, phase, show_nat n, show_u64 payload_bytes, show_u64 (data_used_bytes stats), show_u64 (data_file_bytes stats),
            show_u64 data_blocks, show_u64 index_blocks, show_u64 registry_blocks], h)))"

definition every_fourth :: "'a list \<Rightarrow> 'a list" where
  "every_fourth xs = map ((!) xs) (filter (\<lambda>i. i mod 4 = 0) [0..<length xs])"

fun update_all :: "'k enter \<Rightarrow> UringConf \<Rightarrow> bytes \<Rightarrow> u64 list \<Rightarrow> 'k BenchmarkHeap \<Rightarrow> unit res \<times> 'k BenchmarkHeap" where
  "update_all enter c payload [] h = (Inr (), h)"
| "update_all enter c payload (rid # rids) h = and_then (BenchmarkHeap_update enter c h rid payload) (\<lambda>_. update_all enter c payload rids)"

text \<open>What is done to a store that has been populated and opened again.\<close>

definition space_phases ::
  "'k enter \<Rightarrow> UringConf \<Rightarrow> string \<Rightarrow> (nat \<Rightarrow> u64 \<times> u64 \<times> u64) \<Rightarrow> u64 list \<Rightarrow> 'k BenchmarkHeap \<Rightarrow> string list list res \<times> 'k BenchmarkHeap" where
  "space_phases enter c layout blocks rids h =
     (let sz = push_bit 10 1; n = 20000; payload = fst (SplitMix64_fill (SplitMix64_new 9) (replicate (unat sz) 0)) in
      and_then (space_phase enter c layout n ''after-populate'' (sz * of_nat n) (blocks 0) h) (\<lambda>row1 h.
      and_then (update_all enter c payload (every_fourth rids) h) (\<lambda>_ h.
      and_then (space_phase enter c layout n ''after-update-quarter'' (sz * of_nat n) (blocks 1) h) (\<lambda>row2 h.
      (Inr [row1, row2], h)))))"

section \<open>Arguments\<close>

record Args =
  arg_data :: string
  arg_out :: string
  arg_filter :: string
  arg_repetitions :: u64

fun parse_from :: "Args \<Rightarrow> string list \<Rightarrow> Args res" where
  "parse_from args [] = Inr args"
| "parse_from args [flag] = Inl (Panic (''unknown argument '' @ flag))"
| "parse_from args (flag # arg # argv) =
     (if flag = ''--dir'' then parse_from (args\<lparr>arg_data := arg\<rparr>) argv
      else if flag = ''--out'' then parse_from (args\<lparr>arg_out := arg\<rparr>) argv
      else if flag = ''--filter'' then parse_from (args\<lparr>arg_filter := arg\<rparr>) argv
      else if flag = ''--reps'' then
        (case parse_u64 arg of
           None \<Rightarrow> Inl (Panic ''reps'')
         | Some n \<Rightarrow> parse_from (args\<lparr>arg_repetitions := n\<rparr>) argv)
      else Inl (Panic (''unknown argument '' @ flag)))"

definition parse :: "string list \<Rightarrow> (string \<times> Args) res" where
  "parse argv =
     (let command = (case argv of c # _ \<Rightarrow> c | [] \<Rightarrow> ''help'');
          args = \<lparr>arg_data = ''.'', arg_out = ''metrics'', arg_filter = [], arg_repetitions = 3\<rparr>
      in map_sum id (Pair command) (parse_from args (drop 1 argv)))"

section \<open>The repetition ends\<close>

text \<open>An operation that keeps \<open>P\<close> and does not fail: the loop ends, and keeps \<open>P\<close>.\<close>

lemma repeat_from_result:
  assumes "\<And>s i. P s \<Longrightarrow> \<exists>latency t. operation s i = (Inr latency, t) \<and> P t" and "P s" and "length latencies = n"
    and "n = 0 \<or> \<not> repetition_over lim n (clock n)"
  shows "\<exists>more t. repeat_from lim operation clock n latencies s = (Inr (latencies @ more), t) \<and> P t \<and> more \<noteq> [] \<and>
    repetition_over lim (n + length more) (clock (n + length more)) \<and>
    (\<forall>i. n < i \<and> i < n + length more \<longrightarrow> \<not> repetition_over lim i (clock i))"
  using assms
proof (induction lim operation clock n latencies s rule: repeat_from.induct)
  case (1 lim operation clock n latencies s)
  obtain latency t where op: "operation s n = (Inr latency, t)" and P: "P t" using "1.prems"(1,2) by blast
  show ?case
  proof (cases "repetition_over lim (n + 1) (clock (n + 1))")
    case True
    then show ?thesis
      by (intro exI [of _ "[latency]"] exI [of _ t]) (auto simp: op P repeat_from.simps [of lim operation clock n])
  next
    case False
    obtain more u where m: "repeat_from lim operation clock (n + 1) (latencies @ [latency]) t = (Inr ((latencies @ [latency]) @ more), u)"
        "P u" "more \<noteq> []" "repetition_over lim (n + 1 + length more) (clock (n + 1 + length more))"
        "\<forall>i. n + 1 < i \<and> i < n + 1 + length more \<longrightarrow> \<not> repetition_over lim i (clock i)"
      using "1.IH" [OF refl refl False "1.prems"(1) P, of latency] "1.prems"(3) False by auto
    have "\<not> repetition_over lim i (clock i)" if "n < i \<and> i < n + length (latency # more)" for i
      using m(5) False that by (cases "i = n + 1") auto
    then show ?thesis
      using m False by (intro exI [of _ "latency # more"] exI [of _ u]) (simp add: op repeat_from.simps [of lim operation clock n])
  qed
qed

lemma run_repetition_result:
  fixes op_bytes :: u64
  assumes "\<And>s i. P s \<Longrightarrow> \<exists>latency t. operation s i = (Inr latency, t) \<and> P t" and "P s"
  defines "lim \<equiv> repetition_limits op_bytes"
  shows "\<exists>latencies t. run_repetition op_bytes operation clock s = (Inr latencies, t) \<and> P t \<and>
    1 \<le> length latencies \<and> length latencies \<le> maximum_iterations lim \<and>
    (length latencies < minimum_iterations lim \<longrightarrow> maximum_time lim \<le> clock (length latencies)) \<and>
    repetition_over lim (length latencies) (clock (length latencies)) \<and>
    (\<forall>i. 0 < i \<and> i < length latencies \<longrightarrow> \<not> repetition_over lim i (clock i))"
proof -
  obtain more t where m: "repeat_from lim operation clock 0 [] s = (Inr more, t)" "P t" "more \<noteq> []"
      "repetition_over lim (length more) (clock (length more))"
      "\<forall>i. 0 < i \<and> i < length more \<longrightarrow> \<not> repetition_over lim i (clock i)"
    using repeat_from_result [of P operation s "[]" 0 lim clock, OF assms(1,2)] by auto
  have M: "minimum_iterations lim < maximum_iterations lim" by (simp add: lim_def repetition_limits_def)
  have "length more \<le> maximum_iterations lim"
    using m(5) [rule_format, of "maximum_iterations lim"] M by (fastforce simp: repetition_over_def not_le)
  moreover have "maximum_time lim \<le> clock (length more)" if "length more < minimum_iterations lim"
    using m(4) M that by (auto simp: repetition_over_def)
  ultimately show ?thesis
    using m by (intro exI [of _ more] exI [of _ t]) (auto simp: run_repetition_def lim_def Suc_le_eq)
qed

text \<open>
  An operation that does not fail is repeated a number of times between one and the maximum: the loop
  ends after the first iteration at which the time or the maximum is reached, at no earlier one, and it
  reports one latency for each.
\<close>

theorem run_repetition_ends:
  fixes op_bytes :: u64
  assumes "\<forall>s i. \<exists>latency t. operation s i = (Inr latency, t)"
  defines "lim \<equiv> repetition_limits op_bytes"
  shows "\<exists>latencies t. run_repetition op_bytes operation clock s = (Inr latencies, t) \<and>
    1 \<le> length latencies \<and> length latencies \<le> maximum_iterations lim \<and>
    (length latencies < minimum_iterations lim \<longrightarrow> maximum_time lim \<le> clock (length latencies)) \<and>
    repetition_over lim (length latencies) (clock (length latencies)) \<and>
    (\<forall>i. 0 < i \<and> i < length latencies \<longrightarrow> \<not> repetition_over lim i (clock i))"
  unfolding lim_def using run_repetition_result [of "\<lambda>_. True" operation s op_bytes clock] assms(1) by simp

lemma run_repetition_ends_witness:
  "\<exists>latencies t. run_repetition 1024 (\<lambda>n i. (Inr 5, n + 1)) (\<lambda>n. n * 40000000) (0 :: nat) = (Inr latencies, t) \<and>
     1 \<le> length latencies \<and> length latencies \<le> 300"
proof -
  have "\<exists>latencies t. run_repetition 1024 (\<lambda>n i. (Inr 5, n + 1)) (\<lambda>n. n * 40000000) (0 :: nat) = (Inr latencies, t) \<and>
     1 \<le> length latencies \<and> length latencies \<le> maximum_iterations (repetition_limits 1024)"
    using run_repetition_ends [of "\<lambda>n i. (Inr 5, n + 1)" 1024 "\<lambda>n. n * 40000000" 0] by blast
  then show ?thesis by (simp add: repetition_limits_def)
qed

end
