(* ===== verification/Write_Store.thy ===== *)
theory Write_Store
  imports Bench Heap_Life
begin

text \<open>
  The store that the write benchmark fills: what it asks of any store, and an append heap on a device
  that does not fail as such a store. The bounds are those of the benchmark: payloads of 1 KiB to 7 MiB,
  a budget of \<open>WRITE_BUDGET\<close> bytes, the sizes of \<open>config_for\<close> and a device of 3 GiB or more.
\<close>

section \<open>What the benchmark asks of a store\<close>

text \<open>A store counts the bytes it holds, and takes a payload as long as the budget is not exceeded.\<close>

locale budgeted_store =
  fixes ins :: "'h \<Rightarrow> u64 \<Rightarrow> bytes \<Rightarrow> u64 res \<times> 'h" and flush :: "'h \<Rightarrow> unit res \<times> 'h" and reset :: "'h \<Rightarrow> 'h"
    and good :: "'h \<Rightarrow> bool" and held :: "'h \<Rightarrow> nat" and payload :: bytes
  assumes ins_ok: "good h \<Longrightarrow> held h + length payload \<le> unat WRITE_BUDGET \<Longrightarrow>
      \<exists>rid t. ins h bucket payload = (Inr rid, t) \<and> good t \<and> held t = held h + length payload"
    and flush_ok: "good h \<Longrightarrow> \<exists>t. flush h = (Inr (), t) \<and> good t \<and> held t = held h"
    and reset_ok: "good h \<Longrightarrow> good (reset h) \<and> held (reset h) = held h"
begin

lemma insert_all_held:
  assumes "good h" and "held h + length buckets * length payload \<le> unat WRITE_BUDGET"
  shows "\<exists>rids t. insert_all ins h payload buckets = (Inr rids, t) \<and> good t \<and> held t = held h + length buckets * length payload"
  using assms
proof (induction buckets arbitrary: h)
  case (Cons bucket buckets)
  then obtain rid t where i: "ins h bucket payload = (Inr rid, t)" "good t" "held t = held h + length payload"
    using ins_ok [of h bucket] by auto
  moreover from this Cons.prems(2) have "held t + length buckets * length payload \<le> unat WRITE_BUDGET" by simp
  ultimately show ?case using Cons.IH [of t] by auto
qed simp

end

section \<open>Insertions and what is allocated\<close>

lemma ensure_alloc_growth:
  assumes e: "PagedFile_ensure_alloc pf up_to chunk = (Inr u, pf')" and room: "pf_room pf"
    and small: "unat up_to \<le> 2 * OFF_MAX" "unat chunk \<le> OFF_MAX"
  shows "unat (allocated_end pf') \<le> max (unat (allocated_end pf)) (unat up_to + unat chunk + 4095)"
proof (cases "up_to \<le> allocated_end pf")
  case True
  with e show ?thesis by (simp add: PagedFile_ensure_alloc_def)
next
  case False
  let ?a = "allocated_end pf" and ?m = "max up_to (allocated_end pf + chunk)"
  have "unat ?a \<le> OFF_MAX" using room by (simp add: pf_room_def)
  moreover have "unat ?a < unat up_to" using False by (simp add: word_less_nat_alt not_le)
  ultimately have m: "unat ?m \<le> unat up_to + unat chunk" "unat ?m \<le> 3 * OFF_MAX"
    using small by (auto simp: max_def unat_add_nowrap)
  have "unat (page_up ?m) = (unat ?m + 4095) div 4096 * 4096" using m(2) by (intro unat_page_up) linarith
  moreover have "allocated_end pf' = page_up ?m" using e False by (auto simp: PagedFile_ensure_alloc_def Let_def split: prod.splits sum.splits)
  moreover have "(unat ?m + 4095) div 4096 * 4096 \<le> unat ?m + 4095" by simp
  ultimately have "unat (allocated_end pf') \<le> unat ?m + 4095" by metis
  with m(1) show ?thesis by linarith
qed

context block_io
begin

lemma insert_extent:
  assumes tidy: "append_tidy h" and len: "record_len (h_data h) payload \<le> OFF_MAX"
    and c: "Heap_insert_into D append_placement h bucket payload = (Inr rid, h')" and rid: "unat rid < ID_MAX"
  obtains pf where "PagedFile_ensure_alloc (df_paged_file (h_data h)) (ap_cursor (h_placement h) + of_nat (record_len (h_data h) payload))
      (growth (h_config h)) = (Inr (), pf)" "pf_extent pf (df_paged_file (h_data h'))"
proof -
  let ?total = "of_nat (record_len (h_data h) payload) :: u64" and ?p = "h_placement h"
  obtain off h1 h2 h3 where a: "Heap_alloc D append_placement h bucket ?total = (Inr (off, rid), h1)"
    and s: "Heap_stage_record D h1 off bucket rid 1 payload = (Inr (), h2)"
      "Heap_stage_slot D h2 rid (Some \<lparr>sl_offset = off, sl_total_len = ?total\<rparr>) = (Inr (), h3)" "Heap_after_write D h3 = (Inr (), h')"
    using c by (auto simp: Heap_insert_into_def Let_def total_len_record elim!: and_then_Inr)
  obtain io p df reg where al: "AppendPlacement_alloc D (h_io h) (h_config h) ?p (h_data h) (h_registry h) bucket ?total =
      (Inr (off, rid), io, p, df, reg)" and h1: "h1 = h\<lparr>h_io := io, h_placement := p, h_data := df, h_registry := reg\<rparr>"
    using a by (auto simp: Heap_alloc_def append_placement_simps split: prod.splits)
  obtain pf where e: "PagedFile_ensure_alloc (df_paged_file (h_data h)) (ap_cursor ?p + ?total) (growth (h_config h)) = (Inr (), pf)"
    and r: "off = ap_cursor ?p" "df = (h_data h)\<lparr>df_paged_file := pf\<rparr>"
    using append_alloc_eq [OF al] by blast
  note ok = heap_okD(1-3) [OF append_tidyD(1) [OF tidy]]
  have pf: "pf_ok pf" using ensure_alloc_facts [OF e ok(2)] by simp
  have "unat ?total = record_len (h_data h) payload" by (rule unat_total_len [OF len])
  with append_step(4) [OF e ok(1,2)] len have room: "unat off + record_len df payload \<le> OFF_MAX"
    by (simp add: r record_len_def)
  obtain io2 df2 where d: "DataFile_stage_record D io df off bucket rid 1 payload = (Inr (), io2, df2)"
    and h2: "h2 = h1\<lparr>h_io := io2, h_data := df2\<rparr>"
    using s(1) by (auto simp: Heap_stage_record_def h1 split: prod.splits)
  obtain pf2 where pf2: "df2 = df\<lparr>df_paged_file := pf2\<rparr>" "pf_ok pf2" "pf_same pf pf2"
    using stage_record_Inr [OF d _ room] pf by (auto simp: r(2))
  obtain io3 ix3 where i: "IndexFile_stage_slot D io2 (h_index h) rid (Some \<lparr>sl_offset = off, sl_total_len = ?total\<rparr>) = (Inr (), io3, ix3)"
    and h3: "h3 = h2\<lparr>h_io := io3, h_index := ix3\<rparr>"
    using s(2) by (auto simp: Heap_stage_slot_def h2 h1 split: prod.splits)
  have so: "4096 \<le> unat off" "unat off \<le> OFF_MAX" using append_step(3) [OF e ok(1,2)] room len unat_total_len [OF len] by (simp_all add: r(1))
  have "pf_ok (ix_paged_file ix3)" by (rule stage_slot_Inr(1) [OF i ok(3) rid, THEN conjunct1]) (use so in \<open>auto simp: word_unat_eq_iff\<close>)
  then have "heap_stay h3 h'" using Heap_after_write_Inr [OF s(3)] pf2(1,2) by (simp add: h3 h2)
  then have "pf_extent pf2 (df_paged_file (h_data h'))" using pf2(1) by (simp add: heap_stay_def df_stay_def h3 h2)
  with pf_same_extent [OF pf2(3)] pf_extent_trans that e show thesis by blast
qed

end

section \<open>An append heap that holds copies of one payload\<close>

definition copies :: "bytes \<Rightarrow> nat \<Rightarrow> u64 \<rightharpoonup> bytes" where
  "copies payload n = (\<lambda>rid. if unat rid < n then Some payload else None)"

text \<open>The heap of \<open>n\<close> insertions: \<open>lim\<close> is the room of the device, and what is allocated leaves some of it.\<close>

definition written_heap ::
  "('io \<Rightarrow> bool) \<Rightarrow> nat \<Rightarrow> nat \<Rightarrow> bytes \<Rightarrow> nat \<Rightarrow> ('io, AppendPlacement) Heap \<Rightarrow> bool" where
  "written_heap ok lim ilim payload n h \<longleftrightarrow> append_tidy h \<and> sound ok lim ilim h \<and> 3221225472 \<le> lim \<and>
     1024 \<le> length payload \<and> length payload \<le> 7340032 \<and> unat (growth (h_config h)) = 268435456 \<and>
     unat (allocated_end (df_paged_file (h_data h))) \<le> 2731606944 \<and> unat (ap_next_id (h_placement h)) = n \<and>
     unat (ap_cursor (h_placement h)) = 4096 + n * (30 + length payload) \<and> heap_map h = copies payload n \<and>
     n * length payload \<le> unat WRITE_BUDGET"

lemma budget_bounds:
  assumes "1024 \<le> l" and "l \<le> 7340032" and "n * l \<le> unat WRITE_BUDGET"
  shows "n \<le> 2050781" "n * (30 + l) \<le> 2161523430"
proof -
  have "n * 1024 \<le> n * l" using assms(1) by simp
  also have "\<dots> \<le> 2100000000" using assms(3) by (simp add: WRITE_BUDGET_def)
  finally show n: "n \<le> 2050781" by simp
  have "n * (30 + l) = 30 * n + n * l" by (simp add: algebra_simps)
  with n assms(3) show "n * (30 + l) \<le> 2161523430" by (simp add: WRITE_BUDGET_def)
qed

lemma copies_Suc: "n < 2 ^ 64 \<Longrightarrow> (copies payload n)(of_nat n \<mapsto> payload) = copies payload (Suc n)"
  by (rule ext) (auto simp: copies_def less_Suc_eq unat_of_nat_nowrap word_unat_eq_iff)

lemma append_record_len: "append_tidy h \<Longrightarrow> record_len (h_data h) payload = 30 + length payload"
  using append_tidyD(4) [of h] by (simp add: record_len_def header_len_def)

context block_io
begin

lemma written_heap_insert:
  assumes w: "written_heap steady lim ilim payload n h" and fits: "Suc n * length payload \<le> unat WRITE_BUDGET"
  shows "\<exists>rid h'. Heap_insert_into D append_placement h bucket payload = (Inr rid, h') \<and> written_heap steady lim ilim payload (Suc n) h'"
proof -
  let ?total = "of_nat (record_len (h_data h) payload) :: u64" and ?p = "h_placement h"
  have t: "append_tidy h" "sound steady lim ilim h" and size: "1024 \<le> length payload" "length payload \<le> 7340032"
    and lim: "3221225472 \<le> lim" "unat (growth (h_config h)) = 268435456" "unat (allocated_end (df_paged_file (h_data h))) \<le> 2731606944"
    and place: "unat (ap_next_id ?p) = n" "unat (ap_cursor ?p) = 4096 + n * (30 + length payload)" and map: "heap_map h = copies payload n"
    using w by (simp_all add: written_heap_def)
  note b = budget_bounds [OF size fits]
  have rl: "record_len (h_data h) payload = 30 + length payload" by (rule append_record_len [OF t(1)])
  then have len: "record_len (h_data h) payload \<le> OFF_MAX" using size(2) by simp
  from unat_total_len [OF this] have ut: "unat ?total = 30 + length payload" by (simp only: rl)
  have "f_limit (pf_file (df_paged_file (h_data h))) = lim" using t(2) pf_fineD(4) by (auto simp: sound_def)
  then have "append_room (h_config h) ?p (h_data h) (h_registry h) bucket ?total"
    using lim place(1) b(1) size(2) ut by (simp add: append_room_def)
  from placing.insert_into_completes [OF append_placing [OF block_io_axioms] _ append_tidyD(1) [OF t(1)] len this] t(2)
  obtain rid h' where c: "Heap_insert_into D append_placement h bucket payload = (Inr rid, h')" "unat rid < ID_MAX"
      "heap_map h' = (heap_map h)(rid \<mapsto> payload)"
    by (auto simp: sound_def)
  note t' = insert_tidy [OF t len c(1,2)]
  then have e: "rid = ap_next_id ?p" "wrote h bucket rid 1 payload h'" by (simp_all add: effect_def)
  have rid: "rid = of_nat n" using e(1) place(1) by auto
  have "unat (rid + 1) = Suc n" using c(2) e(1) place(1) by (simp add: unat_add_nowrap)
  then have place': "unat (ap_next_id (h_placement h')) = Suc n" "unat (ap_cursor (h_placement h')) = 4096 + Suc n * (30 + length payload)"
    "h_config h' = h_config h"
    using e place rl by (simp_all add: wrote_def record_written_def)
  obtain pf where pf: "PagedFile_ensure_alloc (df_paged_file (h_data h)) (ap_cursor ?p + ?total) (growth (h_config h)) = (Inr (), pf)"
      "pf_extent pf (df_paged_file (h_data h'))"
    by (rule insert_extent [OF t(1) len c(1,2)])
  have sum: "unat (ap_cursor ?p + ?total) = 4096 + Suc n * (30 + length payload)"
    using place(2) ut b(2) by (simp add: unat_add_nowrap)
  have "unat (allocated_end pf) \<le> 2731606944"
    using ensure_alloc_growth [OF pf(1)] heap_okD(1) [OF append_tidyD(1) [OF t(1)]] lim sum b(2) by (simp add: append_good_def)
  then have "unat (allocated_end (df_paged_file (h_data h'))) \<le> 2731606944" using pf(2) by (simp add: pf_extent_def)
  moreover have "heap_map h' = copies payload (Suc n)" unfolding c(3) map rid by (rule copies_Suc) (use b(1) in simp)
  ultimately have "written_heap steady lim ilim payload (Suc n) h'"
    using t' place' lim(1,2) size fits unfolding written_heap_def by simp
  with c(1) show ?thesis by blast
qed

lemma written_heap_flush:
  assumes w: "written_heap steady lim ilim payload n h"
  shows "\<exists>h'. Heap_flush D h = (Inr (), h') \<and> written_heap steady lim ilim payload n h'"
proof -
  have t: "append_tidy h" "sound steady lim ilim h" using w by (simp_all add: written_heap_def)
  obtain h' where c: "Heap_flush D h = (Inr (), h')" using flush_completes t(2) by (auto simp: completes_unit sound_def)
  have st: "heap_stay h h'" using Heap_flush_Inr [OF c] heap_okD(2,3) [OF append_tidyD(1) [OF t(1)]] by blast
  have "sound steady lim ilim h'" using flush_sound [OF t(2)] c by simp
  with append_tidy_stay [OF t(1) st] heap_stay_map [OF st] st w have "written_heap steady lim ilim payload n h'"
    by (simp add: written_heap_def heap_stay_def df_stay_def pf_extent_def)
  with c show ?thesis by blast
qed

lemma written_heap_created:
  assumes st: "steady io" and new: "dr_files dir ''data.hs'' = None"
    and size: "3221225472 \<le> dr_capacity dir" "dr_capacity dir \<le> OFF_MAX" "1024 \<le> length payload" "length payload \<le> 7340032"
  shows "\<exists>h report io' dir' lim ilim. Heap_open D append_open_placement order name dir io (config_for WRITE_BUDGET policy) = (Inr (h, report), io', dir') \<and>
    written_heap steady lim ilim payload 0 h"
proof -
  let ?config = "config_for WRITE_BUDGET policy"
  have config: "unat (initial_size ?config) = 2463163296" "unat (growth ?config) = 268435456"
    by (simp_all add: config_for_def WRITE_BUDGET_def push_bit_eq_mult)
  then have "unat (initial_size ?config) + unat (growth ?config) + 8192 \<le> dr_capacity dir" using size(1) by simp
  from create_heap [OF st new this size(2), of order name]
  obtain h report io' dir' where o: "Heap_open D append_open_placement order name dir io ?config = (Inr (h, report), io', dir')"
    and h: "lasting steady h" "h_config h = ?config" "heap_map h = Map.empty" "h_placement h = \<lparr>ap_cursor = PAGE_SIZE_U64, ap_next_id = 0\<rparr>"
      "f_limit (pf_file (df_paged_file (h_data h))) = dr_capacity dir"
      "unat (allocated_end (df_paged_file (h_data h))) \<le> unat (initial_size ?config) + unat (growth ?config) + 8192"
    by blast
  obtain lim ilim where t: "append_tidy h" "sound steady lim ilim h" using h(1) by (auto simp: lasting_def)
  have "lim = dr_capacity dir" using t(2) h(5) pf_fineD(4) by (auto simp: sound_def)
  then have "written_heap steady lim ilim payload 0 h"
    using t h config size by (simp add: written_heap_def PAGE_SIZE_U64_eq copies_def fun_eq_iff)
  with o show ?thesis by blast
qed

end

section \<open>The heap of the benchmark as a store\<close>

definition store_held :: "bytes \<Rightarrow> 'k BenchmarkHeap \<Rightarrow> nat" where
  "store_held payload b = (case b of SyncAppend h \<Rightarrow> unat (ap_next_id (h_placement h)) * length payload | _ \<Rightarrow> 0)"

definition store_good :: "nat \<Rightarrow> nat \<Rightarrow> bytes \<Rightarrow> 'k BenchmarkHeap \<Rightarrow> bool" where
  "store_good lim ilim payload b \<longleftrightarrow> (case b of SyncAppend h \<Rightarrow> \<exists>n. written_heap healthy lim ilim payload n h | _ \<Rightarrow> False)"

lemma store_good_cases:
  assumes "store_good lim ilim payload b"
  obtains n h where "b = SyncAppend h" "written_heap healthy lim ilim payload n h" "store_held payload b = n * length payload"
  using assms by (auto simp: store_good_def store_held_def written_heap_def split: BenchmarkHeap.splits)

lemma store_goodI:
  assumes "written_heap healthy lim ilim payload n h"
  shows "store_good lim ilim payload (SyncAppend h)" "store_held payload (SyncAppend h) = n * length payload"
  using assms by (auto simp: store_good_def store_held_def written_heap_def)

lemma written_heap_reset:
  assumes "written_heap healthy lim ilim payload n h"
  shows "written_heap healthy lim ilim payload n (Heap_reset_io_counters sync_block_io h)"
proof -
  have "append_tidy (Heap_reset_io_counters sync_block_io h) = append_tidy h"
    by (simp add: append_tidy_def heap_ok_def Heap_reset_io_counters_def)
  moreover have "sound healthy lim ilim h \<Longrightarrow> sound healthy lim ilim (Heap_reset_io_counters sync_block_io h)"
    by (auto simp: sound_def Heap_reset_io_counters_def sync_block_io_def sync_reset_counters_def healthy_def)
  moreover have "heap_map (Heap_reset_io_counters sync_block_io h) = heap_map h"
    by (rule ext) (simp add: heap_map_def Heap_reset_io_counters_def slot_payload_def split: SlotState.split)
  ultimately show ?thesis using assms by (simp add: written_heap_def) (simp add: Heap_reset_io_counters_def)
qed

interpretation append_store: budgeted_store "BenchmarkHeap_insert_into enter c" "BenchmarkHeap_flush enter c"
  "BenchmarkHeap_reset_counters enter c" "store_good lim ilim payload" "store_held payload" payload
  for enter c lim ilim payload
proof (unfold_locales, goal_cases)
  case (1 b bucket)
  obtain n h where h: "b = SyncAppend h" "written_heap healthy lim ilim payload n h" "store_held payload b = n * length payload"
    using store_good_cases [OF 1(1)] .
  with 1(2) have "Suc n * length payload \<le> unat WRITE_BUDGET" by simp
  from blocking.written_heap_insert [OF h(2) this, of bucket] obtain rid h' where
    "Heap_insert_into sync_block_io append_placement h bucket payload = (Inr rid, h')" "written_heap healthy lim ilim payload (Suc n) h'" by blast
  then show ?case using h store_goodI [of lim ilim payload "Suc n" h'] by (simp add: expect_def add.commute)
next
  case (2 b)
  obtain n h where h: "b = SyncAppend h" "written_heap healthy lim ilim payload n h" "store_held payload b = n * length payload"
    using store_good_cases [OF 2] .
  from blocking.written_heap_flush [OF h(2)] obtain h' where
    "Heap_flush sync_block_io h = (Inr (), h')" "written_heap healthy lim ilim payload n h'" by blast
  then show ?case using h store_goodI [of lim ilim payload n h'] by (simp add: expect_def)
next
  case (3 b)
  obtain n h where h: "b = SyncAppend h" "written_heap healthy lim ilim payload n h" "store_held payload b = n * length payload"
    using store_good_cases [OF 3] .
  with store_goodI [OF written_heap_reset [OF h(2)]] show ?case by simp
qed

end
