(* ===== verification/Bench_Matrix.thy ===== *)
theory Bench_Matrix
  imports Write_Store Uring_Kernel "HOL-Library.Sublist"
begin

text \<open>
  \<open>src/src/bin/bench/matrix.rs\<close>: which records an operation of the read benchmark reads, and how much
  the write benchmark writes. Shown: records picked at random are different, the ones of a group share
  a bucket, neither choice leaves the store, and the writes of a store stay within the budget.
\<close>

section \<open>Choosing records to read\<close>

text \<open>The two classes of a size: population, buckets and widths of an operation.\<close>

definition read_classes :: "u64 \<Rightarrow> (u64 \<times> u64 \<times> u64 list) list" where
  "read_classes sz =
     [(min (POPULATION_BUDGET div (sz + 64)) 1024, if push_bit 20 7 \<le> sz then 8 else 16, [1, 10, 32]),
      (min (LARGE_POPULATION_BUDGET div (sz + 64)) 2000, 2, [1000])]"

text \<open>A class that does not fit is skipped, and so is a group wider than its bucket.\<close>

definition class_fits :: "u64 \<times> u64 \<times> u64 list \<Rightarrow> bool" where
  "class_fits cls \<longleftrightarrow> (case cls of (population, _, records) \<Rightarrow> \<not> population < Max (set records))"

definition group_fits :: "u64 \<Rightarrow> u64 \<Rightarrow> u64 \<Rightarrow> bool" where
  "group_fits population bucket_count width \<longleftrightarrow> \<not> population div bucket_count < width"

text \<open>A group: a bucket and a place in it are drawn.\<close>

fun collect :: "'a res list \<Rightarrow> 'a list res" where
  "collect [] = Inr []"
| "collect (r # rs) = (case r of Inl e \<Rightarrow> Inl e | Inr a \<Rightarrow> (case collect rs of Inl e \<Rightarrow> Inl e | Inr xs \<Rightarrow> Inr (a # xs)))"

definition select_grouped :: "u64 list \<Rightarrow> u64 \<Rightarrow> u64 \<Rightarrow> nat \<Rightarrow> SplitMix64 \<Rightarrow> u64 list res \<times> SplitMix64" where
  "select_grouped ids population bucket_count width rng =
     (let (bucket, rng) = SplitMix64_below rng bucket_count;
          (start, rng) = SplitMix64_below rng (population div bucket_count - of_nat width + 1)
      in (collect (map (\<lambda>i. at_index ids (unat ((start + of_nat i) * bucket_count + bucket))) [0..<width]), rng))"

text \<open>
  The selection of arbitrary records: the first places of a places of all indices are filled, one after
  the other, with one of the indices that follow. The places is kept from one iteration to the next.
\<close>

definition swap_at :: "'a list \<Rightarrow> nat \<Rightarrow> nat \<Rightarrow> 'a list res" where
  "swap_at xs i j =
     (if i < length xs \<and> j < length xs then Inr (xs[i := xs ! j, j := xs ! i]) else Inl (Panic ''index out of bounds''))"

fun select_arbitrary ::
  "u64 list \<Rightarrow> u64 \<Rightarrow> nat list \<Rightarrow> SplitMix64 \<times> u32 list \<Rightarrow> u64 list res \<times> SplitMix64 \<times> u32 list" where
  "select_arbitrary ids population [] (rng, places) = (Inr [], rng, places)"
| "select_arbitrary ids population (i # is) (rng, places) =
     (let (r, rng) = SplitMix64_below rng (population - of_nat i) in
      case swap_at places i (unat (of_nat i + r)) of
        Inl e \<Rightarrow> (Inl e, rng, places)
      | Inr places \<Rightarrow>
          (case at_index ids (unat (places ! i)) of
             Inl e \<Rightarrow> (Inl e, rng, places)
           | Inr rid \<Rightarrow>
               and_then (select_arbitrary ids population is (rng, places)) (\<lambda>rids s. (Inr (rid # rids), s))))"

definition initial_places :: "u64 \<Rightarrow> u32 list" where
  "initial_places population = map of_nat [0..<unat (ucast population :: u32)]"

definition select_records ::
  "bool \<Rightarrow> u64 list \<Rightarrow> u64 \<Rightarrow> u64 \<Rightarrow> nat \<Rightarrow> SplitMix64 \<times> u32 list \<Rightarrow> u64 list res \<times> SplitMix64 \<times> u32 list" where
  "select_records grouped ids population bucket_count width s =
     (if grouped then
        (case s of (rng, places) \<Rightarrow>
           (case select_grouped ids population bucket_count width rng of (r, rng) \<Rightarrow> (r, rng, places)))
      else select_arbitrary ids population [0..<width] s)"

text \<open>One read of the benchmark: one record, or a batch. The clock gives how long it took.\<close>

definition read_operation ::
  "'k enter \<Rightarrow> UringConf \<Rightarrow> (nat \<Rightarrow> u64) \<Rightarrow> bool \<Rightarrow> u64 list \<Rightarrow> u64 \<Rightarrow> u64 \<Rightarrow> nat \<Rightarrow>
   SplitMix64 \<times> u32 list \<times> 'k BenchmarkHeap \<Rightarrow> nat \<Rightarrow> u64 res \<times> SplitMix64 \<times> u32 list \<times> 'k BenchmarkHeap" where
  "read_operation enter c took grouped ids population bucket_count width s iteration =
     (let (rng, places, h) = s;
          (selected, rng, places) = select_records grouped ids population bucket_count width (rng, places)
      in case selected of
           Inl e \<Rightarrow> (Inl e, rng, places, h)
         | Inr selected_ids \<Rightarrow>
             if width = 1 then
               (case BenchmarkHeap_read enter c h (selected_ids ! 0) of
                  (Inl e, h) \<Rightarrow> (Inl e, rng, places, h) | (Inr _, h) \<Rightarrow> (Inr (took iteration), rng, places, h))
             else
               (case BenchmarkHeap_read_batch enter c h selected_ids of
                  (Inl e, h) \<Rightarrow> (Inl e, rng, places, h) | (Inr _, h) \<Rightarrow> (Inr (took iteration), rng, places, h)))"

definition read_repetition ::
  "'k enter \<Rightarrow> UringConf \<Rightarrow> (nat \<Rightarrow> nat) \<Rightarrow> (nat \<Rightarrow> u64) \<Rightarrow> bool \<Rightarrow> u64 list \<Rightarrow> u64 \<Rightarrow> u64 \<Rightarrow> nat \<Rightarrow> u64 \<Rightarrow> u64 \<Rightarrow> 'k BenchmarkHeap \<Rightarrow>
   (RepetitionResult \<times> 'k BenchmarkHeap) res" where
  "read_repetition enter c clock took grouped ids population bucket_count width sz repetition h =
     (case run_repetition (of_nat width * sz) (read_operation enter c took grouped ids population bucket_count width) clock
             (SplitMix64_new (0xC0FFEE + repetition), initial_places population, BenchmarkHeap_reset_counters enter c h) of
        (Inl e, _) \<Rightarrow> Inl e
      | (Inr latencies, _, _, h) \<Rightarrow>
          map_sum id (\<lambda>stats. ((stats, BenchmarkHeap_counters enter c h), BenchmarkHeap_reset_counters enter c h))
            (fst (OperationStats_from_samples latencies)))"

section \<open>Which tests are run\<close>

definition test_tag :: "string \<Rightarrow> string \<Rightarrow> string \<Rightarrow> string \<Rightarrow> u64 \<Rightarrow> string \<Rightarrow> string" where
  "test_tag layout device op pattern width size_name = join '','' [layout, device, op, pattern, show_u64 width, size_name]"

definition patterns :: "u64 \<Rightarrow> string list" where
  "patterns width = (if width = 1 then [''arbitrary''] else [''arbitrary'', ''grouped''])"

text \<open>The store of a class is populated if some test of it, of any pattern, is selected.\<close>

definition need_run :: "string \<Rightarrow> string \<Rightarrow> string \<Rightarrow> u64 list \<Rightarrow> bool" where
  "need_run selection layout size_name records \<longleftrightarrow>
     list_ex (\<lambda>width. list_ex (\<lambda>device. list_ex (\<lambda>pattern.
       sublist selection (test_tag layout device ''read'' pattern width size_name)) [''arbitrary'', ''grouped'']) [''sync'', ''uring'']) records"

text \<open>The tests of a class: device, width and pattern.\<close>

definition class_tests ::
  "string \<Rightarrow> string \<Rightarrow> string \<Rightarrow> u64 \<times> u64 \<times> u64 list \<Rightarrow> (string \<times> u64 \<times> string) list" where
  "class_tests selection layout size_name cls =
     (case cls of (population, bucket_count, records) \<Rightarrow>
        filter (\<lambda>(device, width, pattern). sublist selection (test_tag layout device ''read'' pattern width size_name) \<and>
            \<not> (pattern = ''grouped'' \<and> \<not> group_fits population bucket_count width))
          (concat (map (\<lambda>device. concat (map (\<lambda>width. map (\<lambda>pattern. (device, width, pattern)) (patterns width)) records))
             [''sync'', ''uring''])))"

definition read_plan :: "string \<Rightarrow> (string \<times> u64 \<times> u64 \<times> u64 \<times> (string \<times> u64 \<times> string) list) list" where
  "read_plan selection =
     concat (map (\<lambda>(layout, sz, size_name).
       map (\<lambda>cls. (layout, sz, fst cls, fst (snd cls), class_tests selection layout size_name cls))
         (filter (\<lambda>cls. class_fits cls \<and> need_run selection layout size_name (snd (snd cls))) (read_classes sz)))
       (List.product [''append'', ''bucket''] SIZES))"

text \<open>No selected test is missed where its store is not populated.\<close>

lemma need_run_misses_nothing:
  assumes "\<not> need_run selection layout size_name records"
  shows "class_tests selection layout size_name (population, bucket_count, records) = []"
  using assms by (auto simp: class_tests_def need_run_def list_ex_iff patterns_def filter_empty_conv split: if_splits)

section \<open>The choices stay in the store\<close>

lemma swap_at_Inr:
  assumes "i < length xs" and "j < length xs"
  shows "swap_at xs i j = Inr (xs[i := xs ! j, j := xs ! i])"
    and "mset (xs[i := xs ! j, j := xs ! i]) = mset xs"
    and "i \<le> j \<Longrightarrow> take i (xs[i := xs ! j, j := xs ! i]) = take i xs"
  using assms by (simp_all add: swap_at_def mset_swap)

lemma below_range:
  assumes "k < unat population"
  shows "k + unat (fst (SplitMix64_below rng (population - of_nat k))) < unat population"
    and "unat (of_nat k + fst (SplitMix64_below rng (population - of_nat k))) =
      k + unat (fst (SplitMix64_below rng (population - of_nat k)))"
proof -
  let ?r = "fst (SplitMix64_below rng (population - of_nat k))"
  have "k < 2 ^ LENGTH(64)" using assms unsigned_less [of population] by (rule less_trans)
  then have k: "unat (of_nat k :: u64) = k" by (rule unat_of_nat_nowrap)
  then have d: "unat (population - of_nat k) = unat population - k"
    using assms by (simp add: unat_sub word_le_nat_alt)
  then have "0 < population - of_nat k" using assms by (simp add: word_less_nat_alt)
  then have "?r < population - of_nat k" unfolding SplitMix64_below_def by (rule below_less)
  then show r: "k + unat ?r < unat population" using d assms by (simp add: word_less_nat_alt)
  then have "k + unat ?r < 2 ^ LENGTH(64)" using unsigned_less [of population] by (rule less_trans)
  then show "unat (of_nat k + ?r) = k + unat ?r" using k by (simp add: unat_word_ariths)
qed

lemma select_arbitrary_from:
  assumes "w \<le> unat population" and "length places = unat population" and "length ids = unat population"
    and "\<forall>x\<in>#mset places. unat x < unat population"
  shows "\<exists>rng' places'. select_arbitrary ids population [k..<w] (rng, places) =
      (Inr (map (\<lambda>i. ids ! unat (places' ! i)) [k..<w]), rng', places') \<and>
    mset places' = mset places \<and> take k places' = take k places"
  using assms
proof (induction "w - k" arbitrary: k rng places)
  case 0
  then show ?case by auto
next
  case (Suc d)
  then have k: "k < w" "k < unat population" "[k..<w] = k # [Suc k..<w]" by (auto simp: upt_rec [of k])
  obtain r rng1 where r: "SplitMix64_below rng (population - of_nat k) = (r, rng1)" by fastforce
  let ?j = "k + unat r"
  let ?places = "places[k := places ! ?j, ?j := places ! k]"
  have j: "?j < unat population" "unat (of_nat k + r) = ?j" using below_range [OF k(2), of rng] r by auto
  have sw: "swap_at places k (unat (of_nat k + r)) = Inr ?places" "mset ?places = mset places"
      "take k ?places = take k places"
    using swap_at_Inr [of k places ?j] k(2) j Suc.prems(2) by auto
  have ki: "unat (?places ! k) < unat population"
    using Suc.prems(2,4) sw(2) k(2) by (metis length_list_update nth_mem set_mset_mset)
  have dk: "d = w - Suc k" using Suc.hyps(2) by simp
  obtain rng' places' where m: "select_arbitrary ids population [Suc k..<w] (rng1, ?places) =
        (Inr (map (\<lambda>i. ids ! unat (places' ! i)) [Suc k..<w]), rng', places')"
      "mset places' = mset ?places" "take (Suc k) places' = take (Suc k) ?places"
    using Suc.hyps(1) [OF dk Suc.prems(1), of ?places rng1] Suc.prems(2-4) sw(2) by auto
  have "length places' = length ?places" using m(2) by (rule mset_eq_length)
  then have "places' ! k = ?places ! k" "take k places' = take k ?places"
    using m(3) k(2) Suc.prems(2) by (simp_all add: take_Suc_conv_app_nth)
  moreover have "at_index ids (unat (places' ! k)) = Inr (ids ! unat (places' ! k))"
    using ki Suc.prems(3) calculation by (simp add: at_index_def)
  ultimately show ?case
    using m sw unfolding k(3) by (simp add: r)
qed

lemma collect_map:
  assumes "\<forall>i\<in>set is. f i = Inr (g i)"
  shows "collect (map f is) = Inr (map g is)"
  using assms by (induction "is") auto

lemma select_grouped_result:
  assumes "0 < bucket_count" and "group_fits population bucket_count (of_nat width)" and "width < 2 ^ 64" and "0 < width"
    and "length ids = unat population"
  shows "\<exists>start bucket rng'. select_grouped ids population bucket_count width rng =
      (Inr (map (\<lambda>i. ids ! ((start + i) * unat bucket_count + bucket)) [0..<width]), rng') \<and>
    bucket < unat bucket_count \<and> (start + width) * unat bucket_count \<le> unat population"
proof -
  obtain bucket rng1 where b: "SplitMix64_below rng bucket_count = (bucket, rng1)" by fastforce
  have bl: "unat bucket < unat bucket_count"
    using below_less [OF assms(1), of SplitMix64_next_u64 rng] b by (simp add: SplitMix64_below_def word_less_nat_alt)
  let ?g = "unat population div unat bucket_count"
  let ?n = "population div bucket_count - of_nat width + 1"
  obtain start rng2 where st: "SplitMix64_below rng1 ?n = (start, rng2)" by fastforce
  have w: "unat (of_nat width :: u64) = width" using assms(3) by (simp add: unat_of_nat_nowrap)
  have gd: "unat (population div bucket_count) = ?g" by (rule unat_div)
  have fit: "width \<le> ?g" using assms(2) w gd by (simp add: group_fits_def word_less_nat_alt)
  have "?g < 2 ^ LENGTH(64)" using unsigned_less [of population] by (rule le_less_trans [OF div_le_dividend])
  then have n: "unat ?n = ?g - width + 1"
    using fit w gd assms(4) by (simp add: unat_word_ariths unat_sub word_le_nat_alt)
  then have "0 < ?n" by (simp add: word_less_nat_alt)
  then have "start < ?n"
    using below_less [of ?n SplitMix64_next_u64 rng1] st by (simp add: SplitMix64_below_def)
  then have sw: "unat start + width \<le> ?g" using n fit by (simp add: word_less_nat_alt)
  have pop: "(unat start + width) * unat bucket_count \<le> unat population"
    using mult_le_mono1 [OF sw, of "unat bucket_count"] div_times_less_eq_dividend [of "unat population" "unat bucket_count"] by linarith
  have ix: "(unat start + i) * unat bucket_count + unat bucket < unat population \<and>
      unat ((start + of_nat i) * bucket_count + bucket) = (unat start + i) * unat bucket_count + unat bucket" if "i < width" for i
  proof -
    have "(unat start + i) * unat bucket_count + unat bucket < (unat start + i + 1) * unat bucket_count" using bl by simp
    also have "\<dots> \<le> (unat start + width) * unat bucket_count" using that by (intro mult_le_mono1) simp
    finally have lt: "(unat start + i) * unat bucket_count + unat bucket < unat population" using pop by simp
    also have "\<dots> < 2 ^ LENGTH(64)" by (rule unsigned_less)
    finally have "unat (of_nat ((unat start + i) * unat bucket_count + unat bucket) :: u64) =
        (unat start + i) * unat bucket_count + unat bucket" by (rule unat_of_nat_nowrap)
    then show ?thesis using lt by simp
  qed
  have "collect (map (\<lambda>i. at_index ids (unat ((start + of_nat i) * bucket_count + bucket))) [0..<width]) =
      Inr (map (\<lambda>i. ids ! ((unat start + i) * unat bucket_count + unat bucket)) [0..<width])"
    by (rule collect_map) (use ix assms(5) in \<open>auto simp: at_index_def\<close>)
  then show ?thesis
    using bl pop by (intro exI [of _ "unat start"] exI [of _ "unat bucket"] exI [of _ rng2]) (simp add: select_grouped_def b st)
qed

lemma unat_initial_places:
  assumes "population < 2 ^ 32"
  shows "map unat (initial_places population) = [0..<unat population]"
proof -
  have "unat population < 2 ^ 32" using assms by (simp add: word_less_nat_alt)
  then have "unat (ucast population :: u32) = unat population"
    by (simp only: unsigned_ucast_eq) (simp add: take_bit_nat_eq_self)
  moreover have "unat (of_nat i :: u32) = i" if "i < unat population" for i
    using that \<open>unat population < 2 ^ 32\<close> by (simp add: unat_of_nat_nowrap)
  ultimately show ?thesis by (auto simp: initial_places_def intro: map_idI)
qed

text \<open>
  C32: Whatever the pattern, an operation of the read benchmark reads as many records as it is wide, all
  different and all of the store. The records of a group share a bucket, and the indices drawn from are
  kept for the iterations that follow.
\<close>

theorem read_selection:
  assumes "0 < width" and "width \<le> unat population" and "population < 2 ^ 32" and "length ids = unat population"
    and "mset places = mset (initial_places population)"
    and "grouped \<Longrightarrow> 0 < bucket_count \<and> group_fits population bucket_count (of_nat width)"
  shows "\<exists>js rng' places'. select_records grouped ids population bucket_count width (rng, places) =
      (Inr (map ((!) ids) js), rng', places') \<and>
    length js = width \<and> distinct js \<and> list_all (\<lambda>j. j < length ids) js \<and>
    (grouped \<longrightarrow> (\<exists>bucket < unat bucket_count. list_all (\<lambda>j. j mod unat bucket_count = bucket) js)) \<and>
    mset places' = mset (initial_places population)"
proof (cases grouped)
  case True
  then have bc: "0 < bucket_count" "0 < unat bucket_count" and fits: "group_fits population bucket_count (of_nat width)"
    using assms(6) by (auto simp: word_less_nat_alt)
  have w: "width < 2 ^ 64" using assms(2,3) by (simp add: word_less_nat_alt)
  obtain start bucket rng' where g: "select_grouped ids population bucket_count width rng =
        (Inr (map (\<lambda>i. ids ! ((start + i) * unat bucket_count + bucket)) [0..<width]), rng')"
      "bucket < unat bucket_count" "(start + width) * unat bucket_count \<le> unat population"
    using select_grouped_result [OF bc(1) fits w assms(1,4)] by blast
  let ?js = "map (\<lambda>i. (start + i) * unat bucket_count + bucket) [0..<width]"
  have "(start + i) * unat bucket_count + bucket < unat population" if "i < width" for i
  proof -
    have "(start + i + 1) * unat bucket_count \<le> (start + width) * unat bucket_count"
      using that by (intro mult_le_mono1) simp
    then show ?thesis using g(2,3) by simp
  qed
  moreover have "distinct ?js" using bc by (auto simp: distinct_map inj_on_def)
  ultimately show ?thesis
    using True g assms(4,5)
    by (intro exI [of _ ?js] exI [of _ rng'] exI [of _ places]) (auto simp: select_records_def list_all_iff comp_def)
next
  case False
  have len: "length places = unat population"
    using assms(3,5) unat_initial_places [of population] by (metis length_map length_upt minus_nat.diff_0 mset_eq_length)
  have all: "mset (map unat places) = mset [0..<unat population]"
    using assms(5) unat_initial_places [OF assms(3)] by (metis mset_map)
  then have "\<forall>x\<in>#mset places. unat x < unat population"
    by (metis (no_types, lifting) atLeastLessThan_iff image_eqI list.set_map set_mset_mset set_upt mset_eq_setD)
  then obtain rng' places' where s: "select_arbitrary ids population [0..<width] (rng, places) =
        (Inr (map (\<lambda>i. ids ! unat (places' ! i)) [0..<width]), rng', places')" "mset places' = mset places"
    using select_arbitrary_from [OF assms(2) len assms(4), of 0 rng] by auto
  have p: "mset (map unat places') = mset [0..<unat population]" "length places' = unat population"
    using s(2) all len by (simp, metis mset_eq_length)
  let ?js = "take width (map unat places')"
  have "distinct (map unat places')" using p(1) by (metis distinct_upt mset_eq_imp_distinct_iff)
  moreover have "set (map unat places') = {0..<unat population}" using p(1) by (metis mset_eq_setD set_upt)
  moreover have "map (\<lambda>i. ids ! unat (places' ! i)) [0..<width] = map ((!) ids) ?js"
    using p(2) assms(2) by (intro nth_equalityI) auto
  ultimately show ?thesis
    using False s p(2) assms(2,4,5)
    by (intro exI [of _ ?js] exI [of _ rng'] exI [of _ places'])
      (auto simp: select_records_def list_all_iff dest: in_set_takeD)
qed

lemma read_selection_witness:
  "\<exists>js rng' places'. select_records True (map of_nat [0..<32]) 32 16 2 (SplitMix64_new 1, initial_places 32) =
      (Inr (map ((!) (map of_nat [0..<32])) js), rng', places') \<and> length js = 2 \<and> distinct js"
proof -
  have "mset (initial_places 32) = mset (initial_places 32)" and "group_fits 32 16 (of_nat 2)"
    by (simp_all add: group_fits_def)
  then show ?thesis
    using read_selection [of 2 32 "map of_nat [0..<32]" "initial_places 32" True 16 "SplitMix64_new 1"] by auto
qed

section \<open>Writing\<close>

definition write_bucket_count :: "u64 \<Rightarrow> u64" where
  "write_bucket_count sz = (if push_bit 20 7 \<le> sz then 8 else 16)"

definition warmup_count :: "u64 \<Rightarrow> u64 \<Rightarrow> u64" where
  "warmup_count width bucket_count = min width (2 * bucket_count)"

text \<open>A test whose warmup and first operation exceed the budget is skipped.\<close>

definition write_fits :: "u64 \<Rightarrow> u64 \<Rightarrow> bool" where
  "write_fits width sz \<longleftrightarrow> \<not> WRITE_BUDGET < min width (2 * write_bucket_count sz) * sz + width * sz"

text \<open>
  The closure \<open>fresh\<close>: \<open>opened\<close> is what opening a heap in the emptied directory gives. The heap, the
  payload and the bytes written come back.
\<close>

definition write_fresh ::
  "'h res \<Rightarrow> ('h \<Rightarrow> u64 \<Rightarrow> bytes \<Rightarrow> u64 res \<times> 'h) \<Rightarrow> ('h \<Rightarrow> unit res \<times> 'h) \<Rightarrow> u64 \<Rightarrow> u64 \<Rightarrow> ('h \<times> bytes \<times> u64) res" where
  "write_fresh opened ins flush width sz =
     (case opened of
        Inl e \<Rightarrow> Inl e
      | Inr h \<Rightarrow>
          let bucket_count = write_bucket_count sz; warmup = warmup_count width bucket_count;
              payload = fst (SplitMix64_fill (SplitMix64_new 7) (replicate (unat sz) 0))
          in case and_then (insert_all ins h payload (map (\<lambda>key. of_nat key mod bucket_count) [0..<unat warmup])) (\<lambda>_ h. flush h) of
               (Inl e, h) \<Rightarrow> Inl e
             | (Inr _, h) \<Rightarrow> Inr (h, payload, warmup * sz))"

text \<open>One write: nothing once the budget is used up.\<close>

definition write_operation ::
  "('h \<Rightarrow> u64 \<Rightarrow> bytes \<Rightarrow> u64 res \<times> 'h) \<Rightarrow> (nat \<Rightarrow> u64) \<Rightarrow> bool \<Rightarrow> bytes \<Rightarrow> u64 \<Rightarrow> u64 \<Rightarrow> u64 \<Rightarrow>
   u64 \<times> 'h \<Rightarrow> nat \<Rightarrow> u64 res \<times> u64 \<times> 'h" where
  "write_operation ins took grouped payload width sz budget s iteration =
     (let (used, h) = s; op_bytes = width * sz; bucket_count = write_bucket_count sz in
      if budget < used + op_bytes then (Inr 1, used, h)
      else
        (let buckets = map (\<lambda>i. (if grouped then of_nat iteration else of_nat iteration * width + of_nat i) mod bucket_count)
               [0..<unat width]
         in case insert_all ins h payload buckets of
              (Inl e, h) \<Rightarrow> (Inl e, used, h)
            | (Inr _, h) \<Rightarrow> (Inr (took iteration), used + op_bytes, h)))"

text \<open>
  One repetition: a heap with no room for four operations is replaced, and the latencies of the
  operations that wrote nothing are dropped.
\<close>

definition write_repetition ::
  "('h \<times> bytes \<times> u64) res \<Rightarrow> ('h \<Rightarrow> u64 \<Rightarrow> bytes \<Rightarrow> u64 res \<times> 'h) \<Rightarrow> ('h \<Rightarrow> 'h) \<Rightarrow> ('h \<Rightarrow> IoCounters) \<Rightarrow>
   (nat \<Rightarrow> nat) \<Rightarrow> (nat \<Rightarrow> u64) \<Rightarrow> bool \<Rightarrow> bytes \<Rightarrow> u64 \<Rightarrow> u64 \<Rightarrow> 'h \<times> u64 \<Rightarrow>
   (RepetitionResult \<times> 'h \<times> u64) res" where
  "write_repetition fresh ins reset io_of clock took grouped payload width sz s =
     (let op_bytes = width * sz in
      case (if WRITE_BUDGET < snd s + op_bytes * 4 then map_sum id (\<lambda>(h, _, written). (h, written)) fresh else Inr s) of
        Inl e \<Rightarrow> Inl e
      | Inr (h, written) \<Rightarrow>
          let budget = (if written \<le> WRITE_BUDGET then WRITE_BUDGET - written else 0) in
          (case run_repetition op_bytes (write_operation ins took grouped payload width sz budget) clock (0, reset h) of
             (Inl e, _) \<Rightarrow> Inl e
           | (Inr latencies, used, h) \<Rightarrow>
               let latencies = filter (\<lambda>latency. 1 < latency) latencies;
                   latencies = (if latencies = [] then [1] else latencies)
               in map_sum id (\<lambda>stats. ((stats, io_of h), h, written + used)) (fst (OperationStats_from_samples latencies))))"

fun write_repetitions ::
  "('h \<times> bytes \<times> u64) res \<Rightarrow> ('h \<Rightarrow> u64 \<Rightarrow> bytes \<Rightarrow> u64 res \<times> 'h) \<Rightarrow> ('h \<Rightarrow> 'h) \<Rightarrow> ('h \<Rightarrow> IoCounters) \<Rightarrow>
   bool \<Rightarrow> bytes \<Rightarrow> u64 \<Rightarrow> u64 \<Rightarrow> ((nat \<Rightarrow> nat) \<times> (nat \<Rightarrow> u64)) list \<Rightarrow> 'h \<times> u64 \<Rightarrow> (RepetitionResult list \<times> 'h) res" where
  "write_repetitions fresh ins reset io_of grouped payload width sz [] s = Inr ([], fst s)"
| "write_repetitions fresh ins reset io_of grouped payload width sz ((clock, took) # clocks) s =
     (case write_repetition fresh ins reset io_of clock took grouped payload width sz s of
        Inl e \<Rightarrow> Inl e
      | Inr (result, s) \<Rightarrow>
          map_sum id (\<lambda>(results, h). (result # results, h)) (write_repetitions fresh ins reset io_of grouped payload width sz clocks s))"

definition write_test ::
  "('h res) \<Rightarrow> ('h \<Rightarrow> u64 \<Rightarrow> bytes \<Rightarrow> u64 res \<times> 'h) \<Rightarrow> ('h \<Rightarrow> unit res \<times> 'h) \<Rightarrow> ('h \<Rightarrow> 'h) \<Rightarrow> ('h \<Rightarrow> IoCounters) \<Rightarrow>
   bool \<Rightarrow> u64 \<Rightarrow> u64 \<Rightarrow> ((nat \<Rightarrow> nat) \<times> (nat \<Rightarrow> u64)) list \<Rightarrow> (RepetitionResult list \<times> 'h) res" where
  "write_test opened ins flush reset io_of grouped width sz clocks =
     (case write_fresh opened ins flush width sz of
        Inl e \<Rightarrow> Inl e
      | Inr (h, payload, written) \<Rightarrow>
          write_repetitions (write_fresh opened ins flush width sz) ins reset io_of grouped payload width sz clocks (h, written))"

text \<open>The test on the heap of a layout and a device.\<close>

definition benchmark_write_test ::
  "'k enter \<Rightarrow> (nat \<Rightarrow> int option) \<Rightarrow> hash_order \<Rightarrow> string \<Rightarrow> string \<Rightarrow> string \<Rightarrow> Dir \<Rightarrow> SyncIo \<Rightarrow> 'k UringIo \<Rightarrow> UringConf \<Rightarrow>
   bool \<Rightarrow> u64 \<Rightarrow> u64 \<Rightarrow> ((nat \<Rightarrow> nat) \<times> (nat \<Rightarrow> u64)) list \<Rightarrow> (RepetitionResult list \<times> 'k BenchmarkHeap) res" where
  "benchmark_write_test enter created order layout device name dir sio uio c grouped width sz clocks =
     write_test
       (fst (BenchmarkHeap_open enter created order layout device name (dir\<lparr>dr_files := Map.empty\<rparr>) sio uio
               (config_for WRITE_BUDGET (EveryN (ucast width)))))
       (BenchmarkHeap_insert_into enter c) (BenchmarkHeap_flush enter c) (BenchmarkHeap_reset_counters enter c)
       (BenchmarkHeap_counters enter c) grouped width sz clocks"

definition write_plan :: "string \<Rightarrow> (string \<times> u64 \<times> string \<times> u64 \<times> string) list" where
  "write_plan selection =
     concat (map (\<lambda>(layout, sz, size_name). concat (map (\<lambda>width. concat (map (\<lambda>device.
       map (\<lambda>pattern. (layout, sz, device, width, pattern))
         (filter (\<lambda>pattern. sublist selection (test_tag layout device ''write'' pattern width size_name) \<and> write_fits width sz)
           (patterns width)))
       [''sync'', ''uring''])) [1, 10, 32, 1000])) (List.product [''append'', ''bucket''] SIZES))"

section \<open>The budget is kept\<close>

lemma unat_payload_bytes:
  assumes "width \<le> 1000" and "sz \<le> push_bit 20 7"
  shows "unat (width * sz :: u64) = unat width * unat sz" "unat (width * sz) \<le> 7340032000"
proof -
  have b: "unat width \<le> 1000" "unat sz \<le> 7340032" using assms by (simp_all add: word_le_nat_alt)
  then have "unat width * unat sz \<le> 1000 * 7340032" by (rule mult_le_mono)
  then show "unat (width * sz) = unat width * unat sz" "unat (width * sz) \<le> 7340032000"
    by (simp_all add: unat_word_ariths)
qed

context budgeted_store
begin

lemma fresh_held:
  assumes "write_fits width sz" and "width \<le> 1000" and "sz \<le> push_bit 20 7"
    and p: "payload = fst (SplitMix64_fill (SplitMix64_new 7) (replicate (unat sz) 0))" and h0: "good h0" "held h0 = 0"
  shows "\<exists>h written. write_fresh (Inr h0) ins flush width sz = Inr (h, payload, written) \<and> good h \<and>
    held h = unat written \<and> written \<le> WRITE_BUDGET"
proof -
  let ?w = "warmup_count width (write_bucket_count sz)"
  have "?w \<le> width" by (simp add: warmup_count_def)
  then have w: "?w \<le> 1000" using assms(2) by (rule order_trans)
  note m = unat_payload_bytes [OF w assms(3)] and n = unat_payload_bytes [OF assms(2,3)]
  have "unat (?w * sz + width * sz) = unat (?w * sz) + unat (width * sz)" using m(2) n(2) by (simp add: unat_word_ariths)
  then have fits: "?w * sz \<le> WRITE_BUDGET"
    using assms(1) by (simp add: write_fits_def warmup_count_def [symmetric] word_le_nat_alt not_less)
  have len: "length payload = unat sz" by (simp add: p SplitMix64_fill_def)
  let ?buckets = "map (\<lambda>key. of_nat key mod write_bucket_count sz) [0..<unat ?w]"
  have "held h0 + length ?buckets * length payload \<le> unat WRITE_BUDGET"
    using fits m(1) h0(2) len by (simp add: word_le_nat_alt)
  from insert_all_held [OF h0(1) this] obtain rids t where
    "insert_all ins h0 payload ?buckets = (Inr rids, t)" "good t" "held t = unat ?w * unat sz"
    using h0(2) len by auto
  moreover from flush_ok [OF this(2)] obtain u where "flush t = (Inr (), u)" "good u" "held u = held t" by blast
  ultimately show ?thesis using fits m(1) by (auto simp: write_fresh_def Let_def p [symmetric])
qed

lemma write_operation_held:
  assumes "width \<le> 1000" and "sz \<le> push_bit 20 7" and "length payload = unat sz" and "before + unat budget \<le> unat WRITE_BUDGET"
    and "used \<le> budget" and "good h" and "held h = before + unat used"
  shows "\<exists>latency used' h'. write_operation ins took grouped payload width sz budget (used, h) iteration = (Inr latency, used', h') \<and>
    used' \<le> budget \<and> good h' \<and> held h' = before + unat used'"
proof -
  note n = unat_payload_bytes [OF assms(1,2)]
  have "unat used \<le> 2100000000" using assms(4,5) by (simp add: WRITE_BUDGET_def word_le_nat_alt)
  then have sum: "unat (used + width * sz) = unat used + unat (width * sz)" using n(2) by (simp add: unat_word_ariths)
  let ?buckets = "map (\<lambda>i. (if grouped then of_nat iteration else of_nat iteration * width + of_nat i) mod write_bucket_count sz)
    [0..<unat width]"
  show ?thesis
  proof (cases "budget < used + width * sz")
    case True
    then show ?thesis using assms(5-7) by (simp add: write_operation_def)
  next
    case False
    then have "unat used + unat width * unat sz \<le> unat budget" using sum n(1) by (simp add: word_le_nat_alt not_less)
    then have "held h + length ?buckets * length payload \<le> unat WRITE_BUDGET" using assms(3,4,7) by simp
    from insert_all_held [OF assms(6) this] obtain rids t where
      "insert_all ins h payload ?buckets = (Inr rids, t)" "good t" "held t = held h + unat width * unat sz"
      using assms(3) by auto
    then show ?thesis using False assms(7) sum n(1) by (auto simp: write_operation_def Let_def not_less)
  qed
qed

lemma write_repetition_held:
  assumes "width \<le> 1000" and "sz \<le> push_bit 20 7" and p: "length payload = unat sz"
    and h: "good h" "held h = unat written" and written: "written \<le> WRITE_BUDGET"
    and fresh: "fresh = Inr (h1, payload1, written1)" "good h1" "held h1 = unat written1" "written1 \<le> WRITE_BUDGET"
  shows "\<exists>result h' written'. write_repetition fresh ins reset io_of clock took grouped payload width sz (h, written) =
      Inr (result, h', written') \<and> good h' \<and> held h' = unat written' \<and> written' \<le> WRITE_BUDGET \<and>
    1 \<le> iterations (fst result) \<and> iterations (fst result) \<le> 300"
proof -
  obtain h2 written2 where s: "(if WRITE_BUDGET < written + width * sz * 4 then map_sum id (\<lambda>(h, _, written). (h, written)) fresh
        else Inr (h, written)) = Inr (h2, written2)" "good h2" "held h2 = unat written2" "written2 \<le> WRITE_BUDGET"
    using h written fresh by (cases "WRITE_BUDGET < written + width * sz * 4") auto
  let ?budget = "WRITE_BUDGET - written2"
  let ?P = "\<lambda>(used, h). used \<le> ?budget \<and> good h \<and> held h = unat written2 + unat used"
  have sum: "unat written2 + unat ?budget \<le> unat WRITE_BUDGET" using s(4) by (simp add: word_le_nat_alt unat_sub)
  have "\<exists>latency t. write_operation ins took grouped payload width sz ?budget u i = (Inr latency, t) \<and> ?P t" if "?P u" for u i
    using write_operation_held [OF assms(1,2) p sum, of "fst u" "snd u" took grouped i] that by (cases u) auto
  moreover have "?P (0, reset h2)" using reset_ok [OF s(2)] s(3) by simp
  ultimately obtain latencies used h3 where r: "run_repetition (width * sz) (write_operation ins took grouped payload width sz ?budget)
        clock (0, reset h2) = (Inr latencies, used, h3)" "?P (used, h3)"
      "length latencies \<le> maximum_iterations (repetition_limits (width * sz))"
    using run_repetition_result [of ?P "write_operation ins took grouped payload width sz ?budget" "(0, reset h2)" "width * sz" clock]
    by auto
  define kept where "kept = (let kept = filter (\<lambda>latency. 1 < latency) latencies in if kept = [] then [1] else kept)"
  have "maximum_iterations (repetition_limits (width * sz)) \<le> 300" by (simp add: repetition_limits_def)
  with r(3) have "length latencies \<le> 300" by simp
  then have "length (filter (\<lambda>latency. 1 < latency) latencies) \<le> 300" by (rule le_trans [OF length_filter_le])
  then have len: "kept \<noteq> []" "length kept \<le> 300" by (simp_all add: kept_def Let_def)
  then have "length kept \<le> 2 ^ 44" by simp
  note stats = from_samples_result [OF len(1) this]
  have "unat (of_nat (length kept) :: u64) = length kept" using len(2) by (simp add: unat_of_nat_nowrap)
  then have its: "1 \<le> (of_nat (length kept) :: u64)" "(of_nat (length kept) :: u64) \<le> 300"
    using len by (simp_all add: word_le_nat_alt Suc_le_eq)
  have "unat (written2 + used) = unat written2 + unat used" "written2 + used \<le> WRITE_BUDGET"
  proof -
    have "unat used \<le> unat WRITE_BUDGET - unat written2"
      using r(2) s(4) by (simp add: word_le_nat_alt unat_sub)
    moreover have "unat written2 \<le> unat WRITE_BUDGET" "unat WRITE_BUDGET = 2100000000"
      using s(4) by (simp_all add: word_le_nat_alt WRITE_BUDGET_def)
    ultimately have "unat written2 + unat used \<le> unat WRITE_BUDGET" "unat written2 + unat used < 18446744073709551616" by linarith+
    then show "unat (written2 + used) = unat written2 + unat used" "written2 + used \<le> WRITE_BUDGET"
      by (simp_all add: unat_word_ariths word_le_nat_alt)
  qed
  then show ?thesis
    using s r(1,2) stats its by (simp add: write_repetition_def Let_def kept_def [symmetric, unfolded Let_def])
qed

lemma write_repetitions_held:
  assumes "width \<le> 1000" and "sz \<le> push_bit 20 7" and p: "length payload = unat sz"
    and "good h" and "held h = unat written" and "written \<le> WRITE_BUDGET"
    and fresh: "fresh = Inr (h1, payload1, written1)" "good h1" "held h1 = unat written1" "written1 \<le> WRITE_BUDGET"
  shows "\<exists>results h'. write_repetitions fresh ins reset io_of grouped payload width sz clocks (h, written) = Inr (results, h') \<and>
    good h' \<and> length results = length clocks \<and>
    list_all (\<lambda>result. 1 \<le> iterations (fst result) \<and> iterations (fst result) \<le> 300) results"
  using assms(4-6)
proof (induction clocks arbitrary: h written)
  case Nil
  then show ?case by (simp add: word_le_nat_alt)
next
  case (Cons times_of clocks)
  obtain clock took where [simp]: "times_of = (clock, took)" by (cases times_of)
  obtain result h' written' where r: "write_repetition fresh ins reset io_of clock took grouped payload width sz (h, written) =
        Inr (result, h', written')" "good h'" "held h' = unat written'" "written' \<le> WRITE_BUDGET"
      "1 \<le> iterations (fst result) \<and> iterations (fst result) \<le> 300"
    using write_repetition_held [OF assms(1-3) Cons.prems fresh] by blast
  then show ?case using Cons.IH [OF r(2-4)] by auto
qed

end

text \<open>
  C33: a test of the write benchmark on the append layout and the blocking device that is not skipped, of
  any size, width and pattern of the benchmark, on a device without failures and with at least 3 GiB of
  room: whatever the clocks say, it opens its heaps, runs all its repetitions, each with between 1 and 300
  measured operations, and the heap it ends with holds copies of the test's payload under the first
  identifiers and nothing else, of no more bytes than the budget.
\<close>

theorem write_test_keeps_budget:
  assumes "healthy sio" and "3221225472 \<le> dr_capacity dir" and "dr_capacity dir \<le> OFF_MAX"
    and "(sz, size_name) \<in> set SIZES" and "width \<in> {1, 10, 32, 1000}" and "write_fits width sz"
  shows "\<exists>results h n. benchmark_write_test enter created order ''append'' ''sync'' name dir sio uio c grouped width sz clocks =
      Inr (results, SyncAppend h) \<and> length results = length clocks \<and>
    list_all (\<lambda>result. 1 \<le> iterations (fst result) \<and> iterations (fst result) \<le> 300) results \<and>
    heap_map h = copies (fst (SplitMix64_fill (SplitMix64_new 7) (replicate (unat sz) 0))) n \<and> n * unat sz \<le> unat WRITE_BUDGET"
proof -
  let ?p = "fst (SplitMix64_fill (SplitMix64_new 7) (replicate (unat sz) 0))"
  have w: "width \<le> 1000" "sz \<le> push_bit 20 7" and "1024 \<le> unat sz" "unat sz \<le> 7340032"
    using assms(4,5) by (auto simp: SIZES_def push_bit_eq_mult)
  moreover have p: "length ?p = unat sz" by (simp add: SplitMix64_fill_def)
  ultimately obtain h0 report io' dir' lim ilim where o: "Heap_open sync_block_io append_open_placement order name (dir\<lparr>dr_files := Map.empty\<rparr>) sio
      (config_for WRITE_BUDGET (EveryN (ucast width))) = (Inr (h0, report), io', dir')" and h0: "written_heap healthy lim ilim ?p 0 h0"
    using blocking.written_heap_created [OF assms(1), where dir = "dir\<lparr>dr_files := Map.empty\<rparr>" and payload = ?p and order = order and name = name
      and policy = "EveryN (ucast width)"] assms(2,3) by auto
  note good = store_goodI [OF h0]
  obtain h written where f: "write_fresh (Inr (SyncAppend h0)) (BenchmarkHeap_insert_into enter c) (BenchmarkHeap_flush enter c) width sz = Inr (h, ?p, written)"
      "store_good lim ilim ?p h" "store_held ?p h = unat written" "written \<le> WRITE_BUDGET"
    using append_store.fresh_held [where enter = enter and c = c, OF assms(6) w refl good(1)] good(2) by auto
  obtain results h' where r: "write_repetitions (Inr (h, ?p, written)) (BenchmarkHeap_insert_into enter c) (BenchmarkHeap_reset_counters enter c)
      (BenchmarkHeap_counters enter c) grouped ?p width sz clocks (h, written) = Inr (results, h')" "store_good lim ilim ?p h'"
      "length results = length clocks" "list_all (\<lambda>result. 1 \<le> iterations (fst result) \<and> iterations (fst result) \<le> 300) results"
    using append_store.write_repetitions_held [where enter = enter and c = c, OF w p f(2-4) refl f(2-4)] by blast
  from store_good_cases [OF r(2)] obtain n h'' where "h' = SyncAppend h''" "written_heap healthy lim ilim ?p n h''" .
  with o f(1) r(1,3,4) p show ?thesis
    by (auto simp: benchmark_write_test_def write_test_def BenchmarkHeap_open_def expect_def written_heap_def)
qed

lemma write_test_keeps_budget_witness:
  "\<exists>results h n. benchmark_write_test script_enter (\<lambda>_. None) id ''append'' ''sync'' ''store'' \<lparr>dr_files = Map.empty, dr_capacity = 4294967296\<rparr>
      SyncIo_new \<lparr>ur_kernel = [], ur_sync_script = [], ur_counters = IoCounters_default\<rparr> \<lparr>uc_entries = 32, uc_depth = 32, uc_chunk = 524288\<rparr>
      True 10 1024 [(\<lambda>_. 0, \<lambda>_. 7), (\<lambda>n. n * 1000000000, \<lambda>_. 7)] = Inr (results, SyncAppend h) \<and>
    length results = 2 \<and> heap_map h = copies (fst (SplitMix64_fill (SplitMix64_new 7) (replicate 1024 0))) n \<and> n * 1024 \<le> unat WRITE_BUDGET"
proof -
  let ?clocks = "[(\<lambda>_. 0, \<lambda>_. 7), (\<lambda>n. n * 1000000000, \<lambda>_. 7)] :: ((nat \<Rightarrow> nat) \<times> (nat \<Rightarrow> u64)) list"
  have fits: "(1024, ''1K'') \<in> set SIZES" "10 \<in> {1, 10, 32, 1000 :: u64}" "write_fits 10 1024" and eqs: "unat (1024 :: u64) = 1024" "length ?clocks = 2"
    by (simp_all add: SIZES_def write_fits_def write_bucket_count_def WRITE_BUDGET_def)
  have room: "3221225472 \<le> dr_capacity \<lparr>dr_files = Map.empty, dr_capacity = 4294967296\<rparr>"
    "dr_capacity \<lparr>dr_files = Map.empty, dr_capacity = 4294967296\<rparr> \<le> OFF_MAX" by simp_all
  from write_test_keeps_budget [OF SyncIo_new_healthy room fits, of script_enter "\<lambda>_. None" id "''store''"
      "\<lparr>ur_kernel = [], ur_sync_script = [], ur_counters = IoCounters_default\<rparr>" "\<lparr>uc_entries = 32, uc_depth = 32, uc_chunk = 524288\<rparr>" True ?clocks]
  show ?thesis unfolding eqs by blast
qed

end
