(* ===== verification/Spec2Isabelle.thy ===== *)
theory Spec2Isabelle
  imports Uring_Heap Lost_Index Costs Bench_Matrix
begin

text \<open>
  A log-structured record heap on disk, \<open>src/src\<close> of the crate \<open>heapstore\<close>, and its correctness.

  \<^bold>\<open>The program.\<close> A heap (\<open>heap.rs\<close>) stores byte payloads under 64-bit identifiers. A payload is a record
  of the data file (\<open>data.rs\<close>), found through a table of slots, the index file (\<open>index.rs\<close>). Where a new
  record goes and which identifier it gets is decided by a placement (\<open>placement.rs\<close>): \<open>append.rs\<close> puts
  records one after the other, \<open>bucket.rs\<close> gives each bucket extents of the data file and regions of the
  identifiers and logs both in a registry file. All three files are paged files (\<open>data.rs\<close>), which stage
  writes in memory and read and write whole pages through a trait of block operations (\<open>io/mod.rs\<close>);
  \<open>io/sync.rs\<close> implements the trait by blocking calls, \<open>io/uring.rs\<close> by operations in flight in an io_uring. The bytes of all files are laid out by \<open>format.rs\<close>,
  with checksums of \<open>crc32.rs\<close>. \<open>rng.rs\<close> makes reproducible payloads, \<open>measure.rs\<close> the statistics of
  samples. The programs \<open>bin/crash.rs\<close> and \<open>bin/bench.rs\<close> test what survives a crash and measure.

  \<^bold>\<open>The theories.\<close> Each models its source file operation by operation, under the names of the source
  (\<open>PagedFile::stage\<close> is \<open>PagedFile_stage\<close>); the parts of a long function are definitions of their own.

  \<^item> \<open>Prelude\<close>: machine integers, byte buffers, little-endian encoding, the errors of \<open>error.rs\<close>.
  \<^item> \<open>Crc32\<close>: \<open>crc32.rs\<close>. The slice-by-eight routine is the bitwise CRC-32C; it detects every burst of 32 bits.
  \<^item> \<open>Format\<close>: \<open>format.rs\<close>. Round trips of headers, slots and rows, page arithmetic and where it wraps.
  \<^item> \<open>Rng\<close>: \<open>rng.rs\<close>. SplitMix64 is a bijection of its state, payloads of different keys differ.
  \<^item> \<open>Block_Io\<close>: \<open>io/mod.rs\<close> and \<open>io/sync.rs\<close>. A file is its bytes, the bytes that survive a crash and the
    size it may grow to. What the operating system does at each call is a script in the state of \<open>SyncIo\<close>.
    The locale \<open>block_io\<close> is the contract of the trait, interpreted by the blocking calls.
  \<^item> \<open>Uring_Io\<close>: \<open>io/uring.rs\<close>, segment by segment and completion by completion. The queues are lists; what
    entering the kernel does is the parameter \<open>enter\<close>. \<open>Uring_Kernel\<close>: what the code relies on in the kernel,
    the locale \<open>uring_kernel\<close>, interpreted by a kernel that follows a script of arbitrary choices. \<open>Uring_Run\<close>:
    the invariant of the loop and that it ends, by what is left to transfer. \<open>Uring_Data\<close>: what has been
    moved at any time. \<open>Uring_Calm\<close>: a kernel that does not fail. \<open>Uring_Split\<close>: the segments cover the requests.
    \<open>Uring\<close>: the contract of the trait. \<open>Uring_Heap\<close>: append heaps on this device, over several lives.
  \<^item> \<open>Paged_File\<close>, \<open>Data_File\<close>: \<open>data.rs\<close>. \<open>pf_view\<close> is what a paged file is seen to hold, the file with the
    staged writes laid over it; \<open>pf_ok\<close> is its invariant. Staging, flushing and reading are overlay,
    identity and lookup on the view. Records written are read back, damaged ones are refused.
  \<^item> \<open>Index_File\<close>: \<open>index.rs\<close>. Slots are read as they were staged, one at a time or in merged page ranges.
  \<^item> \<open>Placement\<close>, \<open>Append\<close>, \<open>Bucket\<close>: \<open>placement.rs\<close>, \<open>append.rs\<close>, \<open>bucket.rs\<close>. The locale \<open>placing\<close> is the contract
    of a placement: the bytes and the identifier it hands out were never handed out before. Both
    placements interpret it.
  \<^item> \<open>Recovery\<close>, \<open>Rebuild\<close>: \<open>recovery.rs\<close>. The buffered walk over the records of a data file visits what a plain
    scan of its bytes visits; a rebuild gives each identifier the slot of its newest record.
  \<^item> \<open>Append_Open\<close>, \<open>Bucket_Open\<close>: the \<open>open\<close> functions of \<open>append.rs\<close> and \<open>bucket.rs\<close>, which find the
    allocator's state from the index or the registry and restore slots for records the index missed.
  \<^item> \<open>Heap\<close>, \<open>Heap_Runs\<close>: \<open>heap.rs\<close>. \<open>heap_map\<close> is the map from identifiers to payloads that the files encode.
    The lemmas are proved once over \<open>block_io\<close> and \<open>placing\<close>; runs of operations refine runs of the map.
  \<^item> \<open>Heap_Open\<close>: \<open>Heap::open\<close>, with its test for broken metadata, its rebuild and its second attempt.
  \<^item> \<open>Whole_Files\<close>, \<open>Reopen\<close>, \<open>Heap_Life\<close>, \<open>Heap_Log\<close>: append heaps over several lives. Their files stay files of
    whole pages under their headers; opening finds in them what was flushed, and after it the log of what
    was committed. A life is a sequence of creation, use, flush, crash and reopening; it refines one map.
  \<^item> \<open>Power_Loss\<close>: an append heap whose power fails between two operations, so that all unsynced writes are lost.
    What reopening finds is a prefix of the insertions and updates, and no shorter one than the sync policy
    promises. \<open>Killed\<close>: an append heap whose process is killed between two insertions; what was written stays,
    what was staged is lost, and the files hold what the last commit wrote.
  \<^item> \<open>Damage\<close>, \<open>Lost_Index\<close>: what the corruption test of \<open>bin/crash.rs\<close> does to the files. A rebuild after a flipped
    payload byte loses one record; a heap whose index is removed opens with the newest version of every record, also of
    those that were deleted.
  \<^item> \<open>Measure\<close>: \<open>measure.rs\<close>. Percentiles with the rounding of doubles are the nearest ranks.
  \<^item> \<open>Workload\<close>, \<open>Kill_Log\<close>, \<open>Kill_Test\<close>, \<open>Corrupt_Test\<close>, \<open>Costs\<close>: \<open>bin/crash.rs\<close> and \<open>bin/crash/costs.rs\<close>. The log of the
    kill test is read back as it was written. On the append layout the test finds no loss, whether the child
    is killed or the power fails, between its turns.
  \<^item> \<open>Bench\<close>, \<open>Write_Store\<close>, \<open>Bench_Matrix\<close>: \<open>bin/bench.rs\<close> and \<open>bin/bench/matrix.rs\<close>. The repetition loop ends within
    its bounds, and the records of an operation are different ones of the store. The locale \<open>budgeted_store\<close> is
    what the write benchmark asks of a store; the append heap on blocking calls interprets it, so that the
    write test of this heap runs to its end and keeps to its budget.
  \<^item> This theory: the statements about heaps of both layouts on a device of blocking calls, and what
    survives a crash.

  \<^bold>\<open>Conventions.\<close> An operation takes the state of the device and its object and returns the result and both
  as they are left, also when it fails. \<open>u64\<close> arithmetic wraps as in a release build; a theorem that
  needs it not to wrap says so by a bound: file offsets stay below \<open>OFF_MAX\<close>, 2 to the 62nd, identifiers
  below \<open>ID_MAX\<close>, grants fewer than \<open>GRANT_MAX\<close>, all beyond what a device can hold. A panic is a value of
  the result type. The walk of recovery runs on fuel, one more than the end of the file for the loop over
  records and two more for the search inside it: every round moves the position forward, and
  \<open>Recovery.walk_is_scan\<close> shows that the fuel is never used up. The order in which a hash map is iterated is
  a parameter, assumed to be a permutation of the keys. After a crash a file holds what was durable.

  The loops of \<open>io/uring.rs\<close> need no fuel: they are partial functions, and \<open>Uring.uring_run_ends_quiet\<close> shows
  that they return; a pointer into a buffer is the number of the buffer and a place in it.

  The repetition loops of the benchmarks recurse on what is left of their maximum, so they need no fuel;
  the time that has passed at each iteration is a parameter.

  \<^bold>\<open>Failures.\<close> A crash and a power failure leave of each file its durable bytes (\<open>crash_dir\<close>): all writes that
  were not synced are lost. A killed process leaves the files as they were written (\<open>left_dir\<close>), and what was
  staged in memory is lost. Neither is assumed to be worse than the other. Both happen between two
  operations, or two turns of a test. A failure in the middle of an operation, and one that keeps some of the
  unsynced pages of a file and loses others, are not covered.

  \<^bold>\<open>Not modelled.\<close> Rates and ratios computed in doubles and their printing (\<open>ops_per_sec\<close>, the last columns of the
  tables), the frequency governor, spawning and killing the child of the kill test, and the calls of the
  \<open>main\<close> functions that only pass arguments on. \<open>main.rs\<close>, \<open>store.rs\<close>, \<open>io_access.rs\<close>, \<open>io_mode.rs\<close>, \<open>block_io.rs\<close>,
  \<open>uring_access.rs\<close>, \<open>uring_io.rs\<close>: not part of the library, which does not include them.
\<close>

section \<open>Concrete heaps\<close>

text \<open>A new heap of each layout, to apply the theorems to.\<close>

definition example_append_heap :: "(SyncIo, AppendPlacement) Heap" where
  "example_append_heap =
     \<lparr>h_io = SyncIo_new, h_placement = example_append, h_data = example_store False, h_index = example_ix,
      h_registry = None, h_config = example_config, h_dir = ''store'', operations_since_sync = 0, armed = True\<rparr>"

definition example_bucket_heap :: "(SyncIo, BucketPlacement) Heap" where
  "example_bucket_heap =
     \<lparr>h_io = SyncIo_new, h_placement = example_bucket, h_data = example_store True, h_index = example_ix,
      h_registry = Some (PagedFile_handle example_file), h_config = example_config, h_dir = ''store'',
      operations_since_sync = 0, armed = True\<rparr>"

abbreviation append_heap_ok :: "(SyncIo, AppendPlacement) Heap \<Rightarrow> bool" where
  "append_heap_ok \<equiv> heap_ok append_good append_owned append_taken"

abbreviation bucket_heap_ok :: "(SyncIo, BucketPlacement) Heap \<Rightarrow> bool" where
  "bucket_heap_ok \<equiv> heap_ok bucket_good bucket_owned bucket_taken"

lemma example_append_heap_ok: "append_heap_ok example_append_heap" "healthy (h_io example_append_heap)"
  by (simp_all add: heap_ok_def example_append_heap_def example_append_good example_store_ok example_ix_ok example_ix_slot
      SyncIo_new_healthy)

lemma example_bucket_heap_ok: "bucket_heap_ok example_bucket_heap" "healthy (h_io example_bucket_heap)"
  by (simp_all add: heap_ok_def example_bucket_heap_def example_bucket_good example_store_ok example_ix_ok example_ix_slot
      SyncIo_new_healthy)

lemma example_heap_map: "heap_map example_append_heap = Map.empty" "heap_map example_bucket_heap = Map.empty"
  by (simp_all add: heap_map_def fun_eq_iff example_append_heap_def example_bucket_heap_def example_ix_slot)

lemma example_record_len:
  "record_len (h_data example_append_heap) payload = 30 + length payload"
  "record_len (h_data example_bucket_heap) payload = 38 + length payload"
  by (simp_all add: record_len_def header_len_def example_append_heap_def example_bucket_heap_def example_store_def)

lemma example_append_room:
  "append_room (h_config example_append_heap) (h_placement example_append_heap) (h_data example_append_heap)
     (h_registry example_append_heap) 0 (of_nat (record_len (h_data example_append_heap) [1, 2, 3]))"
  by (simp only: example_record_len)
    (simp add: append_room_def example_append_heap_def example_append_def example_store_ok example_config_simps)

text \<open>A heap whose first record is staged, and its files.\<close>

lemma stage_first:
  assumes "staged_writes pf = []" and "page_down off = off"
  shows "\<exists>pf'. PagedFile_stage D io pf off parts = (Inr (), io, pf') \<and> pf_file pf' = pf_file pf \<and> pending_bytes pf' = pending_bytes pf + parts_len parts"
  using assms
  by (auto simp: PagedFile_stage_def stage_continue_def stage_overlaps_def flush_if_def MAX_STAGED_WRITES_def stage_push_def stage_head_def
      PagedFile_take_buffer_def Let_def)

lemma example_staged:
  obtains h where "Heap_insert_into sync_block_io append_placement example_append_heap 0 [1, 2, 3] = (Inr 0, h)"
    "pf_file (df_paged_file (h_data h)) = example_file"
proof -
  let ?df = "example_store False"
  have pages: "page_down 4096 = (4096 :: u64)" "page_down (Slot_file_offset 0) = Slot_file_offset 0"
    by (simp_all add: page_down_def PAGE_SIZE_U64_eq Slot_file_offset_def)
  have none: "staged_writes (df_paged_file ?df) = []" "staged_writes (ix_paged_file example_ix) = []"
    "pending_bytes (df_paged_file ?df) = 0" "pending_bytes (ix_paged_file example_ix) = 0" "pf_file (df_paged_file ?df) = example_file"
    by (simp_all add: example_store_def example_ix_def PagedFile_handle_def)
  obtain df' where d: "DataFile_stage_record sync_block_io SyncIo_new ?df 4096 0 0 1 [1, 2, 3] = (Inr (), SyncIo_new, df')"
      "pf_file (df_paged_file df') = example_file" "pending_bytes (df_paged_file df') = 33"
    using stage_first [OF none(1) pages(1), of sync_block_io SyncIo_new "[header_bytes (record_header True 0 0 1 [1, 2, 3]) False, [1, 2, 3]]"] none(3,5)
    unfolding DataFile_stage_record_def Let_def encode_record_header record_header_def [symmetric]
    by (auto simp: parts_len_def header_len_def example_store_def)
  have "length (Slot_encode slot (replicate 16 0)) = 16" for slot by (simp add: Slot_encode_eq)
  then obtain ix' where i: "IndexFile_stage_slot sync_block_io SyncIo_new example_ix 0 (Some \<lparr>sl_offset = 4096, sl_total_len = 33\<rparr>) = (Inr (), SyncIo_new, ix')"
      "pending_bytes (ix_paged_file ix') = 16"
    using stage_first [OF none(2) pages(2), of sync_block_io SyncIo_new "[Slot_encode \<lparr>sl_offset = 4096, sl_total_len = 33\<rparr> (replicate 16 0)]"] none(4)
    unfolding IndexFile_stage_slot_def Let_def SLOT_SIZE_def
    by (auto simp: parts_len_def)
  have a: "AppendPlacement_alloc sync_block_io SyncIo_new example_config example_append ?df None 0 33 =
      (Inr (4096, 0), SyncIo_new, \<lparr>ap_cursor = 4129, ap_next_id = 1\<rparr>, ?df, None)"
    by (simp add: AppendPlacement_alloc_def PagedFile_ensure_alloc_def example_store_ok example_append_def PAGE_SIZE_U64_eq Let_def)
  let ?h = "\<lparr>h_io = SyncIo_new, h_placement = \<lparr>ap_cursor = 4129, ap_next_id = 1\<rparr>, h_data = df', h_index = ix',
      h_registry = None, h_config = example_config, h_dir = ''store'', operations_since_sync = 1, armed = True\<rparr> :: (SyncIo, AppendPlacement) Heap"
  have "Heap_after_write sync_block_io (?h\<lparr>operations_since_sync := 0\<rparr>) = (Inr (), ?h)"
    using d(3) i(2) by (simp add: Heap_after_write_def Let_def example_config_def HeapConfig_default_def push_bit_eq_mult)
  then have "Heap_insert_into sync_block_io append_placement example_append_heap 0 [1, 2, 3] = (Inr 0, ?h)"
    using a d(1) i(1)
    by (simp add: Heap_insert_into_def Heap_alloc_def Heap_stage_record_def Heap_stage_slot_def append_placement_def Placement.defs
        example_append_heap_def DataFile_record_header_len_def header_len_def example_store_def Let_def)
  with d(2) that show thesis by simp
qed
lemma example_bucket_heap_room:
  "bucket_room (h_config example_bucket_heap) (h_placement example_bucket_heap) (h_data example_bucket_heap)
     (h_registry example_bucket_heap) 5 (of_nat (record_len (h_data example_bucket_heap) [1, 2, 3]))"
  by (simp only: example_record_len) (simp add: bucket_room_def example_bucket_heap_def example_bucket_def)

section \<open>The heap is a map\<close>

text \<open>
  C1: every run of operations of an append heap on a device that does not fail (inserts, reads, batched
  reads, updates, deletions, flushes, and lookups that find nothing) is a run of a map from identifiers
  to payloads: each operation answers what the map answers and does to the contents what it does to the
  map. The heap stays well formed throughout.
\<close>

theorem append_heap_refines_map:
  assumes "append_heap_ok h" and "healthy (h_io h)" and "heap_run sync_block_io append_placement append_sane h tr h'"
  shows "append_heap_ok h' \<and> healthy (h_io h') \<and> map_run (heap_map h) tr (heap_map h')"
  by (rule appending.run_refines [OF assms(3,2,1)])

theorem append_heap_refines_map_witness:
  "\<exists>rid h'. heap_run sync_block_io append_placement append_sane example_append_heap [(Insert 0 [1, 2, 3], Id rid), (Flush, Done)] h' \<and>
     map_run Map.empty [(Insert 0 [1, 2, 3], Id rid), (Flush, Done)] (heap_map h')"
proof -
  have len: "record_len (h_data example_append_heap) [1, 2, 3] \<le> OFF_MAX" by (simp add: example_record_len)
  obtain rid h1 where i: "Heap_insert_into sync_block_io append_placement example_append_heap 0 [1, 2, 3] = (Inr rid, h1)"
    "unat rid < ID_MAX" "healthy (h_io h1)"
    using appending.insert_into_completes [OF example_append_heap_ok(2,1) len example_append_room] by blast
  obtain h2 where f: "Heap_flush sync_block_io h1 = (Inr (), h2)"
    using blocking.flush_completes [OF i(3)] by (auto simp: completes_unit)
  have "heap_run sync_block_io append_placement append_sane example_append_heap ([] @ [(Insert 0 [1, 2, 3], Id rid)]) h1"
    using i len by (intro run_step [OF run_nil]) (simp_all add: ret_of_def append_sane_def)
  then have "heap_run sync_block_io append_placement append_sane example_append_heap (([] @ [(Insert 0 [1, 2, 3], Id rid)]) @ [(Flush, Done)]) h2"
    by (rule run_step) (use f in \<open>simp_all add: ret_of_def append_sane_def\<close>)
  then have run: "heap_run sync_block_io append_placement append_sane example_append_heap [(Insert 0 [1, 2, 3], Id rid), (Flush, Done)] h2" by simp
  with append_heap_refines_map [OF example_append_heap_ok run] example_heap_map(1) show ?thesis by auto
qed

text \<open>
  C2: every run of operations of a bucket heap on a device that does not fail is a run of a map from
  identifiers to payloads, whatever extents and regions its buckets are granted on the way.
\<close>

theorem bucket_heap_refines_map:
  assumes "bucket_heap_ok h" and "healthy (h_io h)" and "heap_run sync_block_io bucket_placement bucket_sane h tr h'"
  shows "bucket_heap_ok h' \<and> healthy (h_io h') \<and> map_run (heap_map h) tr (heap_map h')"
  by (rule bucketing.run_refines [OF assms(3,2,1)])

theorem bucket_heap_refines_map_witness:
  "\<exists>rid h'. heap_run sync_block_io bucket_placement bucket_sane example_bucket_heap [(Insert 5 [1, 2, 3], Id rid), (Read rid, Payload [1, 2, 3])] h' \<and>
     map_run Map.empty [(Insert 5 [1, 2, 3], Id rid), (Read rid, Payload [1, 2, 3])] (heap_map h')"
proof -
  have "record_len (h_data example_bucket_heap) [1, 2, 3] \<le> OFF_MAX" by (simp add: example_record_len)
  from bucketing.insert_into_completes [OF example_bucket_heap_ok(2,1) this example_bucket_heap_room]
  obtain rid h1 where c: "Heap_insert_into sync_block_io bucket_placement example_bucket_heap 5 [1, 2, 3] = (Inr rid, h1)" "unat rid < ID_MAX"
      "healthy (h_io h1)" "bucket_heap_ok h1" "heap_map h1 rid = Some [1, 2, 3]" "bucket_sane (h_placement h1)"
    by auto
  have inserted: "heap_run sync_block_io bucket_placement bucket_sane example_bucket_heap ([] @ [(Insert 5 [1, 2, 3], Id rid)]) h1"
    by (rule run_step [OF run_nil]) (use c in \<open>simp_all add: example_record_len ret_of_def\<close>)
  obtain r h2 where e: "Heap_read sync_block_io h1 rid = (r, h2)" by fastforce
  from blocking.read_Inr(2) [OF e c(4,2,3)] c(5) have r: "r = Inr [1, 2, 3]" "heap_stay h1 h2" by simp_all
  then have "h_placement h2 = h_placement h1" by (simp add: heap_stay_def)
  with e r c(2,6) have "heap_run sync_block_io bucket_placement bucket_sane example_bucket_heap
      (([] @ [(Insert 5 [1, 2, 3], Id rid)]) @ [(Read rid, Payload [1, 2, 3])]) h2"
    by (intro run_step [OF inserted]) (simp_all add: ret_of_def)
  then have run: "heap_run sync_block_io bucket_placement bucket_sane example_bucket_heap [(Insert 5 [1, 2, 3], Id rid), (Read rid, Payload [1, 2, 3])] h2"
    by simp
  with bucket_heap_refines_map [OF example_bucket_heap_ok run] example_heap_map(2) show ?thesis by auto
qed

text \<open>
  C23: on a device that does not fail and has room, an insertion into an append heap returns a new
  identifier and the heap then holds the payload under it, and everything else as before.
\<close>

theorem append_insert_completes:
  assumes "append_heap_ok h" and "healthy (h_io h)" and "record_len (h_data h) payload \<le> OFF_MAX"
    and "append_room (h_config h) (h_placement h) (h_data h) (h_registry h) bucket (of_nat (record_len (h_data h) payload))"
  shows "\<exists>rid h'. Heap_insert_into sync_block_io append_placement h bucket payload = (Inr rid, h') \<and>
    append_heap_ok h' \<and> heap_map h rid = None \<and> heap_map h' = (heap_map h)(rid \<mapsto> payload)"
  using appending.insert_into_completes [OF assms(2,1,3,4)] by blast

theorem append_insert_completes_witness:
  "\<exists>rid h'. Heap_insert_into sync_block_io append_placement example_append_heap 0 [1, 2, 3] = (Inr rid, h') \<and>
     heap_map h' = [rid \<mapsto> [1, 2, 3]]"
  using append_insert_completes [OF example_append_heap_ok _ example_append_room] example_heap_map(1)
  by (auto simp: example_record_len)

text \<open>
  C24: on a device that does not fail, an insertion into a bucket whose last extent and region have
  space returns a new identifier, and the heap then holds the payload under it, and everything else as
  before.
\<close>

theorem bucket_insert_completes:
  assumes "bucket_heap_ok h" and "healthy (h_io h)" and "record_len (h_data h) payload \<le> OFF_MAX"
    and "bucket_room (h_config h) (h_placement h) (h_data h) (h_registry h) bucket (of_nat (record_len (h_data h) payload))"
  shows "\<exists>rid h'. Heap_insert_into sync_block_io bucket_placement h bucket payload = (Inr rid, h') \<and>
    bucket_heap_ok h' \<and> heap_map h rid = None \<and> heap_map h' = (heap_map h)(rid \<mapsto> payload)"
  using bucketing.insert_into_completes [OF assms(2,1,3,4)] by blast

theorem bucket_insert_completes_witness:
  "\<exists>rid h'. Heap_insert_into sync_block_io bucket_placement example_bucket_heap 5 [1, 2, 3] = (Inr rid, h') \<and>
     heap_map h' = [rid \<mapsto> [1, 2, 3]]"
  using bucket_insert_completes [OF example_bucket_heap_ok _ example_bucket_heap_room] example_heap_map(2)
  by (auto simp: example_record_len)

text \<open>
  On a device that does not fail, a read returns the payload the heap holds under the identifier,
  or that there is none, and changes nothing the heap holds.
\<close>

theorem heap_read_correct:
  assumes "heap_ok good owned taken h" and "healthy (h_io h)" and "unat rid < ID_MAX"
  shows "\<exists>h'. Heap_read sync_block_io h rid =
      (case heap_map h rid of Some payload \<Rightarrow> Inr payload | None \<Rightarrow> Inl (Err (NotFound rid)), h') \<and>
    heap_map h' = heap_map h \<and> healthy (h_io h')"
proof -
  obtain r h' where c: "Heap_read sync_block_io h rid = (r, h')" by fastforce
  from blocking.read_Inr(2) [OF c assms(1,3,2)] c heap_stay_map show ?thesis by blast
qed

theorem heap_read_correct_witness:
  "\<exists>h'. Heap_read sync_block_io example_append_heap 9 = (Inl (Err (NotFound 9)), h') \<and> heap_map h' = Map.empty"
  using heap_read_correct [OF example_append_heap_ok, of 9] by (auto simp: example_heap_map)

text \<open>
  On a device that does not fail, a batched read returns the payloads of all identifiers in the
  order asked for, or names the first one that is missing.
\<close>

theorem heap_read_batch_correct:
  assumes "heap_ok good owned taken h" and "healthy (h_io h)" and "\<forall>rid \<in> set ids. unat rid < ID_MAX"
  shows "\<exists>h'. Heap_read_batch sync_block_io h ids =
      (case find (\<lambda>rid. heap_map h rid = None) ids of
         Some rid \<Rightarrow> Inl (Err (NotFound rid)) | None \<Rightarrow> Inr (map (\<lambda>rid. the (heap_map h rid)) ids), h') \<and>
    heap_map h' = heap_map h"
  using blocking.read_batch_steady [OF assms(2,1,3)] heap_stay_map by blast

theorem heap_read_batch_correct_witness:
  "\<exists>h'. Heap_read_batch sync_block_io example_append_heap [3, 4] = (Inl (Err (NotFound 3)), h')"
  using heap_read_batch_correct [OF example_append_heap_ok, of "[3, 4]"] by (auto simp: example_heap_map)

text \<open>
  On a device that does not fail, deleting an identifier of an append heap removes exactly it, and
  deleting one that is not there says so and changes nothing.
\<close>

theorem append_delete_correct:
  assumes "append_heap_ok h" and "healthy (h_io h)" and "unat rid < ID_MAX"
  shows "\<exists>h'. Heap_delete sync_block_io h rid = (if heap_map h rid = None then Inl (Err (NotFound rid)) else Inr (), h') \<and>
    append_heap_ok h' \<and> heap_map h' = (heap_map h)(rid := None)"
proof (cases "heap_map h rid")
  case None
  then obtain h' where "Heap_delete sync_block_io h rid = (Inl (Err (NotFound rid)), h')" "heap_stay h h'"
    using appending.delete_completes [OF assms(2,1,3)] by auto
  with None appending.heap_ok_stay [OF assms(1)] heap_stay_map show ?thesis by (auto simp: fun_upd_idem)
next
  case (Some old)
  then obtain h' where d: "Heap_delete sync_block_io h rid = (Inr (), h')"
    using appending.delete_completes [OF assms(2,1,3)] by (auto simp: completes_unit)
  with appending.delete_Inr [OF d assms(1,3)] Some show ?thesis by auto
qed

theorem append_delete_correct_witness:
  "\<exists>h'. Heap_delete sync_block_io example_append_heap 2 = (Inl (Err (NotFound 2)), h')"
  using append_delete_correct [OF example_append_heap_ok, of 2] by (auto simp: example_heap_map)

section \<open>What survives a crash\<close>

text \<open>
  C9: on a device that does not fail a flush succeeds, and whatever happens afterwards the heap found
  on the device holds exactly what the heap held when it was flushed.
\<close>

theorem flush_is_durable:
  assumes "heap_ok good owned taken h" and "healthy (h_io h)"
  shows "\<exists>h'. Heap_flush sync_block_io h = (Inr (), h') \<and> heap_map h' = heap_map h \<and> heap_map (heap_crash h') = heap_map h"
proof -
  obtain h' where f: "Heap_flush sync_block_io h = (Inr (), h')"
    using blocking.flush_completes [OF assms(2)] by (auto simp: completes_unit)
  from blocking.flush_crash [OF f heap_okD(2,3) [OF assms(1)]]
    blocking.Heap_flush_Inr [OF f heap_okD(2,3) [OF assms(1)]] heap_stay_map [of h h'] f
  show ?thesis by simp
qed

theorem flush_is_durable_witness:
  "\<exists>h'. Heap_flush sync_block_io example_append_heap = (Inr (), h') \<and> heap_map (heap_crash h') = Map.empty"
  using flush_is_durable [OF example_append_heap_ok] example_heap_map(1) by auto

text \<open>
  C25: dropping an open heap on a device that does not fail leaves everything it holds on durable
  storage; a simulated crash leaves the files exactly as they were.
\<close>

theorem drop_is_durable:
  assumes "heap_ok good owned taken h" and "healthy (h_io h)" and "armed h"
  shows "heap_map (heap_crash (Heap_drop sync_block_io h)) = heap_map h \<and>
    h_data (Heap_simulate_crash sync_block_io h) = h_data h \<and> h_index (Heap_simulate_crash sync_block_io h) = h_index h"
proof -
  obtain h' where f: "Heap_flush sync_block_io h = (Inr (), h')"
    using blocking.flush_completes [OF assms(2)] by (auto simp: completes_unit)
  from blocking.flush_crash [OF f heap_okD(2,3) [OF assms(1)]] f assms(3) show ?thesis
    by (simp add: Heap_drop_def Heap_simulate_crash_def)
qed

theorem drop_is_durable_witness:
  "heap_map (heap_crash (Heap_drop sync_block_io example_append_heap)) = Map.empty"
proof -
  have "armed example_append_heap" by (simp add: example_append_heap_def)
  from drop_is_durable [OF example_append_heap_ok this] example_heap_map(1) show ?thesis by simp
qed

text \<open>
  A commit makes every byte of the data file durable before it writes a page of the index, so that
  when it succeeds all records are durable and all slots are written.
\<close>

theorem commit_makes_data_durable:
  assumes "heap_ok good owned taken h" and "healthy (h_io h)"
  shows "\<exists>h'. Heap_commit sync_block_io h = (Inr (), h') \<and> heap_map h' = heap_map h \<and>
    byte_at (f_durable (pf_file (df_paged_file (h_data h')))) = df_view (h_data h) \<and>
    staged_writes (ix_paged_file (h_index h')) = []"
proof -
  obtain h' where c: "Heap_commit sync_block_io h = (Inr (), h')"
    using blocking.commit_completes [OF assms(2)] by (auto simp: completes_unit)
  from blocking.Heap_commit_Inr [OF c heap_okD(2,3) [OF assms(1)]] c heap_stay_map show ?thesis
    by (auto simp: pf_settled_def)
qed

theorem commit_makes_data_durable_witness:
  "\<exists>h'. Heap_commit sync_block_io example_append_heap = (Inr (), h') \<and> byte_at (f_durable (pf_file (df_paged_file (h_data h')))) 5 = 0"
proof -
  have "df_view (h_data example_append_heap) 5 = 0" by (simp add: example_append_heap_def example_store_ok byte_at_def)
  with commit_makes_data_durable [OF example_append_heap_ok] show ?thesis by metis
qed

text \<open>
  C39: outside a commit the order is not kept. Finding the slot of any identifier, which reading, updating and
  deleting do first, writes every staged slot to the index file, while the data file and the records that
  are staged for it in memory stay as they were. Where the identifier has no live slot a read does no
  more than that, so that the index file is left ahead of the data file.
\<close>

theorem lookup_writes_index_first:
  assumes "heap_ok good owned taken h" and "healthy (h_io h)" and "unat rid < ID_MAX"
  shows "\<exists>r h'. Heap_find_slot sync_block_io h rid = (r, h') \<and> h_data h' = h_data h \<and>
    byte_at (f_content (pf_file (ix_paged_file (h_index h')))) = pf_view (ix_paged_file (h_index h)) \<and>
    (heap_map h rid = None \<longrightarrow> Heap_read sync_block_io h rid = (Inl (Err (NotFound rid)), h'))"
proof -
  let ?pf = "ix_paged_file (h_index h)"
  obtain s io ix where rd: "IndexFile_read_slot sync_block_io (h_io h) (h_index h) rid = (Inr s, io, ix)"
    using blocking.read_slot_steady [OF assms(2)] by blast
  have "heap_map h rid = None \<longrightarrow> s = None" using blocking.read_slot_Inr [OF rd heap_okD(3) [OF assms(1)] assms(3)] by (simp add: heap_map_None)
  moreover obtain b n pf where ra: "PagedFile_read_aligned sync_block_io (h_io h) ?pf (Slot_file_offset rid) (of_nat SLOT_SIZE) = (Inr (b, n), io, pf)"
    and ix: "ix = (h_index h)\<lparr>ix_paged_file := PagedFile_recycle pf b\<rparr>"
    using rd by (auto simp: IndexFile_read_slot_def IndexFile_read_slot_bytes_def split: prod.splits sum.splits)
  have "unat (Slot_file_offset rid) + unat (of_nat SLOT_SIZE :: u64) \<le> OFF_MAX"
    using assms(3) by (simp add: slot_offset SLOT_SIZE_def)
  then have "pf_settled (pf_view ?pf) pf" using blocking.read_aligned_Inr(2) [OF ra heap_okD(3) [OF assms(1)]] by blast
  then have "byte_at (f_content (pf_file (ix_paged_file ix))) = pf_view ?pf"
    by (simp add: ix pf_settled_def PagedFile_recycle_def)
  ultimately show ?thesis using rd by (cases s) (auto simp: Heap_read_def Heap_find_slot_def)
qed

text \<open>After one insertion and one lookup the index file leads to a record that the data file has not got.\<close>

theorem lookup_writes_index_first_witness:
  "\<exists>h h' slot. Heap_insert_into sync_block_io append_placement example_append_heap 0 [1, 2, 3] = (Inr 0, h) \<and>
     Heap_read sync_block_io h 7 = (Inl (Err (NotFound 7)), h') \<and>
     ix_slot \<lparr>ix_paged_file = PagedFile_handle (pf_file (ix_paged_file (h_index h')))\<rparr> 0 = Live slot \<and>
     f_content (pf_file (df_paged_file (h_data h'))) = replicate 4096 0 \<and> heap_map h 0 = Some [1, 2, 3]"
proof -
  obtain h where i: "Heap_insert_into sync_block_io append_placement example_append_heap 0 [1, 2, 3] = (Inr 0, h)"
    "pf_file (df_paged_file (h_data h)) = example_file" by (rule example_staged)
  have len: "record_len (h_data example_append_heap) [1, 2, 3] \<le> OFF_MAX" by (simp add: example_record_len)
  have h: "append_heap_ok h" "heap_map h = [0 \<mapsto> [1, 2, 3]]" "healthy (h_io h)"
    using appending.insert_into_completes [OF example_append_heap_ok(2,1) len example_append_room] i(1)
    by (auto simp: example_heap_map)
  have "unat (7 :: u64) < ID_MAX" by simp
  from lookup_writes_index_first [OF h(1,3) this] h(2) obtain h' where
    h': "Heap_read sync_block_io h 7 = (Inl (Err (NotFound 7)), h')" "h_data h' = h_data h"
      "byte_at (f_content (pf_file (ix_paged_file (h_index h')))) = pf_view (ix_paged_file (h_index h))" by auto
  obtain slot where "ix_slot (h_index h) 0 = Live slot" using fun_cong [OF h(2), of 0] by (auto simp: heap_map_def split: SlotState.splits)
  moreover have "pf_view (PagedFile_handle (pf_file (ix_paged_file (h_index h')))) = pf_view (ix_paged_file (h_index h))"
    using h'(3) by (simp add: pf_view_handle)
  then have "ix_slot \<lparr>ix_paged_file = PagedFile_handle (pf_file (ix_paged_file (h_index h')))\<rparr> = ix_slot (h_index h)"
    by (intro ix_slot_view) simp
  ultimately show ?thesis using i h'(1,2) h(2) by (auto simp: example_file_def)
qed

text \<open>
  Under the policy to sync every \<open>n\<close> operations, the write that completes a multiple of \<open>n\<close> (the
  counter wraps at \<open>2 ^ 32\<close>) leaves every byte of the data file durable.
\<close>

theorem every_n_syncs:
  assumes "heap_ok good owned taken h" and "healthy (h_io h)" and "sync_policy (h_config h) = EveryN n" and "0 < n"
    and "(operations_since_sync h + 1) mod n = 0"
  shows "\<exists>h'. Heap_after_write sync_block_io h = (Inr (), h') \<and> heap_map h' = heap_map h \<and>
    byte_at (f_durable (pf_file (df_paged_file (h_data h')))) = df_view (h_data h)"
proof -
  let ?h = "h\<lparr>operations_since_sync := operations_since_sync h + 1\<rparr>"
  have eq: "Heap_after_write sync_block_io h = Heap_commit sync_block_io ?h"
    using assms(3-5) by (simp add: Heap_after_write_def Let_def)
  obtain h' where c: "Heap_commit sync_block_io ?h = (Inr (), h')"
    using blocking.commit_completes [of ?h] assms(2) by (auto simp: completes_unit)
  have "heap_map ?h = heap_map h" by (rule heap_stay_map) (use heap_okD(2,3) [OF assms(1)] in \<open>simp add: heap_stay_def df_stay_def pf_extent_def\<close>)
  with blocking.Heap_commit_Inr [OF c] heap_okD(2,3) [OF assms(1)] heap_stay_map [of ?h h'] c eq show ?thesis by simp
qed

theorem every_n_syncs_witness:
  "\<exists>h'. Heap_after_write sync_block_io (example_append_heap\<lparr>h_config := example_config\<lparr>sync_policy := EveryN 3\<rparr>, operations_since_sync := 5\<rparr>) = (Inr (), h')"
proof -
  let ?h = "example_append_heap\<lparr>h_config := example_config\<lparr>sync_policy := EveryN 3\<rparr>, operations_since_sync := 5\<rparr>"
  have "append_good (example_config\<lparr>sync_policy := EveryN 3\<rparr>) example_append (example_store False)"
    using example_append_good [of False] by (simp add: append_good_def)
  then have "append_heap_ok ?h" using example_append_heap_ok(1) by (simp add: heap_ok_def example_append_heap_def)
  moreover have "healthy (h_io ?h)" using example_append_heap_ok(2) by simp
  ultimately show ?thesis using every_n_syncs [of append_good append_owned append_taken ?h 3] by auto
qed

end
